(* ===== verification/Prelude.thy ===== *)
theory Prelude
  imports Main "HOL-Library.Word" "HOL-Library.Monad_Syntax"
begin

text \<open>
  Shared vocabulary of the development: names for the C integer types, the range check for
  the C type \<open>int\<close> (signed overflow is an error, not a wrap), a generic driver for
  loops that may not end, and the collection of constants the components extend.
\<close>

named_theorems code_consts \<open>values of the numeric constants of the sources\<close>

section \<open>C integer types\<close>

type_synonym u8 = "8 word"
type_synonym u16 = "16 word"
type_synonym u32 = "32 word"
type_synonym u64 = "64 word"

definition c_int_ok :: "int \<Rightarrow> bool" where
  "c_int_ok x \<longleftrightarrow> - (2 ^ 31) \<le> x \<and> x < 2 ^ 31"

lemma pos_int_Suc:
  assumes "1 \<le> (k::int)" and "k \<le> int b"
  obtains m where "k = int (Suc m)" and "Suc m \<le> b"
proof
  show "k = int (Suc (nat k - 1))" "Suc (nat k - 1) \<le> b" using assms by auto
qed

lemma u16_less: "unat (w :: u16) < 65536"
  using unsigned_less [of w] by simp

lemma unat_u16_u32 [simp]: "unat (ucast (w :: u16) :: u32) = unat w"
  using u16_less [of w] by (simp add: unsigned_ucast_eq take_bit_eq_mod)

lemma ucast_u16_of_nat: "(ucast (w :: u16) :: u32) = of_nat (unat w)"
  using u16_less [of w] by (simp add: word_unat_eq_iff unat_of_nat)

lemma unat_Suc_less:
  assumes "w < (v :: 'a::len word)"
  shows "unat (w + 1) = Suc (unat w)"
proof -
  have "unat w < unat v" using assms by (simp add: word_less_nat_alt)
  moreover have "unat v < 2 ^ LENGTH('a)" by (rule unsigned_less)
  ultimately have "unat w + 1 < 2 ^ LENGTH('a)" by linarith
  then show ?thesis using unat_add_lem [of w 1] by simp
qed

lemma u64_less: "unat (w :: u64) < 2 ^ 64"
  using unsigned_less [of w] by simp

lemma unat_pow2_u64: "k < 64 \<Longrightarrow> unat (2 ^ k :: u64) = 2 ^ k"
  using unat_of_nat [of "2 ^ k", where 'a = 64] power_strict_increasing [of k 64 "2::nat"]
  by simp

lemma unat_of_nat_u64: "n < 2 ^ 64 \<Longrightarrow> unat (of_nat n :: u64) = n"
  by (simp add: unat_of_nat)

lemma unat_shift_less: "(w :: 'a::len word) \<noteq> 0 \<Longrightarrow> unat (drop_bit 1 w) < unat w"
  unfolding unat_drop_bit_eq unfolding drop_bit_eq_div power_one_right
  by (intro div_less_dividend) (simp_all add: unat_gt_0)

text \<open>Positions of a ring of \<open>n\<close> slots counted from \<open>t\<close>.\<close>

lemma ring_inj:
  assumes "(t + i) mod n = (t + j) mod n" and "i < n" and "j < (n::nat)"
  shows "i = j"
proof -
  have "int n dvd int (t + i) - int (t + j)"
    using assms(1) by (metis mod_eq_dvd_iff of_nat_mod)
  then have "int n dvd int i - int j" by simp
  then show ?thesis
    using assms(2,3) zdvd_imp_le [of "int n" "int i - int j"] zdvd_imp_le [of "int n" "int j - int i"]
    by (cases "i < j"; cases "j < i") (auto simp: dvd_diff_commute)
qed

lemma ring_index:
  assumes "t < n" and "i \<le> (n::nat)"
  shows "(t + i) mod n = (if n \<le> t + i then t + i - n else t + i)"
  using assms by (simp add: mod_if)

lemma slots_disjoint:
  assumes "i \<noteq> (j::nat)"
  shows "i * k + k \<le> j * k \<or> j * k + k \<le> i * k"
proof -
  have "Suc i \<le> j \<or> Suc j \<le> i" using assms by auto
  then have "Suc i * k \<le> j * k \<or> Suc j * k \<le> i * k" using mult_le_mono1 by blast
  then show ?thesis by (simp add: add.commute)
qed

lemma slot_in_range: "i < (n::nat) \<Longrightarrow> i * k + k \<le> n * k"
  using mult_le_mono1 [of "Suc i" n k] by simp

lemma dvd_gap:
  assumes "d dvd m" "d dvd n" "m < (n :: nat)"
  shows "m + d \<le> n"
proof -
  have "d \<le> n - m" using assms by (intro dvd_imp_le dvd_diff_nat) auto
  then show ?thesis using assms(3) by linarith
qed

lemma drop_eq_Cons: "drop n xs = y # ys \<Longrightarrow> n < length xs \<and> xs ! n = y \<and> drop (Suc n) xs = ys"
  by (metis drop_all list.distinct(1) list.sel(3) not_le nth_via_drop drop_Suc tl_drop)

lemma tl_map_upt: "tl (map g [0..<n]) = map (\<lambda>i. g (Suc i)) [0..<n - 1]"
  by (cases n) (simp_all add: upt_conv_Cons map_Suc_upt [symmetric] comp_def del: upt_Suc)

section \<open>Loops driven by a step function\<close>

text \<open>
  A \<open>while (1)\<close> loop whose body is a step function: \<open>run\<close> iterates the body until
  it halts; \<open>None\<close> means that it never does.
\<close>

datatype ('s, 'r) outcome = Running 's | Halted 'r

partial_function (option) run :: "('s \<Rightarrow> ('s, 'r) outcome) \<Rightarrow> 's \<Rightarrow> 'r option" where
  "run step s = (case step s of Running s' \<Rightarrow> run step s' | Halted r \<Rightarrow> Some r)"

lemma run_Running: "step s = Running s' \<Longrightarrow> run step s = run step s'"
  by (simp add: run.simps [of step s])

lemma run_Halted: "step s = Halted r \<Longrightarrow> run step s = Some r"
  by (simp add: run.simps [of step s])


section \<open>Byte buffers\<close>

text \<open>
  A buffer is the list of its bytes.  An access outside it is a fault, \<open>None\<close>: C has no
  check there, so every theorem about a buffer shows that its accesses stay inside.
\<close>

type_synonym bytes = "u8 list"

definition read_bytes :: "nat \<Rightarrow> nat \<Rightarrow> bytes \<Rightarrow> bytes option" where
  "read_bytes off len m = (if off + len \<le> length m then Some (take len (drop off m)) else None)"

definition write_bytes :: "nat \<Rightarrow> bytes \<Rightarrow> bytes \<Rightarrow> bytes option" where
  "write_bytes off d m =
     (if off + length d \<le> length m then Some (take off m @ d @ drop (off + length d) m) else None)"

lemma write_bytes_Some:
  "write_bytes off d m = Some m' \<longleftrightarrow>
     off + length d \<le> length m \<and> m' = take off m @ d @ drop (off + length d) m"
  unfolding write_bytes_def by (cases "off + length d \<le> length m") (simp_all add: eq_commute)

lemma write_bytes_length: "write_bytes off d m = Some m' \<Longrightarrow> length m' = length m"
  unfolding write_bytes_Some by simp

lemma read_write_same:
  assumes "write_bytes off d m = Some m'"
  shows "read_bytes off (length d) m' = Some d"
proof -
  have "off + length d \<le> length m" and m': "m' = take off m @ d @ drop (off + length d) m"
    using assms by (simp_all only: write_bytes_Some)
  then show ?thesis by (simp add: read_bytes_def)
qed

lemma read_write_disjoint:
  assumes "write_bytes off d m = Some m'" and "a + k \<le> off \<or> off + length d \<le> a"
  shows "read_bytes a k m' = read_bytes a k m"
proof -
  have m': "m' = take off m @ d @ drop (off + length d) m" and le: "off + length d \<le> length m"
    using assms(1) by (simp_all only: write_bytes_Some)
  have len: "length m' = length m" by (rule write_bytes_length [OF assms(1)])
  have "take k (drop a m') = take k (drop a m)"
    using assms(2)
  proof
    assume "a + k \<le> off"
    then have "take (a + k) m' = take (a + k) m" using le by (simp add: m')
    then show ?thesis by (metis drop_take add_diff_cancel_left')
  next
    assume far: "off + length d \<le> a"
    then have "drop a m' = drop (a - (off + length d)) (drop (off + length d) m)"
      using le by (simp add: m')
    with far show ?thesis by simp
  qed
  with len show ?thesis by (simp add: read_bytes_def)
qed

lemma write_bytes_exists: "off + length d \<le> length m \<Longrightarrow> \<exists>m'. write_bytes off d m = Some m'"
  by (simp add: write_bytes_def)

lemma read_bytes_exists: "off + len \<le> length m \<Longrightarrow> \<exists>d. read_bytes off len m = Some d"
  by (simp add: read_bytes_def)

lemma read_bytes_length: "read_bytes off len m = Some d \<Longrightarrow> length d = len"
  unfolding read_bytes_def by (cases "off + len \<le> length m") auto

end
