(* ===== verification/Hanoi.thy ===== *)
theory Hanoi
  imports Prelude
begin

text \<open>
  The three Tower of Hanoi programs of \<open>course_code/lecture_2\<close>: the recursive one
  (\<open>hanoi-r.c\<close>), the explicit-stack interpreter of the recursion (\<open>hanoi-nr.c\<close>, 64
  frames) and the stage machine (\<open>hanoi-o3mini.c\<close>, 1000 frames).  The theory shows that
  the two loops return, that they print the moves of the recursion, that the printed moves
  solve the puzzle, and what each loop does on inputs the recursion never returns on.
\<close>

section \<open>The recursive program\<close>

type_synonym move = "char \<times> char"

datatype c_error = SignedOverflow | StackOverflow | StackUnderflow | AssertFailed

text \<open>
  \<open>hanoi_r\<close> returns the printed moves and the count; \<open>None\<close> is a call that does not
  return; adding up the counts past the range of \<open>int\<close> is the error \<open>SignedOverflow\<close>.
\<close>

partial_function (option) hanoi_r ::
  "int \<Rightarrow> char \<Rightarrow> char \<Rightarrow> char \<Rightarrow> (c_error + move list \<times> int) option" where
  "hanoi_r n fr t via =
     (if n = 1 then Some (Inr ([(fr, t)], 1))
      else if \<not> c_int_ok (n - 1) then Some (Inl SignedOverflow)
      else Option.bind (hanoi_r (n - 1) fr via t) (\<lambda>r1. case r1 of Inl e \<Rightarrow> Some (Inl e)
        | Inr p1 \<Rightarrow> Option.bind (hanoi_r 1 fr t via) (\<lambda>r. case r of Inl e \<Rightarrow> Some (Inl e)
        | Inr p \<Rightarrow> Option.bind (hanoi_r (n - 1) via t fr) (\<lambda>r2. case r2 of Inl e \<Rightarrow> Some (Inl e)
        | Inr p2 \<Rightarrow>
            if \<not> c_int_ok (snd p1 + snd p2) \<or> \<not> c_int_ok (snd p1 + snd p2 + 1)
            then Some (Inl SignedOverflow)
            else Some (Inr (fst p1 @ fst p @ fst p2, snd p1 + snd p2 + 1))))))"

section \<open>The explicit-stack interpreter\<close>

record nr_frame =
  nr_pc :: int
  nr_n :: int
  nr_from :: char
  nr_to :: char
  nr_via :: char
  nr_c1 :: int
  nr_c2 :: int

record nr_state =
  nr_stk :: "nr_frame list"
  nr_retval :: int
  nr_out :: "move list"

definition NR_STACK :: nat where
  "NR_STACK = 64"

text \<open>
  The stack is a list with the top frame first.  \<open>call\<close> writes \<open>*(++top)\<close>: past the
  64th frame that is outside the array, the error \<open>StackOverflow\<close>.
\<close>

definition nr_call :: "int \<Rightarrow> char \<Rightarrow> char \<Rightarrow> char \<Rightarrow> nr_state \<Rightarrow> c_error + nr_state" where
  "nr_call k fr t via s =
     (if length (nr_stk s) < NR_STACK
      then Inr (s\<lparr>nr_stk := \<lparr>nr_pc = 0, nr_n = k, nr_from = fr, nr_to = t, nr_via = via, nr_c1 = 0, nr_c2 = 0\<rparr> # nr_stk s\<rparr>)
      else Inl StackOverflow)"

definition nr_ret :: "int \<Rightarrow> nr_state \<Rightarrow> c_error + nr_state" where
  "nr_ret v s = Inr (s\<lparr>nr_stk := tl (nr_stk s), nr_retval := v\<rparr>)"

text \<open>
  The \<open>switch\<close> on the program counter of the top frame \<open>f\<close>.  The assignment
  \<open>f->pc = next_pc\<close> after it goes to the frame that was on top before: it is done first
  here, since no case reads the counter again.
\<close>

definition nr_switch :: "nr_frame \<Rightarrow> nr_state \<Rightarrow> c_error + nr_state" where
  "nr_switch f s =
     (if nr_pc f = 0 then
        (if nr_n f = 1 then nr_ret 1 (s\<lparr>nr_out := nr_out s @ [(nr_from f, nr_to f)]\<rparr>) else Inr s)
      else if nr_pc f = 1 then
        (if c_int_ok (nr_n f - 1) then nr_call (nr_n f - 1) (nr_from f) (nr_via f) (nr_to f) s
         else Inl SignedOverflow)
      else if nr_pc f = 2 then Inr (s\<lparr>nr_stk := (hd (nr_stk s))\<lparr>nr_c1 := nr_retval s\<rparr> # tl (nr_stk s)\<rparr>)
      else if nr_pc f = 3 then nr_call 1 (nr_from f) (nr_to f) (nr_via f) s
      else if nr_pc f = 4 then
        (if c_int_ok (nr_n f - 1) then nr_call (nr_n f - 1) (nr_via f) (nr_to f) (nr_from f) s
         else Inl SignedOverflow)
      else if nr_pc f = 5 then Inr (s\<lparr>nr_stk := (hd (nr_stk s))\<lparr>nr_c2 := nr_retval s\<rparr> # tl (nr_stk s)\<rparr>)
      else if nr_pc f = 6 then
        (if c_int_ok (nr_c1 f + nr_c2 f) \<and> c_int_ok (nr_c1 f + nr_c2 f + 1) then nr_ret (nr_c1 f + nr_c2 f + 1) s
         else Inl SignedOverflow)
      else Inl AssertFailed)"

definition nr_step :: "nr_state \<Rightarrow> (nr_state, c_error + move list \<times> int) outcome" where
  "nr_step s =
     (case nr_stk s of
        [] \<Rightarrow> Halted (Inr (nr_out s, nr_retval s))
      | f # fs \<Rightarrow>
          (case nr_switch f (s\<lparr>nr_stk := f\<lparr>nr_pc := nr_pc f + 1\<rparr> # fs\<rparr>) of
             Inl e \<Rightarrow> Halted (Inl e)
           | Inr s' \<Rightarrow> Running s'))"

definition hanoi_nr :: "int \<Rightarrow> char \<Rightarrow> char \<Rightarrow> char \<Rightarrow> (c_error + move list \<times> int) option" where
  "hanoi_nr k fr t via =
     (case nr_call k fr t via \<lparr>nr_stk = [], nr_retval = 0, nr_out = []\<rparr> of
        Inl e \<Rightarrow> Some (Inl e)
      | Inr s \<Rightarrow> run nr_step s)"

section \<open>The stage machine\<close>

record o3_frame =
  o3_n :: int
  o3_from :: char
  o3_aux :: char
  o3_to :: char
  o3_stage :: int

record o3_state =
  o3_stack :: "o3_frame list"
  o3_moved :: "move list"

definition STACK_SIZE :: nat where
  "STACK_SIZE = 1000"

text \<open>\<open>push\<close> and \<open>pop\<close> exit with status 1 on a full and on an empty stack.\<close>

definition o3_push :: "o3_frame \<Rightarrow> o3_state \<Rightarrow> c_error + o3_state" where
  "o3_push f s =
     (if length (o3_stack s) < STACK_SIZE then Inr (s\<lparr>o3_stack := f # o3_stack s\<rparr>)
      else Inl StackOverflow)"

definition o3_pop :: "o3_state \<Rightarrow> c_error + o3_state" where
  "o3_pop s =
     (case o3_stack s of [] \<Rightarrow> Inl StackUnderflow | f # fs \<Rightarrow> Inr (s\<lparr>o3_stack := fs\<rparr>))"

definition o3_move :: "char \<Rightarrow> char \<Rightarrow> o3_state \<Rightarrow> o3_state" where
  "o3_move fr t s = s\<lparr>o3_moved := o3_moved s @ [(fr, t)]\<rparr>"

definition o3_body :: "o3_frame \<Rightarrow> o3_frame list \<Rightarrow> o3_state \<Rightarrow> c_error + o3_state" where
  "o3_body f fs s =
     (if o3_n f = 1 \<and> o3_stage f = 0 then o3_pop (o3_move (o3_from f) (o3_to f) s)
      else if o3_stage f = 0 then
        (if \<not> c_int_ok (o3_n f - 1) then Inl SignedOverflow
         else o3_push \<lparr>o3_n = o3_n f - 1, o3_from = o3_from f, o3_aux = o3_to f, o3_to = o3_aux f, o3_stage = 0\<rparr>
                (s\<lparr>o3_stack := f\<lparr>o3_stage := 1\<rparr> # fs\<rparr>))
      else if o3_stage f = 1 then
        (if \<not> c_int_ok (o3_n f - 1) then Inl SignedOverflow
         else o3_push \<lparr>o3_n = o3_n f - 1, o3_from = o3_aux f, o3_aux = o3_from f, o3_to = o3_to f, o3_stage = 0\<rparr>
                ((o3_move (o3_from f) (o3_to f) s)\<lparr>o3_stack := f\<lparr>o3_stage := 2\<rparr> # fs\<rparr>))
      else o3_pop s)"

definition o3_step :: "o3_state \<Rightarrow> (o3_state, c_error + move list) outcome" where
  "o3_step s =
     (case o3_stack s of
        [] \<Rightarrow> Halted (Inr (o3_moved s))
      | f # fs \<Rightarrow> (case o3_body f fs s of Inl e \<Rightarrow> Halted (Inl e) | Inr s' \<Rightarrow> Running s'))"

definition hanoi_o3 :: "int \<Rightarrow> char \<Rightarrow> char \<Rightarrow> char \<Rightarrow> (c_error + move list) option" where
  "hanoi_o3 k fr aux t =
     (case o3_push \<lparr>o3_n = k, o3_from = fr, o3_aux = aux, o3_to = t, o3_stage = 0\<rparr> \<lparr>o3_stack = [], o3_moved = []\<rparr> of
        Inl e \<Rightarrow> Some (Inl e)
      | Inr s \<Rightarrow> run o3_step s)"

section \<open>The puzzle\<close>

text \<open>Reference: the moves of the recursion, and the pegs they act on (top disk first).\<close>

fun moves :: "nat \<Rightarrow> char \<Rightarrow> char \<Rightarrow> char \<Rightarrow> move list" where
  "moves 0 fr t via = []"
| "moves (Suc k) fr t via = moves k fr via t @ [(fr, t)] @ moves k via t fr"

type_synonym pegs = "char \<Rightarrow> nat list"

definition legal :: "pegs \<Rightarrow> move \<Rightarrow> bool" where
  "legal p m \<longleftrightarrow>
     p (fst m) \<noteq> [] \<and> (p (snd m) = [] \<or> hd (p (fst m)) < hd (p (snd m)))"

definition apply_move :: "pegs \<Rightarrow> move \<Rightarrow> pegs" where
  "apply_move p m =
     (let p' = p(fst m := tl (p (fst m))) in p'(snd m := hd (p (fst m)) # p' (snd m)))"

fun play :: "pegs \<Rightarrow> move list \<Rightarrow> pegs option" where
  "play p [] = Some p"
| "play p (m # ms) = (if legal p m then play (apply_move p m) ms else None)"


section \<open>The recursion\<close>

lemma length_moves: "length (moves k fr t via) = 2 ^ k - 1"
proof (induction k arbitrary: fr t via)
  case (Suc k)
  have "(1::nat) \<le> 2 ^ k" by simp
  then show ?case by (simp add: Suc.IH)
qed simp

text \<open>The counts added up for at most 31 disks stay in the range of \<open>int\<close>.\<close>

lemma counts_ok:
  assumes "Suc (Suc k) \<le> 31"
  defines "m \<equiv> 2 ^ Suc k - 1 :: int"
  shows "c_int_ok (m + m)" "c_int_ok (m + m + 1)" "c_int_ok (1 + int k)"
proof -
  define p where "p = (2::int) ^ k"
  have "p \<le> 2 ^ 29" unfolding p_def using assms(1) by (intro power_increasing) auto
  moreover have "0 < p" by (simp add: p_def)
  moreover have "m = 2 * p - 1" by (simp add: m_def p_def)
  ultimately show "c_int_ok (m + m)" "c_int_ok (m + m + 1)" "c_int_ok (1 + int k)"
    using assms(1) by (auto simp: c_int_ok_def)
qed

lemma hanoi_r_returns:
  assumes "Suc k \<le> 31"
  shows "hanoi_r (int (Suc k)) fr t via = Some (Inr (moves (Suc k) fr t via, 2 ^ Suc k - 1))"
  using assms
proof (induction k arbitrary: fr t via)
  case 0
  then show ?case by (simp add: hanoi_r.simps)
next
  case (Suc k)
  let ?m = "2 ^ Suc k - 1 :: int"
  have one: "hanoi_r 1 fr t via = Some (Inr ([(fr, t)], 1))" for fr t via
    by (simp add: hanoi_r.simps)
  note ok = counts_ok [OF Suc.prems]
  have "hanoi_r (int (Suc k)) fr t via = Some (Inr (moves (Suc k) fr t via, ?m))" for fr t via
    using Suc by simp
  then show ?case
    using ok by (subst hanoi_r.simps) (simp add: one)
qed


section \<open>The explicit stack runs the recursion\<close>

abbreviation nr_frame_of :: "int \<Rightarrow> char \<Rightarrow> char \<Rightarrow> char \<Rightarrow> nr_frame" where
  "nr_frame_of k fr t via \<equiv>
     \<lparr>nr_pc = 0, nr_n = k, nr_from = fr, nr_to = t, nr_via = via, nr_c1 = 0, nr_c2 = 0\<rparr>"

lemmas nr_defs = nr_step_def nr_switch_def nr_call_def nr_ret_def

lemma run_nr_step:
  "nr_step s = Running s' \<Longrightarrow> run nr_step s' = r \<Longrightarrow> run nr_step s = r"
  by (simp add: run_Running)

lemma nr_leaf:
  "run nr_step \<lparr>nr_stk = nr_frame_of 1 fr t via # fs, nr_retval = r, nr_out = ms\<rparr> =
   run nr_step \<lparr>nr_stk = fs, nr_retval = 1, nr_out = ms @ [(fr, t)]\<rparr>"
  by (rule run_Running) (simp add: nr_defs)

text \<open>
  A frame with \<open>Suc k\<close> disks on top of \<open>fs\<close> is popped with the count in \<open>retval\<close>
  and the moves of the recursion printed: the two recursive calls by the induction
  hypothesis, the middle one by \<open>nr_leaf\<close>.
\<close>

lemma nr_frame_returns:
  assumes "Suc k \<le> 31" and "length fs + Suc k \<le> NR_STACK"
  shows "run nr_step \<lparr>nr_stk = nr_frame_of (int (Suc k)) fr t via # fs, nr_retval = r, nr_out = ms\<rparr> =
    run nr_step \<lparr>nr_stk = fs, nr_retval = 2 ^ Suc k - 1, nr_out = ms @ moves (Suc k) fr t via\<rparr>"
  using assms
proof (induction k arbitrary: fr t via fs r ms)
  case 0
  then show ?case by (simp add: nr_leaf)
next
  case (Suc k)
  let ?m = "2 ^ Suc k - 1 :: int"
  let ?f = "nr_frame_of (int (Suc (Suc k))) fr t via"
  note ok = counts_ok [OF Suc.prems(1)]
  have IH: "run nr_step \<lparr>nr_stk = nr_frame_of (1 + int k) fr' t' via' # g # fs, nr_retval = r', nr_out = ms'\<rparr> =
      run nr_step \<lparr>nr_stk = g # fs, nr_retval = ?m, nr_out = ms' @ moves (Suc k) fr' t' via'\<rparr>"
    for fr' t' via' g r' ms'
    using Suc.IH [of "g # fs" fr' t' via' r' ms'] Suc.prems by simp
  note step = run_Running [of nr_step] and len = Suc.prems(2)
  have "run nr_step \<lparr>nr_stk = ?f # fs, nr_retval = r, nr_out = ms\<rparr> =
      run nr_step \<lparr>nr_stk = ?f\<lparr>nr_pc := 1\<rparr> # fs, nr_retval = r, nr_out = ms\<rparr>"
    by (rule step) (simp add: nr_defs)
  also have "\<dots> = run nr_step \<lparr>nr_stk = nr_frame_of (1 + int k) fr via t # ?f\<lparr>nr_pc := 2\<rparr> # fs,
      nr_retval = r, nr_out = ms\<rparr>"
    using len ok by (intro step) (simp add: nr_defs)
  also have "\<dots> = run nr_step \<lparr>nr_stk = ?f\<lparr>nr_pc := 2\<rparr> # fs,
      nr_retval = ?m, nr_out = ms @ moves (Suc k) fr via t\<rparr>"
    by (rule IH)
  also have "\<dots> = run nr_step \<lparr>nr_stk = ?f\<lparr>nr_pc := 3, nr_c1 := ?m\<rparr> # fs,
      nr_retval = ?m, nr_out = ms @ moves (Suc k) fr via t\<rparr>"
    by (rule step) (simp add: nr_defs)
  also have "\<dots> = run nr_step \<lparr>nr_stk = nr_frame_of 1 fr t via # ?f\<lparr>nr_pc := 4, nr_c1 := ?m\<rparr> # fs,
      nr_retval = ?m, nr_out = ms @ moves (Suc k) fr via t\<rparr>"
    using len by (intro step) (simp add: nr_defs)
  also have "\<dots> = run nr_step \<lparr>nr_stk = ?f\<lparr>nr_pc := 4, nr_c1 := ?m\<rparr> # fs,
      nr_retval = 1, nr_out = ms @ moves (Suc k) fr via t @ [(fr, t)]\<rparr>"
    by (simp add: nr_leaf)
  also have "\<dots> = run nr_step \<lparr>nr_stk = nr_frame_of (1 + int k) via t fr # ?f\<lparr>nr_pc := 5, nr_c1 := ?m\<rparr> # fs,
      nr_retval = 1, nr_out = ms @ moves (Suc k) fr via t @ [(fr, t)]\<rparr>"
    using len ok by (intro step) (simp add: nr_defs)
  also have "\<dots> = run nr_step \<lparr>nr_stk = ?f\<lparr>nr_pc := 5, nr_c1 := ?m\<rparr> # fs,
      nr_retval = ?m, nr_out = ms @ moves (Suc (Suc k)) fr t via\<rparr>"
    by (simp only: IH moves.simps append_assoc)
  also have "\<dots> = run nr_step \<lparr>nr_stk = ?f\<lparr>nr_pc := 6, nr_c1 := ?m, nr_c2 := ?m\<rparr> # fs,
      nr_retval = ?m, nr_out = ms @ moves (Suc (Suc k)) fr t via\<rparr>"
    by (rule step) (simp add: nr_defs)
  also have "\<dots> = run nr_step \<lparr>nr_stk = fs, nr_retval = 2 ^ Suc (Suc k) - 1,
      nr_out = ms @ moves (Suc (Suc k)) fr t via\<rparr>"
    using ok by (intro step) (simp add: nr_defs)
  finally show ?case .
qed

lemma hanoi_nr_returns:
  assumes "Suc k \<le> 31"
  shows "hanoi_nr (int (Suc k)) fr t via = Some (Inr (moves (Suc k) fr t via, 2 ^ Suc k - 1))"
proof -
  have "hanoi_nr (int (Suc k)) fr t via =
      run nr_step \<lparr>nr_stk = [nr_frame_of (int (Suc k)) fr t via], nr_retval = 0, nr_out = []\<rparr>"
    by (simp add: hanoi_nr_def nr_call_def NR_STACK_def)
  also have "\<dots> = run nr_step
      \<lparr>nr_stk = [], nr_retval = 2 ^ Suc k - 1, nr_out = [] @ moves (Suc k) fr t via\<rparr>"
    using assms by (intro nr_frame_returns) (simp_all add: NR_STACK_def)
  also have "\<dots> = Some (Inr (moves (Suc k) fr t via, 2 ^ Suc k - 1))"
    by (rule run_Halted) (simp add: nr_step_def)
  finally show ?thesis .
qed


section \<open>The stage machine runs the recursion\<close>

abbreviation o3_frame_of :: "int \<Rightarrow> char \<Rightarrow> char \<Rightarrow> char \<Rightarrow> int \<Rightarrow> o3_frame" where
  "o3_frame_of k fr aux t st \<equiv>
     \<lparr>o3_n = k, o3_from = fr, o3_aux = aux, o3_to = t, o3_stage = st\<rparr>"

lemmas o3_defs = o3_step_def o3_body_def o3_push_def o3_pop_def o3_move_def

lemma o3_frame_returns:
  assumes "length fs + Suc k \<le> STACK_SIZE"
  shows "run o3_step \<lparr>o3_stack = o3_frame_of (int (Suc k)) fr aux t 0 # fs, o3_moved = ms\<rparr> =
    run o3_step \<lparr>o3_stack = fs, o3_moved = ms @ moves (Suc k) fr t aux\<rparr>"
  using assms
proof (induction k arbitrary: fr aux t fs ms)
  case 0
  then show ?case by (intro run_Running) (simp add: o3_defs)
next
  case (Suc k)
  let ?f = "o3_frame_of (int (Suc (Suc k))) fr aux t"
  have IH: "run o3_step \<lparr>o3_stack = o3_frame_of (1 + int k) fr' aux' t' 0 # g # fs, o3_moved = ms'\<rparr> =
      run o3_step \<lparr>o3_stack = g # fs, o3_moved = ms' @ moves (Suc k) fr' t' aux'\<rparr>"
    for fr' aux' t' g ms'
    using Suc.IH [of "g # fs" fr' aux' t' ms'] Suc.prems by simp
  have ok: "c_int_ok (1 + int k)"
    using Suc.prems by (simp add: c_int_ok_def STACK_SIZE_def)
  note step = run_Running [of o3_step] and len = Suc.prems
  have "run o3_step \<lparr>o3_stack = ?f 0 # fs, o3_moved = ms\<rparr> =
      run o3_step \<lparr>o3_stack = o3_frame_of (1 + int k) fr t aux 0 # ?f 1 # fs, o3_moved = ms\<rparr>"
    using len ok by (intro step) (simp add: o3_defs)
  also have "\<dots> = run o3_step \<lparr>o3_stack = ?f 1 # fs, o3_moved = ms @ moves (Suc k) fr aux t\<rparr>"
    by (rule IH)
  also have "\<dots> = run o3_step \<lparr>o3_stack = o3_frame_of (1 + int k) aux fr t 0 # ?f 2 # fs,
      o3_moved = ms @ moves (Suc k) fr aux t @ [(fr, t)]\<rparr>"
    using len ok by (intro step) (simp add: o3_defs)
  also have "\<dots> = run o3_step \<lparr>o3_stack = ?f 2 # fs, o3_moved = ms @ moves (Suc (Suc k)) fr t aux\<rparr>"
    by (simp only: IH moves.simps append_assoc)
  also have "\<dots> = run o3_step \<lparr>o3_stack = fs, o3_moved = ms @ moves (Suc (Suc k)) fr t aux\<rparr>"
    by (rule step) (simp add: o3_defs)
  finally show ?case .
qed

lemma hanoi_o3_returns:
  assumes "Suc k \<le> STACK_SIZE"
  shows "hanoi_o3 (int (Suc k)) fr aux t = Some (Inr (moves (Suc k) fr t aux))"
proof -
  have "hanoi_o3 (int (Suc k)) fr aux t =
      run o3_step \<lparr>o3_stack = [o3_frame_of (int (Suc k)) fr aux t 0], o3_moved = []\<rparr>"
    by (simp add: hanoi_o3_def o3_push_def STACK_SIZE_def)
  also have "\<dots> = run o3_step \<lparr>o3_stack = [], o3_moved = [] @ moves (Suc k) fr t aux\<rparr>"
    using assms by (intro o3_frame_returns) simp
  also have "\<dots> = Some (Inr (moves (Suc k) fr t aux))"
    by (rule run_Halted) (simp add: o3_step_def)
  finally show ?thesis .
qed

section \<open>Non-positive inputs overflow the stacks\<close>

lemma o3_overflow:
  assumes "k \<le> 0" and "c_int_ok (k - int (Suc d))" and "length fs + Suc d = STACK_SIZE"
  shows "run o3_step \<lparr>o3_stack = o3_frame_of k fr aux t 0 # fs, o3_moved = ms\<rparr> =
    Some (Inl StackOverflow)"
  using assms
proof (induction d arbitrary: k fr aux t fs)
  case 0
  then show ?case by (intro run_Halted) (simp add: o3_defs)
next
  case (Suc d)
  have "c_int_ok (k - 1)" using Suc.prems by (simp add: c_int_ok_def)
  then have "run o3_step \<lparr>o3_stack = o3_frame_of k fr aux t 0 # fs, o3_moved = ms\<rparr> =
      run o3_step \<lparr>o3_stack = o3_frame_of (k - 1) fr t aux 0 # o3_frame_of k fr aux t 1 # fs, o3_moved = ms\<rparr>"
    using Suc.prems by (intro run_Running) (simp add: o3_defs)
  also have "\<dots> = Some (Inl StackOverflow)"
    using Suc.prems by (intro Suc.IH) (simp_all add: algebra_simps)
  finally show ?case .
qed

lemma nr_overflow:
  assumes "k \<le> 0" and "c_int_ok (k - int (Suc d))" and "length fs + Suc d = NR_STACK"
  shows "run nr_step \<lparr>nr_stk = nr_frame_of k fr t via # fs, nr_retval = r, nr_out = ms\<rparr> =
    Some (Inl StackOverflow)"
  using assms
proof (induction d arbitrary: k fr t via fs)
  case 0
  have "run nr_step \<lparr>nr_stk = nr_frame_of k fr t via # fs, nr_retval = r, nr_out = ms\<rparr> =
      run nr_step \<lparr>nr_stk = (nr_frame_of k fr t via)\<lparr>nr_pc := 1\<rparr> # fs, nr_retval = r, nr_out = ms\<rparr>"
    using 0 by (intro run_Running) (simp add: nr_defs)
  also have "\<dots> = Some (Inl StackOverflow)"
    using 0 by (intro run_Halted) (simp add: nr_defs)
  finally show ?case .
next
  case (Suc d)
  let ?f = "nr_frame_of k fr t via"
  have ok: "c_int_ok (k - 1)" using Suc.prems by (simp add: c_int_ok_def)
  have "run nr_step \<lparr>nr_stk = ?f # fs, nr_retval = r, nr_out = ms\<rparr> =
      run nr_step \<lparr>nr_stk = ?f\<lparr>nr_pc := 1\<rparr> # fs, nr_retval = r, nr_out = ms\<rparr>"
    using Suc.prems by (intro run_Running) (simp add: nr_defs)
  also have "\<dots> = run nr_step \<lparr>nr_stk = nr_frame_of (k - 1) fr via t # ?f\<lparr>nr_pc := 2\<rparr> # fs,
      nr_retval = r, nr_out = ms\<rparr>"
    using Suc.prems ok by (intro run_Running) (simp add: nr_defs)
  also have "\<dots> = Some (Inl StackOverflow)"
    using Suc.prems by (intro Suc.IH) (simp_all add: algebra_simps)
  finally show ?case .
qed

section \<open>The moves solve the puzzle\<close>

lemma play_append: "play p (ms @ ms') = Option.bind (play p ms) (\<lambda>p'. play p' ms')"
  by (induction ms arbitrary: p) auto

lemma play_moves:
  assumes "distinct [fr, t, via]" and "p fr = [0..<k] @ xs"
    and "\<forall>d \<in> set xs \<union> set (p t) \<union> set (p via). k \<le> d"
  shows "play p (moves k fr t via) = Some (p(fr := xs, t := [0..<k] @ p t))"
  using assms
proof (induction k arbitrary: fr t via p xs)
  case 0
  then show ?case by (auto simp: fun_eq_iff)
next
  case (Suc k)
  let ?p1 = "p(fr := k # xs, via := [0..<k] @ p via)"
  let ?p2 = "p(fr := xs, t := k # p t, via := [0..<k] @ p via)"
  have 1: "play p (moves k fr via t) = Some ?p1"
    using Suc.prems by (intro Suc.IH) (auto dest!: Suc_leD)
  have "legal ?p1 (fr, t)"
    using Suc.prems by (cases "p t") (auto simp: legal_def)
  moreover have "apply_move ?p1 (fr, t) = ?p2"
    using Suc.prems by (auto simp: apply_move_def fun_eq_iff)
  ultimately have 2: "play ?p1 [(fr, t)] = Some ?p2" by simp
  have "play ?p2 (moves k via t fr) = Some (?p2(via := p via, t := [0..<k] @ ?p2 t))"
    using Suc.prems by (intro Suc.IH) (auto dest!: Suc_leD)
  also have "?p2(via := p via, t := [0..<k] @ ?p2 t) = p(fr := xs, t := [0..<Suc k] @ p t)"
    using Suc.prems by (auto simp: fun_eq_iff)
  finally show ?case
    by (simp only: moves.simps play_append 1 2 bind.simps)
qed


section \<open>Properties\<close>

text \<open>
  C33: for 1 to 31 disks (the counts that fit in \<open>int\<close>) the explicit-stack loop of
  \<open>hanoi-nr.c\<close> returns, and it prints and returns exactly what the recursion of
  \<open>hanoi-r.c\<close> prints and returns, the count being \<open>2\<^sup>n - 1\<close>.
\<close>

theorem hanoi_nr_refines_r:
  assumes "1 \<le> k" and "k \<le> 31"
  shows "hanoi_nr k fr t via = hanoi_r k fr t via \<and>
    hanoi_nr k fr t via = Some (Inr (moves (nat k) fr t via, 2 ^ nat k - 1))"
proof -
  obtain m where "k = int (Suc m)" and "Suc m \<le> 31"
    using assms pos_int_Suc [of k 31] by auto
  then show ?thesis
    by (simp only: hanoi_nr_returns hanoi_r_returns nat_int simp_thms)
qed

theorem hanoi_nr_refines_r_witness:
  "hanoi_nr 3 CHR ''A'' CHR ''B'' CHR ''C'' = hanoi_r 3 CHR ''A'' CHR ''B'' CHR ''C''"
  using hanoi_nr_refines_r [of 3] by simp

text \<open>
  C39: the moves the recursion prints solve the puzzle: played from \<open>k\<close> disks on the
  source peg, every move is legal (no disk on a smaller one, no move from an empty peg) and
  all disks end on the target peg; the returned count is the number of moves.
\<close>

theorem hanoi_r_solves:
  assumes "1 \<le> k" and "k \<le> 31" and "distinct [fr, t, via]"
  shows "\<exists>ms. hanoi_r k fr t via = Some (Inr (ms, int (length ms))) \<and>
    play ((\<lambda>_. [])(fr := [0..<nat k])) ms = Some ((\<lambda>_. [])(t := [0..<nat k]))"
proof -
  obtain m where m: "k = int (Suc m)" "Suc m \<le> 31"
    using assms pos_int_Suc [of k 31] by auto
  have "hanoi_r k fr t via = Some (Inr (moves (Suc m) fr t via, int (length (moves (Suc m) fr t via))))"
    using m by (simp only: hanoi_r_returns length_moves) simp
  moreover have "play ((\<lambda>_. [])(fr := [0..<Suc m])) (moves (Suc m) fr t via) =
      Some (((\<lambda>_. [])(fr := [0..<Suc m]))(fr := [], t := [0..<Suc m] @ ((\<lambda>_. [])(fr := [0..<Suc m])) t))"
    using assms(3) by (intro play_moves) auto
  moreover have "((\<lambda>_. [])(fr := [0..<Suc m]))(fr := [], t := [0..<Suc m] @ ((\<lambda>_. [])(fr := [0..<Suc m])) t)
      = (\<lambda>_. [])(t := [0..<Suc m])"
    using assms(3) by (auto simp: fun_eq_iff)
  moreover have "nat k = Suc m" using m(1) by simp
  ultimately show ?thesis by metis
qed

theorem hanoi_r_solves_witness:
  "\<exists>ms. hanoi_r 2 CHR ''A'' CHR ''B'' CHR ''C'' = Some (Inr (ms, int (length ms))) \<and>
    play ((\<lambda>_. [])(CHR ''A'' := [0..<nat 2])) ms = Some ((\<lambda>_. [])(CHR ''B'' := [0..<nat 2]))"
  by (rule hanoi_r_solves) simp_all

text \<open>
  The stage machine of \<open>hanoi-o3mini.c\<close> returns for 1 to 1000 disks and prints the
  moves of the recursion; for 0 or fewer disks (where the recursion of \<open>hanoi-r.c\<close> keeps
  calling itself) it exits with its stack-overflow message, and \<open>hanoi-nr.c\<close> writes past
  its 64-frame array.
\<close>

lemma hanoi_o3_total:
  "(1 \<le> k \<and> k \<le> 1000 \<longrightarrow> hanoi_o3 k fr aux t = Some (Inr (moves (nat k) fr t aux))) \<and>
   (k \<le> 0 \<and> c_int_ok (k - 1000) \<longrightarrow>
     hanoi_o3 k fr aux t = Some (Inl StackOverflow) \<and> hanoi_nr k fr t aux = Some (Inl StackOverflow))"
proof (intro conjI impI; elim conjE)
  assume "1 \<le> k" and "k \<le> 1000"
  then obtain m where "k = int (Suc m)" and "Suc m \<le> STACK_SIZE"
    using pos_int_Suc [of k STACK_SIZE] by (auto simp: STACK_SIZE_def)
  then show "hanoi_o3 k fr aux t = Some (Inr (moves (nat k) fr t aux))"
    by (simp only: hanoi_o3_returns nat_int)
next
  assume k: "k \<le> 0" "c_int_ok (k - 1000)"
  then show "hanoi_o3 k fr aux t = Some (Inl StackOverflow)"
    using o3_overflow [of k 999 "[]"]
    by (simp add: hanoi_o3_def o3_push_def STACK_SIZE_def)
  have "c_int_ok (k - int (Suc 63))" using k by (auto simp: c_int_ok_def)
  with k show "hanoi_nr k fr t aux = Some (Inl StackOverflow)"
    using nr_overflow [of k 63 "[]"]
    by (simp add: hanoi_nr_def nr_call_def NR_STACK_def)
qed

end
