(* ===== verification/Rv32ima.thy ===== *)
theory Rv32ima
  imports Prelude "HOL-Library.Signed_Division"
begin

text \<open>
  The RV32IMA system emulator of \<open>course_code/lecture_1\<close>: \<open>rv32ima_step\<close> of
  \<open>mini-rv32ima.h\<close> with one definition per group of opcodes, and the program that loads an
  image and runs it (\<open>main.c\<close>).  Registers and CSRs are 32-bit words; the memory is the byte
  array \<open>mem\<close>, read and written through pointers to 8, 16 and 32-bit integers on a
  little-endian host.  An access outside the array is \<open>None\<close>.
\<close>

unbundle bit_operations_syntax

section \<open>State\<close>

datatype RV32IMA_CSR =
    PC | MSTATUS | CYCLEL | CYCLEH | TIMERL | TIMERH | TIMERMATCHL | TIMERMATCHH
  | MSCRATCH | MTVEC | MIE | MIP | MEPC | MTVAL | MCAUSE | EXTRAFLAGS

record CPUState =
  regs :: "u32 list"
  csrs :: "RV32IMA_CSR \<Rightarrow> u32"
  mem :: bytes
  mem_offset :: u32
  mem_size :: u32

definition CSR :: "CPUState \<Rightarrow> RV32IMA_CSR \<Rightarrow> u32" where
  "CSR s c = csrs s c"

definition set_csr :: "RV32IMA_CSR \<Rightarrow> u32 \<Rightarrow> CPUState \<Rightarrow> CPUState" where
  "set_csr c v s = s\<lparr>csrs := (csrs s)(c := v)\<rparr>"

definition REG :: "CPUState \<Rightarrow> u32 \<Rightarrow> u32" where
  "REG s x = regs s ! unat x"

text \<open>Little-endian integers of the host.\<close>

primrec le_word :: "bytes \<Rightarrow> u32" where
  "le_word [] = 0"
| "le_word (b # bs) = ucast b OR push_bit 8 (le_word bs)"

primrec le_bytes :: "nat \<Rightarrow> u32 \<Rightarrow> bytes" where
  "le_bytes 0 w = []"
| "le_bytes (Suc n) w = ucast w # le_bytes n (drop_bit 8 w)"

definition mem_read :: "nat \<Rightarrow> u32 \<Rightarrow> CPUState \<Rightarrow> u32 option" where
  "mem_read n a s = map_option le_word (read_bytes (unat a) n (mem s))"

definition mem_write :: "nat \<Rightarrow> u32 \<Rightarrow> u32 \<Rightarrow> CPUState \<Rightarrow> CPUState option" where
  "mem_write n a v s = map_option (\<lambda>m. s\<lparr>mem := m\<rparr>) (write_bytes (unat a) (le_bytes n v) (mem s))"

text \<open>
  The local variables of one step while the \<open>switch\<close> on the opcode runs.  An opcode ends with
  \<open>Cont\<close> at the code after the \<open>switch\<close>, or with \<open>Ret\<close> by an early \<open>return\<close>.
\<close>

record exec =
  st :: CPUState
  pc :: u32
  rval :: u32
  rdid :: u32
  trap :: u32

datatype step = Cont exec | Ret u32 CPUState

section \<open>Timer\<close>

definition timer_step :: "u32 \<Rightarrow> CPUState \<Rightarrow> CPUState" where
  "timer_step elapsedUs s =
     (let new_timer = CSR s TIMERL + elapsedUs;
          s = (if new_timer < CSR s TIMERL then set_csr TIMERH (CSR s TIMERH + 1) s else s);
          s = set_csr TIMERL new_timer s;
          timer = push_bit 32 (ucast (CSR s TIMERH) :: u64) OR ucast (CSR s TIMERL);
          timermatch = push_bit 32 (ucast (CSR s TIMERMATCHH) :: u64) OR ucast (CSR s TIMERMATCHL)
      in if (CSR s TIMERMATCHH \<noteq> 0 \<or> CSR s TIMERMATCHL \<noteq> 0) \<and> timermatch < timer
         then set_csr MIP (CSR s MIP OR 0x80) (set_csr EXTRAFLAGS (CSR s EXTRAFLAGS AND NOT 4) s)
         else set_csr MIP (CSR s MIP AND NOT 0x80) s)"

section \<open>The opcodes\<close>

definition rs1_of :: "u32 \<Rightarrow> u32" where "rs1_of ir = drop_bit 15 ir AND 0x1f"
definition rs2_of :: "u32 \<Rightarrow> u32" where "rs2_of ir = drop_bit 20 ir AND 0x1f"
definition funct3 :: "u32 \<Rightarrow> u32" where "funct3 ir = drop_bit 12 ir AND 0x7"

definition exec_lui :: "u32 \<Rightarrow> exec \<Rightarrow> exec" where
  "exec_lui ir e = e\<lparr>rval := ir AND 0xfffff000\<rparr>"

definition exec_auipc :: "u32 \<Rightarrow> exec \<Rightarrow> exec" where
  "exec_auipc ir e = e\<lparr>rval := pc e + (ir AND 0xfffff000)\<rparr>"

definition jal_imm :: "u32 \<Rightarrow> u32" where
  "jal_imm ir =
     (let reladdy = drop_bit 11 (ir AND 0x80000000) OR drop_bit 20 (ir AND 0x7fe00000)
                    OR drop_bit 9 (ir AND 0x00100000) OR (ir AND 0x000ff000)
      in if reladdy AND 0x00100000 \<noteq> 0 then reladdy OR 0xffe00000 else reladdy)"

definition exec_jal :: "u32 \<Rightarrow> exec \<Rightarrow> exec" where
  "exec_jal ir e = e\<lparr>rval := pc e + 4, pc := pc e + jal_imm ir - 4\<rparr>"

definition imm_i :: "u32 \<Rightarrow> u32" where
  "imm_i ir = (let imm = drop_bit 20 ir in imm OR (if imm AND 0x800 \<noteq> 0 then 0xfffff000 else 0))"

definition exec_jalr :: "u32 \<Rightarrow> exec \<Rightarrow> exec" where
  "exec_jalr ir e = e\<lparr>rval := pc e + 4, pc := ((REG (st e) (rs1_of ir) + imm_i ir) AND NOT 1) - 4\<rparr>"

definition branch_imm :: "u32 \<Rightarrow> u32" where
  "branch_imm ir =
     (let immm4 = drop_bit 7 (ir AND 0xf00) OR drop_bit 20 (ir AND 0x7e000000)
                  OR push_bit 4 (ir AND 0x80) OR push_bit 12 (drop_bit 31 ir)
      in if immm4 AND 0x1000 \<noteq> 0 then immm4 OR 0xffffe000 else immm4)"

definition branch_taken :: "u32 \<Rightarrow> u32 \<Rightarrow> u32 \<Rightarrow> bool option" where
  "branch_taken f rs1 rs2 =
     (if f = 0 then Some (rs1 = rs2)
      else if f = 1 then Some (rs1 \<noteq> rs2)
      else if f = 4 then Some (sint rs1 < sint rs2)
      else if f = 5 then Some (sint rs1 \<ge> sint rs2)
      else if f = 6 then Some (rs1 < rs2)
      else if f = 7 then Some (rs1 \<ge> rs2)
      else None)"

definition exec_branch :: "u32 \<Rightarrow> exec \<Rightarrow> exec" where
  "exec_branch ir e =
     (let immm4 = pc e + branch_imm ir - 4; e = e\<lparr>rdid := 0\<rparr>
      in case branch_taken (funct3 ir) (REG (st e) (rs1_of ir)) (REG (st e) (rs2_of ir)) of
           None \<Rightarrow> e\<lparr>trap := 2 + 1\<rparr>
         | Some taken \<Rightarrow> if taken then e\<lparr>pc := immm4\<rparr> else e)"

text \<open>The width in bytes of a load and the extension of what it reads.\<close>

definition load_width :: "u32 \<Rightarrow> (nat \<times> (u32 \<Rightarrow> u32)) option" where
  "load_width f =
     (if f = 0 then Some (1, \<lambda>v. scast (ucast v :: u8))
      else if f = 1 then Some (2, \<lambda>v. scast (ucast v :: u16))
      else if f = 2 then Some (4, \<lambda>v. v)
      else if f = 4 then Some (1, \<lambda>v. v)
      else if f = 5 then Some (2, \<lambda>v. v)
      else None)"

definition exec_load :: "u32 \<Rightarrow> exec \<Rightarrow> exec option" where
  "exec_load ir e =
     (let s = st e;
          rsval = REG s (rs1_of ir) + imm_i ir - mem_offset s
      in if mem_size s - 3 \<le> rsval then
           let rsval = rsval + mem_offset s in
           if 0x10000000 \<le> rsval \<and> rsval < 0x12000000 then
             if rsval = 0x1100bffc then Some (e\<lparr>rval := CSR s TIMERH\<rparr>)
             else if rsval = 0x1100bff8 then Some (e\<lparr>rval := CSR s TIMERL\<rparr>)
             else Some e
           else Some (e\<lparr>trap := 5 + 1, rval := rsval\<rparr>)
         else (case load_width (funct3 ir) of
                 None \<Rightarrow> Some (e\<lparr>trap := 2 + 1\<rparr>)
               | Some (n, ext) \<Rightarrow> map_option (\<lambda>v. e\<lparr>rval := ext v\<rparr>) (mem_read n rsval s)))"

definition store_imm :: "u32 \<Rightarrow> u32" where
  "store_imm ir =
     (let addy = (drop_bit 7 ir AND 0x1f) OR drop_bit 20 (ir AND 0xfe000000)
      in if addy AND 0x800 \<noteq> 0 then addy OR 0xfffff000 else addy)"

definition store_width :: "u32 \<Rightarrow> nat option" where
  "store_width f = (if f = 0 then Some 1 else if f = 1 then Some 2 else if f = 2 then Some 4 else None)"

definition exec_store :: "u32 \<Rightarrow> exec \<Rightarrow> step option" where
  "exec_store ir e =
     (let s = st e;
          rs2 = REG s (rs2_of ir);
          addy = store_imm ir + (REG s (rs1_of ir) - mem_offset s);
          e = e\<lparr>rdid := 0\<rparr>
      in if mem_size s - 3 \<le> addy then
           let addy = addy + mem_offset s in
           if 0x10000000 \<le> addy \<and> addy < 0x12000000 then
             if addy = 0x11004004 then Some (Cont (e\<lparr>st := set_csr TIMERMATCHH rs2 s\<rparr>))
             else if addy = 0x11004000 then Some (Cont (e\<lparr>st := set_csr TIMERMATCHL rs2 s\<rparr>))
             else if addy = 0x11100000 then Some (Ret rs2 (set_csr PC (pc e + 4) s))
             else Some (Cont e)
           else Some (Cont (e\<lparr>trap := 7 + 1, rval := addy\<rparr>))
         else (case store_width (funct3 ir) of
                 None \<Rightarrow> Some (Cont (e\<lparr>trap := 2 + 1\<rparr>))
               | Some n \<Rightarrow> map_option (\<lambda>s. Cont (e\<lparr>st := s\<rparr>)) (mem_write n addy rs2 s)))"

text \<open>The RV32M operations, with the C conversions to 64 bits and truncating division.\<close>

definition alu_m :: "u32 \<Rightarrow> u32 \<Rightarrow> u32 \<Rightarrow> u32" where
  "alu_m f rs1 rs2 =
     (if f = 0 then rs1 * rs2
      else if f = 1 then ucast (signed_drop_bit 32 ((scast rs1 :: u64) * scast rs2))
      else if f = 2 then ucast (drop_bit 32 ((scast rs1 :: u64) * ucast rs2))
      else if f = 3 then ucast (drop_bit 32 ((ucast rs1 :: u64) * ucast rs2))
      else if f = 4 then
        if rs2 = 0 then - 1
        else if sint rs1 = - (2 ^ 31) \<and> sint rs2 = - 1 then rs1
        else word_of_int (sint rs1 sdiv sint rs2)
      else if f = 5 then if rs2 = 0 then 0xffffffff else rs1 div rs2
      else if f = 6 then
        if rs2 = 0 then rs1
        else if sint rs1 = - (2 ^ 31) \<and> sint rs2 = - 1 then 0
        else word_of_int (sint rs1 smod sint rs2)
      else if rs2 = 0 then rs1 else rs1 mod rs2)"

definition alu_i :: "u32 \<Rightarrow> bool \<Rightarrow> u32 \<Rightarrow> u32 \<Rightarrow> u32 \<Rightarrow> u32" where
  "alu_i ir is_reg f rs1 rs2 =
     (if f = 0 then if is_reg \<and> ir AND 0x40000000 \<noteq> 0 then rs1 - rs2 else rs1 + rs2
      else if f = 1 then push_bit (unat (rs2 AND 0x1f)) rs1
      else if f = 2 then if sint rs1 < sint rs2 then 1 else 0
      else if f = 3 then if rs1 < rs2 then 1 else 0
      else if f = 4 then rs1 XOR rs2
      else if f = 5 then
        if ir AND 0x40000000 \<noteq> 0 then signed_drop_bit (unat (rs2 AND 0x1f)) rs1
        else drop_bit (unat (rs2 AND 0x1f)) rs1
      else if f = 6 then rs1 OR rs2
      else rs1 AND rs2)"

definition exec_op :: "u32 \<Rightarrow> exec \<Rightarrow> exec" where
  "exec_op ir e =
     (let imm = imm_i ir;
          rs1 = REG (st e) (rs1_of ir);
          is_reg = (ir AND 0x20 \<noteq> 0);
          rs2 = (if is_reg then REG (st e) (imm AND 0x1f) else imm)
      in if is_reg \<and> ir AND 0x02000000 \<noteq> 0 then e\<lparr>rval := alu_m (funct3 ir) rs1 rs2\<rparr>
         else e\<lparr>rval := alu_i ir is_reg (funct3 ir) rs1 rs2\<rparr>)"

definition exec_fence :: "exec \<Rightarrow> exec" where
  "exec_fence e = e\<lparr>rdid := 0\<rparr>"

text \<open>The CSR numbers of the Zicsr instructions that the emulator backs by a field.\<close>

definition csr_of :: "u32 \<Rightarrow> RV32IMA_CSR option" where
  "csr_of csrno =
     (if csrno = 0x340 then Some MSCRATCH
      else if csrno = 0x305 then Some MTVEC
      else if csrno = 0x304 then Some MIE
      else if csrno = 0x344 then Some MIP
      else if csrno = 0x341 then Some MEPC
      else if csrno = 0x300 then Some MSTATUS
      else if csrno = 0x342 then Some MCAUSE
      else if csrno = 0x343 then Some MTVAL
      else None)"

definition csr_read :: "u32 \<Rightarrow> u32 \<Rightarrow> CPUState \<Rightarrow> u32" where
  "csr_read cycle csrno s =
     (case csr_of csrno of
        Some c \<Rightarrow> CSR s c
      | None \<Rightarrow> if csrno = 0xC00 then cycle
                else if csrno = 0xf11 then 0xff0ff0ff
                else if csrno = 0x301 then 0x40401101
                else 0)"

definition csr_writeval :: "u32 \<Rightarrow> u32 \<Rightarrow> u32 \<Rightarrow> u32 \<Rightarrow> u32" where
  "csr_writeval microop old rs1 rs1imm =
     (if microop = 1 then rs1
      else if microop = 2 then old OR rs1
      else if microop = 3 then old AND NOT rs1
      else if microop = 5 then rs1imm
      else if microop = 6 then old OR rs1imm
      else if microop = 7 then old AND NOT rs1imm
      else rs1)"

definition exec_csr :: "u32 \<Rightarrow> u32 \<Rightarrow> exec \<Rightarrow> exec" where
  "exec_csr cycle ir e =
     (let csrno = drop_bit 20 ir;
          s = st e;
          old = csr_read cycle csrno s;
          writeval = csr_writeval (funct3 ir) old (REG s (rs1_of ir)) (rs1_of ir)
      in e\<lparr>rval := old,
           st := (case csr_of csrno of None \<Rightarrow> s | Some c \<Rightarrow> set_csr c writeval s)\<rparr>)"

definition exec_mret :: "exec \<Rightarrow> exec" where
  "exec_mret e =
     (let s = st e;
          startmstatus = CSR s MSTATUS;
          startextraflags = CSR s EXTRAFLAGS;
          s = set_csr MSTATUS (drop_bit 4 (startmstatus AND 0x80) OR push_bit 11 (startextraflags AND 3) OR 0x80) s;
          s = set_csr EXTRAFLAGS ((startextraflags AND NOT 3) OR (drop_bit 11 startmstatus AND 3)) s
      in e\<lparr>st := s, pc := CSR s MEPC - 4\<rparr>)"

definition exec_wfi :: "exec \<Rightarrow> step" where
  "exec_wfi e =
     (let s = st e;
          s = set_csr MSTATUS (CSR s MSTATUS OR 8) s;
          s = set_csr EXTRAFLAGS (CSR s EXTRAFLAGS OR 4) s
      in Ret 1 (set_csr PC (pc e + 4) s))"

definition exec_system :: "u32 \<Rightarrow> u32 \<Rightarrow> exec \<Rightarrow> step" where
  "exec_system cycle ir e =
     (let csrno = drop_bit 20 ir; microop = funct3 ir in
      if microop AND 3 \<noteq> 0 then Cont (exec_csr cycle ir e)
      else if microop = 0 then
        let e = e\<lparr>rdid := 0\<rparr> in
        if csrno = 0x105 then exec_wfi e
        else if csrno AND 0xff = 0x02 then Cont (exec_mret e)
        else if csrno = 0 then
          Cont (e\<lparr>trap := (if CSR (st e) EXTRAFLAGS AND 3 \<noteq> 0 then 11 + 1 else 8 + 1)\<rparr>)
        else if csrno = 1 then Cont (e\<lparr>trap := 3 + 1\<rparr>)
        else Cont (e\<lparr>trap := 2 + 1\<rparr>)
      else Cont (e\<lparr>trap := 2 + 1\<rparr>))"

text \<open>
  The read-modify-write function of an AMO: the new \<open>rs2\<close>, from the old \<open>rs2\<close> and
  the word in memory.
\<close>

definition amo_op :: "u32 \<Rightarrow> u32 \<Rightarrow> u32 \<Rightarrow> u32 option" where
  "amo_op irmid rs2 v =
     (if irmid = 1 then Some rs2
      else if irmid = 0 then Some (rs2 + v)
      else if irmid = 4 then Some (rs2 XOR v)
      else if irmid = 12 then Some (rs2 AND v)
      else if irmid = 8 then Some (rs2 OR v)
      else if irmid = 16 then Some (if sint rs2 < sint v then rs2 else v)
      else if irmid = 20 then Some (if sint rs2 > sint v then rs2 else v)
      else if irmid = 24 then Some (if rs2 < v then rs2 else v)
      else if irmid = 28 then Some (if rs2 > v then rs2 else v)
      else None)"

definition exec_amo :: "u32 \<Rightarrow> exec \<Rightarrow> exec option" where
  "exec_amo ir e =
     (let s = st e;
          rs1 = REG s (rs1_of ir) - mem_offset s;
          rs2 = REG s (rs2_of ir);
          irmid = drop_bit 27 ir AND 0x1f
      in if mem_size s - 3 \<le> rs1 then Some (e\<lparr>trap := 7 + 1, rval := rs1 + mem_offset s\<rparr>)
         else Option.bind (mem_read 4 rs1 s) (\<lambda>v.
           let e = e\<lparr>rval := v\<rparr> in
           if irmid = 2 then
             Some (e\<lparr>st := set_csr EXTRAFLAGS ((CSR s EXTRAFLAGS AND 0x07) OR push_bit 3 rs1) s\<rparr>)
           else if irmid = 3 then
             if drop_bit 3 (CSR s EXTRAFLAGS) \<noteq> rs1 AND 0x1fffffff then Some (e\<lparr>rval := 1\<rparr>)
             else map_option (\<lambda>s. e\<lparr>rval := 0, st := s\<rparr>) (mem_write 4 rs1 rs2 s)
           else (case amo_op irmid rs2 v of
                   None \<Rightarrow> Some (e\<lparr>trap := 2 + 1\<rparr>)
                 | Some w \<Rightarrow> map_option (\<lambda>s. e\<lparr>st := s\<rparr>) (mem_write 4 rs1 w s))))"

definition exec_instr :: "u32 \<Rightarrow> u32 \<Rightarrow> exec \<Rightarrow> step option" where
  "exec_instr cycle ir e =
     (let opcode = ir AND 0x7f in
      if opcode = 0x37 then Some (Cont (exec_lui ir e))
      else if opcode = 0x17 then Some (Cont (exec_auipc ir e))
      else if opcode = 0x6F then Some (Cont (exec_jal ir e))
      else if opcode = 0x67 then Some (Cont (exec_jalr ir e))
      else if opcode = 0x63 then Some (Cont (exec_branch ir e))
      else if opcode = 0x03 then map_option Cont (exec_load ir e)
      else if opcode = 0x23 then exec_store ir e
      else if opcode = 0x13 \<or> opcode = 0x33 then Some (Cont (exec_op ir e))
      else if opcode = 0x0f then Some (Cont (exec_fence e))
      else if opcode = 0x73 then Some (exec_system cycle ir e)
      else if opcode = 0x2f then map_option Cont (exec_amo ir e)
      else Some (Cont (e\<lparr>trap := 2 + 1\<rparr>)))"

section \<open>One step\<close>

text \<open>The code after the \<open>switch\<close>: write back, unless the instruction trapped.\<close>

definition write_back :: "exec \<Rightarrow> exec" where
  "write_back e =
     (if trap e \<noteq> 0 then e
      else let s = st e;
               s = (if rdid e \<noteq> 0 then s\<lparr>regs := (regs s)[unat (rdid e) := rval e]\<rparr> else s)
           in e\<lparr>st := s, pc := pc e + 4\<rparr>)"

definition take_trap :: "exec \<Rightarrow> exec" where
  "take_trap e =
     (let s = st e;
          intr = (trap e AND 0x80000000 \<noteq> 0);
          s = set_csr MCAUSE (if intr then trap e else trap e - 1) s;
          s = set_csr MTVAL (if intr then 0 else if trap e > 5 \<and> trap e \<le> 8 then rval e else pc e) s;
          s = set_csr MEPC (if intr then pc e + 4 else pc e) s;
          s = set_csr MSTATUS (push_bit 4 (CSR s MSTATUS AND 0x08) OR push_bit 11 (CSR s EXTRAFLAGS AND 3)) s;
          pc' = CSR s MTVEC - 4;
          s = set_csr EXTRAFLAGS (CSR s EXTRAFLAGS OR 3) s
      in e\<lparr>st := s, pc := pc' + 4, trap := 0\<rparr>)"

definition cycle_end :: "u32 \<Rightarrow> exec \<Rightarrow> u32 \<times> CPUState" where
  "cycle_end cycle e =
     (let e = (if trap e \<noteq> 0 then take_trap e else e);
          s = st e;
          s = (if CSR s CYCLEL > cycle then set_csr CYCLEH (CSR s CYCLEH + 1) s else s)
      in (0, set_csr PC (pc e) (set_csr CYCLEL cycle s)))"

definition interrupt_taken :: "CPUState \<Rightarrow> bool" where
  "interrupt_taken s \<longleftrightarrow>
     CSR s MIP AND 0x80 \<noteq> 0 \<and> CSR s MIE AND 0x80 \<noteq> 0 \<and> CSR s MSTATUS AND 0x8 \<noteq> 0"

definition rv32ima_step :: "u32 \<Rightarrow> CPUState \<Rightarrow> (u32 \<times> CPUState) option" where
  "rv32ima_step elapsedUs s0 =
     (let s = timer_step elapsedUs s0 in
      if CSR s EXTRAFLAGS AND 4 \<noteq> 0 then Some (1, s)
      else
        let cycle = CSR s CYCLEL;
            e = \<lparr>st = s, pc = CSR s PC, rval = 0, rdid = 0, trap = 0\<rparr>
        in if interrupt_taken s then Some (cycle_end cycle (e\<lparr>trap := 0x80000007, pc := pc e - 4\<rparr>))
           else
             let cycle = cycle + 1;
                 ofs_pc = pc e - mem_offset s
             in if mem_size s \<le> ofs_pc then Some (cycle_end cycle (e\<lparr>trap := 1 + 1\<rparr>))
                else if ofs_pc AND 3 \<noteq> 0 then Some (cycle_end cycle (e\<lparr>trap := 1 + 0\<rparr>))
                else Option.bind (mem_read 4 ofs_pc s) (\<lambda>ir.
                       case exec_instr cycle ir (e\<lparr>rdid := drop_bit 7 ir AND 0x1f\<rparr>) of
                         None \<Rightarrow> None
                       | Some (Ret r s') \<Rightarrow> Some (r, s')
                       | Some (Cont e') \<Rightarrow> Some (cycle_end cycle (write_back e'))))"

section \<open>The emulated machine stays inside its memory\<close>

definition cpu_wf :: "CPUState \<Rightarrow> bool" where
  "cpu_wf s \<longleftrightarrow>
     length (regs s) = 32 \<and> regs s ! 0 = 0 \<and> length (mem s) = unat (mem_size s) \<and>
     4 \<le> mem_size s \<and> 4 dvd unat (mem_size s)"

text \<open>What every opcode keeps: the registers (before the write back) and the shape of the memory.\<close>

definition frame :: "CPUState \<Rightarrow> CPUState \<Rightarrow> bool" where
  "frame s s' \<longleftrightarrow>
     regs s' = regs s \<and> length (mem s') = length (mem s) \<and> mem_offset s' = mem_offset s \<and> mem_size s' = mem_size s"

lemma frame_refl [simp]: "frame s s"
  by (simp add: frame_def)

lemma frame_set_csr [simp]: "frame s (set_csr c v s') \<longleftrightarrow> frame s s'"
  by (simp add: frame_def set_csr_def)

lemma frame_wf: "frame s s' \<Longrightarrow> cpu_wf s \<Longrightarrow> cpu_wf s'"
  by (simp add: frame_def cpu_wf_def)

lemma CSR_set_csr [simp]: "CSR (set_csr c v s) c' = (if c' = c then v else CSR s c')"
  by (simp add: CSR_def set_csr_def)

lemma set_csr_fields [simp]:
  "regs (set_csr c v s) = regs s" "mem (set_csr c v s) = mem s"
  "mem_offset (set_csr c v s) = mem_offset s" "mem_size (set_csr c v s) = mem_size s"
  by (simp_all add: set_csr_def)

lemma length_le_bytes [simp]: "length (le_bytes n w) = n"
  by (induction n arbitrary: w) simp_all

lemma guard_in_range:
  assumes "cpu_wf s" "\<not> mem_size s - 3 \<le> a" "n \<le> 4"
  shows "unat a + n \<le> length (mem s)"
proof -
  have sz: "4 \<le> unat (mem_size s)" "length (mem s) = unat (mem_size s)"
    using assms(1) by (simp_all add: cpu_wf_def word_le_nat_alt)
  then have "unat (mem_size s - 3) = unat (mem_size s) - 3"
    by (subst unat_sub) (simp_all add: word_le_nat_alt)
  with sz assms(2,3) show ?thesis by (simp add: word_le_nat_alt)
qed

lemma mem_read_in_range: "unat a + n \<le> length (mem s) \<Longrightarrow> \<exists>v. mem_read n a s = Some v"
  by (auto simp: mem_read_def dest: read_bytes_exists)

lemma mem_write_in_range:
  "unat a + n \<le> length (mem s) \<Longrightarrow> \<exists>s'. mem_write n a v s = Some s' \<and> frame s s'"
  using write_bytes_exists [of "unat a" "le_bytes n v" "mem s"]
  by (auto simp: mem_write_def frame_def dest: write_bytes_length)

lemma fetch_in_range:
  assumes "cpu_wf s" "\<not> mem_size s \<le> a" "a AND 3 = 0"
  shows "\<exists>ir. mem_read 4 a s = Some ir"
proof (rule mem_read_in_range)
  have "(3 :: u32) = mask 2" by (simp add: mask_eq_exp_minus_1)
  then have "take_bit 2 a = 0" using assms(3) by (simp add: take_bit_eq_mask)
  then have "take_bit 2 (unat a) = 0" by (metis unsigned_take_bit_eq unsigned_0)
  then have "4 dvd unat a" by (simp add: take_bit_eq_mod mod_eq_0_iff_dvd)
  moreover have "4 dvd unat (mem_size s)" "unat a < unat (mem_size s)" "length (mem s) = unat (mem_size s)"
    using assms(1,2) by (simp_all add: cpu_wf_def word_le_nat_alt)
  ultimately show "unat a + 4 \<le> length (mem s)"
    using dvd_gap [of 4 "unat a" "unat (mem_size s)"] by simp
qed

text \<open>The register an instruction may name.\<close>

definition step_frame :: "exec \<Rightarrow> step option \<Rightarrow> bool" where
  "step_frame e r \<longleftrightarrow>
     (case r of
        None \<Rightarrow> False
      | Some (Ret v s') \<Rightarrow> frame (st e) s'
      | Some (Cont e') \<Rightarrow> frame (st e) (st e') \<and> (rdid e' = rdid e \<or> rdid e' = 0))"

lemma step_frame_simps [simp]:
  "step_frame e (Some (Cont e')) \<longleftrightarrow> frame (st e) (st e') \<and> (rdid e' = rdid e \<or> rdid e' = 0)"
  "step_frame e (Some (Ret v s')) \<longleftrightarrow> frame (st e) s'"
  by (simp_all add: step_frame_def)

lemma load_frame:
  assumes "cpu_wf (st e)"
  shows "step_frame e (map_option Cont (exec_load ir e))"
proof -
  let ?a = "REG (st e) (rs1_of ir) + imm_i ir - mem_offset (st e)"
  show ?thesis
  proof (cases "mem_size (st e) - 3 \<le> ?a \<or> load_width (funct3 ir) = None")
    case True
    then show ?thesis by (auto simp: exec_load_def Let_def)
  next
    case False
    then obtain n ext where w: "load_width (funct3 ir) = Some (n, ext)" by auto
    then have "n \<le> 4" by (auto simp: load_width_def split: if_splits)
    then obtain v where "mem_read n ?a (st e) = Some v"
      using guard_in_range [OF assms, of ?a n] False mem_read_in_range by blast
    then show ?thesis using False w by (simp add: exec_load_def Let_def)
  qed
qed

lemma store_frame:
  assumes "cpu_wf (st e)"
  shows "step_frame e (exec_store ir e)"
proof -
  let ?a = "store_imm ir + (REG (st e) (rs1_of ir) - mem_offset (st e))"
  show ?thesis
  proof (cases "mem_size (st e) - 3 \<le> ?a \<or> store_width (funct3 ir) = None")
    case True
    then show ?thesis by (auto simp: exec_store_def Let_def)
  next
    case False
    then obtain n where w: "store_width (funct3 ir) = Some n" by auto
    then have "n \<le> 4" by (auto simp: store_width_def split: if_splits)
    then obtain s' where "mem_write n ?a (REG (st e) (rs2_of ir)) (st e) = Some s'" "frame (st e) s'"
      using guard_in_range [OF assms, of ?a n] False mem_write_in_range by blast
    then show ?thesis using False w by (simp add: exec_store_def Let_def)
  qed
qed

lemma amo_frame:
  assumes "cpu_wf (st e)"
  shows "step_frame e (map_option Cont (exec_amo ir e))"
proof -
  let ?a = "REG (st e) (rs1_of ir) - mem_offset (st e)"
  show ?thesis
  proof (cases "mem_size (st e) - 3 \<le> ?a")
    case True
    then show ?thesis by (simp add: exec_amo_def Let_def)
  next
    case False
    then have rng: "unat ?a + 4 \<le> length (mem (st e))" using guard_in_range [OF assms] by simp
    obtain v where v: "mem_read 4 ?a (st e) = Some v" using mem_read_in_range [OF rng] by blast
    have w: "\<exists>s'. mem_write 4 ?a x (st e) = Some s' \<and> frame (st e) s'" for x
      by (rule mem_write_in_range [OF rng])
    have "step_frame e (map_option Cont (map_option (\<lambda>s. (f s)\<lparr>st := s\<rparr>) (mem_write 4 ?a x (st e))))"
      if "\<And>s. rdid (f s) = rdid e" for x f
      using w [of x] that by auto
    from this [of "\<lambda>s. e\<lparr>rval := 0\<rparr>"] this [of "\<lambda>s. e\<lparr>rval := v\<rparr>"] show ?thesis
      using False v by (auto simp: exec_amo_def Let_def split: option.split)
  qed
qed

lemma system_frame: "step_frame e (Some (exec_system cycle ir e))"
  by (auto simp: exec_system_def exec_csr_def exec_wfi_def exec_mret_def Let_def split: option.split)

lemma instr_frame:
  assumes "cpu_wf (st e)"
  shows "step_frame e (exec_instr cycle ir e)"
  using load_frame [OF assms] store_frame [OF assms] amo_frame [OF assms] system_frame
  by (simp add: exec_instr_def Let_def exec_lui_def exec_auipc_def exec_jal_def exec_jalr_def exec_branch_def
      exec_op_def exec_fence_def split: option.split)

lemma take_trap_frame [simp]: "frame s (st (take_trap e)) \<longleftrightarrow> frame s (st e)"
  by (simp add: take_trap_def Let_def)

lemma cycle_end_frame: "frame s (st e) \<Longrightarrow> frame s (snd (cycle_end cycle e))"
  by (simp add: cycle_end_def Let_def)

lemma timer_step_frame: "frame s (timer_step el s)"
  by (simp add: timer_step_def Let_def)

lemma write_back_wf:
  assumes "cpu_wf (st e)" "rdid e < 32"
  shows "cpu_wf (st (write_back e))" "mem_offset (st (write_back e)) = mem_offset (st e)"
    "mem_size (st (write_back e)) = mem_size (st e)"
proof -
  have "rdid e \<noteq> 0 \<Longrightarrow> 0 < unat (rdid e)" "unat (rdid e) < 32"
    using assms(2) by (simp_all add: unat_gt_0 word_less_nat_alt)
  then show "cpu_wf (st (write_back e))" "mem_offset (st (write_back e)) = mem_offset (st e)"
    "mem_size (st (write_back e)) = mem_size (st e)"
    using assms(1) by (auto simp: write_back_def cpu_wf_def Let_def nth_list_update)
qed

lemma five_bits: "(w :: u32) AND 0x1f < 32"
proof -
  have "(0x1f :: u32) = mask 5" by (simp add: mask_eq_exp_minus_1)
  then have "unat (w AND 0x1f) < 2 ^ 5"
    by (metis take_bit_eq_mask unsigned_take_bit_eq take_bit_nat_less_exp)
  then show ?thesis by (simp add: word_less_nat_alt)
qed

lemma instr_safe:
  assumes "cpu_wf (st e)" "rdid e < 32"
  shows "\<exists>r s'. (case exec_instr cycle ir e of
            None \<Rightarrow> None
          | Some (Ret r s') \<Rightarrow> Some (r, s')
          | Some (Cont e') \<Rightarrow> Some (cycle_end cycle (write_back e'))) = Some (r, s') \<and>
      cpu_wf s' \<and> mem_offset s' = mem_offset (st e) \<and> mem_size s' = mem_size (st e)"
proof -
  have f: "step_frame e (exec_instr cycle ir e)" by (rule instr_frame [OF assms(1)])
  then obtain x where x: "exec_instr cycle ir e = Some x"
    by (cases "exec_instr cycle ir e") (auto simp: step_frame_def)
  show ?thesis
  proof (cases x)
    case (Ret r s')
    then have "frame (st e) s'" using f x by simp
    then show ?thesis using x Ret frame_wf [OF _ assms(1)] by (simp add: frame_def)
  next
    case (Cont e')
    then have fr: "frame (st e) (st e')" and rd: "rdid e' < 32" using f x assms(2) by auto
    have wf: "cpu_wf (st e')" by (rule frame_wf [OF fr assms(1)])
    note wb = write_back_wf [OF wf rd]
    have ce: "frame (st (write_back e')) (snd (cycle_end cycle (write_back e')))"
      by (simp add: cycle_end_frame)
    obtain r s' where rs: "cycle_end cycle (write_back e') = (r, s')" by fastforce
    have "cpu_wf s'" using frame_wf [OF ce wb(1)] rs by simp
    moreover have "mem_offset s' = mem_offset (st e)" "mem_size s' = mem_size (st e)"
      using ce fr wb(2,3) rs by (simp_all add: frame_def)
    ultimately show ?thesis using x Cont rs by simp
  qed
qed

lemma cycle_end_safe:
  assumes "cpu_wf (st e)"
  shows "\<exists>r s'. Some (cycle_end cycle e) = Some (r, s') \<and> cpu_wf s' \<and>
    mem_offset s' = mem_offset (st e) \<and> mem_size s' = mem_size (st e)"
proof -
  have f: "frame (st e) (snd (cycle_end cycle e))" by (simp add: cycle_end_frame)
  show ?thesis
    using frame_wf [OF f assms] f by (cases "cycle_end cycle e") (simp add: frame_def)
qed

lemma step_safe:
  assumes "cpu_wf s"
  shows "\<exists>r s'. rv32ima_step el s = Some (r, s') \<and> cpu_wf s' \<and>
    mem_offset s' = mem_offset s \<and> mem_size s' = mem_size s"
proof -
  let ?s = "timer_step el s"
  let ?e = "\<lparr>st = ?s, pc = CSR ?s PC, rval = 0, rdid = 0, trap = 0\<rparr>"
  let ?ofs = "CSR ?s PC - mem_offset ?s"
  have wf: "cpu_wf ?s" by (rule frame_wf [OF timer_step_frame assms])
  have eq: "mem_offset ?s = mem_offset s" "mem_size ?s = mem_size s"
    using timer_step_frame [of s el] by (simp_all add: frame_def)
  consider (wfi) "CSR ?s EXTRAFLAGS AND 4 \<noteq> 0" | (irq) "CSR ?s EXTRAFLAGS AND 4 = 0" "interrupt_taken ?s"
    | (fault) "CSR ?s EXTRAFLAGS AND 4 = 0" "\<not> interrupt_taken ?s" "mem_size ?s \<le> ?ofs \<or> ?ofs AND 3 \<noteq> 0"
    | (fetch) "CSR ?s EXTRAFLAGS AND 4 = 0" "\<not> interrupt_taken ?s" "\<not> mem_size ?s \<le> ?ofs" "?ofs AND 3 = 0"
    by blast
  then show ?thesis
  proof cases
    case wfi
    then show ?thesis using wf eq by (simp add: rv32ima_step_def Let_def)
  next
    case irq
    then show ?thesis
      using cycle_end_safe [of "?e\<lparr>trap := 0x80000007, pc := CSR ?s PC - 4\<rparr>"] wf eq
      by (simp add: rv32ima_step_def Let_def)
  next
    case fault
    then show ?thesis
      using cycle_end_safe [of "?e\<lparr>trap := 2\<rparr>"] cycle_end_safe [of "?e\<lparr>trap := 1\<rparr>"] wf eq
      by (auto simp: rv32ima_step_def Let_def)
  next
    case fetch
    then obtain ir where ir: "mem_read 4 ?ofs ?s = Some ir" using fetch_in_range [OF wf] by blast
    show ?thesis
      using instr_safe [of "?e\<lparr>rdid := drop_bit 7 ir AND 0x1f\<rparr>"] fetch ir wf eq five_bits
      by (simp add: rv32ima_step_def Let_def)
  qed
qed

section \<open>The multiplier and the divider\<close>

text \<open>The RV32M instructions over the integers: the quotient rounds towards zero.\<close>

definition trunc_div :: "int \<Rightarrow> int \<Rightarrow> int" where
  "trunc_div x y = (if (x < 0) = (y < 0) then \<bar>x\<bar> div \<bar>y\<bar> else - (\<bar>x\<bar> div \<bar>y\<bar>))"

definition m_spec :: "u32 \<Rightarrow> u32 \<Rightarrow> u32 \<Rightarrow> int" where
  "m_spec f a b =
     (if f = 0 then sint a * sint b
      else if f = 1 then (sint a * sint b) div 2 ^ 32
      else if f = 2 then (sint a * uint b) div 2 ^ 32
      else if f = 3 then (uint a * uint b) div 2 ^ 32
      else if f = 4 then if b = 0 then - 1 else trunc_div (sint a) (sint b)
      else if f = 5 then if b = 0 then 2 ^ 32 - 1 else uint a div uint b
      else if f = 6 then if b = 0 then sint a else sint a - sint b * trunc_div (sint a) (sint b)
      else if b = 0 then uint a else uint a mod uint b)"

lemma trunc_div_sdiv: "y \<noteq> 0 \<Longrightarrow> x sdiv y = trunc_div x y"
  by (auto simp: trunc_div_def signed_divide_int_def sgn_if)

lemma high_word:
  fixes w :: u64
  assumes "w = word_of_int p"
  shows "(ucast (drop_bit 32 w) :: u32) = word_of_int (p div 2 ^ 32)"
    and "(ucast (signed_drop_bit 32 w) :: u32) = word_of_int (p div 2 ^ 32)"
proof -
  have d: "p div 2 ^ 32 = drop_bit 32 p" by (rule drop_bit_eq_div [symmetric])
  show "(ucast (drop_bit 32 w) :: u32) = word_of_int (p div 2 ^ 32)"
    unfolding d assms by (rule bit_word_eqI) (simp add: bit_simps)
  show "(ucast (signed_drop_bit 32 w) :: u32) = word_of_int (p div 2 ^ 32)"
    unfolding d assms by (rule bit_word_eqI) (simp add: bit_simps)
qed

lemma mul_words:
  "(scast a :: u64) * scast b = word_of_int (sint a * sint b)"
  "(scast a :: u64) * ucast b = word_of_int (sint a * uint b)"
  "(ucast a :: u64) * ucast b = word_of_int (uint a * uint b)" for a b :: u32
  by (simp_all add: word_of_int_hom_syms)

lemma sint_nonzero: "(b :: u32) \<noteq> 0 \<Longrightarrow> sint b \<noteq> 0"
  by (metis signed_0 signed_word_eqI)

lemma div_words:
  fixes a b :: u32
  assumes "b \<noteq> 0"
  shows "(if sint a = - (2 ^ 31) \<and> sint b = - 1 then a else word_of_int (sint a sdiv sint b)) =
      word_of_int (trunc_div (sint a) (sint b))"
    and "(if sint a = - (2 ^ 31) \<and> sint b = - 1 then (0 :: u32) else word_of_int (sint a smod sint b)) =
      word_of_int (sint a - sint b * trunc_div (sint a) (sint b))"
proof -
  have t: "sint a sdiv sint b = trunc_div (sint a) (sint b)"
    by (rule trunc_div_sdiv [OF sint_nonzero [OF assms]])
  have m: "sint a smod sint b = sint a - sint b * trunc_div (sint a) (sint b)"
    by (simp add: t [symmetric] minus_mult_sdiv_eq_smod)
  have ov: "a = word_of_int (2 ^ 31)" if "sint a = - (2 ^ 31)"
  proof -
    have "a = word_of_int (sint a)" by simp
    also have "\<dots> = word_of_int (2 ^ 31)" unfolding that by simp
    finally show ?thesis .
  qed
  show "(if sint a = - (2 ^ 31) \<and> sint b = - 1 then a else word_of_int (sint a sdiv sint b)) =
      word_of_int (trunc_div (sint a) (sint b))"
    using ov by (auto simp: t trunc_div_def)
  show "(if sint a = - (2 ^ 31) \<and> sint b = - 1 then (0 :: u32) else word_of_int (sint a smod sint b)) =
      word_of_int (sint a - sint b * trunc_div (sint a) (sint b))"
    unfolding m by (auto simp: trunc_div_def simp del: of_int_diff of_int_mult)
qed

lemma alu_m_spec: "alu_m f a b = word_of_int (m_spec f a b)"
proof (cases "b = 0")
  case True
  then show ?thesis
    by (simp add: alu_m_def m_spec_def high_word [OF mul_words(1)] high_word [OF mul_words(2)] high_word [OF mul_words(3)])
next
  case False
  have "a * b = word_of_int (sint a * sint b)" by (simp add: word_of_int_hom_syms)
  moreover have "a div b = word_of_int (uint a div uint b)" "a mod b = word_of_int (uint a mod uint b)"
    by (simp_all add: word_div_def word_mod_def)
  ultimately show ?thesis
    unfolding alu_m_def m_spec_def
    by (simp only: div_words [OF False] if_not_P [OF False] high_word(2) [OF mul_words(1)]
        high_word(1) [OF mul_words(2)] high_word(1) [OF mul_words(3)] if_distrib [of word_of_int])
qed

section \<open>Traps and their return\<close>

text \<open>Equations of 32-bit words, bit by bit.\<close>

lemma word32_eqI: "(\<forall>n \<in> set [0..<32]. bit a n = bit b n) \<Longrightarrow> a = (b :: u32)"
  by (rule bit_word_eqI) auto

lemma trap_bits:
  fixes m x y :: u32
  shows "(push_bit 4 (m AND 8) OR push_bit 11 (x AND 3)) AND 8 = 0"
    "(drop_bit 4 ((push_bit 4 (m AND 8) OR push_bit 11 (x AND 3)) AND 0x80) OR push_bit 11 (y AND 3) OR 0x80) AND 8 = m AND 8"
    "((y AND NOT 3) OR (drop_bit 11 (push_bit 4 (m AND 8) OR push_bit 11 (x AND 3)) AND 3)) AND 3 = x AND 3"
    "(m AND NOT 4) AND 4 = 0" "(m AND NOT 0x80) AND 0x80 = 0" "(m OR 3) AND 4 = m AND 4"
    "(m AND NOT 4) AND 3 = m AND 3"
  by (rule word32_eqI, simp add: upt_rec bit_simps)+


lemma timer_step_other:
  "c \<notin> {TIMERL, TIMERH, MIP, EXTRAFLAGS} \<Longrightarrow> CSR (timer_step el s) c = CSR s c"
  by (simp add: timer_step_def Let_def)

lemma timer_step_mem: "regs (timer_step el s) = regs s" "mem (timer_step el s) = mem s"
  by (simp_all add: timer_step_def Let_def)

lemma timer_step_cases:
  "CSR (timer_step el s) EXTRAFLAGS = CSR s EXTRAFLAGS AND NOT 4 \<or>
   CSR (timer_step el s) EXTRAFLAGS = CSR s EXTRAFLAGS \<and> CSR (timer_step el s) MIP = CSR s MIP AND NOT 0x80"
  by (simp add: timer_step_def Let_def)

lemma timer_step_flags:
  "CSR (timer_step el s) EXTRAFLAGS AND 3 = CSR s EXTRAFLAGS AND 3"
  "CSR s EXTRAFLAGS AND 4 = 0 \<Longrightarrow> CSR (timer_step el s) EXTRAFLAGS AND 4 = 0"
  "CSR (timer_step el s) MIP AND 0x80 \<noteq> 0 \<Longrightarrow> CSR (timer_step el s) EXTRAFLAGS AND 4 = 0"
  using timer_step_cases [of el s] trap_bits(4,5,7) by metis+

text \<open>The CSRs after a trap with cause code \<open>t\<close>.\<close>

lemma take_trap_csrs:
  fixes e defines "s' \<equiv> st (take_trap e)"
  shows "CSR s' MEPC = (if trap e AND 0x80000000 \<noteq> 0 then pc e + 4 else pc e)"
    "CSR s' MSTATUS = push_bit 4 (CSR (st e) MSTATUS AND 8) OR push_bit 11 (CSR (st e) EXTRAFLAGS AND 3)"
    "CSR s' EXTRAFLAGS = CSR (st e) EXTRAFLAGS OR 3" "CSR s' MTVEC = CSR (st e) MTVEC"
    "CSR s' MCAUSE = (if trap e AND 0x80000000 \<noteq> 0 then trap e else trap e - 1)"
    "regs s' = regs (st e)" "mem s' = mem (st e)" "pc (take_trap e) = CSR (st e) MTVEC"
  by (simp_all add: s'_def take_trap_def Let_def)

lemma cycle_end_csrs:
  fixes cycle e
  defines "e' \<equiv> (if trap e \<noteq> 0 then take_trap e else e)" and "s' \<equiv> snd (cycle_end cycle e)"
  shows "fst (cycle_end cycle e) = 0" "CSR s' PC = pc e'"
    "c \<notin> {PC, CYCLEL, CYCLEH} \<Longrightarrow> CSR s' c = CSR (st e') c"
    "regs s' = regs (st e')" "mem s' = mem (st e')" "mem_offset s' = mem_offset (st e')" "mem_size s' = mem_size (st e')"
  by (simp_all add: e'_def s'_def cycle_end_def Let_def)

lemma interrupt_step:
  assumes "interrupt_taken (timer_step el s)"
  obtains s1 where "rv32ima_step el s = Some (0, s1)" "CSR s1 PC = CSR s MTVEC" "CSR s1 MTVEC = CSR s MTVEC"
    "CSR s1 MEPC = CSR s PC" "CSR s1 MCAUSE = 0x80000007"
    "CSR s1 MSTATUS = push_bit 4 (CSR s MSTATUS AND 8) OR push_bit 11 (CSR s EXTRAFLAGS AND 3)"
    "CSR s1 EXTRAFLAGS AND 3 = 3" "CSR s1 EXTRAFLAGS AND 4 = 0"
    "regs s1 = regs s" "mem s1 = mem s" "mem_offset s1 = mem_offset s" "mem_size s1 = mem_size s"
proof -
  let ?s = "timer_step el s"
  let ?e = "\<lparr>st = ?s, pc = CSR ?s PC - 4, rval = 0, rdid = 0, trap = 0x80000007\<rparr>"
  let ?s1 = "snd (cycle_end (CSR ?s CYCLEL) ?e)"
  note other = timer_step_other [of _ el s]
  have fl: "CSR ?s EXTRAFLAGS AND 4 = 0"
    using assms timer_step_flags(3) by (simp add: interrupt_taken_def)
  have "rv32ima_step el s = Some (0, ?s1)"
    using assms fl cycle_end_csrs(1) [of "CSR ?s CYCLEL" ?e]
    by (simp add: rv32ima_step_def Let_def prod_eq_iff)
  moreover have "(x OR 3) AND 3 = 3" for x :: u32
    by (rule word32_eqI) (simp add: upt_rec bit_simps)
  moreover have "mem_offset ?s = mem_offset s" "mem_size ?s = mem_size s"
    using timer_step_frame [of s el] by (simp_all add: frame_def)
  moreover have "mem_offset (st (take_trap e)) = mem_offset (st e)" "mem_size (st (take_trap e)) = mem_size (st e)" for e
    using take_trap_frame [of "st e" e] by (simp_all add: frame_def)
  ultimately show ?thesis
    using fl other trap_bits(6) timer_step_flags(1) [of el s]
    by (intro that [of ?s1]) (simp_all add: cycle_end_csrs take_trap_csrs timer_step_mem)
qed

lemma mret_word: "(0x30200073 :: u32) AND 0x7f = 0x73" "funct3 0x30200073 = 0" "drop_bit 20 (0x30200073 :: u32) = 0x302"
  "(0x302 :: u32) AND 0xff = 2"
  by (simp_all add: funct3_def)

lemma mret_step:
  assumes "CSR s MSTATUS AND 8 = 0" "CSR s EXTRAFLAGS AND 4 = 0"
    and "\<not> mem_size s \<le> CSR s PC - mem_offset s" "(CSR s PC - mem_offset s) AND 3 = 0"
    and "mem_read 4 (CSR s PC - mem_offset s) s = Some 0x30200073"
  obtains s2 where "rv32ima_step el s = Some (0, s2)" "CSR s2 PC = CSR s MEPC" "regs s2 = regs s" "mem s2 = mem s"
    "CSR s2 MSTATUS = drop_bit 4 (CSR s MSTATUS AND 0x80) OR push_bit 11 (CSR (timer_step el s) EXTRAFLAGS AND 3) OR 0x80"
    "CSR s2 EXTRAFLAGS = (CSR (timer_step el s) EXTRAFLAGS AND NOT 3) OR (drop_bit 11 (CSR s MSTATUS) AND 3)"
proof -
  let ?s = "timer_step el s"
  let ?e = "exec_mret \<lparr>st = ?s, pc = CSR ?s PC, rval = 0, rdid = 0, trap = 0\<rparr>"
  let ?s2 = "snd (cycle_end (CSR ?s CYCLEL + 1) (write_back ?e))"
  note other = timer_step_other [of _ el s]
  have eq: "mem_offset ?s = mem_offset s" "mem_size ?s = mem_size s"
    using timer_step_frame [of s el] by (simp_all add: frame_def)
  have "\<not> interrupt_taken ?s" using assms(1) other by (simp add: interrupt_taken_def)
  moreover have "mem_read 4 a ?s = mem_read 4 a s" for a by (simp add: mem_read_def timer_step_mem)
  ultimately have "rv32ima_step el s = Some (cycle_end (CSR ?s CYCLEL + 1) (write_back ?e))"
    using assms eq other timer_step_flags(2) [OF assms(2), of el]
    by (simp add: rv32ima_step_def Let_def exec_instr_def exec_system_def mret_word)
  then have "rv32ima_step el s = Some (0, ?s2)" by (simp add: prod_eq_iff cycle_end_csrs)
  moreover have "trap ?e = 0" "rdid ?e = 0" "pc ?e = CSR s MEPC - 4" "regs (st ?e) = regs s" "mem (st ?e) = mem s"
    "CSR (st ?e) MSTATUS = drop_bit 4 (CSR s MSTATUS AND 0x80) OR push_bit 11 (CSR ?s EXTRAFLAGS AND 3) OR 0x80"
    "CSR (st ?e) EXTRAFLAGS = (CSR ?s EXTRAFLAGS AND NOT 3) OR (drop_bit 11 (CSR s MSTATUS) AND 3)"
    using other by (simp_all add: exec_mret_def Let_def timer_step_mem)
  ultimately show ?thesis
    by (intro that [of ?s2]) (simp_all add: cycle_end_csrs write_back_def Let_def)
qed

section \<open>The program\<close>

definition RAM_SIZE :: u32 where "RAM_SIZE = 64 * 1024 * 1024"
definition RAM_TEXT_START :: u32 where "RAM_TEXT_START = 0"
definition RAM_STACK_START :: u32 where "RAM_STACK_START = RAM_SIZE div 2"
definition RAM_STACK_END :: u32 where "RAM_STACK_END = RAM_SIZE"
definition RAM_TEXT_END :: u32 where "RAM_TEXT_END = RAM_STACK_START"
definition MAX_MAINARGS :: nat where "MAX_MAINARGS = 4"

definition c_char :: "char \<Rightarrow> int" where
  "c_char c = (let n = of_char c in if n < 128 then n else n - 256)"

text \<open>
  \<open>xtoi\<close> from index 2 on.  The branch of the letters is the assignment \<open>res =+ s[i] - 'a'\<close>
  (a unary plus).  An overflow of \<open>res\<close> is \<open>None\<close>.
\<close>

fun xtoi_loop :: "string \<Rightarrow> int \<Rightarrow> int option" where
  "xtoi_loop [] res = Some res"
| "xtoi_loop (c # cs) res =
     (if \<not> c_int_ok (res * 16) then None
      else if c_char CHR ''a'' \<le> c_char c \<and> c_char c \<le> c_char CHR ''f''
      then xtoi_loop cs (c_char c - c_char CHR ''a'')
      else let res' = res * 16 + (c_char c - c_char CHR ''0'') in
           if c_int_ok res' then xtoi_loop cs res' else None)"

definition xtoi :: "string \<Rightarrow> int option" where
  "xtoi s = xtoi_loop (drop 2 s) 0"

text \<open>One argument of the emulated program; \<open>atoi\<close> is the library function.\<close>

definition mainarg :: "(string \<Rightarrow> int) \<Rightarrow> string \<Rightarrow> int option" where
  "mainarg atoi s = (if take 2 s = ''0x'' then xtoi s else Some (atoi s))"

fun mainargs :: "(string \<Rightarrow> int) \<Rightarrow> string list \<Rightarrow> int list option" where
  "mainargs atoi [] = Some []"
| "mainargs atoi (s # ss) =
     Option.bind (mainarg atoi s) (\<lambda>v. map_option ((#) v) (mainargs atoi ss))"

definition init_state :: CPUState where
  "init_state = \<lparr>regs = replicate 32 0, csrs = (\<lambda>_. 0)(PC := RAM_TEXT_START), mem = replicate (unat RAM_SIZE) 0,
     mem_offset = RAM_TEXT_START, mem_size = RAM_SIZE\<rparr>"

definition load_image :: "bytes \<Rightarrow> CPUState \<Rightarrow> CPUState option" where
  "load_image img s = map_option (\<lambda>m. s\<lparr>mem := m\<rparr>) (write_bytes (unat RAM_TEXT_START) img (mem s))"

definition push_mainargs :: "int list \<Rightarrow> CPUState \<Rightarrow> CPUState option" where
  "push_mainargs margs s =
     (let sp = RAM_STACK_END - of_nat (length margs) * 4 in
      map_option (\<lambda>m. s\<lparr>mem := m, regs := (regs s)[2 := sp, 10 := of_nat (length margs), 11 := sp]\<rparr>)
        (write_bytes (unat sp) (concat (map (\<lambda>v. le_bytes 4 (word_of_int v)) margs)) (mem s)))"

text \<open>
  The emulation loop, with the value of \<open>debug_climit\<close> after its decrement; the flag of the
  result says that the limit ended the loop.
\<close>

primrec emulate :: "nat \<Rightarrow> CPUState \<Rightarrow> (u32 \<times> CPUState \<times> bool) option" where
  "emulate 0 s = map_option (\<lambda>(ret, s'). (ret, s', True)) (rv32ima_step 1 s)"
| "emulate (Suc k) s =
     Option.bind (rv32ima_step 1 s) (\<lambda>(ret, s').
       if ret = 0 \<and> CSR s' PC \<noteq> 0 then emulate k s' else Some (ret, s', False))"

datatype rv_exit =
    Usage | Alloc_failed | No_image | Image_too_big | Load_failed
  | Finished u32 CPUState bool

definition rv32ima_main ::
  "(string \<Rightarrow> int) \<Rightarrow> bool \<Rightarrow> (string \<Rightarrow> bytes option) \<Rightarrow> string list \<Rightarrow> rv_exit option" where
  "rv32ima_main atoi malloc_ok fopen args =
     (case args of
        [] \<Rightarrow> Some Usage
      | image_filename # rest \<Rightarrow>
          if \<not> malloc_ok then Some Alloc_failed
          else (case fopen image_filename of
                  None \<Rightarrow> Some No_image
                | Some img \<Rightarrow>
                    if length img > unat (RAM_TEXT_END - RAM_TEXT_START) then Some Image_too_big
                    else if img = [] then Some Load_failed
                    else Option.bind (load_image img init_state) (\<lambda>s.
                         Option.bind (mainargs atoi (take MAX_MAINARGS rest)) (\<lambda>margs.
                         Option.bind (push_mainargs margs s) (\<lambda>s.
                         map_option (\<lambda>(ret, s', lim). Finished ret s' lim) (emulate 9999 s))))))"

lemma emulate_safe:
  assumes "cpu_wf s"
  shows "\<exists>r s' lim. emulate k s = Some (r, s', lim) \<and> cpu_wf s' \<and> (\<not> lim \<longrightarrow> r \<noteq> 0 \<or> CSR s' PC = 0)"
  using assms
proof (induction k arbitrary: s)
  case 0
  then obtain r s' where "rv32ima_step 1 s = Some (r, s')" "cpu_wf s'" using step_safe by blast
  then show ?case by auto
next
  case (Suc k)
  then obtain r s' where "rv32ima_step 1 s = Some (r, s')" "cpu_wf s'" using step_safe by blast
  then show ?case using Suc.IH [of s'] by auto
qed

lemma ram_sizes: "unat RAM_SIZE = 67108864" "unat RAM_TEXT_START = 0"
  "unat (RAM_TEXT_END - RAM_TEXT_START) = 33554432" "RAM_STACK_END = RAM_SIZE"
  by (simp_all add: RAM_SIZE_def RAM_TEXT_START_def RAM_TEXT_END_def RAM_STACK_START_def RAM_STACK_END_def)

lemma load_image_wf:
  assumes "length img \<le> 33554432"
  shows "\<exists>s. load_image img init_state = Some s \<and> cpu_wf s \<and> mem_size s = RAM_SIZE"
proof -
  have "length (replicate (unat RAM_SIZE) (0 :: u8)) = 67108864" by (simp add: ram_sizes)
  then obtain m where m: "write_bytes 0 img (replicate (unat RAM_SIZE) 0) = Some m"
    using write_bytes_exists [of 0 img "replicate (unat RAM_SIZE) 0"] assms by auto
  then have "length m = unat RAM_SIZE" using write_bytes_length by fastforce
  then show ?thesis
    using m by (simp add: load_image_def init_state_def cpu_wf_def ram_sizes word_le_nat_alt)
qed

lemma length_mainargs: "mainargs atoi ss = Some vs \<Longrightarrow> length vs = length ss"
  by (induction ss arbitrary: vs) (auto simp: bind_eq_Some_conv)

lemma push_mainargs_wf:
  assumes "cpu_wf s" "mem_size s = RAM_SIZE" "length margs \<le> 4"
  shows "\<exists>s'. push_mainargs margs s = Some s' \<and> cpu_wf s'"
proof -
  let ?sp = "RAM_STACK_END - of_nat (length margs) * 4"
  let ?b = "concat (map (\<lambda>v. le_bytes 4 (word_of_int v)) margs)"
  have n: "unat (of_nat (length margs) * 4 :: u32) = 4 * length margs"
    using assms(3) by (simp add: unat_word_ariths unat_of_nat)
  then have "(of_nat (length margs) * 4 :: u32) \<le> RAM_SIZE"
    using assms(3) by (simp add: word_le_nat_alt ram_sizes)
  then have sp: "unat ?sp = 67108864 - 4 * length margs"
    by (simp add: ram_sizes unat_sub n)
  have b: "length ?b = 4 * length margs"
    by (induction margs) simp_all
  have "length (mem s) = 67108864" using assms(1,2) by (simp add: cpu_wf_def ram_sizes)
  then obtain m where m: "write_bytes (unat ?sp) ?b (mem s) = Some m"
    using write_bytes_exists [of "unat ?sp" ?b "mem s"] assms(3) sp b by auto
  then show ?thesis
    using assms(1) write_bytes_length [OF m] by (simp add: push_mainargs_def Let_def cpu_wf_def)
qed

section \<open>Properties\<close>

text \<open>
  C5: memory safety of the emulator.  From a state whose memory array has the announced size, a
  positive multiple of four, a step always ends without touching a byte outside the array,
  whatever the instruction; \<open>x0\<close> stays zero, there are still 32 registers, and the memory
  keeps its place and size.
\<close>

theorem rv32ima_step_safe:
  assumes "cpu_wf s"
  shows "\<exists>r s'. rv32ima_step elapsedUs s = Some (r, s') \<and> cpu_wf s' \<and>
    mem_offset s' = mem_offset s \<and> mem_size s' = mem_size s"
  by (rule step_safe [OF assms])

definition demo_cpu :: CPUState where
  "demo_cpu = \<lparr>regs = replicate 32 0, csrs = (\<lambda>_. 0)(MTVEC := 4, MIE := 0x80, MSTATUS := 8, TIMERMATCHL := 1, TIMERL := 5),
     mem = [0x13, 0, 0, 0, 0x73, 0, 0x20, 0x30], mem_offset = 0, mem_size = 8\<rparr>"

lemma demo_cpu_wf: "cpu_wf demo_cpu"
  by code_simp

theorem rv32ima_step_safe_witness:
  "cpu_wf demo_cpu \<and> (\<exists>r s'. rv32ima_step 1 demo_cpu = Some (r, s') \<and> cpu_wf s' \<and>
    mem_offset s' = mem_offset demo_cpu \<and> mem_size s' = mem_size demo_cpu)"
  using rv32ima_step_safe [OF demo_cpu_wf] demo_cpu_wf by blast

text \<open>
  The RV32M instructions compute the integers of the specification.  For an instruction
  word with the register form and the M bit set, \<open>exec_op\<close> leaves in \<open>rval\<close> the low or
  high half of the signed or unsigned product, the quotient rounded towards zero or the
  remainder, with the results fixed for a zero divisor, and the one overflowing quotient wraps.
\<close>

lemma exec_op_m_correct:
  assumes "ir AND 0x20 \<noteq> 0" "ir AND 0x02000000 \<noteq> 0"
  shows "exec_op ir e =
    e\<lparr>rval := word_of_int (m_spec (funct3 ir) (REG (st e) (rs1_of ir)) (REG (st e) (rs2_of ir)))\<rparr>"
proof -
  have "imm_i ir AND 0x1f = rs2_of ir"
    unfolding imm_i_def rs2_of_def Let_def
    by (cases "drop_bit 20 ir AND 0x800 = 0"; simp only: if_True if_False not_True_eq_False not_False_eq_True;
        rule word32_eqI; simp add: upt_rec bit_simps)
  then show ?thesis
    using assms by (simp add: exec_op_def alu_m_spec Let_def)
qed

definition demo_exec :: exec where
  "demo_exec = \<lparr>st = demo_cpu\<lparr>regs := (replicate 32 0)[5 := - 7, 6 := 2]\<rparr>, pc = 0, rval = 0, rdid = 7, trap = 0\<rparr>"

text \<open>
  C31: a timer interrupt and the \<open>mret\<close> of its handler are transparent.  When the interrupt is
  taken the machine enters the handler in machine mode with interrupts off and the interrupted
  address in \<open>mepc\<close>; an \<open>mret\<close> at the handler then resumes at that address with the
  registers, the memory, the interrupt enable bit and the privilege mode as they were.
\<close>

theorem interrupt_mret_roundtrip:
  assumes "interrupt_taken (timer_step t1 s)"
    and "CSR s MTVEC - mem_offset s < mem_size s" "(CSR s MTVEC - mem_offset s) AND 3 = 0"
    and "mem_read 4 (CSR s MTVEC - mem_offset s) s = Some 0x30200073"
  shows "\<exists>s1 s2. rv32ima_step t1 s = Some (0, s1) \<and> CSR s1 PC = CSR s MTVEC \<and> CSR s1 MEPC = CSR s PC \<and>
    CSR s1 MCAUSE = 0x80000007 \<and> CSR s1 EXTRAFLAGS AND 3 = 3 \<and> CSR s1 MSTATUS AND 8 = 0 \<and>
    rv32ima_step t2 s1 = Some (0, s2) \<and> CSR s2 PC = CSR s PC \<and> regs s2 = regs s \<and> mem s2 = mem s \<and>
    CSR s2 MSTATUS AND 8 = CSR s MSTATUS AND 8 \<and> CSR s2 EXTRAFLAGS AND 3 = CSR s EXTRAFLAGS AND 3"
proof -
  obtain s1 where s1: "rv32ima_step t1 s = Some (0, s1)" "CSR s1 PC = CSR s MTVEC" "CSR s1 MEPC = CSR s PC"
    "CSR s1 MCAUSE = 0x80000007"
    "CSR s1 MSTATUS = push_bit 4 (CSR s MSTATUS AND 8) OR push_bit 11 (CSR s EXTRAFLAGS AND 3)"
    "CSR s1 EXTRAFLAGS AND 3 = 3" "CSR s1 EXTRAFLAGS AND 4 = 0"
    "regs s1 = regs s" "mem s1 = mem s" "mem_offset s1 = mem_offset s" "mem_size s1 = mem_size s"
    using interrupt_step [OF assms(1)] by blast
  have off: "CSR s1 MSTATUS AND 8 = 0" unfolding s1(5) by (rule trap_bits(1))
  have rd: "mem_read 4 (CSR s1 PC - mem_offset s1) s1 = Some 0x30200073"
    using assms(4) s1(2,9,10) by (simp add: mem_read_def)
  have rng: "\<not> mem_size s1 \<le> CSR s1 PC - mem_offset s1" "(CSR s1 PC - mem_offset s1) AND 3 = 0"
    using assms(2,3) s1(2,10,11) by simp_all
  obtain s2 where s2: "rv32ima_step t2 s1 = Some (0, s2)" "CSR s2 PC = CSR s1 MEPC" "regs s2 = regs s1" "mem s2 = mem s1"
    "CSR s2 MSTATUS = drop_bit 4 (CSR s1 MSTATUS AND 0x80) OR push_bit 11 (CSR (timer_step t2 s1) EXTRAFLAGS AND 3) OR 0x80"
    "CSR s2 EXTRAFLAGS = (CSR (timer_step t2 s1) EXTRAFLAGS AND NOT 3) OR (drop_bit 11 (CSR s1 MSTATUS) AND 3)"
    using mret_step [OF off s1(7) rng rd] by blast
  have "CSR s2 MSTATUS AND 8 = CSR s MSTATUS AND 8" unfolding s2(5) s1(5) by (rule trap_bits(2))
  moreover have "CSR s2 EXTRAFLAGS AND 3 = CSR s EXTRAFLAGS AND 3" unfolding s2(6) s1(5) by (rule trap_bits(3))
  ultimately show ?thesis using s1 s2 off by (intro exI [of _ s1] exI [of _ s2]) simp
qed

theorem interrupt_mret_roundtrip_witness:
  "\<exists>s1 s2. rv32ima_step 1 demo_cpu = Some (0, s1) \<and> CSR s1 PC = 4 \<and>
    rv32ima_step 1 s1 = Some (0, s2) \<and> CSR s2 PC = CSR demo_cpu PC \<and> regs s2 = regs demo_cpu \<and>
    CSR s2 MSTATUS AND 8 = 8"
proof -
  have h: "interrupt_taken (timer_step 1 demo_cpu)" "CSR demo_cpu MTVEC - mem_offset demo_cpu < mem_size demo_cpu"
    "(CSR demo_cpu MTVEC - mem_offset demo_cpu) AND 3 = 0"
    "mem_read 4 (CSR demo_cpu MTVEC - mem_offset demo_cpu) demo_cpu = Some 0x30200073"
    "CSR demo_cpu MTVEC = 4" "CSR demo_cpu MSTATUS AND 8 = 8"
    by code_simp+
  show ?thesis
    using interrupt_mret_roundtrip [OF h(1-4), of 1] unfolding h(5,6) by blast
qed



end
