(* ===== verification/Shell.thy ===== *)
theory Shell
  imports Prelude
begin

text \<open>
  The shell of \<open>course_code/lecture_8/sh\<close>, a port of the xv6 shell without a C library: the
  tokenizer and recursive-descent parser of \<open>sh.c\<close>, its allocator and string functions
  (\<open>lib.h\<close>), and \<open>runcmd\<close> as the tree of system calls it makes.  A character pointer into
  the line is an index; the line \<open>b\<close> is the text up to its terminating NUL, so \<open>es\<close> is
  \<open>length b\<close> and the character there is NUL.
\<close>

section \<open>Results and allocation\<close>

text \<open>A failed \<open>assert\<close> ends the process; \<open>Fuel\<close> marks a cut of the recursion of the model.\<close>

datatype 'a presult = Ok 'a | Panic | Fuel

primrec pbind :: "'a presult \<Rightarrow> ('a \<Rightarrow> 'b presult) \<Rightarrow> 'b presult" where
  "pbind (Ok x) f = f x"
| "pbind Panic f = Panic"
| "pbind Fuel f = Fuel"

definition MAXARGS :: nat where "MAXARGS = 10"
definition ARENA :: nat where "ARENA = 4096"

text \<open>The bump allocator: the state is the number of bytes already handed out.\<close>

definition zalloc :: "nat \<Rightarrow> nat \<Rightarrow> nat presult" where
  "zalloc freem sz = (if freem + sz < ARENA then Ok (freem + sz) else Panic)"

text \<open>Strings of the line are pairs of a start and an end index.\<close>

datatype cmd =
    Exec "(nat \<times> nat) list"
  | Redir cmd nat nat int int
  | Pipe cmd cmd
  | List cmd cmd
  | Back cmd

definition sizeof_execcmd :: nat where "sizeof_execcmd = 168"
definition sizeof_redircmd :: nat where "sizeof_redircmd = 40"
definition sizeof_pipecmd :: nat where "sizeof_pipecmd = 24"
definition sizeof_listcmd :: nat where "sizeof_listcmd = 24"
definition sizeof_backcmd :: nat where "sizeof_backcmd = 16"

definition alloc_node :: "nat \<Rightarrow> nat \<Rightarrow> cmd \<Rightarrow> (cmd \<times> nat) presult" where
  "alloc_node a sz c = pbind (zalloc a sz) (\<lambda>a. Ok (c, a))"

definition execcmd :: "nat \<Rightarrow> (cmd \<times> nat) presult" where
  "execcmd a = alloc_node a sizeof_execcmd (Exec [])"

definition redircmd :: "cmd \<Rightarrow> nat \<Rightarrow> nat \<Rightarrow> int \<Rightarrow> int \<Rightarrow> nat \<Rightarrow> (cmd \<times> nat) presult" where
  "redircmd subcmd file efile mode fd a = alloc_node a sizeof_redircmd (Redir subcmd file efile mode fd)"

definition pipecmd :: "cmd \<Rightarrow> cmd \<Rightarrow> nat \<Rightarrow> (cmd \<times> nat) presult" where
  "pipecmd left right a = alloc_node a sizeof_pipecmd (Pipe left right)"

definition listcmd :: "cmd \<Rightarrow> cmd \<Rightarrow> nat \<Rightarrow> (cmd \<times> nat) presult" where
  "listcmd left right a = alloc_node a sizeof_listcmd (List left right)"

definition backcmd :: "cmd \<Rightarrow> nat \<Rightarrow> (cmd \<times> nat) presult" where
  "backcmd subcmd a = alloc_node a sizeof_backcmd (Back subcmd)"

section \<open>Tokens\<close>

abbreviation NUL :: char where "NUL \<equiv> CHR 0x00"

definition whitespace :: string where "whitespace = [CHR '' '', CHR 0x09, CHR 0x0D, CHR 0x0A, CHR 0x0B]"
definition symbols :: string where "symbols = ''<|>&;()''"

text \<open>\<open>strchr\<close> of \<open>lib.h\<close> stops at the NUL of its first argument, so it never finds NUL.\<close>

definition strchr :: "string \<Rightarrow> char \<Rightarrow> bool" where
  "strchr s c \<longleftrightarrow> c \<in> set s"

definition ch :: "string \<Rightarrow> nat \<Rightarrow> char" where
  "ch b i = (if i < length b then b ! i else NUL)"

function skip_while :: "(char \<Rightarrow> bool) \<Rightarrow> string \<Rightarrow> nat \<Rightarrow> nat" where
  "skip_while p b s = (if s < length b \<and> p (ch b s) then skip_while p b (Suc s) else s)"
  by pat_completeness auto
termination by (relation "measure (\<lambda>(p, b, s). length b - s)") auto

declare skip_while.simps [simp del]

abbreviation skip_ws :: "string \<Rightarrow> nat \<Rightarrow> nat" where
  "skip_ws \<equiv> skip_while (strchr whitespace)"

definition word_char :: "char \<Rightarrow> bool" where
  "word_char c \<longleftrightarrow> \<not> strchr whitespace c \<and> \<not> strchr symbols c"

text \<open>The \<open>switch\<close> of \<open>gettoken\<close>: the token at \<open>s\<close> and the position after it.\<close>

definition token_at :: "string \<Rightarrow> nat \<Rightarrow> char \<times> nat" where
  "token_at b s =
     (let c = ch b s in
      if c = NUL then (c, s)
      else if strchr ''|();&<'' c then (c, Suc s)
      else if c = CHR ''>'' then
        if ch b (Suc s) = CHR ''>'' then (CHR ''+'', Suc (Suc s)) else (c, Suc s)
      else (CHR ''a'', skip_while word_char b s))"

text \<open>The token, its start and end, and the position after the white space that follows it.\<close>

definition gettoken :: "string \<Rightarrow> nat \<Rightarrow> char \<times> nat \<times> nat \<times> nat" where
  "gettoken b ps =
     (let s = skip_ws b ps; (ret, s') = token_at b s in (ret, s, s', skip_ws b s'))"

definition peek :: "string \<Rightarrow> nat \<Rightarrow> string \<Rightarrow> bool \<times> nat" where
  "peek b ps toks = (let s = skip_ws b ps in (ch b s \<noteq> NUL \<and> strchr toks (ch b s), s))"

text \<open>The four results of \<open>gettoken\<close>.\<close>

definition tok_of :: "string \<Rightarrow> nat \<Rightarrow> char" where "tok_of b i = fst (gettoken b i)"
definition tok_start :: "string \<Rightarrow> nat \<Rightarrow> nat" where "tok_start b i = fst (snd (gettoken b i))"
definition tok_end :: "string \<Rightarrow> nat \<Rightarrow> nat" where "tok_end b i = fst (snd (snd (gettoken b i)))"
definition after :: "string \<Rightarrow> nat \<Rightarrow> nat" where "after b i = snd (snd (snd (gettoken b i)))"

lemma skip_while_bounds: "s \<le> skip_while p b s" "s \<le> length b \<Longrightarrow> skip_while p b s \<le> length b"
  by (induction p b s rule: skip_while.induct; subst skip_while.simps; auto)+

lemma skip_while_drop: "s \<le> length b \<Longrightarrow> skip_while p b s = s + length (takeWhile p (drop s b))"
proof (induction p b s rule: skip_while.induct)
  case (1 p b s)
  show ?case
  proof (cases "s < length b")
    case True
    then have "drop s b = b ! s # drop (Suc s) b" by (rule Cons_nth_drop_Suc [symmetric])
    then show ?thesis using 1 True by (subst skip_while.simps) (auto simp: ch_def)
  qed (use 1 in \<open>subst skip_while.simps, auto\<close>)
qed

lemma peek_progress:
  "peek b i toks = (r, j) \<Longrightarrow> i \<le> j" "peek b i toks = (True, j) \<Longrightarrow> j < length b \<and> strchr toks (b ! j)"
  "peek b i toks = (r, j) \<Longrightarrow> j = skip_ws b i"
  using skip_while_bounds(1) [of i "strchr whitespace" b]
  by (auto simp: peek_def Let_def ch_def split: if_splits)

lemma skip_while_stop: "skip_while p b s < length b \<Longrightarrow> \<not> p (ch b (skip_while p b s))"
proof (induction p b s rule: skip_while.induct)
  case (1 p b s)
  show ?case
  proof (cases "s < length b \<and> p (ch b s)")
    case True
    then have "skip_while p b s = skip_while p b (Suc s)" by (subst skip_while.simps) simp
    then show ?thesis using 1 True by simp
  next
    case False
    then have "skip_while p b s = s" by (subst skip_while.simps) auto
    then show ?thesis using 1 False by auto
  qed
qed

lemma skip_while_id: "\<not> (s < length b \<and> p (ch b s)) \<Longrightarrow> skip_while p b s = s"
  by (subst skip_while.simps) auto

lemma skip_ws_idem [simp]: "skip_ws b (skip_ws b i) = skip_ws b i"
  using skip_while_stop [of "strchr whitespace" b i] by (intro skip_while_id) auto

lemma token_at_ge: "s \<le> snd (token_at b s)"
  using skip_while_bounds(1) [of s word_char b] by (simp add: token_at_def Let_def)

lemma token_at_less:
  assumes "ch b s \<noteq> NUL" "\<not> strchr whitespace (ch b s)"
  shows "s < snd (token_at b s)"
proof -
  have "s < length b" using assms(1) by (auto simp: ch_def split: if_splits)
  then have "s < skip_while word_char b s" if "word_char (ch b s)"
    using that skip_while_bounds(1) [of "Suc s" word_char b] by (subst skip_while.simps) simp
  then show ?thesis
    using assms by (auto simp: token_at_def Let_def word_char_def strchr_def symbols_def)
qed

lemma gettoken_eq:
  "tok_of b i = fst (token_at b (skip_ws b i))"
  "tok_start b i = skip_ws b i"
  "tok_end b i = snd (token_at b (skip_ws b i))"
  "after b i = skip_ws b (snd (token_at b (skip_ws b i)))"
  by (simp_all add: gettoken_def tok_of_def tok_start_def tok_end_def after_def Let_def split: prod.split)

lemma after_ge: "i \<le> after b i"
  using skip_while_bounds(1) [of i "strchr whitespace" b] token_at_ge [of "skip_ws b i" b]
    skip_while_bounds(1) [of "snd (token_at b (skip_ws b i))" "strchr whitespace" b]
  by (simp add: gettoken_eq)

lemma after_progress:
  assumes "ch b (skip_ws b i) \<noteq> NUL"
  shows "i < after b i"
proof -
  have "skip_ws b i < length b" using assms by (auto simp: ch_def split: if_splits)
  then have "skip_ws b i < snd (token_at b (skip_ws b i))"
    using assms skip_while_stop [of "strchr whitespace" b i] by (intro token_at_less) simp_all
  then show ?thesis
    using skip_while_bounds(1) [of i "strchr whitespace" b]
      skip_while_bounds(1) [of "snd (token_at b (skip_ws b i))" "strchr whitespace" b]
    by (simp add: gettoken_eq)
qed

lemma tok_of_NUL: "tok_of b i \<noteq> NUL \<Longrightarrow> ch b (skip_ws b i) \<noteq> NUL"
  by (auto simp: gettoken_eq token_at_def)

lemma after_peek:
  assumes "peek b i toks = (True, j)"
  shows "i < after b j"
proof -
  have "j = skip_ws b i" "ch b j \<noteq> NUL" using assms by (auto simp: peek_def Let_def)
  then show ?thesis
    using after_progress [of b j] skip_while_bounds(1) [of i "strchr whitespace" b] by simp
qed

section \<open>The parser\<close>

definition O_RDONLY :: int where "O_RDONLY = 0"
definition O_WRONLY_CREAT :: int where "O_WRONLY_CREAT = 0x41"
definition O_WRONLY_CREAT_TRUNC :: int where "O_WRONLY_CREAT_TRUNC = 0x241"

definition redir_of :: "char \<Rightarrow> cmd \<Rightarrow> nat \<Rightarrow> nat \<Rightarrow> nat \<Rightarrow> (cmd \<times> nat) presult" where
  "redir_of tok cmd q eq a =
     (if tok = CHR ''<'' then redircmd cmd q eq O_RDONLY 0 a
      else if tok = CHR ''>'' then redircmd cmd q eq O_WRONLY_CREAT_TRUNC 1 a
      else if tok = CHR ''+'' then redircmd cmd q eq O_WRONLY_CREAT 1 a
      else Ok (cmd, a))"

function parseredirs :: "string \<Rightarrow> cmd \<Rightarrow> nat \<Rightarrow> nat \<Rightarrow> (cmd \<times> nat \<times> nat) presult" where
  "parseredirs b cmd i a =
     (case peek b i ''<>'' of (found, j) \<Rightarrow>
        if \<not> found then Ok (cmd, j, a)
        else let i1 = after b j in
          if tok_of b i1 \<noteq> CHR ''a'' then Panic
          else (case redir_of (tok_of b j) cmd (tok_start b i1) (tok_end b i1) a of
                  Ok (cmd, a) \<Rightarrow> parseredirs b cmd (after b i1) a
                | Panic \<Rightarrow> Panic
                | Fuel \<Rightarrow> Fuel))"
  by pat_completeness auto
termination
proof (relation "measure (\<lambda>(b, cmd, i, a). length b - i)", goal_cases)
  case (2 b cmd i a found j)
  then have "peek b i ''<>'' = (True, j)" by auto
  then have "i < after b j" "after b j \<le> after b (after b j)" "i < length b"
    using after_peek after_ge [of "after b j" b] peek_progress(1,2) [of b i "''<>''"] by force+
  then show ?case using 2 by auto
qed auto

declare parseredirs.simps [simp del]

text \<open>The innermost node, which the parser keeps a pointer to while redirections wrap it.\<close>

fun add_arg :: "nat \<times> nat \<Rightarrow> cmd \<Rightarrow> cmd" where
  "add_arg t (Exec ts) = Exec (ts @ [t])"
| "add_arg t (Redir c f e mode fd) = Redir (add_arg t c) f e mode fd"
| "add_arg t c = c"

lemma parseredirs_ge: "parseredirs b cmd i a = Ok (c, j, a') \<Longrightarrow> i \<le> j"
proof (induction b cmd i a rule: parseredirs.induct)
  case (1 b cmd i a)
  obtain found k where p: "peek b i ''<>'' = (found, k)" by fastforce
  let ?r = "redir_of (tok_of b k) cmd (tok_start b (after b k)) (tok_end b (after b k)) a"
  show ?case
  proof (cases "found \<and> tok_of b (after b k) = CHR ''a''")
    case False
    then show ?thesis
      using 1(2) p peek_progress(1) [OF p] by (auto simp: parseredirs.simps [of b cmd i] Let_def split: if_splits)
  next
    case True
    then have "i < after b k" using p after_peek by simp
    moreover have "after b k \<le> after b (after b k)" by (rule after_ge)
    moreover obtain c1 a1 where r: "?r = Ok (c1, a1)"
      using 1(2) p True by (auto simp: parseredirs.simps [of b cmd i] Let_def split: presult.splits)
    moreover have "parseredirs b c1 (after b (after b k)) a1 = Ok (c, j, a')"
      using 1(2) p True r by (simp add: parseredirs.simps [of b cmd i] Let_def)
    ultimately show ?thesis using 1(1) [OF p [symmetric] _ refl _ r refl] True by fastforce
  qed
qed

text \<open>The loop of \<open>parseexec\<close> over the arguments.\<close>

function parse_args :: "string \<Rightarrow> cmd \<Rightarrow> nat \<Rightarrow> nat \<Rightarrow> nat \<Rightarrow> (cmd \<times> nat \<times> nat) presult" where
  "parse_args b ret argc i a =
     (case peek b i ''|)&;'' of (stop, j) \<Rightarrow>
        if stop then Ok (ret, j, a)
        else if tok_of b j = NUL then Ok (ret, after b j, a)
        else if tok_of b j \<noteq> CHR ''a'' then Panic
        else if \<not> Suc argc < MAXARGS then Panic
        else (case parseredirs b (add_arg (tok_start b j, tok_end b j) ret) (after b j) a of
                Ok (ret, i', a) \<Rightarrow> parse_args b ret (Suc argc) i' a
              | Panic \<Rightarrow> Panic
              | Fuel \<Rightarrow> Fuel))"
  by pat_completeness auto
termination
proof (relation "measure (\<lambda>(b, ret, argc, i, a). length b - i)", goal_cases)
  case (2 b ret argc i a stop j r ret' x i' a')
  then have p: "peek b i ''|)&;'' = (stop, j)"
    and r: "parseredirs b (add_arg (tok_start b j, tok_end b j) ret) (after b j) a = Ok (ret', i', a')" by auto
  have nz: "ch b (skip_ws b j) \<noteq> NUL" using 2 by (intro tok_of_NUL) simp
  then have "j < length b"
    using skip_while_bounds(1) [of j "strchr whitespace" b] by (auto simp: ch_def split: if_splits)
  then show ?case
    using after_progress [OF nz] parseredirs_ge [OF r] peek_progress(1) [OF p] 2 by auto
qed auto

declare parse_args.simps [simp del]

text \<open>The loop of \<open>parseline\<close> over the ampersands.\<close>

function parse_backs :: "string \<Rightarrow> cmd \<Rightarrow> nat \<Rightarrow> nat \<Rightarrow> (cmd \<times> nat \<times> nat) presult" where
  "parse_backs b cmd i a =
     (case peek b i ''&'' of (found, j) \<Rightarrow>
        if \<not> found then Ok (cmd, j, a)
        else (case backcmd cmd a of
                Ok (cmd, a) \<Rightarrow> parse_backs b cmd (after b j) a
              | Panic \<Rightarrow> Panic
              | Fuel \<Rightarrow> Fuel))"
  by pat_completeness auto
termination
proof (relation "measure (\<lambda>(b, cmd, i, a). length b - i)", goal_cases)
  case (2 b cmd i a found j)
  then have "peek b i ''&'' = (True, j)" by auto
  then have "i < after b j" "i < length b"
    using after_peek peek_progress(1,2) [of b i "''&''"] by force+
  then show ?case using 2 by auto
qed auto

declare parse_backs.simps [simp del]

text \<open>
  The mutually recursive functions of the grammar.  Each is given the others as \<open>self\<close>, and
  \<open>parse\<close> ties them together, with fuel for the depth of the recursion.
\<close>

datatype phrase = Parseline | Parsepipe | Parseexec | Parseblock

type_synonym grammar = "phrase \<Rightarrow> string \<Rightarrow> nat \<Rightarrow> nat \<Rightarrow> (cmd \<times> nat \<times> nat) presult"

definition parseline :: "grammar \<Rightarrow> string \<Rightarrow> nat \<Rightarrow> nat \<Rightarrow> (cmd \<times> nat \<times> nat) presult" where
  "parseline self b i a =
     pbind (self Parsepipe b i a) (\<lambda>(cmd, i, a).
     pbind (parse_backs b cmd i a) (\<lambda>(cmd, i, a).
     case peek b i '';'' of (found, j) \<Rightarrow>
       if \<not> found then Ok (cmd, j, a)
       else pbind (self Parseline b (after b j) a) (\<lambda>(right, i, a).
            pbind (listcmd cmd right a) (\<lambda>(cmd, a). Ok (cmd, i, a)))))"

definition parsepipe :: "grammar \<Rightarrow> string \<Rightarrow> nat \<Rightarrow> nat \<Rightarrow> (cmd \<times> nat \<times> nat) presult" where
  "parsepipe self b i a =
     pbind (self Parseexec b i a) (\<lambda>(cmd, i, a).
     case peek b i ''|'' of (found, j) \<Rightarrow>
       if \<not> found then Ok (cmd, j, a)
       else pbind (self Parsepipe b (after b j) a) (\<lambda>(right, i, a).
            pbind (pipecmd cmd right a) (\<lambda>(cmd, a). Ok (cmd, i, a))))"

definition parseblock :: "grammar \<Rightarrow> string \<Rightarrow> nat \<Rightarrow> nat \<Rightarrow> (cmd \<times> nat \<times> nat) presult" where
  "parseblock self b i a =
     (case peek b i ''('' of (found, j) \<Rightarrow>
        if \<not> found then Panic
        else pbind (self Parseline b (after b j) a) (\<lambda>(cmd, i, a).
             case peek b i '')'' of (found, j) \<Rightarrow>
               if \<not> found then Panic else parseredirs b cmd (after b j) a))"

definition parseexec :: "grammar \<Rightarrow> string \<Rightarrow> nat \<Rightarrow> nat \<Rightarrow> (cmd \<times> nat \<times> nat) presult" where
  "parseexec self b i a =
     (case peek b i ''('' of (found, j) \<Rightarrow>
        if found then self Parseblock b j a
        else pbind (execcmd a) (\<lambda>(ret, a).
             pbind (parseredirs b ret j a) (\<lambda>(ret, i, a). parse_args b ret 0 i a)))"

primrec parse :: "nat \<Rightarrow> grammar" where
  "parse 0 = (\<lambda>nt b i a. Fuel)"
| "parse (Suc n) = (\<lambda>nt.
     case nt of
       Parseline \<Rightarrow> parseline (parse n)
     | Parsepipe \<Rightarrow> parsepipe (parse n)
     | Parseexec \<Rightarrow> parseexec (parse n)
     | Parseblock \<Rightarrow> parseblock (parse n))"

text \<open>
  \<open>nulterminate\<close> writes a NUL at the end of every string of the tree; the buffer is the line
  with its own NUL.
\<close>

fun nulterminate :: "cmd \<Rightarrow> string \<Rightarrow> string" where
  "nulterminate (Exec ts) buf = fold (\<lambda>t buf. buf[snd t := NUL]) ts buf"
| "nulterminate (Redir c f e mode fd) buf = (nulterminate c buf)[e := NUL]"
| "nulterminate (Pipe l r) buf = nulterminate r (nulterminate l buf)"
| "nulterminate (List l r) buf = nulterminate r (nulterminate l buf)"
| "nulterminate (Back c) buf = nulterminate c buf"

definition parsecmd :: "nat \<Rightarrow> string \<Rightarrow> (cmd \<times> string \<times> nat) presult" where
  "parsecmd n b =
     pbind (parse n Parseline b 0 0) (\<lambda>(cmd, i, a).
     case peek b i [] of (_, j) \<Rightarrow>
       if j \<noteq> length b then Panic else Ok (cmd, nulterminate cmd (b @ [NUL]), a))"

definition parse_fuel :: "string \<Rightarrow> nat" where
  "parse_fuel b = 4 * length b + 4"


section \<open>What the parser returns\<close>

definition word_at :: "string \<Rightarrow> nat \<times> nat \<Rightarrow> bool" where
  "word_at b t \<longleftrightarrow>
     fst t < snd t \<and> snd t \<le> length b \<and> (\<forall>k. fst t \<le> k \<and> k < snd t \<longrightarrow> word_char (b ! k)) \<and>
     (snd t < length b \<longrightarrow> \<not> word_char (b ! snd t))"

fun toks :: "cmd \<Rightarrow> (nat \<times> nat) list" where
  "toks (Exec ts) = ts"
| "toks (Redir c f e mode fd) = toks c @ [(f, e)]"
| "toks (Pipe l r) = toks l @ toks r"
| "toks (List l r) = toks l @ toks r"
| "toks (Back c) = toks c"

text \<open>The number of arguments of the innermost node, and the bound of all of them.\<close>

fun exec_args :: "cmd \<Rightarrow> nat option" where
  "exec_args (Exec ts) = Some (length ts)"
| "exec_args (Redir c f e mode fd) = exec_args c"
| "exec_args _ = None"

fun narrow :: "cmd \<Rightarrow> bool" where
  "narrow (Exec ts) = (length ts < MAXARGS)"
| "narrow (Redir c f e mode fd) = narrow c"
| "narrow (Pipe l r) = (narrow l \<and> narrow r)"
| "narrow (List l r) = (narrow l \<and> narrow r)"
| "narrow (Back c) = narrow c"

definition cmd_ok :: "string \<Rightarrow> cmd \<Rightarrow> bool" where
  "cmd_ok b c \<longleftrightarrow> (\<forall>t \<in> set (toks c). word_at b t) \<and> narrow c"

definition good :: "string \<Rightarrow> nat \<Rightarrow> (cmd \<times> nat \<times> nat) presult \<Rightarrow> bool" where
  "good b i r \<longleftrightarrow>
     r \<noteq> Fuel \<and> (\<forall>c j a. r = Ok (c, j, a) \<longrightarrow> i \<le> j \<and> j \<le> length b \<and> cmd_ok b c)"

lemma good_simps [simp]:
  "good b i Panic" "\<not> good b i Fuel" "good b i (Ok (c, j, a)) \<longleftrightarrow> i \<le> j \<and> j \<le> length b \<and> cmd_ok b c"
  by (auto simp: good_def)

lemma good_cases:
  assumes "good b i r"
  obtains "r = Panic" | c j a where "r = Ok (c, j, a)" "i \<le> j" "j \<le> length b" "cmd_ok b c"
  using assms by (cases r) (auto simp: good_def)

lemma good_mono: "good b j r \<Longrightarrow> i \<le> j \<Longrightarrow> good b i r"
  by (auto simp: good_def)

lemma alloc_node_cases: "alloc_node a sz c = Panic \<or> alloc_node a sz c = Ok (c, a + sz)"
  by (simp add: alloc_node_def zalloc_def)

lemma token_at_le: "s \<le> length b \<Longrightarrow> snd (token_at b s) \<le> length b"
proof -
  assume s: "s \<le> length b"
  have "ch b s \<noteq> NUL \<Longrightarrow> s < length b" "ch b (Suc s) = CHR ''>'' \<Longrightarrow> Suc s < length b"
    by (auto simp: ch_def split: if_splits)
  then show ?thesis
    using s skip_while_bounds(2) [of s b word_char] by (auto simp: token_at_def Let_def)
qed

lemma after_le: "i \<le> length b \<Longrightarrow> after b i \<le> length b"
  by (simp add: gettoken_eq skip_while_bounds(2) token_at_le)

lemma peek_le: "peek b i t = (r, j) \<Longrightarrow> i \<le> length b \<Longrightarrow> j \<le> length b"
  using peek_progress(3) [of b i t r j] by (simp add: skip_while_bounds(2))

lemma skip_while_all: "s \<le> k \<Longrightarrow> k < skip_while p b s \<Longrightarrow> p (ch b k)"
proof (induction p b s rule: skip_while.induct)
  case (1 p b s)
  show ?case
  proof (cases "s < length b \<and> p (ch b s)")
    case True
    then have "skip_while p b s = skip_while p b (Suc s)" by (subst skip_while.simps) simp
    then show ?thesis using 1 True by (cases "k = s") auto
  next
    case False
    then show ?thesis using 1 skip_while_id [of s b p] by auto
  qed
qed

lemma word_token:
  assumes "tok_of b i = CHR ''a''" "i \<le> length b"
  shows "word_at b (tok_start b i, tok_end b i)"
proof -
  let ?s = "skip_ws b i"
  let ?e = "skip_while word_char b ?s"
  have nz: "ch b ?s \<noteq> NUL" using assms(1) by (intro tok_of_NUL) simp
  then have s: "?s < length b" by (auto simp: ch_def split: if_splits)
  have tok: "token_at b ?s = (CHR ''a'', ?e)"
    using assms(1) nz by (auto simp: gettoken_eq token_at_def Let_def strchr_def split: if_splits)
  have less: "?s < ?e"
    using token_at_less [OF nz] skip_while_stop [OF s] tok by simp
  have le: "?e \<le> length b" using s by (simp add: skip_while_bounds(2))
  have "word_char (b ! k)" if "?s \<le> k" "k < ?e" for k
    using skip_while_all [OF that] that le by (simp add: ch_def)
  moreover have "\<not> word_char (b ! ?e)" if "?e < length b"
    using skip_while_stop [OF that] that by (simp add: ch_def)
  ultimately show ?thesis
    using less le tok by (simp add: word_at_def gettoken_eq)
qed

lemma exec_args_add: "exec_args c = Some n \<Longrightarrow> exec_args (add_arg t c) = Some (Suc n)"
  by (induction c) auto

lemma narrow_exec_args: "exec_args c = Some n \<Longrightarrow> narrow c \<longleftrightarrow> n < MAXARGS"
  by (induction c) auto

lemma toks_add_arg: "exec_args c \<noteq> None \<Longrightarrow> set (toks (add_arg t c)) = insert t (set (toks c))"
  by (induction c) auto

lemma redir_of_cases:
  "redir_of t c q e a = Panic \<or> redir_of t c q e a = Ok (c, a) \<or>
   (\<exists>mode fd. redir_of t c q e a = Ok (Redir c q e mode fd, a + sizeof_redircmd))"
  by (simp add: redir_of_def redircmd_def alloc_node_def zalloc_def)

lemma parseredirs_good:
  assumes "i \<le> length b" "cmd_ok b cmd"
  shows "good b i (parseredirs b cmd i a) \<and>
    (\<forall>c j a'. parseredirs b cmd i a = Ok (c, j, a') \<longrightarrow> exec_args c = exec_args cmd)"
  using assms
proof (induction b cmd i a rule: parseredirs.induct)
  case (1 b cmd i a)
  obtain found k where p: "peek b i ''<>'' = (found, k)" by fastforce
  have k: "i \<le> k" "k \<le> length b" using peek_progress(1) [OF p] peek_le [OF p 1(2)] by auto
  let ?i1 = "after b k"
  let ?r = "redir_of (tok_of b k) cmd (tok_start b ?i1) (tok_end b ?i1) a"
  have i1: "k \<le> ?i1" "?i1 \<le> after b ?i1" "?i1 \<le> length b" "after b ?i1 \<le> length b"
    using after_ge after_le k(2) by auto
  show ?case
  proof (cases "found \<and> tok_of b ?i1 = CHR ''a''")
    case False
    then show ?thesis using p k 1(3) by (simp add: parseredirs.simps [of b cmd i] Let_def)
  next
    case True
    show ?thesis
    proof (cases ?r)
      case (Ok x)
      then obtain c1 a1 where x: "x = (c1, a1)" by fastforce
      then have c1: "c1 = cmd \<or> (\<exists>mode fd. c1 = Redir cmd (tok_start b ?i1) (tok_end b ?i1) mode fd)"
        using Ok redir_of_cases [of "tok_of b k" cmd "tok_start b ?i1" "tok_end b ?i1" a] by auto
      moreover have "word_at b (tok_start b ?i1, tok_end b ?i1)"
        using True i1(3) by (intro word_token) simp_all
      ultimately have ok: "cmd_ok b c1" "exec_args c1 = exec_args cmd" using 1(3) by (auto simp: cmd_ok_def)
      have eq: "parseredirs b cmd i a = parseredirs b c1 (after b ?i1) a1"
        using p True Ok x by (simp add: parseredirs.simps [of b cmd i] Let_def)
      show ?thesis
        using 1(1) [OF p [symmetric] _ refl _ Ok x [symmetric] i1(4) ok(1)] True ok(2) k(1) i1
        unfolding eq by (auto intro: good_mono)
    next
      case Panic
      then show ?thesis using p True by (simp add: parseredirs.simps [of b cmd i] Let_def)
    next
      case Fuel
      then show ?thesis using redir_of_cases [of "tok_of b k" cmd "tok_start b ?i1" "tok_end b ?i1" a] by simp
    qed
  qed
qed


lemma parse_args_good:
  assumes "i \<le> length b" "cmd_ok b ret" "exec_args ret = Some argc"
  shows "good b i (parse_args b ret argc i a)"
  using assms
proof (induction b ret argc i a rule: parse_args.induct)
  case (1 b ret argc i a)
  obtain stop j where p: "peek b i ''|)&;'' = (stop, j)" by fastforce
  have j: "i \<le> j" "j \<le> length b" using peek_progress(1) [OF p] peek_le [OF p 1(2)] by auto
  have aj: "j \<le> after b j" "after b j \<le> length b" using after_ge after_le j(2) by auto
  let ?c = "add_arg (tok_start b j, tok_end b j) ret"
  show ?case
  proof (cases "\<not> stop \<and> tok_of b j = CHR ''a'' \<and> Suc argc < MAXARGS")
    case False
    then show ?thesis using p j aj 1(3) by (auto simp: parse_args.simps [of b ret argc i])
  next
    case True
    have n: "exec_args ?c = Some (Suc argc)" by (rule exec_args_add [OF 1(4)])
    have "word_at b (tok_start b j, tok_end b j)" using True j(2) by (intro word_token) simp_all
    then have ok: "cmd_ok b ?c"
      using 1(3,4) True toks_add_arg [of ret] narrow_exec_args [OF n] by (simp add: cmd_ok_def)
    note pr = parseredirs_good [OF aj(2) ok, of a]
    from conjunct1 [OF pr] show ?thesis
    proof (cases rule: good_cases)
      case 1
      then show ?thesis using p True by (simp add: parse_args.simps [of b ret argc i])
    next
      case (2 c k a')
      have ea: "exec_args c = Some (Suc argc)" using pr 2(1) n by simp
      have eq: "parse_args b ret argc i a = parse_args b c (Suc argc) k a'"
        using p True 2(1) by (simp add: parse_args.simps [of b ret argc i])
      show ?thesis
        using 1(1) [OF p [symmetric] _ _ _ _ 2(1) refl refl 2(3,4) ea] True 2(2) j(1) aj(1)
        unfolding eq by (auto intro: good_mono)
    qed
  qed
qed

lemma parse_backs_good:
  assumes "i \<le> length b" "cmd_ok b cmd"
  shows "good b i (parse_backs b cmd i a)"
  using assms
proof (induction b cmd i a rule: parse_backs.induct)
  case (1 b cmd i a)
  obtain found j where p: "peek b i ''&'' = (found, j)" by fastforce
  have j: "i \<le> j" "j \<le> length b" using peek_progress(1) [OF p] peek_le [OF p 1(2)] by auto
  have aj: "j \<le> after b j" "after b j \<le> length b" using after_ge after_le j(2) by auto
  show ?case
  proof (cases found)
    case False
    then show ?thesis using p j 1(3) by (simp add: parse_backs.simps [of b cmd i])
  next
    case True
    consider "backcmd cmd a = Panic" | (ok) "backcmd cmd a = Ok (Back cmd, a + sizeof_backcmd)"
      using alloc_node_cases by (auto simp: backcmd_def)
    then show ?thesis
    proof cases
      case ok
      then have eq: "parse_backs b cmd i a = parse_backs b (Back cmd) (after b j) (a + sizeof_backcmd)"
        using p True by (simp add: parse_backs.simps [of b cmd i])
      have "cmd_ok b (Back cmd)" using 1(3) by (simp add: cmd_ok_def)
      then show ?thesis
        using 1(1) [OF p [symmetric] _ ok refl aj(2)] True j(1) aj(1) unfolding eq by (auto intro: good_mono)
    qed (use p True in \<open>simp add: parse_backs.simps [of b cmd i]\<close>)
  qed
qed

lemma cmd_ok_simps [simp]:
  "cmd_ok b (Pipe l r) \<longleftrightarrow> cmd_ok b l \<and> cmd_ok b r" "cmd_ok b (List l r) \<longleftrightarrow> cmd_ok b l \<and> cmd_ok b r"
  "cmd_ok b (Exec [])"
  by (auto simp: cmd_ok_def MAXARGS_def)

text \<open>A step of the parser in sequence.\<close>

lemma good_pbind:
  assumes "good b i r"
    and "\<And>c j a. r = Ok (c, j, a) \<Longrightarrow> i \<le> j \<Longrightarrow> j \<le> length b \<Longrightarrow> cmd_ok b c \<Longrightarrow> good b i (f (c, j, a))"
  shows "good b i (pbind r f)"
  using assms(1) by (cases rule: good_cases) (use assms(2) in auto)

lemma good_alloc: "cmd_ok b c \<Longrightarrow> i \<le> j \<Longrightarrow> j \<le> length b \<Longrightarrow>
    good b i (pbind (alloc_node a sz c) (\<lambda>(c, a). Ok (c, j, a)))"
  using alloc_node_cases [of a sz c] by auto

lemma later_phrase:
  assumes "peek b j t = (True, k)" "i \<le> j" "j \<le> length b"
    and "\<And>j a. i < j \<Longrightarrow> j \<le> length b \<Longrightarrow> good b j (self nt b j a)"
  shows "good b i (self nt b (after b k) a)"
proof -
  have "i < after b k" "after b k \<le> length b"
    using after_peek [OF assms(1)] after_le [OF peek_le [OF assms(1,3)]] assms(2) by auto
  then show ?thesis using assms(4) good_mono less_imp_le by meson
qed

lemma parseline_good:
  assumes "good b i (self Parsepipe b i a)"
    and "\<And>j a. i < j \<Longrightarrow> j \<le> length b \<Longrightarrow> good b j (self Parseline b j a)"
  shows "good b i (parseline self b i a)"
  using assms(1) unfolding parseline_def
proof (rule good_pbind, goal_cases)
  case (1 c j a)
  have "good b i (parse_backs b c j a)" using parse_backs_good [of j b c a] 1 good_mono by blast
  then show ?case
  proof (simp, rule good_pbind, goal_cases)
    case (1 c j a)
    obtain found k where p: "peek b j '';'' = (found, k)" by fastforce
    have k: "j \<le> k" "k \<le> length b" using peek_progress(1) [OF p] peek_le [OF p] 1 by auto
    have "found \<Longrightarrow> good b i (self Parseline b (after b k) a)"
      using p 1 assms(2) later_phrase [of b j "'';''" k i self Parseline a] by auto
    then show ?case
      using p k 1 by (auto simp: listcmd_def intro!: good_pbind [where f = "case_prod _"] good_alloc)
  qed
qed

lemma parsepipe_good:
  assumes "good b i (self Parseexec b i a)"
    and "\<And>j a. i < j \<Longrightarrow> j \<le> length b \<Longrightarrow> good b j (self Parsepipe b j a)"
  shows "good b i (parsepipe self b i a)"
  using assms(1) unfolding parsepipe_def
proof (rule good_pbind, goal_cases)
  case (1 c j a)
  obtain found k where p: "peek b j ''|'' = (found, k)" by fastforce
  have k: "j \<le> k" "k \<le> length b" using peek_progress(1) [OF p] peek_le [OF p] 1 by auto
  have "found \<Longrightarrow> good b i (self Parsepipe b (after b k) a)"
    using p 1 assms(2) later_phrase [of b j "''|''" k i self Parsepipe a] by auto
  then show ?case
    using p k 1 by (auto simp: pipecmd_def intro!: good_pbind [where f = "case_prod _"] good_alloc)
qed

lemma parseexec_good:
  assumes "i \<le> length b" and "\<And>k a. i \<le> k \<Longrightarrow> k \<le> length b \<Longrightarrow> good b k (self Parseblock b k a)"
  shows "good b i (parseexec self b i a)"
proof -
  obtain found k where p: "peek b i ''('' = (found, k)" by fastforce
  have k: "i \<le> k" "k \<le> length b" using peek_progress(1) [OF p] peek_le [OF p] assms(1) by auto
  have blk: "good b i (self Parseblock b k a)" using assms(2) k good_mono by blast
  have ex: "good b i (pbind (parseredirs b (Exec []) k a') (\<lambda>(ret, i, a). parse_args b ret 0 i a))" for a'
  proof (rule good_pbind, goal_cases)
    case 1
    show ?case using parseredirs_good [OF k(2), of "Exec []" a'] k(1) good_mono by auto
  next
    case (2 c j a)
    have "exec_args c = Some 0" using parseredirs_good [OF k(2), of "Exec []" a'] 2(1) by simp
    then show ?case using parse_args_good [of j b c 0 a] 2 good_mono by auto
  qed
  show ?thesis
    using p blk ex alloc_node_cases [of a sizeof_execcmd "Exec []"] by (auto simp: parseexec_def execcmd_def)
qed

lemma parseblock_good:
  assumes "i \<le> length b" and "\<And>j a. i < j \<Longrightarrow> j \<le> length b \<Longrightarrow> good b j (self Parseline b j a)"
  shows "good b i (parseblock self b i a)"
proof -
  obtain found k where p: "peek b i ''('' = (found, k)" by fastforce
  have inner: "good b i (pbind (self Parseline b (after b k) a) (\<lambda>(cmd, i, a).
      case peek b i '')'' of (found, j) \<Rightarrow> if \<not> found then Panic else parseredirs b cmd (after b j) a))"
    if found
  proof (rule good_pbind, goal_cases)
    case 1
    show ?case using later_phrase [of b i "''(''" k i self Parseline a] p that assms by simp
  next
    case (2 c j a)
    obtain found' m where q: "peek b j '')'' = (found', m)" by fastforce
    have "i \<le> after b m" "after b m \<le> length b"
      using peek_progress(1) [OF q] peek_le [OF q] after_ge [of m b] after_le [of m b] 2 by auto
    then show ?case using q parseredirs_good [of "after b m" b c a] 2(4) good_mono by auto
  qed
  show ?thesis using p inner by (auto simp: parseblock_def)
qed

text \<open>Enough fuel for each phrase, \<open>k\<close> characters before the end.\<close>

fun need :: "phrase \<Rightarrow> nat \<Rightarrow> nat" where
  "need Parseline k = 4 * k + 4"
| "need Parsepipe k = 4 * k + 3"
| "need Parseexec k = 4 * k + 2"
| "need Parseblock k = 4 * k + 1"

lemma parse_good: "i \<le> length b \<Longrightarrow> need nt (length b - i) \<le> n \<Longrightarrow> good b i (parse n nt b i a)"
proof (induction n arbitrary: nt i a)
  case 0
  then show ?case by (cases nt) auto
next
  case (Suc n)
  have later: "good b j (parse n nt' b j a)" if "i < j" "j \<le> length b" "nt' = Parseline \<or> nt = nt'" for j nt' a
    using that Suc.prems Suc.IH [of j nt' a] by (cases nt; cases nt') auto
  show ?case
    using Suc.prems Suc.IH later
    by (cases nt) (auto intro!: parseline_good parsepipe_good parseexec_good parseblock_good)
qed


section \<open>The strings after \<open>nulterminate\<close>\<close>

definition c_str :: "string \<Rightarrow> nat \<Rightarrow> string" where
  "c_str buf q = takeWhile (\<lambda>c. c \<noteq> NUL) (drop q buf)"

definition sub :: "string \<Rightarrow> nat \<times> nat \<Rightarrow> string" where
  "sub b t = take (snd t - fst t) (drop (fst t) b)"

lemma nulterminate_nth:
  "length (nulterminate c buf) = length buf \<and>
   (\<forall>k < length buf. nulterminate c buf ! k = (if k \<in> snd ` set (toks c) then NUL else buf ! k))"
proof (induction c arbitrary: buf)
  case (Exec ts)
  show ?case
    by (induction ts arbitrary: buf) (auto simp: nth_list_update)
next
  case (Redir c f e mode fd)
  have "length (nulterminate c buf) = length buf"
    "\<And>k. k < length buf \<Longrightarrow> nulterminate c buf ! k = (if k \<in> snd ` set (toks c) then NUL else buf ! k)"
    using Redir.IH [of buf] by auto
  then show ?case by (cases "e < length buf") (simp_all add: nth_list_update)
qed auto

lemma nulterminate_str:
  assumes "cmd_ok b c" "NUL \<notin> set b" "t \<in> set (toks c)"
  shows "c_str (nulterminate c (b @ [NUL])) (fst t) = sub b t"
proof -
  let ?buf = "nulterminate c (b @ [NUL])" and ?q = "fst t" and ?e = "snd t"
  have w: "word_at b x" if "x \<in> set (toks c)" for x using assms(1) that by (simp add: cmd_ok_def)
  have t: "?q < ?e" "?e \<le> length b" "\<And>k. ?q \<le> k \<Longrightarrow> k < ?e \<Longrightarrow> word_char (b ! k)"
    using w [OF assms(3)] by (auto simp: word_at_def)
  note nth = nulterminate_nth [of c "b @ [NUL]"]
  have kept: "?buf ! k = b ! k" if "?q \<le> k" "k < ?e" for k
  proof -
    have "k \<noteq> snd x" if "x \<in> set (toks c)" for x
      using w [OF that] t \<open>?q \<le> k\<close> \<open>k < ?e\<close> by (auto simp: word_at_def)
    then show ?thesis using nth that t(2) by (auto simp: nth_append)
  qed
  have "take (?e - ?q) (drop ?q ?buf) = sub b t"
    using t(1,2) nth kept by (intro nth_equalityI) (auto simp: sub_def)
  moreover have "drop (?e - ?q) (drop ?q ?buf) = NUL # drop (Suc ?e) ?buf"
  proof -
    have "?buf ! ?e = NUL" using nth t(2) assms(3) by auto
    then show ?thesis using Cons_nth_drop_Suc [of ?e ?buf] t nth by simp
  qed
  ultimately have "drop ?q ?buf = sub b t @ NUL # drop (Suc ?e) ?buf"
    by (metis append_take_drop_id)
  moreover have "NUL \<notin> set (sub b t)" using assms(2) by (auto simp: sub_def dest: in_set_takeD in_set_dropD)
  ultimately show ?thesis by (auto simp: c_str_def takeWhile_append)
qed

text \<open>The tree with its strings.\<close>

datatype scmd =
    SExec "string list"
  | SRedir scmd string int int
  | SPipe scmd scmd
  | SList scmd scmd
  | SBack scmd

fun text_of :: "(nat \<times> nat \<Rightarrow> string) \<Rightarrow> cmd \<Rightarrow> scmd" where
  "text_of f (Exec ts) = SExec (map f ts)"
| "text_of f (Redir c q e mode fd) = SRedir (text_of f c) (f (q, e)) mode fd"
| "text_of f (Pipe l r) = SPipe (text_of f l) (text_of f r)"
| "text_of f (List l r) = SList (text_of f l) (text_of f r)"
| "text_of f (Back c) = SBack (text_of f c)"

lemma text_of_cong: "(\<And>t. t \<in> set (toks c) \<Longrightarrow> f t = g t) \<Longrightarrow> text_of f c = text_of g c"
  by (induction c) auto

lemma nulterminate_text:
  assumes "cmd_ok b c" "NUL \<notin> set b"
  shows "text_of (\<lambda>t. c_str (nulterminate c (b @ [NUL])) (fst t)) c = text_of (sub b) c"
  using nulterminate_str [OF assms] by (rule text_of_cong)


end
