(* ===== verification/ShellParse.thy ===== *)
theory ShellParse
  imports Shell
begin

text \<open>
  What the parser of the shell computes.  A printer \<open>show_cmd\<close> writes any command tree in the
  syntax of the shell, with parentheses where the grammar needs them; reading the text back
  gives the tree, phrase by phrase of the grammar.
\<close>

section \<open>Printing commands\<close>

text \<open>Which phrase of the grammar a tree is without parentheses.\<close>

fun level :: "scmd \<Rightarrow> nat" where
  "level (SList l r) = 0"
| "level (SBack c) = 1"
| "level (SPipe l r) = 2"
| "level c = 3"

definition wrap :: "nat \<Rightarrow> scmd \<Rightarrow> string \<Rightarrow> string" where
  "wrap k c s = (if level c < k then ''('' @ s @ '')'' else s)"

definition show_redir :: "string \<Rightarrow> int \<Rightarrow> string" where
  "show_redir f mode =
     (if mode = O_RDONLY then ''<'' else if mode = O_WRONLY_CREAT_TRUNC then ''>'' else ''>>'') @ '' '' @ f"

primrec show_cmd :: "scmd \<Rightarrow> string" where
  "show_cmd (SExec ws) = concat (map (\<lambda>w. '' '' @ w) ws)"
| "show_cmd (SRedir c f mode fd) = wrap 3 c (show_cmd c) @ show_redir f mode"
| "show_cmd (SPipe l r) = wrap 3 l (show_cmd l) @ ''|'' @ wrap 2 r (show_cmd r)"
| "show_cmd (SList l r) = wrap 1 l (show_cmd l) @ '';'' @ show_cmd r"
| "show_cmd (SBack c) = wrap 1 c (show_cmd c) @ ''&''"

definition is_word :: "string \<Rightarrow> bool" where
  "is_word w \<longleftrightarrow> w \<noteq> [] \<and> list_all (\<lambda>c. word_char c \<and> c \<noteq> NUL) w"

text \<open>The trees the grammar can express, and the bytes their nodes take.\<close>

fun scmd_ok :: "scmd \<Rightarrow> bool" where
  "scmd_ok (SExec ws) = (list_all is_word ws \<and> length ws < MAXARGS)"
| "scmd_ok (SRedir c f mode fd) =
     (scmd_ok c \<and> is_word f \<and>
      (mode = O_RDONLY \<and> fd = 0 \<or> mode = O_WRONLY_CREAT_TRUNC \<and> fd = 1 \<or> mode = O_WRONLY_CREAT \<and> fd = 1))"
| "scmd_ok (SPipe l r) = (scmd_ok l \<and> scmd_ok r)"
| "scmd_ok (SList l r) = (scmd_ok l \<and> scmd_ok r)"
| "scmd_ok (SBack c) = scmd_ok c"

fun cost :: "scmd \<Rightarrow> nat" where
  "cost (SExec ws) = sizeof_execcmd"
| "cost (SRedir c f mode fd) = cost c + sizeof_redircmd"
| "cost (SPipe l r) = cost l + cost r + sizeof_pipecmd"
| "cost (SList l r) = cost l + cost r + sizeof_listcmd"
| "cost (SBack c) = cost c + sizeof_backcmd"

section \<open>Reading what was printed\<close>

abbreviation is_ws :: "char \<Rightarrow> bool" where "is_ws \<equiv> strchr whitespace"

definition trim :: "string \<Rightarrow> string" where
  "trim r = dropWhile is_ws r"

text \<open>The text the parser sees at a position: white space is skipped before every token.\<close>

definition rd :: "string \<Rightarrow> nat \<Rightarrow> string" where
  "rd b i = trim (drop i b)"

lemma rd_skip: "i \<le> length b \<Longrightarrow> drop (skip_ws b i) b = rd b i"
  by (simp add: skip_while_drop rd_def trim_def dropWhile_eq_drop add.commute)

lemma rd_skip_ws: "i \<le> length b \<Longrightarrow> rd b (skip_ws b i) = rd b i"
  by (simp add: rd_def [of b "skip_ws b i"] rd_skip) (simp add: rd_def trim_def)

lemma ch_drop: "ch b i = (case drop i b of [] \<Rightarrow> NUL | c # _ \<Rightarrow> c)"
  by (cases "i < length b") (auto simp: ch_def Cons_nth_drop_Suc [symmetric])

lemma peek_rd:
  assumes "i \<le> length b"
  shows "peek b i t = ((case rd b i of [] \<Rightarrow> False | c # _ \<Rightarrow> c \<noteq> NUL \<and> c \<in> set t), skip_ws b i)"
  using rd_skip [OF assms] by (auto simp: peek_def Let_def ch_drop strchr_def split: list.split)

lemma peek_rd_pos: "i \<le> length b \<Longrightarrow> skip_ws b i \<le> length b \<and> rd b (skip_ws b i) = rd b i"
  by (simp add: skip_while_bounds(2) rd_skip_ws)

lemma rd_after: "s \<le> length b \<Longrightarrow> rd b (skip_ws b s) = trim (drop s b)"
  by (simp add: rd_skip_ws rd_def [of b s])

lemma symbol_token:
  assumes "i \<le> length b" "rd b i = c # r" "c \<in> set ''|();&<''"
  shows "tok_of b i = c" "rd b (after b i) = trim r" "after b i \<le> length b"
proof -
  have d: "drop (skip_ws b i) b = c # r" using rd_skip [OF assms(1)] assms(2) by simp
  then have "ch b (skip_ws b i) = c" "drop (Suc (skip_ws b i)) b = r" "skip_ws b i < length b"
    using drop_eq_Cons [OF d] by (auto simp: ch_def)
  then show "tok_of b i = c" "rd b (after b i) = trim r" "after b i \<le> length b"
    using assms(3) by (auto simp: gettoken_eq token_at_def Let_def strchr_def rd_after skip_while_bounds(2))
qed

lemma greater_token:
  assumes "i \<le> length b" "rd b i = CHR ''>'' # r"
  shows "r = [] \<or> hd r \<noteq> CHR ''>'' \<Longrightarrow> tok_of b i = CHR ''>''"
    and "r = [] \<or> hd r \<noteq> CHR ''>'' \<Longrightarrow> rd b (after b i) = trim r"
    and "r = CHR ''>'' # r' \<Longrightarrow> tok_of b i = CHR ''+''"
    and "r = CHR ''>'' # r' \<Longrightarrow> rd b (after b i) = trim r'"
    and "after b i \<le> length b"
proof -
  let ?s = "skip_ws b i"
  have d: "drop ?s b = CHR ''>'' # r" using rd_skip [OF assms(1)] assms(2) by simp
  then have c: "ch b ?s = CHR ''>''" and r: "drop (Suc ?s) b = r" and s: "?s < length b"
    using drop_eq_Cons [OF d] by (auto simp: ch_def)
  have c1: "ch b (Suc ?s) = (case r of [] \<Rightarrow> NUL | x # _ \<Rightarrow> x)" using r by (simp add: ch_drop)
  have r2: "r = x # r' \<Longrightarrow> drop (Suc (Suc ?s)) b = r' \<and> Suc ?s < length b" for x r'
    using r drop_eq_Cons [of "Suc ?s" b x r'] by auto
  note simps = gettoken_eq token_at_def Let_def strchr_def c c1 rd_after
  show "r = [] \<or> hd r \<noteq> CHR ''>'' \<Longrightarrow> tok_of b i = CHR ''>''"
    and "r = CHR ''>'' # r' \<Longrightarrow> tok_of b i = CHR ''+''"
    by (auto simp: simps split: list.splits)
  show "r = [] \<or> hd r \<noteq> CHR ''>'' \<Longrightarrow> rd b (after b i) = trim r"
    using s r by (auto simp: simps split: list.splits)
  show "r = CHR ''>'' # r' \<Longrightarrow> rd b (after b i) = trim r'"
    using s r2 by (simp add: simps)
  show "after b i \<le> length b" by (rule after_le [OF assms(1)])
qed

lemma end_token:
  assumes "i \<le> length b" "rd b i = []"
  shows "tok_of b i = NUL" "rd b (after b i) = []" "after b i \<le> length b"
proof -
  have "drop (skip_ws b i) b = []" using rd_skip [OF assms(1)] assms(2) by simp
  then show "tok_of b i = NUL" "rd b (after b i) = []" "after b i \<le> length b"
    using after_le [OF assms(1)] assms
    by (simp_all add: gettoken_eq token_at_def ch_drop rd_skip_ws skip_while_bounds(2))
qed

lemma word_token_rd:
  assumes "i \<le> length b" "rd b i = w @ r" "is_word w" "r = [] \<or> \<not> word_char (hd r)"
  shows "tok_of b i = CHR ''a''" "sub b (tok_start b i, tok_end b i) = w" "rd b (after b i) = trim r"
    "after b i \<le> length b"
proof -
  let ?s = "skip_ws b i"
  have d: "drop ?s b = w @ r" using rd_skip [OF assms(1)] assms(2) by simp
  obtain c w' where w: "w = c # w'" "word_char c" "c \<noteq> NUL"
    using assms(3) by (cases w) (auto simp: is_word_def)
  have tw: "takeWhile word_char (w @ r) = w"
    using assms(3,4) by (cases r) (auto simp: is_word_def list_all_iff takeWhile_append2 takeWhile_tail)
  have le: "?s \<le> length b" using assms(1) by (rule skip_while_bounds(2))
  have e: "skip_while word_char b ?s = ?s + length w" by (simp add: skip_while_drop [OF le] d tw)
  have tok: "token_at b ?s = (CHR ''a'', ?s + length w)"
    using d w e by (auto simp: token_at_def Let_def ch_drop word_char_def strchr_def symbols_def)
  then show "tok_of b i = CHR ''a''" "sub b (tok_start b i, tok_end b i) = w"
    using d by (simp_all add: gettoken_eq sub_def)
  show le': "after b i \<le> length b" by (rule after_le [OF assms(1)])
  have "length (drop ?s b) = length w + length r" by (simp add: d)
  then have "?s + length w \<le> length b" using w(1) by simp
  moreover have "drop (?s + length w) b = drop (length w) (drop ?s b)" by (simp add: add.commute)
  ultimately show "rd b (after b i) = trim r"
    using tok d by (simp add: gettoken_eq rd_after)
qed

text \<open>Redirections that follow a command, and what may follow a phrase.\<close>

type_synonym redir = "string \<times> int \<times> int"

definition sredirs :: "redir list \<Rightarrow> scmd \<Rightarrow> scmd" where
  "sredirs rs c = foldl (\<lambda>c (f, mode, fd). SRedir c f mode fd) c rs"

definition show_redirs :: "redir list \<Rightarrow> string" where
  "show_redirs rs = concat (map (\<lambda>(f, mode, fd). show_redir f mode) rs)"

definition redir_ok :: "redir \<Rightarrow> bool" where
  "redir_ok r = (case r of (f, mode, fd) \<Rightarrow> is_word f \<and>
     (mode = O_RDONLY \<and> fd = 0 \<or> mode = O_WRONLY_CREAT_TRUNC \<and> fd = 1 \<or> mode = O_WRONLY_CREAT \<and> fd = 1))"

definition stops :: "string \<Rightarrow> string \<Rightarrow> bool" where
  "stops t rest = (case trim rest of [] \<Rightarrow> True | c # _ \<Rightarrow> c \<in> set t)"

definition bounded :: "string \<Rightarrow> bool" where
  "bounded rest \<longleftrightarrow> rest = [] \<or> \<not> word_char (hd rest)"

lemma sredirs_simps [simp]:
  "sredirs [] c = c" "sredirs ((f, mode, fd) # rs) c = sredirs rs (SRedir c f mode fd)"
  by (simp_all add: sredirs_def)

lemma show_redirs_simps [simp]:
  "show_redirs [] = []" "show_redirs ((f, mode, fd) # rs) = show_redir f mode @ show_redirs rs"
  by (simp_all add: show_redirs_def)

lemma ws_chars: "is_ws CHR '' ''" "\<not> word_char CHR '' ''" "word_char c \<Longrightarrow> \<not> is_ws c"
  "c \<in> set ''<|>&;()'' \<Longrightarrow> \<not> is_ws c \<and> \<not> word_char c \<and> c \<noteq> NUL"
  by (auto simp: strchr_def whitespace_def word_char_def symbols_def)

lemma stops_bounded: "stops t rest \<Longrightarrow> set t \<subseteq> set ''|)&;'' \<Longrightarrow> bounded rest"
  by (cases rest) (auto simp: stops_def trim_def bounded_def word_char_def strchr_def symbols_def split: if_splits)

lemma show_redir_first: "\<exists>c r. show_redir f mode = c # r \<and> c \<in> set ''<>''"
  by (simp add: show_redir_def)

lemma bounded_redirs: "bounded rest \<Longrightarrow> bounded (show_redirs rs @ rest)"
proof (cases rs)
  case (Cons r rs')
  obtain f mode fd where r: "r = (f, mode, fd)" by (cases r)
  obtain c x where x: "show_redir f mode = c # x" "c \<in> set ''<>''" using show_redir_first by blast
  then have "\<not> word_char c" by (auto simp: word_char_def strchr_def symbols_def)
  then show ?thesis using Cons r x(1) by (simp add: bounded_def)
qed simp

lemma word_first: "is_word w \<Longrightarrow> \<exists>c r. w = c # r \<and> word_char c \<and> c \<noteq> NUL \<and> \<not> is_ws c \<and> c \<notin> set ''<|>&;()''"
  by (cases w) (auto simp: is_word_def word_char_def strchr_def symbols_def)

lemma trim_word: "is_word w \<Longrightarrow> trim (w @ r) = w @ r" "is_word w \<Longrightarrow> trim (CHR '' '' # w @ r) = w @ r"
  using word_first [of w] ws_chars(1) by (auto simp: trim_def)

text \<open>One redirection: the symbol, a space and the file name.\<close>

lemma redir_step:
  assumes "i \<le> length b" "rd b i = show_redir f mode @ R" "redir_ok (f, mode, fd)" "bounded R"
    and "a + sizeof_redircmd < ARENA"
  shows "\<exists>k q e. k \<le> length b \<and> sub b (q, e) = f \<and> rd b k = trim R \<and>
    parseredirs b c i a = parseredirs b (Redir c q e mode fd) k (a + sizeof_redircmd)"
proof -
  let ?s = "skip_ws b i"
  have f: "is_word f" using assms(3) by (simp add: redir_ok_def)
  have s: "?s \<le> length b" "rd b ?s = show_redir f mode @ R" using peek_rd_pos [OF assms(1)] assms(2) by auto
  have pk: "peek b i ''<>'' = (True, ?s)" using assms(1,2) by (simp add: peek_rd show_redir_def)
  let ?t = "if mode = O_RDONLY then CHR ''<'' else if mode = O_WRONLY_CREAT_TRUNC then CHR ''>'' else CHR ''+''"
  let ?i1 = "after b ?s"
  have sym: "tok_of b ?s = ?t" "rd b ?i1 = f @ R" "?i1 \<le> length b"
    using s symbol_token [OF s(1), of "CHR ''<''" "CHR '' '' # f @ R"]
      greater_token(1,2) [OF s(1), of "CHR '' '' # f @ R"]
      greater_token(3,4) [OF s(1) _ refl, of "CHR '' '' # f @ R"] after_le [OF s(1)] trim_word(2) [OF f]
    by (auto simp: show_redir_def split: if_splits)
  note w = word_token_rd [OF sym(3,2) f assms(4) [unfolded bounded_def]]
  have "redir_of ?t c q e a = Ok (Redir c q e mode fd, a + sizeof_redircmd)" for q e
    using assms(3,5)
    by (auto simp: redir_of_def redir_ok_def redircmd_def alloc_node_def zalloc_def
        O_RDONLY_def O_WRONLY_CREAT_def O_WRONLY_CREAT_TRUNC_def)
  then have "parseredirs b c i a =
      parseredirs b (Redir c (tok_start b ?i1) (tok_end b ?i1) mode fd) (after b ?i1) (a + sizeof_redircmd)"
    using pk w(1) sym(1) by (subst parseredirs.simps) (simp add: Let_def)
  then show ?thesis using w by blast
qed

lemma redirs_stop:
  assumes "i \<le> length b" "rd b i = trim rest" "\<not> (\<exists>c r. trim rest = c # r \<and> c \<in> set ''<>'')"
  shows "\<exists>j. parseredirs b c i a = Ok (c, j, a) \<and> j \<le> length b \<and> rd b j = trim rest"
  using assms peek_rd_pos [OF assms(1)]
  by (subst parseredirs.simps) (auto simp: peek_rd split: list.split)

lemma redirs_parse:
  assumes "i \<le> length b" "rd b i = trim (show_redirs rs @ rest)" "list_all redir_ok rs" "bounded rest"
    and "\<not> (\<exists>c r. trim rest = c # r \<and> c \<in> set ''<>'')" "a + length rs * sizeof_redircmd < ARENA"
  shows "\<exists>c' j. parseredirs b c i a = Ok (c', j, a + length rs * sizeof_redircmd) \<and>
    text_of (sub b) c' = sredirs rs (text_of (sub b) c) \<and> j \<le> length b \<and> rd b j = trim rest"
  using assms
proof (induction rs arbitrary: i a c)
  case Nil
  then show ?case using redirs_stop [of i b rest c a] by auto
next
  case (Cons r rs)
  obtain f mode fd where r: "r = (f, mode, fd)" by (cases r)
  have "trim (show_redir f mode @ x) = show_redir f mode @ x" for x
    using ws_chars(4) by (auto simp: show_redir_def trim_def)
  then obtain k q e where k: "k \<le> length b" "sub b (q, e) = f" "rd b k = trim (show_redirs rs @ rest)"
      "parseredirs b c i a = parseredirs b (Redir c q e mode fd) k (a + sizeof_redircmd)"
    using redir_step [OF Cons.prems(1), of f mode "show_redirs rs @ rest" fd a c] Cons.prems bounded_redirs r by auto
  obtain c' j where "parseredirs b (Redir c q e mode fd) k (a + sizeof_redircmd) =
        Ok (c', j, a + sizeof_redircmd + length rs * sizeof_redircmd)"
      "text_of (sub b) c' = sredirs rs (text_of (sub b) (Redir c q e mode fd))" "j \<le> length b" "rd b j = trim rest"
    using Cons.IH [OF k(1,3), of "a + sizeof_redircmd" "Redir c q e mode fd"] Cons.prems by auto
  then show ?case using k(2,4) r by (simp add: add.assoc)
qed

lemma args_stop:
  assumes "i \<le> length b" "rd b i = trim rest" "stops ''|)&;'' rest"
  shows "\<exists>j. parse_args b c argc i a = Ok (c, j, a) \<and> j \<le> length b \<and> rd b j = trim rest"
proof (cases "trim rest")
  case Nil
  let ?s = "skip_ws b i"
  have "?s \<le> length b" "rd b ?s = []" using peek_rd_pos [OF assms(1)] assms(2) Nil by auto
  then show ?thesis
    using end_token [of ?s b] assms(1,2) Nil by (subst parse_args.simps) (simp add: peek_rd)
next
  case (Cons x r)
  then have "x \<in> set ''|)&;''" using assms(3) by (simp add: stops_def)
  moreover from this have "x \<noteq> NUL" by auto
  ultimately show ?thesis
    using peek_rd_pos [OF assms(1)] assms(1,2) Cons by (subst parse_args.simps) (simp add: peek_rd)
qed

definition show_words :: "string list \<Rightarrow> string" where
  "show_words ws = concat (map (\<lambda>w. '' '' @ w) ws)"

lemma args_parse:
  assumes "i \<le> length b" "rd b i = trim (show_words ws @ show_redirs rs @ rest)" "stops ''|)&;'' rest"
    and "list_all is_word ws" "list_all redir_ok rs" "ws \<noteq> []" "length ts + length ws < MAXARGS"
    and "a + length rs * sizeof_redircmd < ARENA"
  shows "\<exists>c' j. parse_args b (Exec ts) (length ts) i a = Ok (c', j, a + length rs * sizeof_redircmd) \<and>
    text_of (sub b) c' = sredirs rs (SExec (map (sub b) ts @ ws)) \<and> j \<le> length b \<and> rd b j = trim rest"
  using assms
proof (induction ws arbitrary: i ts)
  case Nil
  then show ?case by simp
next
  case (Cons w ws)
  let ?R = "show_words ws @ show_redirs rs @ rest" and ?s = "skip_ws b i"
  have w: "is_word w" and "bounded rest" using Cons.prems(3,4) stops_bounded by auto
  then have bd: "bounded ?R"
    using bounded_redirs [of rest rs] ws_chars(2) by (cases ws) (auto simp: show_words_def bounded_def)
  have "rd b i = w @ ?R" using Cons.prems(2) trim_word(2) [OF w] by (simp add: show_words_def)
  moreover from this have s: "?s \<le> length b" "rd b ?s = w @ ?R" using peek_rd_pos [OF Cons.prems(1)] by auto
  moreover have "\<not> fst (peek b i ''|)&;'')"
    using Cons.prems(1) calculation(1) word_first [OF w] by (auto simp: peek_rd)
  ultimately have pk: "peek b i ''|)&;'' = (False, ?s)" using Cons.prems(1) by (simp add: peek_rd)
  note tok = word_token_rd [OF s w bd [unfolded bounded_def]]
  let ?t = "(tok_start b ?s, tok_end b ?s)" and ?k = "after b ?s"
  have step: "parse_args b (Exec ts) (length ts) i a =
      (case parseredirs b (Exec (ts @ [?t])) ?k a of
         Ok (ret, i', a) \<Rightarrow> parse_args b ret (Suc (length ts)) i' a | Panic \<Rightarrow> Panic | Fuel \<Rightarrow> Fuel)"
    using pk tok(1) Cons.prems(7) by (subst parse_args.simps) simp
  show ?case
  proof (cases "ws = []")
    case True
    have ns: "\<not> (\<exists>c r. trim rest = c # r \<and> c \<in> set ''<>'')"
      using Cons.prems(3) by (auto simp: stops_def split: list.splits)
    obtain c' j where c': "parseredirs b (Exec (ts @ [?t])) ?k a = Ok (c', j, a + length rs * sizeof_redircmd)"
        "text_of (sub b) c' = sredirs rs (SExec (map (sub b) ts @ [w]))" "j \<le> length b" "rd b j = trim rest"
      using redirs_parse [OF tok(4), of rs rest a "Exec (ts @ [?t])"] tok(2,3) True Cons.prems(5,8) ns \<open>bounded rest\<close>
      by (auto simp: show_words_def)
    then show ?thesis
      using args_stop [OF c'(3,4) Cons.prems(3), of c' "Suc (length ts)" "a + length rs * sizeof_redircmd"] step True
      by auto
  next
    case False
    then obtain x xs where x: "ws = x # xs" by (cases ws) auto
    then have "is_word x" using Cons.prems(4) by simp
    then have "trim ?R = x @ show_words xs @ show_redirs rs @ rest"
      using trim_word(2) x by (simp add: show_words_def)
    then have "\<not> (\<exists>c r. trim ?R = c # r \<and> c \<in> set ''<>'')"
      using word_first [OF \<open>is_word x\<close>] by auto
    then obtain j where j: "parseredirs b (Exec (ts @ [?t])) ?k a = Ok (Exec (ts @ [?t]), j, a)" "j \<le> length b"
        "rd b j = trim ?R"
      using redirs_stop [OF tok(4,3)] by blast
    then show ?thesis
      using Cons.IH [OF j(2,3) Cons.prems(3) _ Cons.prems(5) False, of "ts @ [?t]"] Cons.prems(4,7,8) step tok(2) by simp
  qed
qed

text \<open>
  A phrase read: the result has the tree \<open>s\<close>, took \<open>m\<close> bytes, and leaves the rest of the line.
\<close>

definition parsed ::
  "string \<Rightarrow> nat \<Rightarrow> nat \<Rightarrow> (cmd \<times> nat \<times> nat) presult \<Rightarrow> scmd \<Rightarrow> nat \<Rightarrow> string \<Rightarrow> bool" where
  "parsed b i a r s m rest \<longleftrightarrow>
     (\<exists>c j. r = Ok (c, j, a + m) \<and> text_of (sub b) c = s \<and> j \<le> length b \<and> rd b j = trim rest)"

lemma parsedE:
  assumes "parsed b i a r s m rest"
  obtains c j where "r = Ok (c, j, a + m)" "text_of (sub b) c = s" "j \<le> length b" "rd b j = trim rest"
  using assms by (auto simp: parsed_def)

definition reads_exec :: "string \<Rightarrow> scmd \<Rightarrow> bool" where
  "reads_exec b c \<longleftrightarrow>
     (\<forall>i a n rs rest. i \<le> length b \<longrightarrow> need Parseexec (length b - i) \<le> n \<longrightarrow>
        rd b i = trim (wrap 3 c (show_cmd c) @ show_redirs rs @ rest) \<longrightarrow> list_all redir_ok rs \<longrightarrow>
        stops ''|)&;'' rest \<longrightarrow> a + cost c + length rs * sizeof_redircmd < ARENA \<longrightarrow>
        parsed b i a (parse n Parseexec b i a) (sredirs rs c) (cost c + length rs * sizeof_redircmd) rest)"

definition reads_pipe :: "string \<Rightarrow> scmd \<Rightarrow> bool" where
  "reads_pipe b c \<longleftrightarrow>
     (\<forall>i a n rest. i \<le> length b \<longrightarrow> need Parsepipe (length b - i) \<le> n \<longrightarrow>
        rd b i = trim (wrap 2 c (show_cmd c) @ rest) \<longrightarrow> stops '')&;'' rest \<longrightarrow> a + cost c < ARENA \<longrightarrow>
        parsed b i a (parse n Parsepipe b i a) c (cost c) rest)"

definition reads_back :: "string \<Rightarrow> scmd \<Rightarrow> bool" where
  "reads_back b c \<longleftrightarrow>
     (\<forall>i a n k rest. i \<le> length b \<longrightarrow> need Parsepipe (length b - i) \<le> n \<longrightarrow>
        rd b i = trim (wrap 1 c (show_cmd c) @ replicate k CHR ''&'' @ rest) \<longrightarrow> stops '');'' rest \<longrightarrow>
        a + cost c + k * sizeof_backcmd < ARENA \<longrightarrow>
        parsed b i a (pbind (parse n Parsepipe b i a) (\<lambda>(cmd, i, a). parse_backs b cmd i a))
          ((SBack ^^ k) c) (cost c + k * sizeof_backcmd) rest)"

definition reads_line :: "string \<Rightarrow> scmd \<Rightarrow> bool" where
  "reads_line b c \<longleftrightarrow>
     (\<forall>i a n rest. i \<le> length b \<longrightarrow> need Parseline (length b - i) \<le> n \<longrightarrow>
        rd b i = trim (show_cmd c @ rest) \<longrightarrow> stops '')'' rest \<longrightarrow> a + cost c < ARENA \<longrightarrow>
        parsed b i a (parse n Parseline b i a) c (cost c) rest)"

lemma need_Suc:
  assumes "need nt k \<le> n"
  obtains m where "n = Suc m"
  using assms by (cases n) (cases nt; simp)+

lemma stops_peek:
  assumes "i \<le> length b" "rd b i = trim rest" "stops t rest" "set t \<inter> set u = {}"
  shows "peek b i u = (False, skip_ws b i)"
  using assms by (auto simp: peek_rd stops_def split: list.splits)

lemma trim_symbol: "c \<in> set ''<|>&;()'' \<Longrightarrow> trim (c # r) = c # r"
  using ws_chars(4) by (simp add: trim_def)

lemma stops_mono: "stops t rest \<Longrightarrow> set t \<subseteq> set u \<Longrightarrow> stops u rest"
  by (auto simp: stops_def split: list.splits)

lemma stops_symbol: "c \<in> set ''<|>&;()'' \<Longrightarrow> stops t (c # r) \<longleftrightarrow> c \<in> set t"
  by (simp add: stops_def trim_symbol)

text \<open>The symbol that starts the rest of the line is the next token.\<close>

lemma symbol_next:
  assumes "i \<le> length b" "rd b i = c # r" "c \<in> set ''|();&<''" "c \<in> set t"
  shows "peek b i t = (True, skip_ws b i)" "rd b (after b (skip_ws b i)) = trim r"
    "after b (skip_ws b i) \<le> length b" "i < after b (skip_ws b i)"
proof -
  have "c \<noteq> NUL" using assms(3) by auto
  then show pk: "peek b i t = (True, skip_ws b i)" using assms by (simp add: peek_rd)
  have s: "skip_ws b i \<le> length b" "rd b (skip_ws b i) = c # r" using peek_rd_pos [OF assms(1)] assms(2) by auto
  show "rd b (after b (skip_ws b i)) = trim r" "after b (skip_ws b i) \<le> length b"
    using symbol_token [OF s assms(3)] by auto
  show "i < after b (skip_ws b i)" by (rule after_peek [OF pk])
qed

lemma words_first:
  assumes "list_all is_word ws" "ws \<noteq> []"
  shows "\<exists>c r. trim (show_words ws @ R) = c # r \<and> c \<notin> set ''<|>&;()''"
proof -
  obtain x xs where "ws = x # xs" using assms(2) by (cases ws) auto
  then show ?thesis
    using assms(1) trim_word(2) [of x] word_first [of x] by (auto simp: show_words_def)
qed

lemma simple_no_paren:
  assumes "i \<le> length b" "rd b i = trim (show_words ws @ show_redirs rs @ rest)"
    and "list_all is_word ws" "stops ''|)&;'' rest"
  shows "peek b i ''('' = (False, skip_ws b i)"
proof (cases "ws = []")
  case True
  show ?thesis
  proof (cases rs)
    case Nil
    then show ?thesis using stops_peek [OF assms(1) _ assms(4), of "''(''"] assms(2) True by (simp add: show_words_def)
  next
    case (Cons r rs')
    obtain f mode fd where r: "r = (f, mode, fd)" by (cases r)
    obtain c x where x: "show_redir f mode = c # x" "c \<in> set ''<>''" using show_redir_first by blast
    then have "rd b i = c # x @ show_redirs rs' @ rest" "c \<noteq> CHR ''(''"
      using assms(2) True Cons r trim_symbol [of c "x @ show_redirs rs' @ rest"] by (auto simp: show_words_def)
    then show ?thesis using assms(1) by (simp add: peek_rd)
  qed
next
  case False
  then show ?thesis using words_first [OF assms(3) False, of "show_redirs rs @ rest"] assms(1,2) by (auto simp: peek_rd)
qed

lemma exec_simple:
  assumes "list_all is_word ws" "length ws < MAXARGS"
  shows "reads_exec b (SExec ws)"
  unfolding reads_exec_def
proof (intro allI impI)
  fix i a n rs rest
  assume i: "i \<le> length b" and n: "need Parseexec (length b - i) \<le> n"
    and "rd b i = trim (wrap 3 (SExec ws) (show_cmd (SExec ws)) @ show_redirs rs @ rest)"
    and rs: "list_all redir_ok rs" and st: "stops ''|)&;'' rest"
    and a: "a + cost (SExec ws) + length rs * sizeof_redircmd < ARENA"
  then have rd: "rd b i = trim (show_words ws @ show_redirs rs @ rest)" by (simp add: wrap_def show_words_def)
  obtain m where m: "n = Suc m" by (rule need_Suc [OF n])
  let ?s = "skip_ws b i" and ?a = "a + sizeof_execcmd"
  have s: "?s \<le> length b" "rd b ?s = trim (show_words ws @ show_redirs rs @ rest)"
    using peek_rd_pos [OF i] rd by auto
  have bd: "bounded rest" using stops_bounded [OF st] by simp
  have ns: "\<not> (\<exists>c r. trim rest = c # r \<and> c \<in> set ''<>'')"
    using st by (auto simp: stops_def split: list.splits)
  have pk: "peek b i ''('' = (False, ?s)" by (rule simple_no_paren [OF i rd assms(1) st])
  have ex: "parse n Parseexec b i a =
      pbind (parseredirs b (Exec []) ?s ?a) (\<lambda>(ret, i, a). parse_args b ret 0 i a)"
    using a m pk by (simp add: parseexec_def execcmd_def alloc_node_def zalloc_def)
  show "parsed b i a (parse n Parseexec b i a) (sredirs rs (SExec ws)) (cost (SExec ws) + length rs * sizeof_redircmd) rest"
  proof (cases "ws = []")
    case True
    then obtain c j where c: "parseredirs b (Exec []) ?s ?a = Ok (c, j, ?a + length rs * sizeof_redircmd)"
        "text_of (sub b) c = sredirs rs (SExec [])" "j \<le> length b" "rd b j = trim rest"
      using redirs_parse [OF s(1) _ rs bd ns, of ?a "Exec []"] s(2) a by (auto simp: show_words_def)
    then show ?thesis
      using args_stop [OF c(3,4) st, of c 0 "?a + length rs * sizeof_redircmd"] True ex
      by (auto simp: parsed_def add.assoc)
  next
    case False
    have "\<not> (\<exists>c r. trim (show_words ws @ show_redirs rs @ rest) = c # r \<and> c \<in> set ''<>'')"
      using words_first [OF assms(1) False, of "show_redirs rs @ rest"] by auto
    then obtain j where j: "parseredirs b (Exec []) ?s ?a = Ok (Exec [], j, ?a)" "j \<le> length b"
        "rd b j = trim (show_words ws @ show_redirs rs @ rest)"
      using redirs_stop [OF s] by blast
    show ?thesis
      using args_parse [OF j(2,3) st assms(1) rs False, of "[]" ?a] assms(2) a j(1) ex
      by (auto simp: parsed_def add.assoc)
  qed
qed

lemma reads_good:
  assumes "i \<le> length b" "need nt (length b - i) \<le> n" "parse n nt b i a = Ok (c, j, a')"
  shows "i \<le> j"
  using parse_good [OF assms(1,2), of a] assms(3) by simp

lemma exec_redir:
  assumes "reads_exec b c" "redir_ok (f, mode, fd)"
  shows "reads_exec b (SRedir c f mode fd)"
  unfolding reads_exec_def
proof (intro allI impI)
  fix i a n rs rest
  assume h: "i \<le> length b" "need Parseexec (length b - i) \<le> n"
    "rd b i = trim (wrap 3 (SRedir c f mode fd) (show_cmd (SRedir c f mode fd)) @ show_redirs rs @ rest)"
    "list_all redir_ok rs" "stops ''|)&;'' rest" "a + cost (SRedir c f mode fd) + length rs * sizeof_redircmd < ARENA"
  then have "parsed b i a (parse n Parseexec b i a) (sredirs ((f, mode, fd) # rs) c)
      (cost c + length ((f, mode, fd) # rs) * sizeof_redircmd) rest"
    using assms(1) [unfolded reads_exec_def, rule_format, OF h(1,2), of "(f, mode, fd) # rs" rest a] assms(2)
    by (simp add: wrap_def [of 3 "SRedir c f mode fd"])
  then show "parsed b i a (parse n Parseexec b i a) (sredirs rs (SRedir c f mode fd))
      (cost (SRedir c f mode fd) + length rs * sizeof_redircmd) rest"
    by (simp add: add.assoc)
qed

lemma exec_paren:
  assumes "reads_line b c" "level c < 3"
  shows "reads_exec b c"
  unfolding reads_exec_def
proof (intro allI impI)
  fix i a n rs rest
  assume i: "i \<le> length b" and n: "need Parseexec (length b - i) \<le> n"
    and rd0: "rd b i = trim (wrap 3 c (show_cmd c) @ show_redirs rs @ rest)"
    and rs: "list_all redir_ok rs" and st: "stops ''|)&;'' rest"
    and a: "a + cost c + length rs * sizeof_redircmd < ARENA"
  let ?R = "show_redirs rs @ rest" and ?s = "skip_ws b i"
  have rd: "rd b i = CHR ''('' # show_cmd c @ CHR '')'' # ?R"
    using rd0 assms(2) trim_symbol [of "CHR ''(''"] by (simp add: wrap_def)
  note lp = symbol_next [OF i rd, of "''(''"]
  obtain m where m: "n = Suc (Suc m)" using n by (cases n; cases "n - 1") auto
  have s: "?s \<le> length b" "rd b ?s = rd b i" using peek_rd_pos [OF i] by auto
  have lp': "peek b ?s ''('' = (True, ?s)" using lp(1) s(1) by (simp add: peek_rd s(2)) (simp add: peek_rd i)
  have "need Parseline (length b - after b ?s) \<le> m" using lp(3,4) n m i by auto
  then obtain c1 j where c1: "parse m Parseline b (after b ?s) a = Ok (c1, j, a + cost c)" "text_of (sub b) c1 = c"
      "j \<le> length b" "rd b j = trim (CHR '')'' # ?R)"
    using assms(1) [unfolded reads_line_def, rule_format, of "after b ?s" m "CHR '')'' # ?R" a] lp(2,3) a
      stops_symbol [of "CHR '')''" "'')''" ?R]
    by (auto elim: parsedE)
  note rp = symbol_next [OF c1(3), of "CHR '')''" ?R "'')''"]
  have "rd b j = CHR '')'' # ?R" using c1(4) trim_symbol [of "CHR '')''" ?R] by simp
  then have eq: "parse n Parseexec b i a = parseredirs b c1 (after b (skip_ws b j)) (a + cost c)"
    and nx: "rd b (after b (skip_ws b j)) = trim ?R" "after b (skip_ws b j) \<le> length b"
    using rp lp lp' c1(1) m by (simp_all add: parseexec_def parseblock_def)
  have "\<not> (\<exists>c r. trim rest = c # r \<and> c \<in> set ''<>'')" using st by (auto simp: stops_def split: list.splits)
  then show "parsed b i a (parse n Parseexec b i a) (sredirs rs c) (cost c + length rs * sizeof_redircmd) rest"
    using redirs_parse [OF nx(2,1) rs stops_bounded [OF st], of "a + cost c" c1] a c1(2) eq
    by (auto simp: parsed_def add.assoc)
qed

lemma pipe_exec:
  assumes "reads_exec b c" "level c \<noteq> 2"
  shows "reads_pipe b c"
  unfolding reads_pipe_def
proof (intro allI impI)
  fix i a n rest
  assume i: "i \<le> length b" and n: "need Parsepipe (length b - i) \<le> n"
    and rd: "rd b i = trim (wrap 2 c (show_cmd c) @ rest)" and st: "stops '')&;'' rest" and a: "a + cost c < ARENA"
  obtain m where m: "n = Suc m" by (rule need_Suc [OF n])
  have "wrap 2 c (show_cmd c) = wrap 3 c (show_cmd c)" using assms(2) by (cases c) (auto simp: wrap_def)
  then have "parsed b i a (parse m Parseexec b i a) (sredirs [] c) (cost c + length ([] :: redir list) * sizeof_redircmd) rest"
    using assms(1) [unfolded reads_exec_def, rule_format, of i m "[]" rest a] i n m rd a stops_mono [OF st, of "''|)&;''"]
    by simp
  then obtain c1 j where c1: "parse m Parseexec b i a = Ok (c1, j, a + cost c)" "text_of (sub b) c1 = c"
      "j \<le> length b" "rd b j = trim rest" by (auto elim: parsedE)
  then show "parsed b i a (parse n Parsepipe b i a) c (cost c) rest"
    using stops_peek [OF c1(3,4) st, of "''|''"] peek_rd_pos [OF c1(3)] m
    by (simp add: parsed_def parsepipe_def)
qed

lemma pipe_pipe:
  assumes "reads_exec b l" "reads_pipe b r"
  shows "reads_pipe b (SPipe l r)"
  unfolding reads_pipe_def
proof (intro allI impI)
  fix i a n rest
  assume i: "i \<le> length b" and n: "need Parsepipe (length b - i) \<le> n"
    and rd: "rd b i = trim (wrap 2 (SPipe l r) (show_cmd (SPipe l r)) @ rest)" and st: "stops '')&;'' rest"
    and a: "a + cost (SPipe l r) < ARENA"
  let ?R = "wrap 2 r (show_cmd r) @ rest"
  obtain m where m: "n = Suc m" by (rule need_Suc [OF n])
  have "parsed b i a (parse m Parseexec b i a) (sredirs [] l) (cost l + length ([] :: redir list) * sizeof_redircmd) (CHR ''|'' # ?R)"
    using assms(1) [unfolded reads_exec_def, rule_format, of i m "[]" "CHR ''|'' # ?R" a] i n m rd a
      stops_symbol [of "CHR ''|''" "''|)&;''" ?R] by (simp add: wrap_def [of 2 "SPipe l r"])
  then obtain c1 j where c1: "parse m Parseexec b i a = Ok (c1, j, a + cost l)" "text_of (sub b) c1 = l"
      "j \<le> length b" "rd b j = CHR ''|'' # ?R" using trim_symbol [of "CHR ''|''" ?R] by (auto elim: parsedE)
  note nx = symbol_next [OF c1(3,4), of "''|''"]
  let ?k = "after b (skip_ws b j)"
  have "i \<le> j" using reads_good [OF i _ c1(1)] n m by simp
  then have "need Parsepipe (length b - ?k) \<le> m" using nx(3,4) n m by auto
  then obtain c2 j2 where c2: "parse m Parsepipe b ?k (a + cost l) = Ok (c2, j2, a + cost l + cost r)"
      "text_of (sub b) c2 = r" "j2 \<le> length b" "rd b j2 = trim rest"
    using assms(2) [unfolded reads_pipe_def, rule_format, of ?k m rest "a + cost l"] nx(2,3) st a
    by (auto elim: parsedE)
  then show "parsed b i a (parse n Parsepipe b i a) (SPipe l r) (cost (SPipe l r)) rest"
    using c1 nx(1) m a
    by (simp add: parsed_def parsepipe_def pipecmd_def alloc_node_def zalloc_def add.assoc)
qed

lemma backs_parse:
  assumes "i \<le> length b" "rd b i = trim (replicate k CHR ''&'' @ rest)" "stops '');'' rest"
    and "a + k * sizeof_backcmd < ARENA"
  shows "parsed b i a (parse_backs b c i a) ((SBack ^^ k) (text_of (sub b) c)) (k * sizeof_backcmd) rest"
  using assms
proof (induction k arbitrary: i a c)
  case 0
  then show ?case
    using stops_peek [of i b rest "'');''" "''&''"] peek_rd_pos [OF 0(1)] by (subst parse_backs.simps) (simp add: parsed_def)
next
  case (Suc k)
  let ?R = "replicate k CHR ''&'' @ rest"
  have "rd b i = CHR ''&'' # ?R" using Suc.prems(2) trim_symbol [of "CHR ''&''" ?R] by simp
  note nx = symbol_next [OF Suc.prems(1) this, of "''&''"]
  let ?k = "after b (skip_ws b i)"
  have "parse_backs b c i a = parse_backs b (Back c) ?k (a + sizeof_backcmd)"
    using nx(1) Suc.prems(4) by (subst parse_backs.simps) (simp add: backcmd_def alloc_node_def zalloc_def)
  moreover have "parsed b ?k (a + sizeof_backcmd) (parse_backs b (Back c) ?k (a + sizeof_backcmd))
      ((SBack ^^ k) (text_of (sub b) (Back c))) (k * sizeof_backcmd) rest"
    using Suc.IH [of ?k "a + sizeof_backcmd" "Back c"] nx(2,3) Suc.prems(3,4) by simp
  ultimately show ?case by (simp add: parsed_def funpow_swap1 add.assoc)
qed

lemma back_pipe:
  assumes "reads_pipe b c" "level c \<noteq> 1"
  shows "reads_back b c"
  unfolding reads_back_def
proof (intro allI impI)
  fix i a n k rest
  assume i: "i \<le> length b" and n: "need Parsepipe (length b - i) \<le> n"
    and rd: "rd b i = trim (wrap 1 c (show_cmd c) @ replicate k CHR ''&'' @ rest)" and st: "stops '');'' rest"
    and a: "a + cost c + k * sizeof_backcmd < ARENA"
  let ?R = "replicate k CHR ''&'' @ rest"
  have "stops '')&;'' ?R"
    using stops_mono [OF st, of "'')&;''"] stops_symbol [of "CHR ''&''" "'')&;''"] by (cases k) auto
  moreover have "wrap 1 c (show_cmd c) = wrap 2 c (show_cmd c)" using assms(2) by (cases c) (auto simp: wrap_def)
  ultimately obtain c1 j where c1: "parse n Parsepipe b i a = Ok (c1, j, a + cost c)" "text_of (sub b) c1 = c"
      "j \<le> length b" "rd b j = trim ?R"
    using assms(1) [unfolded reads_pipe_def, rule_format, OF i n, of ?R a] rd a by (auto elim: parsedE)
  then show "parsed b i a (pbind (parse n Parsepipe b i a) (\<lambda>(cmd, i, a). parse_backs b cmd i a))
      ((SBack ^^ k) c) (cost c + k * sizeof_backcmd) rest"
    using backs_parse [OF c1(3,4) st, of "a + cost c" c1] a by (simp add: parsed_def add.assoc)
qed

lemma back_back:
  assumes "reads_back b c"
  shows "reads_back b (SBack c)"
  unfolding reads_back_def
proof (intro allI impI)
  fix i a n k rest
  assume h: "i \<le> length b" "need Parsepipe (length b - i) \<le> n"
    "rd b i = trim (wrap 1 (SBack c) (show_cmd (SBack c)) @ replicate k CHR ''&'' @ rest)" "stops '');'' rest"
    "a + cost (SBack c) + k * sizeof_backcmd < ARENA"
  have "rd b i = trim (wrap 1 c (show_cmd c) @ replicate (Suc k) CHR ''&'' @ rest)"
    using h(3) by (simp add: wrap_def [of "Suc 0" "SBack c"])
  then show "parsed b i a (pbind (parse n Parsepipe b i a) (\<lambda>(cmd, i, a). parse_backs b cmd i a))
      ((SBack ^^ k) (SBack c)) (cost (SBack c) + k * sizeof_backcmd) rest"
    using assms [unfolded reads_back_def, rule_format, OF h(1,2), of "Suc k" rest a] h(4,5)
    by (simp add: funpow_swap1 add.assoc)
qed

text \<open>The part of \<open>parseline\<close> before the semicolon.\<close>

lemma line_first:
  assumes "reads_back b c" "i \<le> length b" "need Parseline (length b - i) \<le> Suc n"
    and "rd b i = trim (wrap 1 c (show_cmd c) @ rest)" "stops '');'' rest" "a + cost c < ARENA"
  obtains c0 j0 a0 c1 j where "parse n Parsepipe b i a = Ok (c0, j0, a0)" "parse_backs b c0 j0 a0 = Ok (c1, j, a + cost c)"
    "text_of (sub b) c1 = c" "i \<le> j" "j \<le> length b" "rd b j = trim rest"
proof -
  have n: "need Parsepipe (length b - i) \<le> n" using assms(3) by simp
  have p: "parsed b i a (pbind (parse n Parsepipe b i a) (\<lambda>(cmd, i, a). parse_backs b cmd i a)) c (cost c) rest"
    using assms(1) [unfolded reads_back_def, rule_format, OF assms(2) n, of 0 rest a] assms(4-6) by simp
  then obtain c0 j0 a0 where c0: "parse n Parsepipe b i a = Ok (c0, j0, a0)"
    by (cases "parse n Parsepipe b i a") (auto simp: parsed_def)
  have g: "i \<le> j0" "j0 \<le> length b" "cmd_ok b c0" using parse_good [OF assms(2) n, of a] c0 by auto
  obtain c1 j where c1: "parse_backs b c0 j0 a0 = Ok (c1, j, a + cost c)" "text_of (sub b) c1 = c" "j \<le> length b"
      "rd b j = trim rest"
    using p c0 by (auto elim: parsedE)
  moreover have "i \<le> j" using parse_backs_good [OF g(2,3), of a0] c1(1) g(1) by auto
  ultimately show ?thesis using that c0 by blast
qed

lemma line_back:
  assumes "reads_back b c" "level c \<noteq> 0"
  shows "reads_line b c"
  unfolding reads_line_def
proof (intro allI impI)
  fix i a n rest
  assume i: "i \<le> length b" and n: "need Parseline (length b - i) \<le> n"
    and rd: "rd b i = trim (show_cmd c @ rest)" and st: "stops '')'' rest" and a: "a + cost c < ARENA"
  obtain m where m: "n = Suc m" by (rule need_Suc [OF n])
  have w: "wrap 1 c (show_cmd c) = show_cmd c" using assms(2) by (cases c) (auto simp: wrap_def)
  have rd1: "rd b i = trim (wrap 1 c (show_cmd c) @ rest)" using rd w by simp
  have st1: "stops '');'' rest" using st by (rule stops_mono) simp
  obtain c0 j0 a0 c1 j where c1: "parse m Parsepipe b i a = Ok (c0, j0, a0)" "parse_backs b c0 j0 a0 = Ok (c1, j, a + cost c)"
      "text_of (sub b) c1 = c" "j \<le> length b" "rd b j = trim rest"
    by (rule line_first [OF assms(1) i n [unfolded m] rd1 st1 a])
  then show "parsed b i a (parse n Parseline b i a) c (cost c) rest"
    using stops_peek [OF c1(4,5) st, of "'';''"] peek_rd_pos [OF c1(4)] m
    by (simp add: parsed_def parseline_def)
qed

lemma line_list:
  assumes "reads_back b l" "reads_line b r"
  shows "reads_line b (SList l r)"
  unfolding reads_line_def
proof (intro allI impI)
  fix i a n rest
  assume i: "i \<le> length b" and n: "need Parseline (length b - i) \<le> n"
    and rd: "rd b i = trim (show_cmd (SList l r) @ rest)" and st: "stops '')'' rest" and a: "a + cost (SList l r) < ARENA"
  let ?R = "show_cmd r @ rest"
  obtain m where m: "n = Suc m" by (rule need_Suc [OF n])
  have rd1: "rd b i = trim (wrap 1 l (show_cmd l) @ CHR '';'' # ?R)" using rd by simp
  have st1: "stops '');'' (CHR '';'' # ?R)" by (simp add: stops_symbol)
  have a1: "a + cost l < ARENA" using a by simp
  obtain c0 j0 a0 c1 j where c1: "parse m Parsepipe b i a = Ok (c0, j0, a0)" "parse_backs b c0 j0 a0 = Ok (c1, j, a + cost l)"
      "text_of (sub b) c1 = l" "i \<le> j" "j \<le> length b" "rd b j = CHR '';'' # ?R"
    by (rule line_first [OF assms(1) i n [unfolded m] rd1 st1 a1]) (use trim_symbol [of "CHR '';''" ?R] in auto)
  note nx = symbol_next [OF c1(5,6), of "'';''"]
  let ?k = "after b (skip_ws b j)"
  have "need Parseline (length b - ?k) \<le> m" using nx(3,4) n m c1(4) by auto
  then obtain c2 j2 where c2: "parse m Parseline b ?k (a + cost l) = Ok (c2, j2, a + cost l + cost r)"
      "text_of (sub b) c2 = r" "j2 \<le> length b" "rd b j2 = trim rest"
    using assms(2) [unfolded reads_line_def, rule_format, of ?k m rest "a + cost l"] nx(2,3) st a
    by (auto elim: parsedE)
  then show "parsed b i a (parse n Parseline b i a) (SList l r) (cost (SList l r)) rest"
    using c1 nx(1) m a
    by (simp add: parsed_def parseline_def listcmd_def alloc_node_def zalloc_def add.assoc)
qed

lemma reads_all:
  "scmd_ok c \<Longrightarrow> reads_exec b c \<and> reads_pipe b c \<and> reads_back b c \<and> reads_line b c"
proof (induction c)
  case (SExec ws)
  then have "reads_exec b (SExec ws)" using exec_simple by simp
  then show ?case using pipe_exec back_pipe line_back by simp
next
  case (SRedir c f mode fd)
  then have "reads_exec b (SRedir c f mode fd)" using exec_redir by (simp add: redir_ok_def)
  then show ?case using pipe_exec back_pipe line_back by simp
next
  case (SPipe l r)
  then have p: "reads_pipe b (SPipe l r)" using pipe_pipe by simp
  then have "reads_line b (SPipe l r)" using back_pipe line_back by simp
  then show ?case using p exec_paren back_pipe by simp
next
  case (SList l r)
  then have l: "reads_line b (SList l r)" using line_list by simp
  then have "reads_pipe b (SList l r)" using exec_paren pipe_exec by simp
  then show ?case using l exec_paren back_pipe by simp
next
  case (SBack c)
  then have b: "reads_back b (SBack c)" using back_back by simp
  then have l: "reads_line b (SBack c)" using line_back by simp
  then show ?case using b exec_paren pipe_exec by simp
qed

lemma show_no_NUL: "scmd_ok c \<Longrightarrow> NUL \<notin> set (show_cmd c)"
  by (induction c) (auto simp: wrap_def show_redir_def is_word_def list_all_iff)

lemma parse_show:
  assumes "scmd_ok c" "cost c < ARENA"
  shows "\<exists>t. parsecmd (parse_fuel (show_cmd c)) (show_cmd c) =
      Ok (t, nulterminate t (show_cmd c @ [NUL]), cost c) \<and>
    text_of (\<lambda>w. c_str (nulterminate t (show_cmd c @ [NUL])) (fst w)) t = c"
proof -
  let ?b = "show_cmd c"
  have n: "need Parseline (length ?b - 0) \<le> parse_fuel ?b" by (simp add: parse_fuel_def)
  have "parsed ?b 0 0 (parse (parse_fuel ?b) Parseline ?b 0 0) c (cost c) []"
    using reads_all [OF assms(1), of ?b] assms(2) n
    by (auto simp: reads_line_def rd_def stops_def trim_def)
  then obtain t j where t: "parse (parse_fuel ?b) Parseline ?b 0 0 = Ok (t, j, cost c)" "text_of (sub ?b) t = c"
      "j \<le> length ?b" "rd ?b j = []"
    by (auto elim!: parsedE simp: trim_def)
  have ok: "cmd_ok ?b t" using parse_good [of 0 ?b Parseline "parse_fuel ?b" 0] n t(1) by simp
  have "drop (skip_ws ?b j) ?b = []" using rd_skip [OF t(3)] t(4) by simp
  then have "skip_ws ?b j = length ?b" using skip_while_bounds(2) [OF t(3), of is_ws] by simp
  then have "parsecmd (parse_fuel ?b) ?b = Ok (t, nulterminate t (?b @ [NUL]), cost c)"
    using t(1) by (simp add: parsecmd_def peek_def Let_def)
  then show ?thesis using nulterminate_text [OF ok show_no_NUL [OF assms(1)]] t(2) by simp
qed

section \<open>Properties\<close>

text \<open>
  C36: the parser ends on every line.  With fuel \<open>parse_fuel\<close>, proportional to the length of
  the line, the recursion is never cut: \<open>parsecmd\<close> returns a tree or panics.  Every string
  of a returned tree is a non-empty run of word characters of the line, and is exactly what
  the NUL-terminated buffer holds at its start, so terminating one string never damages
  another; no node has more than nine arguments.
\<close>

theorem parsecmd_total:
  assumes "NUL \<notin> set b"
  shows "parsecmd (parse_fuel b) b = Panic \<or>
    (\<exists>c buf a. parsecmd (parse_fuel b) b = Ok (c, buf, a) \<and> narrow c \<and>
       (\<forall>t \<in> set (toks c). word_at b t \<and> c_str buf (fst t) = sub b t))"
proof -
  have "good b 0 (parse (parse_fuel b) Parseline b 0 0)"
    by (rule parse_good) (simp_all add: parse_fuel_def)
  then show ?thesis
  proof (cases rule: good_cases)
    case (2 c j a)
    then show ?thesis
      using nulterminate_str [OF 2(4) assms]
      by (cases "snd (peek b j []) = length b") (auto simp: parsecmd_def cmd_ok_def split: prod.splits)
  qed (simp add: parsecmd_def)
qed

theorem parsecmd_total_witness:
  "parsecmd (parse_fuel ''ls >a|wc'') ''ls >a|wc'' = Panic \<or>
    (\<exists>c buf a. parsecmd (parse_fuel ''ls >a|wc'') ''ls >a|wc'' = Ok (c, buf, a) \<and> narrow c \<and>
       (\<forall>t \<in> set (toks c). word_at ''ls >a|wc'' t \<and> c_str buf (fst t) = sub ''ls >a|wc'' t))"
  by (rule parsecmd_total) simp

text \<open>
  C9: parsing is the inverse of printing.  Every command tree with words for strings, at most
  nine arguments per command, the three kinds of redirection the shell has and nodes that fit
  the 4096 bytes of the allocator is read back from its text: \<open>parsecmd\<close> succeeds, its tree with
  the C strings of the NUL-terminated buffer is the tree that was printed, and the bytes allocated are
  those of its nodes.
\<close>

theorem parse_show_roundtrip:
  assumes "scmd_ok c" "cost c < ARENA"
  shows "\<exists>t buf. parsecmd (parse_fuel (show_cmd c)) (show_cmd c) = Ok (t, buf, cost c) \<and>
    text_of (\<lambda>w. c_str buf (fst w)) t = c"
  using parse_show [OF assms] by blast

definition demo_scmd :: scmd where
  "demo_scmd = SList (SBack (SPipe (SRedir (SExec [''ls'', ''-l'']) ''out'' O_WRONLY_CREAT_TRUNC 1) (SExec [''wc''])))
     (SPipe (SList (SExec [''a'']) (SExec [''b''])) (SExec [''c'']))"

theorem parse_show_roundtrip_witness:
  "show_cmd demo_scmd = '' ls -l> out| wc&;( a; b)| c'' \<and>
   (\<exists>t buf. parsecmd (parse_fuel (show_cmd demo_scmd)) (show_cmd demo_scmd) = Ok (t, buf, cost demo_scmd) \<and>
    text_of (\<lambda>w. c_str buf (fst w)) t = demo_scmd)"
proof
  show "show_cmd demo_scmd = '' ls -l> out| wc&;( a; b)| c''" by code_simp
  have "scmd_ok demo_scmd" "cost demo_scmd < ARENA" by code_simp+
  then show "\<exists>t buf. parsecmd (parse_fuel (show_cmd demo_scmd)) (show_cmd demo_scmd) = Ok (t, buf, cost demo_scmd) \<and>
    text_of (\<lambda>w. c_str buf (fst w)) t = demo_scmd"
    by (rule parse_show_roundtrip)
qed

end
