(* ===== verification/ShellRun.thy ===== *)
theory ShellRun
  imports Shell
begin

text \<open>
  Running commands (\<open>runcmd\<close>, \<open>getcmd\<close> and \<open>main\<close> of \<open>sh.c\<close>).  A process
  is the tree of the system calls it makes; \<open>launches\<close> runs such a tree on a table of file
  descriptors and lists the \<open>execve\<close> calls of all its processes, each with the descriptors
  open at that moment.
\<close>

section \<open>Processes\<close>

text \<open>
  A system call with the code that follows it: \<open>Open\<close> and \<open>Pipe_call\<close> have a failure
  continuation first, \<open>Fork\<close> the child first, \<open>Execve\<close> what follows if it returns.
\<close>

datatype prog =
    Exit int
  | Close nat prog
  | Dup nat prog
  | Open string int prog prog
  | Pipe_call prog "nat \<times> nat \<Rightarrow> prog"
  | Fork prog prog
  | Wait prog
  | Execve string "string list" prog
  | Print string prog

definition panic :: prog where
  "panic = Print (''Panicked.'' @ [CHR 0x0A]) (Exit 1)"

definition bin_path :: "string \<Rightarrow> string" where
  "bin_path w = ''/bin/'' @ w"

text \<open>\<open>freem\<close> is the number of bytes of the arena the parser left used.\<close>

primrec runcmd :: "nat \<Rightarrow> scmd \<Rightarrow> prog" where
  "runcmd freem (SExec argv) =
     (case argv of
        [] \<Rightarrow> Exit 1
      | w # _ \<Rightarrow>
          (case zalloc freem (5 + length w + 1) of
             Ok _ \<Rightarrow> Execve (bin_path w) argv
                      (Print ''fail to exec '' (Print (bin_path w) (Print [CHR 0x0A] (Exit 0))))
           | _ \<Rightarrow> panic))"
| "runcmd freem (SRedir c f mode fd) =
     Close (nat fd) (Open f mode (Print ''fail to open '' (Print f (Print [CHR 0x0A] (Exit 1)))) (runcmd freem c))"
| "runcmd freem (SList l r) = Fork (runcmd freem l) (Wait (runcmd freem r))"
| "runcmd freem (SPipe l r) =
     Pipe_call panic (\<lambda>p.
       Fork (Close 1 (Dup (snd p) (Close (fst p) (Close (snd p) (runcmd freem l)))))
         (Fork (Close 0 (Dup (fst p) (Close (fst p) (Close (snd p) (runcmd freem r)))))
           (Close (fst p) (Close (snd p) (Wait (Wait (Exit 0)))))))"
| "runcmd freem (SBack c) = Fork (runcmd freem c) (Exit 0)"

section \<open>Reading lines\<close>

text \<open>
  \<open>getcmd\<close> with \<open>nbuf\<close> bytes left reads one character at a time from the input; it fails
  (\<open>None\<close>) at the end of the input, also in the middle of a line.
\<close>

fun getcmd :: "nat \<Rightarrow> string \<Rightarrow> (string \<times> string) option" where
  "getcmd nbuf inp =
     (if \<not> 1 < nbuf then Some ([], inp)
      else (case inp of
              [] \<Rightarrow> None
            | c # inp \<Rightarrow>
                if c = CHR 0x0A then Some ([c], inp)
                else map_option (\<lambda>(buf, inp). (c # buf, inp)) (getcmd (nbuf - 1) inp)))"

declare getcmd.simps [simp del]

lemma getcmd_length:
  "getcmd nbuf inp = Some (buf, rest) \<Longrightarrow> length rest \<le> length inp \<and> (1 < nbuf \<longrightarrow> length rest < length inp)"
proof (induction nbuf inp arbitrary: buf rule: getcmd.induct)
  case (1 nbuf inp)
  show ?case
  proof (cases "1 < nbuf \<and> inp \<noteq> [] \<and> hd inp \<noteq> CHR 0x0A")
    case True
    then obtain c inp' where inp: "inp = c # inp'" "c \<noteq> CHR 0x0A" by (cases inp) auto
    then obtain buf' where "getcmd (nbuf - 1) inp' = Some (buf', rest)"
      using 1(2) True by (auto simp: getcmd.simps [of nbuf])
    then show ?thesis using 1(1) [of c inp' buf'] True inp by simp
  next
    case False
    then show ?thesis using 1(2) by (auto simp: getcmd.simps [of nbuf] split: list.splits if_splits)
  qed
qed

lemma getcmd_consumes: "getcmd 100 inp = Some (buf, rest) \<Longrightarrow> length rest < length inp"
  using getcmd_length [of 100] by auto

datatype action = Chdir string | Run "(cmd \<times> string \<times> nat) presult"

text \<open>
  The body of the loop of \<open>main\<close> on the buffer of one line: the built-in \<open>cd\<close> chops the
  last character of the line, anything else is parsed and run in a child.
\<close>

definition shell_line :: "string \<Rightarrow> action" where
  "shell_line buf =
     (let s = c_str buf 0 in
      if take 3 buf = ''cd '' then Chdir (drop 3 (butlast s)) else Run (parsecmd (parse_fuel s) s))"

function shell_main :: "string \<Rightarrow> action list" where
  "shell_main inp =
     (case getcmd 100 inp of
        None \<Rightarrow> []
      | Some (buf, rest) \<Rightarrow> shell_line buf # shell_main rest)"
  by pat_completeness auto
termination
  by (relation "measure length") (auto dest: getcmd_consumes)

declare shell_main.simps [simp del]

section \<open>File descriptors\<close>

datatype desc = Tty | File string int | Pipe_read nat | Pipe_write nat

type_synonym fds = "desc option list"

text \<open>A new descriptor gets the lowest free number.\<close>

fun alloc_fd :: "desc \<Rightarrow> fds \<Rightarrow> nat \<times> fds" where
  "alloc_fd d [] = (0, [Some d])"
| "alloc_fd d (None # xs) = (0, Some d # xs)"
| "alloc_fd d (Some x # xs) = (case alloc_fd d xs of (n, xs) \<Rightarrow> (Suc n, Some x # xs))"

definition dup_fd :: "nat \<Rightarrow> fds \<Rightarrow> fds" where
  "dup_fd n xs = (if n < length xs then (case xs ! n of None \<Rightarrow> xs | Some d \<Rightarrow> snd (alloc_fd d xs)) else xs)"

fun open_fds :: "nat \<Rightarrow> fds \<Rightarrow> (nat \<times> desc) list" where
  "open_fds n [] = []"
| "open_fds n (None # xs) = open_fds (Suc n) xs"
| "open_fds n (Some d # xs) = (n, d) # open_fds (Suc n) xs"

type_synonym launch = "string \<times> string list \<times> (nat \<times> desc) list"

text \<open>
  All the \<open>execve\<close> calls of a process and its children; \<open>can_open\<close> says which opens
  succeed, pipes are numbered from \<open>k\<close> on, and \<open>fork\<close> and \<open>pipe\<close> succeed.
\<close>

primrec launches :: "(string \<Rightarrow> int \<Rightarrow> bool) \<Rightarrow> prog \<Rightarrow> fds \<Rightarrow> nat \<Rightarrow> launch list \<times> nat" where
  "launches can_open (Exit n) xs k = ([], k)"
| "launches can_open (Close n p) xs k = launches can_open p (xs[n := None]) k"
| "launches can_open (Dup n p) xs k = launches can_open p (dup_fd n xs) k"
| "launches can_open (Open f mode e p) xs k =
     (if can_open f mode then launches can_open p (snd (alloc_fd (File f mode) xs)) k
      else launches can_open e xs k)"
| "launches can_open (Pipe_call e p) xs k =
     (case alloc_fd (Pipe_read k) xs of (p0, xs) \<Rightarrow>
      case alloc_fd (Pipe_write k) xs of (p1, xs) \<Rightarrow> launches can_open (p (p0, p1)) xs (Suc k))"
| "launches can_open (Fork child parent) xs k =
     (case launches can_open child xs k of (ls, k) \<Rightarrow>
      case launches can_open parent xs k of (ls', k) \<Rightarrow> (ls @ ls', k))"
| "launches can_open (Wait p) xs k = launches can_open p xs k"
| "launches can_open (Execve path argv p) xs k = ([(path, argv, open_fds 0 xs)], k)"
| "launches can_open (Print s p) xs k = launches can_open p xs k"

section \<open>What a command line means\<close>

text \<open>The commands of a tree with their standard input, output and error.\<close>

fun wiring :: "(string \<Rightarrow> int \<Rightarrow> bool) \<Rightarrow> scmd \<Rightarrow> desc \<Rightarrow> desc \<Rightarrow> desc \<Rightarrow> nat \<Rightarrow> launch list \<times> nat" where
  "wiring can_open (SExec []) i out err k = ([], k)"
| "wiring can_open (SExec (w # ws)) i out err k = ([(bin_path w, w # ws, [(0, i), (1, out), (2, err)])], k)"
| "wiring can_open (SRedir c f mode fd) i out err k =
     (if \<not> can_open f mode then ([], k)
      else if fd = 0 then wiring can_open c (File f mode) out err k
      else wiring can_open c i (File f mode) err k)"
| "wiring can_open (SPipe l r) i out err k =
     (case wiring can_open l i (Pipe_write k) err (Suc k) of (ls, k') \<Rightarrow>
      case wiring can_open r (Pipe_read k) out err k' of (ls', k') \<Rightarrow> (ls @ ls', k'))"
| "wiring can_open (SList l r) i out err k =
     (case wiring can_open l i out err k of (ls, k) \<Rightarrow>
      case wiring can_open r i out err k of (ls', k) \<Rightarrow> (ls @ ls', k))"
| "wiring can_open (SBack c) i out err k = wiring can_open c i out err k"

text \<open>The redirections of the grammar, and room in the arena for every path.\<close>

fun runnable :: "nat \<Rightarrow> scmd \<Rightarrow> bool" where
  "runnable freem (SExec []) = True"
| "runnable freem (SExec (w # ws)) = (freem + 5 + length w + 1 < ARENA)"
| "runnable freem (SRedir c f mode fd) = (runnable freem c \<and> (fd = 0 \<or> fd = 1))"
| "runnable freem (SPipe l r) = (runnable freem l \<and> runnable freem r)"
| "runnable freem (SList l r) = (runnable freem l \<and> runnable freem r)"
| "runnable freem (SBack c) = runnable freem c"

definition std_fds :: "nat \<Rightarrow> desc \<Rightarrow> desc \<Rightarrow> desc \<Rightarrow> fds" where
  "std_fds m i out err = [Some i, Some out, Some err] @ replicate m None"

lemma open_fds_none: "open_fds n (replicate m None) = []"
  by (induction m arbitrary: n) auto

lemma std_fds_open: "open_fds 0 (std_fds m i out err) = [(0, i), (1, out), (2, err)]"
  by (simp add: std_fds_def open_fds_none)

lemma std_fds_redir:
  "snd (alloc_fd d ((std_fds m i out err)[0 := None])) = std_fds m d out err"
  "snd (alloc_fd d ((std_fds m i out err)[Suc 0 := None])) = std_fds m i d err"
  by (simp_all add: std_fds_def)

text \<open>After \<open>pipe\<close> the two ends are descriptors 3 and 4; the children and the parent close them.\<close>

definition pipe_fds :: "nat \<Rightarrow> desc \<Rightarrow> desc \<Rightarrow> desc \<Rightarrow> nat \<Rightarrow> fds" where
  "pipe_fds m i out err k = [Some i, Some out, Some err, Some (Pipe_read k), Some (Pipe_write k)] @ replicate (m - 2) None"

lemma alloc_pipe:
  obtains xs where "alloc_fd (Pipe_read k) (std_fds m i out err) = (3, xs)"
    "alloc_fd (Pipe_write k) xs = (4, pipe_fds m i out err k)"
proof (cases m)
  case 0
  then show ?thesis 
    by (intro that [of "[Some i, Some out, Some err, Some (Pipe_read k)]"]) (simp_all add: std_fds_def pipe_fds_def eval_nat_numeral)
next
  case (Suc m')
  then show ?thesis
    by (intro that [of "[Some i, Some out, Some err, Some (Pipe_read k)] @ replicate m' None"])
      (cases m'; simp add: std_fds_def pipe_fds_def eval_nat_numeral)+
qed

lemma pipe_children:
  "(dup_fd 4 ((pipe_fds m i out err k)[Suc 0 := None]))[3 := None, 4 := None] = std_fds (Suc (Suc (m - 2))) i (Pipe_write k) err"
  "(dup_fd 3 ((pipe_fds m i out err k)[0 := None]))[3 := None, 4 := None] = std_fds (Suc (Suc (m - 2))) (Pipe_read k) out err"
  by (simp_all add: pipe_fds_def std_fds_def dup_fd_def numeral_eq_Suc)

lemma launches_wiring:
  "runnable freem c \<Longrightarrow>
   launches can_open (runcmd freem c) (std_fds m i out err) k = wiring can_open c i out err k"
proof (induction c arbitrary: m i out err k)
  case (SExec argv)
  then show ?case by (cases argv) (auto simp: zalloc_def std_fds_open add.assoc)
next
  case (SPipe l r)
  obtain xs where "alloc_fd (Pipe_read k) (std_fds m i out err) = (3, xs)"
    "alloc_fd (Pipe_write k) xs = (4, pipe_fds m i out err k)" by (rule alloc_pipe)
  then show ?case
    using SPipe by (simp add: pipe_children split: prod.splits)
qed (auto simp: std_fds_redir split: prod.splits)

section \<open>Properties\<close>

text \<open>
  C6: every command runs with the standard descriptors its syntax gives it, and with no other
  descriptor open.  Started with descriptors 0, 1 and 2 open, \<open>runcmd\<close> executes the programs of
  the tree from left to right; a pipe connects the output of its left to the input of its
  right side, a redirection replaces input or output by the file, or stops its command when the file cannot
  be opened, and no end of a pipe leaks into a command.
\<close>

theorem runcmd_wiring:
  assumes "runnable freem c"
  shows "launches can_open (runcmd freem c) [Some i, Some out, Some err] k = wiring can_open c i out err k"
  using launches_wiring [OF assms, of can_open 0 i out err k] by (simp add: std_fds_def)

theorem runcmd_wiring_witness:
  "launches (\<lambda>f mode. True) (runcmd 0 (SPipe (SRedir (SExec [''cat'']) ''in'' 0 0) (SPipe (SExec [''sort'', ''-u'']) (SExec [''wc'']))))
     [Some Tty, Some Tty, Some Tty] 0 =
   ([(''/bin/cat'', [''cat''], [(0, File ''in'' 0), (1, Pipe_write 0), (2, Tty)]),
     (''/bin/sort'', [''sort'', ''-u''], [(0, Pipe_read 0), (1, Pipe_write 1), (2, Tty)]),
     (''/bin/wc'', [''wc''], [(0, Pipe_read 1), (1, Tty), (2, Tty)])], 2)"
proof -
  let ?c = "SPipe (SRedir (SExec [''cat'']) ''in'' 0 0) (SPipe (SExec [''sort'', ''-u'']) (SExec [''wc'']))"
  have "runnable 0 ?c" by code_simp
  then have "launches (\<lambda>f mode. True) (runcmd 0 ?c) [Some Tty, Some Tty, Some Tty] 0 =
      wiring (\<lambda>f mode. True) ?c Tty Tty Tty 0"
    by (rule runcmd_wiring)
  then show ?thesis by (simp add: bin_path_def eval_nat_numeral)
qed

end
