(* ===== verification/Labyrinth.thy ===== *)
theory Labyrinth
  imports Prelude
begin

text \<open>
  The labyrinth game (\<open>minilab/labyrinth/labyrinth.c\<close>).  The struct \<open>Labyrinth\<close> is kept
  as the bytes \<open>cells\<close>: the 100 by 100 array followed by the eight bytes of its two \<open>int\<close>
  fields, since a long line written into the array runs over the end of its row, and from the
  last row into these fields; \<open>rows\<close> and \<open>cols\<close> are the values the fields get at the
  end of \<open>loadMap\<close>.  Files are byte strings.  Messages on the terminal are not modelled.
\<close>

section \<open>Data\<close>

definition MAX_ROWS :: nat where "MAX_ROWS = 100"
definition MAX_COLS :: nat where "MAX_COLS = 100"

record Labyrinth =
  cells :: "char list"
  rows :: int
  cols :: int

type_synonym Position = "int \<times> int"

definition NUL :: char where "NUL = CHR 0x00"
definition NL :: char where "NL = CHR 0x0A"

text \<open>\<open>labyrinth->map[i][j]\<close>.\<close>

definition cell :: "Labyrinth \<Rightarrow> int \<Rightarrow> int \<Rightarrow> char" where
  "cell l i j = cells l ! nat (100 * i + j)"

definition set_cell :: "Labyrinth \<Rightarrow> int \<Rightarrow> int \<Rightarrow> char \<Rightarrow> Labyrinth" where
  "set_cell l i j c = l\<lparr>cells := (cells l)[nat (100 * i + j) := c]\<rparr>"

section \<open>Loading and saving\<close>

definition isValidPlayer :: "char \<Rightarrow> bool" where
  "isValidPlayer c \<longleftrightarrow> of_char CHR ''0'' \<le> (of_char c :: nat) \<and> of_char c \<le> (of_char CHR ''9'' :: nat)"

text \<open>
  \<open>fgets(buffer, n, file)\<close> on the unread part \<open>s\<close> of the file: at most \<open>n - 1\<close>
  characters up to and including a newline; \<open>None\<close> at the end of the file.
\<close>

fun line_prefix :: "nat \<Rightarrow> char list \<Rightarrow> char list" where
  "line_prefix 0 s = []"
| "line_prefix (Suc k) [] = []"
| "line_prefix (Suc k) (c # s) = (if c = NL then [c] else c # line_prefix k s)"

definition fgets :: "nat \<Rightarrow> char list \<Rightarrow> (char list \<times> char list) option" where
  "fgets m s =
     (if s = [] then None
      else let l = line_prefix (m - 1) s in Some (l, drop (length l) s))"

text \<open>The buffer as a C string, without the newline at its end.\<close>

definition chomp :: "char list \<Rightarrow> char list" where
  "chomp buf =
     (let s = takeWhile (\<lambda>c. c \<noteq> NUL) buf
      in if s \<noteq> [] \<and> last s = NL then butlast s else s)"

text \<open>\<open>strncpy(map[r], buffer, len); map[r][len] = 0\<close>: the row and its terminator.\<close>

definition put_row :: "nat \<Rightarrow> char list \<Rightarrow> char list \<Rightarrow> char list" where
  "put_row r s m = take (100 * r) m @ s @ [NUL] @ drop (100 * r + length s + 1) m"

function load_loop :: "char list \<Rightarrow> nat \<Rightarrow> nat \<Rightarrow> char list \<Rightarrow> nat \<times> nat \<times> char list" where
  "load_loop s r maxCols m =
     (case fgets (MAX_COLS + 2) s of
        None \<Rightarrow> (r, maxCols, m)
      | Some (buf, s') \<Rightarrow>
          if r < MAX_ROWS
          then let row = chomp buf
               in load_loop s' (Suc r) (if maxCols < length row then length row else maxCols)
                    (put_row r row m)
          else (r, maxCols, m))"
  by pat_completeness auto
termination
  by (relation "measure (\<lambda>(s, r, c, m). MAX_ROWS - r)") auto

declare load_loop.simps [simp del]

text \<open>
  \<open>file\<close> is the contents of the named file, \<open>None\<close> when it cannot be opened; \<open>l\<close> is the
  struct \<open>malloc\<close> returned, with whatever bytes it holds.
\<close>

definition loadMap :: "Labyrinth \<Rightarrow> char list option \<Rightarrow> Labyrinth option" where
  "loadMap l file =
     (case file of
        None \<Rightarrow> None
      | Some s \<Rightarrow>
          (case load_loop s 0 0 (cells l) of
             (r, maxCols, m) \<Rightarrow>
               if r = 0 \<or> maxCols = 0 then None
               else if MAX_ROWS < r \<or> MAX_COLS < maxCols then None
               else Some \<lparr>cells = m, rows = int r, cols = int maxCols\<rparr>))"

definition saveMap :: "Labyrinth \<Rightarrow> char list" where
  "saveMap l =
     concat (map (\<lambda>i. map (\<lambda>j. cell l (int i) (int j)) [0..<nat (cols l)] @ [NL]) [0..<nat (rows l)])"

section \<open>Searching and moving\<close>

text \<open>The two nested loops of \<open>findPlayer\<close> and \<open>findFirstEmptySpace\<close>.\<close>

function scan :: "Labyrinth \<Rightarrow> char \<Rightarrow> int \<Rightarrow> int \<Rightarrow> Position" where
  "scan l c i j =
     (if i < rows l then
        if j < cols l then (if cell l i j = c then (i, j) else scan l c i (j + 1))
        else scan l c (i + 1) 0
      else (- 1, - 1))"
  by pat_completeness auto
termination
  by (relation "measures [\<lambda>(l, c, i, j). nat (rows l - i), \<lambda>(l, c, i, j). nat (cols l - j)]") auto

declare scan.simps [simp del]

definition findPlayer :: "Labyrinth \<Rightarrow> char \<Rightarrow> Position" where
  "findPlayer l playerId = scan l playerId 0 0"

definition findFirstEmptySpace :: "Labyrinth \<Rightarrow> Position" where
  "findFirstEmptySpace l = scan l CHR ''.'' 0 0"

definition isEmptySpace :: "Labyrinth \<Rightarrow> int \<Rightarrow> int \<Rightarrow> bool" where
  "isEmptySpace l row col =
     (if row < 0 \<or> rows l \<le> row \<or> col < 0 \<or> cols l \<le> col then False
      else if cell l row col = CHR ''.'' then True else False)"

definition isEmptySpaceorUser :: "Labyrinth \<Rightarrow> int \<Rightarrow> int \<Rightarrow> bool" where
  "isEmptySpaceorUser l row col =
     (if row < 0 \<or> rows l \<le> row \<or> col < 0 \<or> cols l \<le> col then False
      else if cell l row col = CHR ''.'' \<or> isValidPlayer (cell l row col) then True else False)"

text \<open>One direction of \<open>movePlayer\<close>: from \<open>(r, c)\<close> by \<open>(dr, dc)\<close>.\<close>

definition try_move :: "Labyrinth \<Rightarrow> char \<Rightarrow> Position \<Rightarrow> int \<Rightarrow> int \<Rightarrow> bool \<times> Labyrinth" where
  "try_move l playerId p dr dc =
     (if isEmptySpace l (fst p + dr) (snd p + dc)
      then (True, set_cell (set_cell l (fst p + dr) (snd p + dc) playerId) (fst p) (snd p) CHR ''.'')
      else (False, l))"

definition movePlayer :: "Labyrinth \<Rightarrow> char \<Rightarrow> string \<Rightarrow> bool \<times> Labyrinth" where
  "movePlayer l playerId direction =
     (let p = findPlayer l playerId in
      if fst p = - 1 \<and> snd p = - 1 then
        (let e = findFirstEmptySpace l in
         if fst e \<noteq> - 1 \<and> snd e \<noteq> - 1 then (True, set_cell l (fst e) (snd e) playerId)
         else (False, l))
      else if direction = ''up'' then try_move l playerId p (- 1) 0
      else if direction = ''down'' then try_move l playerId p 1 0
      else if direction = ''left'' then try_move l playerId p 0 (- 1)
      else if direction = ''right'' then try_move l playerId p 0 1
      else (False, l))"

section \<open>Connectivity\<close>

type_synonym visited = "Position \<Rightarrow> bool"

definition directions :: "Position list" where
  "directions = [(- 1, 0), (1, 0), (0, - 1), (0, 1)]"

text \<open>
  The recursion of \<open>dfs\<close> with fuel, \<open>None\<close> when it runs out; one unit per nested call.
  The loop over the four directions calls \<open>go\<close> for the recursive call.
\<close>

fun dfs_dirs :: "(Position \<Rightarrow> visited \<Rightarrow> visited option) \<Rightarrow> Labyrinth \<Rightarrow> Position \<Rightarrow> Position list \<Rightarrow>
    visited \<Rightarrow> visited option" where
  "dfs_dirs go l p [] vis = Some vis"
| "dfs_dirs go l p (d # ds) vis =
     (let q = (fst p + fst d, snd p + snd d) in
      Option.bind (if isEmptySpaceorUser l (fst q) (snd q) \<and> \<not> vis q then go q vis else Some vis)
        (dfs_dirs go l p ds))"

fun dfs :: "nat \<Rightarrow> Labyrinth \<Rightarrow> Position \<Rightarrow> visited \<Rightarrow> visited option" where
  "dfs 0 l p vis = None"
| "dfs (Suc k) l p vis = dfs_dirs (dfs k l) l p directions (vis(p := True))"

text \<open>The two loops that look for an unvisited open cell.\<close>

definition all_visited :: "Labyrinth \<Rightarrow> visited \<Rightarrow> bool" where
  "all_visited l vis \<longleftrightarrow>
     (\<forall>i \<in> set [0..<nat (rows l)]. \<forall>j \<in> set [0..<nat (cols l)].
        (cell l (int i) (int j) = CHR ''.'' \<or> isValidPlayer (cell l (int i) (int j))) \<longrightarrow>
        vis (int i, int j))"

definition isConnected :: "nat \<Rightarrow> Labyrinth \<Rightarrow> bool option" where
  "isConnected fuel l =
     (let start = findFirstEmptySpace l in
      if fst start = - 1 \<and> snd start = - 1 then Some True
      else map_option (all_visited l) (dfs fuel l start (\<lambda>_. False)))"

section \<open>The program\<close>

datatype getopt_result =
    Opt_version | Opt_map string | Opt_player string | Opt_move string | Opt_o string | Opt_error

record options =
  version_flag :: bool
  other_args :: bool
  filename :: "string option"
  playerId :: "string option"
  moveDirection :: "string option"

text \<open>
  The loop over the options \<open>getopt_long\<close> reports; \<open>Inl\<close> is the exit status of an early
  return.  The short option \<open>-o\<close> is in the option string but has no case of its own: it
  reaches \<open>default\<close>, which prints a message and goes on.
\<close>

fun parse_options :: "getopt_result list \<Rightarrow> options \<Rightarrow> int + options" where
  "parse_options [] opts = Inr opts"
| "parse_options (Opt_version # os) opts = parse_options os (opts\<lparr>version_flag := True\<rparr>)"
| "parse_options (Opt_map a # os) opts =
     parse_options os (opts\<lparr>filename := Some a, other_args := True\<rparr>)"
| "parse_options (Opt_player a # os) opts =
     parse_options os (opts\<lparr>playerId := Some a, other_args := True\<rparr>)"
| "parse_options (Opt_move a # os) opts =
     (if a \<noteq> '''' then
        if a \<noteq> ''up'' \<and> a \<noteq> ''down'' \<and> a \<noteq> ''left'' \<and> a \<noteq> ''right'' then Inl 1
        else parse_options os (opts\<lparr>moveDirection := Some a, other_args := True\<rparr>)
      else parse_options os (opts\<lparr>moveDirection := Some a\<rparr>))"
| "parse_options (Opt_o a # os) opts = parse_options os opts"
| "parse_options (Opt_error # os) opts = Inl 1"

definition no_options :: options where
  "no_options = \<lparr>version_flag = False, other_args = False, filename = None, playerId = None,
     moveDirection = None\<rparr>"

definition valid_player_arg :: "string option \<Rightarrow> char option" where
  "valid_player_arg a =
     (case a of
        Some [c] \<Rightarrow> if isValidPlayer c then Some c else None
      | _ \<Rightarrow> None)"

text \<open>
  The part of \<open>main\<close> after the options: \<open>fs\<close> are the files that can be read,
  \<open>writable\<close> says which can be opened for writing.  The result is the exit status and the
  files; \<open>None\<close> when \<open>dfs\<close> runs out of fuel.
\<close>

definition play_game ::
  "nat \<Rightarrow> (string \<rightharpoonup> char list) \<Rightarrow> (string \<Rightarrow> bool) \<Rightarrow> char list \<Rightarrow> string \<Rightarrow> options \<Rightarrow>
   (int \<times> (string \<rightharpoonup> char list)) option" where
  "play_game fuel fs writable heap_bytes name opts =
     (case loadMap \<lparr>cells = heap_bytes, rows = 0, cols = 0\<rparr> (fs name) of
        None \<Rightarrow> Some (1, fs)
      | Some l \<Rightarrow>
          (case valid_player_arg (playerId opts) of
             None \<Rightarrow> Some (1, fs)
           | Some c \<Rightarrow>
               (case isConnected fuel l of
                  None \<Rightarrow> None
                | Some False \<Rightarrow> Some (1, fs)
                | Some True \<Rightarrow>
                    (case (case moveDirection opts of None \<Rightarrow> (True, l) | Some d \<Rightarrow> movePlayer l c d) of
                       (False, _) \<Rightarrow> Some (1, fs)
                     | (True, l') \<Rightarrow>
                         if writable name then Some (0, fs(name \<mapsto> saveMap l')) else Some (1, fs)))))"

datatype main_result = Exit int "string \<rightharpoonup> char list" | NullFilename

text \<open>Without a map option \<open>loadMap\<close> gets a null file name, which \<open>fopen\<close> does not allow.\<close>

definition labyrinth_main ::
  "nat \<Rightarrow> (string \<rightharpoonup> char list) \<Rightarrow> (string \<Rightarrow> bool) \<Rightarrow> char list \<Rightarrow> getopt_result list \<Rightarrow> main_result option" where
  "labyrinth_main fuel fs writable heap_bytes os =
     (case parse_options os no_options of
        Inl e \<Rightarrow> Some (Exit e fs)
      | Inr opts \<Rightarrow>
          if version_flag opts \<and> other_args opts then Some (Exit 1 fs)
          else if version_flag opts then Some (Exit 0 fs)
          else (case filename opts of
             None \<Rightarrow> Some NullFilename
           | Some name \<Rightarrow> map_option (\<lambda>(e, fs'). Exit e fs') (play_game fuel fs writable heap_bytes name opts)))"


section \<open>Well-formed labyrinths\<close>

definition wf_lab :: "Labyrinth \<Rightarrow> bool" where
  "wf_lab l \<longleftrightarrow> length (cells l) = 10008 \<and> 0 < rows l \<and> rows l \<le> 100 \<and> 0 < cols l \<and> cols l \<le> 100"

definition in_grid :: "Labyrinth \<Rightarrow> Position \<Rightarrow> bool" where
  "in_grid l p \<longleftrightarrow> 0 \<le> fst p \<and> fst p < rows l \<and> 0 \<le> snd p \<and> snd p < cols l"

abbreviation cell_at :: "Labyrinth \<Rightarrow> Position \<Rightarrow> char" where
  "cell_at l p \<equiv> cell l (fst p) (snd p)"

lemma cell_index_less:
  assumes "wf_lab l" and "in_grid l p"
  shows "nat (100 * fst p + snd p) < length (cells l)"
  using assms by (auto simp: wf_lab_def in_grid_def)

lemma cell_index_inj:
  assumes "wf_lab l" "in_grid l p" "in_grid l q"
    and "nat (100 * fst p + snd p) = nat (100 * fst q + snd q)"
  shows "p = q"
proof -
  have eq: "100 * fst p + snd p = 100 * fst q + snd q"
    using assms by (auto simp: in_grid_def)
  have "snd p < 100" "snd q < 100" "0 \<le> snd p" "0 \<le> snd q"
    using assms by (auto simp: in_grid_def wf_lab_def)
  with eq have "fst p = fst q" by linarith
  with eq show ?thesis by (simp add: prod_eq_iff)
qed

lemma set_cell_fields [simp]:
  "rows (set_cell l i j c) = rows l" "cols (set_cell l i j c) = cols l"
  by (simp_all add: set_cell_def)

lemma in_grid_set_cell [simp]: "in_grid (set_cell l i j c) p = in_grid l p"
  by (simp add: in_grid_def)

lemma wf_set_cell [simp]: "wf_lab (set_cell l i j c) = wf_lab l"
  by (simp add: wf_lab_def set_cell_def)

lemma cell_set_cell [simp]:
  assumes "wf_lab l" "in_grid l p" "in_grid l (i, j)"
  shows "cell_at (set_cell l i j c) p = (if p = (i, j) then c else cell_at l p)"
proof -
  have iff: "nat (100 * i + j) = nat (100 * fst p + snd p) \<longleftrightarrow> p = (i, j)"
    using cell_index_inj [OF assms] by auto
  show ?thesis
  proof (cases "p = (i, j)")
    case True
    then show ?thesis
      using cell_index_less [OF assms(1,2)] by (simp add: cell_def set_cell_def)
  next
    case False
    then have "nat (100 * i + j) \<noteq> nat (100 * fst p + snd p)" using iff by blast
    then show ?thesis
      using False by (simp add: cell_def set_cell_def)
  qed
qed

lemma cell_set_cell_twice:
  assumes "wf_lab l" "in_grid l r" "in_grid l p" "in_grid l q"
  shows "cell_at (set_cell (set_cell l (fst q) (snd q) a) (fst p) (snd p) b) r =
    (if r = p then b else if r = q then a else cell_at l r)"
  using assms by simp

section \<open>Scanning\<close>

text \<open>Row-major order, the order the nested loops visit the cells in.\<close>

definition row_major :: "Position \<Rightarrow> Position \<Rightarrow> bool" where
  "row_major p q \<longleftrightarrow> fst p < fst q \<or> fst p = fst q \<and> snd p < snd q"

lemma scan_cases:
  assumes "0 \<le> i" "0 \<le> j"
  shows "(scan l c i j = (- 1, - 1) \<and>
            (\<forall>p. in_grid l p \<and> \<not> row_major p (i, j) \<longrightarrow> cell_at l p \<noteq> c)) \<or>
         (in_grid l (scan l c i j) \<and> cell_at l (scan l c i j) = c \<and>
            (\<forall>p. in_grid l p \<and> \<not> row_major p (i, j) \<and> row_major p (scan l c i j) \<longrightarrow> cell_at l p \<noteq> c))"
  using assms
proof (induction l c i j rule: scan.induct)
  case (1 l c i j)
  consider (hit) "i < rows l" "j < cols l" "cell l i j = c"
    | (next_col) "i < rows l" "j < cols l" "cell l i j \<noteq> c"
    | (next_row) "i < rows l" "cols l \<le> j"
    | (past) "rows l \<le> i"
    by linarith
  then show ?case
  proof cases
    case hit
    then show ?thesis
      using 1 by (subst (1 2 3 4) scan.simps) (auto simp: in_grid_def row_major_def)
  next
    case next_col
    have eq: "scan l c i j = scan l c i (j + 1)"
      using next_col by (subst scan.simps) simp
    have before: "\<not> row_major p (i, j) \<Longrightarrow> p = (i, j) \<or> \<not> row_major p (i, j + 1)" for p
      by (cases p) (auto simp: row_major_def)
    show ?thesis
      using 1(1) [OF next_col] 1 before next_col unfolding eq by fastforce
  next
    case next_row
    have eq: "scan l c i j = scan l c (i + 1) 0"
      using next_row by (subst scan.simps) simp
    have before: "in_grid l p \<Longrightarrow> \<not> row_major p (i, j) \<Longrightarrow> \<not> row_major p (i + 1, 0)" for p
      using next_row by (cases p) (auto simp: row_major_def in_grid_def)
    show ?thesis
      using 1(2) 1 before next_row unfolding eq by fastforce
  next
    case past
    then show ?thesis
      by (subst (1) scan.simps) (auto simp: in_grid_def row_major_def)
  qed
qed

definition occurs :: "Labyrinth \<Rightarrow> char \<Rightarrow> Position set" where
  "occurs l c = {p. in_grid l p \<and> cell_at l p = c}"

text \<open>The first occurrence in row-major order.\<close>

definition first_occ :: "Labyrinth \<Rightarrow> char \<Rightarrow> Position \<Rightarrow> bool" where
  "first_occ l c p \<longleftrightarrow> p \<in> occurs l c \<and> (\<forall>q \<in> occurs l c. \<not> row_major q p)"

lemma scan_origin:
  "scan l c 0 0 = (- 1, - 1) \<and> occurs l c = {} \<or> first_occ l c (scan l c 0 0)"
proof -
  have "in_grid l p \<Longrightarrow> \<not> row_major p (0, 0)" for p
    by (auto simp: in_grid_def row_major_def)
  then show ?thesis
    using scan_cases [of 0 0 l c] unfolding first_occ_def occurs_def by blast
qed

lemma not_in_grid_neg [simp]: "\<not> in_grid l (- 1, j)" "\<not> in_grid l (i, - 1)"
  by (auto simp: in_grid_def)

lemma findPlayer_cases:
  obtains (absent) "findPlayer l c = (- 1, - 1)" "occurs l c = {}"
  | (present) "first_occ l c (findPlayer l c)" "fst (findPlayer l c) \<noteq> - 1"
proof -
  have "in_grid l p \<Longrightarrow> fst p \<noteq> - 1" for p by (auto simp: in_grid_def)
  then show ?thesis
    using scan_origin [of l c] that by (auto simp: findPlayer_def first_occ_def occurs_def)
qed

lemma findFirstEmptySpace_is_findPlayer: "findFirstEmptySpace l = findPlayer l CHR ''.''"
  by (simp add: findFirstEmptySpace_def findPlayer_def)

section \<open>Moving a player\<close>

lemma isEmptySpace_iff: "isEmptySpace l i j \<longleftrightarrow> (i, j) \<in> occurs l CHR ''.''"
  by (auto simp: isEmptySpace_def occurs_def in_grid_def)

lemma valid_player_not_dot: "isValidPlayer c \<Longrightarrow> c \<noteq> CHR ''.''"
  by (auto simp: isValidPlayer_def)

text \<open>What a step in direction \<open>d\<close> adds to the position, \<open>None\<close> for any other word.\<close>

definition dir_offset :: "string \<Rightarrow> (int \<times> int) option" where
  "dir_offset d =
     map_of [(''up'', (- 1, 0)), (''down'', (1, 0)), (''left'', (0, - 1)), (''right'', (0, 1))] d"

text \<open>
  The specification of a move: the cell the player goes to, if the move is possible.
\<close>

definition move_target :: "Labyrinth \<Rightarrow> char \<Rightarrow> string \<Rightarrow> Position \<Rightarrow> bool" where
  "move_target l c d q \<longleftrightarrow>
     (if occurs l c = {} then first_occ l CHR ''.'' q
      else \<exists>p dp. first_occ l c p \<and> dir_offset d = Some dp \<and>
             q = (fst p + fst dp, snd p + snd dp) \<and> q \<in> occurs l CHR ''.'')"

text \<open>A cell the player enters, and the first cell it leaves.\<close>

definition moved :: "Labyrinth \<Rightarrow> char \<Rightarrow> Position \<Rightarrow> Position \<Rightarrow> char" where
  "moved l c q r = (if r = q then c else if first_occ l c r then CHR ''.'' else cell_at l r)"

lemma first_occ_cell: "first_occ l c p \<Longrightarrow> in_grid l p \<and> cell_at l p = c"
  by (simp add: first_occ_def occurs_def)

lemma first_occ_unique: "first_occ l c p \<Longrightarrow> first_occ l c q \<Longrightarrow> p = q"
  unfolding first_occ_def row_major_def by (cases p; cases q) fastforce

lemma movePlayer_absent:
  assumes "occurs l c = {}"
  shows "movePlayer l c d =
    (if occurs l CHR ''.'' = {} then (False, l)
     else (True, set_cell l (fst (findFirstEmptySpace l)) (snd (findFirstEmptySpace l)) c))"
proof -
  have p: "findPlayer l c = (- 1, - 1)"
    using assms by (cases l c rule: findPlayer_cases) (auto simp: first_occ_def)
  show ?thesis
  proof (cases l "CHR ''.''" rule: findPlayer_cases)
    case absent
    then show ?thesis
      using p by (simp add: movePlayer_def findFirstEmptySpace_is_findPlayer)
  next
    case present
    then have "snd (findPlayer l CHR ''.'') \<noteq> - 1"
      by (auto simp: first_occ_def occurs_def in_grid_def)
    with present show ?thesis
      using p by (auto simp: movePlayer_def findFirstEmptySpace_is_findPlayer first_occ_def Let_def)
  qed
qed

lemma movePlayer_present:
  assumes "first_occ l c p"
  shows "movePlayer l c d =
    (case dir_offset d of None \<Rightarrow> (False, l) | Some dp \<Rightarrow> try_move l c p (fst dp) (snd dp))"
proof -
  have p: "findPlayer l c = p"
    using assms by (cases l c rule: findPlayer_cases) (auto simp: first_occ_def intro: first_occ_unique)
  moreover have "fst p \<noteq> - 1"
    using assms by (auto simp: first_occ_def occurs_def in_grid_def)
  ultimately show ?thesis
    by (simp add: movePlayer_def dir_offset_def Let_def)
qed

lemma movePlayer_places:
  assumes "wf_lab l" and True: "occurs l c = {}" and "movePlayer l c d = (ok, l')"
  shows "wf_lab l' \<and> rows l' = rows l \<and> cols l' = cols l \<and>
    (if ok then \<exists>q. move_target l c d q \<and> (\<forall>r. in_grid l r \<longrightarrow> cell_at l' r = moved l c q r)
     else l' = l \<and> (\<forall>q. \<not> move_target l c d q))"
proof (cases l "CHR ''.''" rule: findPlayer_cases)
  case absent
  then show ?thesis
    using assms True
    by (auto simp: movePlayer_absent [OF True] move_target_def first_occ_def)
next
  case present
  let ?e = "findPlayer l CHR ''.''"
  have ne: "occurs l CHR ''.'' \<noteq> {}" and grid: "in_grid l ?e"
    using present by (auto simp: first_occ_def) (simp add: occurs_def)
  have res: "ok" "l' = set_cell l (fst ?e) (snd ?e) c"
    using assms(3) ne by (auto simp: movePlayer_absent [OF True] findFirstEmptySpace_is_findPlayer)
  have "move_target l c d ?e"
    using True present by (simp add: move_target_def)
  moreover have "cell_at l' r = moved l c ?e r" if "in_grid l r" for r
    using that grid True assms(1) by (auto simp: res moved_def first_occ_def)
  ultimately have "\<exists>q. move_target l c d q \<and> (\<forall>r. in_grid l r \<longrightarrow> cell_at l' r = moved l c q r)"
    by blast
  then show ?thesis
    using res assms(1) by simp
qed

lemma movePlayer_steps:
  assumes "wf_lab l" and "isValidPlayer c" and p: "first_occ l c p" and "movePlayer l c d = (ok, l')"
  shows "wf_lab l' \<and> rows l' = rows l \<and> cols l' = cols l \<and>
    (if ok then \<exists>q. move_target l c d q \<and> (\<forall>r. in_grid l r \<longrightarrow> cell_at l' r = moved l c q r)
     else l' = l \<and> (\<forall>q. \<not> move_target l c d q))"
proof -
  have False: "occurs l c \<noteq> {}"
    using p by (auto simp: first_occ_def)
  have grid: "in_grid l p" "in_grid l (fst p, snd p)" and cp: "cell_at l p = c"
    using p by (auto simp: first_occ_def occurs_def)
  show ?thesis
  proof (cases "dir_offset d")
    case None
    then show ?thesis
      using assms p False by (auto simp: movePlayer_present move_target_def)
  next
    case (Some dp)
    let ?q = "(fst p + fst dp, snd p + snd dp)"
    have only: "first_occ l c r \<longleftrightarrow> r = p" for r
      using p first_occ_unique by blast
    have target: "move_target l c d q \<longleftrightarrow> q = ?q \<and> ?q \<in> occurs l CHR ''.''" for q
      using False by (auto simp: move_target_def only Some simp del: split_paired_Ex)
    have res: "(ok, l') = try_move l c p (fst dp) (snd dp)"
      using assms(4) p Some by (simp add: movePlayer_present)
    show ?thesis
    proof (cases "?q \<in> occurs l CHR ''.''")
      case True
      then have gq: "in_grid l ?q" and cq: "cell_at l ?q = CHR ''.''" by (auto simp: occurs_def)
      have nq: "p \<noteq> ?q" using cp cq valid_player_not_dot [OF assms(2)] by metis
      have l': "ok" "l' = set_cell (set_cell l (fst ?q) (snd ?q) c) (fst p) (snd p) CHR ''.''"
        using res True by (auto simp: try_move_def isEmptySpace_iff)
      have "cell_at l' r = moved l c ?q r" if r: "in_grid l r" for r
        unfolding l'(2) moved_def only cell_set_cell_twice [OF assms(1) r grid(1) gq]
        using nq by (simp split: if_split)
      then show ?thesis using l' target True assms(1) by auto
    next
      case False
      then show ?thesis using res target assms(1) by (auto simp: try_move_def isEmptySpace_iff)
    qed
  qed
qed

lemma movePlayer_outcome:
  assumes "wf_lab l" and "isValidPlayer c" and "movePlayer l c d = (ok, l')"
  shows "wf_lab l' \<and> rows l' = rows l \<and> cols l' = cols l \<and>
    (if ok then \<exists>q. move_target l c d q \<and> (\<forall>r. in_grid l r \<longrightarrow> cell_at l' r = moved l c q r)
     else l' = l \<and> (\<forall>q. \<not> move_target l c d q))"
  using movePlayer_places [OF assms(1) _ assms(3)] movePlayer_steps [OF assms(1,2) _ assms(3)]
  by (cases l c rule: findPlayer_cases) blast+

text \<open>
  C40: a move succeeds exactly when the specification names a target cell.  Then the player
  stands there, the cell it left is empty, and no other cell changes; otherwise nothing changes.
\<close>

theorem movePlayer_correct:
  assumes "wf_lab l" and "isValidPlayer c" and "movePlayer l c d = (ok, l')"
  shows "wf_lab l' \<and> rows l' = rows l \<and> cols l' = cols l \<and>
    (if ok then \<exists>q. move_target l c d q \<and> (\<forall>r. in_grid l r \<longrightarrow> cell_at l' r = moved l c q r)
     else l' = l \<and> (\<forall>q. \<not> move_target l c d q))"
  using assms by (rule movePlayer_outcome)

section \<open>Connectivity\<close>

definition open_cells :: "Labyrinth \<Rightarrow> Position set" where
  "open_cells l = {p. isEmptySpaceorUser l (fst p) (snd p)}"

text \<open>Two open cells that share a side.\<close>

definition neighbours :: "Labyrinth \<Rightarrow> (Position \<times> Position) set" where
  "neighbours l =
     {(p, q). p \<in> open_cells l \<and> q \<in> open_cells l \<and>
        \<bar>fst p - fst q\<bar> + \<bar>snd p - snd q\<bar> = 1}"

lemma open_cells_iff:
  "p \<in> open_cells l \<longleftrightarrow> in_grid l p \<and> (cell_at l p = CHR ''.'' \<or> isValidPlayer (cell_at l p))"
  by (auto simp: open_cells_def isEmptySpaceorUser_def in_grid_def)

lemma open_cells_grid: "open_cells l \<subseteq> {0..<rows l} \<times> {0..<cols l}"
  by (auto simp: open_cells_iff in_grid_def)

lemma finite_open_cells [simp]: "finite (open_cells l)"
  by (rule finite_subset [OF open_cells_grid]) simp

lemma card_open_cells:
  assumes "wf_lab l"
  shows "card (open_cells l) \<le> 10000"
proof -
  have "card (open_cells l) \<le> card ({0..<rows l} \<times> {0..<cols l})"
    by (rule card_mono [OF _ open_cells_grid]) simp
  also have "\<dots> = nat (rows l) * nat (cols l)" by simp
  also have "\<dots> \<le> 100 * 100"
    using assms by (intro mult_le_mono) (auto simp: wf_lab_def)
  finally show ?thesis by simp
qed

lemma neighbour_iff:
  "(p, q) \<in> neighbours l \<longleftrightarrow>
     p \<in> open_cells l \<and> q \<in> open_cells l \<and> (fst q - fst p, snd q - snd p) \<in> set directions"
  by (auto simp: neighbours_def directions_def)

lemma sym_neighbours: "sym (neighbours l)"
  by (auto simp: sym_def neighbours_def)

text \<open>
  What a call of \<open>dfs\<close> guarantees: it only adds cells it can reach, among them its own cell,
  and every open neighbour of an added cell is visited at the end.
\<close>

definition dfs_post :: "Labyrinth \<Rightarrow> Position set \<Rightarrow> visited \<Rightarrow> visited \<Rightarrow> bool" where
  "dfs_post l from_cells vis vis' \<longleftrightarrow>
     (\<forall>x. vis x \<longrightarrow> vis' x) \<and>
     (\<forall>x. vis' x \<and> \<not> vis x \<longrightarrow> (\<exists>p \<in> from_cells. (p, x) \<in> (neighbours l)\<^sup>*)) \<and>
     (\<forall>x y. vis' x \<and> \<not> vis x \<and> (x, y) \<in> neighbours l \<longrightarrow> vis' y)"

lemma dfs_postI:
  assumes "\<And>x. vis x \<Longrightarrow> vis' x"
    and "\<And>x. vis' x \<Longrightarrow> \<not> vis x \<Longrightarrow> \<exists>p \<in> S. (p, x) \<in> (neighbours l)\<^sup>*"
    and "\<And>x y. vis' x \<Longrightarrow> \<not> vis x \<Longrightarrow> (x, y) \<in> neighbours l \<Longrightarrow> vis' y"
  shows "dfs_post l S vis vis'"
  unfolding dfs_post_def using assms by blast

lemma dfs_postD:
  assumes "dfs_post l S vis vis'"
  shows dfs_post_mono: "vis x \<Longrightarrow> vis' x"
    and dfs_post_reach: "vis' x \<Longrightarrow> \<not> vis x \<Longrightarrow> \<exists>p \<in> S. (p, x) \<in> (neighbours l)\<^sup>*"
    and dfs_post_closed: "vis' x \<Longrightarrow> \<not> vis x \<Longrightarrow> (x, y) \<in> neighbours l \<Longrightarrow> vis' y"
  using assms unfolding dfs_post_def by blast+

lemma dfs_post_refl: "dfs_post l S vis vis"
  by (rule dfs_postI) auto

lemma dfs_post_trans:
  assumes "dfs_post l S v1 v2" "dfs_post l S v2 v3"
  shows "dfs_post l S v1 v3"
proof (rule dfs_postI)
  fix x assume "v1 x" then show "v3 x"
    using assms by (blast dest: dfs_post_mono)
next
  fix x assume "v3 x" "\<not> v1 x" then show "\<exists>p \<in> S. (p, x) \<in> (neighbours l)\<^sup>*"
    using assms by (cases "v2 x") (blast dest: dfs_post_reach)+
next
  fix x y assume "v3 x" "\<not> v1 x" "(x, y) \<in> neighbours l" then show "v3 y"
    using assms dfs_post_closed dfs_post_mono by (cases "v2 x") metis+
qed

lemma dfs_post_weaken:
  assumes "dfs_post l {q} v1 v2" "p \<in> S" "(p, q) \<in> (neighbours l)\<^sup>*"
  shows "dfs_post l S v1 v2"
proof (rule dfs_postI)
  fix x assume "v2 x" "\<not> v1 x"
  then have "(q, x) \<in> (neighbours l)\<^sup>*" using dfs_post_reach [OF assms(1)] by blast
  then show "\<exists>p \<in> S. (p, x) \<in> (neighbours l)\<^sup>*" using assms(2,3) rtrancl_trans by fast
qed (use assms(1) dfs_post_mono dfs_post_closed in blast)+

definition unvisited :: "Labyrinth \<Rightarrow> visited \<Rightarrow> Position set" where
  "unvisited l vis = {p \<in> open_cells l. \<not> vis p}"

lemma finite_unvisited [simp]: "finite (unvisited l vis)"
  by (simp add: unvisited_def)

lemma unvisited_mono: "\<forall>x. v1 x \<longrightarrow> v2 x \<Longrightarrow> card (unvisited l v2) \<le> card (unvisited l v1)"
  by (rule card_mono) (auto simp: unvisited_def)

lemma unvisited_mark:
  assumes "p \<in> open_cells l" "\<not> vis p"
  shows "card (unvisited l vis) = Suc (card (unvisited l (vis(p := True))))"
proof -
  have "unvisited l vis = insert p (unvisited l (vis(p := True)))"
    using assms by (auto simp: unvisited_def)
  moreover have "p \<notin> unvisited l (vis(p := True))"
    by (simp add: unvisited_def)
  ultimately show ?thesis by simp
qed

text \<open>The loop over the directions, for a recursive call that meets its contract.\<close>

lemma dfs_dirs_post:
  assumes go: "\<And>q vis. q \<in> open_cells l \<Longrightarrow> \<not> vis q \<Longrightarrow> card (unvisited l vis) \<le> k \<Longrightarrow>
      \<exists>vis'. go q vis = Some vis' \<and> vis' q \<and> dfs_post l {q} vis vis'"
    and "p \<in> open_cells l" and "set ds \<subseteq> set directions" and "card (unvisited l vis) \<le> k"
  shows "\<exists>vis'. dfs_dirs go l p ds vis = Some vis' \<and> dfs_post l {p} vis vis' \<and>
    (\<forall>d \<in> set ds. (fst p + fst d, snd p + snd d) \<in> open_cells l \<longrightarrow> vis' (fst p + fst d, snd p + snd d))"
  using assms(3,4)
proof (induction ds arbitrary: vis)
  case Nil
  then show ?case by (simp add: dfs_post_refl)
next
  case (Cons d ds)
  let ?q = "(fst p + fst d, snd p + snd d)"
  obtain v1 where v1: "(if isEmptySpaceorUser l (fst ?q) (snd ?q) \<and> \<not> vis ?q then go ?q vis else Some vis) = Some v1"
      "dfs_post l {p} vis v1" "?q \<in> open_cells l \<longrightarrow> v1 ?q"
  proof (cases "?q \<in> open_cells l \<and> \<not> vis ?q")
    case True
    then obtain v' where v': "go ?q vis = Some v'" "v' ?q" "dfs_post l {?q} vis v'"
      using go Cons.prems by blast
    have "(p, ?q) \<in> neighbours l"
      using True assms(2) Cons.prems by (simp add: neighbour_iff)
    then have "dfs_post l {p} vis v'"
      using dfs_post_weaken [OF v'(3)] by blast
    then show ?thesis using True v' that by (simp add: open_cells_def)
  next
    case False
    then show ?thesis using that dfs_post_refl by (auto simp: open_cells_def)
  qed
  have "card (unvisited l v1) \<le> k"
    using unvisited_mono [of vis v1 l] dfs_post_mono [OF v1(2)] Cons.prems(2) le_trans by blast
  then obtain v2 where v2: "dfs_dirs go l p ds v1 = Some v2" "dfs_post l {p} v1 v2"
    "\<forall>d \<in> set ds. (fst p + fst d, snd p + snd d) \<in> open_cells l \<longrightarrow> v2 (fst p + fst d, snd p + snd d)"
    using Cons.IH [of v1] Cons.prems(1) by auto
  have "?q \<in> open_cells l \<longrightarrow> v2 ?q"
    using v1(3) dfs_post_mono [OF v2(2)] by blast
  moreover have "dfs_dirs go l p (d # ds) vis = Some v2"
    using v1(1) v2(1) by (simp only: dfs_dirs.simps Let_def bind.simps)
  ultimately show ?case
    using v2(3) dfs_post_trans [OF v1(2) v2(2)] by auto
qed

lemma dfs_ok:
  assumes "p \<in> open_cells l" "\<not> vis p" "card (unvisited l vis) \<le> k"
  shows "\<exists>vis'. dfs k l p vis = Some vis' \<and> vis' p \<and> dfs_post l {p} vis vis'"
  using assms
proof (induction k arbitrary: p vis)
  case 0
  then have "p \<in> unvisited l vis" by (simp add: unvisited_def)
  with 0 show ?case by (auto simp: card_eq_0_iff)
next
  case (Suc k)
  let ?v = "vis(p := True)"
  have "card (unvisited l ?v) \<le> k"
    using unvisited_mark [of p l vis] Suc.prems(1,2) Suc.prems(3) by simp
  then obtain v' where v': "dfs_dirs (dfs k l) l p directions ?v = Some v'" "dfs_post l {p} ?v v'"
    "\<forall>d \<in> set directions. (fst p + fst d, snd p + snd d) \<in> open_cells l \<longrightarrow> v' (fst p + fst d, snd p + snd d)"
    using dfs_dirs_post [where go = "dfs k l" and ds = directions and vis = ?v, OF Suc.IH Suc.prems(1)] by auto
  have closed: "v' y" if "(p, y) \<in> neighbours l" for y
    using that v'(3) by (force simp: neighbour_iff)
  have "v' p" using dfs_post_mono [OF v'(2), of p] by simp
  moreover have "dfs_post l {p} vis v'"
  proof (rule dfs_postI)
    fix x assume "vis x" then show "v' x" using dfs_post_mono [OF v'(2), of x] by simp
  next
    fix x assume "v' x" "\<not> vis x"
    then show "\<exists>p \<in> {p}. (p, x) \<in> (neighbours l)\<^sup>*"
      using dfs_post_reach [OF v'(2), of x] by (cases "x = p") auto
  next
    fix x y assume "v' x" "\<not> vis x" "(x, y) \<in> neighbours l"
    then show "v' y" using dfs_post_closed [OF v'(2), of x y] closed by (cases "x = p") auto
  qed
  ultimately show ?case using v'(1) by simp
qed

text \<open>From an unmarked array \<open>dfs\<close> marks the cells that can be reached, and no other.\<close>

lemma dfs_reaches:
  assumes "wf_lab l" "p \<in> open_cells l" "10000 \<le> fuel"
  shows "\<exists>vis. dfs fuel l p (\<lambda>_. False) = Some vis \<and> (\<forall>x. vis x \<longleftrightarrow> (p, x) \<in> (neighbours l)\<^sup>*)"
proof -
  have "card (unvisited l (\<lambda>_. False)) \<le> fuel"
    using card_open_cells [OF assms(1)] assms(3) by (simp add: unvisited_def)
  then obtain vis where vis: "dfs fuel l p (\<lambda>_. False) = Some vis" "vis p"
      "dfs_post l {p} (\<lambda>_. False) vis"
    using dfs_ok [of p l "\<lambda>_. False" fuel] assms(2) by auto
  have "vis x" if "(p, x) \<in> (neighbours l)\<^sup>*" for x
    using that by induction (use vis dfs_post_closed [OF vis(3)] in auto)
  moreover have "(p, x) \<in> (neighbours l)\<^sup>*" if "vis x" for x
    using dfs_post_reach [OF vis(3)] that by simp
  ultimately show ?thesis using vis(1) by blast
qed

lemma all_visited_iff: "all_visited l vis \<longleftrightarrow> (\<forall>p \<in> open_cells l. vis p)"
proof
  assume a: "all_visited l vis"
  show "\<forall>p \<in> open_cells l. vis p"
  proof
    fix p assume p: "p \<in> open_cells l"
    then have "nat (fst p) \<in> set [0..<nat (rows l)]" "nat (snd p) \<in> set [0..<nat (cols l)]"
      by (auto simp: open_cells_iff in_grid_def)
    then have "(cell l (int (nat (fst p))) (int (nat (snd p))) = CHR ''.'' \<or>
        isValidPlayer (cell l (int (nat (fst p))) (int (nat (snd p))))) \<longrightarrow>
        vis (int (nat (fst p)), int (nat (snd p)))"
      using a unfolding all_visited_def by blast
    then show "vis p" using p by (auto simp: open_cells_iff in_grid_def)
  qed
next
  assume v: "\<forall>p \<in> open_cells l. vis p"
  show "all_visited l vis"
    unfolding all_visited_def
  proof (intro ballI impI)
    fix i j
    assume "i \<in> set [0..<nat (rows l)]" "j \<in> set [0..<nat (cols l)]"
      "cell l (int i) (int j) = CHR ''.'' \<or> isValidPlayer (cell l (int i) (int j))"
    then have "(int i, int j) \<in> open_cells l" by (auto simp: open_cells_iff in_grid_def)
    then show "vis (int i, int j)" using v by blast
  qed
qed

text \<open>Every two open cells are joined by a path of open cells.\<close>

definition connected_map :: "Labyrinth \<Rightarrow> bool" where
  "connected_map l \<longleftrightarrow> (\<forall>p \<in> open_cells l. \<forall>q \<in> open_cells l. (p, q) \<in> (neighbours l)\<^sup>*)"

lemma connected_from:
  assumes "p \<in> open_cells l"
  shows "connected_map l \<longleftrightarrow> (\<forall>q \<in> open_cells l. (p, q) \<in> (neighbours l)\<^sup>*)"
  unfolding connected_map_def
  using assms sym_rtrancl [OF sym_neighbours, of l] by (meson rtrancl_trans symE)

lemma isConnected_answer:
  assumes "wf_lab l" and "10000 \<le> fuel"
  shows "isConnected fuel l = Some (occurs l CHR ''.'' = {} \<or> connected_map l)"
proof (cases l "CHR ''.''" rule: findPlayer_cases)
  case absent
  then show ?thesis
    by (simp add: isConnected_def findFirstEmptySpace_is_findPlayer)
next
  case present
  let ?s = "findPlayer l CHR ''.''"
  have s: "?s \<in> open_cells l" and ne: "occurs l CHR ''.'' \<noteq> {}"
    using present by (auto simp: first_occ_def) (simp add: occurs_def open_cells_iff)
  obtain vis where vis: "dfs fuel l ?s (\<lambda>_. False) = Some vis"
      "\<And>x. vis x \<longleftrightarrow> (?s, x) \<in> (neighbours l)\<^sup>*"
    using dfs_reaches [OF assms(1) s assms(2)] by blast
  have "all_visited l vis \<longleftrightarrow> connected_map l"
    by (simp only: all_visited_iff vis(2) connected_from [OF s])
  then show ?thesis
    using ne present vis(1) by (simp add: isConnected_def findFirstEmptySpace_is_findPlayer Let_def)
qed

text \<open>
  C18: the depth-first search always returns, at a depth of at most one call per cell, and
  \<open>isConnected\<close> answers whether every two open cells are joined by a path; a map without
  an empty cell counts as connected.
\<close>

theorem isConnected_correct:
  assumes "wf_lab l" and "10000 \<le> fuel"
  shows "isConnected fuel l = Some (occurs l CHR ''.'' = {} \<or> connected_map l)"
  using assms by (rule isConnected_answer)

lemma move_keeps_open:
  assumes "wf_lab l" "isValidPlayer c" "movePlayer l c d = (ok, l')"
  shows "open_cells l' = open_cells l"
proof (cases ok)
  case True
  obtain q where q: "move_target l c d q" "\<And>r. in_grid l r \<Longrightarrow> cell_at l' r = moved l c q r"
      and f: "rows l' = rows l" "cols l' = cols l"
    using movePlayer_outcome [OF assms] True by auto
  have grid: "in_grid l' r = in_grid l r" for r by (simp add: in_grid_def f)
  have "cell_at l q = CHR ''.''"
    using q(1) by (auto simp: move_target_def first_occ_def occurs_def split: if_splits)
  then have "r \<in> open_cells l' \<longleftrightarrow> r \<in> open_cells l" for r
    using q(2) [of r] assms(2) first_occ_cell [of l c r]
    by (cases "r = q"; cases "first_occ l c r") (auto simp: open_cells_iff grid moved_def)
  then show ?thesis by blast
next
  case False
  then show ?thesis using movePlayer_outcome [OF assms] by simp
qed


lemma connected_map_cong:
  "open_cells l' = open_cells l \<Longrightarrow> connected_map l' = connected_map l"
  by (simp add: connected_map_def neighbours_def)

text \<open>
  A move on a map that passed the connectivity check gives a map that passes it again, with
  the same open cells.
\<close>

lemma movePlayer_keeps_connected:
  assumes "wf_lab l" "isValidPlayer c" "10000 \<le> fuel"
    and "movePlayer l c d = (ok, l')" and "isConnected fuel l = Some True"
  shows "isConnected fuel l' = Some True \<and> open_cells l' = open_cells l"
proof -
  have opn: "open_cells l' = open_cells l" and wf: "wf_lab l'"
    using move_keeps_open [OF assms(1,2,4)] movePlayer_outcome [OF assms(1,2,4)] by auto
  have sub: "occurs l CHR ''.'' = {} \<Longrightarrow> occurs l' CHR ''.'' = {} \<or> connected_map l'"
  proof (cases "occurs l c = {}")
    case True
    assume "occurs l CHR ''.'' = {}"
    then have "l' = l" using assms(4) by (simp add: movePlayer_absent [OF True])
    then show "occurs l CHR ''.'' = {} \<Longrightarrow> ?thesis" by simp
  next
    case False
    assume e: "occurs l CHR ''.'' = {}"
    then have "\<not> move_target l c d q" for q using False by (auto simp: move_target_def)
    then have "l' = l" using movePlayer_outcome [OF assms(1,2,4)] by (cases ok) auto
    then show "occurs l CHR ''.'' = {} \<Longrightarrow> ?thesis" by simp
  qed
  have "occurs l CHR ''.'' = {} \<or> connected_map l"
    using assms(5) isConnected_answer [OF assms(1,3)] by simp
  then have "occurs l' CHR ''.'' = {} \<or> connected_map l'"
    using sub connected_map_cong [OF opn] by blast
  then show ?thesis
    using isConnected_answer [OF wf assms(3)] opn by simp
qed

section \<open>Loading and saving\<close>

lemma line_prefix_line:
  assumes "NL \<notin> set s" "length s < k"
  shows "line_prefix k (s @ NL # t) = s @ [NL]"
  using assms
proof (induction s arbitrary: k)
  case Nil
  then show ?case by (cases k) auto
next
  case (Cons c s)
  then show ?case by (cases k) auto
qed

lemma fgets_line:
  assumes "NL \<notin> set s" "length s \<le> 100"
  shows "fgets (Suc (Suc MAX_COLS)) (s @ NL # t) = Some (s @ [NL], t)"
  using assms line_prefix_line [of s 101 t] by (simp add: fgets_def MAX_COLS_def)

lemma chomp_line:
  assumes "NUL \<notin> set s"
  shows "chomp (s @ [NL]) = s"
proof -
  have "takeWhile (\<lambda>c. c \<noteq> NUL) (s @ [NL]) = s @ [NL]"
    using assms by (subst takeWhile_append2) (auto simp: NUL_def NL_def)
  then show ?thesis by (simp add: chomp_def)
qed

text \<open>The text of a file with the given lines.\<close>

definition file_of :: "char list list \<Rightarrow> char list" where
  "file_of ls = concat (map (\<lambda>s. s @ [NL]) ls)"

definition plain_line :: "char list \<Rightarrow> bool" where
  "plain_line s \<longleftrightarrow> length s \<le> 100 \<and> NL \<notin> set s \<and> NUL \<notin> set s"

lemma load_loop_Nil: "load_loop [] r mc m = (r, mc, m)"
  by (subst load_loop.simps) (simp add: fgets_def)

lemma load_loop_line:
  assumes "plain_line s" "r < 100"
  shows "load_loop (s @ NL # t) r mc m = load_loop t (Suc r) (max mc (length s)) (put_row r s m)"
  using assms by (subst load_loop.simps) (auto simp: plain_line_def fgets_line chomp_line MAX_ROWS_def max_def Let_def)

lemma load_loop_full:
  assumes "100 \<le> r"
  shows "load_loop t r mc m = (r, mc, m)"
  using assms by (subst load_loop.simps) (auto simp: MAX_ROWS_def split: option.split)

lemma length_put_row:
  assumes "r < 100" "length s \<le> 100" "length m = 10008"
  shows "length (put_row r s m) = 10008"
  using assms by (simp add: put_row_def)

lemma nth_put_row:
  assumes "r < 100" "length s \<le> 100" "length m = 10008" "k < 100 * r + length s"
  shows "put_row r s m ! k = (if k < 100 * r then m ! k else s ! (k - 100 * r))"
  using assms by (auto simp: put_row_def nth_append)

fun put_rows :: "nat \<Rightarrow> char list list \<Rightarrow> char list \<Rightarrow> char list" where
  "put_rows r [] m = m"
| "put_rows r (s # ls) m = put_rows (Suc r) ls (put_row r s m)"

lemma load_loop_file:
  assumes "\<forall>s \<in> set ls. plain_line s" "r \<le> 100"
  shows "load_loop (file_of ls) r mc m =
    (r + length (take (100 - r) ls),
     fold max (map length (take (100 - r) ls)) mc,
     put_rows r (take (100 - r) ls) m)"
  using assms
proof (induction ls arbitrary: r mc m)
  case Nil
  then show ?case by (simp add: file_of_def load_loop_Nil)
next
  case (Cons s ls)
  show ?case
  proof (cases "r < 100")
    case True
    then have k: "100 - r = Suc (99 - r)" by simp
    show ?thesis
      using Cons.IH [of "Suc r" "max mc (length s)" "put_row r s m"] Cons.prems True load_loop_line [of s r]
      by (simp add: file_of_def k max.commute)
  next
    case False
    then show ?thesis using Cons.prems by (simp add: load_loop_full)
  qed
qed

lemma put_rows_nth:
  assumes "\<forall>s \<in> set ls. length s \<le> 100" "r + length ls \<le> 100" "length m = 10008"
  shows "length (put_rows r ls m) = 10008 \<and>
    (\<forall>k < 100 * r. put_rows r ls m ! k = m ! k) \<and>
    (\<forall>i < length ls. \<forall>j < length (ls ! i). put_rows r ls m ! (100 * (r + i) + j) = ls ! i ! j)"
  using assms
proof (induction ls arbitrary: r m)
  case Nil
  then show ?case by simp
next
  case (Cons s ls)
  then have r: "r < 100" "length s \<le> 100" by auto
  note IH = Cons.IH [of "Suc r" "put_row r s m"]
  have IH': "length (put_rows (Suc r) ls (put_row r s m)) = 10008"
    "k < 100 * Suc r \<Longrightarrow> put_rows (Suc r) ls (put_row r s m) ! k = put_row r s m ! k"
    "i < length ls \<Longrightarrow> j < length (ls ! i) \<Longrightarrow>
       put_rows (Suc r) ls (put_row r s m) ! (100 * (Suc r + i) + j) = ls ! i ! j" for k i j
    using IH Cons.prems length_put_row [OF r] by auto
  have "put_rows r (s # ls) m ! (100 * (r + i) + j) = (s # ls) ! i ! j"
    if ij: "i < length (s # ls)" "j < length ((s # ls) ! i)" for i j
  proof (cases i)
    case 0
    then show ?thesis
      using ij r Cons.prems(3) IH'(2) [of "100 * r + j"] nth_put_row [OF r, of m "100 * r + j"] by simp
  next
    case (Suc i')
    then show ?thesis using ij IH'(3) [of i' j] by simp
  qed
  moreover have "put_rows r (s # ls) m ! k = m ! k" if "k < 100 * r" for k
    using that r Cons.prems(3) IH'(2) [of k] nth_put_row [OF r, of m k] by simp
  ultimately show ?case using IH'(1) by simp
qed

lemma fold_max_Max: "xs \<noteq> [] \<Longrightarrow> fold max xs (0 :: nat) = Max (set xs)"
  using Max.set_eq_fold [of 0 xs] by simp

text \<open>The lines the loader keeps: a map of more than \<open>MAX_ROWS\<close> lines is cut, not refused.\<close>

abbreviation kept_lines :: "char list list \<Rightarrow> char list list" where
  "kept_lines ls \<equiv> take 100 ls"

lemma loadMap_kept_lines:
  assumes "\<forall>s \<in> set ls. plain_line s" "length (cells l0) = 10008" "\<exists>s \<in> set (kept_lines ls). s \<noteq> []"
  shows "\<exists>l. loadMap l0 (Some (file_of ls)) = Some l \<and> wf_lab l \<and>
    rows l = int (length (kept_lines ls)) \<and>
    cols l = int (Max (set (map length (kept_lines ls)))) \<and>
    (\<forall>i < length (kept_lines ls). \<forall>j < length (ls ! i). cell l (int i) (int j) = ls ! i ! j)"
proof -
  let ?k = "kept_lines ls" and ?mc = "Max (set (map length (kept_lines ls)))"
  let ?m = "put_rows 0 ?k (cells l0)"
  have ne: "?k \<noteq> []" using assms(3) by auto
  have short: "\<forall>s \<in> set ?k. length s \<le> 100"
    using assms(1) set_take_subset [of 100 ls] by (auto simp: plain_line_def)
  have load: "load_loop (file_of ls) 0 0 (cells l0) = (length ?k, ?mc, ?m)"
    using load_loop_file [OF assms(1), of 0] ne by (simp add: fold_max_Max del: length_take)
  have "?mc \<in> set (map length ?k)" using ne by (intro Max_in) auto
  then have "?mc \<le> 100" using short by auto
  obtain s where s: "s \<in> set ?k" "s \<noteq> []" using assms(3) by blast
  then have "length s \<le> ?mc" by (intro Max_ge) auto
  then have "0 < ?mc" using s(2) by (cases s) auto
  have rows: "length ?m = 10008"
    "\<forall>i < length ?k. \<forall>j < length (?k ! i). ?m ! (100 * (0 + i) + j) = ?k ! i ! j"
    using put_rows_nth [OF short _ assms(2), of 0] by simp_all
  let ?l = "\<lparr>cells = ?m, rows = int (length ?k), cols = int ?mc\<rparr>"
  have "loadMap l0 (Some (file_of ls)) = Some ?l"
    using \<open>0 < ?mc\<close> \<open>?mc \<le> 100\<close> ne by (simp add: loadMap_def load MAX_ROWS_def MAX_COLS_def not_less del: set_map)
  moreover have "wf_lab ?l"
    using \<open>0 < ?mc\<close> \<open>?mc \<le> 100\<close> ne rows(1) by (simp add: wf_lab_def del: set_map)
  moreover have "cell ?l (int i) (int j) = ls ! i ! j" if "i < length ?k" "j < length (ls ! i)" for i j
    using rows(2) that by (simp add: cell_def nat_add_distrib nat_mult_distrib)
  ultimately show ?thesis by (intro exI [of _ ?l]) simp
qed

text \<open>
  For a text file whose lines are at most 100 characters long and not all empty, the loader
  returns the first 100 lines as the rows of the map, with their number and greatest length.
\<close>

lemma loadMap_lines:
  assumes "\<forall>s \<in> set ls. plain_line s" "length (cells l0) = 10008" "\<exists>s \<in> set (kept_lines ls). s \<noteq> []"
  shows "\<exists>l. loadMap l0 (Some (file_of ls)) = Some l \<and> wf_lab l \<and>
    rows l = int (length (kept_lines ls)) \<and>
    cols l = int (Max (set (map length (kept_lines ls)))) \<and>
    (\<forall>i < length (kept_lines ls). \<forall>j < length (ls ! i). cell l (int i) (int j) = ls ! i ! j)"
  using assms by (rule loadMap_kept_lines)

definition grid_rows :: "Labyrinth \<Rightarrow> char list list" where
  "grid_rows l = map (\<lambda>i. map (\<lambda>j. cell l (int i) (int j)) [0..<nat (cols l)]) [0..<nat (rows l)]"

lemma saveMap_file_of: "saveMap l = file_of (grid_rows l)"
  by (simp add: saveMap_def file_of_def grid_rows_def comp_def)

definition plain_grid :: "Labyrinth \<Rightarrow> bool" where
  "plain_grid l \<longleftrightarrow> (\<forall>s \<in> set (grid_rows l). plain_line s)"

lemma length_grid_row: "s \<in> set (grid_rows l) \<Longrightarrow> length s = nat (cols l)"
  by (auto simp: grid_rows_def)

text \<open>
  C37: a saved map loads again as the same map, provided its cells are neither a newline nor NUL
  (they are not when every line of the file had the same length).
\<close>

theorem save_load_roundtrip:
  assumes "wf_lab l" "plain_grid l" "length (cells l0) = 10008"
  shows "\<exists>l'. loadMap l0 (Some (saveMap l)) = Some l' \<and> rows l' = rows l \<and> cols l' = cols l \<and>
    (\<forall>p. in_grid l p \<longrightarrow> cell_at l' p = cell_at l p) \<and> saveMap l' = saveMap l"
proof -
  let ?ls = "grid_rows l"
  have dims: "0 < nat (cols l)" "0 < nat (rows l)" "length ?ls = nat (rows l)" "nat (rows l) \<le> 100"
    using assms(1) by (auto simp: wf_lab_def grid_rows_def)
  then have all: "kept_lines ?ls = ?ls" and ne: "?ls \<noteq> []" by auto
  have "set (map length ?ls) = {nat (cols l)}"
    using length_grid_row [of _ l] ne by (auto simp: image_iff) (metis list.set_sel(1))
  then have len: "Max (set (map length ?ls)) = nat (cols l)"
    by simp
  have "\<exists>s \<in> set ?ls. s \<noteq> []"
    using dims length_grid_row [of "hd ?ls" l] ne by (intro bexI [of _ "hd ?ls"]) auto
  then obtain l' where l': "loadMap l0 (Some (file_of ?ls)) = Some l'"
      "rows l' = int (length ?ls)" "cols l' = int (nat (cols l))"
      "\<forall>i < length ?ls. \<forall>j < length (?ls ! i). cell l' (int i) (int j) = ?ls ! i ! j"
    using loadMap_kept_lines [of ?ls l0] assms(2,3) unfolding all len plain_grid_def by blast
  have same: "cell l' (int i) (int j) = cell l (int i) (int j)" if "i < nat (rows l)" "j < nat (cols l)" for i j
    using l'(4) that dims(3) by (simp add: grid_rows_def)
  have "cell_at l' p = cell_at l p" if "in_grid l p" for p
    using same [of "nat (fst p)" "nat (snd p)"] that by (simp add: in_grid_def)
  moreover have "rows l' = rows l" "cols l' = cols l"
    using l' dims by auto
  moreover from this have "saveMap l' = saveMap l"
    unfolding saveMap_file_of grid_rows_def by (intro arg_cong [where f = file_of]) (simp add: same)
  ultimately show ?thesis
    using l'(1) unfolding saveMap_file_of by blast
qed

section \<open>The whole program\<close>

lemma line_prefix_length: "length (line_prefix k s) \<le> k"
  by (induction k s rule: line_prefix.induct) auto

lemma chomp_length: "length (chomp buf) \<le> length buf"
  using length_takeWhile_le [of "\<lambda>c. c \<noteq> NUL" buf] by (auto simp: chomp_def Let_def)

text \<open>
  Any file: a line of 101 characters or more spills over the end of its row, but never over the
  end of the struct.
\<close>

lemma load_loop_length:
  assumes "r \<le> 100" "length m = 10008"
  shows "length (snd (snd (load_loop s r mc m))) = 10008"
  using assms
proof (induction s r mc m rule: load_loop.induct)
  case (1 s r mc m)
  show ?case
  proof (cases "fgets (MAX_COLS + 2) s")
    case None
    then show ?thesis using 1 by (subst load_loop.simps) simp
  next
    case (Some bs)
    obtain buf s' where bs: "bs = (buf, s')" by (cases bs)
    have "length buf \<le> 101"
      using Some bs line_prefix_length [of 101 s]
      by (auto simp: fgets_def MAX_COLS_def Let_def split: if_splits)
    then have "length (chomp buf) \<le> 101" using chomp_length le_trans by blast
    then have "r < 100 \<Longrightarrow> length (put_row r (chomp buf) m) = 10008"
      using 1 by (simp add: put_row_def)
    then show ?thesis
      using 1 Some bs by (subst load_loop.simps) (auto simp: Let_def MAX_ROWS_def)
  qed
qed

lemma loadMap_wf:
  assumes "loadMap l0 contents = Some l" "length (cells l0) = 10008"
  shows "wf_lab l"
proof -
  obtain s r mc m where s: "contents = Some s" "load_loop s 0 0 (cells l0) = (r, mc, m)"
    using assms(1) by (auto simp: loadMap_def split: option.splits prod.splits)
  then have "length m = 10008"
    using load_loop_length [of 0 "cells l0" s 0] assms(2) by simp
  then show ?thesis
    using assms(1) s by (auto simp: loadMap_def wf_lab_def MAX_ROWS_def MAX_COLS_def split: if_splits)
qed

text \<open>What a successful run has done to the file it was given.\<close>

definition saved_game :: "nat \<Rightarrow> (string \<rightharpoonup> char list) \<Rightarrow> char list \<Rightarrow> options \<Rightarrow> (string \<rightharpoonup> char list) \<Rightarrow> bool" where
  "saved_game fuel fs hb opts fs' \<longleftrightarrow>
     (\<exists>name l l' c. filename opts = Some name \<and> playerId opts = Some [c] \<and> isValidPlayer c \<and>
        loadMap \<lparr>cells = hb, rows = 0, cols = 0\<rparr> (fs name) = Some l \<and>
        (occurs l CHR ''.'' = {} \<or> connected_map l) \<and>
        (case moveDirection opts of None \<Rightarrow> l' = l | Some d \<Rightarrow> movePlayer l c d = (True, l')) \<and>
        fs' = fs(name \<mapsto> saveMap l'))"

lemma valid_player_arg_Some:
  "valid_player_arg a = Some c \<Longrightarrow> a = Some [c] \<and> isValidPlayer c"
  by (auto simp: valid_player_arg_def split: option.splits list.splits if_splits)

lemma play_game_cases:
  assumes "length hb = 10008" "10000 \<le> fuel" "filename opts = Some name"
  shows "play_game fuel fs writable hb name opts = Some (1, fs) \<or>
    (\<exists>fs'. play_game fuel fs writable hb name opts = Some (0, fs') \<and> saved_game fuel fs hb opts fs')"
proof (cases "loadMap \<lparr>cells = hb, rows = 0, cols = 0\<rparr> (fs name)")
  case None
  then show ?thesis by (simp add: play_game_def)
next
  case (Some l)
  have wf: "wf_lab l" using loadMap_wf [OF Some] assms(1) by simp
  show ?thesis
  proof (cases "valid_player_arg (playerId opts)")
    case None
    then show ?thesis using Some by (simp add: play_game_def)
  next
    case c: (Some c)
    note answer = isConnected_answer [OF wf assms(2)]
    show ?thesis
    proof (cases "occurs l CHR ''.'' = {} \<or> connected_map l")
      case True
      let ?mv = "case moveDirection opts of None \<Rightarrow> (True, l) | Some d \<Rightarrow> movePlayer l c d"
      show ?thesis
      proof (cases "fst ?mv \<and> writable name")
        case moves: True
        then have "play_game fuel fs writable hb name opts = Some (0, fs(name \<mapsto> saveMap (snd ?mv)))"
          using Some c True answer by (cases ?mv) (simp add: play_game_def)
        moreover have "saved_game fuel fs hb opts (fs(name \<mapsto> saveMap (snd ?mv)))"
          unfolding saved_game_def
          using Some c True moves assms(3) valid_player_arg_Some [OF c]
          by (intro exI [of _ name] exI [of _ l] exI [of _ "snd ?mv"] exI [of _ c])
            (cases "moveDirection opts"; auto simp: prod_eq_iff)
        ultimately show ?thesis by blast
      next
        case False
        then show ?thesis
          using Some c True answer by (cases ?mv) (auto simp: play_game_def split: bool.split)
      qed
    next
      case False
      then show ?thesis using Some c answer by (simp add: play_game_def)
    qed
  qed
qed


section \<open>A small map\<close>

text \<open>
  Two rows of three cells: a wall in the corner, two players and three empty cells; the rest of
  the struct is filled with NUL.
\<close>

definition demo_lines :: "char list list" where
  "demo_lines = [''#0.'', ''..1'']"

definition demo_map :: Labyrinth where
  "demo_map = \<lparr>cells = put_rows 0 demo_lines (replicate 10008 NUL), rows = 2, cols = 3\<rparr>"

lemma demo_length: "length (cells demo_map) = 10008"
  by (simp add: demo_map_def demo_lines_def put_row_def)

lemma demo_wf: "wf_lab demo_map"
  using demo_length by (simp add: wf_lab_def) (simp add: demo_map_def)

lemma demo_cells:
  "map (\<lambda>i. map (\<lambda>j. cell demo_map i j) [0, 1, 2]) [0, 1] = demo_lines"
  by (simp add: demo_map_def demo_lines_def put_row_def cell_def nth_append)

lemma demo_cell [simp]:
  "cell demo_map 0 0 = CHR ''#''" "cell demo_map 0 1 = CHR ''0''" "cell demo_map 0 2 = CHR ''.''"
  "cell demo_map 1 0 = CHR ''.''" "cell demo_map 1 1 = CHR ''.''" "cell demo_map 1 2 = CHR ''1''"
  using demo_cells by (simp_all add: demo_lines_def)

lemma demo_dims [simp]: "rows demo_map = 2" "cols demo_map = 3"
  by (simp_all add: demo_map_def)

lemma demo_findPlayer: "findPlayer demo_map CHR ''0'' = (0, 1)"
  by (simp add: findPlayer_def scan.simps)

lemma demo_move:
  "movePlayer demo_map CHR ''0'' ''down'' =
     (True, set_cell (set_cell demo_map 1 1 CHR ''0'') 0 1 CHR ''.'')"
  by (simp add: movePlayer_def demo_findPlayer try_move_def isEmptySpace_def)

lemma demo_player: "isValidPlayer CHR ''0''"
  by (simp add: isValidPlayer_def)

theorem movePlayer_correct_witness:
  "\<exists>q. move_target demo_map CHR ''0'' ''down'' q \<and>
     (\<forall>r. in_grid demo_map r \<longrightarrow>
        cell_at (set_cell (set_cell demo_map 1 1 CHR ''0'') 0 1 CHR ''.'') r = moved demo_map CHR ''0'' q r)"
  using movePlayer_correct [OF demo_wf demo_player demo_move] by simp

lemma demo_connected: "isConnected (Suc (Suc (Suc (Suc (Suc k))))) demo_map = Some True"
  by (simp add: isConnected_def findFirstEmptySpace_def scan.simps directions_def isEmptySpaceorUser_def
      isValidPlayer_def all_visited_def numeral_2_eq_2 numeral_3_eq_3 atLeast0LessThan Let_def)

lemma demo_isConnected: "isConnected 10000 demo_map = Some True"
  using demo_connected [of 9995] by simp

theorem isConnected_correct_witness: "occurs demo_map CHR ''.'' = {} \<or> connected_map demo_map"
  using isConnected_correct [OF demo_wf, of 10000] demo_isConnected by simp

definition demo_heap_bytes :: "char list" where
  "demo_heap_bytes = replicate 10008 NUL"

lemma demo_plain: "\<forall>s \<in> set demo_lines. plain_line s"
  by (simp add: demo_lines_def plain_line_def NL_def NUL_def)

lemma demo_plain_grid: "plain_grid demo_map"
  using demo_plain
  by (simp add: plain_grid_def grid_rows_def upt_rec numeral_2_eq_2 numeral_3_eq_3 plain_line_def NL_def NUL_def)

theorem save_load_roundtrip_witness:
  "\<exists>l'. loadMap demo_map (Some (saveMap demo_map)) = Some l' \<and> saveMap l' = saveMap demo_map"
  using save_load_roundtrip [OF demo_wf demo_plain_grid demo_length] by blast


end
