(* ===== verification/SbiBase.thy ===== *)
theory SbiBase
  imports Prelude
begin

text \<open>
  The return codes of the OpenSBI library (\<open>include/sbi/sbi_error.h\<close>).  Return codes are
  C \<open>int\<close>s: 0 or a positive value is a success, a negative value an error.
\<close>

definition SBI_OK :: int where "SBI_OK = 0"
definition SBI_EFAIL :: int where "SBI_EFAIL = -1"
definition SBI_ENOTSUPP :: int where "SBI_ENOTSUPP = -2"
definition SBI_EINVAL :: int where "SBI_EINVAL = -3"
definition SBI_EDENIED :: int where "SBI_EDENIED = -4"
definition SBI_EINVALID_ADDR :: int where "SBI_EINVALID_ADDR = -5"
definition SBI_EALREADY :: int where "SBI_EALREADY = -6"
definition SBI_EALREADY_STARTED :: int where "SBI_EALREADY_STARTED = -7"
definition SBI_EALREADY_STOPPED :: int where "SBI_EALREADY_STOPPED = -8"
definition SBI_ENO_SHMEM :: int where "SBI_ENO_SHMEM = -9"
definition SBI_EINVALID_STATE :: int where "SBI_EINVALID_STATE = -10"
definition SBI_EBAD_RANGE :: int where "SBI_EBAD_RANGE = -11"
definition SBI_ETIMEDOUT :: int where "SBI_ETIMEDOUT = -12"
definition SBI_EIO :: int where "SBI_EIO = -13"
definition SBI_EDENIED_LOCKED :: int where "SBI_EDENIED_LOCKED = -14"
definition SBI_ENODEV :: int where "SBI_ENODEV = -1000"
definition SBI_ENOSYS :: int where "SBI_ENOSYS = -1001"
definition SBI_EILL :: int where "SBI_EILL = -1002"
definition SBI_ENOSPC :: int where "SBI_ENOSPC = -1003"
definition SBI_ENOMEM :: int where "SBI_ENOMEM = -1004"
definition SBI_EUNKNOWN :: int where "SBI_EUNKNOWN = -1005"
definition SBI_ENOENT :: int where "SBI_ENOENT = -1006"

lemmas sbi_errors [code_consts] =
  SBI_OK_def SBI_EFAIL_def SBI_ENOTSUPP_def SBI_EINVAL_def SBI_EDENIED_def SBI_EINVALID_ADDR_def
  SBI_EALREADY_def SBI_EALREADY_STARTED_def SBI_EALREADY_STOPPED_def SBI_ENO_SHMEM_def
  SBI_EINVALID_STATE_def SBI_EBAD_RANGE_def SBI_ETIMEDOUT_def SBI_EIO_def SBI_EDENIED_LOCKED_def
  SBI_ENODEV_def SBI_ENOSYS_def SBI_EILL_def SBI_ENOSPC_def SBI_ENOMEM_def SBI_EUNKNOWN_def
  SBI_ENOENT_def

end
