(* ===== verification/SbiFifo.thy ===== *)
theory SbiFifo
  imports SbiBase
begin

text \<open>
  The bounded queue of \<open>lib/sbi/sbi_fifo.c\<close>: fixed-size entries in a byte buffer used as a
  ring.  Every operation takes the lock \<open>qlock\<close> around its whole body, so it is one atomic
  step here.  A pointer argument is an option (\<open>NULL\<close> is \<open>None\<close>), and an operation
  whose accesses leave a buffer is \<open>None\<close>.  The operations are shown to implement a bounded
  list, first in first out, and the list interface is the locale \<open>bounded_queue\<close>.
\<close>

section \<open>State and operations\<close>

record sbi_fifo =
  queue :: bytes
  entry_size :: u16
  num_entries :: u16
  avail :: u16
  tail :: u16

definition SBI_FIFO_SKIP :: int where "SBI_FIFO_SKIP = 0"
definition SBI_FIFO_UPDATED :: int where "SBI_FIFO_UPDATED = 1"
definition SBI_FIFO_UNCHANGED :: int where "SBI_FIFO_UNCHANGED = 2"

text \<open>\<open>sbi_memset (queue, 0, size)\<close> writes the first \<open>size\<close> bytes of the memory block.\<close>

definition sbi_fifo_init :: "bytes \<Rightarrow> u16 \<Rightarrow> u16 \<Rightarrow> sbi_fifo option" where
  "sbi_fifo_init queue_mem entries esize =
     map_option (\<lambda>q. \<lparr>queue = q, entry_size = esize, num_entries = entries, avail = 0, tail = 0\<rparr>)
       (write_bytes 0 (replicate (unat entries * unat esize) 0) queue_mem)"

definition fifo_is_full' :: "sbi_fifo \<Rightarrow> bool" where
  "fifo_is_full' f \<longleftrightarrow> avail f = num_entries f"

definition sbi_fifo_avail :: "sbi_fifo option \<Rightarrow> u16" where
  "sbi_fifo_avail p = (case p of None \<Rightarrow> 0 | Some f \<Rightarrow> avail f)"

definition sbi_fifo_is_full :: "sbi_fifo option \<Rightarrow> int" where
  "sbi_fifo_is_full p =
     (case p of None \<Rightarrow> SBI_EINVAL | Some f \<Rightarrow> if fifo_is_full' f then 1 else 0)"

text \<open>
  The entry is moved by one access of 1, 2, 4 or 8 bytes when its size is one of these and
  by \<open>sbi_memcpy\<close> otherwise.
\<close>

definition entry_bytes :: "u16 \<Rightarrow> nat" where
  "entry_bytes sz =
     (if sz = 1 then 1 else if sz = 2 then 2 else if sz = 4 then 4 else if sz = 8 then 8
      else unat sz)"

text \<open>\<open>head\<close> is computed in 32 bits, so that the sum of the two 16-bit fields does not wrap.\<close>

definition fifo_head :: "sbi_fifo \<Rightarrow> u32" where
  "fifo_head f =
     (let head = ucast (tail f) + ucast (avail f) :: u32
      in if ucast (num_entries f) \<le> head then head - ucast (num_entries f) else head)"

definition fifo_enqueue' :: "sbi_fifo \<Rightarrow> bytes \<Rightarrow> sbi_fifo option" where
  "fifo_enqueue' f d =
     Option.bind (read_bytes 0 (entry_bytes (entry_size f)) d) (\<lambda>e.
     Option.bind (write_bytes (unat (fifo_head f * ucast (entry_size f))) e (queue f)) (\<lambda>q.
     Some (f\<lparr>queue := q, avail := avail f + 1\<rparr>)))"

definition fifo_advance :: "sbi_fifo \<Rightarrow> sbi_fifo" where
  "fifo_advance f =
     (let t = tail f + 1 in
      f\<lparr>avail := avail f - 1, tail := (if num_entries f \<le> t then 0 else t)\<rparr>)"

text \<open>With a \<open>NULL\<close> destination the entry is dropped, otherwise copied to it.\<close>

definition fifo_dequeue' :: "sbi_fifo \<Rightarrow> bytes option \<Rightarrow> (bytes option \<times> sbi_fifo) option" where
  "fifo_dequeue' f d =
     (case d of
        None \<Rightarrow> Some (None, fifo_advance f)
      | Some buf \<Rightarrow>
          Option.bind (read_bytes (unat ((ucast (tail f) :: u32) * ucast (entry_size f)))
                         (entry_bytes (entry_size f)) (queue f)) (\<lambda>e.
          Option.bind (write_bytes 0 e buf) (\<lambda>buf'. Some (Some buf', fifo_advance f))))"

definition fifo_is_empty' :: "sbi_fifo \<Rightarrow> bool" where
  "fifo_is_empty' f \<longleftrightarrow> avail f = 0"

definition sbi_fifo_is_empty :: "sbi_fifo option \<Rightarrow> int" where
  "sbi_fifo_is_empty p =
     (case p of None \<Rightarrow> SBI_EINVAL | Some f \<Rightarrow> if fifo_is_empty' f then 1 else 0)"

definition fifo_reset' :: "sbi_fifo \<Rightarrow> sbi_fifo option" where
  "fifo_reset' f =
     map_option (\<lambda>q. f\<lparr>avail := 0, tail := 0, queue := q\<rparr>)
       (write_bytes 0 (replicate (unat (num_entries f) * unat (entry_size f)) 0) (queue f))"

definition sbi_fifo_reset :: "sbi_fifo option \<Rightarrow> (bool \<times> sbi_fifo option) option" where
  "sbi_fifo_reset p =
     (case p of None \<Rightarrow> Some (False, None)
      | Some f \<Rightarrow> map_option (\<lambda>f'. (True, Some f')) (fifo_reset' f))"

text \<open>
  The callback gets a pointer into the queue and may rewrite the entry there; it returns its
  verdict and the new entry (with the argument \<open>in\<close> already applied).
\<close>

function fifo_update_loop ::
  "(bytes \<Rightarrow> int \<times> bytes) \<Rightarrow> nat \<Rightarrow> int \<Rightarrow> sbi_fifo \<Rightarrow> (int \<times> sbi_fifo) option" where
  "fifo_update_loop fptr i ret f =
     (if i < unat (avail f) then
        let index = unat (tail f) + i;
            index = (if unat (num_entries f) \<le> index then index - unat (num_entries f) else index);
            off = unat ((of_nat index :: u32) * ucast (entry_size f))
        in case read_bytes off (unat (entry_size f)) (queue f) of
             None \<Rightarrow> None
           | Some e \<Rightarrow>
               (case write_bytes off (take (unat (entry_size f)) (snd (fptr e))) (queue f) of
                  None \<Rightarrow> None
                | Some q \<Rightarrow>
                    if fst (fptr e) = SBI_FIFO_SKIP \<or> fst (fptr e) = SBI_FIFO_UPDATED
                    then Some (fst (fptr e), f\<lparr>queue := q\<rparr>)
                    else fifo_update_loop fptr (Suc i) (fst (fptr e)) (f\<lparr>queue := q\<rparr>))
      else Some (ret, f))"
  by pat_completeness auto
termination
  by (relation "measure (\<lambda>(fptr, i, ret, f). unat (avail f) - i)") auto

declare fifo_update_loop.simps [simp del]

definition sbi_fifo_inplace_update ::
  "sbi_fifo option \<Rightarrow> 'i option \<Rightarrow> ('i \<Rightarrow> bytes \<Rightarrow> int \<times> bytes) \<Rightarrow> (int \<times> sbi_fifo option) option" where
  "sbi_fifo_inplace_update p inp fptr =
     (case (p, inp) of
        (Some f, Some i) \<Rightarrow>
          if fifo_is_empty' f then Some (SBI_FIFO_UNCHANGED, p)
          else map_option (\<lambda>(r, f'). (r, Some f')) (fifo_update_loop (fptr i) 0 SBI_FIFO_UNCHANGED f)
      | _ \<Rightarrow> Some (SBI_FIFO_UNCHANGED, p))"

definition sbi_fifo_enqueue ::
  "sbi_fifo option \<Rightarrow> bytes option \<Rightarrow> bool \<Rightarrow> (int \<times> sbi_fifo option) option" where
  "sbi_fifo_enqueue p d force =
     (case (p, d) of
        (Some f, Some buf) \<Rightarrow>
          if fifo_is_full' f \<and> \<not> force then Some (SBI_ENOSPC, p)
          else Option.bind (if fifo_is_full' f then map_option snd (fifo_dequeue' f None) else Some f)
                 (\<lambda>f1. map_option (\<lambda>f2. (0, Some f2)) (fifo_enqueue' f1 buf))
      | _ \<Rightarrow> Some (SBI_EINVAL, p))"

definition sbi_fifo_dequeue ::
  "sbi_fifo option \<Rightarrow> bytes option \<Rightarrow> (int \<times> bytes option \<times> sbi_fifo option) option" where
  "sbi_fifo_dequeue p d =
     (case (p, d) of
        (Some f, Some buf) \<Rightarrow>
          if fifo_is_empty' f then Some (SBI_ENOENT, d, p)
          else map_option (\<lambda>(d', f'). (0, d', Some f')) (fifo_dequeue' f d)
      | _ \<Rightarrow> Some (SBI_EINVAL, d, p))"


section \<open>The list a queue holds\<close>

definition fifo_wf :: "sbi_fifo \<Rightarrow> bool" where
  "fifo_wf f \<longleftrightarrow>
     unat (num_entries f) * unat (entry_size f) \<le> length (queue f) \<and>
     avail f \<le> num_entries f \<and> tail f < num_entries f"

definition slot :: "sbi_fifo \<Rightarrow> nat \<Rightarrow> bytes" where
  "slot f i = take (unat (entry_size f)) (drop (i * unat (entry_size f)) (queue f))"

definition phys :: "sbi_fifo \<Rightarrow> nat \<Rightarrow> nat" where
  "phys f i = (unat (tail f) + i) mod unat (num_entries f)"

definition contents :: "sbi_fifo \<Rightarrow> bytes list" where
  "contents f = map (\<lambda>i. slot f (phys f i)) [0..<unat (avail f)]"

lemma entry_bytes_eq [simp]: "entry_bytes sz = unat sz"
  by (simp add: entry_bytes_def)

lemma fifo_wf_unat:
  assumes "fifo_wf f"
  shows "unat (avail f) \<le> unat (num_entries f)" "unat (tail f) < unat (num_entries f)"
    "unat (num_entries f) * unat (entry_size f) \<le> length (queue f)"
  using assms by (simp_all add: fifo_wf_def word_le_nat_alt word_less_nat_alt)

lemma phys_less: "fifo_wf f \<Longrightarrow> phys f i < unat (num_entries f)"
  using fifo_wf_unat [of f] by (simp add: phys_def)

lemma slot_offset:
  assumes "i < unat (num_entries f)"
  shows "unat ((of_nat i :: u32) * ucast (entry_size f)) = i * unat (entry_size f)"
proof -
  have "i < 65536" "unat (entry_size f) < 65536"
    using assms u16_less [of "num_entries f"] u16_less [of "entry_size f"] by linarith+
  then have "i * unat (entry_size f) < 65536 * 65536" by (intro mult_strict_mono) auto
  moreover have "unat (of_nat i :: u32) = i" using \<open>i < 65536\<close> by (simp add: unat_of_nat)
  ultimately show ?thesis by (simp add: unat_word_ariths)
qed

lemma read_slot:
  assumes "fifo_wf f" and "i < unat (num_entries f)"
  shows "read_bytes (i * unat (entry_size f)) (unat (entry_size f)) (queue f) = Some (slot f i)"
  using fifo_wf_unat(3) [OF assms(1)] slot_in_range [OF assms(2), of "unat (entry_size f)"]
  by (simp add: read_bytes_def slot_def)

lemma write_slot:
  assumes "fifo_wf f" and "i < unat (num_entries f)" and "length e = unat (entry_size f)"
  obtains q where "write_bytes (i * unat (entry_size f)) e (queue f) = Some q"
    "length q = length (queue f)"
    "\<And>j. j < unat (num_entries f) \<Longrightarrow> slot (f\<lparr>queue := q\<rparr>) j = (if j = i then e else slot f j)"
proof -
  let ?k = "unat (entry_size f)"
  obtain q where q: "write_bytes (i * ?k) e (queue f) = Some q"
    using fifo_wf_unat(3) [OF assms(1)] slot_in_range [OF assms(2), of ?k] assms(3)
      write_bytes_exists [of "i * ?k" e "queue f"] by auto
  have len: "length q = length (queue f)" by (rule write_bytes_length [OF q])
  have wf: "fifo_wf (f\<lparr>queue := q\<rparr>)" using assms(1) len by (simp add: fifo_wf_def)
  have "slot (f\<lparr>queue := q\<rparr>) j = (if j = i then e else slot f j)"
    if j: "j < unat (num_entries f)" for j
  proof (cases "j = i")
    case True
    with read_write_same [OF q] read_slot [OF wf, of j] j assms(3) show ?thesis by simp
  next
    case False
    then have "read_bytes (j * ?k) ?k q = read_bytes (j * ?k) ?k (queue f)"
      using slots_disjoint [of j i ?k] assms(3) by (intro read_write_disjoint [OF q]) auto
    with read_slot [OF wf, of j] read_slot [OF assms(1), of j] j False show ?thesis by simp
  qed
  with that q len show ?thesis by blast
qed

lemma head_offset:
  assumes "fifo_wf f"
  shows "fifo_head f = of_nat (phys f (unat (avail f)))"
proof -
  note b = fifo_wf_unat [OF assms] u16_less [of "tail f"] u16_less [of "avail f"]
  have sum: "(ucast (tail f) + ucast (avail f) :: u32) = of_nat (unat (tail f) + unat (avail f))"
    by (simp only: ucast_u16_of_nat of_nat_add)
  have "(ucast (num_entries f) \<le> (ucast (tail f) + ucast (avail f) :: u32)) \<longleftrightarrow>
      unat (num_entries f) \<le> unat (tail f) + unat (avail f)"
    using b u16_less [of "num_entries f"]
    by (simp add: word_le_nat_alt unat_word_ariths)
  then have "fifo_head f = (if unat (num_entries f) \<le> unat (tail f) + unat (avail f)
      then of_nat (unat (tail f) + unat (avail f)) - of_nat (unat (num_entries f))
      else of_nat (unat (tail f) + unat (avail f)))"
    by (simp only: fifo_head_def Let_def ucast_u16_of_nat of_nat_add)
  moreover have "phys f (unat (avail f)) = (if unat (num_entries f) \<le> unat (tail f) + unat (avail f)
      then unat (tail f) + unat (avail f) - unat (num_entries f) else unat (tail f) + unat (avail f))"
    using b ring_index [of "unat (tail f)" "unat (num_entries f)" "unat (avail f)"]
    by (simp add: phys_def)
  ultimately show ?thesis
    by (cases "unat (num_entries f) \<le> unat (tail f) + unat (avail f)")
      (simp_all only: if_True if_False of_nat_diff)
qed

section \<open>The operations on the list\<close>

lemma contents_length: "length (contents f) = unat (avail f)"
  by (simp add: contents_def)

lemma contents_empty: "fifo_is_empty' f \<longleftrightarrow> contents f = []"
  by (simp add: fifo_is_empty'_def contents_def unat_eq_zero)

lemma contents_full:
  "fifo_wf f \<Longrightarrow> fifo_is_full' f \<longleftrightarrow> length (contents f) = unat (num_entries f)"
  by (simp add: fifo_is_full'_def contents_length word_unat_eq_iff)

lemma enqueue'_refines:
  assumes "fifo_wf f" and "\<not> fifo_is_full' f" and "length d = unat (entry_size f)"
  shows "\<exists>f'. fifo_enqueue' f d = Some f' \<and> fifo_wf f' \<and> contents f' = contents f @ [d] \<and>
    num_entries f' = num_entries f \<and> entry_size f' = entry_size f"
proof -
  let ?n = "unat (num_entries f)" and ?a = "unat (avail f)"
  have less: "avail f < num_entries f"
    using assms(1,2) by (auto simp: fifo_wf_def fifo_is_full'_def)
  then have av: "unat (avail f + 1) = Suc ?a" and an: "?a < ?n"
    by (simp_all add: unat_Suc_less word_less_nat_alt)
  have h: "phys f ?a < ?n" by (rule phys_less [OF assms(1)])
  obtain q where q: "write_bytes (phys f ?a * unat (entry_size f)) d (queue f) = Some q"
    and len: "length q = length (queue f)"
    and sl: "\<And>j. j < ?n \<Longrightarrow> slot (f\<lparr>queue := q\<rparr>) j = (if j = phys f ?a then d else slot f j)"
    using write_slot [OF assms(1) h assms(3)] by blast
  let ?f' = "f\<lparr>queue := q, avail := avail f + 1\<rparr>"
  have "fifo_enqueue' f d = Some ?f'"
    using assms(3) q
    by (simp add: fifo_enqueue'_def read_bytes_def head_offset [OF assms(1)] slot_offset [OF h])
  moreover have "fifo_wf ?f'"
    using assms(1) len av an by (simp add: fifo_wf_def word_le_nat_alt)
  moreover have "slot ?f' (phys ?f' i) = (if i = ?a then d else slot f (phys f i))" if "i \<le> ?a" for i
  proof -
    have "phys f i = phys f ?a \<longleftrightarrow> i = ?a"
      using ring_inj [of "unat (tail f)" i ?n ?a] that an by (auto simp: phys_def)
    then show ?thesis
      using sl [OF phys_less [OF assms(1), of i]] by (simp add: slot_def phys_def)
  qed
  then have "contents ?f' = contents f @ [d]"
    by (simp add: contents_def av)
  ultimately show ?thesis by force
qed

lemma advance_refines:
  assumes "fifo_wf f" and "\<not> fifo_is_empty' f"
  shows "fifo_wf (fifo_advance f)" "contents (fifo_advance f) = tl (contents f)"
    "num_entries (fifo_advance f) = num_entries f" "entry_size (fifo_advance f) = entry_size f"
proof -
  let ?n = "unat (num_entries f)"
  note b = fifo_wf_unat [OF assms(1)]
  have nz: "avail f \<noteq> 0" using assms(2) by (simp add: fifo_is_empty'_def)
  then have av: "unat (avail (fifo_advance f)) = unat (avail f) - 1"
    by (simp add: fifo_advance_def Let_def unat_minus_one)
  have t1: "unat (tail f + 1) = Suc (unat (tail f))"
    using assms(1) by (auto simp: fifo_wf_def intro: unat_Suc_less)
  then have tl: "unat (tail (fifo_advance f)) = (unat (tail f) + 1) mod ?n"
    using b ring_index [of "unat (tail f)" ?n 1]
    by (auto simp: fifo_advance_def Let_def word_le_nat_alt)
  show "num_entries (fifo_advance f) = num_entries f" "entry_size (fifo_advance f) = entry_size f"
    by (simp_all add: fifo_advance_def Let_def)
  have "tail (fifo_advance f) < num_entries f"
    using tl b by (simp add: word_less_nat_alt)
  moreover have "avail (fifo_advance f) \<le> num_entries f"
    using av b by (simp add: word_le_nat_alt)
  ultimately show "fifo_wf (fifo_advance f)"
    using assms(1) by (simp add: fifo_wf_def fifo_advance_def Let_def)
  have "slot (fifo_advance f) (phys (fifo_advance f) i) = slot f (phys f (Suc i))" for i
    using tl by (simp add: slot_def phys_def fifo_advance_def Let_def mod_simps)
  then show "contents (fifo_advance f) = tl (contents f)"
    by (simp add: contents_def av tl_map_upt)
qed


lemma tail_slot:
  assumes "fifo_wf f" and "\<not> fifo_is_empty' f"
  shows "slot f (unat (tail f)) = hd (contents f)"
proof -
  have "0 < unat (avail f)" using assms(2) by (simp add: fifo_is_empty'_def unat_gt_0)
  then show ?thesis
    using fifo_wf_unat [OF assms(1)] by (simp add: contents_def phys_def hd_map upt_rec)
qed

lemma dequeue'_refines:
  assumes "fifo_wf f" and "\<not> fifo_is_empty' f" and "length buf = unat (entry_size f)"
  shows "fifo_dequeue' f (Some buf) = Some (Some (hd (contents f)), fifo_advance f)"
proof -
  let ?e = "slot f (unat (tail f))"
  have t: "unat (tail f) < unat (num_entries f)" by (rule fifo_wf_unat(2) [OF assms(1)])
  have r: "read_bytes (unat (tail f) * unat (entry_size f)) (unat (entry_size f)) (queue f) = Some ?e"
    by (rule read_slot [OF assms(1) t])
  have "unat ((ucast (tail f) :: u32) * ucast (entry_size f)) = unat (tail f) * unat (entry_size f)"
    using slot_offset [OF t] by (simp only: ucast_u16_of_nat)
  with r read_bytes_length [OF r] assms(3) show ?thesis
    by (simp add: fifo_dequeue'_def write_bytes_def tail_slot [OF assms(1,2)])
qed

text \<open>What the callback loop computes on the list.\<close>

fun update_list :: "('e \<Rightarrow> int \<times> 'e) \<Rightarrow> int \<Rightarrow> 'e list \<Rightarrow> int \<times> 'e list" where
  "update_list fptr ret [] = (ret, [])"
| "update_list fptr ret (e # es) =
     (if fst (fptr e) = SBI_FIFO_SKIP \<or> fst (fptr e) = SBI_FIFO_UPDATED
      then (fst (fptr e), snd (fptr e) # es)
      else let (r, es') = update_list fptr (fst (fptr e)) es in (r, snd (fptr e) # es'))"

lemma write_contents:
  assumes "fifo_wf f" and "i < unat (avail f)" and "length e = unat (entry_size f)"
  shows "\<exists>q. write_bytes (phys f i * unat (entry_size f)) e (queue f) = Some q \<and>
    fifo_wf (f\<lparr>queue := q\<rparr>) \<and> contents (f\<lparr>queue := q\<rparr>) = (contents f)[i := e]"
proof -
  let ?n = "unat (num_entries f)"
  have i: "i < ?n" using assms(2) fifo_wf_unat(1) [OF assms(1)] by linarith
  obtain q where q: "write_bytes (phys f i * unat (entry_size f)) e (queue f) = Some q"
    and len: "length q = length (queue f)"
    and sl: "\<And>j. j < ?n \<Longrightarrow> slot (f\<lparr>queue := q\<rparr>) j = (if j = phys f i then e else slot f j)"
    using write_slot [OF assms(1) phys_less [OF assms(1)] assms(3)] by blast
  have "slot (f\<lparr>queue := q\<rparr>) (phys f j) = (if j = i then e else slot f (phys f j))"
    if "j < unat (avail f)" for j
  proof -
    have "phys f j = phys f i \<longleftrightarrow> j = i"
      using ring_inj [of "unat (tail f)" j ?n i] that i fifo_wf_unat(1) [OF assms(1)]
      by (auto simp: phys_def)
    then show ?thesis using sl [OF phys_less [OF assms(1), of j]] by simp
  qed
  then have "contents (f\<lparr>queue := q\<rparr>) = (contents f)[i := e]"
    by (intro nth_equalityI) (auto simp: contents_def phys_def nth_list_update)
  with q len assms(1) show ?thesis by (auto simp: fifo_wf_def)
qed

text \<open>One round of the loop: entry \<open>i\<close> of the list is replaced by what the callback made of it.\<close>

lemma update_loop_round:
  assumes "fifo_wf f" and "\<And>e. length (snd (fptr e)) = length e" and "i < unat (avail f)"
  defines "e \<equiv> contents f ! i"
  shows "\<exists>q. fifo_wf (f\<lparr>queue := q\<rparr>) \<and> contents (f\<lparr>queue := q\<rparr>) = (contents f)[i := snd (fptr e)] \<and>
    fifo_update_loop fptr i ret f =
      (if fst (fptr e) = SBI_FIFO_SKIP \<or> fst (fptr e) = SBI_FIFO_UPDATED
       then Some (fst (fptr e), f\<lparr>queue := q\<rparr>)
       else fifo_update_loop fptr (Suc i) (fst (fptr e)) (f\<lparr>queue := q\<rparr>))"
proof -
  let ?k = "unat (entry_size f)"
  have i: "i < unat (num_entries f)" using assms(3) fifo_wf_unat(1) [OF assms(1)] by linarith
  have p: "phys f i < unat (num_entries f)" by (rule phys_less [OF assms(1)])
  have ix: "(if unat (num_entries f) \<le> unat (tail f) + i then unat (tail f) + i - unat (num_entries f)
      else unat (tail f) + i) = phys f i"
    using ring_index [of "unat (tail f)" "unat (num_entries f)" i] fifo_wf_unat(2) [OF assms(1)] i
    by (simp add: phys_def)
  have rd: "read_bytes (phys f i * ?k) ?k (queue f) = Some e"
    using read_slot [OF assms(1) p] assms(3) by (simp add: e_def contents_def)
  have len: "length (snd (fptr e)) = ?k"
    using assms(2) read_bytes_length [OF rd] by simp
  obtain q where q: "write_bytes (phys f i * ?k) (snd (fptr e)) (queue f) = Some q"
    "fifo_wf (f\<lparr>queue := q\<rparr>)" "contents (f\<lparr>queue := q\<rparr>) = (contents f)[i := snd (fptr e)]"
    using write_contents [OF assms(1,3) len] by blast
  moreover have "fifo_update_loop fptr i ret f =
      (if fst (fptr e) = SBI_FIFO_SKIP \<or> fst (fptr e) = SBI_FIFO_UPDATED
       then Some (fst (fptr e), f\<lparr>queue := q\<rparr>)
       else fifo_update_loop fptr (Suc i) (fst (fptr e)) (f\<lparr>queue := q\<rparr>))"
    using assms(3) len q(1)
    by (simp only: fifo_update_loop.simps [of fptr i ret f] Let_def ix slot_offset [OF p] rd
        option.case if_True take_all order_refl)
  ultimately show ?thesis by blast
qed

lemma update_loop_refines:
  assumes "fifo_wf f" and "\<And>e. length (snd (fptr e)) = length e" and "i + d = unat (avail f)"
  shows "\<exists>f'. fifo_update_loop fptr i ret f =
      Some (fst (update_list fptr ret (drop i (contents f))), f') \<and> fifo_wf f' \<and>
    contents f' = take i (contents f) @ snd (update_list fptr ret (drop i (contents f))) \<and>
    num_entries f' = num_entries f \<and> entry_size f' = entry_size f"
  using assms
proof (induction d arbitrary: i ret f)
  case 0
  then have "fifo_update_loop fptr i ret f = Some (ret, f)"
    by (subst fifo_update_loop.simps) simp
  with 0 show ?case by (simp add: contents_length)
next
  case (Suc d)
  then have i: "i < length (contents f)" by (simp add: contents_length)
  let ?e = "contents f ! i"
  obtain q where q: "fifo_wf (f\<lparr>queue := q\<rparr>)" "contents (f\<lparr>queue := q\<rparr>) = (contents f)[i := snd (fptr ?e)]"
    and unf: "fifo_update_loop fptr i ret f =
      (if fst (fptr ?e) = SBI_FIFO_SKIP \<or> fst (fptr ?e) = SBI_FIFO_UPDATED
       then Some (fst (fptr ?e), f\<lparr>queue := q\<rparr>)
       else fifo_update_loop fptr (Suc i) (fst (fptr ?e)) (f\<lparr>queue := q\<rparr>))"
    using update_loop_round [OF Suc.prems(1,2), of i ret] i by (auto simp: contents_length)
  have dr: "drop i (contents f) = ?e # drop (Suc i) (contents f)"
    using i by (simp add: Cons_nth_drop_Suc)
  show ?case
  proof (cases "fst (fptr ?e) = SBI_FIFO_SKIP \<or> fst (fptr ?e) = SBI_FIFO_UPDATED")
    case True
    with unf q dr i show ?thesis by (simp add: upd_conv_take_nth_drop)
  next
    case False
    have "take (Suc i) ((contents f)[i := snd (fptr ?e)]) = take i (contents f) @ [snd (fptr ?e)]"
      using i by (simp add: take_Suc_conv_app_nth)
    with Suc.IH [of "f\<lparr>queue := q\<rparr>" "Suc i" "fst (fptr ?e)"] Suc.prems q False unf dr show ?thesis
      by (auto simp: case_prod_beta)
  qed
qed


section \<open>The queue interface\<close>

text \<open>
  What a client of a bounded queue may rely on: an element goes in at the end while there is
  room and comes out at the front.  The batch lemmas are proved once from these laws.
\<close>

fun enq_all :: "('q \<Rightarrow> 'e \<Rightarrow> 'q option) \<Rightarrow> 'q \<Rightarrow> 'e list \<Rightarrow> 'q option" where
  "enq_all enq q [] = Some q"
| "enq_all enq q (e # es) = Option.bind (enq q e) (\<lambda>q'. enq_all enq q' es)"

fun deq_all :: "('q \<Rightarrow> ('e \<times> 'q) option) \<Rightarrow> 'q \<Rightarrow> nat \<Rightarrow> ('e list \<times> 'q) option" where
  "deq_all deq q 0 = Some ([], q)"
| "deq_all deq q (Suc k) =
     Option.bind (deq q) (\<lambda>(e, q'). map_option (\<lambda>(es, q''). (e # es, q'')) (deq_all deq q' k))"

locale bounded_queue =
  fixes inv :: "'q \<Rightarrow> bool" and cap :: "'q \<Rightarrow> nat" and items :: "'q \<Rightarrow> 'e list"
    and fits :: "'q \<Rightarrow> 'e \<Rightarrow> bool"
    and enq :: "'q \<Rightarrow> 'e \<Rightarrow> 'q option" and deq :: "'q \<Rightarrow> ('e \<times> 'q) option"
  assumes bound: "inv q \<Longrightarrow> length (items q) \<le> cap q"
    and enq_full: "inv q \<Longrightarrow> length (items q) = cap q \<Longrightarrow> enq q e = None"
    and enq_room: "inv q \<Longrightarrow> length (items q) < cap q \<Longrightarrow> fits q e \<Longrightarrow>
      \<exists>q'. enq q e = Some q' \<and> inv q' \<and> items q' = items q @ [e] \<and> cap q' = cap q \<and> fits q' = fits q"
    and deq_empty: "inv q \<Longrightarrow> items q = [] \<Longrightarrow> deq q = None"
    and deq_item: "inv q \<Longrightarrow> items q \<noteq> [] \<Longrightarrow>
      \<exists>q'. deq q = Some (hd (items q), q') \<and> inv q' \<and> items q' = tl (items q) \<and>
        cap q' = cap q \<and> fits q' = fits q"
begin

lemma enq_all_items:
  assumes "inv q" and "length (items q) + length es \<le> cap q" and "\<forall>e \<in> set es. fits q e"
  shows "\<exists>q'. enq_all enq q es = Some q' \<and> inv q' \<and> items q' = items q @ es \<and>
    cap q' = cap q \<and> fits q' = fits q"
  using assms
proof (induction es arbitrary: q)
  case (Cons e es)
  then obtain q1 where q1: "enq q e = Some q1" "inv q1" "items q1 = items q @ [e]"
    "cap q1 = cap q" "fits q1 = fits q"
    using enq_room [of q e] by auto
  with Cons show ?case using Cons.IH [of q1] by auto
qed simp

lemma enq_all_overflow:
  assumes "inv q" and "cap q < length (items q) + length es" and "\<forall>e \<in> set es. fits q e"
  shows "enq_all enq q es = None"
  using assms
proof (induction es arbitrary: q)
  case Nil
  then show ?case using bound [of q] by simp
next
  case (Cons e es)
  show ?case
  proof (cases "length (items q) = cap q")
    case True
    with Cons.prems show ?thesis by (simp add: enq_full)
  next
    case False
    then obtain q1 where "enq q e = Some q1" "inv q1" "items q1 = items q @ [e]"
      "cap q1 = cap q" "fits q1 = fits q"
      using enq_room [of q e] bound [of q] Cons.prems by auto
    with Cons show ?thesis using Cons.IH [of q1] by auto
  qed
qed

lemma deq_all_items:
  assumes "inv q" and "k \<le> length (items q)"
  shows "\<exists>q'. deq_all deq q k = Some (take k (items q), q') \<and> inv q' \<and> items q' = drop k (items q)"
  using assms
proof (induction k arbitrary: q)
  case (Suc k)
  then have ne: "items q \<noteq> []" by auto
  then obtain q1 where "deq q = Some (hd (items q), q1)" "inv q1" "items q1 = tl (items q)"
    using deq_item [of q] Suc.prems by auto
  moreover obtain x xs where "items q = x # xs" using ne by (cases "items q") auto
  ultimately show ?case using Suc.IH [of q1] Suc.prems by auto
qed simp

lemma batch:
  assumes "inv q" and "length (items q) + length es \<le> cap q" and "\<forall>e \<in> set es. fits q e"
  shows "\<exists>q' q''. enq_all enq q es = Some q' \<and>
    deq_all deq q' (length (items q) + length es) = Some (items q @ es, q'') \<and>
    items q'' = [] \<and> deq q'' = None"
proof -
  obtain q' where q': "enq_all enq q es = Some q'" "inv q'" "items q' = items q @ es"
    using enq_all_items [OF assms] by blast
  then obtain q'' where "deq_all deq q' (length (items q) + length es) = Some (items q @ es, q'')"
    "inv q''" "items q'' = []"
    using deq_all_items [of q' "length (items q) + length es"] by auto
  with q' show ?thesis using deq_empty [of q''] by blast
qed

end

definition fifo_enq :: "sbi_fifo \<Rightarrow> bytes \<Rightarrow> sbi_fifo option" where
  "fifo_enq f e =
     (case sbi_fifo_enqueue (Some f) (Some e) False of
        Some (r, Some f') \<Rightarrow> if r = 0 then Some f' else None
      | _ \<Rightarrow> None)"

definition fifo_deq :: "sbi_fifo \<Rightarrow> (bytes \<times> sbi_fifo) option" where
  "fifo_deq f =
     (case sbi_fifo_dequeue (Some f) (Some (replicate (unat (entry_size f)) 0)) of
        Some (r, Some e, Some f') \<Rightarrow> if r = 0 then Some (e, f') else None
      | _ \<Rightarrow> None)"

interpretation fq: bounded_queue fifo_wf "\<lambda>f. unat (num_entries f)" contents
  "\<lambda>f e. length e = unat (entry_size f)" fifo_enq fifo_deq
proof unfold_locales
  fix f :: sbi_fifo and e :: bytes
  assume wf: "fifo_wf f"
  show "length (contents f) \<le> unat (num_entries f)"
    using fifo_wf_unat(1) [OF wf] by (simp add: contents_length)
  show "fifo_enq f e = None" if "length (contents f) = unat (num_entries f)"
    using that contents_full [OF wf] by (simp add: fifo_enq_def sbi_fifo_enqueue_def sbi_errors)
  show "\<exists>f'. fifo_enq f e = Some f' \<and> fifo_wf f' \<and> contents f' = contents f @ [e] \<and>
      unat (num_entries f') = unat (num_entries f) \<and>
      (\<lambda>d. length d = unat (entry_size f')) = (\<lambda>d. length d = unat (entry_size f))"
    if "length (contents f) < unat (num_entries f)" "length e = unat (entry_size f)"
    using enqueue'_refines [OF wf _ that(2)] that contents_full [OF wf]
    by (auto simp: fifo_enq_def sbi_fifo_enqueue_def)
  show "fifo_deq f = None" if "contents f = []"
    using that by (simp add: fifo_deq_def sbi_fifo_dequeue_def contents_empty sbi_errors)
  show "\<exists>f'. fifo_deq f = Some (hd (contents f), f') \<and> fifo_wf f' \<and> contents f' = tl (contents f) \<and>
      unat (num_entries f') = unat (num_entries f) \<and>
      (\<lambda>d. length d = unat (entry_size f')) = (\<lambda>d. length d = unat (entry_size f))"
    if "contents f \<noteq> []"
    using advance_refines [OF wf] dequeue'_refines [OF wf, of "replicate (unat (entry_size f)) 0"] that
    by (simp add: fifo_deq_def sbi_fifo_dequeue_def contents_empty)
qed


section \<open>Properties\<close>

lemma init_wf:
  assumes "sbi_fifo_init mem entries esize = Some f" and "entries \<noteq> 0"
  shows "fifo_wf f" "contents f = []" "num_entries f = entries" "entry_size f = esize"
proof -
  obtain q where q: "write_bytes 0 (replicate (unat entries * unat esize) 0) mem = Some q"
    and f: "f = \<lparr>queue = q, entry_size = esize, num_entries = entries, avail = 0, tail = 0\<rparr>"
    using assms(1) by (auto simp: sbi_fifo_init_def)
  have "unat entries * unat esize \<le> length q"
    using q write_bytes_length [OF q] by (simp add: write_bytes_Some)
  then show "fifo_wf f" "contents f = []" "num_entries f = entries" "entry_size f = esize"
    using assms(2) by (simp_all add: f fifo_wf_def contents_def word_gt_0)
qed

lemma enqueue_list:
  assumes "fifo_wf f" and "length d = unat (entry_size f)"
  shows "\<exists>r f'. sbi_fifo_enqueue (Some f) (Some d) force = Some (r, Some f') \<and> fifo_wf f' \<and>
    entry_size f' = entry_size f \<and> num_entries f' = num_entries f \<and>
    (if length (contents f) < unat (num_entries f) then r = 0 \<and> contents f' = contents f @ [d]
     else if force then r = 0 \<and> contents f' = tl (contents f) @ [d]
     else r = SBI_ENOSPC \<and> f' = f)"
proof (cases "fifo_is_full' f")
  case False
  then have "length (contents f) < unat (num_entries f)"
    using contents_full [OF assms(1)] fq.bound [OF assms(1)] by linarith
  with enqueue'_refines [OF assms(1) False assms(2)] False show ?thesis
    by (auto simp: sbi_fifo_enqueue_def)
next
  case True
  let ?f1 = "fifo_advance f"
  have ne: "\<not> fifo_is_empty' f"
    using True assms(1) by (auto simp: fifo_is_full'_def fifo_is_empty'_def fifo_wf_def)
  note adv = advance_refines [OF assms(1) ne]
  have full: "length (contents f) = unat (num_entries f)" using True contents_full [OF assms(1)] by simp
  then have "length (contents ?f1) < unat (num_entries ?f1)"
    using ne contents_empty [of f] adv(2,3) by (cases "contents f") auto
  then have "\<not> fifo_is_full' ?f1" using contents_full [OF adv(1)] by simp
  from enqueue'_refines [OF adv(1) this] assms(2) adv(4)
  obtain f2 where "fifo_enqueue' ?f1 d = Some f2" "fifo_wf f2" "contents f2 = contents ?f1 @ [d]"
    "num_entries f2 = num_entries f" "entry_size f2 = entry_size f"
    using adv(3) by auto
  with True full adv(2) assms(1) show ?thesis
    by (auto simp: sbi_fifo_enqueue_def fifo_dequeue'_def)
qed

text \<open>
  C15: \<open>sbi_fifo_enqueue\<close> appends the entry to the list the ring holds while there is
  room; on a full ring it fails with \<open>SBI_ENOSPC\<close> and changes nothing, or with
  \<open>force\<close> drops the oldest entry first; no branch accesses memory outside the buffers.
\<close>

theorem sbi_fifo_enqueue_refines:
  assumes "fifo_wf f" and "length d = unat (entry_size f)"
  shows "\<exists>r f'. sbi_fifo_enqueue (Some f) (Some d) force = Some (r, Some f') \<and> fifo_wf f' \<and>
    (if length (contents f) < unat (num_entries f) then r = 0 \<and> contents f' = contents f @ [d]
     else if force then r = 0 \<and> contents f' = tl (contents f) @ [d]
     else r = SBI_ENOSPC \<and> f' = f)"
  using enqueue_list [OF assms] by blast

theorem sbi_fifo_enqueue_refines_witness:
  "\<exists>r f'. sbi_fifo_enqueue (Some \<lparr>queue = [0, 0], entry_size = 1, num_entries = 2, avail = 0, tail = 1\<rparr>)
     (Some [7]) False = Some (r, Some f') \<and> fifo_wf f' \<and> r = 0 \<and> contents f' = [[7]]"
proof -
  let ?f = "\<lparr>queue = [0, 0], entry_size = 1, num_entries = 2, avail = 0, tail = 1\<rparr>"
  have "fifo_wf ?f" "length [7 :: u8] = unat (entry_size ?f)" "contents ?f = []"
    by (simp_all add: fifo_wf_def contents_def)
  with sbi_fifo_enqueue_refines [of ?f "[7]" False] show ?thesis by auto
qed

text \<open>
  \<open>sbi_fifo_dequeue\<close> hands out the oldest entry and removes it; on an empty ring it
  returns \<open>SBI_ENOENT\<close> and leaves ring and buffer alone; with a null argument it returns
  \<open>SBI_EINVAL\<close>.
\<close>

lemma sbi_fifo_dequeue_refines:
  assumes "fifo_wf f" and "length buf = unat (entry_size f)"
  shows "(if contents f = []
      then sbi_fifo_dequeue (Some f) (Some buf) = Some (SBI_ENOENT, Some buf, Some f)
      else \<exists>f'. sbi_fifo_dequeue (Some f) (Some buf) = Some (0, Some (hd (contents f)), Some f') \<and>
        fifo_wf f' \<and> contents f' = tl (contents f)) \<and>
    sbi_fifo_dequeue None d = Some (SBI_EINVAL, d, None) \<and>
    sbi_fifo_dequeue p None = Some (SBI_EINVAL, None, p)"
  using advance_refines [OF assms(1)] dequeue'_refines [OF assms(1) _ assms(2)]
  by (auto simp: sbi_fifo_dequeue_def contents_empty split: option.split)

lemma inplace_update_list:
  assumes "fifo_wf f" and "\<And>e. length (snd (fptr i e)) = length e"
  shows "\<exists>f'. sbi_fifo_inplace_update (Some f) (Some i) fptr =
      Some (fst (update_list (fptr i) SBI_FIFO_UNCHANGED (contents f)), Some f') \<and> fifo_wf f' \<and>
    contents f' = snd (update_list (fptr i) SBI_FIFO_UNCHANGED (contents f)) \<and>
    num_entries f' = num_entries f \<and> entry_size f' = entry_size f"
proof (cases "fifo_is_empty' f")
  case True
  with assms(1) show ?thesis
    by (auto simp: sbi_fifo_inplace_update_def contents_empty)
next
  case False
  with update_loop_refines [OF assms(1), of "fptr i" 0 "unat (avail f)" SBI_FIFO_UNCHANGED] assms(2)
  show ?thesis by (auto simp: sbi_fifo_inplace_update_def)
qed

text \<open>
  \<open>sbi_fifo_inplace_update\<close> offers the entries to the callback from oldest to newest,
  stores what it makes of them and stops at the first verdict \<open>SKIP\<close> or \<open>UPDATED\<close>:
  on the list it is \<open>update_list\<close>, and the ring stays well formed.
\<close>

lemma sbi_fifo_inplace_update_refines:
  assumes "fifo_wf f" and "\<And>e. length (snd (fptr i e)) = length e"
  shows "\<exists>f'. sbi_fifo_inplace_update (Some f) (Some i) fptr =
      Some (fst (update_list (fptr i) SBI_FIFO_UNCHANGED (contents f)), Some f') \<and> fifo_wf f' \<and>
    contents f' = snd (update_list (fptr i) SBI_FIFO_UNCHANGED (contents f)) \<and>
    num_entries f' = num_entries f"
  using inplace_update_list [OF assms(1), of fptr i] assms(2) by blast

text \<open>
  A ring made by \<open>sbi_fifo_init\<close> from a block large enough for its entries delivers a
  batch of entries that fits, enqueued one by one, in the order they went in, and is then empty
  again; a batch that does not fit is refused.
\<close>

lemma sbi_fifo_batch:
  assumes "sbi_fifo_init mem entries esize = Some f" and "entries \<noteq> 0"
    and "\<forall>e \<in> set es. length e = unat esize"
  shows "if length es \<le> unat entries
     then \<exists>f' f''. enq_all fifo_enq f es = Some f' \<and>
       deq_all fifo_deq f' (length es) = Some (es, f'') \<and> contents f'' = [] \<and> fifo_deq f'' = None
     else enq_all fifo_enq f es = None"
proof -
  note f = init_wf [OF assms(1,2)]
  show ?thesis
    using fq.batch [OF f(1), of es] fq.enq_all_overflow [OF f(1), of es] assms(3)
    by (auto simp: f)
qed

end
