(* ===== verification/SbiHeap.thy ===== *)
theory SbiHeap
  imports SbiBase
begin

unbundle bit_operations_syntax

text \<open>
  The heap of \<open>lib/sbi/sbi_heap.c\<close> on a 64-bit hart.  Book-keeping nodes live in three
  lists (unused nodes, free space, used space); the doubly linked lists of \<open>sbi_list.h\<close> are
  HOL lists, \<open>sbi_list_add\<close> puts a node at the front and \<open>sbi_list_add_tail\<close> at the
  end.  Each operation holds \<open>hpctrl->lock\<close> for its whole body and is one atomic step.
  The main invariant counts, for every address, the nodes that cover it: exactly one inside
  the arena, none outside; so used blocks are disjoint and nothing is lost.
\<close>

section \<open>State and operations\<close>

record heap_node =
  hn_addr :: u64
  hn_size :: u64

record sbi_heap_control =
  hc_base :: u64
  hc_size :: u64
  hkbase :: u64
  hksize :: u64
  free_node_list :: "heap_node list"
  free_space_list :: "heap_node list"
  used_space_list :: "heap_node list"

definition HEAP_ALLOC_ALIGN :: u64 where "HEAP_ALLOC_ALIGN = 64"
definition HEAP_HOUSEKEEPING_FACTOR :: u64 where "HEAP_HOUSEKEEPING_FACTOR = 16"
definition HEAP_BASE_ALIGN :: u64 where "HEAP_BASE_ALIGN = 1024"

text \<open>\<open>sizeof(struct heap_node)\<close>: two pointers and two \<open>unsigned long\<close>s.\<close>

definition sizeof_heap_node :: u64 where "sizeof_heap_node = 32"

definition ROUNDUP :: "u64 \<Rightarrow> u64 \<Rightarrow> u64" where
  "ROUNDUP a b = ((a - 1) div b + 1) * b"

definition round_size :: "u64 \<Rightarrow> u64 \<Rightarrow> u64" where
  "round_size align sz = (sz + (align - 1)) AND NOT (align - 1)"

definition node_pad :: "u64 \<Rightarrow> heap_node \<Rightarrow> u64" where
  "node_pad align n = ROUNDUP (hn_addr n) align - hn_addr n"

text \<open>The first free node that holds the block and the padding in front of it.\<close>

fun find_free :: "u64 \<Rightarrow> u64 \<Rightarrow> heap_node list \<Rightarrow> (heap_node list \<times> heap_node \<times> heap_node list) option" where
  "find_free align sz [] = None"
| "find_free align sz (n # ns) =
     (if sz + node_pad align n \<le> hn_size n then Some ([], n, ns)
      else map_option (\<lambda>(as, np, bs). (n # as, np, bs)) (find_free align sz ns))"

text \<open>
  The two ways to carve a block out of \<open>np\<close> (which stands between \<open>as\<close> and \<open>bs\<close> in
  the free list): with padding, a node for the block and, unless the fit is exact, one for the
  rest behind it are needed; without padding the block is taken from the front of \<open>np\<close>, or
  \<open>np\<close> itself becomes the block.
\<close>

definition alloc_padded :: "sbi_heap_control \<Rightarrow> u64 \<Rightarrow> u64 \<Rightarrow> heap_node list \<Rightarrow> heap_node \<Rightarrow>
    heap_node list \<Rightarrow> u64 \<times> sbi_heap_control" where
  "alloc_padded h align sz as np bs =
     (let pad = node_pad align np; lowest_aligned = ROUNDUP (hn_addr np) align in
      case free_node_list h of
        [] \<Rightarrow> (0, h)
      | n # fns \<Rightarrow>
          if sz + pad < hn_size np \<and> fns \<noteq> [] then
            (lowest_aligned,
             h\<lparr>free_node_list := tl fns,
               free_space_list := as @ np\<lparr>hn_size := pad\<rparr> # bs @
                 [(hd fns)\<lparr>hn_addr := hn_addr np + (sz + pad), hn_size := hn_size np - (sz + pad)\<rparr>],
               used_space_list := used_space_list h @ [n\<lparr>hn_addr := lowest_aligned, hn_size := sz\<rparr>]\<rparr>)
          else if sz + pad \<noteq> hn_size np then (0, h\<lparr>free_node_list := n # fns\<rparr>)
          else
            (lowest_aligned,
             h\<lparr>free_node_list := fns,
               free_space_list := as @ np\<lparr>hn_size := pad\<rparr> # bs,
               used_space_list := used_space_list h @ [n\<lparr>hn_addr := lowest_aligned, hn_size := sz\<rparr>]\<rparr>))"

definition alloc_unpadded :: "sbi_heap_control \<Rightarrow> u64 \<Rightarrow> heap_node list \<Rightarrow> heap_node \<Rightarrow>
    heap_node list \<Rightarrow> u64 \<times> sbi_heap_control" where
  "alloc_unpadded h sz as np bs =
     (if sz < hn_size np \<and> free_node_list h \<noteq> [] then
        (hn_addr np,
         h\<lparr>free_node_list := tl (free_node_list h),
           free_space_list := as @ np\<lparr>hn_addr := hn_addr np + sz, hn_size := hn_size np - sz\<rparr> # bs,
           used_space_list := used_space_list h @
             [(hd (free_node_list h))\<lparr>hn_addr := hn_addr np, hn_size := sz\<rparr>]\<rparr>)
      else if sz = hn_size np then
        (hn_addr np,
         h\<lparr>free_space_list := as @ bs, used_space_list := used_space_list h @ [np]\<rparr>)
      else (0, h))"

text \<open>The result 0 is \<open>NULL\<close>.\<close>

definition alloc_with_align :: "sbi_heap_control \<Rightarrow> u64 \<Rightarrow> u64 \<Rightarrow> u64 \<times> sbi_heap_control" where
  "alloc_with_align h align sz =
     (if sz = 0 then (0, h)
      else let sz = round_size align sz in
        case find_free align sz (free_space_list h) of
          None \<Rightarrow> (0, h)
        | Some (as, np, bs) \<Rightarrow>
            if node_pad align np \<noteq> 0 then alloc_padded h align sz as np bs
            else alloc_unpadded h sz as np bs)"

definition sbi_malloc_from :: "sbi_heap_control \<Rightarrow> u64 \<Rightarrow> u64 \<times> sbi_heap_control" where
  "sbi_malloc_from h sz = alloc_with_align h HEAP_ALLOC_ALIGN sz"

definition sbi_aligned_alloc_from :: "sbi_heap_control \<Rightarrow> u64 \<Rightarrow> u64 \<Rightarrow> u64 \<times> sbi_heap_control" where
  "sbi_aligned_alloc_from h alignment sz =
     (let alignment = (if alignment < HEAP_ALLOC_ALIGN then HEAP_ALLOC_ALIGN else alignment) in
      if alignment AND (alignment - 1) \<noteq> 0 then (0, h)
      else if sz mod alignment \<noteq> 0 then (0, h)
      else alloc_with_align h alignment sz)"

text \<open>\<open>sbi_zalloc_from\<close> clears the block: \<open>m\<close> is the memory the pointers point into.\<close>

definition memset :: "u64 \<Rightarrow> u8 \<Rightarrow> u64 \<Rightarrow> (u64 \<Rightarrow> u8) \<Rightarrow> u64 \<Rightarrow> u8" where
  "memset p c len m = (\<lambda>a. if unat (a - p) < unat len then c else m a)"

definition sbi_zalloc_from ::
  "sbi_heap_control \<Rightarrow> (u64 \<Rightarrow> u8) \<Rightarrow> u64 \<Rightarrow> u64 \<times> sbi_heap_control \<times> (u64 \<Rightarrow> u8)" where
  "sbi_zalloc_from h m sz =
     (let (p, h') = sbi_malloc_from h sz in (p, h', if p \<noteq> 0 then memset p 0 sz m else m))"

text \<open>Freeing: the used node that holds the address goes back to the free list.\<close>

fun find_used :: "u64 \<Rightarrow> heap_node list \<Rightarrow> (heap_node list \<times> heap_node \<times> heap_node list) option" where
  "find_used p [] = None"
| "find_used p (n # ns) =
     (if hn_addr n \<le> p \<and> p < hn_addr n + hn_size n then Some ([], n, ns)
      else map_option (\<lambda>(as, np, bs). (n # as, np, bs)) (find_used p ns))"

text \<open>
  The merge loop over the free list: \<open>np\<close> is merged into a neighbour (\<open>True\<close>: its node
  is spare now), or linked behind the first node that ends below it, or at the end.
\<close>

fun merge_free :: "heap_node \<Rightarrow> heap_node list \<Rightarrow> bool \<times> heap_node list" where
  "merge_free np [] = (False, [np])"
| "merge_free np (n # ns) =
     (if hn_addr np + hn_size np = hn_addr n then (True, n\<lparr>hn_addr := hn_addr np, hn_size := hn_size n + hn_size np\<rparr> # ns)
      else if hn_addr np = hn_addr n + hn_size n then (True, n\<lparr>hn_size := hn_size n + hn_size np\<rparr> # ns)
      else if hn_addr n + hn_size n < hn_addr np then (False, n # np # ns)
      else (let (m, ns') = merge_free np ns in (m, n # ns')))"

definition sbi_free_from :: "sbi_heap_control \<Rightarrow> u64 \<Rightarrow> sbi_heap_control" where
  "sbi_free_from h p =
     (if p = 0 then h
      else case find_used p (used_space_list h) of
        None \<Rightarrow> h
      | Some (as, np, bs) \<Rightarrow>
          (let (merged, fs) = merge_free np (free_space_list h) in
           h\<lparr>used_space_list := as @ bs, free_space_list := fs,
             free_node_list := free_node_list h @ (if merged then [np] else [])\<rparr>))"

definition sbi_heap_free_space_from :: "sbi_heap_control \<Rightarrow> u64" where
  "sbi_heap_free_space_from h = sum_list (map hn_size (free_space_list h))"

text \<open>\<open>sbi_heap_free_space()\<close> is the free space of the global heap \<open>g\<close>, whatever \<open>h\<close> is.\<close>

definition sbi_heap_used_space_from :: "sbi_heap_control \<Rightarrow> sbi_heap_control \<Rightarrow> u64" where
  "sbi_heap_used_space_from g h = hc_size h - hksize h - sbi_heap_free_space_from g"

definition sbi_heap_reserved_space_from :: "sbi_heap_control \<Rightarrow> u64" where
  "sbi_heap_reserved_space_from h = hksize h"

text \<open>
  Initialisation; \<open>None\<close>: the first entry of the empty node list, the list head itself, would
  be unlinked and written as if it were a node.
\<close>

definition sbi_heap_init_new :: "u64 \<Rightarrow> u64 \<Rightarrow> sbi_heap_control option" where
  "sbi_heap_init_new base sz =
     (let hks = (sz div HEAP_HOUSEKEEPING_FACTOR) AND NOT (HEAP_BASE_ALIGN - 1) in
      case replicate (unat (hks div sizeof_heap_node)) \<lparr>hn_addr = 0, hn_size = 0\<rparr> of
        [] \<Rightarrow> None
      | n # ns \<Rightarrow>
          Some \<lparr>hc_base = base, hc_size = sz, hkbase = base, hksize = hks, free_node_list = ns,
            free_space_list = [n\<lparr>hn_addr := base + hks, hn_size := sz - hks\<rparr>], used_space_list = []\<rparr>)"

record fw_layout =
  fw_start :: u64
  fw_size :: u64
  fw_rw_offset :: u64
  fw_heap_offset :: u64
  fw_heap_size :: u64

definition sbi_heap_init :: "fw_layout \<Rightarrow> sbi_heap_control \<Rightarrow> (int \<times> sbi_heap_control) option" where
  "sbi_heap_init s g =
     (if fw_heap_size s = 0 \<or> fw_heap_size s AND (HEAP_BASE_ALIGN - 1) \<noteq> 0 \<or>
         fw_heap_offset s < fw_rw_offset s \<or> fw_size s < fw_heap_offset s + fw_heap_size s \<or>
         fw_heap_offset s AND (HEAP_BASE_ALIGN - 1) \<noteq> 0
      then Some (SBI_EINVAL, g)
      else map_option (\<lambda>h. (0, h)) (sbi_heap_init_new (fw_start s + fw_heap_offset s) (fw_heap_size s)))"

section \<open>Coverage of the arena\<close>

definition holds_addr :: "heap_node \<Rightarrow> nat \<Rightarrow> bool" where
  "holds_addr n a \<longleftrightarrow> unat (hn_addr n) \<le> a \<and> a < unat (hn_addr n) + unat (hn_size n)"

definition cover :: "heap_node list \<Rightarrow> nat \<Rightarrow> nat" where
  "cover ns a = length (filter (\<lambda>n. holds_addr n a) ns)"

definition arena_lo :: "sbi_heap_control \<Rightarrow> nat" where
  "arena_lo h = unat (hkbase h) + unat (hksize h)"

definition arena_hi :: "sbi_heap_control \<Rightarrow> nat" where
  "arena_hi h = unat (hc_base h) + unat (hc_size h)"

definition tiles :: "sbi_heap_control \<Rightarrow> bool" where
  "tiles h \<longleftrightarrow>
     (\<forall>a. cover (free_space_list h) a + cover (used_space_list h) a =
        (if arena_lo h \<le> a \<and> a < arena_hi h then 1 else 0))"

definition heap_inv :: "sbi_heap_control \<Rightarrow> bool" where
  "heap_inv h \<longleftrightarrow>
     0 < arena_lo h \<and> arena_hi h < 2 ^ 64 \<and>
     (\<forall>n \<in> set (free_space_list h @ used_space_list h). hn_size n \<noteq> 0) \<and> tiles h"

definition node_count :: "sbi_heap_control \<Rightarrow> nat" where
  "node_count h = length (free_node_list h) + length (free_space_list h) + length (used_space_list h)"


section \<open>Rounding\<close>

definition pow2 :: "u64 \<Rightarrow> bool" where
  "pow2 b \<longleftrightarrow> (\<exists>k<64. b = 2 ^ k)"

lemma pow2_unat:
  assumes "pow2 b"
  obtains k where "k < 64" "b = 2 ^ k" "unat b = 2 ^ k"
proof -
  obtain k where k: "k < 64" "b = 2 ^ k" using assms by (auto simp: pow2_def)
  then have "unat b = 2 ^ k" by (simp add: unat_pow2_u64)
  with k that show thesis by blast
qed

lemma and_not_mask: "unat (w AND NOT (2 ^ k - 1) :: u64) = unat w div 2 ^ k * 2 ^ k"
proof -
  have "w AND NOT (2 ^ k - 1) = push_bit k (drop_bit k w)"
    by (rule bit_eqI) (auto simp: bit_simps mask_eq_exp_minus_1 [symmetric])
  also have "unat \<dots> = take_bit 64 (unat w div 2 ^ k * 2 ^ k)"
    using u64_less [of w] by (simp only: unsigned_push_bit_eq unsigned_drop_bit_eq)
      (simp add: push_bit_eq_mult drop_bit_eq_div take_bit_eq_mod)
  also have "\<dots> = unat w div 2 ^ k * 2 ^ k"
    using u64_less [of w] le_less_trans [of "unat w div 2 ^ k * 2 ^ k" "unat w" "2 ^ 64"]
    by (simp add: take_bit_eq_mod)
  finally show ?thesis .
qed


lemma round_size_props:
  assumes "pow2 b" and "sz \<noteq> 0" and "unat sz + unat b \<le> 2 ^ 64"
  shows "unat sz \<le> unat (round_size b sz)" "unat (round_size b sz) < unat sz + unat b"
    "unat b dvd unat (round_size b sz)" "round_size b sz \<noteq> 0"
proof -
  obtain k where k: "k < 64" "b = 2 ^ k" "unat b = 2 ^ k" by (rule pow2_unat [OF assms(1)])
  have bm: "unat (b - 1) = 2 ^ k - 1"
    using k by (simp add: unat_minus_one)
  have "unat (sz + (b - 1)) = unat sz + (2 ^ k - 1)"
    using assms(3) k bm by (simp add: unat_word_ariths)
  then have r: "unat (round_size b sz) = (unat sz + (2 ^ k - 1)) div 2 ^ k * 2 ^ k"
    unfolding round_size_def using k(2) by (simp only: and_not_mask)
  let ?x = "unat sz + (2 ^ k - 1)"
  have m: "?x div 2 ^ k * 2 ^ k + ?x mod 2 ^ k = ?x" "?x mod 2 ^ k < 2 ^ k"
    by (simp_all only: div_mult_mod_eq) simp
  have z: "0 < unat sz" using assms(2) by (simp add: unat_gt_0)
  show "unat sz \<le> unat (round_size b sz)" "unat (round_size b sz) < unat sz + unat b"
    using m r k(3) z by linarith+
  then show "round_size b sz \<noteq> 0" using z by auto
  show "unat b dvd unat (round_size b sz)" by (simp add: r k(3))
qed

lemma node_pad_props:
  assumes "pow2 b" and "hn_addr n \<noteq> 0"
  shows "unat (node_pad b n) < unat b" "unat b dvd unat (hn_addr n) + unat (node_pad b n)"
    "ROUNDUP (hn_addr n) b = hn_addr n + node_pad b n"
proof -
  obtain k where k: "k < 64" "b = 2 ^ k" "unat b = 2 ^ k" by (rule pow2_unat [OF assms(1)])
  let ?A = "unat (hn_addr n)"
  define q where "q = (?A - 1) div 2 ^ k + 1"
  have A: "0 < ?A" using assms(2) by (simp add: unat_gt_0)
  have "(?A - 1) div 2 ^ k * 2 ^ k + (?A - 1) mod 2 ^ k = ?A - 1" "(?A - 1) mod 2 ^ k < 2 ^ k"
    by (simp_all only: div_mult_mod_eq) simp
  moreover have "q * 2 ^ k = (?A - 1) div 2 ^ k * 2 ^ k + 2 ^ k" by (simp add: q_def)
  ultimately have q: "?A \<le> q * 2 ^ k" "q * 2 ^ k < ?A + 2 ^ k"
    using A by linarith+
  have "ROUNDUP (hn_addr n) b = of_nat (q * 2 ^ k)"
    using k assms(2)
    by (simp add: ROUNDUP_def q_def word_arith_nat_div unat_minus_one algebra_simps)
  then have "node_pad b n = of_nat (q * 2 ^ k) - of_nat ?A"
    by (simp add: node_pad_def)
  also have "\<dots> = of_nat (q * 2 ^ k - ?A)"
    using q(1) by (simp only: of_nat_diff)
  finally have "unat (node_pad b n) = (q * 2 ^ k - ?A) mod 2 ^ 64"
    by (simp only: unat_of_nat) simp
  moreover have "q * 2 ^ k - ?A < 2 ^ k" using q by linarith
  moreover have "(2::nat) ^ k < 2 ^ 64" using power_strict_increasing [OF k(1), of "2::nat"] by simp
  ultimately have p: "unat (node_pad b n) = q * 2 ^ k - ?A" by simp
  show "unat (node_pad b n) < unat b" using p q k(3) by simp
  have "?A + unat (node_pad b n) = q * 2 ^ k" using p q by simp
  then show "unat b dvd ?A + unat (node_pad b n)" by (simp add: k(3))
  show "ROUNDUP (hn_addr n) b = hn_addr n + node_pad b n" by (simp add: node_pad_def)
qed

section \<open>Segments\<close>

definition seg :: "nat \<Rightarrow> nat \<Rightarrow> nat \<Rightarrow> nat" where
  "seg x l a = (if x \<le> a \<and> a < x + l then 1 else 0)"

lemma seg_split: "seg x (l1 + l2) a = seg x l1 a + seg (x + l1) l2 a"
  by (simp add: seg_def)

lemma cover_simps [simp]:
  "cover [] a = 0"
  "cover (n # ns) a = seg (unat (hn_addr n)) (unat (hn_size n)) a + cover ns a"
  "cover (ns @ ms) a = cover ns a + cover ms a"
  by (simp_all add: cover_def holds_addr_def seg_def)

lemma cover_member: "n \<in> set ns \<Longrightarrow> holds_addr n a \<Longrightarrow> 0 < cover ns a"
  by (auto simp: cover_def filter_empty_conv)

lemma inv_node:
  assumes "heap_inv h" and "n \<in> set (free_space_list h @ used_space_list h)"
  shows "arena_lo h \<le> unat (hn_addr n)" "unat (hn_addr n) + unat (hn_size n) \<le> arena_hi h"
    "0 < unat (hn_size n)" "hn_addr n \<noteq> 0"
proof -
  show sz: "0 < unat (hn_size n)" using assms by (auto simp: heap_inv_def unat_gt_0)
  have "arena_lo h \<le> a \<and> a < arena_hi h" if "holds_addr n a" for a
  proof -
    have "0 < cover (free_space_list h) a + cover (used_space_list h) a"
      using cover_member [OF assms(2) that] by simp
    moreover have "cover (free_space_list h) a + cover (used_space_list h) a =
        (if arena_lo h \<le> a \<and> a < arena_hi h then 1 else 0)"
      using assms(1) by (simp only: heap_inv_def tiles_def)
    ultimately show ?thesis by (simp split: if_splits)
  qed
  from this [of "unat (hn_addr n)"] this [of "unat (hn_addr n) + unat (hn_size n) - 1"] sz
  show b: "arena_lo h \<le> unat (hn_addr n)" "unat (hn_addr n) + unat (hn_size n) \<le> arena_hi h"
    unfolding holds_addr_def by linarith+
  show "hn_addr n \<noteq> 0" using b(1) assms(1) by (auto simp: heap_inv_def)
qed


section \<open>Allocation\<close>

lemma find_free_Some:
  assumes "find_free b sz ns = Some (as, np, bs)"
  shows "ns = as @ np # bs" "sz + node_pad b np \<le> hn_size np"
  using assms by (induction ns arbitrary: as) (auto split: if_splits)

text \<open>What an allocation does to the lists, in one statement for all its branches.\<close>

definition carved :: "sbi_heap_control \<Rightarrow> sbi_heap_control \<Rightarrow> u64 \<Rightarrow> u64 \<Rightarrow> bool" where
  "carved h h' p sz \<longleftrightarrow>
     heap_inv h' \<and> node_count h' = node_count h \<and>
     hc_base h' = hc_base h \<and> hc_size h' = hc_size h \<and> hkbase h' = hkbase h \<and> hksize h' = hksize h \<and>
     (\<exists>n. hn_addr n = p \<and> hn_size n = sz \<and> used_space_list h' = used_space_list h @ [n])"

lemma carvedI:
  assumes "heap_inv h"
    and "hc_base h' = hc_base h" "hc_size h' = hc_size h" "hkbase h' = hkbase h" "hksize h' = hksize h"
    and "node_count h' = node_count h"
    and "used_space_list h' = used_space_list h @ [n]" "hn_addr n = p" "hn_size n = sz" "sz \<noteq> 0"
    and "\<forall>m \<in> set (free_space_list h'). hn_size m \<noteq> 0"
    and "\<And>a. cover (free_space_list h') a + seg (unat p) (unat sz) a = cover (free_space_list h) a"
  shows "carved h h' p sz"
proof -
  have c: "cover (free_space_list h') a + cover (used_space_list h') a =
      cover (free_space_list h) a + cover (used_space_list h) a" for a
    using assms(12) [of a] by (simp add: assms(7,8,9))
  have ar: "arena_lo h' = arena_lo h" "arena_hi h' = arena_hi h"
    using assms(2-5) by (simp_all add: arena_lo_def arena_hi_def)
  have "tiles h' = tiles h" by (simp only: tiles_def c ar)
  then have "heap_inv h'"
    using assms(1,7-11) by (auto simp: heap_inv_def ar)
  then show ?thesis using assms by (auto simp: carved_def)
qed

definition carvable :: "sbi_heap_control \<Rightarrow> u64 \<Rightarrow> u64 \<Rightarrow> heap_node list \<Rightarrow> heap_node \<Rightarrow>
    heap_node list \<Rightarrow> bool" where
  "carvable h align sz as np bs \<longleftrightarrow>
     heap_inv h \<and> pow2 align \<and> sz \<noteq> 0 \<and> unat sz + unat align \<le> 2 ^ 64 \<and>
     free_space_list h = as @ np # bs \<and> sz + node_pad align np \<le> hn_size np"

lemma carvableD:
  assumes "carvable h align sz as np bs"
  shows "heap_inv h" "pow2 align" "sz \<noteq> 0" "unat sz + unat align \<le> 2 ^ 64"
    "free_space_list h = as @ np # bs" "sz + node_pad align np \<le> hn_size np"
    "arena_hi h < 2 ^ 64" "\<forall>m \<in> set (as @ bs). hn_size m \<noteq> 0"
    "unat (hn_addr np) + unat (hn_size np) \<le> arena_hi h" "hn_addr np \<noteq> 0"
  using assms inv_node [of h np] by (auto simp: carvable_def heap_inv_def)

text \<open>No sum or difference of the carving wraps.\<close>

lemma carve_unat:
  assumes "carvable h align sz as np bs"
  shows "unat (sz + node_pad align np) = unat sz + unat (node_pad align np)"
    and "unat sz + unat (node_pad align np) \<le> unat (hn_size np)"
    and "unat (ROUNDUP (hn_addr np) align) = unat (hn_addr np) + unat (node_pad align np)"
    and "unat (hn_addr np + (sz + node_pad align np)) = unat (hn_addr np) + (unat sz + unat (node_pad align np))"
    and "unat (hn_size np - (sz + node_pad align np)) = unat (hn_size np) - (unat sz + unat (node_pad align np))"
proof -
  note c = carvableD [OF assms]
  show sum_unat: "unat (sz + node_pad align np) = unat sz + unat (node_pad align np)"
    using node_pad_props(1) [OF c(2,10)] c(4) by (simp add: unat_word_ariths)
  show fits_unat: "unat sz + unat (node_pad align np) \<le> unat (hn_size np)"
    using c(6) sum_unat by (simp add: word_le_nat_alt)
  show "unat (ROUNDUP (hn_addr np) align) = unat (hn_addr np) + unat (node_pad align np)"
    using node_pad_props(3) [OF c(2,10)] fits_unat c(7,9) by (simp add: unat_word_ariths)
  show "unat (hn_addr np + (sz + node_pad align np)) =
      unat (hn_addr np) + (unat sz + unat (node_pad align np))"
    using sum_unat fits_unat c(7,9) unat_add_lem [of "hn_addr np" "sz + node_pad align np"] by simp
  show "unat (hn_size np - (sz + node_pad align np)) = unat (hn_size np) - (unat sz + unat (node_pad align np))"
    using c(6) sum_unat by (simp add: unat_sub)
qed

lemma padded_carves:
  assumes "carvable h align sz as np bs" and "node_pad align np \<noteq> 0" and "alloc_padded h align sz as np bs = (p, h')" and "p \<noteq> 0"
  shows "carved h h' p sz" "p = ROUNDUP (hn_addr np) align"
proof -
  note c = carvableD [OF assms(1)] and u = carve_unat [OF assms(1)]
  let ?P = "unat (node_pad align np)" and ?A = "unat (hn_addr np)" and ?S = "unat (hn_size np)"
  obtain n fns where fnl: "free_node_list h = n # fns"
    using assms(3,4) by (auto simp: alloc_padded_def Let_def split: list.splits)
  show p: "p = ROUNDUP (hn_addr np) align"
    using assms(3,4) fnl by (auto simp: alloc_padded_def Let_def split: if_splits)
  show "carved h h' p sz"
  proof (cases "sz + node_pad align np < hn_size np \<and> fns \<noteq> []")
    case True
    then obtain m ms where fns: "fns = m # ms" by (cases fns) auto
    have less: "unat sz + ?P < ?S" using True u(1) by (simp add: word_less_nat_alt)
    have "seg ?A ?S a = seg ?A ?P a + (seg (?A + ?P) (unat sz) a + seg (?A + (unat sz + ?P)) (?S - (unat sz + ?P)) a)" for a
      using seg_split [of ?A ?P "?S - ?P" a] seg_split [of "?A + ?P" "unat sz" "?S - (unat sz + ?P)" a] less
      by (simp add: algebra_simps)
    moreover have "hn_size np - (sz + node_pad align np) \<noteq> 0" using True by auto
    ultimately show ?thesis
      using assms(2-4) True fnl fns c(3,5,8)
      by (intro carvedI [OF c(1)])
        (auto simp: alloc_padded_def Let_def node_count_def u)
  next
    case False
    then have exact: "sz + node_pad align np = hn_size np"
      using assms(3,4) fnl by (auto simp: alloc_padded_def Let_def split: if_splits)
    then have "?S = ?P + unat sz" using u(1) by simp
    then have "seg ?A ?S a = seg ?A ?P a + seg (?A + ?P) (unat sz) a" for a
      by (simp add: seg_split)
    then show ?thesis
      using assms(2-4) False exact fnl c(3,5,8)
      by (intro carvedI [OF c(1)]) (auto simp: alloc_padded_def Let_def node_count_def u)
  qed
qed

lemma unpadded_carves:
  assumes "carvable h align sz as np bs" and "node_pad align np = 0" and "alloc_unpadded h sz as np bs = (p, h')" and "p \<noteq> 0"
  shows "carved h h' p sz" "p = ROUNDUP (hn_addr np) align"
proof -
  note c = carvableD [OF assms(1)] and u = carve_unat [OF assms(1)]
  let ?A = "unat (hn_addr np)" and ?S = "unat (hn_size np)"
  show "p = ROUNDUP (hn_addr np) align"
    using assms node_pad_props(3) [OF c(2,10)]
    by (auto simp: alloc_unpadded_def split: if_splits)
  show "carved h h' p sz"
  proof (cases "sz < hn_size np \<and> free_node_list h \<noteq> []")
    case True
    then obtain m ms where fnl: "free_node_list h = m # ms" by (cases "free_node_list h") auto
    have "seg ?A ?S a = seg ?A (unat sz) a + seg (?A + unat sz) (?S - unat sz) a" for a
      using seg_split [of ?A "unat sz" "?S - unat sz" a] True by (simp add: word_less_nat_alt)
    moreover have "hn_size np - sz \<noteq> 0" using True by auto
    ultimately show ?thesis
      using assms(2-4) True fnl c(3,5,8) u(4,5)
      by (intro carvedI [OF c(1)]) (auto simp: alloc_unpadded_def node_count_def)
  next
    case False
    then have "sz = hn_size np" using assms(3,4) by (auto simp: alloc_unpadded_def split: if_splits)
    then show ?thesis
      using assms(2-4) False c(3,5,8)
      by (intro carvedI [OF c(1), where n = np]) (auto simp: alloc_unpadded_def node_count_def)
  qed
qed


lemma alloc_with_align_carves:
  assumes "heap_inv h" and "pow2 b" and "unat sz + 2 * unat b \<le> 2 ^ 64"
    and "alloc_with_align h b sz = (p, h')" and "p \<noteq> 0"
  shows "carved h h' p (round_size b sz)" "unat b dvd unat p" "sz \<noteq> 0"
proof -
  show nz: "sz \<noteq> 0" using assms(4,5) by (auto simp: alloc_with_align_def)
  let ?z = "round_size b sz"
  note r = round_size_props [OF assms(2) nz]
  obtain as np bs where f: "find_free b ?z (free_space_list h) = Some (as, np, bs)"
    using assms(4,5) nz by (auto simp: alloc_with_align_def Let_def split: option.splits)
  have c: "carvable h b ?z as np bs"
    using find_free_Some [OF f] assms(1-3) r by (simp add: carvable_def)
  have "carved h h' p ?z \<and> p = ROUNDUP (hn_addr np) b"
    using assms(4,5) nz f padded_carves [OF c] unpadded_carves [OF c]
    by (auto simp: alloc_with_align_def Let_def split: if_splits)
  moreover have "unat b dvd unat (ROUNDUP (hn_addr np) b)"
    using carve_unat(3) [OF c] node_pad_props(2) [OF assms(2)] carvableD(10) [OF c] by simp
  ultimately show "carved h h' p ?z" "unat b dvd unat p" by blast+
qed

text \<open>A failed allocation changes nothing.\<close>

lemma alloc_with_align_NULL:
  assumes "alloc_with_align h b sz = (0, h')" and "heap_inv h" and "pow2 b"
    and "unat sz + 2 * unat b \<le> 2 ^ 64"
  shows "h' = h"
proof (cases "sz = 0 \<or> find_free b (round_size b sz) (free_space_list h) = None")
  case True
  with assms(1) show ?thesis
    by (cases "sz = 0") (simp_all add: alloc_with_align_def Let_def)
next
  case False
  then obtain as np bs where f: "find_free b (round_size b sz) (free_space_list h) = Some (as, np, bs)"
    by auto
  note r = round_size_props [OF assms(3), of sz]
  have c: "carvable h b (round_size b sz) as np bs"
    using find_free_Some [OF f] assms False r by (simp add: carvable_def)
  have nz: "hn_addr np \<noteq> 0" "ROUNDUP (hn_addr np) b \<noteq> 0"
    using carvableD(10) [OF c] carve_unat(3) [OF c] by (auto simp: unat_eq_zero)
  then show ?thesis
    using assms(1) False f
    by (auto simp: alloc_with_align_def alloc_padded_def alloc_unpadded_def Let_def
        split: if_splits list.splits)
qed

section \<open>Freeing\<close>

lemma find_used_Some:
  assumes "find_used p ns = Some (as, np, bs)"
  shows "ns = as @ np # bs" "hn_addr np \<le> p" "p < hn_addr np + hn_size np"
  using assms by (induction ns arbitrary: as) (auto split: if_splits)

lemma find_used_None:
  "find_used p ns = None \<longleftrightarrow> (\<forall>n \<in> set ns. \<not> (hn_addr n \<le> p \<and> p < hn_addr n + hn_size n))"
  by (induction ns) auto

lemma merge_free_props:
  assumes "merge_free np ns = (m, ns')" and "hn_size np \<noteq> 0"
    and "\<forall>n \<in> set (np # ns). hn_size n \<noteq> 0 \<and> unat (hn_addr n) + unat (hn_size n) < 2 ^ 64"
    and "\<forall>n \<in> set ns. unat (hn_size n) + unat (hn_size np) < 2 ^ 64"
  shows "length ns' + (if m then 1 else 0) = Suc (length ns) \<and> (\<forall>n \<in> set ns'. hn_size n \<noteq> 0) \<and>
    (\<forall>a. cover ns' a = cover ns a + seg (unat (hn_addr np)) (unat (hn_size np)) a)"
  using assms
proof (induction ns arbitrary: ns')
  case Nil
  then show ?case by auto
next
  case (Cons n ns)
  let ?A = "unat (hn_addr np)" and ?S = "unat (hn_size np)"
  let ?a = "unat (hn_addr n)" and ?s = "unat (hn_size n)"
  have nw: "unat (hn_addr np + hn_size np) = ?A + ?S" "unat (hn_addr n + hn_size n) = ?a + ?s"
    "unat (hn_size n + hn_size np) = ?s + ?S"
    using Cons.prems(3,4) by (auto simp: unat_word_ariths)
  then have nz: "hn_size n + hn_size np \<noteq> 0" using Cons.prems(2) by (auto simp: unat_eq_zero)
  show ?case
  proof (cases "hn_addr np + hn_size np = hn_addr n")
    case True
    then have "?A + ?S = ?a" using nw(1) by simp
    then have "seg ?A (?s + ?S) a = seg ?A ?S a + seg ?a ?s a" for a
      using seg_split [of ?A ?S ?s a] by (simp add: add.commute)
    with True Cons.prems nw nz show ?thesis by auto
  next
    case n1: False
    show ?thesis
    proof (cases "hn_addr np = hn_addr n + hn_size n")
      case True
      then have "?A = ?a + ?s" using nw(2) by simp
      then have "seg ?a (?s + ?S) a = seg ?a ?s a + seg ?A ?S a" for a
        by (simp add: seg_split)
      with True n1 Cons.prems nw nz show ?thesis by auto
    next
      case False
      with n1 Cons show ?thesis
        by (cases "merge_free np ns") (auto split: if_splits)
    qed
  qed
qed


text \<open>
  A free and a used block are disjoint parts of the arena, so their sizes add up to at most the
  size of the arena.
\<close>

lemma free_used_sizes:
  assumes "heap_inv h" and "n \<in> set (free_space_list h)" and "m \<in> set (used_space_list h)"
  shows "unat (hn_size n) + unat (hn_size m) \<le> arena_hi h"
proof -
  note n = inv_node [OF assms(1), of n] and m = inv_node [OF assms(1), of m]
  have "\<not> (holds_addr n a \<and> holds_addr m a)" for a
  proof
    assume "holds_addr n a \<and> holds_addr m a"
    then have "0 < cover (free_space_list h) a" "0 < cover (used_space_list h) a"
      using cover_member assms(2,3) by blast+
    moreover have "cover (free_space_list h) a + cover (used_space_list h) a =
        (if arena_lo h \<le> a \<and> a < arena_hi h then 1 else 0)"
      using assms(1) by (simp only: heap_inv_def tiles_def)
    ultimately show False by (simp split: if_splits)
  qed
  from this [of "unat (hn_addr n)"] this [of "unat (hn_addr m)"] show ?thesis
    using n m assms(2,3) by (auto simp: holds_addr_def)
qed

text \<open>No address lies in two used blocks, so the node that is freed is the one asked for.\<close>

lemma used_unique:
  assumes "heap_inv h" and "used_space_list h = as @ n # bs" and "holds_addr n a"
  shows "\<forall>m \<in> set (as @ bs). \<not> holds_addr m a"
proof -
  have "cover (used_space_list h) a \<le> 1"
  proof -
    have "cover (free_space_list h) a + cover (used_space_list h) a =
        (if arena_lo h \<le> a \<and> a < arena_hi h then 1 else 0)"
      using assms(1) by (simp only: heap_inv_def tiles_def)
    then show ?thesis by (simp split: if_splits)
  qed
  then have "cover (as @ bs) a = 0"
    using assms(3) by (simp add: assms(2) seg_def holds_addr_def)
  then show ?thesis using cover_member [of _ "as @ bs" a] by auto
qed

lemma sbi_free_from_inv:
  assumes "heap_inv h"
  shows "heap_inv (sbi_free_from h p)" "node_count (sbi_free_from h p) = node_count h"
    "arena_lo (sbi_free_from h p) = arena_lo h" "arena_hi (sbi_free_from h p) = arena_hi h"
proof -
  have main: "heap_inv (sbi_free_from h p) \<and> node_count (sbi_free_from h p) = node_count h \<and>
      arena_lo (sbi_free_from h p) = arena_lo h \<and> arena_hi (sbi_free_from h p) = arena_hi h"
  proof (cases "p = 0 \<or> find_used p (used_space_list h) = None")
    case True
    with assms show ?thesis by (auto simp: sbi_free_from_def)
  next
    case False
    then obtain as np bs where f: "find_used p (used_space_list h) = Some (as, np, bs)" by auto
    note u = find_used_Some [OF f]
    obtain m fs where mf: "merge_free np (free_space_list h) = (m, fs)" by (cases "merge_free np (free_space_list h)")
    have bnd: "hn_size n \<noteq> 0 \<and> unat (hn_addr n) + unat (hn_size n) < 2 ^ 64"
      if "n \<in> set (np # free_space_list h)" for n
      using that inv_node [OF assms, of n] assms u(1) by (auto simp: heap_inv_def unat_gt_0)
    have two: "unat (hn_size n) + unat (hn_size np) < 2 ^ 64" if "n \<in> set (free_space_list h)" for n
      using that free_used_sizes [OF assms that, of np] u(1) assms by (simp add: heap_inv_def)
    have mp: "length fs + (if m then 1 else 0) = Suc (length (free_space_list h))"
      "\<forall>n \<in> set fs. hn_size n \<noteq> 0"
      "\<forall>a. cover fs a = cover (free_space_list h) a + seg (unat (hn_addr np)) (unat (hn_size np)) a"
      using merge_free_props [OF mf] bnd two by auto
    let ?h = "h\<lparr>used_space_list := as @ bs, free_space_list := fs,
      free_node_list := free_node_list h @ (if m then [np] else [])\<rparr>"
    have eq: "sbi_free_from h p = ?h" using False f mf by (simp add: sbi_free_from_def)
    have ar: "arena_lo ?h = arena_lo h" "arena_hi ?h = arena_hi h"
      by (simp_all add: arena_lo_def arena_hi_def)
    have "cover fs a + cover (as @ bs) a = cover (free_space_list h) a + cover (used_space_list h) a" for a
      using mp(3) u(1) by simp
    then have "tiles ?h = tiles h" by (simp add: tiles_def ar del: cover_simps)
    then have "heap_inv ?h" using assms mp(2) u(1) by (auto simp: heap_inv_def ar)
    then show ?thesis using mp(1) u(1) by (auto simp: eq ar node_count_def split: if_splits)
  qed
  then show "heap_inv (sbi_free_from h p)" "node_count (sbi_free_from h p) = node_count h"
    "arena_lo (sbi_free_from h p) = arena_lo h" "arena_hi (sbi_free_from h p) = arena_hi h"
    by simp_all
qed


section \<open>The power-of-two test\<close>

lemma top_bit_nat:
  assumes "2 ^ k \<le> (m::nat)" and "m < 2 ^ Suc k"
  shows "bit m k"
proof -
  have "m div 2 ^ k = 1" using assms by (intro div_nat_eqI) auto
  then show ?thesis by (simp add: bit_iff_odd)
qed

lemma pow2_test:
  assumes "w AND (w - 1) = 0" and "w \<noteq> (0 :: u64)"
  shows "pow2 w"
proof -
  have "1 \<le> unat w" using assms(2) by (simp add: unat_gt_0 Suc_le_eq)
  then obtain k where k: "2 ^ k \<le> unat w" "unat w < 2 ^ Suc k"
    using ex_power_ivl1 [of 2 "unat w"] by auto
  have k64: "k < 64"
    using k(1) u64_less [of w] power_less_imp_less_exp [of "2::nat" k 64] by simp
  have "w = 2 ^ k"
  proof (rule ccontr)
    assume "w \<noteq> 2 ^ k"
    then have "unat w \<noteq> 2 ^ k" using unat_pow2_u64 [OF k64] by (metis word_unat_eq_iff)
    then have "2 ^ k \<le> unat (w - 1)" "unat (w - 1) < 2 ^ Suc k"
      using k assms(2) by (simp_all add: unat_minus_one)
    then have "bit (unat w) k" "bit (unat (w - 1)) k"
      using top_bit_nat k by blast+
    then have "bit (w AND (w - 1)) k"
      by (simp add: bit_and_iff bit_unsigned_iff)
    with assms(1) show False by simp
  qed
  with k64 show ?thesis by (auto simp: pow2_def)
qed

section \<open>The allocator interface\<close>

datatype 'r alloc_op = Alloc 'r | Free nat

definition block_holds :: "nat \<times> nat \<Rightarrow> nat \<Rightarrow> bool" where
  "block_holds b a \<longleftrightarrow> fst b \<le> a \<and> a < fst b + snd b"

fun run_ops :: "('h \<Rightarrow> 'r \<Rightarrow> nat option \<times> 'h) \<Rightarrow> ('h \<Rightarrow> nat \<Rightarrow> 'h) \<Rightarrow> 'h \<Rightarrow> 'r alloc_op list \<Rightarrow> 'h" where
  "run_ops alloc free h [] = h"
| "run_ops alloc free h (Alloc r # os) = run_ops alloc free (snd (alloc h r)) os"
| "run_ops alloc free h (Free p # os) = run_ops alloc free (free h p) os"

text \<open>
  What a client of an allocator may rely on; \<open>live\<close> are the blocks handed out and not yet
  freed.  A free of any address inside a block frees that block; of any other address, nothing.
\<close>

locale allocator =
  fixes inv :: "'h \<Rightarrow> bool" and live :: "'h \<Rightarrow> (nat \<times> nat) set"
    and ok :: "'r \<Rightarrow> bool" and need :: "'r \<Rightarrow> nat" and boundary :: "'r \<Rightarrow> nat"
    and alloc :: "'h \<Rightarrow> 'r \<Rightarrow> nat option \<times> 'h" and free :: "'h \<Rightarrow> nat \<Rightarrow> 'h"
  assumes alloc_None: "inv h \<Longrightarrow> ok r \<Longrightarrow> fst (alloc h r) = None \<Longrightarrow> snd (alloc h r) = h"
    and alloc_Some: "inv h \<Longrightarrow> ok r \<Longrightarrow> fst (alloc h r) = Some p \<Longrightarrow>
      inv (snd (alloc h r)) \<and> boundary r dvd p \<and>
      (\<exists>l \<ge> need r. live (snd (alloc h r)) = insert (p, l) (live h) \<and>
        (\<forall>b \<in> live h. \<forall>a. \<not> (block_holds b a \<and> block_holds (p, l) a)))"
    and free_live: "inv h \<Longrightarrow>
      inv (free h p) \<and> live (free h p) = {b \<in> live h. \<not> block_holds b p}"
    and disjoint_live: "inv h \<Longrightarrow> b \<in> live h \<Longrightarrow> c \<in> live h \<Longrightarrow> b \<noteq> c \<Longrightarrow>
      \<not> (block_holds b a \<and> block_holds c a)"
begin

lemma alloc_inv: "inv h \<Longrightarrow> ok r \<Longrightarrow> inv (snd (alloc h r))"
  using alloc_None [of h r] alloc_Some [of h r] by (cases "fst (alloc h r)") auto

lemma run_inv:
  assumes "inv h" and "\<forall>r. Alloc r \<in> set os \<longrightarrow> ok r"
  shows "inv (run_ops alloc free h os)"
  using assms
proof (induction os arbitrary: h)
  case (Cons x os)
  then show ?case by (cases x) (auto simp: alloc_inv free_live)
qed simp

lemma run_keeps_block:
  assumes "inv h" and "\<forall>r. Alloc r \<in> set os \<longrightarrow> ok r" and "b \<in> live h"
    and "\<forall>p. Free p \<in> set os \<longrightarrow> \<not> block_holds b p"
  shows "b \<in> live (run_ops alloc free h os)"
  using assms
proof (induction os arbitrary: h)
  case (Cons x os)
  show ?case
  proof (cases x)
    case (Alloc r)
    have "b \<in> live (snd (alloc h r))"
      using Alloc Cons.prems alloc_None [of h r] alloc_Some [of h r]
      by (cases "fst (alloc h r)") auto
    with Alloc Cons show ?thesis by (simp add: alloc_inv)
  next
    case (Free p)
    with Cons show ?thesis by (simp add: free_live)
  qed
qed simp

text \<open>A block handed out later never overlaps one that is still live.\<close>

lemma no_reuse:
  assumes "inv h" and "ok r" and "fst (alloc h r) = Some p"
    and "\<forall>r. Alloc r \<in> set os \<longrightarrow> ok r"
  shows "\<exists>l \<ge> need r. boundary r dvd p \<and> (p, l) \<in> live (snd (alloc h r)) \<and>
    ((\<forall>q. Free q \<in> set os \<longrightarrow> \<not> block_holds (p, l) q) \<longrightarrow>
      (p, l) \<in> live (run_ops alloc free (snd (alloc h r)) os) \<and>
      (\<forall>b \<in> live (run_ops alloc free (snd (alloc h r)) os). \<forall>a.
         b \<noteq> (p, l) \<longrightarrow> \<not> (block_holds b a \<and> block_holds (p, l) a)))"
proof -
  obtain l where l: "need r \<le> l" "(p, l) \<in> live (snd (alloc h r))" "boundary r dvd p"
    using alloc_Some [OF assms(1-3)] by blast
  let ?h = "snd (alloc h r)"
  have inv: "inv ?h" by (rule alloc_inv [OF assms(1,2)])
  show ?thesis
    using l run_keeps_block [OF inv assms(4) l(2)] disjoint_live [OF run_inv [OF inv assms(4)]]
    by blast
qed

end


section \<open>The heap as an allocator\<close>

datatype heap_req = Malloc u64 | AlignedAlloc u64 u64

fun req_size :: "heap_req \<Rightarrow> nat" where
  "req_size (Malloc sz) = unat sz"
| "req_size (AlignedAlloc al sz) = unat sz"

fun req_align :: "heap_req \<Rightarrow> nat" where
  "req_align (Malloc sz) = 64"
| "req_align (AlignedAlloc al sz) = max 64 (unat al)"

text \<open>Requests whose rounded size plus padding does not wrap around in 64 bits.\<close>

definition req_ok :: "heap_req \<Rightarrow> bool" where
  "req_ok r \<longleftrightarrow> req_size r + 2 * req_align r \<le> 2 ^ 64"

fun heap_request :: "sbi_heap_control \<Rightarrow> heap_req \<Rightarrow> u64 \<times> sbi_heap_control" where
  "heap_request h (Malloc sz) = sbi_malloc_from h sz"
| "heap_request h (AlignedAlloc al sz) = sbi_aligned_alloc_from h al sz"

definition heap_alloc :: "sbi_heap_control \<Rightarrow> heap_req \<Rightarrow> nat option \<times> sbi_heap_control" where
  "heap_alloc h r =
     (let (p, h') = heap_request h r in (if p = 0 then None else Some (unat p), h'))"

definition heap_free :: "sbi_heap_control \<Rightarrow> nat \<Rightarrow> sbi_heap_control" where
  "heap_free h p = (if p < 2 ^ 64 then sbi_free_from h (of_nat p) else h)"

definition live_blocks :: "sbi_heap_control \<Rightarrow> (nat \<times> nat) set" where
  "live_blocks h = (\<lambda>n. (unat (hn_addr n), unat (hn_size n))) ` set (used_space_list h)"

lemma block_holds_node: "block_holds (unat (hn_addr n), unat (hn_size n)) a \<longleftrightarrow> holds_addr n a"
  by (simp add: block_holds_def holds_addr_def)

text \<open>Both entry points come down to \<open>alloc_with_align\<close> with a power of two, or fail.\<close>

lemma heap_request_cases:
  assumes "req_ok r"
  obtains "heap_request h r = (0, h)"
  | b sz where "heap_request h r = alloc_with_align h b sz" "pow2 b" "unat b = req_align r"
      "unat sz = req_size r" "unat sz + 2 * unat b \<le> 2 ^ 64"
proof (cases r)
  case (Malloc sz)
  have "pow2 64" by (auto simp: pow2_def intro: exI [of _ 6])
  with Malloc assms that(2) [of HEAP_ALLOC_ALIGN sz] show thesis
    by (simp add: sbi_malloc_from_def HEAP_ALLOC_ALIGN_def req_ok_def)
next
  case (AlignedAlloc al sz)
  let ?b = "if al < HEAP_ALLOC_ALIGN then HEAP_ALLOC_ALIGN else al"
  have b: "unat ?b = req_align r" "?b \<noteq> 0"
    using AlignedAlloc by (auto simp: HEAP_ALLOC_ALIGN_def word_less_nat_alt max_def)
  show thesis
  proof (cases "?b AND (?b - 1) = 0 \<and> sz mod ?b = 0")
    case True
    then have "pow2 ?b" using pow2_test b(2) by blast
    with True AlignedAlloc assms b that(2) [of ?b sz] show thesis
      by (simp add: sbi_aligned_alloc_from_def Let_def req_ok_def)
  next
    case False
    with AlignedAlloc that(1) show thesis
      by (auto simp: sbi_aligned_alloc_from_def Let_def)
  qed
qed

lemma heap_alloc_None:
  assumes "heap_inv h" and "req_ok r" and "fst (heap_alloc h r) = None"
  shows "snd (heap_alloc h r) = h"
  using assms(2)
proof (cases r rule: heap_request_cases [where h = h])
  case 1
  then show ?thesis by (simp add: heap_alloc_def)
next
  case (2 b sz)
  then show ?thesis
    using assms alloc_with_align_NULL [of h b sz]
    by (cases "alloc_with_align h b sz") (auto simp: heap_alloc_def split: if_splits)
qed

lemma heap_alloc_Some:
  assumes "heap_inv h" and "req_ok r" and "fst (heap_alloc h r) = Some p"
  shows "heap_inv (snd (heap_alloc h r)) \<and> req_align r dvd p \<and>
    node_count (snd (heap_alloc h r)) = node_count h \<and>
    (\<exists>l \<ge> req_size r. live_blocks (snd (heap_alloc h r)) = insert (p, l) (live_blocks h) \<and>
      (\<forall>b \<in> live_blocks h. \<forall>a. \<not> (block_holds b a \<and> block_holds (p, l) a)))"
  using assms(2)
proof (cases r rule: heap_request_cases [where h = h])
  case 1
  with assms(3) show ?thesis by (simp add: heap_alloc_def)
next
  case (2 b sz)
  obtain w h' where wh: "alloc_with_align h b sz = (w, h')" by (cases "alloc_with_align h b sz")
  with 2(1) assms(3) have w: "w \<noteq> 0" "p = unat w" "snd (heap_alloc h r) = h'"
    by (auto simp: heap_alloc_def split: if_splits)
  note c = alloc_with_align_carves [OF assms(1) 2(2,5) wh w(1)]
  then obtain n where n: "hn_addr n = w" "hn_size n = round_size b sz"
    "used_space_list h' = used_space_list h @ [n]" and inv: "heap_inv h'" "node_count h' = node_count h"
    by (auto simp: carved_def)
  have "live_blocks h' = insert (p, unat (round_size b sz)) (live_blocks h)"
    using n w by (auto simp: live_blocks_def)
  moreover have "unat sz \<le> unat (round_size b sz)"
    using round_size_props(1) [OF 2(2) c(3)] 2(5) by simp
  moreover have "\<not> (block_holds x a \<and> block_holds (p, unat (round_size b sz)) a)"
    if "x \<in> live_blocks h" for x a
    using that used_unique [OF inv(1), of "used_space_list h" n "[]" a] n w
    by (auto simp: live_blocks_def block_holds_def holds_addr_def)
  ultimately show ?thesis using inv w(3) c(2) 2(3,4) w(2) by metis
qed

lemma heap_free_live:
  assumes "heap_inv h"
  shows "heap_inv (heap_free h p) \<and> live_blocks (heap_free h p) = {b \<in> live_blocks h. \<not> block_holds b p}"
proof (cases "p < 2 ^ 64")
  case True
  have held: "hn_addr n \<le> of_nat p \<and> of_nat p < hn_addr n + hn_size n \<longleftrightarrow> holds_addr n p"
    if "n \<in> set (used_space_list h)" for n
  proof -
    have "unat (hn_addr n + hn_size n) = unat (hn_addr n) + unat (hn_size n)"
      using inv_node [OF assms, of n] that assms by (simp add: heap_inv_def unat_word_ariths)
    then show ?thesis
      using True by (simp add: holds_addr_def word_le_nat_alt word_less_nat_alt unat_of_nat)
  qed
  have "live_blocks (sbi_free_from h (of_nat p)) = {b \<in> live_blocks h. \<not> block_holds b p}"
  proof (cases "find_used (of_nat p) (used_space_list h)")
    case None
    then have "\<forall>n \<in> set (used_space_list h). \<not> holds_addr n p" using held find_used_None by blast
    with None show ?thesis
      by (auto simp: sbi_free_from_def live_blocks_def block_holds_node)
  next
    case (Some t)
    then obtain as n bs where f: "find_used (of_nat p) (used_space_list h) = Some (as, n, bs)"
      by (cases t) auto
    note u = find_used_Some [OF f]
    then have n: "holds_addr n p" using held [of n] by auto
    have nz: "(of_nat p :: u64) \<noteq> 0"
      using u(1,2) inv_node(4) [OF assms, of n] by auto
    have "live_blocks (sbi_free_from h (of_nat p)) =
        (\<lambda>n. (unat (hn_addr n), unat (hn_size n))) ` set (as @ bs)"
      using f nz by (simp add: sbi_free_from_def live_blocks_def split: prod.split)
    then show ?thesis
      using used_unique [OF assms u(1) n] n u(1) by (auto simp: live_blocks_def block_holds_node)
  qed
  with True show ?thesis by (simp add: heap_free_def sbi_free_from_inv [OF assms])
next
  case False
  have "\<not> block_holds b p" if b: "b \<in> live_blocks h" for b
    using b False inv_node(2) [OF assms] assms
    by (fastforce simp: live_blocks_def block_holds_def heap_inv_def)
  with False assms show ?thesis by (auto simp: heap_free_def)
qed

interpretation hp: allocator heap_inv live_blocks req_ok req_size req_align heap_alloc heap_free
proof unfold_locales
  fix h r p
  assume "heap_inv h" "req_ok r"
  then show "snd (heap_alloc h r) = h" if "fst (heap_alloc h r) = None"
    using that by (rule heap_alloc_None)
  show "heap_inv (snd (heap_alloc h r)) \<and> req_align r dvd p \<and>
      (\<exists>l\<ge>req_size r. live_blocks (snd (heap_alloc h r)) = insert (p, l) (live_blocks h) \<and>
        (\<forall>b\<in>live_blocks h. \<forall>a. \<not> (block_holds b a \<and> block_holds (p, l) a)))"
    if "fst (heap_alloc h r) = Some p"
    using heap_alloc_Some [OF \<open>heap_inv h\<close> \<open>req_ok r\<close> that] by blast
next
  fix h p
  assume "heap_inv h"
  then show "heap_inv (heap_free h p) \<and> live_blocks (heap_free h p) = {b \<in> live_blocks h. \<not> block_holds b p}"
    by (rule heap_free_live)
next
  fix h b c a
  assume h: "heap_inv h" and b: "b \<in> live_blocks h" and c: "c \<in> live_blocks h" and ne: "b \<noteq> c"
  obtain n as bs where n: "b = (unat (hn_addr n), unat (hn_size n))" "used_space_list h = as @ n # bs"
    using b split_list by (fastforce simp: live_blocks_def)
  show "\<not> (block_holds b a \<and> block_holds c a)"
    using used_unique [OF h n(2), of a] n c ne by (auto simp: live_blocks_def block_holds_node)
qed


section \<open>Initialisation and accounting\<close>

lemma sbi_heap_init_new_inv:
  assumes "sbi_heap_init_new base sz = Some h" and "unat base + unat sz < 2 ^ 64"
  shows "heap_inv h" "live_blocks h = {}" "hc_base h = base" "hc_size h = sz"
proof -
  let ?k = "(sz div HEAP_HOUSEKEEPING_FACTOR) AND NOT (HEAP_BASE_ALIGN - 1)"
  have k: "unat ?k = unat sz div 16 div 2 ^ 10 * 2 ^ 10"
    using and_not_mask [of "sz div 16" 10]
    by (simp add: HEAP_HOUSEKEEPING_FACTOR_def HEAP_BASE_ALIGN_def unat_div)
  have "replicate (unat (?k div sizeof_heap_node)) \<lparr>hn_addr = 0, hn_size = 0\<rparr> \<noteq> []"
  proof
    assume "replicate (unat (?k div sizeof_heap_node)) \<lparr>hn_addr = 0, hn_size = 0\<rparr> = []"
    then show False using assms(1) by (simp only: sbi_heap_init_new_def Let_def list.case option.distinct)
  qed
  then obtain m where m: "unat (?k div sizeof_heap_node) = Suc m" using gr0_implies_Suc by auto
  have h: "h = \<lparr>hc_base = base, hc_size = sz, hkbase = base, hksize = ?k,
      free_node_list = replicate m \<lparr>hn_addr = 0, hn_size = 0\<rparr>,
      free_space_list = [\<lparr>hn_addr = base + ?k, hn_size = sz - ?k\<rparr>], used_space_list = []\<rparr>"
    using assms(1) m by (simp add: sbi_heap_init_new_def Let_def)
  have pos: "0 < unat ?k" using m by (cases "?k = 0") (auto simp: unat_gt_0)
  have "unat ?k \<le> unat sz div 16" by (simp only: k div_times_less_eq_dividend)
  then have less: "unat ?k < unat sz" using pos by linarith
  have u: "unat (base + ?k) = unat base + unat ?k" "unat (sz - ?k) = unat sz - unat ?k"
    using less assms(2) by (simp_all add: unat_word_ariths unat_sub word_le_nat_alt)
  have "tiles h"
    using u less by (simp add: tiles_def h arena_lo_def arena_hi_def seg_def)
  moreover have "sz - ?k \<noteq> 0" using u less by (auto simp: unat_eq_zero)
  ultimately show "heap_inv h"
    using pos assms(2) by (simp add: heap_inv_def h arena_lo_def arena_hi_def)
  show "live_blocks h = {}" "hc_base h = base" "hc_size h = sz" by (simp_all add: h live_blocks_def)
qed

text \<open>The sizes of the nodes of a list add up to the addresses they cover.\<close>

lemma sum_seg: "x + l \<le> N \<Longrightarrow> (\<Sum>a<N. seg x l a) = l"
proof -
  assume "x + l \<le> N"
  then have "{..<N} \<inter> {a. x \<le> a \<and> a < x + l} = {x..<x + l}" by auto
  then show ?thesis by (simp add: seg_def sum.If_cases)
qed

lemma sum_cover:
  assumes "\<forall>n \<in> set ns. unat (hn_addr n) + unat (hn_size n) \<le> N"
  shows "(\<Sum>a<N. cover ns a) = sum_list (map (\<lambda>n. unat (hn_size n)) ns)"
  using assms by (induction ns) (simp_all add: sum.distrib sum_seg)

lemma heap_accounting:
  assumes "heap_inv h"
  shows "sum_list (map (\<lambda>n. unat (hn_size n)) (free_space_list h)) +
    sum_list (map (\<lambda>n. unat (hn_size n)) (used_space_list h)) = arena_hi h - arena_lo h"
proof -
  let ?N = "arena_hi h"
  have "(\<Sum>a<?N. cover (free_space_list h) a + cover (used_space_list h) a) =
      (\<Sum>a<?N. if arena_lo h \<le> a \<and> a < arena_hi h then 1 else 0)"
    using assms by (simp only: heap_inv_def tiles_def)
  also have "\<dots> = (\<Sum>a<?N. seg (arena_lo h) (?N - arena_lo h) a)"
    by (rule sum.cong) (auto simp: seg_def)
  also have "\<dots> = ?N - arena_lo h"
    by (cases "arena_lo h \<le> ?N") (simp add: sum_seg, simp add: seg_def)
  finally show ?thesis
    using sum_cover [of "free_space_list h" ?N] sum_cover [of "used_space_list h" ?N]
      inv_node(2) [OF assms] by (simp add: sum.distrib)
qed

lemma sum_list_u64:
  "sum_list (map (\<lambda>n. unat (hn_size n)) ns) < 2 ^ 64 \<Longrightarrow>
   unat (sum_list (map hn_size ns)) = sum_list (map (\<lambda>n. unat (hn_size n)) ns)"
  by (induction ns) (auto simp: unat_word_ariths)


section \<open>Properties\<close>

text \<open>
  C3: an allocation on a well-formed heap returns a block that is aligned as requested, at
  least as long as requested and disjoint from every block that is still in use, or \<open>NULL\<close>
  with the heap unchanged; the block stays in use and is overlapped by no later allocation
  through any sequence of allocations and frees that does not free an address inside it.
\<close>

theorem heap_alloc_safe:
  assumes "heap_inv h" and "req_ok r" and "\<forall>r. Alloc r \<in> set os \<longrightarrow> req_ok r"
  shows "case heap_alloc h r of
      (None, h') \<Rightarrow> h' = h
    | (Some p, h') \<Rightarrow> \<exists>l \<ge> req_size r. req_align r dvd p \<and> (p, l) \<in> live_blocks h' \<and>
        (\<forall>b \<in> live_blocks h. \<forall>a. \<not> (block_holds b a \<and> block_holds (p, l) a)) \<and>
        ((\<forall>q. Free q \<in> set os \<longrightarrow> \<not> block_holds (p, l) q) \<longrightarrow>
          (p, l) \<in> live_blocks (run_ops heap_alloc heap_free h' os) \<and>
          (\<forall>b \<in> live_blocks (run_ops heap_alloc heap_free h' os). \<forall>a.
             b \<noteq> (p, l) \<longrightarrow> \<not> (block_holds b a \<and> block_holds (p, l) a)))"
proof (cases "fst (heap_alloc h r)")
  case None
  then show ?thesis using hp.alloc_None [OF assms(1,2)] by (cases "heap_alloc h r") auto
next
  case (Some p)
  then obtain h' where eq: "heap_alloc h r = (Some p, h')" by (cases "heap_alloc h r") auto
  obtain l where l: "req_size r \<le> l" "req_align r dvd p" "live_blocks h' = insert (p, l) (live_blocks h)"
    "\<forall>b \<in> live_blocks h. \<forall>a. \<not> (block_holds b a \<and> block_holds (p, l) a)"
    using hp.alloc_Some [OF assms(1,2) Some] eq by auto
  have inv: "heap_inv h'" using hp.alloc_inv [OF assms(1,2)] eq by simp
  have "(p, l) \<in> live_blocks h'" using l(3) by simp
  then show ?thesis
    unfolding eq prod.case option.case
    using l hp.run_keeps_block [OF inv assms(3), of "(p, l)"] hp.disjoint_live [OF hp.run_inv [OF inv assms(3)]]
    by blast
qed

definition demo_heap :: sbi_heap_control where
  "demo_heap = \<lparr>hc_base = 4096, hc_size = 4096, hkbase = 4096, hksize = 1024,
     free_node_list = [\<lparr>hn_addr = 0, hn_size = 0\<rparr>, \<lparr>hn_addr = 0, hn_size = 0\<rparr>],
     free_space_list = [\<lparr>hn_addr = 5120, hn_size = 3072\<rparr>], used_space_list = []\<rparr>"

lemma demo_heap_inv: "heap_inv demo_heap"
  by (simp add: heap_inv_def tiles_def demo_heap_def arena_lo_def arena_hi_def seg_def)

theorem heap_alloc_safe_witness:
  "\<exists>p h'. heap_alloc demo_heap (Malloc 100) = (Some p, h') \<and> req_align (Malloc 100) dvd p"
proof -
  have ok: "req_ok (Malloc 100)" by (simp add: req_ok_def)
  have "fst (heap_alloc demo_heap (Malloc 100)) = Some 5120" by code_simp
  then show ?thesis
    using heap_alloc_safe [OF demo_heap_inv ok, of "[]"]
    by (cases "heap_alloc demo_heap (Malloc 100)") auto
qed

text \<open>
  C24: through any sequence of allocations and frees (also of addresses that were never handed
  out) the heap stays well formed, no book-keeping node is lost, and the value
  \<open>sbi_heap_free_space_from\<close> returns and the sizes of the used blocks add up exactly to the
  arena.
\<close>

theorem heap_ops_invariant:
  assumes "heap_inv h" and "\<forall>r. Alloc r \<in> set os \<longrightarrow> req_ok r"
  defines "h' \<equiv> run_ops heap_alloc heap_free h os"
  shows "heap_inv h' \<and> node_count h' = node_count h \<and>
    unat (sbi_heap_free_space_from h') + sum_list (map (\<lambda>n. unat (hn_size n)) (used_space_list h')) =
      arena_hi h' - arena_lo h'"
proof -
  have cnt: "node_count (run_ops heap_alloc heap_free h os) = node_count h"
    using assms(1,2)
  proof (induction os arbitrary: h)
    case (Cons x os)
    show ?case
    proof (cases x)
      case (Alloc r)
      then have ok: "req_ok r" using Cons.prems by simp
      have "node_count (snd (heap_alloc h r)) = node_count h"
        using heap_alloc_None [OF Cons.prems(1) ok] heap_alloc_Some [OF Cons.prems(1) ok]
        by (cases "fst (heap_alloc h r)") auto
      with Alloc Cons show ?thesis using hp.alloc_inv [OF Cons.prems(1) ok] by simp
    next
      case (Free p)
      have "node_count (heap_free h p) = node_count h"
        by (simp add: heap_free_def sbi_free_from_inv(2) [OF Cons.prems(1)])
      with Free Cons show ?thesis using hp.free_live [OF Cons.prems(1)] by simp
    qed
  qed simp
  have inv: "heap_inv h'" unfolding h'_def by (rule hp.run_inv [OF assms(1,2)])
  note acc = heap_accounting [OF inv]
  have "arena_hi h' < 2 ^ 64" using inv by (simp add: heap_inv_def)
  with acc have "sum_list (map (\<lambda>n. unat (hn_size n)) (free_space_list h')) < 2 ^ 64"
    by linarith
  from sum_list_u64 [OF this] acc cnt inv show ?thesis
    by (simp add: sbi_heap_free_space_from_def h'_def)
qed

theorem heap_ops_invariant_witness:
  "heap_inv (run_ops heap_alloc heap_free demo_heap [Alloc (Malloc 100), Free 5130])"
  using heap_ops_invariant [OF demo_heap_inv, of "[Alloc (Malloc 100), Free 5130]"]
  by (simp add: req_ok_def)

text \<open>
  \<open>sbi_heap_init\<close> accepts every positive multiple of 1 KiB as heap size, but the
  housekeeping area is empty below 16 KiB and the initialisation then uses the head of the empty
  node list as if it were a node; from 16 KiB on it yields a well-formed heap without live blocks.
\<close>

lemma sbi_heap_init_new_total:
  assumes "unat base + unat sz < 2 ^ 64"
  shows "if unat sz < 16384 then sbi_heap_init_new base sz = None
    else \<exists>h. sbi_heap_init_new base sz = Some h \<and> heap_inv h \<and> live_blocks h = {}"
proof -
  let ?k = "(sz div HEAP_HOUSEKEEPING_FACTOR) AND NOT (HEAP_BASE_ALIGN - 1)"
  have k: "unat ?k = unat sz div 16 div 1024 * 1024"
    using and_not_mask [of "sz div 16" 10]
    by (simp add: HEAP_HOUSEKEEPING_FACTOR_def HEAP_BASE_ALIGN_def unat_div)
  have "unat (?k div sizeof_heap_node) = unat sz div 16 div 1024 * 1024 div 32"
    unfolding unat_div k by (simp add: sizeof_heap_node_def)
  then have nodes: "unat (?k div sizeof_heap_node) = 0 \<longleftrightarrow> unat sz < 16384"
    by (simp add: div_eq_0_iff div_mult2_eq [symmetric])
  show ?thesis
  proof (cases "unat sz < 16384")
    case True
    then show ?thesis using nodes by (simp add: sbi_heap_init_new_def Let_def)
  next
    case False
    then obtain m where "unat (?k div sizeof_heap_node) = Suc m"
      using nodes by (cases "unat (?k div sizeof_heap_node)") auto
    then obtain h where "sbi_heap_init_new base sz = Some h"
      by (simp add: sbi_heap_init_new_def Let_def)
    with False sbi_heap_init_new_inv [OF this assms] show ?thesis by simp
  qed
qed

text \<open>
  A request within 63 bytes of the largest \<open>size_t\<close> wraps around to size 0 when it is
  rounded up, and is granted: \<open>sbi_malloc_from\<close> returns the address of the first free block
  and books a block of size 0 there.
\<close>

lemma sbi_malloc_wraps:
  assumes "free_space_list h = n # ns" and "node_pad 64 n = 0" and "hn_size n \<noteq> 0"
    and "free_node_list h \<noteq> []" and "2 ^ 64 - 64 < unat sz"
  shows "fst (sbi_malloc_from h sz) = hn_addr n \<and>
    (\<exists>m. used_space_list (snd (sbi_malloc_from h sz)) = used_space_list h @ [m] \<and>
       hn_addr m = hn_addr n \<and> hn_size m = 0)"
proof -
  have nz: "sz \<noteq> 0" using assms(5) by auto
  have "unat (sz + 63) = unat sz + 63 - 2 ^ 64"
    using assms(5) u64_less [of sz] by (simp add: unat_word_ariths mod_if)
  then have "unat (sz + 63) div 2 ^ 6 * 2 ^ 6 = 0" using assms(5) u64_less [of sz] by simp
  then have "unat (round_size 64 sz) = 0"
    using and_not_mask [of "sz + 63" 6] by (simp add: round_size_def)
  then have z: "round_size 64 sz = 0" by (simp add: unat_eq_zero)
  have "0 < hn_size n" using assms(3) by (simp add: word_gt_0)
  then show ?thesis
    using assms nz
    by (simp add: sbi_malloc_from_def alloc_with_align_def HEAP_ALLOC_ALIGN_def z alloc_unpadded_def)
qed

end
