(* ===== verification/SbiBits.thy ===== *)
theory SbiBits
  imports SbiBase
begin

unbundle bit_operations_syntax

text \<open>
  Bit searches, bitmaps and hart masks of OpenSBI: \<open>include/sbi/sbi_bitops.h\<close>,
  \<open>lib/sbi/sbi_bitops.c\<close>, \<open>lib/sbi/sbi_bitmap.c\<close> and
  \<open>include/sbi/sbi_hartmask.h\<close>, for \<open>BITS_PER_LONG = 64\<close>.  A bitmap is the list of
  its words; bit counts and positions are natural numbers (they are bounded by the bitmap's
  size, so \<open>unsigned long\<close> arithmetic on them does not wrap).
\<close>

section \<open>Words\<close>

text \<open>\<open>BIT(nr)\<close>: the shift instruction looks at the low six bits of the distance.\<close>

definition BIT :: "nat \<Rightarrow> u64" where
  "BIT nr = push_bit (nr mod 64) 1"

text \<open>One conditional of \<open>sbi_ffs\<close>, \<open>m\<close> the mask of the low \<open>k\<close> bits.\<close>

definition ffs_if :: "u64 \<Rightarrow> nat \<Rightarrow> nat \<times> u64 \<Rightarrow> nat \<times> u64" where
  "ffs_if m k p = (if snd p AND m = 0 then (fst p + k, drop_bit k (snd p)) else p)"

definition sbi_ffs :: "u64 \<Rightarrow> nat" where
  "sbi_ffs w =
     fst (ffs_if 0x1 1 (ffs_if 0x3 2 (ffs_if 0xf 4 (ffs_if 0xff 8 (ffs_if 0xffff 16
       (ffs_if 0xffffffff 32 (0, w)))))))"

definition sbi_ffz :: "u64 \<Rightarrow> nat" where
  "sbi_ffz w = sbi_ffs (NOT w)"

text \<open>One conditional of \<open>sbi_fls\<close>: the top \<open>k\<close> bits.\<close>

definition fls_if :: "nat \<Rightarrow> nat \<times> u64 \<Rightarrow> nat \<times> u64" where
  "fls_if k p =
     (if snd p AND push_bit (64 - k) (- 1) = 0 then (fst p - k, push_bit k (snd p)) else p)"

definition sbi_fls :: "u64 \<Rightarrow> nat" where
  "sbi_fls w = fst (fls_if 1 (fls_if 2 (fls_if 4 (fls_if 8 (fls_if 16 (fls_if 32 (63, w)))))))"

section \<open>Bitmaps\<close>

type_synonym bitmap = "u64 list"

definition BIT_MASK :: "nat \<Rightarrow> u64" where
  "BIT_MASK nr = push_bit (nr mod 64) 1"

definition BIT_WORD :: "nat \<Rightarrow> nat" where
  "BIT_WORD nr = nr div 64"

definition test_bit' :: "nat \<Rightarrow> bitmap \<Rightarrow> bool" where
  "test_bit' nr addr \<longleftrightarrow> 1 AND drop_bit (nr mod 64) (addr ! BIT_WORD nr) = 1"

definition set_bit' :: "nat \<Rightarrow> bitmap \<Rightarrow> bitmap" where
  "set_bit' nr addr = addr[BIT_WORD nr := addr ! BIT_WORD nr OR BIT_MASK nr]"

definition clear_bit' :: "nat \<Rightarrow> bitmap \<Rightarrow> bitmap" where
  "clear_bit' nr addr = addr[BIT_WORD nr := addr ! BIT_WORD nr AND NOT (BIT_MASK nr)]"

definition change_bit' :: "nat \<Rightarrow> bitmap \<Rightarrow> bitmap" where
  "change_bit' nr addr = addr[BIT_WORD nr := addr ! BIT_WORD nr XOR BIT_MASK nr]"

definition BITS_TO_LONGS :: "nat \<Rightarrow> nat" where
  "BITS_TO_LONGS nbits = (nbits + 63) div 64"

text \<open>The loops of \<open>sbi_bitmap.c\<close>: word \<open>k\<close> of \<open>dst\<close>, for each word.\<close>

fun bitmap_loop :: "(u64 \<Rightarrow> u64 \<Rightarrow> u64) \<Rightarrow> bitmap \<Rightarrow> bitmap \<Rightarrow> bitmap \<Rightarrow> nat \<Rightarrow> nat \<Rightarrow> bitmap" where
  "bitmap_loop f dst b1 b2 k 0 = dst"
| "bitmap_loop f dst b1 b2 k (Suc m) = bitmap_loop f (dst[k := f (b1 ! k) (b2 ! k)]) b1 b2 (Suc k) m"

definition bitmap_and' :: "bitmap \<Rightarrow> bitmap \<Rightarrow> bitmap \<Rightarrow> nat \<Rightarrow> bitmap" where
  "bitmap_and' dst b1 b2 bits = bitmap_loop (AND) dst b1 b2 0 (BITS_TO_LONGS bits)"

definition bitmap_or' :: "bitmap \<Rightarrow> bitmap \<Rightarrow> bitmap \<Rightarrow> nat \<Rightarrow> bitmap" where
  "bitmap_or' dst b1 b2 bits = bitmap_loop (OR) dst b1 b2 0 (BITS_TO_LONGS bits)"

definition bitmap_xor' :: "bitmap \<Rightarrow> bitmap \<Rightarrow> bitmap \<Rightarrow> nat \<Rightarrow> bitmap" where
  "bitmap_xor' dst b1 b2 bits = bitmap_loop (XOR) dst b1 b2 0 (BITS_TO_LONGS bits)"

text \<open>
  The common end of \<open>find_first_bit\<close> and \<open>find_next_bit\<close>: whole words from word
  \<open>i\<close> on, then the first \<open>size\<close> bits of the last one.
\<close>

function find_bit_loop :: "bitmap \<Rightarrow> nat \<Rightarrow> nat \<Rightarrow> nat \<Rightarrow> nat" where
  "find_bit_loop addr i result sz =
     (if 64 \<le> sz then
        if addr ! i \<noteq> 0 then result + sbi_ffs (addr ! i)
        else find_bit_loop addr (Suc i) (result + 64) (sz - 64)
      else if sz = 0 then result
      else let tmp = addr ! i AND drop_bit (64 - sz) (- 1)
           in if tmp = 0 then result + sz else result + sbi_ffs tmp)"
  by pat_completeness auto
termination by (relation "measure (\<lambda>(addr, i, result, sz). sz)") auto

function find_zero_loop :: "bitmap \<Rightarrow> nat \<Rightarrow> nat \<Rightarrow> nat \<Rightarrow> nat" where
  "find_zero_loop addr i result sz =
     (if 64 \<le> sz then
        if NOT (addr ! i) \<noteq> 0 then result + sbi_ffz (addr ! i)
        else find_zero_loop addr (Suc i) (result + 64) (sz - 64)
      else if sz = 0 then result
      else let tmp = addr ! i OR push_bit sz (- 1)
           in if tmp = - 1 then result + sz else result + sbi_ffz tmp)"
  by pat_completeness auto
termination by (relation "measure (\<lambda>(addr, i, result, sz). sz)") auto

declare find_bit_loop.simps [simp del] find_zero_loop.simps [simp del]

definition find_first_bit :: "bitmap \<Rightarrow> nat \<Rightarrow> nat" where
  "find_first_bit addr sz = find_bit_loop addr 0 0 sz"

definition find_first_zero_bit :: "bitmap \<Rightarrow> nat \<Rightarrow> nat" where
  "find_first_zero_bit addr sz = find_zero_loop addr 0 0 sz"

definition find_next_bit :: "bitmap \<Rightarrow> nat \<Rightarrow> nat \<Rightarrow> nat" where
  "find_next_bit addr sz offset =
     (let i = offset div 64; result = 64 * (offset div 64) in
      if sz \<le> offset then sz
      else let sz' = sz - result; off = offset mod 64 in
        if off \<noteq> 0 then
          let tmp = addr ! i AND push_bit off (- 1) in
          if sz' < 64 then
            let tmp = tmp AND drop_bit (64 - sz') (- 1)
            in if tmp = 0 then result + sz' else result + sbi_ffs tmp
          else if tmp \<noteq> 0 then result + sbi_ffs tmp
          else find_bit_loop addr (Suc i) (result + 64) (sz' - 64)
        else find_bit_loop addr i result sz')"

definition find_next_zero_bit :: "bitmap \<Rightarrow> nat \<Rightarrow> nat \<Rightarrow> nat" where
  "find_next_zero_bit addr sz offset =
     (let i = offset div 64; result = 64 * (offset div 64) in
      if sz \<le> offset then sz
      else let sz' = sz - result; off = offset mod 64 in
        if off \<noteq> 0 then
          let tmp = addr ! i OR drop_bit (64 - off) (- 1) in
          if sz' < 64 then
            let tmp = tmp OR push_bit sz' (- 1)
            in if tmp = - 1 then result + sz' else result + sbi_ffz tmp
          else if NOT tmp \<noteq> 0 then result + sbi_ffz tmp
          else find_zero_loop addr (Suc i) (result + 64) (sz' - 64)
        else find_zero_loop addr i result sz')"

fun find_last_loop :: "bitmap \<Rightarrow> nat \<Rightarrow> nat \<Rightarrow> nat" where
  "find_last_loop addr sz 0 = sz"
| "find_last_loop addr sz (Suc words) =
     (if addr ! words \<noteq> 0 then words * 64 + sbi_fls (addr ! words) else find_last_loop addr sz words)"

definition find_last_bit :: "bitmap \<Rightarrow> nat \<Rightarrow> nat" where
  "find_last_bit addr sz =
     (let words = sz div 64 in
      if sz mod 64 \<noteq> 0 then
        let tmp = addr ! words AND drop_bit (64 - sz mod 64) (- 1) in
        if tmp \<noteq> 0 then words * 64 + sbi_fls tmp else find_last_loop addr sz words
      else find_last_loop addr sz words)"

section \<open>The first and the last set bit of a word\<close>

text \<open>The lowest set bit of \<open>w0\<close> is among the \<open>k\<close> bits from \<open>num\<close> on.\<close>

definition ffs_inv :: "u64 \<Rightarrow> nat \<Rightarrow> nat \<times> u64 \<Rightarrow> bool" where
  "ffs_inv w0 k p \<longleftrightarrow>
     snd p = drop_bit (fst p) w0 \<and> take_bit k (snd p) \<noteq> 0 \<and> (\<forall>j < fst p. \<not> bit w0 j)"

lemma take_bit_0_iff: "take_bit k (w :: u64) = 0 \<longleftrightarrow> (\<forall>j < k. \<not> bit w j)"
  using bit_imp_le_length [of w] by (force simp: bit_eq_iff bit_take_bit_iff)

lemma and_mask: "(w :: u64) AND mask k = take_bit k w"
  by (simp add: take_bit_eq_mask)

lemma ffs_if_inv:
  assumes "ffs_inv w0 (k + k) p" and m: "m = mask k"
  shows "ffs_inv w0 k (ffs_if m k p)"
proof (cases "take_bit k (snd p) = 0")
  case True
  have eq: "snd p = drop_bit (fst p) w0" and ne: "take_bit (k + k) (snd p) \<noteq> 0"
    and below: "\<forall>j < fst p. \<not> bit w0 j"
    using assms by (auto simp: ffs_inv_def)
  from True have low: "\<forall>j < k. \<not> bit w0 (fst p + j)"
    by (simp add: take_bit_0_iff eq bit_drop_bit_eq add.commute)
  obtain j where j: "j < k + k" "bit (snd p) j"
    using ne by (auto simp: take_bit_0_iff)
  then have "\<not> j < k" using True by (auto simp: take_bit_0_iff)
  then have "j - k < k" "bit (drop_bit k (snd p)) (j - k)"
    using j by (auto simp: bit_drop_bit_eq)
  then have "take_bit k (drop_bit k (snd p)) \<noteq> 0" by (auto simp: take_bit_0_iff)
  moreover have "\<not> bit w0 j" if "j < fst p + k" for j
    using that low below le_Suc_ex [of "fst p" j] by (cases "j < fst p") auto
  ultimately show ?thesis
    using True by (simp add: ffs_inv_def ffs_if_def m and_mask eq add.commute)
next
  case False
  then show ?thesis using assms by (simp add: ffs_inv_def ffs_if_def m and_mask)
qed

lemma sbi_ffs_first:
  assumes "w \<noteq> 0"
  shows "bit w (sbi_ffs w)" "j < sbi_ffs w \<Longrightarrow> \<not> bit w j" "sbi_ffs w < 64"
proof -
  have "take_bit (32 + 32) w = w" by (rule bit_eqI) (auto simp: bit_take_bit_iff)
  then have "ffs_inv w (32 + 32) (0, w)" using assms by (simp add: ffs_inv_def)
  then have "ffs_inv w 32 (ffs_if 0xffffffff 32 (0, w))"
    by (rule ffs_if_inv) (simp add: mask_eq_exp_minus_1)
  then have "ffs_inv w 16 (ffs_if 0xffff 16 (ffs_if 0xffffffff 32 (0, w)))"
    by (intro ffs_if_inv) (simp_all add: mask_eq_exp_minus_1)
  then have "ffs_inv w 8 (ffs_if 0xff 8 (ffs_if 0xffff 16 (ffs_if 0xffffffff 32 (0, w))))"
    by (intro ffs_if_inv) (simp_all add: mask_eq_exp_minus_1)
  then have "ffs_inv w 4 (ffs_if 0xf 4 (ffs_if 0xff 8 (ffs_if 0xffff 16 (ffs_if 0xffffffff 32 (0, w)))))"
    by (intro ffs_if_inv) (simp_all add: mask_eq_exp_minus_1)
  then have "ffs_inv w 2 (ffs_if 0x3 2 (ffs_if 0xf 4 (ffs_if 0xff 8 (ffs_if 0xffff 16 (ffs_if 0xffffffff 32 (0, w))))))"
    by (intro ffs_if_inv) (simp_all add: mask_eq_exp_minus_1)
  then have "ffs_inv w 1 (ffs_if 0x1 1 (ffs_if 0x3 2 (ffs_if 0xf 4 (ffs_if 0xff 8 (ffs_if 0xffff 16
      (ffs_if 0xffffffff 32 (0, w)))))))"
    by (intro ffs_if_inv) (simp_all add: mask_eq_exp_minus_1 numeral_2_eq_2)
  then have inv: "take_bit 1 (drop_bit (sbi_ffs w) w) \<noteq> 0" "\<forall>j < sbi_ffs w. \<not> bit w j"
    unfolding sbi_ffs_def ffs_inv_def by (metis, blast)
  then show b: "bit w (sbi_ffs w)"
    unfolding take_bit_0_iff by (auto simp: bit_drop_bit_eq)
  show "j < sbi_ffs w \<Longrightarrow> \<not> bit w j" using inv(2) by blast
  show "sbi_ffs w < 64" using b bit_imp_le_length [of w] by simp
qed

text \<open>The highest set bit of \<open>w0\<close> is among the \<open>k\<close> bits up to \<open>num\<close>.\<close>

definition fls_inv :: "u64 \<Rightarrow> nat \<Rightarrow> nat \<times> u64 \<Rightarrow> bool" where
  "fls_inv w0 k p \<longleftrightarrow>
     k \<le> Suc (fst p) \<and> fst p < 64 \<and> snd p = push_bit (63 - fst p) w0 \<and>
     (\<exists>j. fst p < j + k \<and> j \<le> fst p \<and> bit w0 j) \<and> (\<forall>j > fst p. \<not> bit w0 j)"

lemma top_bits_0_iff:
  assumes "k \<le> 64"
  shows "(w :: u64) AND push_bit (64 - k) (- 1) = 0 \<longleftrightarrow> (\<forall>j. 64 - k \<le> j \<longrightarrow> \<not> bit w j)"
proof -
  have "bit (w AND push_bit (64 - k) (- 1)) j \<longleftrightarrow> 64 - k \<le> j \<and> bit w j" for j
    using bit_imp_le_length [of w j] by (auto simp: bit_and_iff bit_push_bit_iff bit_not_iff bit_mask_iff)
  then show ?thesis
    using bit_imp_le_length [of w] by (force simp: bit_eq_iff)
qed

lemma fls_if_inv:
  assumes "fls_inv w0 (k + k) p" "0 < k"
  shows "fls_inv w0 k (fls_if k p)"
proof -
  have inv: "k + k \<le> Suc (fst p)" "fst p < 64" "snd p = push_bit (63 - fst p) w0"
      "\<forall>j > fst p. \<not> bit w0 j"
    using assms(1) by (auto simp: fls_inv_def)
  obtain j where j: "fst p < j + (k + k)" "j \<le> fst p" "bit w0 j"
    using assms(1) by (auto simp: fls_inv_def)
  have shifted: "bit (snd p) i \<longleftrightarrow> 63 - fst p \<le> i \<and> i < 64 \<and> bit w0 (i - (63 - fst p))" for i
    by (auto simp: inv(3) bit_push_bit_iff)
  have top: "snd p AND push_bit (64 - k) (- 1) = 0 \<longleftrightarrow> (\<forall>i. fst p < i + k \<and> i \<le> fst p \<longrightarrow> \<not> bit w0 i)"
  proof -
    have "snd p AND push_bit (64 - k) (- 1) = 0 \<longleftrightarrow> (\<forall>i. 64 - k \<le> i \<longrightarrow> \<not> bit (snd p) i)"
      using inv by (intro top_bits_0_iff) simp
    also have "\<dots> \<longleftrightarrow> (\<forall>i. fst p < i + k \<and> i \<le> fst p \<longrightarrow> \<not> bit w0 i)"
    proof safe
      fix i assume "\<forall>i \<ge> 64 - k. \<not> bit (snd p) i" "fst p < i + k" "i \<le> fst p" "bit w0 i"
      moreover from this have "64 - k \<le> i + (63 - fst p)" using inv by linarith
      ultimately show False using inv shifted [of "i + (63 - fst p)"] by auto
    next
      fix i assume "\<forall>i. fst p < i + k \<and> i \<le> fst p \<longrightarrow> \<not> bit w0 i" "64 - k \<le> i" "bit (snd p) i"
      moreover from this have "fst p < i - (63 - fst p) + k" "i - (63 - fst p) \<le> fst p"
        using inv shifted [of i] by auto
      ultimately show False using shifted [of i] by blast
    qed
    finally show ?thesis .
  qed
  show ?thesis
  proof (cases "snd p AND push_bit (64 - k) (- 1) = 0")
    case True
    then have none: "\<And>i. fst p < i + k \<Longrightarrow> i \<le> fst p \<Longrightarrow> \<not> bit w0 i" using top by blast
    then have "j + k \<le> fst p" using j by (meson leI)
    moreover have "\<not> bit w0 i" if "fst p - k < i" for i
      using none [of i] inv(4) that by (cases "i \<le> fst p") auto
    moreover have "push_bit k (push_bit (63 - fst p) w0) = push_bit (63 - (fst p - k)) w0"
      using inv by (simp add: push_bit_push_bit add.commute)
    ultimately show ?thesis
      using True j inv by (auto simp: fls_inv_def fls_if_def intro!: exI [of _ j])
  next
    case False
    then show ?thesis using top inv by (auto simp: fls_inv_def fls_if_def)
  qed
qed

lemma sbi_fls_last:
  assumes "w \<noteq> 0"
  shows "bit w (sbi_fls w)" "sbi_fls w < j \<Longrightarrow> \<not> bit w j" "sbi_fls w < 64"
proof -
  obtain i where i: "bit w i" using assms by (auto simp: bit_eq_iff)
  have "fls_inv w (32 + 32) (63, w)"
    using i bit_imp_le_length [of w i] bit_imp_le_length [of w]
    by (auto simp: fls_inv_def intro!: exI [of _ i]) force+
  then have "fls_inv w 32 (fls_if 32 (63, w))"
    by (rule fls_if_inv) simp
  then have "fls_inv w 16 (fls_if 16 (fls_if 32 (63, w)))"
    by (intro fls_if_inv) simp_all
  then have "fls_inv w 8 (fls_if 8 (fls_if 16 (fls_if 32 (63, w))))"
    by (intro fls_if_inv) simp_all
  then have "fls_inv w 4 (fls_if 4 (fls_if 8 (fls_if 16 (fls_if 32 (63, w)))))"
    by (intro fls_if_inv) simp_all
  then have "fls_inv w 2 (fls_if 2 (fls_if 4 (fls_if 8 (fls_if 16 (fls_if 32 (63, w))))))"
    by (intro fls_if_inv) simp_all
  then have "fls_inv w 1 (fls_if 1 (fls_if 2 (fls_if 4 (fls_if 8 (fls_if 16 (fls_if 32 (63, w)))))))"
    by (intro fls_if_inv) (simp_all add: numeral_2_eq_2)
  then have inv: "\<exists>j. sbi_fls w < j + 1 \<and> j \<le> sbi_fls w \<and> bit w j" "\<forall>j > sbi_fls w. \<not> bit w j"
      "sbi_fls w < 64"
    unfolding sbi_fls_def by (simp_all add: fls_inv_def)
  then show "bit w (sbi_fls w)" by (metis Suc_eq_plus1 le_antisym less_Suc_eq_le)
  show "sbi_fls w < j \<Longrightarrow> \<not> bit w j" "sbi_fls w < 64" using inv by blast+
qed

section \<open>Searching a bitmap\<close>

definition bit_at :: "bitmap \<Rightarrow> nat \<Rightarrow> bool" where
  "bit_at addr k \<longleftrightarrow> bit (addr ! (k div 64)) (k mod 64)"

text \<open>\<open>r\<close> is the first position of \<open>P\<close> from \<open>lo\<close> on, or \<open>hi\<close> if there is none below \<open>hi\<close>.\<close>

definition first_in :: "(nat \<Rightarrow> bool) \<Rightarrow> nat \<Rightarrow> nat \<Rightarrow> nat \<Rightarrow> bool" where
  "first_in P lo hi r \<longleftrightarrow> lo \<le> r \<and> r \<le> hi \<and> (r < hi \<longrightarrow> P r) \<and> (\<forall>k. lo \<le> k \<and> k < r \<longrightarrow> \<not> P k)"

lemma first_in_skip:
  assumes "\<And>k. lo \<le> k \<Longrightarrow> k < mid \<Longrightarrow> \<not> P k" "lo \<le> mid" "first_in P mid hi r"
  shows "first_in P lo hi r"
proof -
  have "\<not> P k" if "lo \<le> k" "k < r" for k
    using assms that by (cases "k < mid") (auto simp: first_in_def)
  then show ?thesis using assms(2,3) by (auto simp: first_in_def)
qed

lemma first_in_none:
  assumes "first_in P lo mid mid" "first_in P mid hi r"
  shows "first_in P lo hi r"
  using assms by (intro first_in_skip [of lo mid]) (auto simp: first_in_def)

lemma first_in_extend:
  assumes "first_in P lo mid r" "r < mid" "mid \<le> hi"
  shows "first_in P lo hi r"
  using assms by (auto simp: first_in_def)

lemma first_in_unique:
  assumes "first_in P lo hi r" "first_in P lo hi r'"
  shows "r = r'"
  using assms unfolding first_in_def by (meson le_less_trans linorder_neqE_nat order_less_le_trans)

lemma bit_at_word: "j < 64 \<Longrightarrow> bit_at addr (64 * i + j) \<longleftrightarrow> bit (addr ! i) j"
  by (simp add: bit_at_def)

text \<open>The answer read off one word, of which \<open>tmp\<close> has the bits from \<open>lo\<close> to \<open>n\<close>.\<close>

lemma first_in_word:
  assumes "\<And>j. bit tmp j \<longleftrightarrow> lo \<le> j \<and> j < n \<and> bit (addr ! i) j" "n \<le> 64" "lo \<le> n"
  shows "first_in (bit_at addr) (64 * i + lo) (64 * i + n)
    (if tmp = 0 then 64 * i + n else 64 * i + sbi_ffs tmp)"
proof -
  have split: "\<exists>j < 64. k = 64 * i + j" if "64 * i \<le> k" "k < 64 * i + n" for k
    using that assms(2) by (intro exI [of _ "k - 64 * i"]) auto
  show ?thesis
  proof (cases "tmp = 0")
    case True
    have "\<not> bit_at addr k" if k: "64 * i + lo \<le> k" "k < 64 * i + n" for k
    proof -
      obtain j where "j < 64" "k = 64 * i + j" using split [of k] k by auto
      then show ?thesis using assms(1) [of j] True k by (simp add: bit_at_word)
    qed
    then show ?thesis using True assms(3) by (simp add: first_in_def)
  next
    case False
    note f = sbi_ffs_first [OF False]
    have s: "lo \<le> sbi_ffs tmp" "sbi_ffs tmp < n" "bit (addr ! i) (sbi_ffs tmp)"
      using f(1) assms(1) by auto
    have "\<not> bit_at addr k" if k: "64 * i + lo \<le> k" "k < 64 * i + sbi_ffs tmp" for k
    proof -
      obtain j where "j < 64" "k = 64 * i + j" using split [of k] k s by auto
      then show ?thesis using assms(1) [of j] f(2) [of j] k s by (simp add: bit_at_word)
    qed
    then show ?thesis using False s f(3) by (auto simp: first_in_def bit_at_word)
  qed
qed

lemma bit_low_mask: "0 < k \<Longrightarrow> k \<le> 64 \<Longrightarrow> bit (drop_bit (64 - k) (- 1 :: u64)) j \<longleftrightarrow> j < k"
  by (auto simp: bit_drop_bit_eq bit_mask_iff)

lemma bit_high_mask: "bit (push_bit k (- 1 :: u64)) j \<longleftrightarrow> k \<le> j \<and> j < 64"
  by (auto simp: bit_push_bit_iff bit_not_iff bit_mask_iff)

lemma bit_imp_less_64: "bit (w :: u64) j \<Longrightarrow> j < 64"
  using bit_imp_le_length [of w j] by simp

lemma word_bits_64: "bit (w :: u64) j \<longleftrightarrow> j < 64 \<and> bit w j"
  using bit_imp_le_length [of w j] by auto

lemma find_bit_loop_first:
  "result = 64 * i \<Longrightarrow> first_in (bit_at addr) result (result + sz) (find_bit_loop addr i result sz)"
proof (induction addr i result sz rule: find_bit_loop.induct)
  case (1 addr i result sz)
  note result = 1(2)
  show ?case
  proof (cases "64 \<le> sz")
    case big: True
    have word: "first_in (bit_at addr) (64 * i + 0) (64 * i + 64)
        (if addr ! i = 0 then 64 * i + 64 else 64 * i + sbi_ffs (addr ! i))"
      by (rule first_in_word) (use word_bits_64 in auto)
    show ?thesis
    proof (cases "addr ! i = 0")
      case True
      have "first_in (bit_at addr) (result + 64) (result + sz) (find_bit_loop addr (Suc i) (result + 64) (sz - 64))"
        using 1(1) [OF big] True result big by simp
      moreover have "find_bit_loop addr i result sz = find_bit_loop addr (Suc i) (result + 64) (sz - 64)"
        using big True by (subst find_bit_loop.simps) simp
      moreover have "first_in (bit_at addr) result (result + 64) (result + 64)"
        using word True result by simp
      ultimately show ?thesis
        using first_in_none by metis
    next
      case False
      then have "find_bit_loop addr i result sz = result + sbi_ffs (addr ! i)"
        using big by (subst find_bit_loop.simps) simp
      moreover have "first_in (bit_at addr) result (result + 64) (result + sbi_ffs (addr ! i))"
        using word False result by simp
      ultimately show ?thesis
        using first_in_extend sbi_ffs_first(3) [OF False] big by simp
    qed
  next
    case False
    let ?tmp = "addr ! i AND drop_bit (64 - sz) (- 1)"
    show ?thesis
    proof (cases "sz = 0")
      case True
      then show ?thesis by (subst find_bit_loop.simps) (auto simp: first_in_def)
    next
      case nz: False
      have "first_in (bit_at addr) (64 * i + 0) (64 * i + sz)
          (if ?tmp = 0 then 64 * i + sz else 64 * i + sbi_ffs ?tmp)"
        using nz False by (intro first_in_word) (auto simp: bit_and_iff bit_mask_iff)
      moreover have "find_bit_loop addr i result sz = (if ?tmp = 0 then 64 * i + sz else 64 * i + sbi_ffs ?tmp)"
        using nz False result by (subst find_bit_loop.simps) (simp add: Let_def)
      ultimately show ?thesis using result by simp
    qed
  qed
qed

lemma find_next_bit_first:
  assumes "offset < sz"
  shows "first_in (bit_at addr) offset sz (find_next_bit addr sz offset)"
proof -
  let ?i = "offset div 64" and ?off = "offset mod 64"
  let ?sz = "sz - 64 * ?i" and ?w = "addr ! (offset div 64)"
  have o: "64 * ?i + ?off = offset" "?off < 64" "64 * ?i + ?sz = sz" "?off < ?sz"
    using assms mult_div_mod_eq [of 64 offset] mod_less_divisor [of 64 offset] by linarith+
  show ?thesis
  proof (cases "?off = 0")
    case True
    then show ?thesis
      using find_bit_loop_first [of "64 * ?i" ?i addr ?sz] o assms
      by (simp add: find_next_bit_def Let_def)
  next
    case off: False
    let ?tmp = "?w AND push_bit ?off (- 1)"
    show ?thesis
    proof (cases "?sz < 64")
      case True
      let ?t = "?tmp AND drop_bit (64 - ?sz) (- 1)"
      have "first_in (bit_at addr) (64 * ?i + ?off) (64 * ?i + ?sz)
          (if ?t = 0 then 64 * ?i + ?sz else 64 * ?i + sbi_ffs ?t)"
        using True o by (intro first_in_word) (auto simp: bit_and_iff bit_mask_iff bit_not_iff)
      moreover have "find_next_bit addr sz offset = (if ?t = 0 then 64 * ?i + ?sz else 64 * ?i + sbi_ffs ?t)"
        using off True assms by (simp add: find_next_bit_def Let_def)
      ultimately show ?thesis unfolding o(1,3) by presburger
    next
      case False
      have word: "first_in (bit_at addr) (64 * ?i + ?off) (64 * ?i + 64)
          (if ?tmp = 0 then 64 * ?i + 64 else 64 * ?i + sbi_ffs ?tmp)"
        using o(2) by (intro first_in_word) (auto simp: bit_and_iff bit_mask_iff bit_not_iff dest: bit_imp_less_64)
      show ?thesis
      proof (cases "?tmp = 0")
        case True
        have "first_in (bit_at addr) (64 * ?i + 64) (64 * ?i + 64 + (?sz - 64))
            (find_bit_loop addr (Suc ?i) (64 * ?i + 64) (?sz - 64))"
          by (rule find_bit_loop_first) simp
        moreover have "64 * ?i + 64 + (?sz - 64) = sz" using o(3) False by linarith
        ultimately have rest: "first_in (bit_at addr) (64 * ?i + 64) sz
            (find_bit_loop addr (Suc ?i) (64 * ?i + 64) (?sz - 64))"
          by simp
        have "first_in (bit_at addr) offset (64 * ?i + 64) (64 * ?i + 64)"
          using word True o(1) by simp
        then have "first_in (bit_at addr) offset sz (find_bit_loop addr (Suc ?i) (64 * ?i + 64) (?sz - 64))"
          using rest by (rule first_in_none)
        moreover have "find_next_bit addr sz offset = find_bit_loop addr (Suc ?i) (64 * ?i + 64) (?sz - 64)"
          using True off False assms by (simp add: find_next_bit_def Let_def)
        ultimately show ?thesis by simp
      next
        case nz: False
        have "first_in (bit_at addr) offset (64 * ?i + 64) (64 * ?i + sbi_ffs ?tmp)"
          using word nz o(1) by simp
        moreover have "64 * ?i + 64 \<le> sz" using o(3) False by linarith
        ultimately have "first_in (bit_at addr) offset sz (64 * ?i + sbi_ffs ?tmp)"
          using first_in_extend sbi_ffs_first(3) [OF nz] by simp
        moreover have "find_next_bit addr sz offset = 64 * ?i + sbi_ffs ?tmp"
          using nz off False assms by (simp add: find_next_bit_def Let_def)
        ultimately show ?thesis by simp
      qed
    qed
  qed
qed

lemma find_first_bit_next: "find_first_bit addr sz = find_next_bit addr sz 0"
  by (cases "sz = 0") (auto simp: find_first_bit_def find_next_bit_def Let_def find_bit_loop.simps)

lemma or_not_mask: "x OR NOT m = - 1 \<longleftrightarrow> NOT x AND m = (0 :: u64)"
proof -
  have "x OR NOT m = NOT (NOT x AND m)" by simp
  moreover have "NOT y = - 1 \<longleftrightarrow> y = 0" for y :: u64
    by (metis bit.compl_zero bit.double_compl)
  ultimately show ?thesis by metis
qed

text \<open>The searches for a clear bit are the searches for a set bit in the complement.\<close>

lemma find_zero_loop_not:
  assumes "64 * i + sz \<le> 64 * length addr"
  shows "find_zero_loop addr i result sz = find_bit_loop (map NOT addr) i result sz"
  using assms
proof (induction addr i result sz rule: find_zero_loop.induct)
  case (1 addr i result sz)
  show ?case
  proof (cases "sz = 0")
    case True
    then show ?thesis by (subst find_zero_loop.simps, subst find_bit_loop.simps) simp
  next
    case False
    then have i: "i < length addr" using 1(2) by linarith
    have low: "addr ! i OR push_bit sz (- 1) = NOT (NOT (addr ! i) AND drop_bit (64 - sz) (- 1))" if "sz < 64"
      by (rule bit_word_eqI) (use that False in \<open>auto simp: bit_simps\<close>)
    show ?thesis
      using 1 i low False
      by (subst find_zero_loop.simps, subst find_bit_loop.simps) (simp add: sbi_ffz_def Let_def or_not_mask)
  qed
qed

lemma find_next_zero_bit_not:
  assumes "sz \<le> 64 * length addr"
  shows "find_next_zero_bit addr sz offset = find_next_bit (map NOT addr) sz offset"
proof (cases "offset < sz")
  case True
  let ?i = "offset div 64" and ?off = "offset mod 64"
  let ?sz = "sz - 64 * ?i" and ?w = "addr ! (offset div 64)"
  have o: "64 * ?i + ?sz = sz"
    using True mult_div_mod_eq [of 64 offset] by linarith
  have i: "?i < length addr" using True assms by linarith
  have high: "?w OR drop_bit (64 - ?off) (- 1) = NOT (NOT ?w AND push_bit ?off (- 1))"
    by (rule bit_word_eqI) (auto simp: bit_simps)
  have low: "x OR push_bit ?sz (- 1) = NOT (NOT x AND drop_bit (64 - ?sz) (- 1))" if "?sz < 64" for x :: u64
    by (rule bit_word_eqI) (use that in \<open>auto simp: bit_simps\<close>)
  have rest: "find_zero_loop addr (Suc ?i) (64 * ?i + 64) (?sz - 64) =
      find_bit_loop (map NOT addr) (Suc ?i) (64 * ?i + 64) (?sz - 64)" if "\<not> ?sz < 64"
    using that o assms by (intro find_zero_loop_not) (cases "?sz", simp_all)
  show ?thesis
    using True i low o assms rest find_zero_loop_not [of ?i ?sz addr "64 * ?i"]
    by (simp add: find_next_zero_bit_def find_next_bit_def Let_def high sbi_ffz_def or_not_mask)
next
  case False
  then show ?thesis by (simp add: find_next_zero_bit_def find_next_bit_def Let_def)
qed

lemma find_last_loop_spec:
  shows "(find_last_loop addr sz m = sz \<and> (\<forall>k < 64 * m. \<not> bit_at addr k)) \<or>
    (find_last_loop addr sz m < 64 * m \<and> bit_at addr (find_last_loop addr sz m) \<and>
      (\<forall>k < 64 * m. find_last_loop addr sz m < k \<longrightarrow> \<not> bit_at addr k))"
proof (induction m)
  case 0
  then show ?case by simp
next
  case (Suc m)
  have word: "\<exists>j < 64. k = 64 * m + j" if "64 * m \<le> k" "k < 64 * Suc m" for k
    using that by (intro exI [of _ "k - 64 * m"]) auto
  show ?case
  proof (cases "addr ! m = 0")
    case True
    then have "\<not> bit_at addr k" if "64 * m \<le> k" "k < 64 * Suc m" for k
      using word [OF that] by (auto simp: bit_at_word)
    then show ?thesis using Suc True by (auto simp: not_less) (meson leI)+
  next
    case False
    note f = sbi_fls_last [OF False]
    have "\<not> bit_at addr k" if "64 * m + sbi_fls (addr ! m) < k" "k < 64 * Suc m" for k
      using word [of k] that f(2) by (auto simp: bit_at_word)
    moreover have "find_last_loop addr sz (Suc m) = 64 * m + sbi_fls (addr ! m)" using False by simp
    ultimately show ?thesis using f by (simp only: bit_at_word) simp
  qed
qed

lemma find_last_bit_spec:
  fixes addr sz defines "r \<equiv> find_last_bit addr sz"
  shows "r = sz \<and> (\<forall>k < sz. \<not> bit_at addr k) \<or> r < sz \<and> bit_at addr r \<and> (\<forall>k < sz. r < k \<longrightarrow> \<not> bit_at addr k)"
proof -
  let ?w = "sz div 64" and ?m = "sz mod 64"
  have sz: "64 * ?w + ?m = sz" "?m < 64" by auto
  let ?tmp = "addr ! ?w AND drop_bit (64 - ?m) (- 1)"
  have tmp: "bit ?tmp j \<longleftrightarrow> j < ?m \<and> bit (addr ! ?w) j" if "?m \<noteq> 0" for j
    using that by (auto simp: bit_and_iff bit_mask_iff)
  have word: "\<exists>j < ?m. k = 64 * ?w + j" if "64 * ?w \<le> k" "k < sz" for k
    using that sz(1) by (intro exI [of _ "k - 64 * ?w"] conjI) linarith+
  show ?thesis
  proof (cases "?m \<noteq> 0 \<and> ?tmp \<noteq> 0")
    case True
    then have r: "r = 64 * ?w + sbi_fls ?tmp"
      unfolding r_def find_last_bit_def Let_def by (simp add: mult.commute)
    note f = sbi_fls_last [of ?tmp]
    have lt: "sbi_fls ?tmp < ?m" and b: "bit (addr ! ?w) (sbi_fls ?tmp)"
      using f(1) True tmp by auto
    have "r < sz" using lt r sz(1) by linarith
    moreover have "bit_at addr r"
      using b f(3) True bit_at_word [of "sbi_fls ?tmp" addr ?w] r by simp
    moreover have "\<not> bit_at addr k" if "k < sz" "r < k" for k
    proof -
      have "64 * ?w \<le> k" using that r by linarith
      from word [OF this that(1)] obtain j where j: "j < ?m" "k = 64 * ?w + j" by (elim exE conjE)
      then have "sbi_fls ?tmp < j" using that(2) r by linarith
      then have "\<not> bit ?tmp j" using f(2) True by blast
      then have "\<not> bit (addr ! ?w) j" using tmp [of j] True j(1) by blast
      moreover have "j < 64" using j(1) sz(2) by linarith
      ultimately show ?thesis using bit_at_word [of j addr ?w] j(2) by blast
    qed
    ultimately show ?thesis by blast
  next
    case False
    then have r: "r = find_last_loop addr sz ?w"
      unfolding r_def find_last_bit_def Let_def by auto
    have none: "\<not> bit_at addr k" if "64 * ?w \<le> k" "k < sz" for k
    proof -
      from word [OF that] obtain j where j: "j < ?m" "k = 64 * ?w + j" by (elim exE conjE)
      then have "\<not> bit (addr ! ?w) j" using tmp [of j] False by auto
      moreover have "j < 64" using j(1) sz(2) by linarith
      ultimately show ?thesis using bit_at_word [of j addr ?w] j(2) by blast
    qed
    then have "\<And>k. k < sz \<Longrightarrow> bit_at addr k \<Longrightarrow> k < 64 * ?w" by (meson leI)
    then show ?thesis using find_last_loop_spec [of addr sz ?w] r sz(1) by auto
  qed
qed

text \<open>
  C35: the five searches.  \<open>find_next_bit\<close> and \<open>find_next_zero_bit\<close> return the first
  set (clear) bit from the offset on, \<open>find_first_bit\<close> and \<open>find_first_zero_bit\<close> the
  first one at all, \<open>find_last_bit\<close> the last set bit; each returns the size when there is
  none.
\<close>

theorem bitmap_search:
  assumes "sz \<le> 64 * length addr" and "offset < sz"
  shows "first_in (bit_at addr) offset sz (find_next_bit addr sz offset) \<and>
    first_in (\<lambda>k. \<not> bit_at addr k) offset sz (find_next_zero_bit addr sz offset) \<and>
    first_in (bit_at addr) 0 sz (find_first_bit addr sz) \<and>
    first_in (\<lambda>k. \<not> bit_at addr k) 0 sz (find_first_zero_bit addr sz) \<and>
    (let r = find_last_bit addr sz in
       r = sz \<and> (\<forall>k < sz. \<not> bit_at addr k) \<or>
       r < sz \<and> bit_at addr r \<and> (\<forall>k < sz. r < k \<longrightarrow> \<not> bit_at addr k))"
proof -
  have neg: "bit_at (map NOT addr) k \<longleftrightarrow> \<not> bit_at addr k" if "k < sz" for k
    using that assms(1) by (simp add: bit_at_def bit_not_iff less_mult_imp_div_less mult.commute)
  have zero: "first_in (\<lambda>k. \<not> bit_at addr k) lo sz r" if "first_in (bit_at (map NOT addr)) lo sz r" for lo r
    using that neg by (auto simp: first_in_def)
  have "find_first_zero_bit addr sz = find_next_bit (map NOT addr) sz 0"
    using find_zero_loop_not [of 0 sz addr] assms(1) find_first_bit_next [of "map NOT addr"]
    by (simp add: find_first_zero_bit_def find_first_bit_def)
  then show ?thesis
    using assms find_next_bit_first [of offset sz] find_next_bit_first [of 0 sz] zero find_last_bit_spec [of addr sz]
    by (simp add: find_next_zero_bit_not find_first_bit_next Let_def)
qed

lemma demo_bitmap:
  "find_next_bit [0x8000000000000010, 0x2] 128 5 = 63" "find_last_bit [0x8000000000000010, 0x2] 128 = 65"
  by code_simp+

theorem bitmap_search_witness:
  "find_next_bit [0x8000000000000010, 0x2] 128 5 = 63 \<and> find_last_bit [0x8000000000000010, 0x2] 128 = 65 \<and>
   first_in (bit_at [0x8000000000000010, 0x2]) 5 128 (find_next_bit [0x8000000000000010, 0x2] 128 5)"
  using bitmap_search [of 128 "[0x8000000000000010, 0x2]" 5]
  by (simp add: demo_bitmap)

section \<open>Changing a bitmap\<close>

lemma length_change [simp]:
  "length (set_bit' i m) = length m" "length (clear_bit' i m) = length m" "length (change_bit' i m) = length m"
  by (simp_all add: set_bit'_def clear_bit'_def change_bit'_def)

lemma test_bit'_iff: "test_bit' i m \<longleftrightarrow> bit_at m i"
  by (simp add: test_bit'_def bit_at_def BIT_WORD_def one_and_eq and_one_eq bit_iff_odd_drop_bit odd_iff_mod_2_eq_one)

lemma bit_BIT_MASK: "bit (BIT_MASK i) j \<longleftrightarrow> j = i mod 64"
  by (auto simp: BIT_MASK_def bit_simps)

lemma bit_at_change:
  assumes "i < 64 * length m" "k < 64 * length m"
  shows "bit_at (set_bit' i m) k \<longleftrightarrow> k = i \<or> bit_at m k"
    and "bit_at (clear_bit' i m) k \<longleftrightarrow> k \<noteq> i \<and> bit_at m k"
    and "bit_at (change_bit' i m) k \<longleftrightarrow> (k = i) \<noteq> bit_at m k"
proof -
  have i: "i div 64 < length m" and k: "k div 64 < length m" using assms by auto
  have eq: "k div 64 = i div 64 \<Longrightarrow> k mod 64 = i mod 64 \<longleftrightarrow> k = i"
    by (metis mult_div_mod_eq)
  show "bit_at (set_bit' i m) k \<longleftrightarrow> k = i \<or> bit_at m k"
    "bit_at (clear_bit' i m) k \<longleftrightarrow> k \<noteq> i \<and> bit_at m k"
    "bit_at (change_bit' i m) k \<longleftrightarrow> (k = i) \<noteq> bit_at m k"
    using i k eq
    by (cases "k div 64 = i div 64";
        auto simp: bit_at_def set_bit'_def clear_bit'_def change_bit'_def BIT_WORD_def bit_or_iff
          bit_and_iff bit_xor_iff bit_not_iff bit_BIT_MASK nth_list_update)+
qed

lemma bitmap_loop_nth:
  assumes "k + m \<le> length dst"
  shows "length (bitmap_loop f dst b1 b2 k m) = length dst \<and>
    (\<forall>i < length dst. bitmap_loop f dst b1 b2 k m ! i = (if k \<le> i \<and> i < k + m then f (b1 ! i) (b2 ! i) else dst ! i))"
  using assms
proof (induction m arbitrary: k dst)
  case (Suc m)
  then show ?case
    by (simp add: nth_list_update) (metis le_antisym not_less_eq_eq)
qed auto

section \<open>Hart masks\<close>

definition SBI_HARTMASK_MAX_BITS :: nat where "SBI_HARTMASK_MAX_BITS = 128"

type_synonym sbi_hartmask = bitmap

definition sbi_hartmask_set_hartindex :: "nat \<Rightarrow> sbi_hartmask \<Rightarrow> sbi_hartmask" where
  "sbi_hartmask_set_hartindex i m = (if i < SBI_HARTMASK_MAX_BITS then set_bit' i m else m)"

definition sbi_hartmask_clear_hartindex :: "nat \<Rightarrow> sbi_hartmask \<Rightarrow> sbi_hartmask" where
  "sbi_hartmask_clear_hartindex i m = (if i < SBI_HARTMASK_MAX_BITS then clear_bit' i m else m)"

definition sbi_hartmask_test_hartindex :: "nat \<Rightarrow> sbi_hartmask \<Rightarrow> bool" where
  "sbi_hartmask_test_hartindex i m = (if i < SBI_HARTMASK_MAX_BITS then test_bit' i m else False)"

definition sbi_hartmask_clear_all :: sbi_hartmask where
  "sbi_hartmask_clear_all = replicate (BITS_TO_LONGS SBI_HARTMASK_MAX_BITS) 0"

definition sbi_hartmask_set_all :: sbi_hartmask where
  "sbi_hartmask_set_all = replicate (BITS_TO_LONGS SBI_HARTMASK_MAX_BITS) (- 1)"

definition sbi_hartmask_and :: "sbi_hartmask \<Rightarrow> sbi_hartmask \<Rightarrow> sbi_hartmask \<Rightarrow> sbi_hartmask" where
  "sbi_hartmask_and dst m1 m2 = bitmap_and' dst m1 m2 SBI_HARTMASK_MAX_BITS"

definition sbi_hartmask_or :: "sbi_hartmask \<Rightarrow> sbi_hartmask \<Rightarrow> sbi_hartmask \<Rightarrow> sbi_hartmask" where
  "sbi_hartmask_or dst m1 m2 = bitmap_or' dst m1 m2 SBI_HARTMASK_MAX_BITS"

definition sbi_hartmask_xor :: "sbi_hartmask \<Rightarrow> sbi_hartmask \<Rightarrow> sbi_hartmask \<Rightarrow> sbi_hartmask" where
  "sbi_hartmask_xor dst m1 m2 = bitmap_xor' dst m1 m2 SBI_HARTMASK_MAX_BITS"

text \<open>
  \<open>for_each_set_bit\<close>: the bits the loop visits from \<open>b\<close> on, when its body does not
  change the bits that are still to come.
\<close>

function bits_from :: "bitmap \<Rightarrow> nat \<Rightarrow> nat \<Rightarrow> nat list" where
  "bits_from addr sz b = (if b < sz then b # bits_from addr sz (find_next_bit addr sz (b + 1)) else [])"
  by pat_completeness auto
termination
proof (relation "measure (\<lambda>(addr, sz, b). sz - b)")
  fix addr sz b assume "b < (sz :: nat)"
  moreover have "b < find_next_bit addr sz (b + 1)"
  proof (cases "b + 1 < sz")
    case True
    then show ?thesis using find_next_bit_first [of "b + 1" sz addr] by (simp add: first_in_def)
  next
    case False
    then show ?thesis using \<open>b < sz\<close> by (simp add: find_next_bit_def)
  qed
  ultimately show "((addr, sz, find_next_bit addr sz (b + 1)), addr, sz, b) \<in> measure (\<lambda>(addr, sz, b). sz - b)"
    by simp
qed simp

declare bits_from.simps [simp del]

definition sbi_hartmask_harts :: "sbi_hartmask \<Rightarrow> nat list" where
  "sbi_hartmask_harts m = bits_from m SBI_HARTMASK_MAX_BITS (find_first_bit m SBI_HARTMASK_MAX_BITS)"

lemma bits_from_first:
  assumes "first_in (bit_at addr) lo sz b" "lo \<le> sz"
  shows "bits_from addr sz b = filter (bit_at addr) [lo..<sz]"
  using assms
proof (induction addr sz b arbitrary: lo rule: bits_from.induct)
  case (1 addr sz b)
  have upto: "[lo..<sz] = [lo..<b] @ [b..<sz]" and none: "filter (bit_at addr) [lo..<b] = []"
    using 1(2,3) upt_add_eq_append [of lo b "sz - b"] by (auto simp: first_in_def filter_empty_conv)
  show ?case
  proof (cases "b < sz")
    case True
    have "first_in (bit_at addr) (Suc b) sz (find_next_bit addr sz (b + 1))"
      using find_next_bit_first [of "Suc b" sz addr] True
      by (cases "Suc b < sz") (auto simp: find_next_bit_def first_in_def)
    then have "bits_from addr sz (find_next_bit addr sz (b + 1)) = filter (bit_at addr) [Suc b..<sz]"
      using 1(1) [OF True] True by simp
    moreover have "bit_at addr b" using 1(2) True by (simp add: first_in_def)
    ultimately show ?thesis
      using True none unfolding upto upt_conv_Cons [OF True]
      by (subst bits_from.simps) simp
  next
    case False
    then show ?thesis using none upto by (subst bits_from.simps) simp
  qed
qed

lemma sbi_hartmask_harts_eq: "sbi_hartmask_harts m = filter (bit_at m) [0..<128]"
  unfolding sbi_hartmask_harts_def SBI_HARTMASK_MAX_BITS_def
  by (rule bits_from_first) (simp_all add: find_first_bit_next find_next_bit_first)

text \<open>The set a hart mask stands for.\<close>

definition hart_set :: "sbi_hartmask \<Rightarrow> nat set" where
  "hart_set m = {i. i < 128 \<and> bit_at m i}"

definition wf_mask :: "sbi_hartmask \<Rightarrow> bool" where
  "wf_mask m \<longleftrightarrow> length m = 2"

lemma mask_set:
  assumes "wf_mask m"
  shows "wf_mask (sbi_hartmask_set_hartindex i m)"
    and "hart_set (sbi_hartmask_set_hartindex i m) = (if i < 128 then insert i (hart_set m) else hart_set m)"
  using assms bit_at_change(1) [of i m]
  by (auto simp: wf_mask_def sbi_hartmask_set_hartindex_def SBI_HARTMASK_MAX_BITS_def hart_set_def)

lemma mask_clear:
  assumes "wf_mask m"
  shows "wf_mask (sbi_hartmask_clear_hartindex i m)"
    and "hart_set (sbi_hartmask_clear_hartindex i m) = hart_set m - {i}"
  using assms bit_at_change(2) [of i m]
  by (auto simp: wf_mask_def sbi_hartmask_clear_hartindex_def SBI_HARTMASK_MAX_BITS_def hart_set_def)

lemma mask_test: "sbi_hartmask_test_hartindex i m \<longleftrightarrow> i \<in> hart_set m"
  by (simp add: sbi_hartmask_test_hartindex_def SBI_HARTMASK_MAX_BITS_def hart_set_def test_bit'_iff)

lemma mask_all:
  "wf_mask sbi_hartmask_clear_all" "hart_set sbi_hartmask_clear_all = {}"
  "wf_mask sbi_hartmask_set_all" "hart_set sbi_hartmask_set_all = {..<128}"
  by (auto simp: wf_mask_def sbi_hartmask_clear_all_def sbi_hartmask_set_all_def BITS_TO_LONGS_def
      SBI_HARTMASK_MAX_BITS_def hart_set_def bit_at_def)

lemma mask_harts: "set (sbi_hartmask_harts m) = hart_set m" "sorted (sbi_hartmask_harts m)" "distinct (sbi_hartmask_harts m)"
  by (auto simp: sbi_hartmask_harts_eq hart_set_def sorted_wrt_filter)

lemma mask_binop:
  assumes "length dst = 2" "\<And>v w j. j < 64 \<Longrightarrow> bit (f v w) j \<longleftrightarrow> g (bit v j) (bit w j)"
  shows "wf_mask (bitmap_loop f dst m1 m2 0 (BITS_TO_LONGS SBI_HARTMASK_MAX_BITS))"
    and "hart_set (bitmap_loop f dst m1 m2 0 (BITS_TO_LONGS SBI_HARTMASK_MAX_BITS)) =
      {i. i < 128 \<and> g (bit_at m1 i) (bit_at m2 i)}"
proof -
  have two: "BITS_TO_LONGS SBI_HARTMASK_MAX_BITS = 2"
    by (simp add: BITS_TO_LONGS_def SBI_HARTMASK_MAX_BITS_def)
  have nth: "length (bitmap_loop f dst m1 m2 0 2) = 2"
    "i < 2 \<Longrightarrow> bitmap_loop f dst m1 m2 0 2 ! i = f (m1 ! i) (m2 ! i)" for i
    using bitmap_loop_nth [of 0 2 dst f m1 m2] assms(1) by auto
  show "wf_mask (bitmap_loop f dst m1 m2 0 (BITS_TO_LONGS SBI_HARTMASK_MAX_BITS))"
    using nth(1) by (simp add: two wf_mask_def)
  have "bit_at (bitmap_loop f dst m1 m2 0 2) i \<longleftrightarrow> g (bit_at m1 i) (bit_at m2 i)" if "i < 128" for i
  proof -
    have "i div 64 < 2" using that by auto
    then show ?thesis using assms(2) by (simp add: bit_at_def nth(2))
  qed
  then show "hart_set (bitmap_loop f dst m1 m2 0 (BITS_TO_LONGS SBI_HARTMASK_MAX_BITS)) =
      {i. i < 128 \<and> g (bit_at m1 i) (bit_at m2 i)}"
    by (auto simp: two hart_set_def)
qed

lemma mask_ops:
  assumes "wf_mask m"
  shows "hart_set (sbi_hartmask_and m m1 m2) = hart_set m1 \<inter> hart_set m2" "wf_mask (sbi_hartmask_and m m1 m2)"
    "hart_set (sbi_hartmask_or m m1 m2) = hart_set m1 \<union> hart_set m2" "wf_mask (sbi_hartmask_or m m1 m2)"
    "hart_set (sbi_hartmask_xor m m1 m2) = (hart_set m1 - hart_set m2) \<union> (hart_set m2 - hart_set m1)"
    "wf_mask (sbi_hartmask_xor m m1 m2)"
  using assms mask_binop [of m "(AND)" "(\<and>)" m1 m2] mask_binop [of m "(OR)" "(\<or>)" m1 m2]
    mask_binop [of m "(XOR)" "(\<noteq>)" m1 m2]
  by (auto simp: wf_mask_def sbi_hartmask_and_def sbi_hartmask_or_def sbi_hartmask_xor_def
      bitmap_and'_def bitmap_or'_def bitmap_xor'_def bit_and_iff bit_or_iff bit_xor_iff hart_set_def)

text \<open>
  The contract of a set of hart indexes below \<open>bound\<close>, and what its clients (the loops over
  \<open>sbi_hartmask_for_each_hartindex\<close>) derive from it.
\<close>

locale index_set =
  fixes wf :: "'m \<Rightarrow> bool"
    and elems :: "'m \<Rightarrow> nat set"
    and add :: "nat \<Rightarrow> 'm \<Rightarrow> 'm"
    and remove :: "nat \<Rightarrow> 'm \<Rightarrow> 'm"
    and member :: "nat \<Rightarrow> 'm \<Rightarrow> bool"
    and walk :: "'m \<Rightarrow> nat list"
    and bound :: nat
  assumes add_wf: "wf m \<Longrightarrow> wf (add i m)"
    and add_elems: "wf m \<Longrightarrow> elems (add i m) = (if i < bound then insert i (elems m) else elems m)"
    and remove_wf: "wf m \<Longrightarrow> wf (remove i m)"
    and remove_elems: "wf m \<Longrightarrow> elems (remove i m) = elems m - {i}"
    and member_elems: "member i m \<longleftrightarrow> i \<in> elems m"
    and walk_elems: "set (walk m) = elems m"
    and walk_sorted: "sorted (walk m)"
    and walk_distinct: "distinct (walk m)"
    and elems_bound: "elems m \<subseteq> {..<bound}"
begin

lemma walk_unique: "elems m = elems m' \<Longrightarrow> walk m = walk m'"
  by (metis sorted_distinct_set_unique walk_distinct walk_elems walk_sorted)

lemma fold_add_elems:
  assumes "wf m"
  shows "wf (fold add is m)" "elems (fold add is m) = elems m \<union> (set is \<inter> {..<bound})"
  using assms
proof (induction "is" arbitrary: m)
  case (Cons i "is")
  case 1 then show ?case using Cons add_wf by simp
  case 2 then show ?case using Cons [OF add_wf, of m i] add_elems [of m i] by auto
qed auto

text \<open>A loop that removes the indexes that fail a test while it walks the set.\<close>

lemma fold_remove_elems:
  assumes "wf m"
  shows "wf (fold (\<lambda>i m. if P i then m else remove i m) is m)"
    and "elems (fold (\<lambda>i m. if P i then m else remove i m) is m) = elems m - {i \<in> set is. \<not> P i}"
  using assms
proof (induction "is" arbitrary: m)
  case (Cons i "is")
  case 1 then show ?case using Cons remove_wf by simp
  case 2 then show ?case using Cons [OF remove_wf, of m i] Cons(2) [of m] remove_elems [of m i] by auto
qed auto

end

interpretation hm: index_set wf_mask hart_set sbi_hartmask_set_hartindex sbi_hartmask_clear_hartindex
  sbi_hartmask_test_hartindex sbi_hartmask_harts 128
  by unfold_locales
    (simp_all add: mask_set mask_clear mask_test mask_harts, auto simp: hart_set_def)

text \<open>
  A hart mask is a set of hart indexes below 128: the operations are insertion, removal,
  membership, intersection, union and symmetric difference, indexes from 128 on are ignored,
  and the iteration macro visits each member once, in ascending order.
\<close>

lemma hartmask_is_set:
  assumes "wf_mask m" "wf_mask m1" "wf_mask m2"
  shows "hart_set (sbi_hartmask_set_hartindex i m) = hart_set m \<union> ({i} \<inter> {..<128}) \<and>
    hart_set (sbi_hartmask_clear_hartindex i m) = hart_set m - {i} \<and>
    (sbi_hartmask_test_hartindex i m \<longleftrightarrow> i \<in> hart_set m) \<and>
    hart_set (sbi_hartmask_and m m1 m2) = hart_set m1 \<inter> hart_set m2 \<and>
    hart_set (sbi_hartmask_or m m1 m2) = hart_set m1 \<union> hart_set m2 \<and>
    hart_set (sbi_hartmask_xor m m1 m2) = (hart_set m1 - hart_set m2) \<union> (hart_set m2 - hart_set m1) \<and>
    sbi_hartmask_harts m = sorted_list_of_set (hart_set m)"
proof -
  have "sbi_hartmask_harts m = sorted_list_of_set (hart_set m)"
    using mask_harts [of m] by (metis sorted_list_of_set.idem_if_sorted_distinct)
  then show ?thesis
    using mask_ops [OF assms(1)] mask_set(2) [OF assms(1)] mask_clear(2) [OF assms(1)] mask_test by auto
qed

lemma demo_harts: "sbi_hartmask_harts (sbi_hartmask_or sbi_hartmask_clear_all [5, 0] [0, 1]) = [0, 2, 64]"
  by code_simp

end
