(* ===== verification/SbiScratch.thy ===== *)
theory SbiScratch
  imports SbiBits
begin

text \<open>
  Per-hart scratch spaces (\<open>lib/sbi/sbi_scratch.c\<close>): the tables from hart indexes to hart
  ids and scratch spaces, and the allocator that hands out the same offset in every scratch
  space.
\<close>

unbundle bit_operations_syntax

section \<open>State and operations\<close>

definition SBI_SCRATCH_SIZE :: u64 where "SBI_SCRATCH_SIZE = 0x1000"
definition SBI_SCRATCH_EXTRA_SPACE_OFFSET :: u64 where "SBI_SCRATCH_EXTRA_SPACE_OFFSET = 15 * 8"

text \<open>
  \<open>scratch_table\<close> has the bytes of each hart's scratch space, \<open>None\<close> for a null pointer.
\<close>

record scratch_state =
  last_hartindex_having_scratch :: nat
  hartindex_to_hartid_table :: "u32 list"
  hartindex_to_scratch_table :: "u8 list option list"
  extra_offset :: u64

fun hartid_loop :: "u32 list \<Rightarrow> nat \<Rightarrow> nat \<Rightarrow> u32 \<Rightarrow> nat" where
  "hartid_loop tab i 0 hartid = 0xffffffff"
| "hartid_loop tab i (Suc m) hartid = (if tab ! i = hartid then i else hartid_loop tab (Suc i) m hartid)"

definition sbi_hartid_to_hartindex :: "scratch_state \<Rightarrow> u32 \<Rightarrow> nat" where
  "sbi_hartid_to_hartindex st hartid =
     hartid_loop (hartindex_to_hartid_table st) 0 (Suc (last_hartindex_having_scratch st)) hartid"

definition sbi_hartindex_valid :: "scratch_state \<Rightarrow> nat \<Rightarrow> bool" where
  "sbi_hartindex_valid st i \<longleftrightarrow> i \<le> last_hartindex_having_scratch st"

definition sbi_hartindex_to_hartid :: "scratch_state \<Rightarrow> nat \<Rightarrow> u32" where
  "sbi_hartindex_to_hartid st i =
     (if i \<le> last_hartindex_having_scratch st then hartindex_to_hartid_table st ! i else - 1)"

definition sbi_hartindex_to_scratch :: "scratch_state \<Rightarrow> nat \<Rightarrow> u8 list option" where
  "sbi_hartindex_to_scratch st i =
     (if i \<le> last_hartindex_having_scratch st then hartindex_to_scratch_table st ! i else None)"

text \<open>
  \<open>sbi_scratch_init\<close>: \<open>hart_count\<close> and \<open>hart_index2id\<close> come from the platform,
  \<open>to_scratch\<close> is the firmware's function from hart id and index to scratch space.
\<close>

fun scratch_init_loop ::
  "(nat \<Rightarrow> u32) option \<Rightarrow> (u32 \<Rightarrow> nat \<Rightarrow> u8 list option) \<Rightarrow> nat \<Rightarrow> nat \<Rightarrow> scratch_state \<Rightarrow> scratch_state" where
  "scratch_init_loop index2id to_scratch i 0 st = st"
| "scratch_init_loop index2id to_scratch i (Suc m) st =
     (let h = (case index2id of Some f \<Rightarrow> f i | None \<Rightarrow> of_nat i)
      in scratch_init_loop index2id to_scratch (Suc i) m
           (st\<lparr>hartindex_to_hartid_table := (hartindex_to_hartid_table st)[i := h],
               hartindex_to_scratch_table := (hartindex_to_scratch_table st)[i := to_scratch h i]\<rparr>))"

definition sbi_scratch_init ::
  "nat \<Rightarrow> (nat \<Rightarrow> u32) option \<Rightarrow> (u32 \<Rightarrow> nat \<Rightarrow> u8 list option) \<Rightarrow> scratch_state \<Rightarrow> int \<times> scratch_state" where
  "sbi_scratch_init hart_count index2id to_scratch st =
     (0, (scratch_init_loop index2id to_scratch 0 hart_count st)
           \<lparr>last_hartindex_having_scratch := hart_count - 1\<rparr>)"

text \<open>\<open>memset\<close> of the new area in the scratch space of every hart that has one.\<close>

definition scratch_clear :: "nat \<Rightarrow> nat \<Rightarrow> u8 list \<Rightarrow> u8 list" where
  "scratch_clear off len m = take off m @ replicate len 0 @ drop (off + len) m"

fun scratch_clear_loop :: "nat \<Rightarrow> nat \<Rightarrow> nat \<Rightarrow> nat \<Rightarrow> u8 list option list \<Rightarrow> u8 list option list" where
  "scratch_clear_loop off len i 0 tab = tab"
| "scratch_clear_loop off len i (Suc m) tab =
     scratch_clear_loop off len (Suc i) m
       (case tab ! i of None \<Rightarrow> tab | Some s \<Rightarrow> tab[i := Some (scratch_clear off len s)])"

definition sbi_scratch_alloc_offset :: "u64 \<Rightarrow> scratch_state \<Rightarrow> u64 \<times> scratch_state" where
  "sbi_scratch_alloc_offset sz st =
     (if sz = 0 then (0, st)
      else let sz = (sz + 8 - 1) AND NOT (8 - 1) in
        if SBI_SCRATCH_SIZE < extra_offset st + sz then (0, st)
        else let ret = extra_offset st; st = st\<lparr>extra_offset := extra_offset st + sz\<rparr> in
          if ret \<noteq> 0
          then (ret, st\<lparr>hartindex_to_scratch_table :=
                  scratch_clear_loop (unat ret) (unat sz) 0 (Suc (last_hartindex_having_scratch st))
                    (hartindex_to_scratch_table st)\<rparr>)
          else (ret, st))"

definition sbi_scratch_free_offset :: "u64 \<Rightarrow> scratch_state \<Rightarrow> scratch_state" where
  "sbi_scratch_free_offset offset st =
     (if offset < SBI_SCRATCH_EXTRA_SPACE_OFFSET \<or> SBI_SCRATCH_SIZE \<le> offset then st else st)"

definition sbi_scratch_used_space :: "scratch_state \<Rightarrow> u64" where
  "sbi_scratch_used_space st = extra_offset st"

section \<open>Hart ids and indexes\<close>

text \<open>
  The tables after initialisation: at most 128 harts, each with an entry, ids pairwise distinct.
\<close>

definition wf_scratch :: "scratch_state \<Rightarrow> bool" where
  "wf_scratch st \<longleftrightarrow>
     last_hartindex_having_scratch st < 128 \<and>
     length (hartindex_to_hartid_table st) = 129 \<and> length (hartindex_to_scratch_table st) = 129 \<and>
     distinct (take (Suc (last_hartindex_having_scratch st)) (hartindex_to_hartid_table st)) \<and>
     (\<forall>s. Some s \<in> set (hartindex_to_scratch_table st) \<longrightarrow> length s = 4096) \<and>
     120 \<le> unat (extra_offset st) \<and> unat (extra_offset st) \<le> 4096 \<and> unat (extra_offset st) mod 8 = 0"

lemma hartid_loop_cases:
  "(\<exists>k. i \<le> k \<and> k < i + m \<and> tab ! k = h \<and> hartid_loop tab i m h = k \<and> (\<forall>j. i \<le> j \<and> j < k \<longrightarrow> tab ! j \<noteq> h)) \<or>
   ((\<forall>k. i \<le> k \<and> k < i + m \<longrightarrow> tab ! k \<noteq> h) \<and> hartid_loop tab i m h = 0xffffffff)"
proof (induction m arbitrary: i)
  case (Suc m)
  show ?case
  proof (cases "tab ! i = h")
    case True
    then show ?thesis by (auto intro!: exI [of _ i])
  next
    case False
    have split: "i \<le> k \<longleftrightarrow> k = i \<or> Suc i \<le> k" for k by auto
    show ?thesis using Suc [of "Suc i"] False by (auto simp: split)
  qed
qed auto

lemma hartid_to_hartindex_valid:
  assumes "wf_scratch st" "sbi_hartindex_valid st i"
  shows "sbi_hartid_to_hartindex st (sbi_hartindex_to_hartid st i) = i"
proof -
  let ?n = "Suc (last_hartindex_having_scratch st)" and ?tab = "hartindex_to_hartid_table st"
  have i: "i < ?n" using assms(2) by (simp add: sbi_hartindex_valid_def)
  have len: "?n \<le> length ?tab" using assms(1) by (simp add: wf_scratch_def)
  have "?tab ! k = ?tab ! i \<Longrightarrow> k < ?n \<Longrightarrow> k = i" for k
    using assms(1) i len nth_eq_iff_index_eq [of "take ?n ?tab" k i] by (simp add: wf_scratch_def)
  then have "hartid_loop ?tab 0 ?n (?tab ! i) = i"
    using hartid_loop_cases [of 0 ?n ?tab "?tab ! i"] i by (metis add_0 zero_le)
  then show ?thesis
    using i by (simp add: sbi_hartid_to_hartindex_def sbi_hartindex_to_hartid_def del: hartid_loop.simps)
qed

lemma hartid_to_hartindex_cases:
  assumes "wf_scratch st"
  obtains (found) "sbi_hartindex_valid st (sbi_hartid_to_hartindex st h)"
    "sbi_hartindex_to_hartid st (sbi_hartid_to_hartindex st h) = h"
  | (unknown) "sbi_hartid_to_hartindex st h = 0xffffffff"
    "\<forall>i. sbi_hartindex_valid st i \<longrightarrow> sbi_hartindex_to_hartid st i \<noteq> h"
  using hartid_loop_cases [of 0 "Suc (last_hartindex_having_scratch st)" "hartindex_to_hartid_table st" h]
  unfolding sbi_hartid_to_hartindex_def sbi_hartindex_valid_def sbi_hartindex_to_hartid_def
  by (auto simp: less_Suc_eq_le)

text \<open>
  The two tables are inverse to each other: every valid index is found from its hart id, and
  a hart id that no valid index has gives \<open>-1U\<close>, which is not a valid index.
\<close>

lemma hartid_hartindex_inverse:
  assumes "wf_scratch st"
  shows "(sbi_hartindex_valid st i \<longrightarrow> sbi_hartid_to_hartindex st (sbi_hartindex_to_hartid st i) = i) \<and>
    (sbi_hartindex_valid st (sbi_hartid_to_hartindex st h) \<longleftrightarrow>
       (\<exists>i. sbi_hartindex_valid st i \<and> sbi_hartindex_to_hartid st i = h)) \<and>
    (sbi_hartindex_valid st (sbi_hartid_to_hartindex st h) \<longrightarrow>
       sbi_hartindex_to_hartid st (sbi_hartid_to_hartindex st h) = h)"
proof (rule hartid_to_hartindex_cases [OF assms, of h])
  assume "sbi_hartindex_valid st (sbi_hartid_to_hartindex st h)"
    "sbi_hartindex_to_hartid st (sbi_hartid_to_hartindex st h) = h"
  then show ?thesis using hartid_to_hartindex_valid [OF assms] by blast
next
  assume unknown: "sbi_hartid_to_hartindex st h = 0xffffffff"
    "\<forall>i. sbi_hartindex_valid st i \<longrightarrow> sbi_hartindex_to_hartid st i \<noteq> h"
  then have "\<not> sbi_hartindex_valid st (sbi_hartid_to_hartindex st h)"
    using assms by (simp add: sbi_hartindex_valid_def wf_scratch_def)
  then show ?thesis using unknown hartid_to_hartindex_valid [OF assms] by blast
qed

section \<open>The allocator\<close>

lemma round_up_8:
  assumes "unat sz \<le> 4096"
  shows "unat ((sz + 8 - 1) AND NOT (8 - 1) :: u64) = 8 * ((unat sz + 7) div 8)"
proof -
  have "unat (7 + sz) = unat sz + 7"
    using assms by (subst unat_add_lem [THEN iffD1]) auto
  moreover have "(w AND NOT 7 :: u64) = push_bit 3 (drop_bit 3 w)" for w
  proof -
    have "w AND NOT (mask 3) = push_bit 3 (drop_bit 3 w)"
      by (rule bit_word_eqI) (auto simp: bit_simps)
    then show ?thesis by (simp add: mask_eq_exp_minus_1)
  qed
  moreover have "unat (push_bit 3 (drop_bit 3 (w :: u64))) = 8 * (unat w div 8)" for w
  proof -
    have "8 * (unat w div 8) < 2 ^ 64" using u64_less [of w] by linarith
    then show ?thesis
      by (simp add: push_bit_eq_mult unat_word_ariths unat_drop_bit_eq drop_bit_eq_div mult.commute)
  qed
  ultimately show ?thesis by simp
qed

lemma scratch_clear_props:
  assumes "off + len \<le> length m"
  shows "length (scratch_clear off len m) = length m"
    and "k < length m \<Longrightarrow> scratch_clear off len m ! k = (if off \<le> k \<and> k < off + len then 0 else m ! k)"
  using assms by (auto simp: scratch_clear_def nth_append)

lemma scratch_clear_loop_nth:
  assumes "i + m \<le> length tab"
  shows "length (scratch_clear_loop off len i m tab) = length tab \<and>
    (\<forall>k < length tab. scratch_clear_loop off len i m tab ! k =
       (if i \<le> k \<and> k < i + m then map_option (scratch_clear off len) (tab ! k) else tab ! k))"
  using assms
proof (induction m arbitrary: i tab)
  case (Suc m)
  let ?tab = "case tab ! i of None \<Rightarrow> tab | Some s \<Rightarrow> tab[i := Some (scratch_clear off len s)]"
  have len: "length ?tab = length tab" by (simp split: option.split)
  have upd: "?tab ! k = (if k = i then map_option (scratch_clear off len) (tab ! k) else tab ! k)" if "k < length tab" for k
    using that by (auto split: option.split)
  have split: "i \<le> k \<longleftrightarrow> k = i \<or> Suc i \<le> k" for k by auto
  show ?case using Suc.IH [of "Suc i" ?tab] Suc.prems len upd by (auto simp: split)
qed auto

text \<open>
  An allocation of at most 4096 bytes either fails and changes nothing, or returns the old
  end of the used space: an offset that is a multiple of 8 and at least the size of the header,
  whose area (rounded up to 8 bytes) lies inside the scratch space and is zero in the scratch
  space of every hart, where no byte outside the area has changed; the next allocation starts
  behind it.
\<close>

lemma sbi_scratch_alloc_offset_correct:
  assumes "wf_scratch st" "0 < unat sz" "unat sz \<le> 4096" "sbi_scratch_alloc_offset sz st = (ret, st')"
  defines "len \<equiv> 8 * ((unat sz + 7) div 8)"
  shows "wf_scratch st' \<and>
    (if ret = 0 then st' = st \<and> 4096 < unat (extra_offset st) + len
     else ret = extra_offset st \<and> 120 \<le> unat ret \<and> unat ret mod 8 = 0 \<and> unat ret + len \<le> 4096 \<and>
       unat (extra_offset st') = unat ret + len \<and>
       (\<forall>i s. sbi_hartindex_to_scratch st i = Some s \<longrightarrow>
          (\<exists>s'. sbi_hartindex_to_scratch st' i = Some s' \<and> length s' = length s \<and>
             (\<forall>k < length s. s' ! k = (if unat ret \<le> k \<and> k < unat ret + len then 0 else s ! k)))))"
proof -
  let ?sz = "(sz + 8 - 1) AND NOT (8 - 1) :: u64" and ?e = "extra_offset st"
  let ?n = "Suc (last_hartindex_having_scratch st)" and ?tab = "hartindex_to_scratch_table st"
  have sz0: "sz \<noteq> 0" using assms(2) by auto
  have len: "unat ?sz = len" "len \<le> 4104" "len mod 8 = 0"
    using round_up_8 [OF assms(3)] assms(3) by (auto simp: len_def)
  have e: "120 \<le> unat ?e" "unat ?e \<le> 4096" "unat ?e mod 8 = 0" "?e \<noteq> 0"
    using assms(1) by (auto simp: wf_scratch_def)
  have sum: "unat (?e + ?sz) = unat ?e + len"
    using e(2) len by (subst unat_add_lem [THEN iffD1]) auto
  have limit: "SBI_SCRATCH_SIZE < ?e + ?sz \<longleftrightarrow> 4096 < unat ?e + len"
    using sum by (simp add: word_less_nat_alt SBI_SCRATCH_SIZE_def)
  show ?thesis
  proof (cases "4096 < unat ?e + len")
    case True
    then have "ret = 0" "st' = st"
      using assms(4) sz0 limit by (simp_all add: sbi_scratch_alloc_offset_def Let_def)
    then show ?thesis using assms(1) True by simp
  next
    case False
    let ?tab' = "scratch_clear_loop (unat ?e) len 0 ?n ?tab"
    have ret: "ret = ?e" and st': "st' = st\<lparr>extra_offset := ?e + ?sz, hartindex_to_scratch_table := ?tab'\<rparr>"
      using assms(4) sz0 limit e(4) False len(1) by (auto simp: sbi_scratch_alloc_offset_def Let_def simp del: scratch_clear_loop.simps)
    have wf: "?n \<le> length ?tab" "length ?tab = 129" "\<And>s. Some s \<in> set ?tab \<Longrightarrow> length s = 4096"
      using assms(1) by (auto simp: wf_scratch_def)
    have nth: "length ?tab' = length ?tab"
      "\<And>k. k < length ?tab \<Longrightarrow> ?tab' ! k = (if k < ?n then map_option (scratch_clear (unat ?e) len) (?tab ! k) else ?tab ! k)"
      using scratch_clear_loop_nth [of 0 ?n ?tab "unat ?e" len] wf(1) by (auto simp del: scratch_clear_loop.simps)
    have area: "unat ?e + len \<le> length s" if "Some s \<in> set ?tab" for s
      using wf(3) [OF that] False by simp
    have cleared: "length s' = 4096" if "Some s' \<in> set ?tab'" for s'
    proof -
      obtain k where k: "k < length ?tab" "?tab' ! k = Some s'" using \<open>Some s' \<in> set ?tab'\<close> nth(1) by (metis in_set_conv_nth)
      then obtain s where "?tab ! k = Some s" "s' = s \<or> s' = scratch_clear (unat ?e) len s"
        using nth(2) [OF k(1)] unfolding k(2) by (cases "?tab ! k"; cases "k < ?n") simp_all
      then show ?thesis
        using k(1) wf(3) [of s] area [of s] scratch_clear_props(1) [of "unat ?e" len s] by (metis nth_mem)
    qed
    have "wf_scratch st'"
      using assms(1) False e len(3) sum cleared nth(1) by (simp add: wf_scratch_def st' mod_add_left_eq [symmetric] del: scratch_clear_loop.simps)
    moreover have "\<exists>s'. sbi_hartindex_to_scratch st' i = Some s' \<and> length s' = length s \<and>
        (\<forall>k < length s. s' ! k = (if unat ?e \<le> k \<and> k < unat ?e + len then 0 else s ! k))"
      if s: "sbi_hartindex_to_scratch st i = Some s" for i s
    proof -
      have i: "i < ?n" "?tab ! i = Some s" using s by (auto simp: sbi_hartindex_to_scratch_def split: if_splits)
      then have "Some s \<in> set ?tab" using wf(1) by (metis nth_mem order_less_le_trans)
      then show ?thesis
        using i wf nth(2) [of i] scratch_clear_props [OF area]
        by (auto simp: sbi_hartindex_to_scratch_def st' simp del: scratch_clear_loop.simps)
    qed
    ultimately show ?thesis using e ret False sum by (simp add: st')
  qed
qed

text \<open>Two harts with ids 7 and 3, the second without a scratch space.\<close>

definition demo_scratch :: scratch_state where
  "demo_scratch = \<lparr>last_hartindex_having_scratch = 1, hartindex_to_hartid_table = 7 # 3 # replicate 127 0,
     hartindex_to_scratch_table = Some (replicate 4096 1) # replicate 128 None, extra_offset = 120\<rparr>"

lemma demo_scratch_wf: "wf_scratch demo_scratch"
  by (auto simp: wf_scratch_def demo_scratch_def)

end
