(* ===== verification/SbiDomain.thy ===== *)
theory SbiDomain
  imports SbiScratch "HOL-Library.Multiset"
begin

text \<open>
  Isolation domains (\<open>lib/sbi/sbi_domain.c\<close>): memory regions and the access checks on
  them, sanity checks and sorting of a domain's region table, registration of domains and
  assignment of harts, and the root domain's memory map.  The code is that of RV64.
\<close>

unbundle bit_operations_syntax

section \<open>Data\<close>

definition PRV_U :: u64 where "PRV_U = 0"
definition PRV_S :: u64 where "PRV_S = 1"
definition PRV_M :: u64 where "PRV_M = 3"

definition SBI_DOMAIN_READ :: u64 where "SBI_DOMAIN_READ = 1"
definition SBI_DOMAIN_WRITE :: u64 where "SBI_DOMAIN_WRITE = 2"
definition SBI_DOMAIN_EXECUTE :: u64 where "SBI_DOMAIN_EXECUTE = 4"
definition SBI_DOMAIN_MMIO :: u64 where "SBI_DOMAIN_MMIO = 8"

definition MEMREGION_M_READABLE :: u64 where "MEMREGION_M_READABLE = 1"
definition MEMREGION_M_WRITABLE :: u64 where "MEMREGION_M_WRITABLE = 2"
definition MEMREGION_M_EXECUTABLE :: u64 where "MEMREGION_M_EXECUTABLE = 4"
definition MEMREGION_SU_READABLE :: u64 where "MEMREGION_SU_READABLE = 8"
definition MEMREGION_SU_WRITABLE :: u64 where "MEMREGION_SU_WRITABLE = 16"
definition MEMREGION_SU_EXECUTABLE :: u64 where "MEMREGION_SU_EXECUTABLE = 32"
definition MEMREGION_M_ACCESS_MASK :: u64 where "MEMREGION_M_ACCESS_MASK = 0x7"
definition MEMREGION_SU_ACCESS_MASK :: u64 where "MEMREGION_SU_ACCESS_MASK = 0x38"
definition MEMREGION_SU_ACCESS_SHIFT :: nat where "MEMREGION_SU_ACCESS_SHIFT = 3"
definition MEMREGION_MMIO :: u64 where "MEMREGION_MMIO = 0x80000000"

text \<open>The order is an \<open>unsigned long\<close>; it is only compared, shifted by and counted up to 64.\<close>

record sbi_domain_memregion =
  mr_order :: nat
  mr_base :: u64
  mr_flags :: u64

text \<open>
  A domain.  The list node and the lock are left out; \<open>regions\<close> is the array that
  \<open>sbi_domain_for_each_memregion\<close> walks up to the first entry of order 0.
\<close>

record sbi_domain =
  dom_index :: nat
  assigned_harts :: sbi_hartmask
  possible_harts :: "sbi_hartmask option"
  regions :: "sbi_domain_memregion list option"
  boot_hartid :: u32
  next_arg1 :: u64
  next_addr :: u64
  next_mode :: u64
  system_reset_allowed :: bool
  system_suspend_allowed :: bool
  fw_region_inited :: bool

text \<open>\<open>sbi_domain_for_each_memregion\<close>.\<close>

definition memregs :: "sbi_domain \<Rightarrow> sbi_domain_memregion list" where
  "memregs dm = (case regions dm of None \<Rightarrow> [] | Some rs \<Rightarrow> takeWhile (\<lambda>r. mr_order r \<noteq> 0) rs)"

section \<open>Regions\<close>

text \<open>\<open>lib/sbi/sbi_math.c\<close>.\<close>

function log2roundup_loop :: "u64 \<Rightarrow> nat \<Rightarrow> nat" where
  "log2roundup_loop x ret =
     (if ret < 64 then (if x \<le> push_bit ret 1 then ret else log2roundup_loop x (Suc ret)) else ret)"
  by pat_completeness auto
termination by (relation "measure (\<lambda>(x, ret). 64 - ret)") auto

declare log2roundup_loop.simps [simp del]

definition log2roundup :: "u64 \<Rightarrow> nat" where
  "log2roundup x = log2roundup_loop x 0"

function memregion_order :: "u64 \<Rightarrow> u64 \<Rightarrow> nat \<Rightarrow> u64 \<times> nat" where
  "memregion_order addr sz order =
     (if order \<le> 64 then
        if order < 64 then
          (let base = addr AND NOT (push_bit order 1 - 1) in
           if base \<le> addr \<and> addr < base + push_bit order 1 \<and>
              base \<le> addr + sz - 1 \<and> addr + sz - 1 < base + push_bit order 1
           then (base, order) else memregion_order addr sz (Suc order))
        else (0, order)
      else (0, order))"
  by pat_completeness auto
termination by (relation "measure (\<lambda>(addr, sz, order). 65 - order)") auto

declare memregion_order.simps [simp del]

definition sbi_domain_memregion_init :: "u64 \<Rightarrow> u64 \<Rightarrow> u64 \<Rightarrow> sbi_domain_memregion" where
  "sbi_domain_memregion_init addr sz flags =
     (case memregion_order addr sz (log2roundup sz) of
        (base, order) \<Rightarrow> \<lparr>mr_order = order, mr_base = base, mr_flags = flags\<rparr>)"

text \<open>The last address of a region, as \<open>sbi_domain_check_addr\<close> and \<open>find_region\<close> compute it.\<close>

definition region_rend :: "sbi_domain_memregion \<Rightarrow> u64" where
  "region_rend r = (if mr_order r < 64 then mr_base r + (push_bit (mr_order r) 1 - 1) else - 1)"

definition region_has :: "sbi_domain_memregion \<Rightarrow> u64 \<Rightarrow> bool" where
  "region_has r addr \<longleftrightarrow> mr_base r \<le> addr \<and> addr \<le> region_rend r"

definition access_rwx :: "u64 \<Rightarrow> u64" where
  "access_rwx access_flags =
     (if access_flags AND SBI_DOMAIN_READ \<noteq> 0 then MEMREGION_M_READABLE else 0) OR
     (if access_flags AND SBI_DOMAIN_WRITE \<noteq> 0 then MEMREGION_M_WRITABLE else 0) OR
     (if access_flags AND SBI_DOMAIN_EXECUTE \<noteq> 0 then MEMREGION_M_EXECUTABLE else 0)"

text \<open>The decision of \<open>sbi_domain_check_addr\<close> in the region it has found.\<close>

definition region_allows :: "sbi_domain_memregion \<Rightarrow> u64 \<Rightarrow> u64 \<Rightarrow> bool" where
  "region_allows r mode access_flags =
     (let rwx = access_rwx access_flags;
          mmio = (access_flags AND SBI_DOMAIN_MMIO \<noteq> 0);
          rflags = mr_flags r;
          rrwx = (if mode = PRV_M then rflags AND MEMREGION_M_ACCESS_MASK
                  else drop_bit MEMREGION_SU_ACCESS_SHIFT (rflags AND MEMREGION_SU_ACCESS_MASK));
          rmmio = (rflags AND MEMREGION_MMIO \<noteq> 0)
      in if mmio \<noteq> rmmio then False else rrwx AND rwx = rwx)"

fun check_addr_loop :: "sbi_domain_memregion list \<Rightarrow> u64 \<Rightarrow> u64 \<Rightarrow> u64 \<Rightarrow> bool" where
  "check_addr_loop [] addr mode access_flags = (mode = PRV_M)"
| "check_addr_loop (r # rs) addr mode access_flags =
     (if region_has r addr then region_allows r mode access_flags
      else check_addr_loop rs addr mode access_flags)"

definition sbi_domain_check_addr :: "sbi_domain option \<Rightarrow> u64 \<Rightarrow> u64 \<Rightarrow> u64 \<Rightarrow> bool" where
  "sbi_domain_check_addr dm addr mode access_flags =
     (case dm of None \<Rightarrow> False | Some d \<Rightarrow> check_addr_loop (memregs d) addr mode access_flags)"

definition is_region_valid :: "sbi_domain_memregion \<Rightarrow> bool" where
  "is_region_valid reg =
     (if mr_order reg < 3 \<or> 64 < mr_order reg then False
      else if mr_order reg = 64 \<and> mr_base reg \<noteq> 0 then False
      else if mr_order reg < 64 \<and> mr_base reg AND (BIT (mr_order reg) - 1) \<noteq> 0 then False
      else True)"

definition is_region_subset :: "sbi_domain_memregion \<Rightarrow> sbi_domain_memregion \<Rightarrow> bool" where
  "is_region_subset regA regB =
     (let regA_start = mr_base regA; regA_end = mr_base regA + (BIT (mr_order regA) - 1);
          regB_start = mr_base regB; regB_end = mr_base regB + (BIT (mr_order regB) - 1)
      in if regB_start \<le> regA_start \<and> regA_start < regB_end \<and> regB_start < regA_end \<and> regA_end \<le> regB_end
         then True else False)"

definition is_region_compatible :: "sbi_domain_memregion \<Rightarrow> sbi_domain_memregion \<Rightarrow> bool" where
  "is_region_compatible regA regB =
     (if is_region_subset regA regB \<and> mr_flags regA = mr_flags regB then True else False)"

definition is_region_before :: "sbi_domain_memregion \<Rightarrow> sbi_domain_memregion \<Rightarrow> bool" where
  "is_region_before regA regB =
     (if mr_order regA < mr_order regB then True
      else if mr_order regA = mr_order regB \<and> mr_base regA < mr_base regB then True
      else False)"

fun find_region_loop :: "sbi_domain_memregion list \<Rightarrow> u64 \<Rightarrow> sbi_domain_memregion option" where
  "find_region_loop [] addr = None"
| "find_region_loop (r # rs) addr = (if region_has r addr then Some r else find_region_loop rs addr)"

definition find_region :: "sbi_domain \<Rightarrow> u64 \<Rightarrow> sbi_domain_memregion option" where
  "find_region dm addr = find_region_loop (memregs dm) addr"

text \<open>
  The C code skips the entry \<open>reg\<close> itself by address.  An entry equal to \<open>reg\<close> starts at
  or below \<open>addr\<close>, which lies in \<open>reg\<close>, so it is skipped by the second condition too.
\<close>

fun next_subset_loop ::
  "sbi_domain_memregion list \<Rightarrow> sbi_domain_memregion \<Rightarrow> u64 \<Rightarrow> sbi_domain_memregion option \<Rightarrow>
   sbi_domain_memregion option" where
  "next_subset_loop [] reg addr ret = ret"
| "next_subset_loop (s # rs) reg addr ret =
     (if s = reg \<or> mr_base s \<le> addr \<or> \<not> is_region_subset s reg then next_subset_loop rs reg addr ret
      else (case ret of
          None \<Rightarrow> next_subset_loop rs reg addr (Some s)
        | Some t \<Rightarrow>
            if mr_base s < mr_base t \<or> mr_base s = mr_base t \<and> mr_order s < mr_order t
            then next_subset_loop rs reg addr (Some s)
            else next_subset_loop rs reg addr (Some t)))"

definition find_next_subset_region ::
  "sbi_domain \<Rightarrow> sbi_domain_memregion \<Rightarrow> u64 \<Rightarrow> sbi_domain_memregion option" where
  "find_next_subset_region dm reg addr = next_subset_loop (memregs dm) reg addr None"

text \<open>
  The loop of \<open>sbi_domain_check_addr_range\<close> with fuel, \<open>None\<close> when it runs out: the next
  address is computed modulo \<open>2\<^sup>6\<^sup>4\<close> and the loop need not end.
\<close>

fun check_range_loop :: "nat \<Rightarrow> sbi_domain \<Rightarrow> u64 \<Rightarrow> u64 \<Rightarrow> u64 \<Rightarrow> u64 \<Rightarrow> bool option" where
  "check_range_loop 0 dm addr lim mode access_flags = None"
| "check_range_loop (Suc k) dm addr lim mode access_flags =
     (if addr < lim then
        (case find_region dm addr of
           None \<Rightarrow> Some False
         | Some reg \<Rightarrow>
             if \<not> sbi_domain_check_addr (Some dm) addr mode access_flags then Some False
             else (case find_next_subset_region dm reg addr of
                     Some sreg \<Rightarrow> check_range_loop k dm (mr_base sreg) lim mode access_flags
                   | None \<Rightarrow>
                       if mr_order reg < 64
                       then check_range_loop k dm (mr_base reg + push_bit (mr_order reg) 1) lim mode access_flags
                       else Some True))
      else Some True)"

definition sbi_domain_check_addr_range ::
  "nat \<Rightarrow> sbi_domain option \<Rightarrow> u64 \<Rightarrow> u64 \<Rightarrow> u64 \<Rightarrow> u64 \<Rightarrow> bool option" where
  "sbi_domain_check_addr_range fuel dm addr sz mode access_flags =
     (case dm of None \<Rightarrow> Some False
      | Some d \<Rightarrow> check_range_loop fuel d addr (addr + sz) mode access_flags)"

section \<open>Sanity checks\<close>

definition swap_region :: "nat \<Rightarrow> nat \<Rightarrow> sbi_domain_memregion list \<Rightarrow> sbi_domain_memregion list" where
  "swap_region i j rs = rs[i := rs ! j, j := rs ! i]"

definition clear_region :: "nat \<Rightarrow> sbi_domain_memregion list \<Rightarrow> sbi_domain_memregion list" where
  "clear_region i rs = rs[i := \<lparr>mr_order = 0, mr_base = 0, mr_flags = 0\<rparr>]"

text \<open>
  The sort: the inner loop over \<open>j\<close> and the outer one over \<open>i\<close>, which returns the final
  \<open>i\<close> as well.  \<open>cnt - 1\<close> is a \<open>u32\<close> that wraps for an empty table; the loops then do
  nothing but cnt.
\<close>

function sort_inner :: "nat \<Rightarrow> nat \<Rightarrow> nat \<Rightarrow> sbi_domain_memregion list \<Rightarrow> sbi_domain_memregion list" where
  "sort_inner i j cnt rs =
     (if j < cnt then
        if \<not> is_region_before (rs ! j) (rs ! i) then sort_inner i (Suc j) cnt rs
        else sort_inner i (Suc j) cnt (swap_region i j rs)
      else rs)"
  by pat_completeness auto
termination by (relation "measure (\<lambda>(i, j, cnt, rs). cnt - j)") auto

function sort_outer :: "nat \<Rightarrow> nat \<Rightarrow> sbi_domain_memregion list \<Rightarrow> nat \<times> sbi_domain_memregion list" where
  "sort_outer i cnt rs =
     (if i < cnt - 1 then sort_outer (Suc i) cnt (sort_inner i (Suc i) cnt rs) else (i, rs))"
  by pat_completeness auto
termination by (relation "measure (\<lambda>(i, cnt, rs). cnt - i)") auto

declare sort_inner.simps [simp del] sort_outer.simps [simp del]

text \<open>The removal of covered regions, started with the \<open>i\<close> the sort leaves behind.\<close>

definition is_covered :: "nat \<Rightarrow> nat \<Rightarrow> sbi_domain_memregion list \<Rightarrow> bool" where
  "is_covered i cnt rs \<longleftrightarrow> (\<exists>j \<in> set [Suc i..<cnt]. is_region_compatible (rs ! i) (rs ! j))"

definition shift_down :: "nat \<Rightarrow> nat \<Rightarrow> sbi_domain_memregion list \<Rightarrow> sbi_domain_memregion list" where
  "shift_down i cnt rs = fold (\<lambda>j. swap_region j (Suc j)) [i..<cnt - 1] rs"

function remove_covered :: "nat \<Rightarrow> nat \<Rightarrow> sbi_domain_memregion list \<Rightarrow> sbi_domain_memregion list" where
  "remove_covered i cnt rs =
     (if i < cnt - 1 then
        if is_covered i cnt rs
        then remove_covered i (cnt - 1) (clear_region (cnt - 1) (shift_down i cnt rs))
        else remove_covered (Suc i) cnt rs
      else rs)"
  by pat_completeness auto
termination by (relation "measure (\<lambda>(i, cnt, rs). cnt - i)") auto

declare remove_covered.simps [simp del]

text \<open>\<open>valid\<close> is \<open>sbi_hartindex_valid\<close>.  The result is the code and the changed domain.\<close>

definition sanitize_domain :: "(nat \<Rightarrow> bool) \<Rightarrow> sbi_domain \<Rightarrow> int \<times> sbi_domain" where
  "sanitize_domain valid dm =
     (case possible_harts dm of
        None \<Rightarrow> (SBI_EINVAL, dm)
      | Some hmask \<Rightarrow>
          if \<exists>i \<in> set (sbi_hartmask_harts hmask). \<not> valid i then (SBI_EINVAL, dm)
          else (case regions dm of
            None \<Rightarrow> (SBI_EINVAL, dm)
          | Some rs \<Rightarrow>
              if \<exists>r \<in> set (memregs dm). \<not> is_region_valid r then (SBI_EINVAL, dm)
              else let cnt = length (memregs dm) in
                if \<not> fw_region_inited dm then (SBI_EINVAL, dm)
                else (case sort_outer 0 cnt rs of
                   (i, rs) \<Rightarrow>
                     let dm = dm\<lparr>regions := Some (remove_covered i cnt rs)\<rparr> in
                     if next_mode dm \<noteq> PRV_S \<and> next_mode dm \<noteq> PRV_U then (SBI_EINVAL, dm)
                     else if \<not> sbi_domain_check_addr (Some dm) (next_addr dm) (next_mode dm) SBI_DOMAIN_EXECUTE
                     then (SBI_EINVAL, dm)
                     else (0, dm))))"

section \<open>Domains and harts\<close>

text \<open>
  The module's variables.  \<open>domains\<close> is the store of domain objects by address (the root
  domain has address \<open>root_dom\<close>); \<open>hart_domain\<close> is the pointer each hart keeps in its
  scratch space.
\<close>

record domain_state =
  domains :: "nat \<Rightarrow> sbi_domain"
  domain_list :: "nat list"
  domain_count :: nat
  domain_finalized :: bool
  root_memregs_count :: nat
  hart_domain :: "nat \<Rightarrow> nat option"

definition root_dom :: nat where "root_dom = 0"

definition ROOT_REGION_MAX :: nat where "ROOT_REGION_MAX = 32"

definition sbi_hartindex_to_domain :: "scratch_state \<Rightarrow> domain_state \<Rightarrow> nat \<Rightarrow> nat option" where
  "sbi_hartindex_to_domain sst st i =
     (if sbi_hartindex_to_scratch sst i = None then None else hart_domain st i)"

definition sbi_update_hartindex_to_domain :: "scratch_state \<Rightarrow> nat \<Rightarrow> nat \<Rightarrow> domain_state \<Rightarrow> domain_state" where
  "sbi_update_hartindex_to_domain sst i dm st =
     (if sbi_hartindex_to_scratch sst i = None then st
      else st\<lparr>hart_domain := (hart_domain st)(i := Some dm)\<rparr>)"

definition sbi_domain_is_assigned_hart :: "sbi_domain option \<Rightarrow> nat \<Rightarrow> bool" where
  "sbi_domain_is_assigned_hart dm i =
     (case dm of None \<Rightarrow> False | Some d \<Rightarrow> sbi_hartmask_test_hartindex i (assigned_harts d))"

definition sbi_domain_get_assigned_hartmask :: "sbi_domain option \<Rightarrow> sbi_hartmask" where
  "sbi_domain_get_assigned_hartmask dm =
     (case dm of None \<Rightarrow> sbi_hartmask_clear_all | Some d \<Rightarrow> assigned_harts d)"

definition update_domain :: "nat \<Rightarrow> (sbi_domain \<Rightarrow> sbi_domain) \<Rightarrow> domain_state \<Rightarrow> domain_state" where
  "update_domain a f st = st\<lparr>domains := (domains st)(a := f (domains st a))\<rparr>"

text \<open>One turn of the loop of \<open>sbi_domain_register\<close> that assigns harts to the new domain.\<close>

definition assign_hart :: "scratch_state \<Rightarrow> u32 \<Rightarrow> nat \<Rightarrow> nat \<Rightarrow> domain_state \<Rightarrow> domain_state" where
  "assign_hart sst cold_hartid a i st =
     (case possible_harts (domains st a) of
        None \<Rightarrow> st
      | Some pmask \<Rightarrow>
          if \<not> sbi_hartmask_test_hartindex i pmask then st
          else
            let st = (case sbi_hartindex_to_domain sst st i of
                        None \<Rightarrow> st
                      | Some t \<Rightarrow> update_domain t
                          (\<lambda>d. d\<lparr>assigned_harts := sbi_hartmask_clear_hartindex i (assigned_harts d)\<rparr>) st);
                st = sbi_update_hartindex_to_domain sst i a st;
                st = update_domain a
                       (\<lambda>d. d\<lparr>assigned_harts := sbi_hartmask_set_hartindex i (assigned_harts d)\<rparr>) st
            in if sbi_hartindex_to_hartid sst i = cold_hartid \<and> boot_hartid (domains st a) \<noteq> cold_hartid
               then update_domain a (\<lambda>d. d\<lparr>boot_hartid := cold_hartid\<rparr>) st
               else st)"

text \<open>
  \<open>setup_rc\<close> is the result of \<open>sbi_domain_setup_data\<close> for the new domain.  A failure there
  takes the domain off the list again, but its harts stay assigned to it.
\<close>

definition sbi_domain_register ::
  "scratch_state \<Rightarrow> u32 \<Rightarrow> int \<Rightarrow> nat option \<Rightarrow> sbi_hartmask option \<Rightarrow> domain_state \<Rightarrow> int \<times> domain_state" where
  "sbi_domain_register sst cold_hartid setup_rc dm assign_mask st =
     (case (dm, assign_mask) of
        (Some a, Some amask) \<Rightarrow>
          if domain_finalized st then (SBI_EINVAL, st)
          else if a \<in> set (domain_list st) then (SBI_EALREADY, st)
          else (case sanitize_domain (sbi_hartindex_valid sst) (domains st a) of
             (rc, d) \<Rightarrow>
               let st = update_domain a (\<lambda>_. d) st in
               if rc \<noteq> 0 then (rc, st)
               else
                 let st = st\<lparr>domain_list := domain_list st @ [a]\<rparr>;
                     st = update_domain a (\<lambda>d. d\<lparr>dom_index := domain_count st\<rparr>) st;
                     st = st\<lparr>domain_count := domain_count st + 1\<rparr>;
                     st = update_domain a (\<lambda>d. d\<lparr>assigned_harts := sbi_hartmask_clear_all\<rparr>) st;
                     st = fold (assign_hart sst cold_hartid a) (sbi_hartmask_harts amask) st
                 in if setup_rc \<noteq> 0
                    then (setup_rc, st\<lparr>domain_list := removeAll a (domain_list st)\<rparr>)
                    else (0, st))
      | _ \<Rightarrow> (SBI_EINVAL, st))"

section \<open>The root domain's regions\<close>

text \<open>The walk that merges neighbours of equal order and flags, over the region array.\<close>

definition mergeable :: "sbi_domain_memregion \<Rightarrow> sbi_domain_memregion \<Rightarrow> bool" where
  "mergeable n n1 \<longleftrightarrow>
     mr_base n AND (BIT (mr_order n + 1) - 1) = 0 \<and> mr_base n + BIT (mr_order n) = mr_base n1 \<and>
     mr_order n = mr_order n1 \<and> mr_flags n = mr_flags n1"

text \<open>The inner loop copies each following entry one place down, up to the terminator.\<close>

function copy_down :: "nat \<Rightarrow> sbi_domain_memregion list \<Rightarrow> sbi_domain_memregion list" where
  "copy_down k rs =
     (if Suc k < length rs \<and> mr_order (rs ! k) \<noteq> 0 then copy_down (Suc k) (rs[k := rs ! Suc k]) else rs)"
  by pat_completeness auto
termination by (relation "measure (\<lambda>(k, rs). length rs - k)") auto

declare copy_down.simps [simp del]

function merge_loop :: "nat \<Rightarrow> sbi_domain_memregion list \<Rightarrow> bool \<Rightarrow> nat \<Rightarrow> sbi_domain_memregion list \<times> bool \<times> nat" where
  "merge_loop k rs merged cnt =
     (if Suc k < length rs \<and> mr_order (rs ! k) \<noteq> 0 then
        if mr_order (rs ! Suc k) = 0 then merge_loop (Suc k) rs merged cnt
        else if mergeable (rs ! k) (rs ! Suc k)
        then merge_loop (Suc k) (copy_down (Suc k) (rs[k := (rs ! k)\<lparr>mr_order := mr_order (rs ! k) + 1\<rparr>])) True (cnt - 1)
        else merge_loop (Suc k) rs merged cnt
      else (rs, merged, cnt))"
  by pat_completeness auto

lemma copy_down_length [simp]: "length (copy_down k rs) = length rs"
  by (induction k rs rule: copy_down.induct) (subst copy_down.simps, simp)

termination merge_loop
  by (relation "measure (\<lambda>(k, rs, merged, cnt). length rs - k)") auto

declare merge_loop.simps [simp del]

text \<open>The \<open>do ... while\<close> loop, with fuel; each repetition but the last merges two regions.\<close>

fun root_optimize :: "nat \<Rightarrow> (nat \<Rightarrow> bool) \<Rightarrow> sbi_domain \<Rightarrow> nat \<Rightarrow> (int \<times> sbi_domain \<times> nat) option" where
  "root_optimize 0 valid dm cnt = None"
| "root_optimize (Suc k) valid dm cnt =
     (case sanitize_domain valid dm of
        (rc, dm) \<Rightarrow>
          if rc \<noteq> 0 then Some (rc, dm, cnt)
          else (case merge_loop 0 (the (regions dm)) False cnt of
             (rs, merged, cnt) \<Rightarrow>
               let dm = dm\<lparr>regions := Some rs\<rparr> in
               if merged then root_optimize k valid dm cnt else Some (0, dm, cnt)))"

definition root_add_memregion ::
  "nat \<Rightarrow> (nat \<Rightarrow> bool) \<Rightarrow> sbi_domain_memregion option \<Rightarrow> domain_state \<Rightarrow> (int \<times> domain_state) option" where
  "root_add_memregion fuel valid regp st =
     (let root = domains st root_dom; cnt = root_memregs_count st in
      case (regp, regions root) of
        (None, _) \<Rightarrow> Some (SBI_EINVAL, st)
      | (_, None) \<Rightarrow> Some (SBI_EINVAL, st)
      | (Some reg, Some rs) \<Rightarrow>
          if domain_finalized st \<or> ROOT_REGION_MAX \<le> cnt then Some (SBI_EINVAL, st)
          else if \<exists>n \<in> set (memregs root). is_region_compatible reg n then Some (0, st)
          else
            let rs = rs[cnt := reg];
                rs = rs[Suc cnt := (rs ! Suc cnt)\<lparr>mr_order := 0\<rparr>]
            in map_option
                 (\<lambda>(rc, root, cnt).
                    (rc, (update_domain root_dom (\<lambda>_. root) st)\<lparr>root_memregs_count := cnt\<rparr>))
                 (root_optimize fuel valid (root\<lparr>regions := Some rs\<rparr>) (Suc cnt)))"

text \<open>\<open>sbi_domain_root_add_memrange\<close>: the loop over the aligned pieces, with its own fuel.\<close>

fun memrange_loop ::
  "nat \<Rightarrow> nat \<Rightarrow> (nat \<Rightarrow> bool) \<Rightarrow> u64 \<Rightarrow> u64 \<Rightarrow> u64 \<Rightarrow> u64 \<Rightarrow> domain_state \<Rightarrow> (int \<times> domain_state) option" where
  "memrange_loop fuel 0 valid pos lim align region_flags st = None"
| "memrange_loop fuel (Suc k) valid pos lim align region_flags st =
     (if pos < lim then
        let rsize = pos AND (align - 1);
            rsize = (if rsize \<noteq> 0 then push_bit (sbi_ffs pos) 1
                     else if lim - pos < align then lim - pos else align)
        in (case root_add_memregion fuel valid (Some (sbi_domain_memregion_init pos rsize region_flags)) st of
              None \<Rightarrow> None
            | Some (rc, st) \<Rightarrow>
                if rc \<noteq> 0 then Some (rc, st)
                else memrange_loop fuel k valid (pos + rsize) lim align region_flags st)
      else Some (0, st))"

definition sbi_domain_root_add_memrange ::
  "nat \<Rightarrow> (nat \<Rightarrow> bool) \<Rightarrow> u64 \<Rightarrow> u64 \<Rightarrow> u64 \<Rightarrow> u64 \<Rightarrow> domain_state \<Rightarrow> (int \<times> domain_state) option" where
  "sbi_domain_root_add_memrange fuel valid addr sz align region_flags st =
     memrange_loop fuel fuel valid addr (addr + sz) align region_flags st"

text \<open>\<open>domains_init\<close> is the platform's hook.\<close>

definition sbi_domain_finalize :: "(domain_state \<Rightarrow> int \<times> domain_state) \<Rightarrow> domain_state \<Rightarrow> int \<times> domain_state" where
  "sbi_domain_finalize domains_init st =
     (if domain_finalized st then (SBI_EINVAL, st)
      else case domains_init st of
        (rc, st) \<Rightarrow> if rc \<noteq> 0 then (rc, st) else (0, st\<lparr>domain_finalized := True\<rparr>))"

text \<open>
  \<open>sbi_domain_init\<close>.  The arguments \<open>offset_ok\<close>, \<open>context_rc\<close>, \<open>memregs_ok\<close> and
  \<open>hmask_ok\<close> are the outcomes of the allocations it makes and of
  \<open>sbi_domain_context_init\<close>; the fields of the scratch space it reads are in \<open>fw_scratch\<close>.
\<close>

record fw_scratch =
  fw_start :: u64
  fw_size :: u64
  fw_rw_offset :: u64
  fw_next_arg1 :: u64
  fw_next_addr :: u64
  fw_next_mode :: u64

definition root_regions :: "fw_scratch \<Rightarrow> sbi_domain_memregion list" where
  "root_regions scratch =
     [sbi_domain_memregion_init (fw_start scratch) (fw_rw_offset scratch)
        (MEMREGION_M_READABLE OR MEMREGION_M_EXECUTABLE),
      sbi_domain_memregion_init (fw_start scratch + fw_rw_offset scratch) (fw_size scratch - fw_rw_offset scratch)
        (MEMREGION_M_READABLE OR MEMREGION_M_WRITABLE),
      sbi_domain_memregion_init 0 (- 1)
        (MEMREGION_SU_READABLE OR MEMREGION_SU_WRITABLE OR MEMREGION_SU_EXECUTABLE)]"

definition zero_region :: sbi_domain_memregion where
  "zero_region = \<lparr>mr_order = 0, mr_base = 0, mr_flags = 0\<rparr>"

definition sbi_domain_init ::
  "scratch_state \<Rightarrow> fw_scratch \<Rightarrow> nat \<Rightarrow> bool \<Rightarrow> int \<Rightarrow> bool \<Rightarrow> bool \<Rightarrow> int \<Rightarrow> u32 \<Rightarrow> domain_state \<Rightarrow> int \<times> domain_state" where
  "sbi_domain_init sst scratch hart_count offset_ok context_rc memregs_ok hmask_ok setup_rc cold_hartid st =
     (let st = st\<lparr>domain_list := []\<rparr> in
      if fw_rw_offset scratch = 0 \<or> fw_rw_offset scratch AND (fw_rw_offset scratch - 1) \<noteq> 0
      then (SBI_EINVAL, st)
      else if fw_start scratch AND (fw_rw_offset scratch - 1) \<noteq> 0 then (SBI_EINVAL, st)
      else if \<not> offset_ok then (SBI_ENOMEM, st)
      else if context_rc \<noteq> 0 then (context_rc, st)
      else if \<not> memregs_ok then (SBI_ENOMEM, st)
      else if \<not> hmask_ok
      then (SBI_ENOMEM, update_domain root_dom (\<lambda>d. d\<lparr>regions := Some (replicate (ROOT_REGION_MAX + 1) zero_region)\<rparr>) st)
      else
        let hmask = fold sbi_hartmask_set_hartindex [0..<hart_count] sbi_hartmask_clear_all;
            st = update_domain root_dom
                   (\<lambda>d. d\<lparr>regions := Some (root_regions scratch @ replicate (ROOT_REGION_MAX - 2) zero_region),
                          possible_harts := Some hmask, fw_region_inited := True, boot_hartid := cold_hartid,
                          next_arg1 := fw_next_arg1 scratch, next_addr := fw_next_addr scratch,
                          next_mode := fw_next_mode scratch\<rparr>) st;
            st = st\<lparr>root_memregs_count := root_memregs_count st + 3\<rparr>
        in sbi_domain_register sst cold_hartid setup_rc (Some root_dom) (Some hmask) st)"

section \<open>Regions as intervals\<close>

definition rlo :: "sbi_domain_memregion \<Rightarrow> nat" where "rlo r = unat (mr_base r)"
definition rhi :: "sbi_domain_memregion \<Rightarrow> nat" where "rhi r = unat (mr_base r) + 2 ^ mr_order r"

lemma BIT_minus_1: "k < 64 \<Longrightarrow> BIT k - 1 = mask k"
  by (simp add: BIT_def mask_eq_exp_minus_1)

lemma unat_mask: "k \<le> 64 \<Longrightarrow> unat (mask k :: u64) = 2 ^ k - 1"
  by (simp add: unat_eq_nat_uint uint_mask_eq min_def) (simp add: mask_eq_exp_minus_1 nat_diff_distrib nat_power_eq)

lemma is_region_validD:
  assumes "is_region_valid r"
  shows "3 \<le> mr_order r" "mr_order r \<le> 64" "2 ^ mr_order r dvd rlo r" "rhi r \<le> 2 ^ 64"
proof -
  show o: "3 \<le> mr_order r" "mr_order r \<le> 64"
    using assms by (auto simp: is_region_valid_def split: if_splits)
  show d: "2 ^ mr_order r dvd rlo r"
  proof (cases "mr_order r = 64")
    case True
    then show ?thesis using assms by (auto simp: is_region_valid_def rlo_def split: if_splits)
  next
    case False
    then have "take_bit (mr_order r) (mr_base r) = 0"
      using assms o by (auto simp: is_region_valid_def BIT_minus_1 take_bit_eq_mask split: if_splits)
    then have "take_bit (mr_order r) (unat (mr_base r)) = 0"
      by (metis unsigned_0 unsigned_take_bit_eq)
    then show ?thesis by (simp add: rlo_def take_bit_eq_mod mod_eq_0_iff_dvd)
  qed
  have "rlo r < 2 ^ 64" using u64_less by (simp add: rlo_def)
  moreover have "(2 :: nat) ^ mr_order r dvd 2 ^ 64" using o(2) by (rule le_imp_power_dvd)
  ultimately show "rhi r \<le> 2 ^ 64"
    using dvd_gap [OF d] by (simp add: rhi_def rlo_def)
qed

lemma region_rend_eq:
  assumes "is_region_valid r"
  shows "unat (region_rend r) = rhi r - 1"
proof (cases "mr_order r < 64")
  case True
  have "unat (mr_base r) + unat (mask (mr_order r) :: u64) < 2 ^ 64"
    using is_region_validD(4) [OF assms] True
    by (simp add: unat_mask rhi_def)
  then have "unat (mr_base r + mask (mr_order r)) = unat (mr_base r) + unat (mask (mr_order r) :: u64)"
    by (subst unat_add_lem [THEN iffD1]) auto
  moreover have "push_bit (mr_order r) 1 - 1 = (mask (mr_order r) :: u64)"
    by (simp add: mask_eq_exp_minus_1)
  ultimately show ?thesis
    using True by (simp add: region_rend_def rhi_def unat_mask)
next
  case False
  then have "mr_order r = 64" "mr_base r = 0"
    using assms by (auto simp: is_region_valid_def split: if_splits)
  then show ?thesis by (simp add: region_rend_def rhi_def unsigned_minus_1_eq_mask mask_eq_exp_minus_1)
qed

lemma region_has_iff:
  assumes "is_region_valid r"
  shows "region_has r a \<longleftrightarrow> rlo r \<le> unat a \<and> unat a < rhi r"
proof -
  have "0 < rhi r" by (simp add: rhi_def)
  then show ?thesis
    using region_rend_eq [OF assms] by (auto simp: region_has_def word_le_nat_alt rlo_def)
qed

text \<open>Naturally aligned intervals are nested or disjoint.\<close>

lemma regions_nested:
  assumes "is_region_valid q" "is_region_valid r" "mr_order q \<le> mr_order r"
    and "rlo q \<le> x" "x < rhi q" "rlo r \<le> x" "x < rhi r"
  shows "rlo r \<le> rlo q \<and> rhi q \<le> rhi r"
proof -
  let ?d = "2 ^ mr_order q :: nat"
  have pw: "?d dvd 2 ^ mr_order r" using assms(3) by (rule le_imp_power_dvd)
  have d: "?d dvd rlo q" "?d dvd rlo r"
    using is_region_validD(3) [OF assms(1)] is_region_validD(3) [OF assms(2)] dvd_trans [OF pw] by blast+
  then have "?d dvd rhi r" using pw by (simp add: rhi_def rlo_def)
  have "rlo r \<le> rlo q"
    using dvd_gap [OF d] assms(5,6) by (fastforce simp: rhi_def rlo_def)
  moreover have "rhi q \<le> rhi r"
    using dvd_gap [OF d(1) \<open>?d dvd rhi r\<close>] assms(4,7) by (simp add: rhi_def rlo_def)
  ultimately show ?thesis by blast
qed

lemma is_region_subset_iff:
  assumes "is_region_valid q" "is_region_valid r" "mr_order q < 64" "mr_order r < 64"
  shows "is_region_subset q r \<longleftrightarrow> rlo r \<le> rlo q \<and> rhi q \<le> rhi r"
proof -
  have e: "mr_base s + (BIT (mr_order s) - 1) = region_rend s" if "mr_order s < 64" for s
    using that by (simp add: region_rend_def BIT_def)
  have big: "(8 :: nat) \<le> 2 ^ mr_order s" if "is_region_valid s" for s
    using power_increasing [OF is_region_validD(1) [OF that], of "2 :: nat"] by simp
  show ?thesis
    using assms(3,4) big [OF assms(1)] big [OF assms(2)]
    by (auto simp: is_region_subset_def Let_def e word_le_nat_alt word_less_nat_alt region_rend_eq [OF assms(1)]
        region_rend_eq [OF assms(2)] rlo_def rhi_def)
qed

section \<open>Access checks\<close>

text \<open>The region that decides an address is the first one in the table that contains it.\<close>

lemma find_region_loop_SomeI:
  "region_has r a \<Longrightarrow> \<forall>q \<in> set pre. \<not> region_has q a \<Longrightarrow> find_region_loop (pre @ r # post) a = Some r"
  by (induction pre) auto

lemma find_region_loop_SomeE:
  assumes "find_region_loop rs a = Some r"
  obtains pre post where "rs = pre @ r # post" "region_has r a" "\<forall>q \<in> set pre. \<not> region_has q a"
  using assms
proof (induction rs arbitrary: thesis)
  case (Cons s rs)
  show ?case
  proof (cases "region_has s a")
    case True
    then show ?thesis using Cons.prems(1) [of "[]" rs] Cons.prems(2) by simp
  next
    case False
    then have "find_region_loop rs a = Some r" using Cons.prems(2) by simp
    from Cons.IH [OF _ this] obtain pre post where
      "rs = pre @ r # post" "region_has r a" "\<forall>q \<in> set pre. \<not> region_has q a" by blast
    then show ?thesis using Cons.prems(1) [of "s # pre" post] False by simp
  qed
qed simp

lemma find_region_loop_mem: "find_region_loop rs a = Some r \<Longrightarrow> r \<in> set rs \<and> region_has r a"
  by (erule find_region_loop_SomeE) simp

lemma find_region_loop_None: "find_region_loop rs a = None \<longleftrightarrow> (\<forall>r \<in> set rs. \<not> region_has r a)"
  by (induction rs) auto

lemma check_addr_loop_find:
  "check_addr_loop rs a mode f =
     (case find_region_loop rs a of None \<Rightarrow> mode = PRV_M | Some r \<Rightarrow> region_allows r mode f)"
  by (induction rs) auto

text \<open>An entry of the table, nested in \<open>reg\<close> and starting behind \<open>a\<close>.\<close>

definition nested_behind :: "sbi_domain_memregion \<Rightarrow> u64 \<Rightarrow> sbi_domain_memregion \<Rightarrow> bool" where
  "nested_behind reg a s \<longleftrightarrow> s \<noteq> reg \<and> a < mr_base s \<and> is_region_subset s reg"

definition closer :: "sbi_domain_memregion \<Rightarrow> sbi_domain_memregion option \<Rightarrow> bool" where
  "closer s ret \<longleftrightarrow>
     (case ret of None \<Rightarrow> True
      | Some t \<Rightarrow> mr_base s < mr_base t \<or> mr_base s = mr_base t \<and> mr_order s < mr_order t)"

lemma next_subset_loop_Cons:
  "next_subset_loop (s # rs) reg a ret =
     next_subset_loop rs reg a (if nested_behind reg a s \<and> closer s ret then Some s else ret)"
  by (cases ret) (auto simp: nested_behind_def closer_def not_less)

lemma next_subset_loop_None:
  "next_subset_loop rs reg a ret = None \<longleftrightarrow> ret = None \<and> (\<forall>s \<in> set rs. \<not> nested_behind reg a s)"
proof (induction rs arbitrary: ret)
  case (Cons s rs)
  have "(if nested_behind reg a s \<and> closer s ret then Some s else ret) = None \<longleftrightarrow> ret = None \<and> \<not> nested_behind reg a s"
    by (cases ret) (simp_all add: closer_def)
  then show ?case unfolding next_subset_loop_Cons Cons by auto
qed simp

lemma next_subset_loop_Some:
  assumes "next_subset_loop rs reg a ret = Some s"
  shows "(ret = Some s \<or> s \<in> set rs \<and> nested_behind reg a s) \<and>
    (\<forall>t \<in> set rs. nested_behind reg a t \<longrightarrow> mr_base s \<le> mr_base t) \<and>
    (\<forall>t. ret = Some t \<longrightarrow> mr_base s \<le> mr_base t)"
  using assms
proof (induction rs arbitrary: ret)
  case (Cons u rs)
  let ?ret = "if nested_behind reg a u \<and> closer u ret then Some u else ret"
  note IH = Cons.IH [OF Cons.prems [unfolded next_subset_loop_Cons]]
  have "mr_base s \<le> mr_base t" if "ret = Some t" for t
    using IH that by (cases "nested_behind reg a u \<and> closer u ret") (auto simp: closer_def)
  moreover have "mr_base s \<le> mr_base u" if "nested_behind reg a u"
  proof (cases "closer u ret")
    case True
    then show ?thesis using IH that by simp
  next
    case False
    then obtain t where "ret = Some t" "mr_base t \<le> mr_base u"
      by (cases ret) (auto simp: closer_def not_less)
    then show ?thesis using IH False by auto
  qed
  ultimately show ?case using IH by (auto split: if_splits)
qed simp

text \<open>
  A region table as \<open>sanitize_domain\<close> leaves it: valid and sorted.  The range check needs more:
  no region of order 64, and none that ends at the top of the address space.
\<close>

definition sorted_regions :: "sbi_domain_memregion list \<Rightarrow> bool" where
  "sorted_regions rs \<longleftrightarrow> sorted_wrt (\<lambda>r s. \<not> is_region_before s r) rs"

definition range_checkable :: "sbi_domain_memregion list \<Rightarrow> bool" where
  "range_checkable rs \<longleftrightarrow>
     sorted_regions rs \<and> (\<forall>r \<in> set rs. is_region_valid r \<and> mr_order r < 64 \<and> rhi r < 2 ^ 64)"

text \<open>
  From an address in a region up to the next nested region (or the end) the same region decides.
\<close>

lemma same_region:
  assumes "range_checkable rs" "find_region_loop rs a = Some r" "a \<le> b" "region_has r b"
    and none: "\<And>s. s \<in> set rs \<Longrightarrow> nested_behind r a s \<Longrightarrow> b < mr_base s"
  shows "find_region_loop rs b = Some r"
proof -
  obtain pre post where rs: "rs = pre @ r # post" "region_has r a" "\<forall>q \<in> set pre. \<not> region_has q a"
    using assms(2) by (rule find_region_loop_SomeE)
  have val: "\<And>q. q \<in> set rs \<Longrightarrow> is_region_valid q \<and> mr_order q < 64"
    using assms(1) by (auto simp: range_checkable_def)
  have "\<not> region_has q b" if q: "q \<in> set pre" for q
  proof
    assume qb: "region_has q b"
    have qr: "q \<in> set rs" "r \<in> set rs" using q rs(1) by auto
    have "\<not> is_region_before r q"
      using assms(1) q rs(1) by (auto simp: range_checkable_def sorted_regions_def sorted_wrt_append)
    then have "mr_order q \<le> mr_order r" by (auto simp: is_region_before_def split: if_splits)
    then have nest: "rlo r \<le> rlo q \<and> rhi q \<le> rhi r"
      using val [OF qr(1)] val [OF qr(2)] qb assms(4)
      by (intro regions_nested [where x = "unat b"]) (auto simp: region_has_iff)
    have "a < mr_base q"
      using rs(3) q qb val [OF qr(1)] assms(3)
      by (auto simp: region_has_iff word_less_nat_alt word_le_nat_alt rlo_def not_le)
    moreover have "q \<noteq> r" using rs(2,3) q by blast
    moreover have "is_region_subset q r"
      using nest val [OF qr(1)] val [OF qr(2)] by (simp add: is_region_subset_iff)
    ultimately have "b < mr_base q" using none [OF qr(1)] by (simp add: nested_behind_def)
    then show False using qb by (meson leD region_has_def)
  qed
  then show ?thesis unfolding rs(1) using assms(4) by (intro find_region_loop_SomeI) blast+
qed

definition addr_allowed :: "sbi_domain \<Rightarrow> u64 \<Rightarrow> u64 \<Rightarrow> u64 \<Rightarrow> bool" where
  "addr_allowed dm mode access_flags a \<longleftrightarrow>
     (\<exists>r \<in> set (memregs dm). region_has r a) \<and> sbi_domain_check_addr (Some dm) a mode access_flags"

lemma addr_allowed_find:
  "addr_allowed dm mode f a \<longleftrightarrow> (\<exists>r. find_region dm a = Some r \<and> region_allows r mode f)"
  using find_region_loop_None [of "memregs dm" a]
  by (auto simp: addr_allowed_def find_region_def sbi_domain_check_addr_def check_addr_loop_find split: option.splits)

text \<open>One turn of the loop: where it goes next, everything before that is decided like \<open>a\<close>.\<close>

lemma range_step:
  assumes "range_checkable (memregs dm)" "find_region dm a = Some r"
    and "find_next_subset_region dm r a = Some s \<and> n = mr_base s \<or>
         find_next_subset_region dm r a = None \<and> n = mr_base r + push_bit (mr_order r) 1"
  shows "a < n" and "\<And>b. a \<le> b \<Longrightarrow> b < n \<Longrightarrow> find_region dm b = Some r"
proof -
  let ?rs = "memregs dm"
  have r: "r \<in> set ?rs" "region_has r a"
    using assms(2) find_region_loop_mem by (auto simp: find_region_def)
  then have val: "is_region_valid r" "mr_order r < 64" "rhi r < 2 ^ 64"
    using assms(1) by (auto simp: range_checkable_def)
  have rend: "unat (mr_base r + push_bit (mr_order r) 1) = rhi r"
  proof -
    have "unat (push_bit (mr_order r) (1 :: u64)) = 2 ^ mr_order r"
      using val(2) unat_pow2_u64 [of "mr_order r"] by (simp add: push_bit_eq_mult)
    then show ?thesis using val(3) by (subst unat_add_lem [THEN iffD1]) (auto simp: rhi_def)
  qed
  have in_r: "region_has r b" if "a \<le> b" "unat b < rhi r" for b
    using that r(2) val(1) by (auto simp: region_has_iff word_le_nat_alt)
  have spec: "(\<forall>t \<in> set ?rs. nested_behind r a t \<longrightarrow> n \<le> mr_base t) \<and> a < n \<and> unat n \<le> rhi r"
    using assms(3)
  proof
    assume s: "find_next_subset_region dm r a = Some s \<and> n = mr_base s"
    then have "s \<in> set ?rs" "nested_behind r a s" "\<forall>t \<in> set ?rs. nested_behind r a t \<longrightarrow> mr_base s \<le> mr_base t"
      using next_subset_loop_Some [of ?rs r a None s] by (auto simp: find_next_subset_region_def)
    moreover from this have "rhi s \<le> rhi r"
      using assms(1) val is_region_subset_iff [of s r] by (auto simp: range_checkable_def nested_behind_def)
    moreover have "rlo s \<le> rhi s" by (simp add: rlo_def rhi_def)
    ultimately show ?thesis using s by (auto simp: nested_behind_def rlo_def)
  next
    assume s: "find_next_subset_region dm r a = None \<and> n = mr_base r + push_bit (mr_order r) 1"
    then have "\<forall>t \<in> set ?rs. \<not> nested_behind r a t"
      using next_subset_loop_None [of ?rs r a None] by (auto simp: find_next_subset_region_def)
    moreover have "a < n"
      using s rend r(2) val(1) by (simp add: word_less_nat_alt region_has_iff)
    ultimately show ?thesis using s rend by simp
  qed
  then show "a < n" by blast
  fix b assume b: "a \<le> b" "b < n"
  then have "region_has r b" using spec in_r by (auto simp: word_less_nat_alt)
  then show "find_region dm b = Some r"
    using same_region [OF assms(1), of a r b] assms(2) b spec
    by (auto simp: find_region_def dest: less_le_trans)
qed

lemma check_range_loop_correct:
  assumes "range_checkable (memregs dm)" "unat lim - unat a < fuel"
  shows "check_range_loop fuel dm a lim mode f = Some (\<forall>b. a \<le> b \<and> b < lim \<longrightarrow> addr_allowed dm mode f b)"
  using assms(2)
proof (induction fuel arbitrary: a)
  case (Suc k)
  show ?case
  proof (cases "a < lim")
    case False
    then have none: "\<not> (a \<le> b \<and> b < lim)" for b by auto
    show ?thesis using False by (simp add: none)
  next
    case lt: True
    show ?thesis
    proof (cases "addr_allowed dm mode f a")
      case False
      then have "check_range_loop (Suc k) dm a lim mode f = Some False"
        using lt by (auto simp: addr_allowed_find sbi_domain_check_addr_def check_addr_loop_find find_region_def
            split: option.split)
      then show ?thesis using False lt by auto
    next
      case True
      then obtain r where r: "find_region dm a = Some r" "region_allows r mode f"
        by (auto simp: addr_allowed_find)
      then have "mr_order r < 64"
        using assms(1) find_region_loop_mem by (auto simp: range_checkable_def find_region_def)
      obtain n where n: "a < n" "\<And>b. a \<le> b \<Longrightarrow> b < n \<Longrightarrow> find_region dm b = Some r"
          and nxt: "check_range_loop (Suc k) dm a lim mode f = check_range_loop k dm n lim mode f"
      proof (cases "find_next_subset_region dm r a")
        case None
        then show ?thesis
          using that [of "mr_base r + push_bit (mr_order r) 1"] range_step [OF assms(1) r(1)] r lt \<open>mr_order r < 64\<close>
          by (simp add: sbi_domain_check_addr_def check_addr_loop_find find_region_def)
      next
        case (Some s)
        then show ?thesis
          using that [of "mr_base s"] range_step [OF assms(1) r(1)] r lt
          by (simp add: sbi_domain_check_addr_def check_addr_loop_find find_region_def)
      qed
      have "unat lim - unat n < k" using Suc.prems n(1) lt by (auto simp: word_less_nat_alt)
      moreover have "addr_allowed dm mode f b" if "a \<le> b" "b < n" for b
        using n(2) [OF that] r(2) by (auto simp: addr_allowed_find)
      moreover have "a \<le> b" if "n \<le> b" for b using n(1) that by simp
      ultimately show ?thesis unfolding nxt using Suc.IH [of n] by (auto simp: not_less) (meson leI)
    qed
  qed
qed simp

section \<open>Sorting the region table\<close>

definition rank :: "sbi_domain_memregion \<Rightarrow> nat" where
  "rank r = mr_order r * 2 ^ 64 + unat (mr_base r)"

lemma is_region_before_rank: "is_region_before a b \<longleftrightarrow> rank a < rank b"
proof -
  have lex: "x * 2 ^ 64 + y < x' * 2 ^ 64 + y' \<longleftrightarrow> x < x' \<or> x = x' \<and> y < y'"
    if "y < 2 ^ 64" "y' < 2 ^ 64" for x x' y y' :: nat
    using that by (cases x x' rule: linorder_cases) (auto simp: not_less dest: less_imp_add_positive)
  show ?thesis
    using lex [OF u64_less u64_less] by (simp add: is_region_before_def rank_def word_less_nat_alt)
qed

lemma swap_region_nth:
  assumes "i < length rs" "j < length rs" "k < length rs"
  shows "swap_region i j rs ! k = rs ! (if k = i then j else if k = j then i else k)"
  using assms by (auto simp: swap_region_def nth_list_update)

lemma swap_region_mset:
  assumes "i < length rs" "j < length rs"
  shows "mset (swap_region i j rs) = mset rs" "length (swap_region i j rs) = length rs"
  using assms mset_swap [of j rs i] by (auto simp: swap_region_def)

text \<open>The inner loop brings the least entry of \<open>{i} \<union> {j..<cnt}\<close> to place \<open>i\<close>.\<close>

definition inner_post :: "nat \<Rightarrow> nat \<Rightarrow> nat \<Rightarrow> sbi_domain_memregion list \<Rightarrow> sbi_domain_memregion list \<Rightarrow> bool" where
  "inner_post i j cnt rs rs' \<longleftrightarrow>
     mset rs' = mset rs \<and> length rs' = length rs \<and>
     (\<forall>k < length rs. k \<noteq> i \<and> (k < j \<or> cnt \<le> k) \<longrightarrow> rs' ! k = rs ! k) \<and>
     (\<forall>k. j \<le> k \<and> k < cnt \<longrightarrow> rank (rs' ! i) \<le> rank (rs' ! k)) \<and>
     rank (rs' ! i) \<le> rank (rs ! i) \<and>
     (\<forall>k. i \<le> k \<and> k < cnt \<longrightarrow> (\<exists>k'. i \<le> k' \<and> k' < cnt \<and> rs' ! k = rs ! k'))"

lemma sort_inner_post:
  assumes "i < j" "j \<le> cnt" "cnt \<le> length rs"
  shows "inner_post i j cnt rs (sort_inner i j cnt rs)"
  using assms
proof (induction i j cnt rs rule: sort_inner.induct)
  case (1 i j cnt rs)
  show ?case
  proof (cases "j < cnt")
    case False
    then show ?thesis by (subst sort_inner.simps) (auto simp: inner_post_def)
  next
    case True
    have ij: "i < length rs" "j < length rs" using 1 True by auto
    show ?thesis
    proof (cases "rank (rs ! j) < rank (rs ! i)")
      case False
      then have eq: "sort_inner i j cnt rs = sort_inner i (Suc j) cnt rs"
        using True by (subst sort_inner.simps) (simp add: is_region_before_rank)
      have IH: "inner_post i (Suc j) cnt rs (sort_inner i (Suc j) cnt rs)"
        using 1(1) [OF True] 1(3-5) True False by (simp add: is_region_before_rank)
      then have "rank (sort_inner i (Suc j) cnt rs ! i) \<le> rank (sort_inner i (Suc j) cnt rs ! j)"
        using False ij 1(3) by (auto simp: inner_post_def)
      then have "rank (sort_inner i (Suc j) cnt rs ! i) \<le> rank (sort_inner i (Suc j) cnt rs ! k)"
        if "j \<le> k" "k < cnt" for k
        using IH that by (cases "k = j") (auto simp: inner_post_def)
      then show ?thesis
        using IH unfolding eq inner_post_def by auto
    next
      case swap: True
      let ?rs = "swap_region i j rs"
      have eq: "sort_inner i j cnt rs = sort_inner i (Suc j) cnt ?rs"
        using True swap by (subst sort_inner.simps) (simp add: is_region_before_rank)
      have IH: "inner_post i (Suc j) cnt ?rs (sort_inner i (Suc j) cnt ?rs)"
        using 1(2) [OF True] 1(3-5) True swap swap_region_mset [OF ij] by (simp add: is_region_before_rank)
      let ?r = "sort_inner i (Suc j) cnt ?rs"
      have at: "?rs ! i = rs ! j" "?rs ! j = rs ! i"
        "k \<noteq> i \<Longrightarrow> k \<noteq> j \<Longrightarrow> k < length rs \<Longrightarrow> ?rs ! k = rs ! k" for k
        using swap_region_nth [OF ij] ij by auto
      have ri: "rank (?r ! i) \<le> rank (rs ! j)" and rj: "?r ! j = rs ! i"
        using IH at ij 1(3) swap_region_mset(2) [OF ij] by (auto simp: inner_post_def)
      have "\<exists>k'. i \<le> k' \<and> k' < cnt \<and> ?r ! k = rs ! k'" if "i \<le> k" "k < cnt" for k
      proof -
        obtain k' where "i \<le> k'" "k' < cnt" "?r ! k = ?rs ! k'"
          using IH \<open>i \<le> k\<close> \<open>k < cnt\<close> by (auto simp: inner_post_def)
        then show ?thesis
          using at 1(3,5) True by (intro exI [of _ "if k' = i then j else if k' = j then i else k'"]) auto
      qed
      moreover have "rank (?r ! i) \<le> rank (?r ! k)" if "j \<le> k" "k < cnt" for k
        using IH ri rj swap that by (cases "k = j") (auto simp: inner_post_def)
      ultimately show ?thesis
        using IH ri swap at swap_region_mset [OF ij] 1(3) True unfolding eq inner_post_def by auto
    qed
  qed
qed

definition sorted_upto :: "nat \<Rightarrow> nat \<Rightarrow> sbi_domain_memregion list \<Rightarrow> bool" where
  "sorted_upto i cnt rs \<longleftrightarrow> (\<forall>a b. a < i \<and> a < b \<and> b < cnt \<longrightarrow> rank (rs ! a) \<le> rank (rs ! b))"

lemma sort_outer_sorts:
  assumes "cnt \<le> length rs" "sorted_upto i cnt rs" "sort_outer i cnt rs = (i', rs')"
  shows "mset rs' = mset rs \<and> length rs' = length rs \<and> sorted_upto cnt cnt rs' \<and>
    (\<forall>k < length rs. cnt \<le> k \<longrightarrow> rs' ! k = rs ! k) \<and> cnt - 1 \<le> i'"
  using assms
proof (induction i cnt rs rule: sort_outer.induct)
  case (1 i cnt rs)
  show ?case
  proof (cases "i < cnt - 1")
    case False
    then have "a < i \<or> cnt \<le> b" if "a < b" for a b using that by linarith
    then have "sorted_upto cnt cnt rs"
      using 1(3) unfolding sorted_upto_def by (metis not_le)
    then show ?thesis using 1(4) False by (subst (asm) sort_outer.simps) auto
  next
    case True
    let ?rs = "sort_inner i (Suc i) cnt rs"
    have post: "inner_post i (Suc i) cnt rs ?rs"
      using True 1(2) by (intro sort_inner_post) auto
    have "rank (?rs ! a) \<le> rank (?rs ! b)" if ab: "a < Suc i" "a < b" "b < cnt" for a b
    proof (cases "a = i")
      case True
      then show ?thesis using post ab by (auto simp: inner_post_def)
    next
      case False
      then have "?rs ! a = rs ! a" using post ab 1(2) by (auto simp: inner_post_def)
      moreover have "\<exists>b'. a < b' \<and> b' < cnt \<and> ?rs ! b = rs ! b'"
      proof (cases "b < i")
        case True
        then show ?thesis using post ab 1(2) by (intro exI [of _ b]) (auto simp: inner_post_def)
      next
        case bi: False
        then obtain b' where "i \<le> b'" "b' < cnt" "?rs ! b = rs ! b'"
          using post ab(3) by (auto simp: inner_post_def not_less)
        then show ?thesis using ab(1) False by (intro exI [of _ b']) auto
      qed
      ultimately show ?thesis using 1(3) ab(1) False by (auto simp: sorted_upto_def)
    qed
    then have "sorted_upto (Suc i) cnt ?rs" by (simp add: sorted_upto_def)
    moreover have "sort_outer (Suc i) cnt ?rs = (i', rs')"
      using 1(4) True by (subst (asm) sort_outer.simps) simp
    moreover have "?rs ! k = rs ! k" if "k < length rs" "cnt \<le> k" for k
      using post that True by (auto simp: inner_post_def)
    ultimately show ?thesis
      using 1(1) [OF True] 1(2) post by (auto simp: inner_post_def)
  qed
qed

text \<open>
  The removal of covered regions starts at the index where the sort has stopped, which is the
  last one: it removes nothing.
\<close>

lemma remove_covered_done: "cnt - 1 \<le> i \<Longrightarrow> remove_covered i cnt rs = rs"
  by (subst remove_covered.simps) simp

lemma takeWhile_sorted_table:
  assumes "mset rs' = mset rs" "length rs' = length rs"
    and "n = length (takeWhile P rs)" "\<And>k. k < length rs \<Longrightarrow> n \<le> k \<Longrightarrow> rs' ! k = rs ! k"
  shows "takeWhile P rs' = take n rs' \<and> mset (take n rs') = mset (takeWhile P rs)"
proof -
  have n: "n \<le> length rs" using assms(3) length_takeWhile_le by metis
  have tw: "takeWhile P rs = take n rs" using assms(3) takeWhile_eq_take by blast
  have "drop n rs' = drop n rs"
    using assms(2,4) by (intro nth_equalityI) auto
  moreover have "mset (take n rs') + mset (drop n rs') = mset (take n rs) + mset (drop n rs)"
    using assms(1) by (simp flip: mset_append)
  ultimately have m: "mset (take n rs') = mset (take n rs)" by simp
  then have "set (take n rs') = set (take n rs)" by (metis set_mset_mset)
  then have all: "\<forall>x \<in> set (take n rs'). P x"
    using tw by (metis set_takeWhileD)
  have "takeWhile P rs' = take n rs'"
  proof (cases "n < length rs")
    case True
    then have "\<not> P (rs' ! n)"
      using assms(3,4) nth_length_takeWhile [of P rs] by simp
    moreover have "rs' = take n rs' @ rs' ! n # drop (Suc n) rs'"
      using True assms(2) by (simp add: id_take_nth_drop)
    ultimately show ?thesis using all by (metis takeWhile_append2 takeWhile.simps(2) append_Nil2)
  next
    case False
    then show ?thesis using all n assms(2) by (simp add: takeWhile_eq_all_conv)
  qed
  then show ?thesis using m tw by simp
qed

lemma sanitize_domain_spec:
  assumes "sanitize_domain valid dm = (rc, dm')"
  shows "(rc = 0 \<or> rc = SBI_EINVAL) \<and> dm' = dm\<lparr>regions := regions dm'\<rparr> \<and>
    mset (memregs dm') = mset (memregs dm) \<and>
    (rc = 0 \<longleftrightarrow>
       (\<exists>hmask. possible_harts dm = Some hmask \<and> (\<forall>i \<in> hart_set hmask. valid i)) \<and>
       regions dm \<noteq> None \<and> (\<forall>r \<in> set (memregs dm). is_region_valid r) \<and> fw_region_inited dm \<and>
       next_mode dm \<in> {PRV_S, PRV_U} \<and>
       sbi_domain_check_addr (Some dm') (next_addr dm) (next_mode dm) SBI_DOMAIN_EXECUTE) \<and>
    (rc = 0 \<longrightarrow> sorted_regions (memregs dm'))"
proof -
  let ?pre = "(\<exists>hmask. possible_harts dm = Some hmask \<and> (\<forall>i \<in> hart_set hmask. valid i)) \<and>
      regions dm \<noteq> None \<and> (\<forall>r \<in> set (memregs dm). is_region_valid r) \<and> fw_region_inited dm"
  show ?thesis
  proof (cases ?pre)
    case False
    then have "(rc, dm') = (SBI_EINVAL, dm)"
      using assms by (auto simp: sanitize_domain_def Let_def hm.walk_elems split: option.splits if_splits)
    then show ?thesis using False by (auto simp: SBI_EINVAL_def)
  next
    case True
    then obtain hmask rs where h: "possible_harts dm = Some hmask" "\<forall>i \<in> hart_set hmask. valid i"
      and rs: "regions dm = Some rs" by auto
    let ?n = "length (memregs dm)"
    obtain i rs' where sort: "sort_outer 0 ?n rs = (i, rs')" by force
    have tw: "memregs dm = takeWhile (\<lambda>r. mr_order r \<noteq> 0) rs" by (simp add: memregs_def rs)
    have le: "?n \<le> length rs" unfolding tw by (rule length_takeWhile_le)
    have sorted: "mset rs' = mset rs" "length rs' = length rs" "sorted_upto ?n ?n rs'"
        "\<forall>k < length rs. ?n \<le> k \<longrightarrow> rs' ! k = rs ! k" "?n - 1 \<le> i"
      using sort_outer_sorts [OF le _ sort] by (auto simp: sorted_upto_def)
    let ?dm = "dm\<lparr>regions := Some rs'\<rparr>"
    have dm': "dm' = ?dm" and
      rc: "rc = (if next_mode dm \<notin> {PRV_S, PRV_U} \<or>
                   \<not> sbi_domain_check_addr (Some ?dm) (next_addr dm) (next_mode dm) SBI_DOMAIN_EXECUTE
                 then SBI_EINVAL else 0)"
      using assms True h rs sort sorted(5)
      by (auto simp: sanitize_domain_def Let_def hm.walk_elems remove_covered_done split: if_splits)
    have "takeWhile (\<lambda>r. mr_order r \<noteq> 0) rs' = take ?n rs' \<and> mset (take ?n rs') = mset (memregs dm)"
      unfolding tw using sorted(4) by (intro takeWhile_sorted_table sorted(1,2)) (auto simp: tw)
    then have regs: "memregs ?dm = take ?n rs'" "mset (memregs ?dm) = mset (memregs dm)"
      by (simp_all add: memregs_def)
    have "sorted_regions (memregs ?dm)"
      using sorted(2,3) le unfolding regs(1) sorted_regions_def sorted_upto_def
      by (simp add: sorted_wrt_iff_nth_less is_region_before_rank not_less)
    then show ?thesis
      using True rc regs(2) by (auto simp: dm' SBI_EINVAL_def)
  qed
qed

lemma sanitize_domain_ok:
  assumes "sanitize_domain valid dm = (rc, dm')"
  shows "assigned_harts dm' = assigned_harts dm \<and> possible_harts dm' = possible_harts dm"
    and "rc = 0 \<Longrightarrow> \<exists>hmask. possible_harts dm = Some hmask \<and> (\<forall>i \<in> hart_set hmask. valid i)"
proof -
  have eq: "dm' = dm\<lparr>regions := regions dm'\<rparr>" using sanitize_domain_spec [OF assms] by blast
  show "assigned_harts dm' = assigned_harts dm \<and> possible_harts dm' = possible_harts dm"
    by (subst (1 2) eq) simp
  show "rc = 0 \<Longrightarrow> \<exists>hmask. possible_harts dm = Some hmask \<and> (\<forall>i \<in> hart_set hmask. valid i)"
    using sanitize_domain_spec [OF assms] by blast
qed

text \<open>
  \<open>sanitize_domain\<close> accepts exactly the domains whose possible harts all exist, whose
  regions are valid, that have their firmware region and a next stage in S- or U-mode at an
  executable address; it then leaves the regions as a permutation sorted by size and base (so
  the smallest region containing an address decides), removes none, and changes nothing else.
\<close>

lemma sanitize_domain_correct:
  assumes "sanitize_domain valid dm = (rc, dm')"
  shows "(rc = 0 \<or> rc = SBI_EINVAL) \<and> dm' = dm\<lparr>regions := regions dm'\<rparr> \<and>
    mset (memregs dm') = mset (memregs dm) \<and>
    (rc = 0 \<longleftrightarrow>
       (\<exists>hmask. possible_harts dm = Some hmask \<and> (\<forall>i \<in> hart_set hmask. valid i)) \<and>
       regions dm \<noteq> None \<and> (\<forall>r \<in> set (memregs dm). is_region_valid r) \<and> fw_region_inited dm \<and>
       next_mode dm \<in> {PRV_S, PRV_U} \<and>
       sbi_domain_check_addr (Some dm') (next_addr dm) (next_mode dm) SBI_DOMAIN_EXECUTE) \<and>
    (rc = 0 \<longrightarrow> sorted_regions (memregs dm'))"
  using assms by (rule sanitize_domain_spec)

section \<open>Range checks\<close>

text \<open>
  C4: on a sorted table of valid regions, none of which is of order 64 or ends at the top of the
  address space, and for a range that does not wrap, the range check ends and allows the range
  exactly when every address in it lies in a region and is allowed by the address check.
\<close>

theorem check_addr_range_exact:
  assumes "range_checkable (memregs dm)" "unat addr + unat sz < 2 ^ 64" "unat sz < fuel"
  shows "sbi_domain_check_addr_range fuel (Some dm) addr sz mode access_flags =
    Some (\<forall>b. unat addr \<le> unat b \<and> unat b < unat addr + unat sz \<longrightarrow> addr_allowed dm mode access_flags b)"
proof -
  have sum: "unat (addr + sz) = unat addr + unat sz"
    using assms(2) by (subst unat_add_lem [THEN iffD1]) auto
  then have "unat (addr + sz) - unat addr < fuel" using assms(3) by simp
  then show ?thesis
    using check_range_loop_correct [OF assms(1)] by (simp add: sbi_domain_check_addr_range_def word_le_nat_alt word_less_nat_alt sum)
qed

text \<open>A range whose end wraps around the address space is allowed whatever the domain is.\<close>

lemma check_addr_range_wraps:
  assumes "2 ^ 64 \<le> unat addr + unat sz" "0 < fuel"
  shows "sbi_domain_check_addr_range fuel (Some dm) addr sz mode access_flags = Some True"
proof -
  obtain k where k: "fuel = Suc k" using assms(2) gr0_conv_Suc by auto
  have "unat (addr + sz) = unat addr + unat sz - 2 ^ 64"
    using assms(1) u64_less [of addr] u64_less [of sz] by (simp add: unat_word_ariths mod_if)
  then have "\<not> addr < addr + sz"
    using u64_less [of sz] by (simp add: word_less_nat_alt)
  then show ?thesis by (simp add: sbi_domain_check_addr_range_def k)
qed

lemma order_64_no_subset:
  assumes "is_region_valid r" "mr_order r = 64"
  shows "\<not> is_region_subset s r" and "find_next_subset_region dm r a = None"
proof -
  show none: "\<not> is_region_subset s r" for s
    using assms by (auto simp: is_region_subset_def is_region_valid_def BIT_def Let_def)
  then show "find_next_subset_region dm r a = None"
    by (simp add: find_next_subset_region_def next_subset_loop_None nested_behind_def)
qed

text \<open>
  Where the range check does not look at the range: a range whose end wraps around the
  address space is allowed in every domain, and a range that starts in a region of order 64 that
  allows its first address is allowed whatever regions are nested in it.
\<close>

lemma check_addr_range_blind:
  assumes "0 < fuel"
  shows "(2 ^ 64 \<le> unat addr + unat sz \<longrightarrow>
      sbi_domain_check_addr_range fuel (Some dm) addr sz mode access_flags = Some True) \<and>
    (\<forall>r. find_region dm addr = Some r \<and> is_region_valid r \<and> mr_order r = 64 \<and> region_allows r mode access_flags \<longrightarrow>
      sbi_domain_check_addr_range fuel (Some dm) addr sz mode access_flags = Some True)"
proof -
  obtain k where k: "fuel = Suc k" using assms gr0_conv_Suc by auto
  show ?thesis
    using check_addr_range_wraps [of addr sz fuel] order_64_no_subset assms
    by (auto simp: sbi_domain_check_addr_range_def k sbi_domain_check_addr_def check_addr_loop_find find_region_def)
qed

section \<open>Choosing a region for a range\<close>

lemma unat_align_down: "k < 64 \<Longrightarrow> unat (a AND NOT (push_bit k 1 - 1) :: u64) = 2 ^ k * (unat a div 2 ^ k)"
proof -
  assume "k < 64"
  have "a AND NOT (push_bit k 1 - 1) = push_bit k (drop_bit k a)"
    by (rule bit_word_eqI) (auto simp: bit_simps simp flip: mask_eq_exp_minus_1)
  moreover have "2 ^ k * (unat a div 2 ^ k) < 2 ^ 64"
    using u64_less [of a] by (meson le_less_trans times_div_less_eq_dividend)
  moreover have "unat (drop_bit k a) = unat a div 2 ^ k"
    unfolding unat_drop_bit_eq by (rule drop_bit_eq_div)
  moreover have "unat (push_bit k w) = 2 ^ k * unat w" if "2 ^ k * unat w < 2 ^ 64" for w :: u64
    using that unat_pow2_u64 [OF \<open>k < 64\<close>] unat_mult_lem [of "2 ^ k" w] by (simp add: push_bit_eq_mult mult.commute)
  ultimately show ?thesis by simp
qed

definition order_fits :: "nat \<Rightarrow> nat \<Rightarrow> nat \<Rightarrow> bool" where
  "order_fits addr sz k \<longleftrightarrow> addr + sz \<le> 2 ^ k * (addr div 2 ^ k) + 2 ^ k"

lemma memregion_order_step:
  assumes "unat addr + unat sz \<le> 2 ^ 63" "0 < unat sz" "k < 64"
  shows "memregion_order addr sz k =
    (if order_fits (unat addr) (unat sz) k then (addr AND NOT (push_bit k 1 - 1), k)
     else memregion_order addr sz (Suc k))"
proof -
  let ?base = "addr AND NOT (push_bit k 1 - 1)"
  have base: "unat ?base = 2 ^ k * (unat addr div 2 ^ k)" using assms(3) by (rule unat_align_down)
  have dm: "2 ^ k * (unat addr div 2 ^ k) + unat addr mod 2 ^ k = unat addr" by simp
  have "unat addr mod 2 ^ k < 2 ^ k" by simp
  then have le: "unat ?base \<le> unat addr" and lt: "unat addr < unat ?base + 2 ^ k"
    using dm unfolding base by linarith+
  have "(2 :: nat) ^ k \<le> 2 ^ 63" using assms(3) by (intro power_increasing) auto
  then have "unat (?base + push_bit k 1) = unat ?base + 2 ^ k"
    using le assms(1,2) unat_pow2_u64 [OF assms(3)] by (subst unat_add_lem [THEN iffD1]) (auto simp: push_bit_eq_mult)
  moreover have "unat (addr + sz - 1) = unat addr + unat sz - 1"
  proof -
    have s: "unat (addr + sz) = unat addr + unat sz" using assms(1) by (subst unat_add_lem [THEN iffD1]) auto
    then show ?thesis using assms(2) by (simp add: unat_sub_if')
  qed
  moreover have "order_fits (unat addr) (unat sz) k \<longleftrightarrow> unat addr + unat sz - 1 < unat ?base + 2 ^ k"
    unfolding order_fits_def base using assms(2) by linarith
  ultimately show ?thesis
    using assms(2,3) le lt
    by (subst memregion_order.simps) (auto simp: Let_def word_le_nat_alt word_less_nat_alt)
qed

lemma memregion_order_least:
  assumes "unat addr + unat sz \<le> 2 ^ 63" "0 < unat sz" "k \<le> 63"
  shows "\<exists>j. k \<le> j \<and> j \<le> 63 \<and> order_fits (unat addr) (unat sz) j \<and>
    (\<forall>i. k \<le> i \<and> i < j \<longrightarrow> \<not> order_fits (unat addr) (unat sz) i) \<and>
    memregion_order addr sz k = (addr AND NOT (push_bit j 1 - 1), j)"
  using assms(3)
proof (induction k rule: inc_induct)
  case base
  have "order_fits (unat addr) (unat sz) 63" using assms(1,2) by (simp add: order_fits_def)
  then show ?case using memregion_order_step [OF assms(1,2), of 63] by (intro exI [of _ 63]) auto
next
  case (step k)
  show ?case
  proof (cases "order_fits (unat addr) (unat sz) k")
    case True
    then show ?thesis using memregion_order_step [OF assms(1,2), of k] step.hyps by (intro exI [of _ k]) auto
  next
    case False
    then obtain j where "Suc k \<le> j" "j \<le> 63" "order_fits (unat addr) (unat sz) j"
      "\<forall>i. Suc k \<le> i \<and> i < j \<longrightarrow> \<not> order_fits (unat addr) (unat sz) i"
      "memregion_order addr sz (Suc k) = (addr AND NOT (push_bit j 1 - 1), j)"
      using step.IH by blast
    moreover have "i = k \<or> Suc k \<le> i" if "k \<le> i" for i using that by auto
    ultimately show ?thesis
      using memregion_order_step [OF assms(1,2), of k] step.hyps False by (intro exI [of _ j]) auto
  qed
qed

lemma log2roundup_bound:
  assumes "i < log2roundup x"
  shows "2 ^ i < unat x"
proof -
  have "i < k \<or> unat x > 2 ^ i" if "k \<le> 64" "i < log2roundup_loop x k" for k
    using that
  proof (induction x k rule: log2roundup_loop.induct)
    case (1 x k)
    then show ?case
      using unat_pow2_u64 [of k] log2roundup_loop.simps [of x k]
      by (cases "k < 64"; cases "x \<le> push_bit k 1")
        (auto simp: word_le_nat_alt push_bit_eq_mult not_le less_Suc_eq)
  qed
  then show ?thesis using assms by (auto simp: log2roundup_def)
qed

lemma log2roundup_le_63:
  assumes "unat x \<le> 2 ^ 63"
  shows "log2roundup x \<le> 63"
  using log2roundup_bound [of 63 x] assms by (meson leD leI)

text \<open>
  For a range in the lower half of the address space the region chosen is the smallest
  naturally aligned power of two that contains the whole range.
\<close>

lemma memregion_init_smallest:
  assumes "unat addr + unat sz \<le> 2 ^ 63" "0 < unat sz" and r_def: "r = sbi_domain_memregion_init addr sz flags"
  shows "mr_flags r = flags \<and> mr_order r \<le> 63 \<and> 2 ^ mr_order r dvd rlo r \<and>
    rlo r \<le> unat addr \<and> unat addr + unat sz \<le> rhi r \<and>
    (\<forall>k b. 2 ^ k dvd b \<and> b \<le> unat addr \<and> unat addr + unat sz \<le> b + 2 ^ k \<longrightarrow> mr_order r \<le> k)"
proof -
  have "log2roundup sz \<le> 63" using assms(1) by (intro log2roundup_le_63) simp
  then obtain j where j: "log2roundup sz \<le> j" "j \<le> 63" "order_fits (unat addr) (unat sz) j"
      "\<forall>i. log2roundup sz \<le> i \<and> i < j \<longrightarrow> \<not> order_fits (unat addr) (unat sz) i"
      and r: "r = \<lparr>mr_order = j, mr_base = addr AND NOT (push_bit j 1 - 1), mr_flags = flags\<rparr>"
    using memregion_order_least [OF assms(1,2), of "log2roundup sz"]
    by (auto simp: r_def sbi_domain_memregion_init_def)
  have lo: "rlo r = 2 ^ j * (unat addr div 2 ^ j)" and hi: "rhi r = 2 ^ j * (unat addr div 2 ^ j) + 2 ^ j"
    using unat_align_down [of j addr] j(2) by (simp_all add: rlo_def rhi_def r)
  have "j \<le> k" if b: "2 ^ k dvd b" "b \<le> unat addr" "unat addr + unat sz \<le> b + 2 ^ k" for k b
  proof (rule ccontr)
    assume "\<not> j \<le> k"
    have "unat addr div 2 ^ k = b div 2 ^ k"
    proof (rule div_nat_eqI)
      show "2 ^ k * (b div 2 ^ k) \<le> unat addr" using b by simp
      show "unat addr < 2 ^ k * Suc (b div 2 ^ k)" using b assms(2) by simp
    qed
    then have "order_fits (unat addr) (unat sz) k" using b by (simp add: order_fits_def)
    moreover have "log2roundup sz \<le> k"
      by (rule leI) (use log2roundup_bound [of k sz] b in auto)
    ultimately show False using j(4) \<open>\<not> j \<le> k\<close> by auto
  qed
  then show ?thesis
    using j(2,3) lo hi by (auto simp: r order_fits_def)
qed

section \<open>Assignment of harts\<close>

text \<open>
  Every hart is in the mask of exactly the domain its scratch space points to.
\<close>

definition assignment_inv :: "domain_state \<Rightarrow> bool" where
  "assignment_inv st \<longleftrightarrow>
     (\<forall>a. wf_mask (assigned_harts (domains st a)) \<and>
          hart_set (assigned_harts (domains st a)) = {i. i < 128 \<and> hart_domain st i = Some a})"

lemma assign_hart_effect:
  assumes "assignment_inv st" "i < 128" "sbi_hartindex_to_scratch sst i \<noteq> None"
    "possible_harts (domains st a) = Some pmask" "i \<in> hart_set pmask"
  shows "assignment_inv (assign_hart sst cold a i st)"
    and "hart_domain (assign_hart sst cold a i st) = (hart_domain st)(i := Some a)"
    and "possible_harts (domains (assign_hart sst cold a i st) b) = possible_harts (domains st b)"
  using assms hm.member_elems mask_set mask_clear
  by (auto simp: assign_hart_def Let_def update_domain_def sbi_hartindex_to_domain_def
      sbi_update_hartindex_to_domain_def assignment_inv_def split: option.splits)

lemma assign_hart_skip:
  "possible_harts (domains st a) = Some pmask \<Longrightarrow> i \<notin> hart_set pmask \<Longrightarrow> assign_hart sst cold a i st = st"
  by (simp add: assign_hart_def hm.member_elems)

lemma assign_harts_effect:
  assumes "assignment_inv st" "possible_harts (domains st a) = Some pmask"
    "\<forall>i \<in> hart_set pmask. sbi_hartindex_to_scratch sst i \<noteq> None"
  shows "assignment_inv (fold (assign_hart sst cold a) is st) \<and>
    hart_domain (fold (assign_hart sst cold a) is st) =
      (\<lambda>i. if i \<in> set is \<and> i \<in> hart_set pmask then Some a else hart_domain st i)"
  using assms(1,2)
proof (induction "is" arbitrary: st)
  case (Cons i "is")
  show ?case
  proof (cases "i \<in> hart_set pmask")
    case True
    then have "i < 128" using hm.elems_bound by auto
    note eff = assign_hart_effect [OF Cons.prems(1) this _ Cons.prems(2) True, of sst cold]
    show ?thesis
      using Cons.IH [OF eff(1)] eff(2,3) Cons.prems(2) assms(3) True by auto
  next
    case False
    then show ?thesis using Cons.IH [OF Cons.prems] Cons.prems assign_hart_skip by auto
  qed
qed auto

lemma assign_hart_fields [simp]:
  "domain_list (assign_hart sst cold a i st) = domain_list st"
  "domain_count (assign_hart sst cold a i st) = domain_count st"
  by (auto simp: assign_hart_def Let_def update_domain_def sbi_update_hartindex_to_domain_def split: option.split)

lemma fold_assign_fields:
  "domain_list (fold (assign_hart sst cold a) is st) = domain_list st"
  "domain_count (fold (assign_hart sst cold a) is st) = domain_count st"
  by (induction "is" arbitrary: st) simp_all

text \<open>
  Registration keeps the invariant that a hart is in the mask of exactly the domain it points
  to.  When it succeeds, the harts that are both asked for and possible belong to the new domain
  and no other hart has moved; when it fails before the harts are assigned, none has moved.
\<close>

lemma sbi_domain_register_assigns:
  assumes "assignment_inv st" "hart_set (assigned_harts (domains st a)) = {}"
    "\<forall>i. sbi_hartindex_valid sst i \<longrightarrow> sbi_hartindex_to_scratch sst i \<noteq> None"
    "sbi_domain_register sst cold_hartid setup_rc (Some a) (Some amask) st = (rc, st')"
  shows "assignment_inv st' \<and>
    (rc = 0 \<longrightarrow>
       domain_list st' = domain_list st @ [a] \<and> domain_count st' = domain_count st + 1 \<and>
       (\<exists>pmask. possible_harts (domains st a) = Some pmask \<and>
          (\<forall>i. hart_domain st' i = (if i \<in> hart_set amask \<inter> hart_set pmask then Some a else hart_domain st i)))) \<and>
    (rc \<noteq> 0 \<and> setup_rc = 0 \<longrightarrow> hart_domain st' = hart_domain st \<and> domain_list st' = domain_list st)"
proof (cases "domain_finalized st \<or> a \<in> set (domain_list st)")
  case True
  then have "st' = st" "rc \<noteq> 0"
    using assms(4) by (auto simp: sbi_domain_register_def sbi_errors split: if_splits)
  then show ?thesis using assms(1) by simp
next
  case False
  obtain rc0 d where san: "sanitize_domain (sbi_hartindex_valid sst) (domains st a) = (rc0, d)" by force
  note ok = sanitize_domain_ok [OF san]
  let ?st1 = "update_domain a (\<lambda>_. d) st"
  have inv1: "assignment_inv ?st1"
    using assms(1) ok(1) by (auto simp: assignment_inv_def update_domain_def)
  show ?thesis
  proof (cases "rc0 = 0")
    case bad: False
    then have "rc = rc0" "st' = ?st1"
      using assms(4) False san by (auto simp: sbi_domain_register_def)
    then show ?thesis using inv1 bad by (simp add: update_domain_def)
  next
    case True
    then obtain pmask where p: "possible_harts (domains st a) = Some pmask"
        "\<forall>i \<in> hart_set pmask. sbi_hartindex_valid sst i"
      using ok(2) by blast
    define st2 where "st2 = update_domain a (\<lambda>d. d\<lparr>assigned_harts := sbi_hartmask_clear_all\<rparr>)
      ((update_domain a (\<lambda>d. d\<lparr>dom_index := domain_count st\<rparr>) (?st1\<lparr>domain_list := domain_list st @ [a]\<rparr>))
        \<lparr>domain_count := domain_count st + 1\<rparr>)"
    let ?st3 = "fold (assign_hart sst cold_hartid a) (sbi_hartmask_harts amask) st2"
    have inv2: "assignment_inv st2" "possible_harts (domains st2 a) = Some pmask" "hart_domain st2 = hart_domain st"
      "domain_list st2 = domain_list st @ [a]" "domain_count st2 = domain_count st + 1"
      using assms(1,2) p(1) ok(1) mask_all(1,2) by (auto simp: st2_def assignment_inv_def update_domain_def)
    have eff: "assignment_inv ?st3" "hart_domain ?st3 =
        (\<lambda>i. if i \<in> set (sbi_hartmask_harts amask) \<and> i \<in> hart_set pmask then Some a else hart_domain st i)"
      using assign_harts_effect [OF inv2(1,2), of sst cold_hartid "sbi_hartmask_harts amask"] assms(3) p(2) inv2(3)
      by auto
    have fields: "domain_list ?st3 = domain_list st2" "domain_count ?st3 = domain_count st2"
      using fold_assign_fields by auto
    have res: "rc = setup_rc" "st' = (if setup_rc = 0 then ?st3 else ?st3\<lparr>domain_list := removeAll a (domain_list ?st3)\<rparr>)"
      using assms(4) False san True
      by (auto simp: sbi_domain_register_def Let_def st2_def update_domain_def split: if_splits)
    have "assignment_inv st'" using eff(1) res(2) by (simp add: assignment_inv_def)
    then show ?thesis
      using res eff(2) fields inv2(4,5) p(1) by (auto simp: hm.walk_elems)
  qed
qed

section \<open>A small machine\<close>

text \<open>
  Firmware in the first 128 KiB of a GiB of memory, open to S- and U-mode otherwise; and the same
  firmware under a region for the whole address space, as \<open>sbi_domain_init\<close> builds it.
\<close>

definition demo_fw :: sbi_domain_memregion where
  "demo_fw = \<lparr>mr_order = 17, mr_base = 0x80000000, mr_flags = 5\<rparr>"

definition demo_domain :: "sbi_domain_memregion list \<Rightarrow> sbi_domain" where
  "demo_domain rs = \<lparr>dom_index = 0, assigned_harts = sbi_hartmask_clear_all, possible_harts = Some [3, 0],
     regions = Some rs, boot_hartid = 0, next_arg1 = 0, next_addr = 0x80200000, next_mode = PRV_S,
     system_reset_allowed = True, system_suspend_allowed = True, fw_region_inited = True\<rparr>"

definition demo_dom :: sbi_domain where
  "demo_dom = demo_domain [demo_fw, \<lparr>mr_order = 30, mr_base = 0x80000000, mr_flags = 0x38\<rparr>, zero_region]"

definition demo_root :: sbi_domain where
  "demo_root = demo_domain [demo_fw, \<lparr>mr_order = 64, mr_base = 0, mr_flags = 0x38\<rparr>, zero_region]"

lemma demo_memregs:
  "memregs demo_dom = [demo_fw, \<lparr>mr_order = 30, mr_base = 0x80000000, mr_flags = 0x38\<rparr>]"
  by (simp add: memregs_def demo_dom_def demo_domain_def demo_fw_def zero_region_def)

lemma demo_range_checkable: "range_checkable (memregs demo_dom)"
  by (simp add: range_checkable_def demo_memregs sorted_regions_def is_region_before_def is_region_valid_def
      demo_fw_def BIT_def rhi_def)

text \<open>
  With a region of order 64 the range check does not see the regions nested in it: a range that
  starts below the firmware and reaches over it is allowed to S-mode, although S-mode may not
  read the firmware.
\<close>

lemma demo_root_hides_firmware:
  "find_region demo_root 0x7fff0000 = Some \<lparr>mr_order = 64, mr_base = 0, mr_flags = 0x38\<rparr>"
  "region_allows \<lparr>mr_order = 64, mr_base = 0, mr_flags = 0x38\<rparr> PRV_S SBI_DOMAIN_READ"
  "is_region_valid \<lparr>mr_order = 64, mr_base = 0, mr_flags = 0x38\<rparr>"
  "\<not> sbi_domain_check_addr (Some demo_root) 0x80000000 PRV_S SBI_DOMAIN_READ"
  by code_simp+

theorem check_addr_range_exact_witness:
  "sbi_domain_check_addr_range 8192 (Some demo_dom) 0x80000000 0x1000 PRV_S SBI_DOMAIN_READ = Some False"
proof -
  have "\<not> sbi_domain_check_addr (Some demo_dom) 0x80000000 PRV_S SBI_DOMAIN_READ" by code_simp
  then have "\<not> addr_allowed demo_dom PRV_S SBI_DOMAIN_READ 0x80000000" by (simp add: addr_allowed_def)
  then show ?thesis
    using check_addr_range_exact [OF demo_range_checkable, where addr = "0x80000000" and sz = "0x1000" and
        fuel = 8192 and mode = PRV_S and access_flags = SBI_DOMAIN_READ] by (auto intro!: exI [of _ "0x80000000"])
qed

lemma demo_order: "mr_order (sbi_domain_memregion_init 0x80040000 0x30000 3) = 18"
  by code_simp

definition demo_sst :: scratch_state where
  "demo_sst = demo_scratch\<lparr>hartindex_to_scratch_table := replicate 129 (Some (replicate 4096 0))\<rparr>"

definition demo_dstate :: domain_state where
  "demo_dstate = \<lparr>domains = (\<lambda>_. demo_dom), domain_list = [], domain_count = 0, domain_finalized = False,
     root_memregs_count = 0, hart_domain = (\<lambda>_. None)\<rparr>"

end
