(* ===== verification/SbiHsm.thy ===== *)
theory SbiHsm
  imports SbiDomain
begin

text \<open>
  Hart state management (\<open>lib/sbi/sbi_hsm.c\<close>): the life cycle of a hart between the states
  of the SBI specification.  The first part translates the functions; the second is the
  interleaving of several harts that start the same target.
\<close>

unbundle bit_operations_syntax

section \<open>Data\<close>

definition SBI_HSM_STATE_STARTED :: int where "SBI_HSM_STATE_STARTED = 0"
definition SBI_HSM_STATE_STOPPED :: int where "SBI_HSM_STATE_STOPPED = 1"
definition SBI_HSM_STATE_START_PENDING :: int where "SBI_HSM_STATE_START_PENDING = 2"
definition SBI_HSM_STATE_STOP_PENDING :: int where "SBI_HSM_STATE_STOP_PENDING = 3"
definition SBI_HSM_STATE_SUSPENDED :: int where "SBI_HSM_STATE_SUSPENDED = 4"
definition SBI_HSM_STATE_RESUME_PENDING :: int where "SBI_HSM_STATE_RESUME_PENDING = 6"

lemmas hsm_states =
  SBI_HSM_STATE_STARTED_def SBI_HSM_STATE_STOPPED_def SBI_HSM_STATE_START_PENDING_def
  SBI_HSM_STATE_STOP_PENDING_def SBI_HSM_STATE_SUSPENDED_def SBI_HSM_STATE_RESUME_PENDING_def

definition SBI_HSM_SUSPEND_RET_DEFAULT :: u32 where "SBI_HSM_SUSPEND_RET_DEFAULT = 0"
definition SBI_HSM_SUSPEND_RET_PLATFORM :: u32 where "SBI_HSM_SUSPEND_RET_PLATFORM = 0x10000000"
definition SBI_HSM_SUSP_NON_RET_BIT :: u32 where "SBI_HSM_SUSP_NON_RET_BIT = 0x80000000"
definition SBI_HSM_SUSPEND_NON_RET_DEFAULT :: u32 where "SBI_HSM_SUSPEND_NON_RET_DEFAULT = 0x80000000"
definition SBI_HSM_SUSPEND_NON_RET_PLATFORM :: u32 where "SBI_HSM_SUSPEND_NON_RET_PLATFORM = 0x90000000"

definition MIP_SSIP :: u64 where "MIP_SSIP = 0x2"
definition MIP_STIP :: u64 where "MIP_STIP = 0x20"

record sbi_hsm_data =
  hd_state :: int
  suspend_type :: u32
  saved_mie :: u64
  saved_mip :: u64
  saved_medeleg :: u64
  saved_menvcfg :: u64
  start_ticket :: int

text \<open>
  A hart: its state data, the fields of its scratch space and the registers the code reads and
  writes; \<open>priv_1_12\<close> says that the privileged architecture is at least version 1.12.
\<close>

record hart =
  hdata :: sbi_hsm_data
  sc_next_arg1 :: u64
  sc_next_addr :: u64
  sc_next_mode :: u64
  sc_warmboot_addr :: u64
  csr_mie :: u64
  csr_mip :: u64
  csr_medeleg :: u64
  csr_menvcfg :: u64
  priv_1_12 :: bool
  init_count :: u64
  entry_count :: u64

text \<open>What a device call does: it returns, or the hart is gone (until it boots again).\<close>

datatype dev_result = Returned int | Gone

record sbi_hsm_device =
  dev_hart_start :: "(u32 \<Rightarrow> u64 \<Rightarrow> int) option"
  dev_hart_stop :: "dev_result option"
  dev_hart_suspend :: "(u32 \<Rightarrow> u64 \<Rightarrow> dev_result) option"

record hsm_system =
  harts :: "nat \<Rightarrow> hart"
  hsm_dev :: "sbi_hsm_device option"

text \<open>
  How a function ends: with a return value, in \<open>sbi_hart_hang\<close>, by a jump to the warm boot
  entry, by \<open>sbi_exit\<close>, in \<open>sbi_hart_switch_mode\<close> to the next stage, or switched off.
\<close>

datatype ctl =
    Return int
  | Hang
  | Warmboot
  | Sbi_exit
  | Switch_mode u32 u64 u64 u64
  | Off

section \<open>State changes of one hart\<close>

definition hd_cmpxchg :: "int \<Rightarrow> int \<Rightarrow> hart \<Rightarrow> int \<times> hart" where
  "hd_cmpxchg old new h =
     (hd_state (hdata h),
      if hd_state (hdata h) = old then h\<lparr>hdata := (hdata h)\<lparr>hd_state := new\<rparr>\<rparr> else h)"

definition sbi_hsm_hart_change_state :: "int \<Rightarrow> int \<Rightarrow> hart \<Rightarrow> bool \<times> hart" where
  "sbi_hsm_hart_change_state old new h =
     (case hd_cmpxchg old new h of (state, h) \<Rightarrow> (state = old, h))"

definition hsm_start_ticket_acquire :: "hart \<Rightarrow> bool \<times> hart" where
  "hsm_start_ticket_acquire h =
     (if start_ticket (hdata h) = 0 then (True, h\<lparr>hdata := (hdata h)\<lparr>start_ticket := 1\<rparr>\<rparr>) else (False, h))"

definition hsm_start_ticket_release :: "hart \<Rightarrow> hart" where
  "hsm_start_ticket_release h = h\<lparr>hdata := (hdata h)\<lparr>start_ticket := 0\<rparr>\<rparr>"

definition set_next :: "u64 \<Rightarrow> u64 \<Rightarrow> u64 \<Rightarrow> hart \<Rightarrow> hart" where
  "set_next arg1 addr mode h = h\<lparr>sc_next_arg1 := arg1, sc_next_addr := addr, sc_next_mode := mode\<rparr>"

definition get_state' :: "scratch_state \<Rightarrow> hsm_system \<Rightarrow> nat \<Rightarrow> int" where
  "get_state' sst sys hartindex =
     (if sbi_hartindex_to_scratch sst hartindex = None then SBI_EINVAL
      else hd_state (hdata (harts sys hartindex)))"

definition sbi_hsm_hart_get_state :: "scratch_state \<Rightarrow> hsm_system \<Rightarrow> sbi_domain option \<Rightarrow> u32 \<Rightarrow> int" where
  "sbi_hsm_hart_get_state sst sys dm hartid =
     (let hartindex = sbi_hartid_to_hartindex sst hartid in
      if \<not> sbi_domain_is_assigned_hart dm hartindex then SBI_EINVAL else get_state' sst sys hartindex)"

definition interruptible :: "int \<Rightarrow> bool" where
  "interruptible hstate \<longleftrightarrow>
     hstate = SBI_HSM_STATE_STARTED \<or> hstate = SBI_HSM_STATE_SUSPENDED \<or> hstate = SBI_HSM_STATE_RESUME_PENDING"

definition sbi_hsm_hart_interruptible_mask :: "scratch_state \<Rightarrow> hsm_system \<Rightarrow> sbi_domain option \<Rightarrow> sbi_hartmask" where
  "sbi_hsm_hart_interruptible_mask sst sys dm =
     (let m = sbi_domain_get_assigned_hartmask dm in
      fold (\<lambda>i m. if interruptible (get_state' sst sys i) then m else sbi_hartmask_clear_hartindex i m)
        (sbi_hartmask_harts m) m)"

definition sbi_hsm_hart_start_finish :: "u32 \<Rightarrow> hart \<Rightarrow> ctl \<times> hart" where
  "sbi_hsm_hart_start_finish hartid h =
     (case sbi_hsm_hart_change_state SBI_HSM_STATE_START_PENDING SBI_HSM_STATE_STARTED h of
        (ok, h) \<Rightarrow>
          if \<not> ok then (Hang, h)
          else (Switch_mode hartid (sc_next_arg1 h) (sc_next_addr h) (sc_next_mode h),
                hsm_start_ticket_release h))"

text \<open>\<open>sbi_hsm_hart_wait\<close> leaves its loop in state \<open>START_PENDING\<close> only; \<open>None\<close> while it waits.\<close>

definition sbi_hsm_hart_wait :: "hart \<Rightarrow> hart option" where
  "sbi_hsm_hart_wait h =
     (let saved_mie = csr_mie h; h = h\<lparr>csr_mie := csr_mie h OR 0x808\<rparr> in
      if hd_state (hdata h) \<noteq> SBI_HSM_STATE_START_PENDING then None
      else Some (h\<lparr>csr_mie := saved_mie\<rparr>))"

section \<open>The device\<close>

definition sbi_hsm_set_device :: "sbi_hsm_device option \<Rightarrow> hsm_system \<Rightarrow> hsm_system" where
  "sbi_hsm_set_device dev sys = (if dev = None \<or> hsm_dev sys \<noteq> None then sys else sys\<lparr>hsm_dev := dev\<rparr>)"

definition hsm_device_has_hart_hotplug :: "hsm_system \<Rightarrow> bool" where
  "hsm_device_has_hart_hotplug sys =
     (case hsm_dev sys of None \<Rightarrow> False | Some d \<Rightarrow> dev_hart_start d \<noteq> None \<and> dev_hart_stop d \<noteq> None)"

definition hsm_device_has_hart_secondary_boot :: "hsm_system \<Rightarrow> bool" where
  "hsm_device_has_hart_secondary_boot sys =
     (case hsm_dev sys of None \<Rightarrow> False | Some d \<Rightarrow> dev_hart_start d \<noteq> None \<and> dev_hart_stop d = None)"

definition hsm_device_hart_start :: "hsm_system \<Rightarrow> u32 \<Rightarrow> u64 \<Rightarrow> int" where
  "hsm_device_hart_start sys hartid saddr =
     (case hsm_dev sys of
        None \<Rightarrow> SBI_ENOTSUPP
      | Some d \<Rightarrow> (case dev_hart_start d of None \<Rightarrow> SBI_ENOTSUPP | Some f \<Rightarrow> f hartid saddr))"

definition hsm_device_hart_stop :: "hsm_system \<Rightarrow> dev_result" where
  "hsm_device_hart_stop sys =
     (case hsm_dev sys of
        None \<Rightarrow> Returned SBI_ENOTSUPP
      | Some d \<Rightarrow> (case dev_hart_stop d of None \<Rightarrow> Returned SBI_ENOTSUPP | Some r \<Rightarrow> r))"

definition hsm_device_hart_suspend :: "hsm_system \<Rightarrow> u32 \<Rightarrow> u64 \<Rightarrow> dev_result" where
  "hsm_device_hart_suspend sys stype addr =
     (case hsm_dev sys of
        None \<Rightarrow> Returned SBI_ENOTSUPP
      | Some d \<Rightarrow> (case dev_hart_suspend d of None \<Rightarrow> Returned SBI_ENOTSUPP | Some f \<Rightarrow> f stype addr))"

section \<open>Start and stop\<close>

definition upd_hart :: "nat \<Rightarrow> hart \<Rightarrow> hsm_system \<Rightarrow> hsm_system" where
  "upd_hart i h sys = sys\<lparr>harts := (harts sys)(i := h)\<rparr>"

definition init_hart :: "bool \<Rightarrow> hart \<Rightarrow> hart" where
  "init_hart boot h =
     h\<lparr>hdata := (hdata h)\<lparr>hd_state := (if boot then SBI_HSM_STATE_START_PENDING else SBI_HSM_STATE_STOPPED),
                          start_ticket := 0\<rparr>\<rparr>"

text \<open>
  \<open>sbi_hsm_init\<close> on hart \<open>me\<close>: on a cold boot \<open>offset_ok\<close> is the outcome of the
  scratch allocation; on a warm boot the hart waits, \<open>None\<close> as long as it does.
\<close>

definition sbi_hsm_init :: "scratch_state \<Rightarrow> nat \<Rightarrow> bool \<Rightarrow> bool \<Rightarrow> hsm_system \<Rightarrow> (int \<times> hsm_system) option" where
  "sbi_hsm_init sst me cold_boot offset_ok sys =
     (if cold_boot then
        if \<not> offset_ok then Some (SBI_ENOMEM, sys)
        else Some (0, fold (\<lambda>i sys. if sbi_hartindex_to_scratch sst i = None then sys
                                    else upd_hart i (init_hart (i = me) (harts sys i)) sys)
                        [0..<Suc (last_hartindex_having_scratch sst)] sys)
      else map_option (\<lambda>h. (0, upd_hart me h sys)) (sbi_hsm_hart_wait (harts sys me)))"

definition sbi_hsm_exit :: "hsm_system \<Rightarrow> hart \<Rightarrow> ctl \<times> hart" where
  "sbi_hsm_exit sys h =
     (case sbi_hsm_hart_change_state SBI_HSM_STATE_STOP_PENDING SBI_HSM_STATE_STOPPED h of
        (ok, h) \<Rightarrow>
          if \<not> ok then (Hang, h)
          else if hsm_device_has_hart_hotplug sys then
            (case hsm_device_hart_stop sys of
               Gone \<Rightarrow> (Off, h)
             | Returned rc \<Rightarrow> if rc \<noteq> SBI_ENOTSUPP then (Hang, h) else (Warmboot, h))
          else (Warmboot, h))"

text \<open>How \<open>sbi_hsm_hart_start\<close> wakes the target: \<open>ipi_raw_send\<close> is \<open>sbi_ipi_raw_send\<close>.\<close>

definition start_notify ::
  "(nat \<Rightarrow> int) \<Rightarrow> hsm_system \<Rightarrow> u64 \<Rightarrow> u32 \<Rightarrow> nat \<Rightarrow> u64 \<Rightarrow> u64 \<Rightarrow> int" where
  "start_notify ipi_raw_send sys warmboot hartid hartindex icount ecount =
     (if hsm_device_has_hart_hotplug sys \<and> ecount = icount \<or> hsm_device_has_hart_secondary_boot sys \<and> icount = 0
      then hsm_device_hart_start sys hartid warmboot
      else ipi_raw_send hartindex)"

definition sbi_hsm_hart_start ::
  "(nat \<Rightarrow> int) \<Rightarrow> scratch_state \<Rightarrow> u64 \<Rightarrow> sbi_domain option \<Rightarrow> u32 \<Rightarrow> u64 \<Rightarrow> u64 \<Rightarrow> u64 \<Rightarrow> hsm_system \<Rightarrow>
   int \<times> hsm_system" where
  "sbi_hsm_hart_start ipi_raw_send sst warmboot dm hartid saddr smode arg1 sys =
     (let hartindex = sbi_hartid_to_hartindex sst hartid in
      if smode \<noteq> PRV_S \<and> smode \<noteq> PRV_U then (SBI_EINVAL, sys)
      else if dm \<noteq> None \<and> \<not> sbi_domain_is_assigned_hart dm hartindex then (SBI_EINVAL, sys)
      else if dm \<noteq> None \<and> \<not> sbi_domain_check_addr dm saddr smode SBI_DOMAIN_EXECUTE then (SBI_EINVALID_ADDR, sys)
      else if sbi_hartindex_to_scratch sst hartindex = None then (SBI_EINVAL, sys)
      else (case hsm_start_ticket_acquire (harts sys hartindex) of
         (got, h) \<Rightarrow>
           if \<not> got then (SBI_EINVAL, sys)
           else (case hd_cmpxchg SBI_HSM_STATE_STOPPED SBI_HSM_STATE_START_PENDING (set_next arg1 saddr smode h) of
              (hstate, h') \<Rightarrow>
                if hstate = SBI_HSM_STATE_STARTED
                then (SBI_EALREADY, upd_hart hartindex (hsm_start_ticket_release h') sys)
                else if hstate \<noteq> SBI_HSM_STATE_STOPPED
                then (SBI_EINVAL, upd_hart hartindex (hsm_start_ticket_release h') sys)
                else let rc = start_notify ipi_raw_send sys warmboot hartid hartindex (init_count h) (entry_count h) in
                  if rc = 0 then (0, upd_hart hartindex h' sys)
                  else (rc, upd_hart hartindex
                         (hsm_start_ticket_release
                           (snd (sbi_hsm_hart_change_state SBI_HSM_STATE_START_PENDING SBI_HSM_STATE_STOPPED h'))) sys))))"

definition sbi_hsm_hart_stop :: "sbi_domain option \<Rightarrow> bool \<Rightarrow> hart \<Rightarrow> ctl \<times> hart" where
  "sbi_hsm_hart_stop dm exitnow h =
     (if dm = None then (Return SBI_EFAIL, h)
      else (case sbi_hsm_hart_change_state SBI_HSM_STATE_STARTED SBI_HSM_STATE_STOP_PENDING h of
         (ok, h) \<Rightarrow>
           if \<not> ok then (Return SBI_EFAIL, h)
           else if exitnow then (Sbi_exit, h)
           else (Return 0, h)))"

section \<open>Suspend and resume\<close>

definition suspend_non_ret_save :: "hart \<Rightarrow> hart" where
  "suspend_non_ret_save h =
     (let d = (hdata h)\<lparr>saved_mie := csr_mie h, saved_mip := csr_mip h AND (MIP_SSIP OR MIP_STIP),
                        saved_medeleg := csr_medeleg h\<rparr>
      in h\<lparr>hdata := (if priv_1_12 h then d\<lparr>saved_menvcfg := csr_menvcfg h\<rparr> else d)\<rparr>)"

definition suspend_non_ret_restore :: "hart \<Rightarrow> hart" where
  "suspend_non_ret_restore h =
     (let h = (if priv_1_12 h then h\<lparr>csr_menvcfg := saved_menvcfg (hdata h)\<rparr> else h)
      in h\<lparr>csr_medeleg := saved_medeleg (hdata h), csr_mie := saved_mie (hdata h),
           csr_mip := csr_mip h OR (saved_mip (hdata h) AND (MIP_SSIP OR MIP_STIP))\<rparr>)"

text \<open>The platform's \<open>hart_resume\<close> hook has no effect on the modelled state.\<close>

definition sbi_hsm_hart_resume_start :: "hart \<Rightarrow> ctl \<times> hart" where
  "sbi_hsm_hart_resume_start h =
     (case sbi_hsm_hart_change_state SBI_HSM_STATE_SUSPENDED SBI_HSM_STATE_RESUME_PENDING h of
        (ok, h) \<Rightarrow> if \<not> ok then (Hang, h) else (Return 0, h))"

definition sbi_hsm_hart_resume_finish :: "u32 \<Rightarrow> hart \<Rightarrow> ctl \<times> hart" where
  "sbi_hsm_hart_resume_finish hartid h =
     (case sbi_hsm_hart_change_state SBI_HSM_STATE_RESUME_PENDING SBI_HSM_STATE_STARTED h of
        (ok, h) \<Rightarrow>
          if \<not> ok then (Hang, h)
          else (Switch_mode hartid (sc_next_arg1 h) (sc_next_addr h) (sc_next_mode h), suspend_non_ret_restore h))"

definition suspend_type_ok :: "u32 \<Rightarrow> bool" where
  "suspend_type_ok stype =
     (if SBI_HSM_SUSPEND_RET_DEFAULT < stype \<and> stype < SBI_HSM_SUSPEND_RET_PLATFORM then False
      else if SBI_HSM_SUSPEND_NON_RET_DEFAULT < stype \<and> stype < SBI_HSM_SUSPEND_NON_RET_PLATFORM then False
      else True)"

definition sbi_hsm_hart_suspend ::
  "hsm_system \<Rightarrow> sbi_domain option \<Rightarrow> u32 \<Rightarrow> u64 \<Rightarrow> u64 \<Rightarrow> u64 \<Rightarrow> hart \<Rightarrow> ctl \<times> hart" where
  "sbi_hsm_hart_suspend sys dm stype raddr rmode arg1 h =
     (if dm = None then (Return SBI_EFAIL, h)
      else if \<not> suspend_type_ok stype then (Return SBI_EINVAL, h)
      else
        let non_ret = (stype AND SBI_HSM_SUSP_NON_RET_BIT \<noteq> 0) in
        if non_ret \<and> rmode \<noteq> PRV_S \<and> rmode \<noteq> PRV_U then (Return SBI_EFAIL, h)
        else if non_ret \<and> \<not> sbi_domain_check_addr dm raddr rmode SBI_DOMAIN_EXECUTE then (Return SBI_EINVALID_ADDR, h)
        else (case sbi_hsm_hart_change_state SBI_HSM_STATE_STARTED SBI_HSM_STATE_SUSPENDED (set_next arg1 raddr rmode h) of
           (ok, h) \<Rightarrow>
             if \<not> ok then (Return SBI_EFAIL, h)
             else
               let h = h\<lparr>hdata := (hdata h)\<lparr>suspend_type := stype\<rparr>\<rparr>;
                   h = (if non_ret then suspend_non_ret_save h else h)
               in (case hsm_device_hart_suspend sys stype (sc_warmboot_addr h) of
                     Gone \<Rightarrow> (Off, h)
                   | Returned ret \<Rightarrow>
                       let ret = (if ret = SBI_ENOTSUPP \<and>
                                     (stype = SBI_HSM_SUSPEND_RET_DEFAULT \<or> stype = SBI_HSM_SUSPEND_NON_RET_DEFAULT)
                                  then 0 else ret)
                       in if ret = 0 \<and> non_ret then (Warmboot, h)
                          else (case sbi_hsm_hart_change_state SBI_HSM_STATE_SUSPENDED SBI_HSM_STATE_STARTED h of
                                  (ok, h) \<Rightarrow> if \<not> ok then (Hang, h) else (Return ret, h)))))"

section \<open>The functions one by one\<close>

lemmas hsm_defs =
  sbi_hsm_hart_change_state_def hd_cmpxchg_def hsm_start_ticket_acquire_def hsm_start_ticket_release_def
  set_next_def upd_hart_def

text \<open>The guards of a start request, up to the ticket.\<close>

definition start_allowed :: "scratch_state \<Rightarrow> sbi_domain option \<Rightarrow> u32 \<Rightarrow> u64 \<Rightarrow> u64 \<Rightarrow> bool" where
  "start_allowed sst dm hartid saddr smode \<longleftrightarrow>
     (smode = PRV_S \<or> smode = PRV_U) \<and>
     (dm \<noteq> None \<longrightarrow> sbi_domain_is_assigned_hart dm (sbi_hartid_to_hartindex sst hartid) \<and>
        sbi_domain_check_addr dm saddr smode SBI_DOMAIN_EXECUTE) \<and>
     sbi_hartindex_to_scratch sst (sbi_hartid_to_hartindex sst hartid) \<noteq> None"

text \<open>
  A start request on its own.  It succeeds exactly when its arguments are allowed, no other
  request holds the target's ticket, the target is stopped and waking it succeeds; the target is
  then start pending with the given entry point, and its ticket stays taken until it has read
  it.  A request that fails leaves the state and the ticket of every hart as they were, and never
  touches another hart.
\<close>

lemma sbi_hsm_hart_start_correct:
  assumes "start_ticket (hdata (harts sys i)) \<in> {0, 1}"
    and i: "i = sbi_hartid_to_hartindex sst hartid"
    and "sbi_hsm_hart_start ipi sst wb dm hartid saddr smode arg1 sys = (rc, sys')"
  shows "(rc = 0 \<longleftrightarrow> start_allowed sst dm hartid saddr smode \<and> start_ticket (hdata (harts sys i)) = 0 \<and>
        hd_state (hdata (harts sys i)) = SBI_HSM_STATE_STOPPED \<and>
        start_notify ipi sys wb hartid i (init_count (harts sys i)) (entry_count (harts sys i)) = 0) \<and>
    (\<forall>j. j \<noteq> i \<longrightarrow> harts sys' j = harts sys j) \<and>
    (if rc = 0
     then harts sys' i = set_next arg1 saddr smode
            ((harts sys i)\<lparr>hdata := (hdata (harts sys i))\<lparr>hd_state := SBI_HSM_STATE_START_PENDING, start_ticket := 1\<rparr>\<rparr>)
     else hdata (harts sys' i) = hdata (harts sys i))"
proof (cases "start_allowed sst dm hartid saddr smode")
  case False
  then have "sys' = sys" "rc \<noteq> 0"
    using assms(3) unfolding sbi_hsm_hart_start_def Let_def start_allowed_def
    by (auto simp: sbi_errors split: if_splits)
  then show ?thesis using False by simp
next
  case True
  then have guards: "sbi_hsm_hart_start ipi sst wb dm hartid saddr smode arg1 sys =
     (case hsm_start_ticket_acquire (harts sys i) of
         (got, h) \<Rightarrow>
           if \<not> got then (SBI_EINVAL, sys)
           else (case hd_cmpxchg SBI_HSM_STATE_STOPPED SBI_HSM_STATE_START_PENDING (set_next arg1 saddr smode h) of
              (hstate, h') \<Rightarrow>
                if hstate = SBI_HSM_STATE_STARTED
                then (SBI_EALREADY, upd_hart i (hsm_start_ticket_release h') sys)
                else if hstate \<noteq> SBI_HSM_STATE_STOPPED
                then (SBI_EINVAL, upd_hart i (hsm_start_ticket_release h') sys)
                else let rc = start_notify ipi sys wb hartid i (init_count h) (entry_count h) in
                  if rc = 0 then (0, upd_hart i h' sys)
                  else (rc, upd_hart i
                         (hsm_start_ticket_release
                           (snd (sbi_hsm_hart_change_state SBI_HSM_STATE_START_PENDING SBI_HSM_STATE_STOPPED h'))) sys)))"
    unfolding sbi_hsm_hart_start_def Let_def start_allowed_def i by auto
  show ?thesis
    using assms(1,3) True unfolding guards
    by (auto simp: hsm_defs sbi_errors hsm_states Let_def split: if_splits)
qed

text \<open>
  A start request that is refused because the target is suspended has already replaced the
  target's resume address: when the target resumes, it runs at the address of the refused request.
\<close>

lemma refused_start_redirects_resume:
  assumes "start_allowed sst dm hartid saddr smode" and i: "i = sbi_hartid_to_hartindex sst hartid"
    and "start_ticket (hdata (harts sys i)) = 0" "hd_state (hdata (harts sys i)) = SBI_HSM_STATE_SUSPENDED"
    and "sbi_hsm_hart_start ipi sst wb dm hartid saddr smode arg1 sys = (rc, sys')"
    and "sbi_hsm_hart_resume_start (harts sys' i) = (c1, h1)"
    and "sbi_hsm_hart_resume_finish hid h1 = (c2, h2)"
  shows "rc = SBI_EINVAL \<and> c1 = Return 0 \<and> c2 = Switch_mode hid arg1 saddr smode"
  using assms
  by (auto simp: sbi_hsm_hart_start_def start_allowed_def hsm_defs hsm_states Let_def
      sbi_hsm_hart_resume_start_def sbi_hsm_hart_resume_finish_def split: if_splits)

text \<open>
  C30: a non-retentive suspend and the resume that follows it.  The hart comes back at the address
  and in the mode it asked for, in state started, with the interrupt enables, the exception
  delegation and the environment configuration it had, and with its supervisor software and
  timer interrupts pending again, whatever the warm boot left in these registers.
\<close>

theorem suspend_resume_restores:
  assumes "sbi_hsm_hart_suspend sys dm stype raddr rmode arg1 h = (c, h1)" "c = Off \<or> c = Warmboot"
    and "stype AND SBI_HSM_SUSP_NON_RET_BIT \<noteq> 0"
    and "sbi_hsm_hart_resume_start (h1\<lparr>csr_mie := x1, csr_mip := x2, csr_medeleg := x3, csr_menvcfg := x4\<rparr>) = (c2, h2)"
    and "sbi_hsm_hart_resume_finish hid h2 = (c3, h3)"
  shows "hd_state (hdata h) = SBI_HSM_STATE_STARTED \<and> c2 = Return 0 \<and> c3 = Switch_mode hid arg1 raddr rmode \<and>
    hd_state (hdata h3) = SBI_HSM_STATE_STARTED \<and> csr_mie h3 = csr_mie h \<and> csr_medeleg h3 = csr_medeleg h \<and>
    (priv_1_12 h \<longrightarrow> csr_menvcfg h3 = csr_menvcfg h) \<and>
    csr_mip h3 = x2 OR (csr_mip h AND (MIP_SSIP OR MIP_STIP))"
proof -
  have "hd_state (hdata h) = SBI_HSM_STATE_STARTED \<and>
      h1 = suspend_non_ret_save ((set_next arg1 raddr rmode h)
        \<lparr>hdata := (hdata h)\<lparr>hd_state := SBI_HSM_STATE_SUSPENDED, suspend_type := stype\<rparr>\<rparr>)"
    using assms(1-3)
    by (auto simp: sbi_hsm_hart_suspend_def hsm_defs Let_def split: if_splits dev_result.splits prod.splits)
  then show ?thesis
    using assms(4,5)
    by (auto simp: suspend_non_ret_save_def suspend_non_ret_restore_def sbi_hsm_hart_resume_start_def
        sbi_hsm_hart_resume_finish_def hsm_defs hsm_states Let_def and.assoc split: if_splits)
qed

text \<open>
  The harts that may be interrupted are the harts assigned to the domain that are started,
  suspended or about to resume.
\<close>

lemma interruptible_mask_set:
  assumes "wf_mask (assigned_harts d)"
  shows "hart_set (sbi_hsm_hart_interruptible_mask sst sys (Some d)) =
      {i \<in> hart_set (assigned_harts d). interruptible (get_state' sst sys i)}"
    and "wf_mask (sbi_hsm_hart_interruptible_mask sst sys (Some d))"
  using hm.fold_remove_elems [OF assms, of "\<lambda>i. interruptible (get_state' sst sys i)" "sbi_hartmask_harts (assigned_harts d)"]
  by (auto simp: sbi_hsm_hart_interruptible_mask_def sbi_domain_get_assigned_hartmask_def Let_def hm.walk_elems)

section \<open>A small machine\<close>

definition demo_hart :: "int \<Rightarrow> hart" where
  "demo_hart st = \<lparr>hdata = \<lparr>hd_state = st, suspend_type = 0, saved_mie = 0, saved_mip = 0, saved_medeleg = 0,
      saved_menvcfg = 0, start_ticket = 0\<rparr>,
     sc_next_arg1 = 0, sc_next_addr = 0, sc_next_mode = 0, sc_warmboot_addr = 0x80000000, csr_mie = 0x222,
     csr_mip = 0x20, csr_medeleg = 0xb109, csr_menvcfg = 0, priv_1_12 = True, init_count = 1, entry_count = 1\<rparr>"

definition demo_sys :: "int \<Rightarrow> hsm_system" where
  "demo_sys st = \<lparr>harts = (\<lambda>_. demo_hart st), hsm_dev = None\<rparr>"

lemma demo_hart_fields [simp]:
  "hd_state (hdata (demo_hart st)) = st" "start_ticket (hdata (demo_hart st)) = 0"
  "harts (demo_sys st) i = demo_hart st" "hsm_dev (demo_sys st) = None"
  by (simp_all add: demo_hart_def demo_sys_def)

lemma demo_index: "sbi_hartid_to_hartindex demo_sst 7 = 0" "sbi_hartindex_to_scratch demo_sst 0 \<noteq> None"
  by (simp_all add: sbi_hartid_to_hartindex_def sbi_hartindex_to_scratch_def demo_sst_def demo_scratch_def)

lemma demo_start_allowed: "start_allowed demo_sst None 7 0x80200000 PRV_S"
  using demo_index by (simp add: start_allowed_def)

theorem suspend_resume_restores_witness:
  "csr_mie (snd (sbi_hsm_hart_resume_finish 3 (snd (sbi_hsm_hart_resume_start
     ((snd (sbi_hsm_hart_suspend (demo_sys 0) (Some demo_dom) 0x80000000 0x80200000 PRV_S 5 (demo_hart 0)))
       \<lparr>csr_mie := 0, csr_mip := 0, csr_medeleg := 0, csr_menvcfg := 0\<rparr>))))) = 0x222"
proof -
  have c: "fst (sbi_hsm_hart_suspend (demo_sys 0) (Some demo_dom) 0x80000000 0x80200000 PRV_S 5 (demo_hart 0)) = Warmboot"
    by code_simp
  have "(0x80000000 :: u32) AND SBI_HSM_SUSP_NON_RET_BIT \<noteq> 0" by code_simp
  obtain h1 where h1: "sbi_hsm_hart_suspend (demo_sys 0) (Some demo_dom) 0x80000000 0x80200000 PRV_S 5 (demo_hart 0) = (Warmboot, h1)"
    using c by (metis prod.collapse)
  obtain c2 h2 where r2: "sbi_hsm_hart_resume_start (h1\<lparr>csr_mie := 0, csr_mip := 0, csr_medeleg := 0, csr_menvcfg := 0\<rparr>) = (c2, h2)"
    by force
  obtain c3 h3 where r3: "sbi_hsm_hart_resume_finish 3 h2 = (c3, h3)" by force
  have "csr_mie h3 = csr_mie (demo_hart 0)"
    using suspend_resume_restores [OF h1 _ _ r2 r3] \<open>0x80000000 AND SBI_HSM_SUSP_NON_RET_BIT \<noteq> 0\<close> by simp
  then show ?thesis using h1 r2 r3 by (simp add: demo_hart_def)
qed

end
