(* ===== verification/SbiHsmStart.thy ===== *)
theory SbiHsmStart
  imports SbiHsm
begin

text \<open>
  Several harts that start the same target at once (\<open>lib/sbi/sbi_hsm.c\<close>, \<open>sbi_hsm_hart_start\<close>
  and the target's way through \<open>sbi_hsm_hart_wait\<close> and \<open>sbi_hsm_hart_start_finish\<close>): a
  step relation whose atomic actions are the functions of the theory of the module, its
  invariant, and what follows from it.
\<close>

section \<open>Several harts starting one target\<close>

text \<open>
  The atomic actions of \<open>sbi_hsm_hart_start\<close> on any number of callers (numbered), and of the
  target's own path through \<open>sbi_hsm_hart_wait\<close>, \<open>sbi_hsm_hart_start_finish\<close>,
  \<open>sbi_hsm_hart_stop\<close> and \<open>sbi_hsm_exit\<close>, in any order.  Waking the target succeeds
  (\<open>notify\<close>), and the target does not suspend itself.  \<open>claimed\<close> records the entry point of
  the last request whose compare-and-exchange succeeded; the code has no such variable.
\<close>

text \<open>The argument, the address and the mode of a start request.\<close>

datatype entry = Entry u64 u64 u64

datatype start_pc = Idle | Acquired entry | Written entry | Claimed entry | Failed int | Finished int

datatype target_pc = Waiting | Booting | Finishing | Loaded entry | Launched entry | Stopping

record start_proto =
  tgt :: hart
  caller :: "nat \<Rightarrow> start_pc"
  tpc :: target_pc
  claimed :: "entry option"

definition next_entry :: "hart \<Rightarrow> entry" where
  "next_entry h = Entry (sc_next_arg1 h) (sc_next_addr h) (sc_next_mode h)"

definition set_entry :: "entry \<Rightarrow> hart \<Rightarrow> hart" where
  "set_entry e h = (case e of Entry arg1 addr mode \<Rightarrow> set_next arg1 addr mode h)"

definition set_pc :: "nat \<Rightarrow> start_pc \<Rightarrow> start_proto \<Rightarrow> start_proto" where
  "set_pc c pc s = s\<lparr>caller := (caller s)(c := pc)\<rparr>"

inductive hsm_step :: "start_proto \<Rightarrow> start_proto \<Rightarrow> bool" where
  acquire: "caller s c = Idle \<Longrightarrow> hsm_start_ticket_acquire (tgt s) = (True, h) \<Longrightarrow>
    hsm_step s (set_pc c (Acquired e) (s\<lparr>tgt := h\<rparr>))"
| busy: "caller s c = Idle \<Longrightarrow> hsm_start_ticket_acquire (tgt s) = (False, h) \<Longrightarrow>
    hsm_step s (set_pc c (Finished SBI_EINVAL) s)"
| store: "caller s c = Acquired e \<Longrightarrow>
    hsm_step s (set_pc c (Written e) (s\<lparr>tgt := set_entry e (tgt s)\<rparr>))"
| claim: "caller s c = Written e \<Longrightarrow>
    hd_cmpxchg SBI_HSM_STATE_STOPPED SBI_HSM_STATE_START_PENDING (tgt s) = (SBI_HSM_STATE_STOPPED, h) \<Longrightarrow>
    hsm_step s (set_pc c (Claimed e) (s\<lparr>tgt := h, claimed := Some e\<rparr>))"
| refuse: "caller s c = Written e \<Longrightarrow>
    hd_cmpxchg SBI_HSM_STATE_STOPPED SBI_HSM_STATE_START_PENDING (tgt s) = (hstate, h) \<Longrightarrow>
    hstate \<noteq> SBI_HSM_STATE_STOPPED \<Longrightarrow>
    hsm_step s (set_pc c (Failed (if hstate = SBI_HSM_STATE_STARTED then SBI_EALREADY else SBI_EINVAL)) s)"
| notify: "caller s c = Claimed e \<Longrightarrow> hsm_step s (set_pc c (Finished 0) s)"
| release: "caller s c = Failed rc \<Longrightarrow>
    hsm_step s (set_pc c (Finished rc) (s\<lparr>tgt := hsm_start_ticket_release (tgt s)\<rparr>))"
| again: "caller s c = Finished rc \<Longrightarrow> hsm_step s (set_pc c Idle s)"
| boot: "tpc s = Waiting \<Longrightarrow> sbi_hsm_hart_wait (tgt s) = Some h \<Longrightarrow>
    hsm_step s (s\<lparr>tgt := h, tpc := Booting\<rparr>)"
| finish: "tpc s = Booting \<Longrightarrow>
    sbi_hsm_hart_change_state SBI_HSM_STATE_START_PENDING SBI_HSM_STATE_STARTED (tgt s) = (True, h) \<Longrightarrow>
    hsm_step s (s\<lparr>tgt := h, tpc := Finishing\<rparr>)"
| load: "tpc s = Finishing \<Longrightarrow> hsm_step s (s\<lparr>tpc := Loaded (next_entry (tgt s))\<rparr>)"
| launch: "tpc s = Loaded e \<Longrightarrow>
    hsm_step s (s\<lparr>tgt := hsm_start_ticket_release (tgt s), tpc := Launched e\<rparr>)"
| stop: "tpc s = Launched e \<Longrightarrow>
    sbi_hsm_hart_change_state SBI_HSM_STATE_STARTED SBI_HSM_STATE_STOP_PENDING (tgt s) = (True, h) \<Longrightarrow>
    hsm_step s (s\<lparr>tgt := h, tpc := Stopping\<rparr>)"
| exit: "tpc s = Stopping \<Longrightarrow>
    sbi_hsm_hart_change_state SBI_HSM_STATE_STOP_PENDING SBI_HSM_STATE_STOPPED (tgt s) = (True, h) \<Longrightarrow>
    hsm_step s (s\<lparr>tgt := h, tpc := Waiting\<rparr>)"

inductive hsm_reachable :: "start_proto \<Rightarrow> bool" where
  init: "hd_state (hdata h) = SBI_HSM_STATE_STOPPED \<Longrightarrow> start_ticket (hdata h) = 0 \<Longrightarrow>
    hsm_reachable \<lparr>tgt = h, caller = (\<lambda>_. Idle), tpc = Waiting, claimed = None\<rparr>"
| step: "hsm_reachable s \<Longrightarrow> hsm_step s s' \<Longrightarrow> hsm_reachable s'"

inductive_cases hsm_stepE: "hsm_step s s'"

section \<open>The invariant\<close>

text \<open>The callers that hold the ticket, and the time the target holds it.\<close>

definition owns :: "start_pc \<Rightarrow> bool" where
  "owns pc \<longleftrightarrow> (case pc of Acquired _ \<Rightarrow> True | Written _ \<Rightarrow> True | Failed _ \<Rightarrow> True | _ \<Rightarrow> False)"

lemma owns_simps [simp]:
  "\<not> owns Idle" "owns (Acquired e)" "owns (Written e)" "\<not> owns (Claimed e)" "owns (Failed rc)" "\<not> owns (Finished rc)"
  by (simp_all add: owns_def)

definition pending :: "target_pc \<Rightarrow> int \<Rightarrow> bool" where
  "pending pc st \<longleftrightarrow> st = SBI_HSM_STATE_START_PENDING \<or> pc = Finishing \<or> (\<exists>e. pc = Loaded e)"

definition state_of_pc :: "target_pc \<Rightarrow> int \<Rightarrow> bool" where
  "state_of_pc pc st =
     (case pc of
        Waiting \<Rightarrow> st = SBI_HSM_STATE_STOPPED \<or> st = SBI_HSM_STATE_START_PENDING
      | Booting \<Rightarrow> st = SBI_HSM_STATE_START_PENDING
      | Finishing \<Rightarrow> st = SBI_HSM_STATE_STARTED
      | Loaded _ \<Rightarrow> st = SBI_HSM_STATE_STARTED
      | Launched _ \<Rightarrow> st = SBI_HSM_STATE_STARTED
      | Stopping \<Rightarrow> st = SBI_HSM_STATE_STOP_PENDING)"

lemma state_of_pc_STOPPED: "state_of_pc pc SBI_HSM_STATE_STOPPED \<Longrightarrow> pc = Waiting"
  by (auto simp: state_of_pc_def hsm_states split: target_pc.splits)

text \<open>Over the callers, the target, the ghost, and the state, the ticket and the entry in memory.\<close>

definition start_ok ::
  "(nat \<Rightarrow> start_pc) \<Rightarrow> target_pc \<Rightarrow> entry option \<Rightarrow> int \<Rightarrow> int \<Rightarrow> entry \<Rightarrow> bool" where
  "start_ok cal pc cl st tk ne \<longleftrightarrow>
     state_of_pc pc st \<and>
     (tk = 0 \<longrightarrow> (\<forall>c. \<not> owns (cal c)) \<and> \<not> pending pc st) \<and>
     (\<forall>c d. owns (cal c) \<and> owns (cal d) \<longrightarrow> c = d) \<and>
     (\<forall>c. owns (cal c) \<longrightarrow> \<not> pending pc st) \<and>
     (\<forall>c e. cal c = Written e \<longrightarrow> ne = e) \<and>
     (pending pc st \<longrightarrow> cl = Some ne) \<and>
     (\<forall>e. pc = Loaded e \<or> pc = Launched e \<longrightarrow> cl = Some e)"

definition hsm_inv :: "start_proto \<Rightarrow> bool" where
  "hsm_inv s \<longleftrightarrow>
     start_ok (caller s) (tpc s) (claimed s) (hd_state (hdata (tgt s))) (start_ticket (hdata (tgt s))) (next_entry (tgt s))"

text \<open>What it means for a caller to own the ticket.\<close>

lemma start_ok_owner:
  assumes "start_ok cal pc cl st tk ne" "owns (cal c)"
  shows "tk \<noteq> 0" "\<not> pending pc st" "d \<noteq> c \<Longrightarrow> \<not> owns (cal d)" "d \<noteq> c \<Longrightarrow> cal d \<noteq> Written e"
  using assms unfolding start_ok_def by auto

lemma start_ok_acquire:
  "start_ok cal pc cl st 0 ne \<Longrightarrow> start_ok (cal(c := Acquired e)) pc cl st 1 ne"
  unfolding start_ok_def by (auto split: if_splits)

lemma start_ok_passive:
  "start_ok cal pc cl st tk ne \<Longrightarrow> \<not> owns pc' \<Longrightarrow> start_ok (cal(c := pc')) pc cl st tk ne"
  unfolding start_ok_def by (auto split: if_splits)

lemma start_ok_store:
  assumes "start_ok cal pc cl st tk ne" "cal c = Acquired e"
  shows "start_ok (cal(c := Written e)) pc cl st tk e"
  using assms start_ok_owner [OF assms(1), of c] unfolding start_ok_def by (auto split: if_splits)

lemma start_ok_refuse:
  assumes "start_ok cal pc cl st tk ne" "cal c = Written e"
  shows "start_ok (cal(c := Failed rc)) pc cl st tk ne"
  using assms start_ok_owner [OF assms(1), of c] unfolding start_ok_def by (auto split: if_splits)

lemma start_ok_claim:
  assumes "start_ok cal pc cl SBI_HSM_STATE_STOPPED tk ne" "cal c = Written e"
  shows "start_ok (cal(c := Claimed e)) pc (Some e) SBI_HSM_STATE_START_PENDING tk ne"
proof -
  have "pc = Waiting" "ne = e" using assms state_of_pc_STOPPED by (auto simp: start_ok_def)
  moreover note start_ok_owner [OF assms(1), of c]
  ultimately show ?thesis
    using assms(2) unfolding start_ok_def by (auto simp: state_of_pc_def pending_def split: if_splits)
qed

lemma start_ok_release:
  assumes "start_ok cal pc cl st tk ne" "cal c = Failed rc"
  shows "start_ok (cal(c := Finished rc)) pc cl st 0 ne"
  using assms start_ok_owner [OF assms(1), of c] unfolding start_ok_def by (auto split: if_splits)

text \<open>The target's own steps.\<close>

lemma start_ok_boot:
  "start_ok cal Waiting cl SBI_HSM_STATE_START_PENDING tk ne \<Longrightarrow> start_ok cal Booting cl SBI_HSM_STATE_START_PENDING tk ne"
  by (auto simp: start_ok_def state_of_pc_def pending_def)

lemma start_ok_finish:
  "start_ok cal Booting cl SBI_HSM_STATE_START_PENDING tk ne \<Longrightarrow> start_ok cal Finishing cl SBI_HSM_STATE_STARTED tk ne"
  by (auto simp: start_ok_def state_of_pc_def pending_def)

lemma start_ok_load: "start_ok cal Finishing cl st tk ne \<Longrightarrow> start_ok cal (Loaded ne) cl st tk ne"
  by (auto simp: start_ok_def state_of_pc_def pending_def)

lemma start_ok_launch: "start_ok cal (Loaded e) cl st tk ne \<Longrightarrow> start_ok cal (Launched e) cl st 0 ne"
  by (auto simp: start_ok_def state_of_pc_def pending_def hsm_states)

lemma start_ok_stop:
  "start_ok cal (Launched e) cl st tk ne \<Longrightarrow> start_ok cal Stopping cl SBI_HSM_STATE_STOP_PENDING tk ne"
  by (auto simp: start_ok_def state_of_pc_def pending_def hsm_states)

lemma start_ok_exit:
  "start_ok cal Stopping cl st tk ne \<Longrightarrow> start_ok cal Waiting cl SBI_HSM_STATE_STOPPED tk ne"
  by (auto simp: start_ok_def state_of_pc_def pending_def hsm_states)

lemmas start_ok_steps =
  start_ok_acquire start_ok_passive start_ok_store start_ok_refuse start_ok_claim start_ok_release
  start_ok_boot start_ok_finish start_ok_load start_ok_launch start_ok_stop start_ok_exit

text \<open>What the atomic actions do to the state, the ticket and the entry.\<close>

lemma next_entry_set [simp]: "next_entry (set_entry e h) = e" "hdata (set_entry e h) = hdata h"
  by (simp_all add: next_entry_def set_entry_def set_next_def split: entry.split)

lemma acquire_effect:
  assumes "hsm_start_ticket_acquire h = (True, h')"
  shows "start_ticket (hdata h) = 0" "start_ticket (hdata h') = 1" "hd_state (hdata h') = hd_state (hdata h)"
    "next_entry h' = next_entry h"
  using assms by (auto simp: hsm_start_ticket_acquire_def next_entry_def split: if_splits)

lemma cmpxchg_effect:
  assumes "hd_cmpxchg old new h = (old, h')"
  shows "hd_state (hdata h) = old" "hd_state (hdata h') = new" "start_ticket (hdata h') = start_ticket (hdata h)"
    "next_entry h' = next_entry h"
  using assms by (auto simp: hd_cmpxchg_def next_entry_def)

lemma change_state_effect:
  assumes "sbi_hsm_hart_change_state old new h = (True, h')"
  shows "hd_state (hdata h) = old" "hd_state (hdata h') = new" "start_ticket (hdata h') = start_ticket (hdata h)"
    "next_entry h' = next_entry h"
  using assms by (auto simp: sbi_hsm_hart_change_state_def hd_cmpxchg_def next_entry_def split: if_splits)

lemma release_effect [simp]:
  "start_ticket (hdata (hsm_start_ticket_release h)) = 0"
  "hd_state (hdata (hsm_start_ticket_release h)) = hd_state (hdata h)"
  "next_entry (hsm_start_ticket_release h) = next_entry h"
  by (simp_all add: hsm_start_ticket_release_def next_entry_def)

lemma wait_effect:
  assumes "sbi_hsm_hart_wait h = Some h'"
  shows "hdata h' = hdata h" "next_entry h' = next_entry h" "hd_state (hdata h) = SBI_HSM_STATE_START_PENDING"
  using assms by (auto simp: sbi_hsm_hart_wait_def next_entry_def split: if_splits)

lemma hsm_inv_step:
  assumes "hsm_step s s'" "hsm_inv s"
  shows "hsm_inv s'"
  using assms
proof (induction rule: hsm_step.induct)
  case (acquire s c h e)
  then show ?case using acquire_effect [OF acquire(2)] start_ok_acquire by (simp add: hsm_inv_def set_pc_def)
next
  case (busy s c h)
  then show ?case using start_ok_passive by (simp add: hsm_inv_def set_pc_def)
next
  case (store s c e)
  then show ?case using start_ok_store by (simp add: hsm_inv_def set_pc_def)
next
  case (claim s c e h)
  then show ?case using cmpxchg_effect [OF claim(2)] start_ok_claim by (simp add: hsm_inv_def set_pc_def)
next
  case (refuse s c e hstate h)
  then show ?case using start_ok_refuse by (simp add: hsm_inv_def set_pc_def)
next
  case (notify s c e)
  then show ?case using start_ok_passive by (simp add: hsm_inv_def set_pc_def)
next
  case (release s c rc)
  then show ?case using start_ok_release by (simp add: hsm_inv_def set_pc_def)
next
  case (again s c rc)
  then show ?case using start_ok_passive by (simp add: hsm_inv_def set_pc_def)
next
  case (boot s h)
  then show ?case using wait_effect [OF boot(2)] start_ok_boot by (simp add: hsm_inv_def)
next
  case (finish s h)
  then show ?case using change_state_effect [OF finish(2)] start_ok_finish by (simp add: hsm_inv_def)
next
  case (load s)
  then show ?case using start_ok_load by (simp add: hsm_inv_def)
next
  case (launch s e)
  then show ?case using start_ok_launch by (simp add: hsm_inv_def)
next
  case (stop s e h)
  then show ?case using change_state_effect [OF stop(2)] start_ok_stop by (simp add: hsm_inv_def)
next
  case (exit s h)
  then show ?case using change_state_effect [OF exit(2)] start_ok_exit by (simp add: hsm_inv_def)
qed

lemma hsm_reachable_inv: "hsm_reachable s \<Longrightarrow> hsm_inv s"
proof (induction rule: hsm_reachable.induct)
  case (init h)
  then show ?case by (simp add: hsm_inv_def start_ok_def state_of_pc_def pending_def hsm_states)
qed (rule hsm_inv_step)


section \<open>A run\<close>

definition demo_entry :: entry where "demo_entry = Entry 0 0x80200000 1"

lemma demo_run: "\<exists>s. hsm_reachable s \<and> tpc s = Launched demo_entry"
proof -
  let ?e = demo_entry
  let ?h0 = "demo_hart SBI_HSM_STATE_STOPPED"
  let ?s0 = "\<lparr>tgt = ?h0, caller = (\<lambda>_. Idle), tpc = Waiting, claimed = None\<rparr>"
  have r0: "hsm_reachable ?s0" by (rule hsm_reachable.init) (simp_all add: demo_hart_def)
  obtain h1 where h1: "hsm_start_ticket_acquire ?h0 = (True, h1)" "hd_state (hdata h1) = SBI_HSM_STATE_STOPPED"
    by (simp add: hsm_start_ticket_acquire_def demo_hart_def)
  let ?s1 = "set_pc 0 (Acquired ?e) (?s0\<lparr>tgt := h1\<rparr>)"
  have r1: "hsm_reachable ?s1" by (rule hsm_reachable.step [OF r0 hsm_step.acquire]) (simp_all add: h1)
  let ?s2 = "set_pc 0 (Written ?e) (?s1\<lparr>tgt := set_entry ?e (tgt ?s1)\<rparr>)"
  have r2: "hsm_reachable ?s2" by (rule hsm_reachable.step [OF r1 hsm_step.store]) (simp add: set_pc_def)
  have t2: "tgt ?s2 = set_entry ?e h1" by (simp add: set_pc_def)
  obtain h3 where h3: "hd_cmpxchg SBI_HSM_STATE_STOPPED SBI_HSM_STATE_START_PENDING (tgt ?s2) = (SBI_HSM_STATE_STOPPED, h3)"
    "hd_state (hdata h3) = SBI_HSM_STATE_START_PENDING" "next_entry h3 = ?e"
    unfolding t2 using h1(2) by (simp add: hd_cmpxchg_def) (simp add: next_entry_def set_entry_def demo_entry_def set_next_def)
  let ?s3 = "set_pc 0 (Claimed ?e) (?s2\<lparr>tgt := h3, claimed := Some ?e\<rparr>)"
  have r3: "hsm_reachable ?s3"
    by (rule hsm_reachable.step [OF r2 hsm_step.claim]) (simp add: set_pc_def, rule h3)
  obtain h4 where h4: "sbi_hsm_hart_wait (tgt ?s3) = Some h4" "hdata h4 = hdata h3" "next_entry h4 = ?e"
    using h3(2,3) by (simp add: sbi_hsm_hart_wait_def set_pc_def next_entry_def)
  let ?s4 = "?s3\<lparr>tgt := h4, tpc := Booting\<rparr>"
  have r4: "hsm_reachable ?s4"
    by (rule hsm_reachable.step [OF r3 hsm_step.boot]) (simp add: set_pc_def, rule h4)
  obtain h5 where h5: "sbi_hsm_hart_change_state SBI_HSM_STATE_START_PENDING SBI_HSM_STATE_STARTED (tgt ?s4) = (True, h5)"
    "next_entry h5 = ?e"
    using h4(2,3) h3(2) by (simp add: sbi_hsm_hart_change_state_def hd_cmpxchg_def next_entry_def)
  let ?s5 = "?s4\<lparr>tgt := h5, tpc := Finishing\<rparr>"
  have r5: "hsm_reachable ?s5"
    by (rule hsm_reachable.step [OF r4 hsm_step.finish]) (simp, rule h5)
  let ?s6 = "?s5\<lparr>tpc := Loaded (next_entry (tgt ?s5))\<rparr>"
  have r6: "hsm_reachable ?s6" by (rule hsm_reachable.step [OF r5 hsm_step.load]) simp
  have "hsm_reachable (?s6\<lparr>tgt := hsm_start_ticket_release (tgt ?s6), tpc := Launched ?e\<rparr>)"
    by (rule hsm_reachable.step [OF r6 hsm_step.launch]) (simp add: h5(2))
  then show ?thesis by fastforce
qed


end
