(* ===== verification/SbiLocks.thy ===== *)
theory SbiLocks
  imports SbiBase
begin

text \<open>
  The ticket lock of \<open>lib/sbi/riscv_locks.c\<close>.  The lock is one 32-bit word, the owner in its
  low half and the next ticket in its high half; \<open>spin_lock\<close> takes a ticket with one
  \<open>amoadd.w\<close> and then reads the word until the owner is its ticket.  The second part runs several harts
  on one lock in any interleaving of these steps.
\<close>

unbundle bit_operations_syntax

section \<open>The operations\<close>

definition TICKET_SHIFT :: nat where "TICKET_SHIFT = 16"

text \<open>The two fields of \<open>spinlock_t\<close>, as the halves of the word (little endian).\<close>

definition owner :: "u32 \<Rightarrow> u16" where "owner l = ucast l"
definition next_ticket :: "u32 \<Rightarrow> u16" where "next_ticket l = ucast (drop_bit TICKET_SHIFT l)"

definition spin_lock_unlocked :: "u32 \<Rightarrow> bool" where
  "spin_lock_unlocked l \<longleftrightarrow> owner l = next_ticket l"

definition spin_lock_check :: "u32 \<Rightarrow> bool" where
  "spin_lock_check l \<longleftrightarrow> \<not> spin_lock_unlocked l"

text \<open>
  \<open>spin_trylock\<close>: the load-reserved and store-conditional pair that succeeds, with the value of
  \<open>l0\<close> at the end (the loaded word, or the zero of the store-conditional).
\<close>

definition spin_trylock :: "u32 \<Rightarrow> bool \<times> u32" where
  "spin_trylock l =
     (let inc = push_bit TICKET_SHIFT 1; msk = push_bit TICKET_SHIFT 0xffff;
          tmp2 = push_bit TICKET_SHIFT l AND msk;
          tmp1 = l AND msk;
          (l0, l') = (if tmp1 \<noteq> tmp2 then (l, l) else (0, l + inc))
      in (l0 = 0, l'))"

text \<open>\<open>spin_lock\<close>: the atomic add, the ticket it got and the test of a word read.\<close>

definition spin_lock_amoadd :: "u32 \<Rightarrow> u32 \<times> u32" where
  "spin_lock_amoadd l = (l, l + push_bit TICKET_SHIFT 1)"

definition spin_lock_ticket :: "u32 \<Rightarrow> u32" where
  "spin_lock_ticket l0 = drop_bit TICKET_SHIFT l0 AND 0xffff"

definition spin_lock_got :: "u32 \<Rightarrow> u32 \<Rightarrow> bool" where
  "spin_lock_got tmp1 l0 \<longleftrightarrow> tmp1 = l0 AND 0xffff"

text \<open>\<open>spin_unlock\<close> stores the low half only.\<close>

definition spin_unlock :: "u32 \<Rightarrow> u32" where
  "spin_unlock l = (l AND NOT 0xffff) OR ucast (owner l + 1)"

section \<open>Harts sharing a lock\<close>

datatype lock_pc = Idle | Waiting u32 | Holding

record lock_state =
  lock_word :: u32
  lock_pcs :: "nat \<Rightarrow> lock_pc"

inductive lock_step :: "lock_state \<Rightarrow> lock_state \<Rightarrow> bool" where
  take_ticket: "lock_pcs s h = Idle \<Longrightarrow> spin_lock_amoadd (lock_word s) = (l0, l') \<Longrightarrow>
    lock_step s (s\<lparr>lock_word := l', lock_pcs := (lock_pcs s)(h :=
      if spin_lock_got (spin_lock_ticket l0) l0 then Holding else Waiting (spin_lock_ticket l0))\<rparr>)"
| spin: "lock_pcs s h = Waiting t \<Longrightarrow> \<not> spin_lock_got t (lock_word s) \<Longrightarrow> lock_step s s"
| enter: "lock_pcs s h = Waiting t \<Longrightarrow> spin_lock_got t (lock_word s) \<Longrightarrow>
    lock_step s (s\<lparr>lock_pcs := (lock_pcs s)(h := Holding)\<rparr>)"
| try_ok: "lock_pcs s h = Idle \<Longrightarrow> spin_trylock (lock_word s) = (True, l') \<Longrightarrow>
    lock_step s (s\<lparr>lock_word := l', lock_pcs := (lock_pcs s)(h := Holding)\<rparr>)"
| try_fail: "lock_pcs s h = Idle \<Longrightarrow> spin_trylock (lock_word s) = (False, l') \<Longrightarrow>
    lock_step s (s\<lparr>lock_word := l'\<rparr>)"
| unlock: "lock_pcs s h = Holding \<Longrightarrow>
    lock_step s (s\<lparr>lock_word := spin_unlock (lock_word s), lock_pcs := (lock_pcs s)(h := Idle)\<rparr>)"

text \<open>Reachable states of \<open>n\<close> harts on a lock initialised to zero.\<close>

inductive lock_reachable :: "nat \<Rightarrow> lock_state \<Rightarrow> bool" for n where
  init: "lock_reachable n \<lparr>lock_word = 0, lock_pcs = (\<lambda>_. Idle)\<rparr>"
| step: "lock_reachable n s \<Longrightarrow> lock_step s s' \<Longrightarrow> \<forall>h \<ge> n. lock_pcs s' h = Idle \<Longrightarrow> lock_reachable n s'"

section \<open>The queue of a lock\<close>

text \<open>
  The harts at the lock in the order of their tickets: the ticket of the one at position
  \<open>k\<close> is \<open>k\<close> above the owner, and only the first may hold the lock.
\<close>

definition lock_queue :: "lock_state \<Rightarrow> nat list \<Rightarrow> bool" where
  "lock_queue s q \<longleftrightarrow>
     distinct q \<and> length q < 65536 \<and> next_ticket (lock_word s) = owner (lock_word s) + of_nat (length q) \<and>
     (\<forall>h. h \<in> set q \<longleftrightarrow> lock_pcs s h \<noteq> Idle) \<and>
     (\<forall>k < length q. lock_pcs s (q ! k) = Waiting (ucast (owner (lock_word s) + of_nat k)) \<or>
        k = 0 \<and> lock_pcs s (q ! k) = Holding)"

lemma unat_owner: "unat (owner l) = unat l mod 65536"
  by (simp add: owner_def unsigned_ucast_eq take_bit_eq_mod)

lemma unat_next_ticket: "unat (next_ticket l) = unat l div 65536"
proof -
  have "unat l < 2 ^ 32" using unsigned_less [of l] by simp
  then have "unat l div 65536 < 65536" by (simp add: div_less_iff_less_mult)
  then show ?thesis
    unfolding next_ticket_def TICKET_SHIFT_def unsigned_ucast_eq unat_drop_bit_eq
    by (simp add: take_bit_eq_mod drop_bit_eq_div)
qed

lemma amoadd_fields:
  "owner (l + push_bit TICKET_SHIFT 1) = owner l" "next_ticket (l + push_bit TICKET_SHIFT 1) = next_ticket l + 1"
proof -
  have u: "unat (l + push_bit TICKET_SHIFT 1) = (unat l + 65536) mod 4294967296"
    by (simp add: unat_word_ariths TICKET_SHIFT_def)
  have "(n + 65536) mod 4294967296 mod 65536 = n mod 65536" for n :: nat
    by (simp add: mod_mod_cancel)
  then show "owner (l + push_bit TICKET_SHIFT 1) = owner l"
    unfolding word_unat_eq_iff unat_owner u by simp
  have "(n + 65536) mod 4294967296 div 65536 = (n div 65536 + 1) mod 65536" for n :: nat
    using mod_mult2_eq [of "n + 65536" 65536 65536] div_add_self2 [of 65536 n] by simp
  then show "next_ticket (l + push_bit TICKET_SHIFT 1) = next_ticket l + 1"
    unfolding word_unat_eq_iff unat_next_ticket u by (simp add: unat_word_ariths unat_next_ticket)
qed

lemma unlock_fields: "owner (spin_unlock l) = owner l + 1" "next_ticket (spin_unlock l) = next_ticket l"
proof -
  have m: "(0xffff :: u32) = mask 16" by (simp add: mask_eq_exp_minus_1)
  show "owner (spin_unlock l) = owner l + 1"
    unfolding owner_def spin_unlock_def m by (rule bit_word_eqI) (simp add: bit_simps)
  show "next_ticket (spin_unlock l) = next_ticket l"
    unfolding next_ticket_def TICKET_SHIFT_def spin_unlock_def m
    by (rule bit_word_eqI) (auto simp: bit_simps dest: bit_imp_le_length)
qed

lemma ticket_fields: "spin_lock_ticket l = ucast (next_ticket l)" "spin_lock_got (ucast t) l \<longleftrightarrow> t = owner l"
proof -
  have m: "(0xffff :: u32) = mask 16" by (simp add: mask_eq_exp_minus_1)
  show "spin_lock_ticket l = ucast (next_ticket l)"
    unfolding spin_lock_ticket_def next_ticket_def TICKET_SHIFT_def m by (rule bit_word_eqI) (auto simp: bit_simps)
  have "l AND 0xffff = ucast (owner l)"
    unfolding owner_def m by (rule bit_word_eqI) (auto simp: bit_simps)
  moreover have "(ucast t :: u32) = ucast (owner l) \<longleftrightarrow> t = owner l"
    by (auto simp: word_unat_eq_iff)
  ultimately show "spin_lock_got (ucast t) l \<longleftrightarrow> t = owner l" by (simp add: spin_lock_got_def)
qed

lemma trylock_eq:
  "spin_trylock l = (owner l = next_ticket l, if owner l = next_ticket l then l + push_bit TICKET_SHIFT 1 else l)"
proof -
  have m: "push_bit TICKET_SHIFT (0xffff :: u32) = push_bit 16 (mask 16)"
    by (simp add: TICKET_SHIFT_def mask_eq_exp_minus_1)
  have a: "l AND push_bit 16 (mask 16) = push_bit 16 (ucast (next_ticket l))"
    unfolding next_ticket_def TICKET_SHIFT_def by (rule bit_word_eqI) (auto simp: bit_simps)
  have b: "push_bit 16 l AND push_bit 16 (mask 16) = push_bit 16 (ucast (owner l))"
    unfolding owner_def by (rule bit_word_eqI) (auto simp: bit_simps)
  have "push_bit 16 (ucast x :: u32) = push_bit 16 (ucast y) \<longleftrightarrow> x = y" for x y :: u16
  proof
    assume h: "push_bit 16 (ucast x :: u32) = push_bit 16 (ucast y)"
    have "bit x n = bit y n" if "n < 16" for n
      using arg_cong [OF h, of "\<lambda>w. bit w (n + 16)"] that by (simp add: bit_simps)
    then show "x = y" by (intro bit_word_eqI) simp
  qed simp
  then have t: "l AND push_bit 16 (mask 16) = push_bit 16 l AND push_bit 16 (mask 16) \<longleftrightarrow> owner l = next_ticket l"
    unfolding a b by auto
  have "owner l = next_ticket l" if "l = 0" using that by (simp add: owner_def next_ticket_def)
  then show ?thesis
    unfolding spin_trylock_def m Let_def by (auto simp: t) (auto simp: t TICKET_SHIFT_def)
qed


section \<open>First come, first served\<close>

lemma queue_ticket_inj:
  assumes "j < 65536" "k < 65536"
  shows "(o' :: u16) + of_nat j = o' + of_nat k \<longleftrightarrow> j = k"
proof -
  have "(of_nat j :: u16) = of_nat k \<longleftrightarrow> j = k"
    using assms by (auto simp: word_unat_eq_iff unat_of_nat)
  then show ?thesis by simp
qed

lemma queue_empty:
  assumes "lock_queue s q"
  shows "owner (lock_word s) = next_ticket (lock_word s) \<longleftrightarrow> q = []"
  using queue_ticket_inj [of 0 "length q" "owner (lock_word s)"] assms by (simp add: lock_queue_def)

text \<open>A hart at the lock whose ticket has come is the first of the queue.\<close>

lemma queue_head:
  assumes "lock_queue s q" "lock_pcs s h = Holding \<or> (\<exists>t. lock_pcs s h = Waiting t \<and> spin_lock_got t (lock_word s))"
  obtains q' where "q = h # q'"
proof -
  have "h \<in> set q" using assms by (auto simp: lock_queue_def)
  then obtain k where k: "k < length q" "q ! k = h" by (auto simp: in_set_conv_nth)
  have "k = 0"
    using assms k queue_ticket_inj [of 0 k "owner (lock_word s)"] by (force simp: lock_queue_def ticket_fields(2))
  then show ?thesis using k that by (cases q) auto
qed

lemma queue_take:
  assumes "lock_queue s q" "h \<notin> set q" "length q < 65535"
    and "p = Waiting (ucast (next_ticket (lock_word s))) \<or> q = [] \<and> p = Holding"
  shows "lock_queue (s\<lparr>lock_word := lock_word s + push_bit TICKET_SHIFT 1, lock_pcs := (lock_pcs s)(h := p)\<rparr>) (q @ [h])"
  using assms unfolding lock_queue_def
  by (auto simp: amoadd_fields nth_append less_Suc_eq simp del: push_bit_of_1)

lemma queue_enter:
  assumes "lock_queue s (h # q)"
  shows "lock_queue (s\<lparr>lock_pcs := (lock_pcs s)(h := Holding)\<rparr>) (h # q)"
  using assms unfolding lock_queue_def
  by (auto simp: less_Suc_eq_0_disj nth_Cons')

lemma queue_unlock:
  assumes "lock_queue s (h # q)"
  shows "lock_queue (s\<lparr>lock_word := spin_unlock (lock_word s), lock_pcs := (lock_pcs s)(h := Idle)\<rparr>) q"
proof -
  have "lock_pcs s (q ! k) = Waiting (ucast (owner (lock_word s) + of_nat (Suc k)))" if "k < length q" for k
    using assms that unfolding lock_queue_def by (metis Suc_less_eq length_Cons nat.distinct(1) nth_Cons_Suc)
  then show ?thesis
    using assms unfolding lock_queue_def by (auto simp: unlock_fields add.assoc nth_mem) 
qed


text \<open>The queue after a step: unchanged, longer by the hart that took a ticket, or without its first.\<close>

definition queue_moves :: "lock_state \<Rightarrow> nat list \<Rightarrow> nat list \<Rightarrow> bool" where
  "queue_moves s q q' \<longleftrightarrow>
     q' = q \<or> (\<exists>h. q' = q @ [h]) \<or> (\<exists>h. q = h # q' \<and> lock_pcs s h = Holding)"

lemma queue_room:
  assumes "lock_queue s q" "lock_pcs s h = Idle" "\<forall>k \<ge> n. lock_pcs s' k = Idle" "n \<le> 65535"
    and "\<And>k. k \<noteq> h \<Longrightarrow> lock_pcs s' k = lock_pcs s k" "lock_pcs s' h \<noteq> Idle"
  shows "length q < 65535" "h \<notin> set q"
proof -
  have q: "distinct q" "\<And>k. k \<in> set q \<longleftrightarrow> lock_pcs s k \<noteq> Idle" using assms(1) by (auto simp: lock_queue_def)
  show h: "h \<notin> set q" using q(2) assms(2) by simp
  have "set (h # q) \<subseteq> {..<n}"
  proof
    fix k assume "k \<in> set (h # q)"
    then have "lock_pcs s' k \<noteq> Idle" using q(2) assms(2,5,6) by (cases "k = h") auto
    then show "k \<in> {..<n}" using assms(3) not_le by auto
  qed
  then have "card (set (h # q)) \<le> n" using card_mono [of "{..<n}" "set (h # q)"] by simp
  then show "length q < 65535" using h q(1) assms(4) by (simp add: distinct_card)
qed

lemma queue_step:
  assumes "lock_queue s q" "lock_step s s'" "\<forall>h \<ge> n. lock_pcs s' h = Idle" "n \<le> 65535"
  shows "\<exists>q'. lock_queue s' q' \<and> queue_moves s q q'"
  using assms(2)
proof (cases rule: lock_step.cases)
  case (take_ticket h l0 l')
  let ?p = "lock_pcs s' h"
  have l: "l0 = lock_word s" "l' = lock_word s + push_bit TICKET_SHIFT 1"
    using take_ticket(3) by (auto simp: spin_lock_amoadd_def simp del: push_bit_of_1)
  have "?p = Waiting (ucast (next_ticket (lock_word s))) \<or> q = [] \<and> ?p = Holding"
    using queue_empty [OF assms(1)] take_ticket(1) l(1) by (auto simp: ticket_fields)
  then have p: "?p = Waiting (ucast (next_ticket (lock_word s))) \<or> q = [] \<and> ?p = Holding" "?p \<noteq> Idle" by auto
  note room = queue_room [OF assms(1) take_ticket(2) assms(3,4) _ p(2)]
  have "s' = s\<lparr>lock_word := lock_word s + push_bit TICKET_SHIFT 1, lock_pcs := (lock_pcs s)(h := ?p)\<rparr>"
    using take_ticket(1) l by simp
  then have "lock_queue s' (q @ [h])"
    using queue_take [OF assms(1) _ _ p(1), of h] room take_ticket(1) by simp
  then show ?thesis by (auto simp: queue_moves_def)
next
  case (try_ok h l')
  have l: "owner (lock_word s) = next_ticket (lock_word s)" "l' = lock_word s + push_bit TICKET_SHIFT 1"
    using try_ok(3) by (auto simp: trylock_eq simp del: push_bit_of_1)
  then have q: "q = []" using queue_empty [OF assms(1)] by simp
  have "lock_queue s' (q @ [h])"
    using queue_take [OF assms(1), of h Holding] q try_ok(1) l(2) by simp
  then show ?thesis by (auto simp: queue_moves_def)
next
  case (enter h t)
  then obtain q' where "q = h # q'" using queue_head [OF assms(1), of h] by auto
  then show ?thesis using queue_enter assms(1) enter(1) by (auto simp: queue_moves_def)
next
  case (unlock h)
  then obtain q' where "q = h # q'" using queue_head [OF assms(1), of h] by auto
  then show ?thesis using queue_unlock assms(1) unlock by (auto simp: queue_moves_def)
qed (use assms(1) in \<open>auto simp: queue_moves_def trylock_eq\<close>)

lemma lock_reachable_queue: "lock_reachable n s \<Longrightarrow> n \<le> 65535 \<Longrightarrow> \<exists>q. lock_queue s q"
proof (induction rule: lock_reachable.induct)
  case init
  show ?case by (intro exI [of _ "[]"]) (simp add: lock_queue_def owner_def next_ticket_def)
next
  case (step s s')
  then show ?case using queue_step by blast
qed

section \<open>Properties\<close>

text \<open>
  C13: mutual exclusion, order and progress of the ticket lock.  In every reachable state of at most 65535
  harts on a lock, in any interleaving of \<open>spin_lock\<close>, \<open>spin_trylock\<close> and
  \<open>spin_unlock\<close>, the harts at the lock form a queue in the order of their tickets: at
  most one hart holds the lock, and it is the first; when no hart holds it the first hart's next read of the word lets it
  in; \<open>spin_lock_check\<close> says whether the queue is empty; and every further step leaves
  the queue alone, appends a hart to it, or removes the holder from its front.
\<close>

theorem ticket_lock_fifo:
  assumes "lock_reachable n s" "n \<le> 65535"
  shows "\<exists>q. lock_queue s q \<and> (\<forall>h. lock_pcs s h = Holding \<longrightarrow> (\<exists>q'. q = h # q')) \<and>
    (\<forall>h q'. q = h # q' \<and> lock_pcs s h \<noteq> Holding \<longrightarrow>
       (\<exists>t. lock_pcs s h = Waiting t \<and> spin_lock_got t (lock_word s))) \<and>
    (spin_lock_check (lock_word s) \<longleftrightarrow> q \<noteq> []) \<and>
    (\<forall>s'. lock_step s s' \<and> (\<forall>h \<ge> n. lock_pcs s' h = Idle) \<longrightarrow> (\<exists>q'. lock_queue s' q' \<and> queue_moves s q q'))"
proof -
  obtain q where q: "lock_queue s q" using lock_reachable_queue [OF assms] by blast
  have "\<exists>q'. q = h # q'" if "lock_pcs s h = Holding" for h using queue_head [OF q, of h] that by blast
  moreover have "\<exists>t. lock_pcs s h = Waiting t \<and> spin_lock_got t (lock_word s)"
    if "q = h # q'" "lock_pcs s h \<noteq> Holding" for h q'
    using q that ticket_fields(2) by (auto simp: lock_queue_def)
  moreover have "spin_lock_check (lock_word s) \<longleftrightarrow> q \<noteq> []"
    using queue_empty [OF q] by (simp add: spin_lock_check_def spin_lock_unlocked_def)
  ultimately show ?thesis using q queue_step [OF q _ _ assms(2)] by blast
qed

theorem ticket_lock_fifo_witness:
  "\<exists>s q. lock_reachable 2 s \<and> lock_queue s q \<and> lock_pcs s 0 = Holding \<and> (\<exists>q'. q = 0 # q') \<and>
    (spin_lock_check (lock_word s) \<longleftrightarrow> q \<noteq> [])"
proof -
  let ?s0 = "\<lparr>lock_word = 0, lock_pcs = (\<lambda>_. Idle)\<rparr>" and ?s1 = "\<lparr>lock_word = 0x10000, lock_pcs = (\<lambda>_. Idle)(0 := Holding)\<rparr>"
  have "spin_trylock 0 = (True, 0x10000)" by code_simp
  then have "lock_step ?s0 ?s1" using lock_step.try_ok [of ?s0 0 "0x10000"] by simp
  then have r: "lock_reachable 2 ?s1" using lock_reachable.step [OF lock_reachable.init] by simp
  have n: "(2 :: nat) \<le> 65535" by simp
  obtain q where q: "lock_queue ?s1 q" "\<forall>h. lock_pcs ?s1 h = Holding \<longrightarrow> (\<exists>q'. q = h # q')"
      "spin_lock_check (lock_word ?s1) \<longleftrightarrow> q \<noteq> []"
    using ticket_lock_fifo [OF r n] by blast
  moreover have "lock_pcs ?s1 0 = Holding" by simp
  ultimately show ?thesis using r by blast
qed

end
