(* ===== verification/SbiIpi.thy ===== *)
theory SbiIpi
  imports SbiHsm
begin

text \<open>
  Inter-processor interrupts (\<open>lib/sbi/sbi_ipi.c\<close>): events are registered in a table of
  callbacks, a sender sets the bit of an event in the word \<open>ipi_type\<close> of the target and
  raises the target's interrupt when the word was zero, the target swaps the word with zero and
  runs the callback of every bit.  The first part translates the functions for one hart that
  runs alone; the second runs senders and receiver in any interleaving of their atomic accesses.
\<close>

unbundle bit_operations_syntax

section \<open>Data\<close>

definition SBI_IPI_EVENT_MAX :: u32 where "SBI_IPI_EVENT_MAX = 64"

definition SBI_IPI_UPDATE_SUCCESS :: int where "SBI_IPI_UPDATE_SUCCESS = 0"
definition SBI_IPI_UPDATE_BREAK :: int where "SBI_IPI_UPDATE_BREAK = 1"
definition SBI_IPI_UPDATE_RETRY :: int where "SBI_IPI_UPDATE_RETRY = 2"

lemmas ipi_updates = SBI_IPI_UPDATE_SUCCESS_def SBI_IPI_UPDATE_BREAK_def SBI_IPI_UPDATE_RETRY_def

text \<open>
  The state the harts share: the life cycle data and registers of each hart and its word
  \<open>ipi_type\<close>.  Components with data of their own extend the record.  A device is the
  platform's pair of callbacks on this state.
\<close>

record ipi_system = hsm_system +
  ipi_type :: "nat \<Rightarrow> u64"

record 'w sbi_ipi_device =
  ipi_send :: "(nat \<Rightarrow> 'w \<Rightarrow> 'w) option"
  ipi_clear :: "(nat \<Rightarrow> 'w \<Rightarrow> 'w) option"

text \<open>
  The callbacks of an event, on the hart that runs them: \<open>update\<close> and \<open>sync\<close> may be
  null; \<open>update\<close> has no return value when it does not return, \<open>sync\<close> is \<open>None\<close> when it waits
  forever; \<open>process\<close> says whether it returned.
\<close>

record ('w, 'd) sbi_ipi_event_ops =
  op_update :: "(nat \<Rightarrow> nat \<Rightarrow> 'd \<Rightarrow> 'w \<Rightarrow> int option \<times> 'w) option"
  op_sync :: "(nat \<Rightarrow> 'w \<Rightarrow> 'w option) option"
  op_process :: "(nat \<Rightarrow> 'w \<Rightarrow> bool \<times> 'w) option"

record ('w, 'd) ipi_globals =
  ipi_data_off :: u64
  ipi_dev :: "'w sbi_ipi_device option"
  ipi_ops_array :: "('w, 'd) sbi_ipi_event_ops option list"
  ipi_smode_event :: u32
  ipi_halt_event :: u32

section \<open>The device and the event table\<close>

definition sbi_ipi_raw_send :: "('w, 'd) ipi_globals \<Rightarrow> nat \<Rightarrow> 'w \<Rightarrow> int \<times> 'w" where
  "sbi_ipi_raw_send g hartindex w =
     (case ipi_dev g of
        None \<Rightarrow> (SBI_EINVAL, w)
      | Some d \<Rightarrow> (case ipi_send d of None \<Rightarrow> (SBI_EINVAL, w) | Some f \<Rightarrow> (0, f hartindex w)))"

definition sbi_ipi_raw_clear :: "('w, 'd) ipi_globals \<Rightarrow> nat \<Rightarrow> 'w \<Rightarrow> 'w" where
  "sbi_ipi_raw_clear g me w =
     (case ipi_dev g of
        None \<Rightarrow> w
      | Some d \<Rightarrow> (case ipi_clear d of None \<Rightarrow> w | Some f \<Rightarrow> f me w))"

definition sbi_ipi_set_device :: "'w sbi_ipi_device option \<Rightarrow> ('w, 'd) ipi_globals \<Rightarrow> ('w, 'd) ipi_globals" where
  "sbi_ipi_set_device dev g =
     (case (dev, ipi_dev g) of (Some d, None) \<Rightarrow> g\<lparr>ipi_dev := dev\<rparr> | _ \<Rightarrow> g)"

definition sbi_ipi_get_device :: "('w, 'd) ipi_globals \<Rightarrow> 'w sbi_ipi_device option" where
  "sbi_ipi_get_device g = ipi_dev g"

fun event_create_loop ::
  "('w, 'd) sbi_ipi_event_ops \<Rightarrow> nat \<Rightarrow> nat \<Rightarrow> ('w, 'd) ipi_globals \<Rightarrow> int \<times> ('w, 'd) ipi_globals" where
  "event_create_loop ops i 0 g = (SBI_ENOSPC, g)"
| "event_create_loop ops i (Suc m) g =
     (case ipi_ops_array g ! i of
        None \<Rightarrow> (int i, g\<lparr>ipi_ops_array := (ipi_ops_array g)[i := Some ops]\<rparr>)
      | Some _ \<Rightarrow> event_create_loop ops (Suc i) m g)"

definition sbi_ipi_event_create ::
  "('w, 'd) sbi_ipi_event_ops option \<Rightarrow> ('w, 'd) ipi_globals \<Rightarrow> int \<times> ('w, 'd) ipi_globals" where
  "sbi_ipi_event_create ops g =
     (case ops of
        None \<Rightarrow> (SBI_EINVAL, g)
      | Some ops \<Rightarrow>
          if (case op_process ops of None \<Rightarrow> True | Some _ \<Rightarrow> False) then (SBI_EINVAL, g)
          else event_create_loop ops 0 (unat SBI_IPI_EVENT_MAX) g)"

definition sbi_ipi_event_destroy :: "u32 \<Rightarrow> ('w, 'd) ipi_globals \<Rightarrow> ('w, 'd) ipi_globals" where
  "sbi_ipi_event_destroy event g =
     (if SBI_IPI_EVENT_MAX \<le> event then g
      else g\<lparr>ipi_ops_array := (ipi_ops_array g)[unat event := None]\<rparr>)"

definition event_ops :: "('w, 'd) ipi_globals \<Rightarrow> u32 \<Rightarrow> ('w, 'd) sbi_ipi_event_ops option" where
  "event_ops g event = (if SBI_IPI_EVENT_MAX \<le> event then None else ipi_ops_array g ! unat event)"

section \<open>Sending\<close>

text \<open>The atomic \<open>fetch_or\<close> of the event's bit, with the old word.\<close>

definition ipi_type_or :: "nat \<Rightarrow> u64 \<Rightarrow> 'a ipi_system_scheme \<Rightarrow> u64 \<times> 'a ipi_system_scheme" where
  "ipi_type_or h b w = (ipi_type w h, w\<lparr>ipi_type := (ipi_type w)(h := ipi_type w h OR b)\<rparr>)"

definition ipi_trigger ::
  "('a ipi_system_scheme, 'd) ipi_globals \<Rightarrow> nat \<Rightarrow> u32 \<Rightarrow> 'a ipi_system_scheme \<Rightarrow> int \<times> 'a ipi_system_scheme" where
  "ipi_trigger g remote event w =
     (case ipi_type_or remote (BIT (unat event)) w of (old, w) \<Rightarrow>
        if old = 0 then sbi_ipi_raw_send g remote w else (0, w))"

text \<open>
  \<open>sbi_ipi_send\<close> on hart \<open>me\<close>; no return value when a callback run for the hart itself does
  not return.  Scratch spaces are told apart by their hart index.
\<close>

definition sbi_ipi_send ::
  "('a ipi_system_scheme, 'd) ipi_globals \<Rightarrow> scratch_state \<Rightarrow> nat \<Rightarrow> nat \<Rightarrow> u32 \<Rightarrow> 'd \<Rightarrow> 'a ipi_system_scheme \<Rightarrow>
   int option \<times> 'a ipi_system_scheme" where
  "sbi_ipi_send g sst me remote event data w =
     (case event_ops g event of
        None \<Rightarrow> (Some SBI_EINVAL, w)
      | Some ops \<Rightarrow>
          if sbi_hartindex_to_scratch sst remote = None then (Some SBI_EINVAL, w)
          else (case op_update ops of
              Some upd \<Rightarrow>
                (case upd me remote data w of (ret, w) \<Rightarrow>
                   if ret \<noteq> Some SBI_IPI_UPDATE_SUCCESS then (ret, w)
                   else apfst Some (ipi_trigger g remote event w))
            | None \<Rightarrow>
                if me = remote then
                  (case op_process ops of
                     None \<Rightarrow> (Some 0, w)
                   | Some p \<Rightarrow> (case p me w of (ok, w) \<Rightarrow> (if ok then Some 0 else None, w)))
                else apfst Some (ipi_trigger g remote event w)))"

definition sbi_ipi_sync ::
  "('w, 'd) ipi_globals \<Rightarrow> nat \<Rightarrow> u32 \<Rightarrow> 'w \<Rightarrow> (int \<times> 'w) option" where
  "sbi_ipi_sync g me event w =
     (case event_ops g event of
        None \<Rightarrow> Some (SBI_EINVAL, w)
      | Some ops \<Rightarrow>
          (case op_sync ops of None \<Rightarrow> Some (0, w) | Some f \<Rightarrow> map_option (\<lambda>w. (0, w)) (f me w)))"

text \<open>The hart ids \<open>hbase + k\<close> of the bits \<open>k\<close> of \<open>hmask\<close>, as 32-bit ids.\<close>

definition sbi_hartmask_set_hartid :: "scratch_state \<Rightarrow> u32 \<Rightarrow> sbi_hartmask \<Rightarrow> sbi_hartmask" where
  "sbi_hartmask_set_hartid sst h m = sbi_hartmask_set_hartindex (sbi_hartid_to_hartindex sst h) m"

function hmask_loop :: "scratch_state \<Rightarrow> u64 \<Rightarrow> u64 \<Rightarrow> sbi_hartmask \<Rightarrow> sbi_hartmask" where
  "hmask_loop sst i hmask m =
     (if hmask = 0 then m
      else hmask_loop sst (i + 1) (drop_bit 1 hmask)
             (if hmask AND 1 \<noteq> 0 then sbi_hartmask_set_hartid sst (ucast i) m else m))"
  by pat_completeness auto
termination
proof (relation "measure (\<lambda>(sst, i, hmask, m). unat hmask)", goal_cases)
  case (2 sst i hmask m)
  then show ?case by (simp only: in_measure prod.case unat_shift_less not_False_eq_True)
qed simp

declare hmask_loop.simps [simp del]

definition ipi_targets ::
  "scratch_state \<Rightarrow> sbi_domain option \<Rightarrow> 'a ipi_system_scheme \<Rightarrow> u64 \<Rightarrow> u64 \<Rightarrow> sbi_hartmask" where
  "ipi_targets sst dm w hmask hbase =
     (let target = sbi_hsm_hart_interruptible_mask sst (hsm_system.truncate w) dm in
      if hbase \<noteq> - 1
      then sbi_hartmask_and target target (hmask_loop sst hbase hmask sbi_hartmask_clear_all)
      else target)"

text \<open>One pass over the targets: it ends with the harts still to do and whether one asked for a retry.\<close>

datatype 'w pass = Pass_done sbi_hartmask bool 'w | Pass_error int 'w | Pass_left 'w

fun ipi_pass ::
  "(nat \<Rightarrow> 'w \<Rightarrow> int option \<times> 'w) \<Rightarrow> nat list \<Rightarrow> sbi_hartmask \<Rightarrow> bool \<Rightarrow> 'w \<Rightarrow> 'w pass" where
  "ipi_pass snd1 [] target retry w = Pass_done target retry w"
| "ipi_pass snd1 (i # is) target retry w =
     (case snd1 i w of
        (None, w) \<Rightarrow> Pass_left w
      | (Some rc, w) \<Rightarrow>
          if rc < 0 then Pass_error rc w
          else if rc = SBI_IPI_UPDATE_RETRY then ipi_pass snd1 is target True w
          else ipi_pass snd1 is (sbi_hartmask_clear_hartindex i target) retry w)"

partial_function (option) ipi_passes ::
  "(nat \<Rightarrow> 'w \<Rightarrow> int option \<times> 'w) \<Rightarrow> sbi_hartmask \<Rightarrow> 'w \<Rightarrow> (int option \<times> 'w) option" where
  "ipi_passes snd1 target w =
     (case ipi_pass snd1 (sbi_hartmask_harts target) target False w of
        Pass_left w \<Rightarrow> Some (None, w)
      | Pass_error rc w \<Rightarrow> Some (Some rc, w)
      | Pass_done target retry w \<Rightarrow> if retry then ipi_passes snd1 target w else Some (Some 0, w))"

text \<open>\<open>sbi_ipi_send_many\<close>: \<open>None\<close> when it does not end, no return value when the hart left.\<close>

definition sbi_ipi_send_many ::
  "('a ipi_system_scheme, 'd) ipi_globals \<Rightarrow> scratch_state \<Rightarrow> nat \<Rightarrow> sbi_domain option \<Rightarrow> u64 \<Rightarrow> u64 \<Rightarrow> u32 \<Rightarrow> 'd \<Rightarrow>
   'a ipi_system_scheme \<Rightarrow> (int option \<times> 'a ipi_system_scheme) option" where
  "sbi_ipi_send_many g sst me dm hmask hbase event data w =
     Option.bind (ipi_passes (\<lambda>i. sbi_ipi_send g sst me i event data) (ipi_targets sst dm w hmask hbase) w)
       (\<lambda>(rc, w). case rc of
          None \<Rightarrow> Some (None, w)
        | Some rc \<Rightarrow> map_option (\<lambda>(_, w). (Some rc, w)) (sbi_ipi_sync g me event w))"

section \<open>The supervisor and halt events\<close>

definition MIP_MSIP :: u64 where "MIP_MSIP = 0x8"

definition on_hart :: "nat \<Rightarrow> (hart \<Rightarrow> hart) \<Rightarrow> 'a hsm_system_scheme \<Rightarrow> 'a hsm_system_scheme" where
  "on_hart h f w = w\<lparr>harts := (harts w)(h := f (harts w h))\<rparr>"

definition sbi_ipi_process_smode :: "nat \<Rightarrow> 'a ipi_system_scheme \<Rightarrow> bool \<times> 'a ipi_system_scheme" where
  "sbi_ipi_process_smode me w = (True, on_hart me (\<lambda>h. h\<lparr>csr_mip := csr_mip h OR MIP_SSIP\<rparr>) w)"

definition ipi_smode_ops :: "('a ipi_system_scheme, 'd) sbi_ipi_event_ops" where
  "ipi_smode_ops = \<lparr>op_update = None, op_sync = None, op_process = Some sbi_ipi_process_smode\<rparr>"

definition sbi_ipi_clear_smode :: "nat \<Rightarrow> 'a ipi_system_scheme \<Rightarrow> 'a ipi_system_scheme" where
  "sbi_ipi_clear_smode me w = on_hart me (\<lambda>h. h\<lparr>csr_mip := csr_mip h AND NOT MIP_SSIP\<rparr>) w"

definition sbi_ipi_update_halt :: "nat \<Rightarrow> nat \<Rightarrow> 'd \<Rightarrow> 'w \<Rightarrow> int option \<times> 'w" where
  "sbi_ipi_update_halt me remote data w =
     (Some (if me = remote then SBI_IPI_UPDATE_BREAK else SBI_IPI_UPDATE_SUCCESS), w)"

text \<open>\<open>dm\<close> is the domain of the hart that halts.\<close>

definition sbi_ipi_process_halt :: "(nat \<Rightarrow> sbi_domain option) \<Rightarrow> nat \<Rightarrow> 'a ipi_system_scheme \<Rightarrow> bool \<times> 'a ipi_system_scheme" where
  "sbi_ipi_process_halt dm me w =
     (case sbi_hsm_hart_stop (dm me) True (harts w me) of (c, h) \<Rightarrow>
        ((case c of Return _ \<Rightarrow> True | _ \<Rightarrow> False), on_hart me (\<lambda>_. h) w))"

definition ipi_halt_ops :: "(nat \<Rightarrow> sbi_domain option) \<Rightarrow> ('a ipi_system_scheme, 'd) sbi_ipi_event_ops" where
  "ipi_halt_ops dm =
     \<lparr>op_update = Some sbi_ipi_update_halt, op_sync = None, op_process = Some (sbi_ipi_process_halt dm)\<rparr>"

definition sbi_ipi_send_smode ::
  "('a ipi_system_scheme, 'd) ipi_globals \<Rightarrow> scratch_state \<Rightarrow> nat \<Rightarrow> sbi_domain option \<Rightarrow> u64 \<Rightarrow> u64 \<Rightarrow> 'd \<Rightarrow>
   'a ipi_system_scheme \<Rightarrow> (int option \<times> 'a ipi_system_scheme) option" where
  "sbi_ipi_send_smode g sst me dm hmask hbase null w =
     sbi_ipi_send_many g sst me dm hmask hbase (ipi_smode_event g) null w"

definition sbi_ipi_send_halt ::
  "('a ipi_system_scheme, 'd) ipi_globals \<Rightarrow> scratch_state \<Rightarrow> nat \<Rightarrow> sbi_domain option \<Rightarrow> u64 \<Rightarrow> u64 \<Rightarrow> 'd \<Rightarrow>
   'a ipi_system_scheme \<Rightarrow> (int option \<times> 'a ipi_system_scheme) option" where
  "sbi_ipi_send_halt g sst me dm hmask hbase null w =
     sbi_ipi_send_many g sst me dm hmask hbase (ipi_halt_event g) null w"

section \<open>Receiving\<close>

definition ipi_type_xchg :: "nat \<Rightarrow> 'a ipi_system_scheme \<Rightarrow> u64 \<times> 'a ipi_system_scheme" where
  "ipi_type_xchg me w = (ipi_type w me, w\<lparr>ipi_type := (ipi_type w)(me := 0)\<rparr>)"

function ipi_process_loop ::
  "('w, 'd) ipi_globals \<Rightarrow> nat \<Rightarrow> u64 \<Rightarrow> nat \<Rightarrow> 'w \<Rightarrow> bool \<times> 'w" where
  "ipi_process_loop g me itype event w =
     (if itype = 0 then (True, w)
      else case (if itype AND 1 \<noteq> 0
                 then case Option.bind (ipi_ops_array g ! event) op_process of None \<Rightarrow> (True, w) | Some p \<Rightarrow> p me w
                 else (True, w)) of
        (ok, w') \<Rightarrow> if \<not> ok then (False, w') else ipi_process_loop g me (drop_bit 1 itype) (Suc event) w')"
  by pat_completeness auto
termination
proof (relation "measure (\<lambda>(g, me, itype, event, w). unat itype)", goal_cases)
  case (2 g me itype)
  then show ?case by (simp only: in_measure prod.case unat_shift_less not_False_eq_True)
qed simp

declare ipi_process_loop.simps [simp del]

definition sbi_ipi_process ::
  "('a ipi_system_scheme, 'd) ipi_globals \<Rightarrow> nat \<Rightarrow> 'a ipi_system_scheme \<Rightarrow> bool \<times> 'a ipi_system_scheme" where
  "sbi_ipi_process g me w =
     (case ipi_type_xchg me (sbi_ipi_raw_clear g me w) of (itype, w) \<Rightarrow> ipi_process_loop g me itype 0 w)"

section \<open>Initialisation\<close>

text \<open>\<open>platform_init\<close> is the platform's \<open>ipi_init\<close> hook, which may register a device.\<close>

definition sbi_ipi_init_hart ::
  "('a ipi_system_scheme, 'd) ipi_globals \<Rightarrow> nat \<Rightarrow> 'a ipi_system_scheme \<Rightarrow> 'a ipi_system_scheme" where
  "sbi_ipi_init_hart g me w =
     on_hart me (\<lambda>h. h\<lparr>csr_mie := csr_mie h OR MIP_MSIP\<rparr>)
       (sbi_ipi_raw_clear g me (w\<lparr>ipi_type := (ipi_type w)(me := 0)\<rparr>))"

definition sbi_ipi_init ::
  "(('a ipi_system_scheme, 'd) ipi_globals \<Rightarrow> int \<times> ('a ipi_system_scheme, 'd) ipi_globals) \<Rightarrow>
   (nat \<Rightarrow> sbi_domain option) \<Rightarrow> nat \<Rightarrow> bool \<Rightarrow>
   ('a ipi_system_scheme, 'd) ipi_globals \<times> scratch_state \<times> 'a ipi_system_scheme \<Rightarrow>
   int \<times> ('a ipi_system_scheme, 'd) ipi_globals \<times> scratch_state \<times> 'a ipi_system_scheme" where
  "sbi_ipi_init platform_init dm me cold_boot s =
     (case s of (g, sst, w) \<Rightarrow>
        if cold_boot then
          (case sbi_scratch_alloc_offset 8 sst of (off, sst) \<Rightarrow>
             let g = g\<lparr>ipi_data_off := off\<rparr> in
             if off = 0 then (SBI_ENOMEM, g, sst, w)
             else (case sbi_ipi_event_create (Some ipi_smode_ops) g of (ret, g) \<Rightarrow>
               if ret < 0 then (ret, g, sst, w)
               else let g = g\<lparr>ipi_smode_event := of_int ret\<rparr> in
                 (case sbi_ipi_event_create (Some (ipi_halt_ops dm)) g of (ret, g) \<Rightarrow>
                    if ret < 0 then (ret, g, sst, w)
                    else let g = g\<lparr>ipi_halt_event := of_int ret\<rparr> in
                      (case platform_init g of (ret, g) \<Rightarrow>
                         if ret \<noteq> 0 then (ret, g, sst, w)
                         else (0, g, sst, sbi_ipi_init_hart g me w)))))
        else if ipi_data_off g = 0 then (SBI_ENOMEM, g, sst, w)
        else if SBI_IPI_EVENT_MAX \<le> ipi_smode_event g \<or> SBI_IPI_EVENT_MAX \<le> ipi_halt_event g
        then (SBI_ENOSPC, g, sst, w)
        else (0, g, sst, sbi_ipi_init_hart g me w))"

definition sbi_ipi_exit ::
  "('a ipi_system_scheme, 'd) ipi_globals \<Rightarrow> nat \<Rightarrow> 'a ipi_system_scheme \<Rightarrow> bool \<times> 'a ipi_system_scheme" where
  "sbi_ipi_exit g me w =
     sbi_ipi_process g me (on_hart me (\<lambda>h. h\<lparr>csr_mie := csr_mie h AND NOT MIP_MSIP\<rparr>) w)"


section \<open>The targets\<close>

text \<open>The harts a mask names: hart \<open>h\<close> has the id \<open>hbase + k\<close> of a bit \<open>k\<close> of \<open>hmask\<close>.\<close>

definition named_harts :: "scratch_state \<Rightarrow> u64 \<Rightarrow> u64 \<Rightarrow> nat set" where
  "named_harts sst hbase hmask =
     {h. h < 128 \<and> (\<exists>k. bit hmask k \<and> h = sbi_hartid_to_hartindex sst (ucast (hbase + of_nat k)))}"

lemma named_harts_step:
  "named_harts sst i hmask =
     named_harts sst (i + 1) (drop_bit 1 hmask) \<union>
     (if bit hmask 0 then {sbi_hartid_to_hartindex sst (ucast i)} \<inter> {..<128} else {})"
proof -
  have split: "(\<exists>k. P k) \<longleftrightarrow> (\<exists>k. P (Suc k)) \<or> P 0" for P :: "nat \<Rightarrow> bool" by (metis not0_implies_Suc)
  have "(\<exists>k. bit hmask k \<and> h = sbi_hartid_to_hartindex sst (ucast (i + of_nat k))) \<longleftrightarrow>
      (\<exists>k. bit (drop_bit 1 hmask) k \<and> h = sbi_hartid_to_hartindex sst (ucast (i + 1 + of_nat k))) \<or>
      bit hmask 0 \<and> h = sbi_hartid_to_hartindex sst (ucast i)" for h
    by (subst split) (simp add: bit_drop_bit_eq add.assoc)
  then show ?thesis by (auto simp: named_harts_def)
qed

lemma hmask_loop_set:
  "wf_mask m \<Longrightarrow> wf_mask (hmask_loop sst i hmask m) \<and>
     hart_set (hmask_loop sst i hmask m) = hart_set m \<union> named_harts sst i hmask"
proof (induction sst i hmask m rule: hmask_loop.induct)
  case (1 sst i hmask m)
  show ?case
  proof (cases "hmask = 0")
    case True
    then show ?thesis using 1(2) by (subst (1 2) hmask_loop.simps) (simp add: named_harts_def)
  next
    case False
    let ?m = "if hmask AND 1 \<noteq> 0 then sbi_hartmask_set_hartid sst (ucast i) m else m"
    have m: "wf_mask ?m" "hart_set ?m = hart_set m \<union>
        (if bit hmask 0 then {sbi_hartid_to_hartindex sst (ucast i)} \<inter> {..<128} else {})"
      using mask_set [OF 1(2)] 1(2) by (auto simp: sbi_hartmask_set_hartid_def bit_0 odd_iff_mod_2_eq_one and_one_eq)
    have "hmask_loop sst i hmask m = hmask_loop sst (i + 1) (drop_bit 1 hmask) ?m"
      using False by (subst hmask_loop.simps) simp
    then show ?thesis using 1(1) [OF False m(1)] m(2) named_harts_step [of sst i hmask] by auto
  qed
qed

text \<open>The interruptible harts of the domain, restricted to the named ones unless \<open>hbase\<close> is -1.\<close>

definition target_set :: "scratch_state \<Rightarrow> sbi_domain \<Rightarrow> 'a hsm_system_scheme \<Rightarrow> u64 \<Rightarrow> u64 \<Rightarrow> nat set" where
  "target_set sst dm w hmask hbase =
     {h \<in> hart_set (assigned_harts dm).
        sbi_hartindex_to_scratch sst h \<noteq> None \<and> interruptible (hd_state (hdata (harts w h))) \<and>
        (hbase = - 1 \<or> h \<in> named_harts sst hbase hmask)}"

lemma ipi_targets_set:
  assumes "wf_mask (assigned_harts dm)"
  shows "hart_set (ipi_targets sst (Some dm) w hmask hbase) = target_set sst dm w hmask hbase"
proof -
  let ?I = "sbi_hsm_hart_interruptible_mask sst (hsm_system.truncate w) (Some dm)"
  have "interruptible SBI_EINVAL = False" by (simp add: interruptible_def hsm_states sbi_errors)
  then have i: "interruptible (get_state' sst (hsm_system.truncate w) h) \<longleftrightarrow>
      sbi_hartindex_to_scratch sst h \<noteq> None \<and> interruptible (hd_state (hdata (harts w h)))" for h
    by (simp add: get_state'_def hsm_system.truncate_def)
  have I: "wf_mask ?I" "hart_set ?I = {h \<in> hart_set (assigned_harts dm). sbi_hartindex_to_scratch sst h \<noteq> None \<and>
      interruptible (hd_state (hdata (harts w h)))}"
    using interruptible_mask_set [OF assms, of sst "hsm_system.truncate w"] by (auto simp: i)
  show ?thesis
    using mask_ops(1) [OF I(1), of ?I] hmask_loop_set [OF mask_all(1), of sst hbase hmask] I(2) mask_all(2)
    by (auto simp: ipi_targets_def Let_def target_set_def)
qed


section \<open>The events of a word\<close>

definition run_event :: "('w, 'd) ipi_globals \<Rightarrow> nat \<Rightarrow> nat \<Rightarrow> 'w \<Rightarrow> 'w" where
  "run_event g me e w =
     (case Option.bind (ipi_ops_array g ! e) op_process of None \<Rightarrow> w | Some p \<Rightarrow> snd (p me w))"

lemma word_bits_shift:
  "filter (bit (w :: u64)) [0..<64] =
     (if bit w 0 then [0] else []) @ map Suc (filter (bit (drop_bit 1 w)) [0..<64])"
proof -
  have "[0..<64] = (0 :: nat) # map Suc [0..<63]" by (simp add: upt_conv_Cons map_Suc_upt)
  moreover have "filter (bit w) (map Suc [0..<63]) = map Suc (filter (bit (drop_bit 1 w)) [0..<63])"
    unfolding filter_map comp_def bit_drop_bit_eq by simp
  moreover have "filter (bit (drop_bit 1 w)) [0..<64] = filter (bit (drop_bit 1 w)) [0..<63]"
  proof -
    have "\<not> bit (drop_bit 1 w) 63" unfolding bit_drop_bit_eq by (simp add: bit_word.rep_eq)
    moreover have "[0..<64] = [0..<63] @ [63 :: nat]" using upt_Suc_append [of 0 63] by simp
    ultimately show ?thesis by simp
  qed
  ultimately show ?thesis by simp
qed

text \<open>When every callback returns, the loop runs those of the bits that are set, in ascending order.\<close>

lemma ipi_process_loop_runs:
  assumes "\<And>e p w. Option.bind (ipi_ops_array g ! e) op_process = Some p \<Longrightarrow> fst (p me w)"
  shows "ipi_process_loop g me itype e w =
    (True, fold (\<lambda>k. run_event g me (e + k)) (filter (bit itype) [0..<64]) w)"
proof (induction "unat itype" arbitrary: itype e w rule: less_induct)
  case less
  show ?case
  proof (cases "itype = 0")
    case True
    then show ?thesis by (subst ipi_process_loop.simps) simp
  next
    case False
    let ?w = "if bit itype 0 then run_event g me e w else w"
    have "(if itype AND 1 \<noteq> 0
         then case Option.bind (ipi_ops_array g ! e) op_process of None \<Rightarrow> (True, w) | Some p \<Rightarrow> p me w
         else (True, w)) = (True, ?w)"
      using assms [of e _ w]
      by (auto simp: run_event_def bit_0 odd_iff_mod_2_eq_one and_one_eq prod_eq_iff split: option.split)
    then have "ipi_process_loop g me itype e w = ipi_process_loop g me (drop_bit 1 itype) (Suc e) ?w"
      using False by (subst ipi_process_loop.simps) (simp only: if_False prod.case not_True_eq_False)
    also have "\<dots> = (True, fold (\<lambda>k. run_event g me (Suc e + k)) (filter (bit (drop_bit 1 itype)) [0..<64]) ?w)"
      by (rule less) (rule unat_shift_less [OF False])
    finally show ?thesis by (subst word_bits_shift) (simp add: fold_map comp_def del: upt.simps)
  qed
qed

section \<open>Devices\<close>

text \<open>
  What sending the supervisor event to the harts \<open>S\<close> has done, \<open>raised\<close> being the pending interrupts of
  the device: the word of every other hart has the event's bit, the hart itself has its
  supervisor interrupt pending at once, and exactly the harts whose word was zero got an interrupt.
\<close>

definition delivered :: "('a ipi_system_scheme \<Rightarrow> nat set) \<Rightarrow> nat \<Rightarrow> u32 \<Rightarrow> nat set \<Rightarrow> 'a ipi_system_scheme \<Rightarrow> 'a ipi_system_scheme \<Rightarrow> bool" where
  "delivered raised me event S w w' \<longleftrightarrow>
     ipi_type w' = (\<lambda>h. if h \<in> S - {me} then ipi_type w h OR BIT (unat event) else ipi_type w h) \<and>
     harts w' = (\<lambda>h. if h = me \<and> me \<in> S then (harts w h)\<lparr>csr_mip := csr_mip (harts w h) OR MIP_SSIP\<rparr> else harts w h) \<and>
     raised w' = raised w \<union> {h \<in> S - {me}. ipi_type w h = 0}"

text \<open>
  What the code expects of an interrupt controller: \<open>raised\<close> is the set of harts with a
  pending interrupt, sending adds the target and clearing removes the hart itself, for the
  harts that are \<open>present\<close> and while the device is \<open>ready\<close>; neither touches the data of
  the library, and the device does not depend on them.
\<close>

locale ipi_controller =
  fixes g :: "('a ipi_system_scheme, 'd) ipi_globals"
    and ready :: "'a ipi_system_scheme \<Rightarrow> bool"
    and raised :: "'a ipi_system_scheme \<Rightarrow> nat set"
    and present :: "nat set"
  assumes raw_send: "ready w \<Longrightarrow> h \<in> present \<Longrightarrow>
      \<exists>w'. sbi_ipi_raw_send g h w = (0, w') \<and> ready w' \<and> raised w' = insert h (raised w) \<and>
        ipi_type w' = ipi_type w \<and> harts w' = harts w"
    and raw_clear: "ready w \<Longrightarrow> h \<in> present \<Longrightarrow> w' = sbi_ipi_raw_clear g h w \<Longrightarrow>
      ready w' \<and> raised w' = raised w - {h} \<and> ipi_type w' = ipi_type w \<and> harts w' = harts w"
    and frame: "ready (ipi_type_update f w) = ready w" "raised (ipi_type_update f w) = raised w"
      "ready (harts_update k w) = ready w" "raised (harts_update k w) = raised w"
begin

lemma trigger:
  assumes "ready w" "h \<in> present"
  shows "\<exists>w'. ipi_trigger g h event w = (0, w') \<and> ready w' \<and>
    raised w' = raised w \<union> (if ipi_type w h = 0 then {h} else {}) \<and>
    ipi_type w' = (ipi_type w)(h := ipi_type w h OR BIT (unat event)) \<and> harts w' = harts w"
  using raw_send [of "snd (ipi_type_or h (BIT (unat event)) w)" h] assms frame
  by (auto simp: ipi_trigger_def ipi_type_or_def)

lemma send_smode:
  assumes "event_ops g event = Some ipi_smode_ops" "sbi_hartindex_to_scratch sst h \<noteq> None"
    "ready w" "h \<in> present"
  shows "\<exists>w'. sbi_ipi_send g sst me h event d w = (Some 0, w') \<and> ready w' \<and> delivered raised me event {h} w w'"
proof (cases "h = me")
  case True
  then have "sbi_ipi_send g sst me h event d w =
      (Some 0, on_hart me (\<lambda>h. h\<lparr>csr_mip := csr_mip h OR MIP_SSIP\<rparr>) w)"
    using assms(1,2) by (auto simp: sbi_ipi_send_def ipi_smode_ops_def sbi_ipi_process_smode_def)
  then show ?thesis
    using assms(3) frame(3,4) True by (auto simp: delivered_def on_hart_def)
next
  case False
  then have "sbi_ipi_send g sst me h event d w = apfst Some (ipi_trigger g h event w)"
    using assms(1,2) by (auto simp: sbi_ipi_send_def ipi_smode_ops_def)
  then show ?thesis
    using trigger [OF assms(3,4), of event] False by (auto simp: delivered_def fun_eq_iff)
qed

lemma delivered_more:
  assumes "delivered raised me event {i} w w1" "delivered raised me event S w1 w'" "i \<notin> S"
  shows "delivered raised me event (insert i S) w w'"
  using assms unfolding delivered_def fun_eq_iff by (auto split: if_splits)

lemma pass_smode:
  assumes "event_ops g event = Some ipi_smode_ops"
    "\<forall>h \<in> set is. sbi_hartindex_to_scratch sst h \<noteq> None \<and> h \<in> present" "distinct is" "ready w"
  shows "\<exists>t' w'. ipi_pass (\<lambda>i. sbi_ipi_send g sst me i event d) is t False w = Pass_done t' False w' \<and>
    delivered raised me event (set is) w w'"
  using assms(2-)
proof (induction "is" arbitrary: t w)
  case Nil
  show ?case by (auto simp: delivered_def)
next
  case (Cons i "is")
  obtain w1 where w1: "sbi_ipi_send g sst me i event d w = (Some 0, w1)" "ready w1" "delivered raised me event {i} w w1"
    using send_smode [OF assms(1), of sst i w me d] Cons.prems by auto
  obtain t' w' where w': "ipi_pass (\<lambda>i. sbi_ipi_send g sst me i event d) is (sbi_hartmask_clear_hartindex i t) False w1 =
      Pass_done t' False w'" "delivered raised me event (set is) w1 w'"
    using Cons.IH [OF _ _ w1(2), of "sbi_hartmask_clear_hartindex i t"] Cons.prems by auto
  then have "ipi_pass (\<lambda>i. sbi_ipi_send g sst me i event d) (i # is) t False w = Pass_done t' False w'"
    using w1(1) by (simp add: ipi_updates)
  then show ?case using delivered_more [OF w1(3) w'(2)] Cons.prems(2) by auto
qed

lemma send_smode_many:
  assumes "event_ops g (ipi_smode_event g) = Some ipi_smode_ops" "ready w"
    "wf_mask (assigned_harts dm)" "target_set sst dm w hmask hbase \<subseteq> present"
  shows "\<exists>w'. sbi_ipi_send_smode g sst me (Some dm) hmask hbase d w = Some (Some 0, w') \<and>
    delivered raised me (ipi_smode_event g) (target_set sst dm w hmask hbase) w w'"
proof -
  let ?t = "ipi_targets sst (Some dm) w hmask hbase"
  have t: "set (sbi_hartmask_harts ?t) = target_set sst dm w hmask hbase" "distinct (sbi_hartmask_harts ?t)"
    by (simp_all add: mask_harts ipi_targets_set [OF assms(3)])
  have "\<forall>h \<in> set (sbi_hartmask_harts ?t). sbi_hartindex_to_scratch sst h \<noteq> None \<and> h \<in> present"
    using assms(4) unfolding t(1) by (auto simp: target_set_def)
  from pass_smode [OF assms(1) this t(2) assms(2), of me d ?t] obtain t' w' where
    "ipi_pass (\<lambda>i. sbi_ipi_send g sst me i (ipi_smode_event g) d) (sbi_hartmask_harts ?t) ?t False w = Pass_done t' False w'"
    "delivered raised me (ipi_smode_event g) (target_set sst dm w hmask hbase) w w'"
    unfolding t(1) by blast
  then show ?thesis
    using assms(1)
    by (auto simp: sbi_ipi_send_smode_def sbi_ipi_send_many_def ipi_passes.simps sbi_ipi_sync_def ipi_smode_ops_def)
qed

end


section \<open>Harts that send and receive at the same time\<close>

text \<open>
  Where a hart is: outside this code, between its \<open>fetch_or\<close> and the \<open>ipi_send\<close> that follows
  it, between the clearing of its interrupt and the swap, or in the loop over the swapped
  word.  \<open>owed h\<close> are the events sent to hart \<open>h\<close> whose callback has not run since.
\<close>

datatype ipi_pc = Free | Raising nat | Cleared | Handling u64 nat

record 'w ipi_race =
  rw :: 'w
  pcs :: "nat \<Rightarrow> ipi_pc"
  owed :: "nat \<Rightarrow> nat set"

text \<open>
  The atomic steps of hart \<open>h\<close> among the harts \<open>H\<close>.  A callback may change what the harts
  keep outside \<open>ipi_type\<close>.
\<close>

inductive ipi_step ::
  "('a ipi_system_scheme, 'd) ipi_globals \<Rightarrow> nat set \<Rightarrow> nat \<Rightarrow> 'a ipi_system_scheme ipi_race \<Rightarrow>
   'a ipi_system_scheme ipi_race \<Rightarrow> bool" for g H h where
  send: "pcs s h = Free \<Longrightarrow> h \<in> H \<Longrightarrow> t \<in> H \<Longrightarrow> h \<noteq> t \<Longrightarrow> e < 64 \<Longrightarrow> ipi_type_or t (BIT e) (rw s) = (old, w) \<Longrightarrow>
    ipi_step g H h s (s\<lparr>rw := w, pcs := (pcs s)(h := if old = 0 then Raising t else Free),
      owed := (owed s)(t := insert e (owed s t))\<rparr>)"
| raise: "pcs s h = Raising t \<Longrightarrow> h \<in> H \<Longrightarrow> sbi_ipi_raw_send g t (rw s) = (rc, w) \<Longrightarrow>
    ipi_step g H h s (s\<lparr>rw := w, pcs := (pcs s)(h := Free)\<rparr>)"
| clear: "pcs s h = Free \<Longrightarrow> h \<in> H \<Longrightarrow>
    ipi_step g H h s (s\<lparr>rw := sbi_ipi_raw_clear g h (rw s), pcs := (pcs s)(h := Cleared)\<rparr>)"
| swap: "pcs s h = Cleared \<Longrightarrow> h \<in> H \<Longrightarrow> ipi_type_xchg h (rw s) = (itype, w) \<Longrightarrow>
    ipi_step g H h s (s\<lparr>rw := w, pcs := (pcs s)(h := Handling itype 0)\<rparr>)"
| handle: "pcs s h = Handling itype e \<Longrightarrow> h \<in> H \<Longrightarrow> itype \<noteq> 0 \<Longrightarrow>
    ipi_step g H h s (s\<lparr>rw := harts_update k (rw s), pcs := (pcs s)(h := Handling (drop_bit 1 itype) (Suc e)),
      owed := (owed s)(h := if bit itype 0 then owed s h - {e} else owed s h)\<rparr>)"
| finish: "pcs s h = Handling 0 e \<Longrightarrow> h \<in> H \<Longrightarrow> ipi_step g H h s (s\<lparr>pcs := (pcs s)(h := Free)\<rparr>)"

inductive ipi_reachable ::
  "('a ipi_system_scheme, 'd) ipi_globals \<Rightarrow> nat set \<Rightarrow> 'a ipi_system_scheme \<Rightarrow> 'a ipi_system_scheme ipi_race \<Rightarrow> bool"
  for g H w0 where
  start: "ipi_reachable g H w0 \<lparr>rw = w0\<lparr>ipi_type := (\<lambda>_. 0)\<rparr>, pcs = (\<lambda>_. Free), owed = (\<lambda>_. {})\<rparr>"
| step: "ipi_reachable g H w0 s \<Longrightarrow> ipi_step g H h s s' \<Longrightarrow> ipi_reachable g H w0 s'"

text \<open>The events of the part of the word a hart still has to handle.\<close>

fun handling :: "ipi_pc \<Rightarrow> nat set" where
  "handling (Handling itype e) = {e + k |k. bit itype k}"
| "handling _ = {}"

text \<open>
  No event is lost: what is owed is in the word or in hand, and a word that is not zero
  belongs to a hart that has its interrupt pending, will get it from a sender on its way, or
  is about to swap the word.
\<close>

definition wakes :: "('w \<Rightarrow> nat set) \<Rightarrow> 'w ipi_race \<Rightarrow> nat \<Rightarrow> bool" where
  "wakes raised s h \<longleftrightarrow> h \<in> raised (rw s) \<or> (\<exists>j. pcs s j = Raising h) \<or> pcs s h = Cleared"

definition kept_events :: "nat set \<Rightarrow> ('a ipi_system_scheme \<Rightarrow> nat set) \<Rightarrow> 'a ipi_system_scheme ipi_race \<Rightarrow> bool" where
  "kept_events H raised s \<longleftrightarrow>
     (\<forall>h e. e \<in> owed s h \<longrightarrow> h \<in> H \<and> (bit (ipi_type (rw s) h) e \<or> e \<in> handling (pcs s h))) \<and>
     (\<forall>h. ipi_type (rw s) h \<noteq> 0 \<longrightarrow> h \<in> H \<and> wakes raised s h) \<and> (\<forall>j t. pcs s j = Raising t \<longrightarrow> t \<in> H)"

lemma handling_next:
  "handling (Handling itype e) =
     handling (Handling (drop_bit 1 itype) (Suc e)) \<union> (if bit itype 0 then {e} else {})"
proof -
  have split: "(\<exists>k. P k) \<longleftrightarrow> (\<exists>k. P (Suc k)) \<or> P 0" for P :: "nat \<Rightarrow> bool" by (metis not0_implies_Suc)
  have "x \<in> handling (Handling itype e) \<longleftrightarrow>
      x \<in> handling (Handling (drop_bit 1 itype) (Suc e)) \<union> (if bit itype 0 then {e} else {})" for x
    unfolding handling.simps mem_Collect_eq by (subst split) (auto simp: bit_drop_bit_eq)
  then show ?thesis by blast
qed

lemma bit_BIT: "e < 64 \<Longrightarrow> bit (BIT e) k \<longleftrightarrow> k = e"
  by (auto simp: BIT_def bit_simps)


lemma wakes_move:
  assumes "wakes raised s j"
    "j \<in> raised (rw s) \<Longrightarrow> j \<in> raised (rw s') \<or> pcs s' j = Cleared"
    "\<And>i. pcs s i = Raising j \<Longrightarrow> pcs s' i = Raising j \<or> j \<in> raised (rw s')"
    "pcs s j = Cleared \<Longrightarrow> pcs s' j = Cleared"
  shows "wakes raised s' j"
  using assms unfolding wakes_def by blast

lemma kept_eventsI:
  assumes "\<And>h e. e \<in> owed s h \<Longrightarrow> h \<in> H \<and> (bit (ipi_type (rw s) h) e \<or> e \<in> handling (pcs s h))"
    "\<And>h. ipi_type (rw s) h \<noteq> 0 \<Longrightarrow> h \<in> H \<and> wakes raised s h"
    "\<And>j t. pcs s j = Raising t \<Longrightarrow> t \<in> H"
  shows "kept_events H raised s"
  using assms unfolding kept_events_def by blast

lemma kept_eventsD:
  assumes "kept_events H raised s"
  shows "e \<in> owed s h \<Longrightarrow> h \<in> H" "e \<in> owed s h \<Longrightarrow> bit (ipi_type (rw s) h) e \<or> e \<in> handling (pcs s h)"
    "ipi_type (rw s) h \<noteq> 0 \<Longrightarrow> h \<in> H" "ipi_type (rw s) h \<noteq> 0 \<Longrightarrow> wakes raised s h"
    "pcs s j = Raising t \<Longrightarrow> t \<in> H"
  using assms unfolding kept_events_def by blast+

lemma kept_same:
  assumes "kept_events H raised s" "ipi_type (rw s') = ipi_type (rw s)" "owed s' = owed s"
    "\<And>j. handling (pcs s j) \<subseteq> handling (pcs s' j)" "\<And>j. wakes raised s j \<Longrightarrow> wakes raised s' j"
    "\<And>j t. pcs s' j = Raising t \<Longrightarrow> pcs s j = Raising t"
  shows "kept_events H raised s'"
  unfolding kept_events_def assms(2,3)
  using kept_eventsD [OF assms(1)] assms(4-6) by (meson subsetD)

context ipi_controller
begin

lemma kept_start: "kept_events H raised \<lparr>rw = w\<lparr>ipi_type := (\<lambda>_. 0)\<rparr>, pcs = (\<lambda>_. Free), owed = (\<lambda>_. {})\<rparr>"
  by (simp add: kept_events_def)

lemma kept_send:
  assumes "kept_events H raised s" "pcs s h = Free" "t \<in> H" "e < 64" "ipi_type_or t (BIT e) (rw s) = (old, w)"
  shows "kept_events H raised (s\<lparr>rw := w, pcs := (pcs s)(h := if old = 0 then Raising t else Free),
      owed := (owed s)(t := insert e (owed s t))\<rparr>)" (is "kept_events H raised ?s")
proof (rule kept_eventsI)
  note k = kept_eventsD [OF assms(1)]
  have w: "ipi_type w = (ipi_type (rw s))(t := ipi_type (rw s) t OR BIT e)" "raised w = raised (rw s)"
      "old = ipi_type (rw s) t"
    using assms(5) frame(2) by (auto simp: ipi_type_or_def)
  show "j \<in> H \<and> (bit (ipi_type (rw ?s) j) x \<or> x \<in> handling (pcs ?s j))" if "x \<in> owed ?s j" for j x
    using that k(1,2) [of x j] assms(2-4) w(1) by (auto simp: bit_or_iff bit_BIT split: if_splits)
  show "j \<in> H \<and> wakes raised ?s j" if "ipi_type (rw ?s) j \<noteq> 0" for j
  proof (cases "ipi_type (rw s) j = 0")
    case True
    then have "j = t" "old = 0" using that w by (auto split: if_splits)
    then show ?thesis using assms(3) by (auto simp: wakes_def)
  next
    case False
    have "wakes raised ?s j"
      by (rule wakes_move [OF k(4) [OF False]]) (simp_all add: w(2), (use assms(2) in force)+)
    then show ?thesis using k(3) [OF False] by simp
  qed
  show "t' \<in> H" if "pcs ?s j = Raising t'" for j t'
    using that k(5) [of j t'] assms(3) by (auto split: if_splits)
qed

lemma kept_raise:
  assumes "kept_events H raised s" "ready (rw s)" "pcs s h = Raising t" "H \<subseteq> present"
    "sbi_ipi_raw_send g t (rw s) = (rc, w)"
  shows "kept_events H raised (s\<lparr>rw := w, pcs := (pcs s)(h := Free)\<rparr>) \<and> ready w" (is "kept_events H raised ?s \<and> _")
proof -
  note k = kept_eventsD [OF assms(1)]
  have "t \<in> present" using k(5) [OF assms(3)] assms(4) by blast
  then have w: "ready w" "raised w = insert t (raised (rw s))" "ipi_type w = ipi_type (rw s)"
    using raw_send [OF assms(2), of t] assms(5) by auto
  have "kept_events H raised ?s"
  proof (rule kept_same [OF assms(1)])
    show "wakes raised ?s j" if "wakes raised s j" for j
      by (rule wakes_move [OF that]) (simp_all add: w(2), (use assms(3) in force)+)
  qed (use w(3) assms(3) in \<open>auto split: if_splits\<close>)
  then show ?thesis using w(1) by simp
qed

lemma kept_clear:
  assumes "kept_events H raised s" "ready (rw s)" "pcs s h = Free" "h \<in> present"
  shows "kept_events H raised (s\<lparr>rw := sbi_ipi_raw_clear g h (rw s), pcs := (pcs s)(h := Cleared)\<rparr>) \<and>
    ready (sbi_ipi_raw_clear g h (rw s))" (is "kept_events H raised ?s \<and> _")
proof -
  let ?w = "sbi_ipi_raw_clear g h (rw s)"
  have w: "ready ?w" "raised ?w = raised (rw s) - {h}" "ipi_type ?w = ipi_type (rw s)"
    using raw_clear [OF assms(2,4) refl] by auto
  have "kept_events H raised ?s"
  proof (rule kept_same [OF assms(1)])
    show "wakes raised ?s j" if "wakes raised s j" for j
      by (rule wakes_move [OF that]) (simp_all add: w(2), (use assms(3) in force)+)
  qed (use w(3) assms(3) in \<open>auto split: if_splits\<close>)
  then show ?thesis using w(1) by simp
qed

lemma kept_swap:
  assumes "kept_events H raised s" "pcs s h = Cleared" "ipi_type_xchg h (rw s) = (itype, w)"
  shows "kept_events H raised (s\<lparr>rw := w, pcs := (pcs s)(h := Handling itype 0)\<rparr>)" (is "kept_events H raised ?s")
proof (rule kept_eventsI)
  note k = kept_eventsD [OF assms(1)]
  have w: "ipi_type w = (ipi_type (rw s))(h := 0)" "raised w = raised (rw s)" "itype = ipi_type (rw s) h"
    using assms(3) frame(2) by (auto simp: ipi_type_xchg_def)
  show "j \<in> H \<and> (bit (ipi_type (rw ?s) j) x \<or> x \<in> handling (pcs ?s j))" if "x \<in> owed ?s j" for j x
    using that k(1,2) [of x j] assms(2) w by (cases "j = h") auto
  show "j \<in> H \<and> wakes raised ?s j" if "ipi_type (rw ?s) j \<noteq> 0" for j
  proof -
    have j: "j \<noteq> h" "ipi_type (rw s) j \<noteq> 0" using that w(1) by (auto split: if_splits)
    have "wakes raised ?s j"
      by (rule wakes_move [OF k(4) [OF j(2)]]) (simp_all add: w(2) j(1), (use assms(2) j(1) in force)+)
    then show ?thesis using k(3) [OF j(2)] by simp
  qed
  show "t' \<in> H" if "pcs ?s j = Raising t'" for j t'
    using that k(5) [of j t'] by (auto split: if_splits)
qed

lemma kept_handle:
  assumes "kept_events H raised s" "pcs s h = Handling itype e"
  shows "kept_events H raised (s\<lparr>rw := harts_update f (rw s), pcs := (pcs s)(h := Handling (drop_bit 1 itype) (Suc e)),
      owed := (owed s)(h := if bit itype 0 then owed s h - {e} else owed s h)\<rparr>)" (is "kept_events H raised ?s")
proof (rule kept_eventsI)
  note k = kept_eventsD [OF assms(1)]
  show "j \<in> H \<and> (bit (ipi_type (rw ?s) j) x \<or> x \<in> handling (pcs ?s j))" if "x \<in> owed ?s j" for j x
  proof -
    have "x \<in> owed s j" using that by (auto split: if_splits)
    moreover have "x \<in> handling (pcs ?s j)" if "x \<in> handling (pcs s j)"
      using that \<open>x \<in> owed ?s j\<close> handling_next [of itype e] assms(2)
      by (cases "j = h") (auto simp del: handling.simps split: if_splits)
    ultimately show ?thesis using k(1,2) [of x j] by auto
  qed
  show "j \<in> H \<and> wakes raised ?s j" if "ipi_type (rw ?s) j \<noteq> 0" for j
  proof -
    have j: "ipi_type (rw s) j \<noteq> 0" using that by simp
    have "wakes raised ?s j"
      by (rule wakes_move [OF k(4) [OF j]]) (simp_all add: frame(4), (use assms(2) in force)+)
    then show ?thesis using k(3) [OF j] by simp
  qed
  show "t' \<in> H" if "pcs ?s j = Raising t'" for j t'
    using that k(5) [of j t'] by (auto split: if_splits)
qed

lemma kept_finish:
  assumes "kept_events H raised s" "pcs s h = Handling 0 e"
  shows "kept_events H raised (s\<lparr>pcs := (pcs s)(h := Free)\<rparr>)" (is "kept_events H raised ?s")
proof (rule kept_same [OF assms(1)])
  show "wakes raised ?s j" if "wakes raised s j" for j
    by (rule wakes_move [OF that]) (use assms(2) in auto)
qed (use assms(2) in \<open>auto split: if_splits\<close>)

lemma kept_step:
  assumes "ipi_step g H h s s'" "kept_events H raised s" "ready (rw s)" "H \<subseteq> present"
  shows "kept_events H raised s' \<and> ready (rw s')"
  using assms(1)
proof (cases rule: ipi_step.cases)
  case (send t e old w)
  then show ?thesis using kept_send [OF assms(2) send(2,4,6,7)] assms(3) frame(1) by (auto simp: ipi_type_or_def)
next
  case (raise t rc w)
  then show ?thesis using kept_raise [OF assms(2,3) raise(2) assms(4) raise(4)] by simp
next
  case clear
  then show ?thesis using kept_clear [OF assms(2,3) clear(2)] assms(4) by (simp add: subset_iff)
next
  case (swap itype w)
  then show ?thesis using kept_swap [OF assms(2) swap(2,4)] assms(3) frame(1) by (auto simp: ipi_type_xchg_def)
next
  case (handle itype e k)
  then show ?thesis using kept_handle [OF assms(2) handle(2), of k] assms(3) frame(3) by simp
next
  case (finish e)
  then show ?thesis using kept_finish [OF assms(2) finish(2)] assms(3) by simp
qed

lemma reachable_kept:
  assumes "ipi_reachable g H w0 s" "ready w0" "H \<subseteq> present"
  shows "kept_events H raised s \<and> ready (rw s)"
  using assms(1)
proof (induction rule: ipi_reachable.induct)
  case start
  show ?case using kept_start assms(2) frame(1) by simp
next
  case (step s h s')
  then show ?case using kept_step assms(3) by blast
qed

end


text \<open>Left alone, a hart in its loop runs the callbacks of all it has in hand.\<close>

lemma handle_all:
  assumes "pcs s h = Handling itype e" "h \<in> H"
  shows "\<exists>s'. (ipi_step g H h)\<^sup>*\<^sup>* s s' \<and> pcs s' h = Free \<and> owed s' h = owed s h - handling (Handling itype e)"
  using assms(1)
proof (induction "unat itype" arbitrary: itype e s rule: less_induct)
  case less
  show ?case
  proof (cases "itype = 0")
    case True
    then have "ipi_step g H h s (s\<lparr>pcs := (pcs s)(h := Free)\<rparr>)"
      using ipi_step.finish less.prems assms(2) by blast
    then show ?thesis
      using True by (intro exI [of _ "s\<lparr>pcs := (pcs s)(h := Free)\<rparr>"]) (simp add: r_into_rtranclp)
  next
    case False
    let ?s = "s\<lparr>rw := harts_update id (rw s), pcs := (pcs s)(h := Handling (drop_bit 1 itype) (Suc e)),
      owed := (owed s)(h := if bit itype 0 then owed s h - {e} else owed s h)\<rparr>"
    have step: "ipi_step g H h s ?s" by (rule ipi_step.handle [OF less.prems assms(2) False])
    have "pcs ?s h = Handling (drop_bit 1 itype) (Suc e)" by simp
    from less.hyps [OF unat_shift_less [OF False] this] obtain s' where
      s': "(ipi_step g H h)\<^sup>*\<^sup>* ?s s'" "pcs s' h = Free"
        "owed s' h = owed ?s h - handling (Handling (drop_bit 1 itype) (Suc e))" by blast
    have "owed s' h = owed s h - handling (Handling itype e)"
      unfolding s'(3) handling_next [of itype e] by (auto simp del: handling.simps)
    then show ?thesis using s'(1,2) converse_rtranclp_into_rtranclp [of "ipi_step g H h", OF step] by blast
  qed
qed

context ipi_controller
begin

lemma events_kept:
  assumes "ipi_reachable g H w0 s" "ready w0" "H \<subseteq> present" "e \<in> owed s h"
  shows "bit (ipi_type (rw s) h) e \<and> wakes raised s h \<or> e \<in> handling (pcs s h)"
proof -
  have k: "kept_events H raised s" using reachable_kept [OF assms(1-3)] by blast
  have "ipi_type (rw s) h \<noteq> 0" if "bit (ipi_type (rw s) h) e" using that by auto
  then show ?thesis using kept_eventsD(2,4) [OF k] assms(4) by blast
qed

text \<open>A hart that enters \<open>sbi_ipi_process\<close> leaves it with none of the events it was owed.\<close>

lemma events_handled:
  assumes "ipi_reachable g H w0 s" "ready w0" "H \<subseteq> present" "pcs s h = Free" "h \<in> H"
  shows "\<exists>s'. (ipi_step g H h)\<^sup>*\<^sup>* s s' \<and> pcs s' h = Free \<and> owed s' h = {}"
proof -
  let ?w = "sbi_ipi_raw_clear g h (rw s)" and ?t = "ipi_type (rw s) h"
  let ?s1 = "s\<lparr>rw := ?w, pcs := (pcs s)(h := Cleared)\<rparr>"
  let ?s2 = "?s1\<lparr>rw := ?w\<lparr>ipi_type := (ipi_type ?w)(h := 0)\<rparr>, pcs := (pcs ?s1)(h := Handling ?t 0)\<rparr>"
  have k: "kept_events H raised s" "ready (rw s)" using reachable_kept [OF assms(1-3)] by auto
  have "h \<in> present" using assms(3,5) by blast
  then have "ipi_type ?w h = ?t" using raw_clear [OF k(2) _ refl] by simp
  then have "ipi_type_xchg h (rw ?s1) = (?t, ?w\<lparr>ipi_type := (ipi_type ?w)(h := 0)\<rparr>)"
    by (simp add: ipi_type_xchg_def)
  then have "ipi_step g H h ?s1 ?s2" by (intro ipi_step.swap) (simp_all add: assms(5))
  moreover have "ipi_step g H h s ?s1" by (rule ipi_step.clear [OF assms(4,5)])
  ultimately have two: "(ipi_step g H h)\<^sup>*\<^sup>* s ?s2" by (meson converse_rtranclp_into_rtranclp r_into_rtranclp)
  have "pcs ?s2 h = Handling ?t 0" by simp
  from handle_all [OF this assms(5), of g] obtain s' where
    s': "(ipi_step g H h)\<^sup>*\<^sup>* ?s2 s'" "pcs s' h = Free" "owed s' h = owed ?s2 h - handling (Handling ?t 0)" by blast
  have "owed s h \<subseteq> handling (Handling ?t 0)"
    using kept_eventsD(2) [OF k(1)] assms(4) by fastforce
  then have "owed s' h = {}" using s'(3) by (auto simp del: handling.simps)
  then show ?thesis using s'(2) rtranclp_trans [OF two s'(1)] by blast
qed

end

end
