(* ===== verification/SbiMswi.thy ===== *)
theory SbiMswi
  imports SbiIpi
begin

text \<open>
  The ACLINT software interrupt device (\<open>lib/utils/ipi/aclint_mswi.c\<close>): one 32-bit register
  per hart, 1 raises the hart's machine software interrupt and 0 clears it.  It implements the
  controller interface of the interrupt code, whose properties are stated here for it.
\<close>

unbundle bit_operations_syntax

section \<open>The driver\<close>

definition ACLINT_MSWI_ALIGN :: u64 where "ACLINT_MSWI_ALIGN = 0x1000"
definition ACLINT_MSWI_MAX_HARTS :: u32 where "ACLINT_MSWI_MAX_HARTS = 4095"

record aclint_mswi_data =
  mswi_addr :: u64
  mswi_size :: u64
  first_hartid :: u32
  hart_count :: u32

text \<open>The pointer each hart has in its scratch space, and the device registers by address.\<close>

record mswi_system = ipi_system +
  mswi_ptr :: "nat \<Rightarrow> aclint_mswi_data option"
  mmio :: "u64 \<Rightarrow> u32"

definition msip_address :: "aclint_mswi_data \<Rightarrow> u32 \<Rightarrow> u64" where
  "msip_address d hartid = mswi_addr d + 4 * ucast (hartid - first_hartid d)"

definition mswi_ipi_send :: "scratch_state \<Rightarrow> nat \<Rightarrow> 'a mswi_system_scheme \<Rightarrow> 'a mswi_system_scheme" where
  "mswi_ipi_send sst hart_index w =
     (case sbi_hartindex_to_scratch sst hart_index of
        None \<Rightarrow> w
      | Some _ \<Rightarrow>
          (case mswi_ptr w hart_index of
             None \<Rightarrow> w
           | Some d \<Rightarrow> w\<lparr>mmio := (mmio w)(msip_address d (sbi_hartindex_to_hartid sst hart_index) := 1)\<rparr>))"

definition mswi_ipi_clear :: "scratch_state \<Rightarrow> nat \<Rightarrow> 'a mswi_system_scheme \<Rightarrow> 'a mswi_system_scheme" where
  "mswi_ipi_clear sst me w =
     (case mswi_ptr w me of
        None \<Rightarrow> w
      | Some d \<Rightarrow> w\<lparr>mmio := (mmio w)(msip_address d (sbi_hartindex_to_hartid sst me) := 0)\<rparr>)"

definition aclint_mswi :: "scratch_state \<Rightarrow> 'a mswi_system_scheme sbi_ipi_device" where
  "aclint_mswi sst = \<lparr>ipi_send = Some (mswi_ipi_send sst), ipi_clear = Some (mswi_ipi_clear sst)\<rparr>"

fun mswi_ptr_loop ::
  "scratch_state \<Rightarrow> aclint_mswi_data \<Rightarrow> u32 \<Rightarrow> nat \<Rightarrow> 'a mswi_system_scheme \<Rightarrow> 'a mswi_system_scheme" where
  "mswi_ptr_loop sst d i 0 w = w"
| "mswi_ptr_loop sst d i (Suc m) w =
     (let h = sbi_hartid_to_hartindex sst (first_hartid d + i) in
      mswi_ptr_loop sst d (i + 1) m
        (if sbi_hartindex_to_scratch sst h = None then w else w\<lparr>mswi_ptr := (mswi_ptr w)(h := Some d)\<rparr>))"

record 'a mswi_boot =
  mswi_ptr_offset :: u64
  boot_sst :: scratch_state
  boot_domains :: domain_state
  boot_ipi :: "('a mswi_system_scheme, unit) ipi_globals"
  boot_sys :: "'a mswi_system_scheme"

definition mswi_sane :: "aclint_mswi_data \<Rightarrow> bool" where
  "mswi_sane d \<longleftrightarrow>
     mswi_addr d AND (ACLINT_MSWI_ALIGN - 1) = 0 \<and> \<not> mswi_size d < ucast (hart_count d) * 4 \<and>
     hart_count d \<noteq> 0 \<and> \<not> ACLINT_MSWI_MAX_HARTS < hart_count d"

text \<open>\<open>fuel\<close> bounds the loops of \<open>sbi_domain_root_add_memrange\<close>; \<open>None\<close> when it is too small.\<close>

definition aclint_mswi_cold_init ::
  "nat \<Rightarrow> aclint_mswi_data option \<Rightarrow> 'a mswi_boot \<Rightarrow> (int \<times> 'a mswi_boot) option" where
  "aclint_mswi_cold_init fuel mswi b =
     (case mswi of
        None \<Rightarrow> Some (SBI_EINVAL, b)
      | Some d \<Rightarrow>
          if \<not> mswi_sane d then Some (SBI_EINVAL, b)
          else
            let b = (if mswi_ptr_offset b = 0
                     then case sbi_scratch_alloc_offset 8 (boot_sst b) of
                            (off, sst) \<Rightarrow> b\<lparr>mswi_ptr_offset := off, boot_sst := sst\<rparr>
                     else b)
            in if mswi_ptr_offset b = 0 then Some (SBI_ENOMEM, b)
               else
                 let b = b\<lparr>boot_sys := mswi_ptr_loop (boot_sst b) d 0 (unat (hart_count d)) (boot_sys b)\<rparr>
                 in (case sbi_domain_root_add_memrange fuel (sbi_hartindex_valid (boot_sst b)) (mswi_addr d) (mswi_size d)
                            ACLINT_MSWI_ALIGN (MEMREGION_MMIO OR MEMREGION_M_READABLE OR MEMREGION_M_WRITABLE)
                            (boot_domains b) of
                       None \<Rightarrow> None
                     | Some (rc, ds) \<Rightarrow>
                         if rc \<noteq> 0 then Some (rc, b\<lparr>boot_domains := ds\<rparr>)
                         else Some (0, b\<lparr>boot_domains := ds,
                                boot_ipi := sbi_ipi_set_device (Some (aclint_mswi (boot_sst b))) (boot_ipi b)\<rparr>)))"

section \<open>The controller interface\<close>

definition mswi_present :: "scratch_state \<Rightarrow> nat set" where
  "mswi_present sst = {h. sbi_hartindex_to_scratch sst h \<noteq> None}"

definition msip_of :: "scratch_state \<Rightarrow> 'a mswi_system_scheme \<Rightarrow> nat \<Rightarrow> u64" where
  "msip_of sst w h = msip_address (the (mswi_ptr w h)) (sbi_hartindex_to_hartid sst h)"

text \<open>Every hart has a device, and no two harts share a register.\<close>

definition mswi_ready :: "scratch_state \<Rightarrow> 'a mswi_system_scheme \<Rightarrow> bool" where
  "mswi_ready sst w \<longleftrightarrow>
     (\<forall>h \<in> mswi_present sst. mswi_ptr w h \<noteq> None) \<and> inj_on (msip_of sst w) (mswi_present sst)"

definition mswi_raised :: "scratch_state \<Rightarrow> 'a mswi_system_scheme \<Rightarrow> nat set" where
  "mswi_raised sst w = {h \<in> mswi_present sst. bit (mmio w (msip_of sst w h)) 0}"

lemma mswi_frame [simp]:
  "mswi_ready sst (ipi_type_update f w) = mswi_ready sst w" "mswi_raised sst (ipi_type_update f w) = mswi_raised sst w"
  "mswi_ready sst (harts_update k w) = mswi_ready sst w" "mswi_raised sst (harts_update k w) = mswi_raised sst w"
  "msip_of sst (mmio_update m w) = msip_of sst w" "mswi_ready sst (mmio_update m w) = mswi_ready sst w"
  by (simp_all add: mswi_ready_def mswi_raised_def msip_of_def [abs_def])

lemma mswi_write:
  assumes "mswi_ready sst w" "h \<in> mswi_present sst"
  shows "mswi_raised sst (w\<lparr>mmio := (mmio w)(msip_of sst w h := v)\<rparr>) =
    (if bit v 0 then insert h (mswi_raised sst w) else mswi_raised sst w - {h})"
proof -
  have "msip_of sst w j = msip_of sst w h \<longleftrightarrow> j = h" if "j \<in> mswi_present sst" for j
    using assms that by (auto simp: mswi_ready_def inj_on_def)
  then show ?thesis using assms(2) by (auto simp: mswi_raised_def)
qed

interpretation mswi: ipi_controller "g\<lparr>ipi_dev := Some (aclint_mswi tab)\<rparr>" "mswi_ready tab" "mswi_raised tab"
  "mswi_present tab" for g :: "('a mswi_system_scheme, 'd) ipi_globals" and tab
proof unfold_locales
  fix w :: "'a mswi_system_scheme" and h w'
  assume w: "mswi_ready tab w" "h \<in> mswi_present tab"
  then obtain d where d: "mswi_ptr w h = Some d" by (auto simp: mswi_ready_def)
  then have a: "msip_address d (sbi_hartindex_to_hartid tab h) = msip_of tab w h" by (simp add: msip_of_def)
  have s: "sbi_ipi_raw_send (g\<lparr>ipi_dev := Some (aclint_mswi tab)\<rparr>) h w = (0, w\<lparr>mmio := (mmio w)(msip_of tab w h := 1)\<rparr>)"
    using w(2) d by (auto simp: sbi_ipi_raw_send_def aclint_mswi_def mswi_ipi_send_def mswi_present_def a)
  show "\<exists>w'. sbi_ipi_raw_send (g\<lparr>ipi_dev := Some (aclint_mswi tab)\<rparr>) h w = (0, w') \<and> mswi_ready tab w' \<and>
      mswi_raised tab w' = insert h (mswi_raised tab w) \<and> ipi_type w' = ipi_type w \<and> harts w' = harts w"
    unfolding s using w(1) mswi_write [OF w, of 1] by simp
  have c: "sbi_ipi_raw_clear (g\<lparr>ipi_dev := Some (aclint_mswi tab)\<rparr>) h w = w\<lparr>mmio := (mmio w)(msip_of tab w h := 0)\<rparr>"
    using d by (simp add: sbi_ipi_raw_clear_def aclint_mswi_def mswi_ipi_clear_def a)
  assume "w' = sbi_ipi_raw_clear (g\<lparr>ipi_dev := Some (aclint_mswi tab)\<rparr>) h w"
  then show "mswi_ready tab w' \<and> mswi_raised tab w' = mswi_raised tab w - {h} \<and> ipi_type w' = ipi_type w \<and> harts w' = harts w"
    unfolding c using w(1) mswi_write [OF w, of 0] by simp
qed simp_all


section \<open>After the initialisation\<close>

lemma mswi_ptr_loop_ptr:
  "mswi_ptr (mswi_ptr_loop sst d i m w) h =
     (if (\<exists>k < m. h = sbi_hartid_to_hartindex sst (first_hartid d + i + of_nat k)) \<and> sbi_hartindex_to_scratch sst h \<noteq> None
      then Some d else mswi_ptr w h)"
proof (induction sst d i m w rule: mswi_ptr_loop.induct)
  case (2 sst d i m w)
  have e: "(\<exists>k < Suc m. h = sbi_hartid_to_hartindex sst (first_hartid d + i + of_nat k)) \<longleftrightarrow>
      h = sbi_hartid_to_hartindex sst (first_hartid d + i) \<or>
      (\<exists>k < m. h = sbi_hartid_to_hartindex sst (first_hartid d + (i + 1) + of_nat k))"
    by (simp add: Ex_less_Suc2 add.assoc)
  show ?case unfolding mswi_ptr_loop.simps Let_def 2 [OF refl] e by auto
qed simp

lemma cold_init_ready:
  assumes "aclint_mswi_cold_init fuel (Some d) b = Some (0, b')" "ipi_dev (boot_ipi b) = None"
    and sst: "wf_scratch (boot_sst b')"
    and ids: "\<And>h. h \<in> mswi_present (boot_sst b') \<Longrightarrow> sbi_hartindex_to_hartid (boot_sst b') h - first_hartid d < hart_count d"
  shows "mswi_ready (boot_sst b') (boot_sys b') \<and> ipi_dev (boot_ipi b') = Some (aclint_mswi (boot_sst b'))"
proof -
  let ?s = "boot_sst b'" and ?n = "unat (hart_count d)"
  obtain w where b': "boot_sys b' = mswi_ptr_loop ?s d 0 ?n w" "boot_ipi b' = sbi_ipi_set_device (Some (aclint_mswi ?s)) (boot_ipi b)"
    using assms(1)
    by (auto simp: aclint_mswi_cold_init_def Let_def sbi_errors split: if_splits option.splits prod.splits)
  have v: "sbi_hartindex_valid ?s h" if "h \<in> mswi_present ?s" for h
    using that by (auto simp: mswi_present_def sbi_hartindex_to_scratch_def sbi_hartindex_valid_def split: if_splits)
  have p: "mswi_ptr (boot_sys b') h = Some d" if h: "h \<in> mswi_present ?s" for h
  proof -
    let ?k = "unat (sbi_hartindex_to_hartid ?s h - first_hartid d)"
    have "?k < ?n" using ids [OF h] by (simp add: word_less_nat_alt)
    moreover have "h = sbi_hartid_to_hartindex ?s (first_hartid d + 0 + of_nat ?k)"
      using hartid_to_hartindex_valid [OF sst v [OF h]] by simp
    ultimately show ?thesis
      using h unfolding b'(1) mswi_ptr_loop_ptr mswi_present_def mem_Collect_eq by (metis (lifting))
  qed
  have "inj_on (msip_of ?s (boot_sys b')) (mswi_present ?s)"
  proof (rule inj_onI)
    fix h j assume hj: "h \<in> mswi_present ?s" "j \<in> mswi_present ?s" "msip_of ?s (boot_sys b') h = msip_of ?s (boot_sys b') j"
    let ?a = "sbi_hartindex_to_hartid ?s h - first_hartid d" and ?b = "sbi_hartindex_to_hartid ?s j - first_hartid d"
    have "4 * ucast ?a = (4 * ucast ?b :: u64)" using hj by (simp add: msip_of_def p msip_address_def)
    then have "unat (4 * ucast ?a :: u64) = unat (4 * ucast ?b :: u64)" by simp
    moreover have "unat (4 * ucast x :: u64) = 4 * unat x" for x :: u32
    proof -
      have "unat x < 2 ^ 32" using unsigned_less [of x] by simp
      then show ?thesis by (simp add: unat_word_ariths unsigned_ucast_eq take_bit_eq_mod)
    qed
    ultimately have "?a = ?b" by (simp add: word_unat_eq_iff)
    then have "sbi_hartindex_to_hartid ?s h = sbi_hartindex_to_hartid ?s j" by simp
    then show "h = j"
      using hartid_to_hartindex_valid [OF sst v [OF hj(1)]] hartid_to_hartindex_valid [OF sst v [OF hj(2)]] by metis
  qed
  then show ?thesis using p b'(2) assms(2) by (simp add: mswi_ready_def sbi_ipi_set_device_def)
qed


section \<open>Properties\<close>

lemma ipi_dev_same: "ipi_dev g = Some d \<Longrightarrow> g\<lparr>ipi_dev := Some d\<rparr> = g"
  by simp

text \<open>
  \<open>sbi_ipi_send_smode\<close> interrupts exactly the harts the caller may and wants to reach: the
  harts assigned to its domain that are started, suspended or resuming and, unless
  \<open>hbase\<close> is -1, are named by the mask.  It returns 0; the caller's own supervisor software interrupt is made
  pending at once, the word of every other target gets the event's bit, and the
  device interrupt of exactly those targets whose word was zero is raised; nothing else changes.
\<close>

lemma sbi_ipi_send_smode_correct:
  assumes "ipi_dev g = Some (aclint_mswi sst)" "mswi_ready sst w"
    and "event_ops g (ipi_smode_event g) = Some ipi_smode_ops" "wf_mask (assigned_harts dm)"
  shows "\<exists>w'. sbi_ipi_send_smode g sst me (Some dm) hmask hbase null w = Some (Some 0, w') \<and>
    delivered (mswi_raised sst) me (ipi_smode_event g) (target_set sst dm w hmask hbase) w w'"
proof -
  have "target_set sst dm w hmask hbase \<subseteq> mswi_present sst" by (auto simp: target_set_def mswi_present_def)
  then show ?thesis
    using mswi.send_smode_many [where g = g and tab = sst and sst = sst] assms by (simp add: ipi_dev_same)
qed


definition demo_world :: mswi_system where
  "demo_world = \<lparr>harts = (\<lambda>_. demo_hart SBI_HSM_STATE_STARTED), hsm_dev = None, ipi_type = (\<lambda>_. 0),
     mswi_ptr = (\<lambda>_. Some \<lparr>mswi_addr = 0x2000000, mswi_size = 0x4000, first_hartid = 0, hart_count = 8\<rparr>), mmio = (\<lambda>_. 0)\<rparr>"

definition demo_ipi :: "(mswi_system, unit) ipi_globals" where
  "demo_ipi = \<lparr>ipi_data_off = 120, ipi_dev = Some (aclint_mswi demo_sst),
     ipi_ops_array = Some ipi_smode_ops # replicate 63 None, ipi_smode_event = 0, ipi_halt_event = 1\<rparr>"

lemma demo_present: "mswi_present demo_sst = {0, 1}"
  by (auto simp: mswi_present_def sbi_hartindex_to_scratch_def demo_sst_def demo_scratch_def)

lemma demo_ready: "mswi_ready demo_sst demo_world"
  unfolding mswi_ready_def demo_present
  by (simp add: demo_world_def msip_of_def msip_address_def sbi_hartindex_to_hartid_def demo_sst_def demo_scratch_def)


end
