(* ===== verification/SbiTlb.thy ===== *)
theory SbiTlb
  imports SbiMswi SbiFifo
begin

text \<open>
  Remote fences (\<open>lib/sbi/sbi_tlb.c\<close> and \<open>lib/sbi/sbi_ecall_rfence.c\<close>): a hart that wants others to
  execute a fence puts a request into the queue of each of them, counts it in its own counter
  and interrupts them; they execute the fence and decrement the counters of the harts
  recorded in the request.  Requests for overlapping ranges are merged in the queue.
\<close>

unbundle bit_operations_syntax

section \<open>Data\<close>

definition PAGE_SIZE :: u64 where "PAGE_SIZE = 0x1000"
definition SBI_TLB_FLUSH_ALL :: u64 where "SBI_TLB_FLUSH_ALL = - 1"
definition HGATP_VMID_SHIFT :: nat where "HGATP_VMID_SHIFT = 44"
definition HGATP_VMID_MASK :: u64 where "HGATP_VMID_MASK = 0x03FFF00000000000"

definition SBI_TLB_FENCE_I :: int where "SBI_TLB_FENCE_I = 0"
definition SBI_TLB_SFENCE_VMA :: int where "SBI_TLB_SFENCE_VMA = 1"
definition SBI_TLB_SFENCE_VMA_ASID :: int where "SBI_TLB_SFENCE_VMA_ASID = 2"
definition SBI_TLB_HFENCE_GVMA_VMID :: int where "SBI_TLB_HFENCE_GVMA_VMID = 3"
definition SBI_TLB_HFENCE_GVMA :: int where "SBI_TLB_HFENCE_GVMA = 4"
definition SBI_TLB_HFENCE_VVMA_ASID :: int where "SBI_TLB_HFENCE_VVMA_ASID = 5"
definition SBI_TLB_HFENCE_VVMA :: int where "SBI_TLB_HFENCE_VVMA = 6"
definition SBI_TLB_TYPE_MAX :: int where "SBI_TLB_TYPE_MAX = 7"

lemmas tlb_types =
  SBI_TLB_FENCE_I_def SBI_TLB_SFENCE_VMA_def SBI_TLB_SFENCE_VMA_ASID_def SBI_TLB_HFENCE_GVMA_VMID_def
  SBI_TLB_HFENCE_GVMA_def SBI_TLB_HFENCE_VVMA_ASID_def SBI_TLB_HFENCE_VVMA_def SBI_TLB_TYPE_MAX_def

record sbi_tlb_info =
  tlb_start :: u64
  tlb_size :: u64
  tlb_asid :: u16
  tlb_vmid :: u16
  tlb_type :: int
  smask :: sbi_hartmask

text \<open>
  The fence instructions; those for the stage behind \<open>hgatp\<close> carry its value when they are executed.
\<close>

datatype fence =
    Fence_i
  | Sfence_vma_all
  | Sfence_vma u64
  | Sfence_vma_asid_all u64
  | Sfence_vma_asid u64 u64
  | Hfence_gvma_all
  | Hfence_gvma_gpa u64
  | Hfence_gvma_vmid u64
  | Hfence_gvma_vmid_gpa u64 u64
  | Hfence_vvma_all u64
  | Hfence_vvma_va u64 u64
  | Hfence_vvma_asid u64 u64
  | Hfence_vvma_asid_va u64 u64 u64

section \<open>Local fences\<close>

text \<open>The loop over the pages; \<open>None\<close> when the 64-bit index wraps around below the size.\<close>

partial_function (option) page_loop :: "(u64 \<Rightarrow> fence) \<Rightarrow> u64 \<Rightarrow> u64 \<Rightarrow> u64 \<Rightarrow> fence list option" where
  "page_loop f start sz i =
     (if i < sz then Option.bind (page_loop f start sz (i + PAGE_SIZE)) (\<lambda>fs. Some (f (start + i) # fs))
      else Some [])"

definition flush_all :: "sbi_tlb_info \<Rightarrow> bool" where
  "flush_all t \<longleftrightarrow> tlb_start t = 0 \<and> tlb_size t = 0 \<or> tlb_size t = SBI_TLB_FLUSH_ALL"

text \<open>Each fence gets \<open>hgatp\<close> and returns the fences it executed and \<open>hgatp\<close> at the end.\<close>

definition sbi_tlb_local_hfence_vvma :: "sbi_tlb_info \<Rightarrow> u64 \<Rightarrow> (fence list \<times> u64) option" where
  "sbi_tlb_local_hfence_vvma t hgatp =
     (let saved = hgatp; hgatp = push_bit HGATP_VMID_SHIFT (ucast (tlb_vmid t)) AND HGATP_VMID_MASK in
      if flush_all t then Some ([Hfence_vvma_all hgatp], saved)
      else map_option (\<lambda>fs. (fs, saved)) (page_loop (Hfence_vvma_va hgatp) (tlb_start t) (tlb_size t) 0))"

definition sbi_tlb_local_hfence_gvma :: "sbi_tlb_info \<Rightarrow> u64 \<Rightarrow> (fence list \<times> u64) option" where
  "sbi_tlb_local_hfence_gvma t hgatp =
     (if flush_all t then Some ([Hfence_gvma_all], hgatp)
      else map_option (\<lambda>fs. (fs, hgatp)) (page_loop (\<lambda>a. Hfence_gvma_gpa (drop_bit 2 a)) (tlb_start t) (tlb_size t) 0))"

definition sbi_tlb_local_sfence_vma :: "sbi_tlb_info \<Rightarrow> u64 \<Rightarrow> (fence list \<times> u64) option" where
  "sbi_tlb_local_sfence_vma t hgatp =
     (if flush_all t then Some ([Sfence_vma_all], hgatp)
      else map_option (\<lambda>fs. (fs, hgatp)) (page_loop Sfence_vma (tlb_start t) (tlb_size t) 0))"

definition sbi_tlb_local_hfence_vvma_asid :: "sbi_tlb_info \<Rightarrow> u64 \<Rightarrow> (fence list \<times> u64) option" where
  "sbi_tlb_local_hfence_vvma_asid t hgatp =
     (let asid = ucast (tlb_asid t); saved = hgatp;
          hgatp = push_bit HGATP_VMID_SHIFT (ucast (tlb_vmid t)) AND HGATP_VMID_MASK in
      if flush_all t then Some ([Hfence_vvma_asid hgatp asid], saved)
      else map_option (\<lambda>fs. (fs, saved)) (page_loop (\<lambda>a. Hfence_vvma_asid_va hgatp a asid) (tlb_start t) (tlb_size t) 0))"

definition sbi_tlb_local_hfence_gvma_vmid :: "sbi_tlb_info \<Rightarrow> u64 \<Rightarrow> (fence list \<times> u64) option" where
  "sbi_tlb_local_hfence_gvma_vmid t hgatp =
     (let vmid = ucast (tlb_vmid t) in
      if flush_all t then Some ([Hfence_gvma_vmid vmid], hgatp)
      else map_option (\<lambda>fs. (fs, hgatp))
             (page_loop (\<lambda>a. Hfence_gvma_vmid_gpa (drop_bit 2 a) vmid) (tlb_start t) (tlb_size t) 0))"

definition sbi_tlb_local_sfence_vma_asid :: "sbi_tlb_info \<Rightarrow> u64 \<Rightarrow> (fence list \<times> u64) option" where
  "sbi_tlb_local_sfence_vma_asid t hgatp =
     (let asid = ucast (tlb_asid t) in
      if flush_all t then Some ([Sfence_vma_asid_all asid], hgatp)
      else map_option (\<lambda>fs. (fs, hgatp)) (page_loop (\<lambda>a. Sfence_vma_asid a asid) (tlb_start t) (tlb_size t) 0))"

definition sbi_tlb_local_fence_i :: "sbi_tlb_info \<Rightarrow> u64 \<Rightarrow> (fence list \<times> u64) option" where
  "sbi_tlb_local_fence_i t hgatp = Some ([Fence_i], hgatp)"

definition tlb_entry_local_process :: "sbi_tlb_info option \<Rightarrow> u64 \<Rightarrow> (fence list \<times> u64) option" where
  "tlb_entry_local_process data hgatp =
     (case data of
        None \<Rightarrow> Some ([], hgatp)
      | Some t \<Rightarrow>
          if tlb_type t = SBI_TLB_FENCE_I then sbi_tlb_local_fence_i t hgatp
          else if tlb_type t = SBI_TLB_SFENCE_VMA then sbi_tlb_local_sfence_vma t hgatp
          else if tlb_type t = SBI_TLB_SFENCE_VMA_ASID then sbi_tlb_local_sfence_vma_asid t hgatp
          else if tlb_type t = SBI_TLB_HFENCE_GVMA_VMID then sbi_tlb_local_hfence_gvma_vmid t hgatp
          else if tlb_type t = SBI_TLB_HFENCE_GVMA then sbi_tlb_local_hfence_gvma t hgatp
          else if tlb_type t = SBI_TLB_HFENCE_VVMA_ASID then sbi_tlb_local_hfence_vvma_asid t hgatp
          else if tlb_type t = SBI_TLB_HFENCE_VVMA then sbi_tlb_local_hfence_vvma t hgatp
          else Some ([], hgatp))"

section \<open>Merging requests\<close>

text \<open>The entry \<open>cur\<close> of the queue is updated in place; the verdict comes first.\<close>

definition tlb_range_check :: "sbi_tlb_info \<Rightarrow> sbi_tlb_info \<Rightarrow> int \<times> sbi_tlb_info" where
  "tlb_range_check cur nxt =
     (let next_end = tlb_start nxt + tlb_size nxt; curr_end = tlb_start cur + tlb_size cur in
      if tlb_start nxt \<le> tlb_start cur \<and> curr_end < next_end then
        (SBI_FIFO_UPDATED,
         cur\<lparr>tlb_start := tlb_start nxt, tlb_size := tlb_size nxt,
              smask := sbi_hartmask_or (smask cur) (smask cur) (smask nxt)\<rparr>)
      else if tlb_start cur \<le> tlb_start nxt \<and> next_end \<le> curr_end then
        (SBI_FIFO_SKIP, cur\<lparr>smask := sbi_hartmask_or (smask cur) (smask cur) (smask nxt)\<rparr>)
      else (SBI_FIFO_UNCHANGED, cur))"

definition tlb_update_cb :: "sbi_tlb_info \<Rightarrow> sbi_tlb_info \<Rightarrow> int \<times> sbi_tlb_info" where
  "tlb_update_cb nxt cur =
     (if tlb_type nxt = SBI_TLB_SFENCE_VMA_ASID \<and> tlb_type cur = SBI_TLB_SFENCE_VMA_ASID then
        (if tlb_asid nxt = tlb_asid cur then tlb_range_check cur nxt else (SBI_FIFO_UNCHANGED, cur))
      else if tlb_type nxt = SBI_TLB_SFENCE_VMA \<and> tlb_type cur = SBI_TLB_SFENCE_VMA
      then tlb_range_check cur nxt
      else (SBI_FIFO_UNCHANGED, cur))"

section \<open>Processing and requesting\<close>

text \<open>
  The per-hart data: the queue as the list it holds (at most \<open>tlb_fifo_cap\<close> entries), the counter, \<open>hgatp\<close>, and
  the fences executed so far.
\<close>

record tlb_system = mswi_system +
  tlb_fifo :: "nat \<Rightarrow> sbi_tlb_info list"
  tlb_fifo_cap :: nat
  tlb_sync_cnt :: "nat \<Rightarrow> int"
  csr_hgatp :: "nat \<Rightarrow> u64"
  fences :: "nat \<Rightarrow> fence list"

definition local_process :: "nat \<Rightarrow> sbi_tlb_info \<Rightarrow> 'a tlb_system_scheme \<Rightarrow> 'a tlb_system_scheme option" where
  "local_process me t w =
     map_option (\<lambda>(fs, hg). w\<lparr>fences := (fences w)(me := fences w me @ fs), csr_hgatp := (csr_hgatp w)(me := hg)\<rparr>)
       (tlb_entry_local_process (Some t) (csr_hgatp w me))"

definition sync_sub :: "scratch_state \<Rightarrow> nat \<Rightarrow> 'a tlb_system_scheme \<Rightarrow> 'a tlb_system_scheme" where
  "sync_sub sst rindex w =
     (if sbi_hartindex_to_scratch sst rindex = None then w
      else w\<lparr>tlb_sync_cnt := (tlb_sync_cnt w)(rindex := tlb_sync_cnt w rindex - 1)\<rparr>)"

definition tlb_entry_process ::
  "scratch_state \<Rightarrow> nat \<Rightarrow> sbi_tlb_info \<Rightarrow> 'a tlb_system_scheme \<Rightarrow> 'a tlb_system_scheme option" where
  "tlb_entry_process sst me t w = map_option (fold (sync_sub sst) (sbi_hartmask_harts (smask t))) (local_process me t w)"

text \<open>\<open>tlb_process_once\<close>; \<open>None\<close> when the fence of the entry does not end.\<close>

definition tlb_process_once ::
  "scratch_state \<Rightarrow> nat \<Rightarrow> 'a tlb_system_scheme \<Rightarrow> (bool \<times> 'a tlb_system_scheme) option" where
  "tlb_process_once sst me w =
     (case tlb_fifo w me of
        [] \<Rightarrow> Some (False, w)
      | t # ts \<Rightarrow> map_option (\<lambda>w. (True, w)) (tlb_entry_process sst me t (w\<lparr>tlb_fifo := (tlb_fifo w)(me := ts)\<rparr>)))"

partial_function (option) tlb_process_loop ::
  "scratch_state \<Rightarrow> nat \<Rightarrow> 'a tlb_system_scheme \<Rightarrow> 'a tlb_system_scheme option" where
  "tlb_process_loop sst me w =
     Option.bind (tlb_process_once sst me w) (\<lambda>(more, w). if more then tlb_process_loop sst me w else Some w)"

definition tlb_process :: "scratch_state \<Rightarrow> nat \<Rightarrow> 'a tlb_system_scheme \<Rightarrow> bool \<times> 'a tlb_system_scheme" where
  "tlb_process sst me w = (case tlb_process_loop sst me w of None \<Rightarrow> (False, w) | Some w \<Rightarrow> (True, w))"

partial_function (option) tlb_sync ::
  "scratch_state \<Rightarrow> nat \<Rightarrow> 'a tlb_system_scheme \<Rightarrow> 'a tlb_system_scheme option" where
  "tlb_sync sst me w =
     (if 0 < tlb_sync_cnt w me then Option.bind (tlb_process_once sst me w) (\<lambda>(_, w). tlb_sync sst me w)
      else Some w)"

text \<open>The queue operations \<open>tlb_update\<close> performs on the target: merge, else append while there is room.\<close>

definition tlb_fifo_put :: "nat \<Rightarrow> sbi_tlb_info \<Rightarrow> sbi_tlb_info list \<Rightarrow> sbi_tlb_info list option" where
  "tlb_fifo_put cap t q =
     (case update_list (tlb_update_cb t) SBI_FIFO_UNCHANGED q of (ret, q') \<Rightarrow>
        if ret = SBI_FIFO_UNCHANGED then (if length q' < cap then Some (q' @ [t]) else None)
        else Some q')"

definition sync_add :: "nat \<Rightarrow> 'a tlb_system_scheme \<Rightarrow> 'a tlb_system_scheme" where
  "sync_add me w = w\<lparr>tlb_sync_cnt := (tlb_sync_cnt w)(me := tlb_sync_cnt w me + 1)\<rparr>"

definition tlb_update ::
  "scratch_state \<Rightarrow> nat \<Rightarrow> nat \<Rightarrow> sbi_tlb_info \<Rightarrow> 'a tlb_system_scheme \<Rightarrow> int option \<times> 'a tlb_system_scheme" where
  "tlb_update sst me remote t w =
     (if sbi_hartindex_to_hartid sst remote = sbi_hartindex_to_hartid sst me then
        (case local_process me t w of None \<Rightarrow> (None, w) | Some w \<Rightarrow> (Some SBI_IPI_UPDATE_BREAK, w))
      else case tlb_fifo_put (tlb_fifo_cap w) t (tlb_fifo w remote) of
        None \<Rightarrow>
          (case tlb_process_once sst me w of None \<Rightarrow> (None, w) | Some (_, w) \<Rightarrow> (Some SBI_IPI_UPDATE_RETRY, w))
      | Some q \<Rightarrow>
          (Some SBI_IPI_UPDATE_SUCCESS, sync_add me (w\<lparr>tlb_fifo := (tlb_fifo w)(remote := q)\<rparr>)))"

definition tlb_ops :: "scratch_state \<Rightarrow> ('a tlb_system_scheme, sbi_tlb_info) sbi_ipi_event_ops" where
  "tlb_ops sst = \<lparr>op_update = Some (tlb_update sst), op_sync = Some (tlb_sync sst), op_process = Some (tlb_process sst)\<rparr>"

record tlb_globals =
  tlb_sync_off :: u64
  tlb_fifo_off :: u64
  tlb_fifo_mem_off :: u64
  tlb_range_flush_limit :: u64
  tlb_event :: u32

definition upgrade :: "u64 \<Rightarrow> sbi_tlb_info \<Rightarrow> sbi_tlb_info" where
  "upgrade limit t =
     (if limit < tlb_size t then t\<lparr>tlb_start := 0, tlb_size := SBI_TLB_FLUSH_ALL\<rparr> else t)"

definition sbi_tlb_request ::
  "('a tlb_system_scheme, sbi_tlb_info) ipi_globals \<Rightarrow> tlb_globals \<Rightarrow> scratch_state \<Rightarrow> nat \<Rightarrow> sbi_domain option \<Rightarrow>
   u64 \<Rightarrow> u64 \<Rightarrow> sbi_tlb_info \<Rightarrow> 'a tlb_system_scheme \<Rightarrow> (int option \<times> 'a tlb_system_scheme) option" where
  "sbi_tlb_request g tg sst me dm hmask hbase t w =
     (if tlb_type t < 0 \<or> SBI_TLB_TYPE_MAX \<le> tlb_type t then Some (Some SBI_EINVAL, w)
      else sbi_ipi_send_many g sst me dm hmask hbase (tlb_event tg) (upgrade (tlb_range_flush_limit tg) t) w)"

section \<open>Initialisation and the call from the supervisor\<close>

text \<open>
  \<open>sbi_tlb_init\<close>: \<open>limit\<close> and \<open>entries\<close> come from the platform, \<open>has_mem\<close> tells for which harts the scratch
  space already points to the memory of the queue and \<open>malloc_ok\<close> is the outcome of the allocation.
\<close>

definition tlb_init_hart :: "nat \<Rightarrow> nat \<Rightarrow> 'a tlb_system_scheme \<Rightarrow> 'a tlb_system_scheme" where
  "tlb_init_hart entries me w =
     w\<lparr>tlb_sync_cnt := (tlb_sync_cnt w)(me := 0), tlb_fifo := (tlb_fifo w)(me := []), tlb_fifo_cap := entries\<rparr>"

definition tlb_init_cold ::
  "u64 \<Rightarrow> tlb_globals \<times> ('a tlb_system_scheme, sbi_tlb_info) ipi_globals \<times> scratch_state \<Rightarrow>
   int \<times> tlb_globals \<times> ('a tlb_system_scheme, sbi_tlb_info) ipi_globals \<times> scratch_state" where
  "tlb_init_cold limit s =
     (case s of (tg, g, sst) \<Rightarrow>
        case sbi_scratch_alloc_offset 8 sst of (o1, sst) \<Rightarrow>
        let tg = tg\<lparr>tlb_sync_off := o1\<rparr> in
        if o1 = 0 then (SBI_ENOMEM, tg, g, sst)
        else case sbi_scratch_alloc_offset 24 sst of (o2, sst) \<Rightarrow>
        let tg = tg\<lparr>tlb_fifo_off := o2\<rparr> in
        if o2 = 0 then (SBI_ENOMEM, tg, g, sbi_scratch_free_offset o1 sst)
        else case sbi_scratch_alloc_offset 8 sst of (o3, sst) \<Rightarrow>
        let tg = tg\<lparr>tlb_fifo_mem_off := o3\<rparr> in
        if o3 = 0 then (SBI_ENOMEM, tg, g, sbi_scratch_free_offset o1 (sbi_scratch_free_offset o2 sst))
        else case sbi_ipi_event_create (Some (tlb_ops sst)) g of (ret, g) \<Rightarrow>
        if ret < 0
        then (ret, tg, g, sbi_scratch_free_offset o1 (sbi_scratch_free_offset o2 (sbi_scratch_free_offset o3 sst)))
        else (0, tg\<lparr>tlb_event := of_int ret, tlb_range_flush_limit := limit\<rparr>, g, sst))"

definition sbi_tlb_init ::
  "u64 \<Rightarrow> nat \<Rightarrow> bool \<Rightarrow> bool \<Rightarrow> nat \<Rightarrow> bool \<Rightarrow>
   tlb_globals \<times> ('a tlb_system_scheme, sbi_tlb_info) ipi_globals \<times> scratch_state \<Rightarrow> 'a tlb_system_scheme \<Rightarrow>
   int \<times> (tlb_globals \<times> ('a tlb_system_scheme, sbi_tlb_info) ipi_globals \<times> scratch_state) \<times> 'a tlb_system_scheme" where
  "sbi_tlb_init limit entries has_mem malloc_ok me cold_boot s w =
     (case (if cold_boot then tlb_init_cold limit s
            else (let tg = fst s in
                  if tlb_sync_off tg = 0 \<or> tlb_fifo_off tg = 0 \<or> tlb_fifo_mem_off tg = 0 then (SBI_ENOMEM, s)
                  else if SBI_IPI_EVENT_MAX \<le> tlb_event tg then (SBI_ENOSPC, s)
                  else (0, s))) of
        (rc, s) \<Rightarrow>
          if rc \<noteq> 0 then (rc, s, w)
          else if \<not> has_mem \<and> \<not> malloc_ok then (SBI_ENOMEM, s, w)
          else (0, s, tlb_init_hart entries me w))"

definition bitmap_zero_except :: "nat \<Rightarrow> sbi_hartmask" where
  "bitmap_zero_except exception =
     (let dst = sbi_hartmask_clear_all
      in if exception < SBI_HARTMASK_MAX_BITS then set_bit' exception dst else dst)"

definition SBI_TLB_INFO_INIT ::
  "scratch_state \<Rightarrow> u64 \<Rightarrow> u64 \<Rightarrow> u64 \<Rightarrow> u64 \<Rightarrow> int \<Rightarrow> u32 \<Rightarrow> sbi_tlb_info" where
  "SBI_TLB_INFO_INIT sst start sz asid vmid type src =
     \<lparr>tlb_start = start, tlb_size = sz, tlb_asid = ucast asid, tlb_vmid = ucast vmid, tlb_type = type,
      smask = bitmap_zero_except (sbi_hartid_to_hartindex sst src)\<rparr>"

record rfence_regs =
  ra0 :: u64
  ra1 :: u64
  ra2 :: u64
  ra3 :: u64
  ra4 :: u64

text \<open>The request of a function id, \<open>None\<close> for an unknown one; \<open>has_h\<close> says that the hart has the hypervisor extension.\<close>

definition rfence_info :: "scratch_state \<Rightarrow> u32 \<Rightarrow> u64 \<Rightarrow> u64 \<Rightarrow> rfence_regs \<Rightarrow> sbi_tlb_info option" where
  "rfence_info sst src hgatp funcid r =
     (let vmid = drop_bit HGATP_VMID_SHIFT (hgatp AND HGATP_VMID_MASK) in
      if funcid = 0 then Some (SBI_TLB_INFO_INIT sst 0 0 0 0 SBI_TLB_FENCE_I src)
      else if funcid = 4 then Some (SBI_TLB_INFO_INIT sst (ra2 r) (ra3 r) 0 0 SBI_TLB_HFENCE_GVMA src)
      else if funcid = 3 then Some (SBI_TLB_INFO_INIT sst (ra2 r) (ra3 r) 0 (ra4 r) SBI_TLB_HFENCE_GVMA_VMID src)
      else if funcid = 6 then Some (SBI_TLB_INFO_INIT sst (ra2 r) (ra3 r) 0 vmid SBI_TLB_HFENCE_VVMA src)
      else if funcid = 5 then Some (SBI_TLB_INFO_INIT sst (ra2 r) (ra3 r) (ra4 r) vmid SBI_TLB_HFENCE_VVMA_ASID src)
      else if funcid = 1 then Some (SBI_TLB_INFO_INIT sst (ra2 r) (ra3 r) 0 0 SBI_TLB_SFENCE_VMA src)
      else if funcid = 2 then Some (SBI_TLB_INFO_INIT sst (ra2 r) (ra3 r) (ra4 r) 0 SBI_TLB_SFENCE_VMA_ASID src)
      else None)"

definition sbi_ecall_rfence_handler ::
  "('a tlb_system_scheme, sbi_tlb_info) ipi_globals \<Rightarrow> tlb_globals \<Rightarrow> scratch_state \<Rightarrow> nat \<Rightarrow> sbi_domain option \<Rightarrow> bool \<Rightarrow>
   u64 \<Rightarrow> rfence_regs \<Rightarrow> 'a tlb_system_scheme \<Rightarrow> (int option \<times> 'a tlb_system_scheme) option" where
  "sbi_ecall_rfence_handler g tg sst me dm has_h funcid r w =
     (if 3 \<le> funcid \<and> funcid \<le> 6 \<and> \<not> has_h then Some (Some SBI_ENOTSUPP, w)
      else case rfence_info sst (sbi_hartindex_to_hartid sst me) (csr_hgatp w me) funcid r of
        None \<Rightarrow> Some (Some SBI_ENOTSUPP, w)
      | Some t \<Rightarrow> sbi_tlb_request g tg sst me dm (ra0 r) (ra1 r) t w)"


section \<open>What a request makes a hart execute\<close>

definition page_count :: "u64 \<Rightarrow> nat" where
  "page_count sz = (unat sz + 4095) div 4096"

lemma page_count_less: "k < page_count sz \<longleftrightarrow> 4096 * k < unat sz"
  unfolding page_count_def by linarith

lemma page_loop_from:
  assumes "unat sz \<le> 2 ^ 64 - 4096" "j \<le> page_count sz"
  shows "page_loop f start sz (of_nat (4096 * j)) =
    Some (map (\<lambda>k. f (start + of_nat (4096 * k))) [j..<page_count sz])"
  using assms(2)
proof (induction "page_count sz - j" arbitrary: j)
  case 0
  then have "j = page_count sz" by simp
  then have "\<not> 4096 * j < unat sz" "4096 * j \<le> unat sz + 4095"
    using page_count_less [of j sz] unfolding page_count_def by auto
  moreover have "unat sz + 4095 < 2 ^ 64" using assms(1) by simp
  ultimately have le: "unat sz \<le> 4096 * j" "4096 * j < 2 ^ 64" by linarith+
  have "unat (of_nat (4096 * j) :: u64) = 4096 * j" by (rule unat_of_nat_u64 [OF le(2)])
  then have "\<not> of_nat (4096 * j) < sz" using le(1) unfolding word_less_nat_alt by simp
  then show ?case using 0 by (subst page_loop.simps) simp
next
  case (Suc d)
  then have j: "j < page_count sz" by simp
  then have l: "4096 * j < unat sz" by (simp add: page_count_less)
  have "4096 * j < 2 ^ 64" by (rule less_trans [OF l u64_less])
  then have "unat (of_nat (4096 * j) :: u64) = 4096 * j" by (rule unat_of_nat_u64)
  with l have "of_nat (4096 * j) < sz" unfolding word_less_nat_alt by simp
  moreover have "(of_nat (4096 * j) :: u64) + PAGE_SIZE = of_nat (4096 * Suc j)" by (simp add: PAGE_SIZE_def)
  moreover have "page_loop f start sz (of_nat (4096 * Suc j)) =
      Some (map (\<lambda>k. f (start + of_nat (4096 * k))) [Suc j..<page_count sz])"
    using Suc j by (intro Suc.hyps(1)) auto
  ultimately show ?case using j by (subst page_loop.simps) (simp only: if_True Option.bind.simps upt_conv_Cons list.map)
qed

text \<open>The fence of one page and the fence of everything, by the type of the request.\<close>

definition page_fence :: "sbi_tlb_info \<Rightarrow> u64 \<Rightarrow> fence" where
  "page_fence t a =
     (let asid = ucast (tlb_asid t); vmid = ucast (tlb_vmid t);
          hgatp = push_bit HGATP_VMID_SHIFT vmid AND HGATP_VMID_MASK in
      if tlb_type t = SBI_TLB_SFENCE_VMA then Sfence_vma a
      else if tlb_type t = SBI_TLB_SFENCE_VMA_ASID then Sfence_vma_asid a asid
      else if tlb_type t = SBI_TLB_HFENCE_GVMA_VMID then Hfence_gvma_vmid_gpa (drop_bit 2 a) vmid
      else if tlb_type t = SBI_TLB_HFENCE_GVMA then Hfence_gvma_gpa (drop_bit 2 a)
      else if tlb_type t = SBI_TLB_HFENCE_VVMA_ASID then Hfence_vvma_asid_va hgatp a asid
      else Hfence_vvma_va hgatp a)"

definition all_fence :: "sbi_tlb_info \<Rightarrow> fence" where
  "all_fence t =
     (let asid = ucast (tlb_asid t); vmid = ucast (tlb_vmid t);
          hgatp = push_bit HGATP_VMID_SHIFT vmid AND HGATP_VMID_MASK in
      if tlb_type t = SBI_TLB_SFENCE_VMA then Sfence_vma_all
      else if tlb_type t = SBI_TLB_SFENCE_VMA_ASID then Sfence_vma_asid_all asid
      else if tlb_type t = SBI_TLB_HFENCE_GVMA_VMID then Hfence_gvma_vmid vmid
      else if tlb_type t = SBI_TLB_HFENCE_GVMA then Hfence_gvma_all
      else if tlb_type t = SBI_TLB_HFENCE_VVMA_ASID then Hfence_vvma_asid hgatp asid
      else Hfence_vvma_all hgatp)"

definition tlb_fences :: "sbi_tlb_info \<Rightarrow> fence list" where
  "tlb_fences t =
     (if tlb_type t = SBI_TLB_FENCE_I then [Fence_i]
      else if flush_all t then [all_fence t]
      else map (\<lambda>k. page_fence t (tlb_start t + of_nat (4096 * k))) [0..<page_count (tlb_size t)])"

definition tlb_bounded :: "sbi_tlb_info \<Rightarrow> bool" where
  "tlb_bounded t \<longleftrightarrow> (unat (tlb_size t) \<le> 2 ^ 64 - 4096 \<or> tlb_size t = SBI_TLB_FLUSH_ALL) \<and>
     0 \<le> tlb_type t \<and> tlb_type t < SBI_TLB_TYPE_MAX"

lemma local_process_fences:
  assumes "tlb_bounded t"
  shows "tlb_entry_local_process (Some t) hgatp = Some (tlb_fences t, hgatp)"
proof -
  have loop: "page_loop f (tlb_start t) (tlb_size t) 0 =
      Some (map (\<lambda>k. f (tlb_start t + of_nat (4096 * k))) [0..<page_count (tlb_size t)])" if "\<not> flush_all t" for f
    using page_loop_from [of "tlb_size t" 0 f "tlb_start t"] assms that by (auto simp: tlb_bounded_def flush_all_def)
  have "tlb_type t \<in> {0, 1, 2, 3, 4, 5, 6}" using assms by (auto simp: tlb_bounded_def SBI_TLB_TYPE_MAX_def)
  then show ?thesis
    by (cases "flush_all t")
      (auto simp: tlb_entry_local_process_def tlb_fences_def page_fence_def all_fence_def tlb_types loop Let_def
        sbi_tlb_local_fence_i_def sbi_tlb_local_sfence_vma_def sbi_tlb_local_sfence_vma_asid_def
        sbi_tlb_local_hfence_gvma_vmid_def sbi_tlb_local_hfence_gvma_def sbi_tlb_local_hfence_vvma_asid_def
        sbi_tlb_local_hfence_vvma_def)
qed


section \<open>Soundness of merging\<close>

text \<open>A fence makes another one superfluous when it is the same or the one for all pages.\<close>

fun stronger :: "fence \<Rightarrow> fence \<Rightarrow> bool" where
  "stronger Sfence_vma_all (Sfence_vma _) = True"
| "stronger (Sfence_vma_asid_all a) (Sfence_vma_asid _ b) = (a = b)"
| "stronger f f' = (f = f')"

definition covers :: "fence list \<Rightarrow> fence list \<Rightarrow> bool" where
  "covers fs gs \<longleftrightarrow> (\<forall>g \<in> set gs. \<exists>f \<in> set fs. stronger f g)"

lemma stronger_refl [simp]: "stronger f f"
  by (cases f) auto

lemma stronger_trans: "stronger f g \<Longrightarrow> stronger g h \<Longrightarrow> stronger f h"
  by (cases f; cases g; cases h) auto

lemma covers_refl: "covers fs fs"
  by (auto simp: covers_def intro: stronger_refl)

lemma covers_trans: "covers fs gs \<Longrightarrow> covers gs hs \<Longrightarrow> covers fs hs"
  unfolding covers_def using stronger_trans by blast

lemma covers_append: "covers fs gs \<Longrightarrow> covers (pre @ fs @ post) gs"
  unfolding covers_def by auto

definition is_sfence :: "sbi_tlb_info \<Rightarrow> bool" where
  "is_sfence t \<longleftrightarrow> tlb_type t = SBI_TLB_SFENCE_VMA \<or> tlb_type t = SBI_TLB_SFENCE_VMA_ASID"

text \<open>
  A request whose range the queue understands: page aligned, and either the encoding (0, -1)
  of everything or a range that ends below \<open>2\<^sup>6\<^sup>4\<close> and is not the encoding (0, 0) of everything.
\<close>

definition tlb_plain :: "sbi_tlb_info \<Rightarrow> bool" where
  "tlb_plain t \<longleftrightarrow> unat (tlb_start t) mod 4096 = 0 \<and>
     (tlb_start t = 0 \<and> tlb_size t = SBI_TLB_FLUSH_ALL \<or>
      \<not> flush_all t \<and> unat (tlb_start t) + unat (tlb_size t) < 2 ^ 64 \<and> unat (tlb_size t) \<le> 2 ^ 64 - 4096)"

definition tlb_ok :: "sbi_tlb_info \<Rightarrow> bool" where
  "tlb_ok t \<longleftrightarrow> tlb_bounded t \<and> wf_mask (smask t) \<and> (is_sfence t \<longrightarrow> tlb_plain t)"

definition same_kind :: "sbi_tlb_info \<Rightarrow> sbi_tlb_info \<Rightarrow> bool" where
  "same_kind t u \<longleftrightarrow> is_sfence t \<and> tlb_type t = tlb_type u \<and> (tlb_type t = SBI_TLB_SFENCE_VMA_ASID \<longrightarrow> tlb_asid t = tlb_asid u)"

lemma same_kind_fences:
  assumes "same_kind t u"
  shows "page_fence t = page_fence u" "all_fence t = all_fence u" "stronger (all_fence t) (page_fence u a)"
    "tlb_type t \<noteq> SBI_TLB_FENCE_I" "tlb_type u \<noteq> SBI_TLB_FENCE_I"
  using assms by (auto simp: same_kind_def is_sfence_def page_fence_def all_fence_def tlb_types Let_def fun_eq_iff)

lemma plain_end:
  assumes "tlb_plain t"
  shows "unat (tlb_start t + tlb_size t) = unat (tlb_start t) + unat (tlb_size t)"
    "unat (tlb_start t) + unat (tlb_size t) < 2 ^ 64"
  using assms unat_add_lem [of "tlb_start t" "tlb_size t"] u64_less [of "tlb_size t"] by (auto simp: tlb_plain_def)

lemma range_covers:
  assumes "same_kind t u" "tlb_plain t" "tlb_plain u"
    and le: "unat (tlb_start t) \<le> unat (tlb_start u)"
      "unat (tlb_start u) + unat (tlb_size u) \<le> unat (tlb_start t) + unat (tlb_size t)"
  shows "covers (tlb_fences t) (tlb_fences u)"
proof (cases "flush_all t")
  case True
  then have "set (tlb_fences t) = {all_fence t}" using same_kind_fences [OF assms(1)] by (simp add: tlb_fences_def)
  then show ?thesis
    using same_kind_fences [OF assms(1)] by (auto simp: covers_def tlb_fences_def)
next
  case False
  then have t: "unat (tlb_size t) \<le> 2 ^ 64 - 4096" using assms(2) by (auto simp: tlb_plain_def flush_all_def)
  have all: "unat SBI_TLB_FLUSH_ALL = 2 ^ 64 - 1" by (simp add: SBI_TLB_FLUSH_ALL_def unsigned_minus_1_eq_mask mask_eq_exp_minus_1)
  have nu: "\<not> flush_all u"
  proof
    assume "flush_all u"
    then have "unat (tlb_start u) = 0" "unat (tlb_size u) = 2 ^ 64 - 1" using assms(3) all by (auto simp: tlb_plain_def)
    then show False using le t by simp
  qed
  have "\<exists>k' < page_count (tlb_size t). tlb_start u + of_nat (4096 * k) = tlb_start t + of_nat (4096 * k')"
    if k: "k < page_count (tlb_size u)" for k
  proof -
    obtain d where d: "unat (tlb_start u) = unat (tlb_start t) + 4096 * d"
    proof -
      have "4096 dvd unat (tlb_start u) - unat (tlb_start t)"
        using assms(2,3) by (intro dvd_diff_nat) (auto simp: tlb_plain_def)
      then show ?thesis using that le(1) by (metis dvdE le_add_diff_inverse)
    qed
    have "4096 * (d + k) < unat (tlb_size t)" using k d le(2) by (simp add: page_count_less)
    moreover have "tlb_start u = tlb_start t + of_nat (4096 * d)" using arg_cong [OF d, of "of_nat :: nat \<Rightarrow> u64"] by simp
    ultimately show ?thesis by (intro exI [of _ "d + k"]) (simp add: page_count_less distrib_left)
  qed
  then show ?thesis
    using False nu same_kind_fences [OF assms(1)] by (force simp: covers_def tlb_fences_def)
qed

text \<open>What a merged entry does for the requests that went into it.\<close>

definition merges :: "sbi_tlb_info \<Rightarrow> sbi_tlb_info \<Rightarrow> sbi_tlb_info \<Rightarrow> bool" where
  "merges cur nxt cur' \<longleftrightarrow>
     tlb_ok cur' \<and> covers (tlb_fences cur') (tlb_fences cur) \<and> covers (tlb_fences cur') (tlb_fences nxt) \<and>
     hart_set (smask cur') = hart_set (smask cur) \<union> hart_set (smask nxt)"

lemma range_check_merges:
  assumes "tlb_ok cur" "tlb_ok nxt" "same_kind cur nxt" "tlb_range_check cur nxt = (r, cur')"
  shows "if r = SBI_FIFO_UNCHANGED then cur' = cur else merges cur nxt cur'"
proof -
  have p: "tlb_plain cur" "tlb_plain nxt" "wf_mask (smask cur)"
    using assms(1-3) by (auto simp: tlb_ok_def same_kind_def is_sfence_def)
  note e = plain_end(1) [OF p(1)] plain_end(1) [OF p(2)]
  let ?m = "sbi_hartmask_or (smask cur) (smask cur) (smask nxt)"
  let ?new = "cur\<lparr>tlb_start := tlb_start nxt, tlb_size := tlb_size nxt, smask := ?m\<rparr>" and ?old = "cur\<lparr>smask := ?m\<rparr>"
  let ?A = "tlb_start nxt \<le> tlb_start cur \<and> tlb_start cur + tlb_size cur < tlb_start nxt + tlb_size nxt"
  let ?B = "tlb_start cur \<le> tlb_start nxt \<and> tlb_start nxt + tlb_size nxt \<le> tlb_start cur + tlb_size cur"
  note def = assms(4) [unfolded tlb_range_check_def Let_def]
  show ?thesis
  proof (cases ?A)
    case True
    then have c: "r = SBI_FIFO_UPDATED" "cur' = ?new" using def by simp_all
    have k: "same_kind ?new cur" "same_kind ?new nxt" "tlb_plain ?new"
      using assms(3) p(2) by (auto simp: same_kind_def is_sfence_def tlb_plain_def flush_all_def)
    have n: "unat (tlb_start nxt) \<le> unat (tlb_start cur)"
      "unat (tlb_start cur) + unat (tlb_size cur) \<le> unat (tlb_start nxt) + unat (tlb_size nxt)"
      using True e unfolding word_le_nat_alt word_less_nat_alt by simp_all
    have "covers (tlb_fences ?new) (tlb_fences cur)" "covers (tlb_fences ?new) (tlb_fences nxt)"
      using range_covers [OF k(1,3) p(1)] range_covers [OF k(2,3) p(2)] n by simp_all
    then show ?thesis
      using k(3) assms(1,2) mask_ops(3,4) [OF p(3)]
      by (simp add: c merges_def tlb_ok_def tlb_bounded_def SBI_FIFO_UPDATED_def SBI_FIFO_UNCHANGED_def)
  next
    case False
    show ?thesis
    proof (cases ?B)
      case True
      then have c: "r = SBI_FIFO_SKIP" "cur' = ?old" using def False by simp_all
      have k: "same_kind ?old cur" "same_kind ?old nxt" "tlb_plain ?old"
        using assms(3) p(1) by (auto simp: same_kind_def is_sfence_def tlb_plain_def flush_all_def)
      have n: "unat (tlb_start cur) \<le> unat (tlb_start nxt)"
        "unat (tlb_start nxt) + unat (tlb_size nxt) \<le> unat (tlb_start cur) + unat (tlb_size cur)"
        using True e unfolding word_le_nat_alt by simp_all
      have "covers (tlb_fences ?old) (tlb_fences cur)" "covers (tlb_fences ?old) (tlb_fences nxt)"
        using range_covers [OF k(1,3) p(1)] range_covers [OF k(2,3) p(2)] n by simp_all
      then show ?thesis
        using k(3) assms(1,2) mask_ops(3,4) [OF p(3)]
        by (simp add: c merges_def tlb_ok_def tlb_bounded_def SBI_FIFO_SKIP_def SBI_FIFO_UNCHANGED_def)
    next
      case False
      have "(SBI_FIFO_UNCHANGED, cur) = (r, cur')" using def unfolding if_not_P [OF \<open>\<not> ?A\<close>] if_not_P [OF False] .
      then show ?thesis by simp
    qed
  qed
qed

lemma update_cb_merges:
  assumes "tlb_ok cur" "tlb_ok nxt" "tlb_update_cb nxt cur = (r, cur')"
  shows "if r = SBI_FIFO_UNCHANGED then cur' = cur else merges cur nxt cur'"
proof (cases "same_kind cur nxt")
  case True
  then have "tlb_range_check cur nxt = (r, cur')"
    using assms(3) by (auto simp: same_kind_def is_sfence_def tlb_update_cb_def tlb_types)
  then show ?thesis using range_check_merges [OF assms(1,2) True] by blast
next
  case False
  then show ?thesis
    using assms(3) by (auto simp: same_kind_def is_sfence_def tlb_update_cb_def tlb_types split: if_splits)
qed


lemma update_list_merges:
  assumes "\<forall>e \<in> set q. tlb_ok e" "tlb_ok t" "update_list (tlb_update_cb t) SBI_FIFO_UNCHANGED q = (r, q')"
  shows "if r = SBI_FIFO_UNCHANGED then q' = q
    else \<exists>pre cur cur' post. q = pre @ cur # post \<and> q' = pre @ cur' # post \<and> merges cur t cur'"
  using assms(1,3)
proof (induction q arbitrary: q' r)
  case (Cons e q)
  obtain v e' where v: "tlb_update_cb t e = (v, e')" by fastforce
  have m: "if v = SBI_FIFO_UNCHANGED then e' = e else merges e t e'"
    using update_cb_merges [OF _ assms(2) v] Cons.prems(1) by simp
  have cases: "v = SBI_FIFO_UNCHANGED \<or> v = SBI_FIFO_SKIP \<or> v = SBI_FIFO_UPDATED"
    using v by (auto simp: tlb_update_cb_def tlb_range_check_def Let_def split: if_splits)
  show ?case
  proof (cases "v = SBI_FIFO_UNCHANGED")
    case True
    then have e': "e' = e" using m by simp
    obtain r1 q1 where r1: "update_list (tlb_update_cb t) SBI_FIFO_UNCHANGED q = (r1, q1)" by fastforce
    have "r = r1" "q' = e # q1"
      using Cons.prems(2) v r1 True e' by (auto simp: SBI_FIFO_SKIP_def SBI_FIFO_UPDATED_def SBI_FIFO_UNCHANGED_def)
    then show ?thesis using Cons.IH [OF _ r1] Cons.prems(1) by (auto split: if_splits) (metis append_Cons)+
  next
    case False
    then have "r = v" "q' = e' # q" using Cons.prems(2) v cases by auto
    then show ?thesis using False m by (auto intro: exI [of _ "[]"])
  qed
qed simp

lemma fifo_put_cases:
  assumes "\<forall>e \<in> set q. tlb_ok e" "tlb_ok t" "tlb_fifo_put cap t q = Some q'"
  obtains (append) "q' = q @ [t]" "length q < cap"
  | (merge) pre cur cur' post where "q = pre @ cur # post" "q' = pre @ cur' # post" "merges cur t cur'"
proof -
  obtain r q1 where u: "update_list (tlb_update_cb t) SBI_FIFO_UNCHANGED q = (r, q1)" by fastforce
  show ?thesis
    using update_list_merges [OF assms(1,2) u] assms(3) u that
    by (auto simp: tlb_fifo_put_def split: if_splits)
qed


section \<open>Where merging loses a fence\<close>

definition vma_request :: "u64 \<Rightarrow> u64 \<Rightarrow> sbi_hartmask \<Rightarrow> sbi_tlb_info" where
  "vma_request start sz m =
     \<lparr>tlb_start = start, tlb_size = sz, tlb_asid = 0, tlb_vmid = 0, tlb_type = SBI_TLB_SFENCE_VMA, smask = m\<rparr>"

text \<open>
  The two encodings of a fence for all pages are not treated alike.  A request with start
  and size 0, which on its own makes a hart execute the fence for all pages, is dropped in favour of a
  pending request for the first pages of the address space, and a pending one is replaced by such a request; a
  request for the last page, whose end wraps to 0, is dropped as well.  In each case one
  entry remains in the queue and its fences do not cover those of the request that was merged into it.
\<close>

lemma tlb_merge_loses_fences:
  assumes "0 < sz" "sz \<le> 0x100000"
  shows "(\<exists>e. tlb_fifo_put cap (vma_request 0 0 m2) [vma_request 0 sz m1] = Some [e] \<and>
      \<not> covers (tlb_fences e) (tlb_fences (vma_request 0 0 m2))) \<and>
    (\<exists>e. tlb_fifo_put cap (vma_request 0 sz m1) [vma_request 0 0 m2] = Some [e] \<and>
      \<not> covers (tlb_fences e) (tlb_fences (vma_request 0 0 m2))) \<and>
    (\<exists>e. tlb_fifo_put cap (vma_request 0xfffffffffffff000 0x1000 m2) [vma_request 0 sz m1] = Some [e] \<and>
      \<not> covers (tlb_fences e) (tlb_fences (vma_request 0xfffffffffffff000 0x1000 m2)))"
proof -
  have sz: "sz \<noteq> 0" "sz \<noteq> - 1" "unat sz \<le> 0x100000"
  proof -
    show "sz \<noteq> 0" using assms(1) by auto
    show le: "unat sz \<le> 0x100000" using assms(2) by (simp add: word_le_nat_alt)
    show "sz \<noteq> - 1" using le by (auto simp: unsigned_minus_1_eq_mask mask_eq_exp_minus_1)
  qed
  have pages: "\<exists>a. f = Sfence_vma a \<and> unat a < 0x101000" if f: "f \<in> set (tlb_fences (vma_request 0 sz m))" for f m
  proof -
    obtain k where k: "k < page_count sz" "f = Sfence_vma (of_nat (4096 * k))"
      using f sz(1,2)
      by (auto simp: vma_request_def tlb_fences_def flush_all_def page_fence_def tlb_types SBI_TLB_FLUSH_ALL_def)
    have less: "4096 * k < 0x100000" using k(1) sz(3) by (simp add: page_count_less)
    then have "unat (of_nat (4096 * k) :: u64) = 4096 * k" by (intro unat_of_nat_u64) simp
    then show ?thesis using k(2) less by auto
  qed
  have all: "tlb_fences (vma_request 0 0 n) = [Sfence_vma_all]" "tlb_fences (vma_request 0xfffffffffffff000 0x1000 n) = [Sfence_vma 0xfffffffffffff000]" for n
    by (simp_all add: vma_request_def tlb_fences_def flush_all_def page_count_def page_fence_def all_fence_def
        tlb_types SBI_TLB_FLUSH_ALL_def)
  have no: "\<not> covers (tlb_fences (vma_request 0 sz m)) (tlb_fences (vma_request 0 0 n))"
    "\<not> covers (tlb_fences (vma_request 0 sz m)) (tlb_fences (vma_request 0xfffffffffffff000 0x1000 n))" for m n
    using pages [of _ m] unfolding all covers_def by fastforce+
  have wrap: "(18446744073709551616 :: u64) = 0" by transfer simp
  have "tlb_fifo_put cap (vma_request 0 0 m2) [vma_request 0 sz m1] = Some [vma_request 0 sz (sbi_hartmask_or m1 m1 m2)]"
    using assms(1) by (simp add: tlb_fifo_put_def tlb_update_cb_def tlb_range_check_def vma_request_def tlb_types
        SBI_FIFO_SKIP_def SBI_FIFO_UPDATED_def SBI_FIFO_UNCHANGED_def)
  moreover have "tlb_fifo_put cap (vma_request 0 sz m1) [vma_request 0 0 m2] = Some [vma_request 0 sz (sbi_hartmask_or m2 m2 m1)]"
    using assms(1) by (simp add: tlb_fifo_put_def tlb_update_cb_def tlb_range_check_def vma_request_def tlb_types
        SBI_FIFO_SKIP_def SBI_FIFO_UPDATED_def SBI_FIFO_UNCHANGED_def)
  moreover have "tlb_fifo_put cap (vma_request 0xfffffffffffff000 0x1000 m2) [vma_request 0 sz m1] =
      Some [vma_request 0 sz (sbi_hartmask_or m1 m1 m2)]"
    using assms(1) by (simp add: tlb_fifo_put_def tlb_update_cb_def tlb_range_check_def vma_request_def tlb_types
        wrap SBI_FIFO_SKIP_def SBI_FIFO_UPDATED_def SBI_FIFO_UNCHANGED_def)
  ultimately show ?thesis using no by blast
qed


end
