(* ===== verification/SbiShootdown.thy ===== *)
theory SbiShootdown
  imports SbiTlb
begin

text \<open>
  Remote fences with all harts running: the requests and the processing of \<open>lib/sbi/sbi_tlb.c\<close> in any
  interleaving of their atomic steps.  A request returns only after every hart it
  named has executed fences that do its work, although requests are merged in the queues, harts serve
  other requests while they wait, and a counter may fall below zero for a moment.
\<close>

section \<open>Steps\<close>

text \<open>
  A requesting hart: the request, the harts still to do and those done; \<open>Counting\<close> is the moment between putting an
  entry into a queue and incrementing the own counter; \<open>Syncing\<close> is the loop that waits for the counter.
\<close>

datatype requester =
    No_request
  | Sending sbi_tlb_info "nat set" "nat set"
  | Counting sbi_tlb_info "nat set" "nat set"
  | Syncing sbi_tlb_info "nat set"

text \<open>A hart with an entry from its queue: it executes the fences, then decrements the counters.\<close>

datatype processor = Not_busy | Fencing sbi_tlb_info | Acking sbi_tlb_info "nat list"

text \<open>
  \<open>goal A\<close> are the harts the request of hart \<open>A\<close> names, \<open>mark A B\<close> is the number of fences hart \<open>B\<close> had executed
  when hart \<open>A\<close> put its request into its queue.
\<close>

record shoot_state =
  sw :: tlb_system
  req :: "nat \<Rightarrow> requester"
  busy :: "nat \<Rightarrow> processor"
  goal :: "nat \<Rightarrow> nat set"
  mark :: "nat \<Rightarrow> nat \<Rightarrow> nat"

text \<open>The atomic steps of hart \<open>h\<close> among the harts \<open>H\<close>.\<close>

inductive shoot_step :: "scratch_state \<Rightarrow> nat set \<Rightarrow> shoot_state \<Rightarrow> shoot_state \<Rightarrow> bool" for sst H where
  begin_request: "req s h = No_request \<Longrightarrow> busy s h = Not_busy \<Longrightarrow> h \<in> H \<Longrightarrow> T \<subseteq> H \<Longrightarrow> tlb_ok t \<Longrightarrow> hart_set (smask t) = {h} \<Longrightarrow>
    shoot_step sst H s (s\<lparr>req := (req s)(h := Sending t T {}), goal := (goal s)(h := T)\<rparr>)"
| self: "req s h = Sending t T Q \<Longrightarrow> busy s h = Not_busy \<Longrightarrow> h \<in> T \<Longrightarrow> local_process h t (sw s) = Some w \<Longrightarrow>
    shoot_step sst H s (s\<lparr>sw := w, req := (req s)(h := Sending t (T - {h}) (insert h Q)),
      mark := (mark s)(h := (mark s h)(h := length (fences (sw s) h)))\<rparr>)"
| put: "req s h = Sending t T Q \<Longrightarrow> busy s h = Not_busy \<Longrightarrow> b \<in> T \<Longrightarrow> b \<noteq> h \<Longrightarrow>
    tlb_fifo_put (tlb_fifo_cap (sw s)) t (tlb_fifo (sw s) b) = Some q \<Longrightarrow>
    shoot_step sst H s (s\<lparr>sw := (sw s)\<lparr>tlb_fifo := (tlb_fifo (sw s))(b := q)\<rparr>,
      req := (req s)(h := Counting t (T - {b}) (insert b Q)),
      mark := (mark s)(h := (mark s h)(b := length (fences (sw s) b)))\<rparr>)"
| add: "req s h = Counting t T Q \<Longrightarrow>
    shoot_step sst H s (s\<lparr>sw := sync_add h (sw s), req := (req s)(h := Sending t T Q)\<rparr>)"
| sent: "req s h = Sending t {} Q \<Longrightarrow> busy s h = Not_busy \<Longrightarrow>
    shoot_step sst H s (s\<lparr>req := (req s)(h := Syncing t Q)\<rparr>)"
| synced: "req s h = Syncing t Q \<Longrightarrow> busy s h = Not_busy \<Longrightarrow> \<not> 0 < tlb_sync_cnt (sw s) h \<Longrightarrow>
    shoot_step sst H s (s\<lparr>req := (req s)(h := No_request)\<rparr>)"
| dequeue: "busy s h = Not_busy \<Longrightarrow> h \<in> H \<Longrightarrow> \<forall>t T Q. req s h \<noteq> Counting t T Q \<Longrightarrow> tlb_fifo (sw s) h = e # es \<Longrightarrow>
    shoot_step sst H s (s\<lparr>sw := (sw s)\<lparr>tlb_fifo := (tlb_fifo (sw s))(h := es)\<rparr>, busy := (busy s)(h := Fencing e)\<rparr>)"
| fence: "busy s h = Fencing e \<Longrightarrow> local_process h e (sw s) = Some w \<Longrightarrow>
    shoot_step sst H s (s\<lparr>sw := w, busy := (busy s)(h := Acking e (sbi_hartmask_harts (smask e)))\<rparr>)"
| ack: "busy s h = Acking e (r # rs) \<Longrightarrow>
    shoot_step sst H s (s\<lparr>sw := sync_sub sst r (sw s), busy := (busy s)(h := Acking e rs)\<rparr>)"
| rest: "busy s h = Acking e [] \<Longrightarrow> shoot_step sst H s (s\<lparr>busy := (busy s)(h := Not_busy)\<rparr>)"

inductive shoot_reachable :: "scratch_state \<Rightarrow> nat set \<Rightarrow> tlb_system \<Rightarrow> shoot_state \<Rightarrow> bool" for sst H w where
  start: "(\<And>h. tlb_fifo w h = [] \<and> tlb_sync_cnt w h = 0) \<Longrightarrow>
    shoot_reachable sst H w \<lparr>sw = w, req = (\<lambda>_. No_request), busy = (\<lambda>_. Not_busy), goal = (\<lambda>_. {}), mark = (\<lambda>_ _. 0)\<rparr>"
| step: "shoot_reachable sst H w s \<Longrightarrow> shoot_step sst H s s' \<Longrightarrow> shoot_reachable sst H w s'"

section \<open>The invariant\<close>

text \<open>The request of a hart that has put something into queues, and how much its counter is behind.\<close>

fun asked :: "requester \<Rightarrow> (sbi_tlb_info \<times> nat set \<times> nat set) option" where
  "asked No_request = None"
| "asked (Sending t T Q) = Some (t, T, Q)"
| "asked (Counting t T Q) = Some (t, T, Q)"
| "asked (Syncing t Q) = Some (t, {}, Q)"

fun behind :: "requester \<Rightarrow> int" where
  "behind (Counting t T Q) = 1"
| "behind _ = 0"

text \<open>How often hart \<open>b\<close> will still decrement the counter of hart \<open>a\<close>.\<close>

fun acks :: "processor \<Rightarrow> nat \<Rightarrow> nat" where
  "acks Not_busy a = 0"
| "acks (Fencing e) a = (if a \<in> hart_set (smask e) then 1 else 0)"
| "acks (Acking e rs) a = (if a \<in> set rs then 1 else 0)"

definition in_fifo :: "nat \<Rightarrow> sbi_tlb_info list \<Rightarrow> nat" where
  "in_fifo a q = length (filter (\<lambda>e. a \<in> hart_set (smask e)) q)"

definition pend :: "shoot_state \<Rightarrow> nat \<Rightarrow> nat \<Rightarrow> nat" where
  "pend s a b = in_fifo a (tlb_fifo (sw s) b) + acks (busy s b) a"

text \<open>The work of request \<open>t\<close> of hart \<open>a\<close> on hart \<open>b\<close> is done, or an entry that does it is on its way.\<close>

definition fenced :: "shoot_state \<Rightarrow> nat \<Rightarrow> nat \<Rightarrow> sbi_tlb_info \<Rightarrow> bool" where
  "fenced s a b t \<longleftrightarrow> covers (drop (mark s a b) (fences (sw s) b)) (tlb_fences t)"

definition waiting :: "shoot_state \<Rightarrow> nat \<Rightarrow> nat \<Rightarrow> sbi_tlb_info \<Rightarrow> bool" where
  "waiting s a b t \<longleftrightarrow>
     (\<exists>e. (e \<in> set (tlb_fifo (sw s) b) \<or> busy s b = Fencing e) \<and> a \<in> hart_set (smask e) \<and>
          covers (tlb_fences e) (tlb_fences t))"

definition entry_ok :: "nat set \<Rightarrow> sbi_tlb_info \<Rightarrow> bool" where
  "entry_ok H e \<longleftrightarrow> tlb_ok e \<and> hart_set (smask e) \<subseteq> H"

fun busy_ok :: "nat set \<Rightarrow> processor \<Rightarrow> bool" where
  "busy_ok H Not_busy = True"
| "busy_ok H (Fencing e) = entry_ok H e"
| "busy_ok H (Acking e rs) = (distinct rs \<and> set rs \<subseteq> H)"

definition entries_ok :: "nat set \<Rightarrow> shoot_state \<Rightarrow> bool" where
  "entries_ok H s \<longleftrightarrow> (\<forall>b. (\<forall>e \<in> set (tlb_fifo (sw s) b). entry_ok H e) \<and> busy_ok H (busy s b) \<and> (busy s b \<noteq> Not_busy \<longrightarrow> b \<in> H))"

definition requests_ok :: "nat set \<Rightarrow> shoot_state \<Rightarrow> bool" where
  "requests_ok H s \<longleftrightarrow>
     (\<forall>a t T Q. asked (req s a) = Some (t, T, Q) \<longrightarrow>
        a \<in> H \<and> tlb_ok t \<and> hart_set (smask t) = {a} \<and> T \<subseteq> H \<and> T \<inter> Q = {} \<and> T \<union> Q = goal s a \<and>
        (\<forall>b \<in> Q. mark s a b \<le> length (fences (sw s) b) \<and> (fenced s a b t \<or> waiting s a b t)))"

definition counts_ok :: "nat set \<Rightarrow> shoot_state \<Rightarrow> bool" where
  "counts_ok H s \<longleftrightarrow>
     (\<forall>a b. pend s a b \<noteq> 0 \<longrightarrow>
        b \<in> H \<and> pend s a b = 1 \<and> (\<exists>t T Q. asked (req s a) = Some (t, T, Q) \<and> b \<in> Q)) \<and>
     (\<forall>a \<in> H. tlb_sync_cnt (sw s) a + behind (req s a) = (\<Sum>b \<in> H. int (pend s a b)))"

definition shoot_inv :: "nat set \<Rightarrow> shoot_state \<Rightarrow> bool" where
  "shoot_inv H s \<longleftrightarrow> entries_ok H s \<and> requests_ok H s \<and> counts_ok H s"

lemma counts_zero:
  assumes "counts_ok H s" "finite H" "a \<in> H" "behind (req s a) = 0" "\<not> 0 < tlb_sync_cnt (sw s) a"
  shows "pend s a b = 0"
proof -
  have "(\<Sum>b \<in> H. int (pend s a b)) \<le> 0" using assms(1,3-5) by (force simp: counts_ok_def)
  moreover have "0 \<le> (\<Sum>b \<in> H. int (pend s a b))" by (intro sum_nonneg) simp
  ultimately have "(\<Sum>b \<in> H. int (pend s a b)) = 0" by simp
  then have "\<forall>b \<in> H. pend s a b = 0" using assms(2) by (simp add: sum_nonneg_eq_0_iff)
  then show ?thesis using assms(1) by (auto simp: counts_ok_def)
qed

text \<open>A request that finds its counter at zero has nothing left in any queue.\<close>

lemma shoot_inv_done:
  assumes "shoot_inv H s" "finite H" "req s a = Syncing t Q" "\<not> 0 < tlb_sync_cnt (sw s) a" "b \<in> goal s a"
  shows "fenced s a b t"
proof -
  have inv: "requests_ok H s" "counts_ok H s" using assms(1) by (auto simp: shoot_inv_def)
  have "asked (req s a) = Some (t, {}, Q)" using assms(3) by simp
  then have "a \<in> H" "{} \<union> Q = goal s a" "\<forall>b \<in> Q. fenced s a b t \<or> waiting s a b t"
    using inv(1) unfolding requests_ok_def by blast+
  then have r: "a \<in> H" "fenced s a b t \<or> waiting s a b t" using assms(5) by auto
  have "pend s a b = 0" using counts_zero [OF inv(2) assms(2) r(1)] assms(3,4) by simp
  then have "\<not> waiting s a b t" by (auto simp: waiting_def pend_def in_fifo_def filter_empty_conv)
  then show ?thesis using r(2) by blast
qed

section \<open>Preservation\<close>

lemma fenced_more:
  assumes "fenced s a b t" "mark s a b \<le> length (fences (sw s) b)" "mark s' a b = mark s a b"
    "fences (sw s') b = fences (sw s) b @ ext"
  shows "fenced s' a b t"
  using assms covers_append [of _ _ "[]"] by (simp add: fenced_def)

lemma requests_keep:
  assumes "requests_ok H s" "\<And>a r. asked (req s' a) = Some r \<Longrightarrow> asked (req s a) = Some r" "mark s' = mark s" "goal s' = goal s"
    "\<And>b. \<exists>ext. fences (sw s') b = fences (sw s) b @ ext"
    "\<And>a b t. mark s a b \<le> length (fences (sw s) b) \<Longrightarrow> waiting s a b t \<Longrightarrow> fenced s' a b t \<or> waiting s' a b t"
  shows "requests_ok H s'"
proof -
  have len: "length (fences (sw s) b) \<le> length (fences (sw s') b)" for b using assms(5) [of b] by auto
  have "mark s' a b \<le> length (fences (sw s') b) \<and> (fenced s' a b t \<or> waiting s' a b t)"
    if "mark s a b \<le> length (fences (sw s) b)" "fenced s a b t \<or> waiting s a b t" for a b t
  proof -
    obtain ext where "fences (sw s') b = fences (sw s) b @ ext" using assms(5) by blast
    then have "fenced s a b t \<Longrightarrow> fenced s' a b t" using fenced_more [OF _ that(1)] assms(3) by auto
    then show ?thesis using that assms(3,6) len [of b] by auto
  qed
  then show ?thesis using assms(1,2) unfolding requests_ok_def assms(4) by blast
qed

lemma sum_pend_upd:
  assumes "finite H" "b \<in> H"
  shows "(\<Sum>x \<in> H. int ((f(b := v)) x)) = (\<Sum>x \<in> H. int (f x)) - int (f b) + int v"
proof -
  have "(\<Sum>x \<in> H - {b}. int ((f(b := v)) x)) = (\<Sum>x \<in> H - {b}. int (f x))" by (intro sum.cong) auto
  then show ?thesis using sum.remove [OF assms, of "\<lambda>x. int ((f(b := v)) x)"] sum.remove [OF assms, of "\<lambda>x. int (f x)"] by simp
qed

text \<open>When no count changes, only the requests have to stay.\<close>

lemma counts_keep:
  assumes "counts_ok H s" "pend s' = pend s"
    "\<And>a. tlb_sync_cnt (sw s') a + behind (req s' a) = tlb_sync_cnt (sw s) a + behind (req s a)"
    "\<And>a b t T Q. pend s a b \<noteq> 0 \<Longrightarrow> asked (req s a) = Some (t, T, Q) \<Longrightarrow> asked (req s' a) = Some (t, T, Q)"
  shows "counts_ok H s'"
  using assms(1,4) unfolding counts_ok_def assms(2,3) by metis

lemma inv_begin:
  assumes "shoot_inv H s" "req s h = No_request" "h \<in> H" "T \<subseteq> H" "tlb_ok t" "hart_set (smask t) = {h}"
  shows "shoot_inv H (s\<lparr>req := (req s)(h := Sending t T {}), goal := (goal s)(h := T)\<rparr>)" (is "shoot_inv H ?s")
proof -
  have inv: "entries_ok H s" "requests_ok H s" "counts_ok H s" using assms(1) by (auto simp: shoot_inv_def)
  have "requests_ok H ?s"
    using inv(2) assms(3-6) unfolding requests_ok_def by (auto simp: fenced_def waiting_def)
  moreover have "counts_ok H ?s"
  proof (rule counts_keep [OF inv(3)])
    show "pend ?s = pend s" by (simp add: pend_def fun_eq_iff)
  qed (use assms(2) in \<open>auto split: if_splits\<close>)
  moreover have "entries_ok H ?s" using inv(1) by (simp add: entries_ok_def)
  ultimately show ?thesis by (simp add: shoot_inv_def)
qed

lemma inv_sent:
  assumes "shoot_inv H s" "req s h = Sending t {} Q"
  shows "shoot_inv H (s\<lparr>req := (req s)(h := Syncing t Q)\<rparr>)" (is "shoot_inv H ?s")
proof -
  have inv: "entries_ok H s" "requests_ok H s" "counts_ok H s" using assms(1) by (auto simp: shoot_inv_def)
  have "requests_ok H ?s"
    by (rule requests_keep [OF inv(2)]) (use assms(2) in \<open>auto simp: fenced_def waiting_def split: if_splits\<close>)
  moreover have "counts_ok H ?s"
  proof (rule counts_keep [OF inv(3)])
    show "pend ?s = pend s" by (simp add: pend_def fun_eq_iff)
  qed (use assms(2) in \<open>auto split: if_splits\<close>)
  moreover have "entries_ok H ?s" using inv(1) by (simp add: entries_ok_def)
  ultimately show ?thesis by (simp add: shoot_inv_def)
qed

lemma inv_synced:
  assumes "shoot_inv H s" "finite H" "req s h = Syncing t Q" "\<not> 0 < tlb_sync_cnt (sw s) h"
  shows "shoot_inv H (s\<lparr>req := (req s)(h := No_request)\<rparr>)" (is "shoot_inv H ?s")
proof -
  have inv: "entries_ok H s" "requests_ok H s" "counts_ok H s" using assms(1) by (auto simp: shoot_inv_def)
  have h: "h \<in> H" using inv(2) assms(3) by (auto simp: requests_ok_def)
  have zero: "pend s h b = 0" for b using counts_zero [OF inv(3) assms(2) h] assms(3,4) by simp
  have "requests_ok H ?s"
    by (rule requests_keep [OF inv(2)]) (use assms(3) in \<open>auto simp: fenced_def waiting_def split: if_splits\<close>)
  moreover have "counts_ok H ?s"
  proof (rule counts_keep [OF inv(3)])
    show "pend ?s = pend s" by (simp add: pend_def fun_eq_iff)
  qed (use assms(3) zero in \<open>auto split: if_splits\<close>)
  moreover have "entries_ok H ?s" using inv(1) by (simp add: entries_ok_def)
  ultimately show ?thesis by (simp add: shoot_inv_def)
qed

lemma inv_add:
  assumes "shoot_inv H s" "req s h = Counting t T Q"
  shows "shoot_inv H (s\<lparr>sw := sync_add h (sw s), req := (req s)(h := Sending t T Q)\<rparr>)" (is "shoot_inv H ?s")
proof -
  have inv: "entries_ok H s" "requests_ok H s" "counts_ok H s" using assms(1) by (auto simp: shoot_inv_def)
  have "requests_ok H ?s"
    by (rule requests_keep [OF inv(2)]) (use assms(2) in \<open>auto simp: fenced_def waiting_def sync_add_def split: if_splits\<close>)
  moreover have "counts_ok H ?s"
  proof (rule counts_keep [OF inv(3)])
    show "pend ?s = pend s" by (simp add: pend_def fun_eq_iff sync_add_def)
  qed (use assms(2) in \<open>auto simp: sync_add_def split: if_splits\<close>)
  moreover have "entries_ok H ?s" using inv(1) by (simp add: entries_ok_def sync_add_def)
  ultimately show ?thesis by (simp add: shoot_inv_def)
qed


lemma inv_dequeue:
  assumes "shoot_inv H s" "busy s h = Not_busy" "tlb_fifo (sw s) h = e # es" "h \<in> H"
  shows "shoot_inv H (s\<lparr>sw := (sw s)\<lparr>tlb_fifo := (tlb_fifo (sw s))(h := es)\<rparr>, busy := (busy s)(h := Fencing e)\<rparr>)"
    (is "shoot_inv H ?s")
proof -
  have inv: "entries_ok H s" "requests_ok H s" "counts_ok H s" using assms(1) by (auto simp: shoot_inv_def)
  have ne: "\<forall>e' \<in> set (e # es). entry_ok H e'" using inv(1) assms(3) unfolding entries_ok_def by metis
  have "waiting ?s a b t" if "waiting s a b t" for a b t
    using that assms(2,3) by (cases "b = h") (auto simp: waiting_def)
  then have "requests_ok H ?s" by (intro requests_keep [OF inv(2)]) auto
  moreover have "counts_ok H ?s"
  proof (rule counts_keep [OF inv(3)])
    show "pend ?s = pend s" using assms(2,3) by (auto simp: pend_def fun_eq_iff in_fifo_def)
  qed auto
  moreover have "entries_ok H ?s" using inv(1) ne assms(4) by (auto simp: entries_ok_def)
  ultimately show ?thesis by (simp add: shoot_inv_def)
qed

lemma local_process_log:
  assumes "tlb_ok t" "local_process h t w = Some w'"
  shows "fences w' = (fences w)(h := fences w h @ tlb_fences t)" "tlb_fifo w' = tlb_fifo w" "tlb_sync_cnt w' = tlb_sync_cnt w"
  using assms local_process_fences [of t] by (auto simp: local_process_def tlb_ok_def)

lemma inv_fence:
  assumes "shoot_inv H s" "busy s h = Fencing e" "local_process h e (sw s) = Some w"
  shows "shoot_inv H (s\<lparr>sw := w, busy := (busy s)(h := Acking e (sbi_hartmask_harts (smask e)))\<rparr>)"
    (is "shoot_inv H ?s")
proof -
  have inv: "entries_ok H s" "requests_ok H s" "counts_ok H s" using assms(1) by (auto simp: shoot_inv_def)
  have e: "tlb_ok e" "hart_set (smask e) \<subseteq> H"
    using inv(1) assms(2) unfolding entries_ok_def by (metis busy_ok.simps(2) entry_ok_def)+
  note w = local_process_log [OF e(1) assms(3)]
  have "fenced ?s a b t \<or> waiting ?s a b t"
    if m: "mark s a b \<le> length (fences (sw s) b)" and "waiting s a b t" for a b t
  proof (cases "b = h \<and> covers (tlb_fences e) (tlb_fences t)")
    case True
    then show ?thesis using m covers_append [of "tlb_fences e" _ _ "[]"] by (simp add: fenced_def w)
  next
    case False
    then show ?thesis using that(2) assms(2) by (auto simp: waiting_def w)
  qed
  then have "requests_ok H ?s" by (intro requests_keep [OF inv(2)]) (auto simp: w)
  moreover have "counts_ok H ?s"
  proof (rule counts_keep [OF inv(3)])
    show "pend ?s = pend s" using assms(2) by (auto simp: pend_def fun_eq_iff w mask_harts)
  qed (auto simp: w)
  moreover have "entries_ok H ?s" using inv(1) e(2) assms(2) by (auto simp: entries_ok_def w mask_harts)
  ultimately show ?thesis by (simp add: shoot_inv_def)
qed

lemma inv_ack:
  assumes "shoot_inv H s" "finite H" "busy s h = Acking e (r # rs)" "\<And>x. x \<in> H \<Longrightarrow> sbi_hartindex_to_scratch sst x \<noteq> None"
  shows "shoot_inv H (s\<lparr>sw := sync_sub sst r (sw s), busy := (busy s)(h := Acking e rs)\<rparr>)" (is "shoot_inv H ?s")
proof -
  have inv: "entries_ok H s" "requests_ok H s" "counts_ok H s" using assms(1) by (auto simp: shoot_inv_def)
  have b: "distinct (r # rs)" "set (r # rs) \<subseteq> H"
    using inv(1) assms(3) unfolding entries_ok_def by (metis busy_ok.simps(3))+
  have w: "sync_sub sst r (sw s) = (sw s)\<lparr>tlb_sync_cnt := (tlb_sync_cnt (sw s))(r := tlb_sync_cnt (sw s) r - 1)\<rparr>"
    using assms(4) [of r] b(2) by (auto simp: sync_sub_def)
  have p1: "pend s r h \<noteq> 0" using assms(3) by (simp add: pend_def)
  then have p: "pend s r h = 1" "h \<in> H" using inv(3) by (auto simp: counts_ok_def)
  have pend: "pend ?s a = (if a = r then (pend s r)(h := 0) else pend s a)" for a
    using p(1) assms(3) b(1) by (auto simp: pend_def fun_eq_iff w)
  have "requests_ok H ?s"
    by (rule requests_keep [OF inv(2)]) (use assms(3) in \<open>auto simp: waiting_def w\<close>)
  moreover have "counts_ok H ?s"
    unfolding counts_ok_def
  proof (intro conjI allI impI ballI)
    fix a c assume "pend ?s a c \<noteq> 0"
    then have "pend ?s a c = pend s a c" "pend s a c \<noteq> 0" unfolding pend by (auto split: if_splits)
    then show "c \<in> H" "pend ?s a c = 1" "\<exists>t T Q. asked (req ?s a) = Some (t, T, Q) \<and> c \<in> Q"
      using inv(3) by (auto simp: counts_ok_def)
  next
    fix a assume "a \<in> H"
    then have "tlb_sync_cnt (sw s) a + behind (req s a) = (\<Sum>b \<in> H. int (pend s a b))"
      using inv(3) by (simp add: counts_ok_def)
    then show "tlb_sync_cnt (sw ?s) a + behind (req ?s a) = (\<Sum>b \<in> H. int (pend ?s a b))"
      using sum_pend_upd [OF assms(2) p(2), of "pend s r" 0] p(1) unfolding pend by (auto simp: w)
  qed
  moreover have "entries_ok H ?s" using inv(1) b assms(3) by (auto simp: entries_ok_def w)
  ultimately show ?thesis by (simp add: shoot_inv_def)
qed

lemma inv_rest:
  assumes "shoot_inv H s" "busy s h = Acking e []"
  shows "shoot_inv H (s\<lparr>busy := (busy s)(h := Not_busy)\<rparr>)" (is "shoot_inv H ?s")
proof -
  have inv: "entries_ok H s" "requests_ok H s" "counts_ok H s" using assms(1) by (auto simp: shoot_inv_def)
  have "waiting ?s a b t" if "waiting s a b t" for a b t
    using that assms(2) by (auto simp: waiting_def)
  then have "requests_ok H ?s" by (intro requests_keep [OF inv(2)]) auto
  moreover have "counts_ok H ?s"
  proof (rule counts_keep [OF inv(3)])
    show "pend ?s = pend s" using assms(2) by (auto simp: pend_def fun_eq_iff)
  qed auto
  moreover have "entries_ok H ?s" using inv(1) by (simp add: entries_ok_def)
  ultimately show ?thesis by (simp add: shoot_inv_def)
qed


text \<open>Hart \<open>h\<close> has dealt with hart \<open>b\<close>.\<close>

lemma requests_next:
  assumes "requests_ok H s" "asked (req s h) = Some (t, T, Q)" "b \<in> T"
    and r: "req s' = (req s)(h := r)" "asked r = Some (t, T - {b}, insert b Q)"
    and g: "goal s' = goal s"
    and m: "mark s' = (mark s)(h := (mark s h)(b := length (fences (sw s) b)))"
    and ext: "\<And>c. \<exists>ext. fences (sw s') c = fences (sw s) c @ ext"
    and wait: "\<And>a c u. waiting s a c u \<Longrightarrow> waiting s' a c u"
    and new: "fenced s' h b t \<or> waiting s' h b t"
  shows "requests_ok H s'"
proof -
  have len: "length (fences (sw s) c) \<le> length (fences (sw s') c)" for c using ext [of c] by auto
  have old: "mark s' a c \<le> length (fences (sw s') c) \<and> (fenced s' a c u \<or> waiting s' a c u)"
    if "mark s a c \<le> length (fences (sw s) c)" "fenced s a c u \<or> waiting s a c u" "mark s' a c = mark s a c" for a c u
  proof -
    obtain x where "fences (sw s') c = fences (sw s) c @ x" using ext by blast
    then show ?thesis using that fenced_more [OF _ that(1,3)] wait len [of c] by auto
  qed
  have h: "h \<in> H \<and> tlb_ok t \<and> hart_set (smask t) = {h} \<and> T \<subseteq> H \<and> T \<inter> Q = {} \<and> T \<union> Q = goal s h"
      "\<forall>c \<in> Q. mark s h c \<le> length (fences (sw s) c) \<and> (fenced s h c t \<or> waiting s h c t)"
    using assms(1,2) unfolding requests_ok_def by blast+
  have hQ: "mark s' h c \<le> length (fences (sw s') c) \<and> (fenced s' h c t \<or> waiting s' h c t)" if "c \<in> insert b Q" for c
  proof (cases "c = b")
    case True
    then show ?thesis using new len [of b] m by simp
  next
    case False
    then show ?thesis using old [of h c t] h(2) that m by auto
  qed
  have others: "a \<in> H \<and> tlb_ok u \<and> hart_set (smask u) = {a} \<and> T' \<subseteq> H \<and> T' \<inter> Q' = {} \<and> T' \<union> Q' = goal s a \<and>
      (\<forall>c \<in> Q'. mark s' a c \<le> length (fences (sw s') c) \<and> (fenced s' a c u \<or> waiting s' a c u))"
    if "a \<noteq> h" "asked (req s a) = Some (u, T', Q')" for a u T' Q'
  proof -
    have "a \<in> H \<and> tlb_ok u \<and> hart_set (smask u) = {a} \<and> T' \<subseteq> H \<and> T' \<inter> Q' = {} \<and> T' \<union> Q' = goal s a"
        "\<forall>c \<in> Q'. mark s a c \<le> length (fences (sw s) c) \<and> (fenced s a c u \<or> waiting s a c u)"
      using assms(1) that(2) unfolding requests_ok_def by blast+
    then show ?thesis using old [of a _ u] that(1) m by auto
  qed
  show ?thesis
    unfolding requests_ok_def r(1) g
  proof (intro allI impI)
    fix a u T' Q' assume a: "asked (((req s)(h := r)) a) = Some (u, T', Q')"
    show "a \<in> H \<and> tlb_ok u \<and> hart_set (smask u) = {a} \<and> T' \<subseteq> H \<and> T' \<inter> Q' = {} \<and> T' \<union> Q' = goal s a \<and>
      (\<forall>c \<in> Q'. mark s' a c \<le> length (fences (sw s') c) \<and> (fenced s' a c u \<or> waiting s' a c u))"
    proof (cases "a = h")
      case True
      then have "u = t" "T' = T - {b}" "Q' = insert b Q" using a r(2) by auto
      then show ?thesis using True h(1) hQ assms(3) by auto
    next
      case False
      then show ?thesis using others [OF False] a by simp
    qed
  qed
qed

lemma inv_self:
  assumes "shoot_inv H s" "req s h = Sending t T Q" "h \<in> T" "local_process h t (sw s) = Some w"
  shows "shoot_inv H (s\<lparr>sw := w, req := (req s)(h := Sending t (T - {h}) (insert h Q)),
      mark := (mark s)(h := (mark s h)(h := length (fences (sw s) h)))\<rparr>)" (is "shoot_inv H ?s")
proof -
  have inv: "entries_ok H s" "requests_ok H s" "counts_ok H s" using assms(1) by (auto simp: shoot_inv_def)
  have a: "asked (req s h) = Some (t, T, Q)" using assms(2) by simp
  have "tlb_ok t" using inv(2) a unfolding requests_ok_def by blast
  note w = local_process_log [OF this assms(4)]
  have "requests_ok H ?s"
  proof (rule requests_next [OF inv(2) a assms(3)])
    show "fenced ?s h h t \<or> waiting ?s h h t" by (simp add: fenced_def w covers_refl)
  qed (auto simp: w waiting_def)
  moreover have "counts_ok H ?s"
  proof -
    have p: "pend ?s = pend s" by (simp add: pend_def fun_eq_iff w)
    have "b \<in> H \<and> pend s a b = 1 \<and> (\<exists>u T' Q'. asked (req ?s a) = Some (u, T', Q') \<and> b \<in> Q')"
      if "pend s a b \<noteq> 0" for a b
      using that inv(3) assms(2) unfolding counts_ok_def by (cases "a = h") fastforce+
    moreover have "tlb_sync_cnt (sw ?s) a + behind (req ?s a) = (\<Sum>b \<in> H. int (pend s a b))" if "a \<in> H" for a
      using that inv(3) assms(2) by (force simp: counts_ok_def w)
    ultimately show ?thesis unfolding counts_ok_def p by blast
  qed
  moreover have "entries_ok H ?s" using inv(1) by (simp add: entries_ok_def w)
  ultimately show ?thesis by (simp add: shoot_inv_def)
qed

text \<open>What putting a request into a queue does to the entries and to the counts.\<close>

lemma put_fifo:
  assumes "\<forall>e \<in> set q. entry_ok H e" "tlb_ok t" "hart_set (smask t) = {h}" "h \<in> H" "in_fifo h q = 0"
    "tlb_fifo_put cap t q = Some q'"
  shows "\<forall>e \<in> set q'. entry_ok H e" "in_fifo a q' = (if a = h then 1 else in_fifo a q)"
    "\<exists>e \<in> set q'. h \<in> hart_set (smask e) \<and> covers (tlb_fences e) (tlb_fences t)"
    "\<And>e. e \<in> set q \<Longrightarrow> \<exists>e' \<in> set q'. hart_set (smask e) \<subseteq> hart_set (smask e') \<and> covers (tlb_fences e') (tlb_fences e)"
proof -
  have ok: "\<forall>e \<in> set q. tlb_ok e" using assms(1) by (simp add: entry_ok_def)
  have none: "h \<notin> hart_set (smask e)" if "e \<in> set q" for e
    using that assms(5) by (auto simp: in_fifo_def filter_empty_conv)
  have "(\<forall>e \<in> set q'. entry_ok H e) \<and> in_fifo a q' = (if a = h then 1 else in_fifo a q) \<and>
    (\<exists>e \<in> set q'. h \<in> hart_set (smask e) \<and> covers (tlb_fences e) (tlb_fences t)) \<and>
    (\<forall>e \<in> set q. \<exists>e' \<in> set q'. hart_set (smask e) \<subseteq> hart_set (smask e') \<and> covers (tlb_fences e') (tlb_fences e))" for a
  proof (rule fifo_put_cases [OF ok assms(2,6)])
    assume "q' = q @ [t]"
    then show ?thesis
      using assms(1-5) by (auto simp: in_fifo_def entry_ok_def intro: covers_refl)
  next
    fix pre cur cur' post
    assume q: "q = pre @ cur # post" "q' = pre @ cur' # post" and m: "merges cur t cur'"
    then have c: "h \<notin> hart_set (smask cur)" "entry_ok H cur" using none assms(1) by auto
    have "in_fifo h pre = 0" "in_fifo h post = 0" using none q(1) by (auto simp: in_fifo_def filter_empty_conv)
    then show ?thesis
      using assms(1,3,4) m c unfolding q merges_def entry_ok_def
      by (auto simp: in_fifo_def intro: covers_refl)
  qed
  then show "\<forall>e \<in> set q'. entry_ok H e" "in_fifo a q' = (if a = h then 1 else in_fifo a q)"
    "\<exists>e \<in> set q'. h \<in> hart_set (smask e) \<and> covers (tlb_fences e) (tlb_fences t)"
    "\<And>e. e \<in> set q \<Longrightarrow> \<exists>e' \<in> set q'. hart_set (smask e) \<subseteq> hart_set (smask e') \<and> covers (tlb_fences e') (tlb_fences e)"
    by blast+
qed


lemma inv_put:
  assumes "shoot_inv H s" "finite H" "req s h = Sending t T Q" "b \<in> T"
    "tlb_fifo_put (tlb_fifo_cap (sw s)) t (tlb_fifo (sw s) b) = Some q"
  shows "shoot_inv H (s\<lparr>sw := (sw s)\<lparr>tlb_fifo := (tlb_fifo (sw s))(b := q)\<rparr>,
      req := (req s)(h := Counting t (T - {b}) (insert b Q)),
      mark := (mark s)(h := (mark s h)(b := length (fences (sw s) b)))\<rparr>)" (is "shoot_inv H ?s")
proof -
  have inv: "entries_ok H s" "requests_ok H s" "counts_ok H s" using assms(1) by (auto simp: shoot_inv_def)
  have a: "asked (req s h) = Some (t, T, Q)" using assms(3) by simp
  have t: "h \<in> H" "tlb_ok t" "hart_set (smask t) = {h}" "T \<subseteq> H" "T \<inter> Q = {}"
    using inv(2) a unfolding requests_ok_def by blast+
  have b: "b \<in> H" "b \<notin> Q" using t(4,5) assms(4) by auto
  have p0: "pend s h b = 0" using inv(3) a b(2) unfolding counts_ok_def by fastforce
  have q0: "in_fifo h (tlb_fifo (sw s) b) = 0" "acks (busy s b) h = 0" using p0 by (auto simp: pend_def)
  have ok: "\<forall>e \<in> set (tlb_fifo (sw s) b). entry_ok H e" using inv(1) by (simp add: entries_ok_def)
  note put = put_fifo [OF ok t(2,3,1) q0(1) assms(5)]
  have pend: "pend ?s a = (if a = h then (pend s h)(b := 1) else pend s a)" for a
    using put(2) q0(2) by (auto simp: pend_def fun_eq_iff)
  have "requests_ok H ?s"
  proof (rule requests_next [OF inv(2) a assms(4)])
    show "fenced ?s h b t \<or> waiting ?s h b t" using put(3) by (auto simp: waiting_def)
    show "waiting ?s a c u" if "waiting s a c u" for a c u
      using that put(4) by (cases "c = b") (auto simp: waiting_def intro: covers_trans, blast intro: covers_trans)
  qed auto
  moreover have "counts_ok H ?s"
    unfolding counts_ok_def
  proof (intro conjI allI impI ballI)
    fix a c assume n: "pend ?s a c \<noteq> 0"
    show "c \<in> H" "pend ?s a c = 1" "\<exists>u T' Q'. asked (req ?s a) = Some (u, T', Q') \<and> c \<in> Q'"
      using n inv(3) b(1) assms(3) unfolding pend counts_ok_def
      by (cases "a = h"; cases "c = b"; fastforce)+
  next
    fix a assume "a \<in> H"
    then have "tlb_sync_cnt (sw s) a + behind (req s a) = (\<Sum>b \<in> H. int (pend s a b))"
      using inv(3) by (simp add: counts_ok_def)
    then show "tlb_sync_cnt (sw ?s) a + behind (req ?s a) = (\<Sum>b \<in> H. int (pend ?s a b))"
      using sum_pend_upd [OF assms(2) b(1), of "pend s h" 1] p0 assms(3) unfolding pend by auto
  qed
  moreover have "entries_ok H ?s" using inv(1) put(1) by (simp add: entries_ok_def)
  ultimately show ?thesis by (simp add: shoot_inv_def)
qed

lemma inv_step:
  assumes "shoot_step sst H s s'" "shoot_inv H s" "finite H" "\<And>x. x \<in> H \<Longrightarrow> sbi_hartindex_to_scratch sst x \<noteq> None"
  shows "shoot_inv H s'"
  using assms(1)
proof (cases rule: shoot_step.cases)
  case (begin_request h T t)
  then show ?thesis using inv_begin [OF assms(2)] by simp
next
  case (self h t T Q w)
  then show ?thesis using inv_self [OF assms(2)] by simp
next
  case (put h t T Q b q)
  then show ?thesis using inv_put [OF assms(2,3)] by simp
next
  case (add h t T Q)
  then show ?thesis using inv_add [OF assms(2)] by simp
next
  case (sent h t Q)
  then show ?thesis using inv_sent [OF assms(2)] by simp
next
  case (synced h t Q)
  then show ?thesis using inv_synced [OF assms(2,3)] by simp
next
  case (dequeue h e es)
  then show ?thesis using inv_dequeue [OF assms(2)] by simp
next
  case (fence h e w)
  then show ?thesis using inv_fence [OF assms(2)] by simp
next
  case (ack h e r rs)
  then show ?thesis using inv_ack [OF assms(2,3) ack(2) assms(4)] by simp
next
  case (rest h e)
  then show ?thesis using inv_rest [OF assms(2)] by simp
qed

lemma reachable_inv:
  assumes "shoot_reachable sst H w s" "finite H" "\<And>x. x \<in> H \<Longrightarrow> sbi_hartindex_to_scratch sst x \<noteq> None"
  shows "shoot_inv H s"
  using assms(1)
proof (induction rule: shoot_reachable.induct)
  case start
  then show ?case
    by (simp add: shoot_inv_def entries_ok_def requests_ok_def counts_ok_def pend_def in_fifo_def)
next
  case (step s s')
  then show ?case using inv_step assms(2,3) by blast
qed


section \<open>Progress\<close>

text \<open>The steps a hart has still to do, bounded from above.\<close>

fun req_work :: "requester \<Rightarrow> nat" where
  "req_work No_request = 0"
| "req_work (Syncing t Q) = 1"
| "req_work (Sending t T Q) = 2 + 8 * card T"
| "req_work (Counting t T Q) = 3 + 8 * card T"

definition entry_work :: "sbi_tlb_info \<Rightarrow> nat" where
  "entry_work e = 4 + card (hart_set (smask e))"

fun busy_work :: "processor \<Rightarrow> nat" where
  "busy_work Not_busy = 0"
| "busy_work (Fencing e) = 3 + card (hart_set (smask e))"
| "busy_work (Acking e rs) = 1 + length rs"

definition serve_work :: "shoot_state \<Rightarrow> nat \<Rightarrow> nat" where
  "serve_work s b = busy_work (busy s b) + sum_list (map entry_work (tlb_fifo (sw s) b))"

definition shoot_work :: "nat set \<Rightarrow> shoot_state \<Rightarrow> nat" where
  "shoot_work H s = (\<Sum>h \<in> H. req_work (req s h)) + (\<Sum>b \<in> H. serve_work s b)"

text \<open>Nobody has a request and nobody is serving one.\<close>

definition quiet :: "nat set \<Rightarrow> shoot_state \<Rightarrow> bool" where
  "quiet H s \<longleftrightarrow> (\<forall>h \<in> H. req s h = No_request \<and> busy s h = Not_busy)"

lemma sum_upd:
  fixes f :: "nat \<Rightarrow> nat"
  assumes "finite H" "b \<in> H" "\<And>x. x \<noteq> b \<Longrightarrow> f' x = f x"
  shows "(\<Sum>x \<in> H. f' x) + f b = (\<Sum>x \<in> H. f x) + f' b"
proof -
  have "(\<Sum>x \<in> H - {b}. f' x) = (\<Sum>x \<in> H - {b}. f x)" using assms(3) by (intro sum.cong) auto
  then show ?thesis using sum.remove [OF assms(1,2), of f'] sum.remove [OF assms(1,2), of f] by simp
qed

lemma work_requests:
  assumes "finite H" "h \<in> H" "req s' = (req s)(h := r)" "\<And>b. serve_work s' b = serve_work s b" "req_work r < req_work (req s h)"
  shows "shoot_work H s' < shoot_work H s"
  using sum_upd [OF assms(1,2), of "\<lambda>x. req_work (req s' x)" "\<lambda>x. req_work (req s x)"] assms(3-5)
  by (simp add: shoot_work_def)

lemma work_serves:
  assumes "finite H" "b \<in> H" "req s' = req s" "\<And>x. x \<noteq> b \<Longrightarrow> serve_work s' x = serve_work s x" "serve_work s' b < serve_work s b"
  shows "shoot_work H s' < shoot_work H s"
  using sum_upd [OF assms(1,2), of "serve_work s'" "serve_work s"] assms(3-5)
  by (simp add: shoot_work_def)

lemma put_work:
  assumes "tlb_fifo_put cap t q = Some q'" "\<forall>e \<in> set q. tlb_ok e" "tlb_ok t" "hart_set (smask t) = {h}"
  shows "sum_list (map entry_work q') \<le> sum_list (map entry_work q) + 5"
proof (rule fifo_put_cases [OF assms(2,3,1)])
  assume "q' = q @ [t]"
  then show ?thesis using assms(4) by (simp add: entry_work_def)
next
  fix pre cur cur' post
  assume q: "q = pre @ cur # post" "q' = pre @ cur' # post" and m: "merges cur t cur'"
  have "card (hart_set (smask cur')) \<le> card (hart_set (smask cur)) + 1"
    using m card_Un_le [of "hart_set (smask cur)" "{h}"] assms(4) by (simp add: merges_def)
  then show ?thesis by (simp add: q entry_work_def)
qed

lemma step_work:
  assumes "shoot_step sst H s s'" "shoot_inv H s" "finite H"
  shows "shoot_work H s' < shoot_work H s \<or> (\<exists>h. req s h = No_request \<and> req s' h \<noteq> No_request)"
proof -
  have inv: "entries_ok H s" "requests_ok H s" using assms(2) by (auto simp: shoot_inv_def)
  have rH: "h \<in> H \<and> tlb_ok t \<and> hart_set (smask t) = {h} \<and> T \<subseteq> H" if "asked (req s h) = Some (t, T, Q)" for h t T Q
    using inv(2) that unfolding requests_ok_def by blast
  have bH: "b \<in> H" if "busy s b \<noteq> Not_busy" for b using inv(1) that by (auto simp: entries_ok_def)
  from assms(1) show ?thesis
  proof (cases rule: shoot_step.cases)
    case (begin_request h T t)
    then show ?thesis by (auto intro!: exI [of _ h])
  next
    case (self h t T Q w)
    have h: "h \<in> H" "tlb_ok t" "finite T" using rH [of h t T Q] self(2) finite_subset [OF _ assms(3)] by auto
    have "card (T - {h}) < card T" by (rule card_Diff1_less [OF h(3) self(4)])
    then have "shoot_work H s' < shoot_work H s"
      using self local_process_log [OF h(2) self(5)]
      by (intro work_requests [OF assms(3) h(1)]) (auto simp: serve_work_def)
    then show ?thesis ..
  next
    case (put h t T Q b q)
    have h: "h \<in> H" "tlb_ok t" "hart_set (smask t) = {h}" "T \<subseteq> H" using rH [of h t T Q] put(2) by auto
    have b: "b \<in> H" "finite T" using h(4) put(4) finite_subset [OF _ assms(3)] by auto
    have "\<forall>e \<in> set (tlb_fifo (sw s) b). tlb_ok e" using inv(1) by (simp add: entries_ok_def entry_ok_def)
    then have le: "serve_work s' b \<le> serve_work s b + 5"
      using put_work [OF put(6) _ h(2,3)] put(1) by (simp add: serve_work_def)
    have "8 * card (T - {b}) + 8 = 8 * card T" using card.remove [OF b(2) put(4)] by simp
    then have "req_work (req s' h) + 7 = req_work (req s h)" using put(1,2) by simp
    then have "shoot_work H s' < shoot_work H s"
      using sum_upd [OF assms(3) h(1), of "\<lambda>x. req_work (req s' x)" "\<lambda>x. req_work (req s x)"]
        sum_upd [OF assms(3) b(1), of "serve_work s'" "serve_work s"] le put(1)
      by (simp add: shoot_work_def serve_work_def)
    then show ?thesis ..
  next
    case (add h t T Q)
    then have "shoot_work H s' < shoot_work H s"
      using rH [of h t T Q] by (intro work_requests [OF assms(3), of h]) (auto simp: serve_work_def sync_add_def)
    then show ?thesis ..
  next
    case (sent h t Q)
    then have "shoot_work H s' < shoot_work H s"
      using rH [of h t "{}" Q] by (intro work_requests [OF assms(3), of h]) (auto simp: serve_work_def)
    then show ?thesis ..
  next
    case (synced h t Q)
    then have "shoot_work H s' < shoot_work H s"
      using rH [of h t "{}" Q] by (intro work_requests [OF assms(3), of h]) (auto simp: serve_work_def)
    then show ?thesis ..
  next
    case (dequeue h e es)
    then have "shoot_work H s' < shoot_work H s"
      by (intro work_serves [OF assms(3), of h]) (auto simp: serve_work_def entry_work_def)
    then show ?thesis ..
  next
    case (fence h e w)
    have e: "tlb_ok e" "h \<in> H" using inv(1) fence(2) bH [of h] unfolding entries_ok_def by (metis busy_ok.simps(2) entry_ok_def, simp)
    have "length (sbi_hartmask_harts (smask e)) = card (hart_set (smask e))"
      using mask_harts(1,3) [of "smask e"] distinct_card by metis
    then have "shoot_work H s' < shoot_work H s"
      using fence local_process_log [OF e(1) fence(3)]
      by (intro work_serves [OF assms(3) e(2)]) (auto simp: serve_work_def)
    then show ?thesis ..
  next
    case (ack h e r rs)
    then have "shoot_work H s' < shoot_work H s"
      using bH [of h] by (intro work_serves [OF assms(3), of h]) (auto simp: serve_work_def sync_sub_def)
    then show ?thesis ..
  next
    case (rest h e)
    then have "shoot_work H s' < shoot_work H s"
      using bH [of h] by (intro work_serves [OF assms(3), of h]) (auto simp: serve_work_def)
    then show ?thesis ..
  qed
qed


text \<open>A hart that serves an entry, or has one and is free to take it, can go on; no request begins.\<close>

lemma local_process_returns: "tlb_ok t \<Longrightarrow> \<exists>w'. local_process h t w = Some w'"
  using local_process_fences [of t] by (auto simp: local_process_def tlb_ok_def)

lemma busy_step:
  assumes "shoot_inv H s" "busy s h \<noteq> Not_busy"
  shows "\<exists>s'. shoot_step sst H s s' \<and> req s' = req s"
proof (cases "busy s h")
  case (Fencing e)
  have "busy_ok H (busy s h)" using assms(1) by (simp add: shoot_inv_def entries_ok_def)
  then have "tlb_ok e" using Fencing by (simp add: entry_ok_def)
  then obtain w where "local_process h e (sw s) = Some w" using local_process_returns by blast
  from shoot_step.fence [OF Fencing this] show ?thesis by (intro exI) (rule conjI, assumption, simp)
next
  case (Acking e rs)
  show ?thesis
  proof (cases rs)
    case Nil
    then have "shoot_step sst H s (s\<lparr>busy := (busy s)(h := Not_busy)\<rparr>)" using Acking shoot_step.rest by simp
    then show ?thesis by (intro exI conjI) (assumption, simp)
  next
    case (Cons r rs')
    then have "shoot_step sst H s (s\<lparr>sw := sync_sub sst r (sw s), busy := (busy s)(h := Acking e rs')\<rparr>)"
      using Acking shoot_step.ack by simp
    then show ?thesis by (intro exI conjI) (assumption, simp)
  qed
qed (use assms(2) in simp)

definition goes_on :: "scratch_state \<Rightarrow> nat set \<Rightarrow> shoot_state \<Rightarrow> bool" where
  "goes_on sst H s \<longleftrightarrow> (\<exists>s'. shoot_step sst H s s' \<and> (\<forall>h. req s h = No_request \<longrightarrow> req s' h = No_request))"

lemma goes_onI: "shoot_step sst H s s' \<Longrightarrow> (\<And>h. req s h = No_request \<Longrightarrow> req s' h = No_request) \<Longrightarrow> goes_on sst H s"
  by (auto simp: goes_on_def)

lemma fifo_step:
  assumes "shoot_inv H s" "h \<in> H" "tlb_fifo (sw s) h \<noteq> []"
  shows "goes_on sst H s"
proof (cases "busy s h = Not_busy")
  case True
  obtain e es where f: "tlb_fifo (sw s) h = e # es" using assms(3) by (cases "tlb_fifo (sw s) h") auto
  show ?thesis
  proof (cases "\<exists>t T Q. req s h = Counting t T Q")
    case True
    then obtain t T Q where "req s h = Counting t T Q" by blast
    then show ?thesis by (intro goes_onI [OF shoot_step.add]) auto
  next
    case False
    then show ?thesis using f assms(2) True by (intro goes_onI [OF shoot_step.dequeue]) auto
  qed
next
  case False
  then obtain s' where "shoot_step sst H s s'" "req s' = req s" using busy_step [OF assms(1)] by blast
  then show ?thesis by (intro goes_onI [of sst H s s']) auto
qed

lemma put_full:
  assumes "\<forall>e \<in> set q. tlb_ok e" "tlb_ok t" "tlb_fifo_put cap t q = None"
  shows "cap \<le> length q"
proof -
  obtain r q1 where u: "update_list (tlb_update_cb t) SBI_FIFO_UNCHANGED q = (r, q1)" by fastforce
  show ?thesis
    using update_list_merges [OF assms(1,2) u] assms(3) u by (auto simp: tlb_fifo_put_def split: if_splits)
qed

lemma no_deadlock:
  assumes "shoot_inv H s" "finite H" "0 < tlb_fifo_cap (sw s)" "\<not> quiet H s"
  shows "goes_on sst H s"
proof (cases "\<exists>h. busy s h \<noteq> Not_busy")
  case True
  then obtain h where "busy s h \<noteq> Not_busy" by blast
  then obtain s' where "shoot_step sst H s s'" "req s' = req s" using busy_step [OF assms(1)] by blast
  then show ?thesis by (intro goes_onI [of sst H s s']) auto
next
  case False
  then have idle: "busy s x = Not_busy" for x by simp
  obtain h where h: "h \<in> H" "req s h \<noteq> No_request" using assms(4) idle by (auto simp: quiet_def)
  have inv: "entries_ok H s" "requests_ok H s" "counts_ok H s" using assms(1) by (auto simp: shoot_inv_def)
  show ?thesis
  proof (cases "req s h")
    case (Counting t T Q)
    then show ?thesis by (intro goes_onI [OF shoot_step.add]) auto
  next
    case (Sending t T Q)
    then have t: "tlb_ok t" "T \<subseteq> H" using inv(2) unfolding requests_ok_def by (metis asked.simps(2))+
    consider "T = {}" | "h \<in> T" | b where "b \<in> T" "b \<noteq> h" by blast
    then show ?thesis
    proof cases
      case 1
      then show ?thesis using Sending idle by (intro goes_onI [OF shoot_step.sent]) auto
    next
      case 2
      obtain w where "local_process h t (sw s) = Some w" using local_process_returns [OF t(1)] by blast
      then show ?thesis using Sending idle 2 by (intro goes_onI [OF shoot_step.self]) auto
    next
      case (3 b)
      show ?thesis
      proof (cases "tlb_fifo_put (tlb_fifo_cap (sw s)) t (tlb_fifo (sw s) b)")
        case None
        have "\<forall>e \<in> set (tlb_fifo (sw s) b). tlb_ok e" using inv(1) by (simp add: entries_ok_def entry_ok_def)
        then have "tlb_fifo (sw s) b \<noteq> []" using put_full [OF _ t(1) None] assms(3) by auto
        then show ?thesis using fifo_step [OF assms(1)] 3 t(2) by blast
      next
        case (Some q)
        then show ?thesis using Sending idle 3 by (intro goes_onI [OF shoot_step.put]) auto
      qed
    qed
  next
    case (Syncing t Q)
    show ?thesis
    proof (cases "0 < tlb_sync_cnt (sw s) h")
      case True
      have "tlb_sync_cnt (sw s) h + behind (req s h) = (\<Sum>b \<in> H. int (pend s h b))"
        using inv(3) h(1) by (simp add: counts_ok_def)
      then have "(\<Sum>b \<in> H. int (pend s h b)) \<noteq> 0" using True Syncing by simp
      then have "\<not> (\<forall>b \<in> H. int (pend s h b) = 0)" by (metis (mono_tags, lifting) sum.neutral)
      then obtain b where "b \<in> H" "pend s h b \<noteq> 0" by auto
      moreover have "tlb_fifo (sw s) b \<noteq> []" using calculation(2) idle by (auto simp: pend_def in_fifo_def)
      ultimately show ?thesis using fifo_step [OF assms(1)] by blast
    next
      case False
      then show ?thesis using Syncing idle by (intro goes_onI [OF shoot_step.synced]) auto
    qed
  qed (use h(2) in simp)
qed


section \<open>Properties\<close>

lemma step_cap: "shoot_step sst H s s' \<Longrightarrow> tlb_fifo_cap (sw s') = tlb_fifo_cap (sw s)"
  by (induction rule: shoot_step.induct) (auto simp: sync_add_def sync_sub_def local_process_def)

lemma reachable_cap: "shoot_reachable sst H w s \<Longrightarrow> tlb_fifo_cap (sw s) = tlb_fifo_cap w"
  by (induction rule: shoot_reachable.induct) (auto simp: step_cap)



definition demo_tlb :: tlb_system where
  "demo_tlb = \<lparr>harts = (\<lambda>_. demo_hart SBI_HSM_STATE_STARTED), hsm_dev = None, ipi_type = (\<lambda>_. 0), mswi_ptr = (\<lambda>_. None),
     mmio = (\<lambda>_. 0), tlb_fifo = (\<lambda>_. []), tlb_fifo_cap = 2, tlb_sync_cnt = (\<lambda>_. 0), csr_hgatp = (\<lambda>_. 0), fences = (\<lambda>_. [])\<rparr>"

definition demo_request :: sbi_tlb_info where
  "demo_request = \<lparr>tlb_start = 0x2000, tlb_size = 0x1000, tlb_asid = 0, tlb_vmid = 0, tlb_type = SBI_TLB_SFENCE_VMA, smask = [1, 0]\<rparr>"

lemma demo_request_ok: "tlb_ok demo_request" "hart_set (smask demo_request) = {0}"
proof -
  have "sbi_hartmask_harts [1, 0] = [0]" by code_simp
  then show "hart_set (smask demo_request) = {0}" using mask_harts(1) [of "[1, 0]"] by (simp add: demo_request_def)
  show "tlb_ok demo_request"
    by (simp add: demo_request_def tlb_ok_def tlb_bounded_def tlb_plain_def wf_mask_def is_sfence_def flush_all_def
        SBI_TLB_FLUSH_ALL_def tlb_types)
qed


text \<open>Hart 0 asks hart 1 for a fence; hart 1 serves the request before hart 0 has counted it.\<close>

lemma demo_shootdown:
  obtains s where "shoot_reachable demo_sst {0, 1} demo_tlb s" "req s 0 = Syncing demo_request {1}" "goal s 0 = {1}"
    "tlb_sync_cnt (sw s) 0 = 0" "mark s 0 1 = 0" "fences (sw s) 1 = [Sfence_vma 0x2000]"
proof -
  let ?t = demo_request and ?w = demo_tlb and ?R = "shoot_reachable demo_sst {0, 1} demo_tlb"
  let ?idle = "\<lambda>_. Not_busy" and ?none = "\<lambda>_. No_request" and ?g = "(\<lambda>_. {})(0 := {1 :: nat})"
  let ?m = "(\<lambda>_ _. 0) :: nat \<Rightarrow> nat \<Rightarrow> nat"
  let ?f = "(\<lambda>_. [])(1 := [Sfence_vma 0x2000])"
  define s0 where "s0 = \<lparr>sw = ?w, req = ?none, busy = ?idle, goal = (\<lambda>_. {}), mark = ?m\<rparr>"
  define s1 where "s1 = \<lparr>sw = ?w, req = ?none(0 := Sending ?t {1} {}), busy = ?idle, goal = ?g, mark = ?m\<rparr>"
  define s2 where "s2 = \<lparr>sw = ?w\<lparr>tlb_fifo := (\<lambda>_. [])(1 := [?t])\<rparr>, req = ?none(0 := Counting ?t {} {1}), busy = ?idle, goal = ?g, mark = ?m\<rparr>"
  define s3 where "s3 = \<lparr>sw = ?w, req = ?none(0 := Counting ?t {} {1}), busy = ?idle(1 := Fencing ?t), goal = ?g, mark = ?m\<rparr>"
  define s4 where "s4 = \<lparr>sw = ?w\<lparr>fences := ?f\<rparr>, req = ?none(0 := Counting ?t {} {1}), busy = ?idle(1 := Acking ?t [0]), goal = ?g, mark = ?m\<rparr>"
  define s5 where "s5 = \<lparr>sw = ?w\<lparr>fences := ?f, tlb_sync_cnt := (\<lambda>_. 0)(0 := -1)\<rparr>, req = ?none(0 := Counting ?t {} {1}),
      busy = ?idle(1 := Acking ?t []), goal = ?g, mark = ?m\<rparr>"
  define s6 where "s6 = \<lparr>sw = ?w\<lparr>fences := ?f\<rparr>, req = ?none(0 := Sending ?t {} {1}),
      busy = ?idle(1 := Acking ?t []), goal = ?g, mark = ?m\<rparr>"
  define s7 where "s7 = \<lparr>sw = ?w\<lparr>fences := ?f\<rparr>, req = ?none(0 := Syncing ?t {1}),
      busy = ?idle(1 := Acking ?t []), goal = ?g, mark = ?m\<rparr>"
  have r0: "?R s0" unfolding s0_def by (rule shoot_reachable.start) (simp add: demo_tlb_def)
  have "shoot_step demo_sst {0, 1} s0 s1"
    using shoot_step.begin_request [of s0 0 "{0, 1}" "{1}" ?t demo_sst] demo_request_ok by (simp add: s0_def s1_def)
  then have r1: "?R s1" using shoot_reachable.step [OF r0] by blast
  have "tlb_fifo_put (tlb_fifo_cap (sw s1)) ?t (tlb_fifo (sw s1) 1) = Some [?t]"
    by (simp add: s1_def demo_tlb_def tlb_fifo_put_def)
  then have "shoot_step demo_sst {0, 1} s1 s2"
    using shoot_step.put [of s1 0 ?t "{1}" "{}" 1 "[?t]" demo_sst "{0, 1}"]
    by (simp add: s1_def s2_def demo_tlb_def fun_upd_def cong: if_cong)
  then have r2: "?R s2" using shoot_reachable.step [OF r1] by blast
  have "shoot_step demo_sst {0, 1} s2 s3"
    using shoot_step.dequeue [of s2 1 "{0, 1}" ?t "[]" demo_sst] by (simp add: s2_def s3_def demo_tlb_def fun_upd_def cong: if_cong)
  then have r3: "?R s3" using shoot_reachable.step [OF r2] by blast
  have b: "tlb_bounded ?t" using demo_request_ok(1) by (simp add: tlb_ok_def)
  have f: "tlb_fences ?t = [Sfence_vma 0x2000]"
    by (simp add: tlb_fences_def demo_request_def flush_all_def page_count_def page_fence_def tlb_types SBI_TLB_FLUSH_ALL_def)
  have "local_process 1 ?t (sw s3) = Some (?w\<lparr>fences := ?f\<rparr>)"
    using local_process_fences [OF b] f by (simp add: s3_def demo_tlb_def local_process_def fun_upd_idem_iff)
  moreover have "sbi_hartmask_harts (smask ?t) = [0]" unfolding demo_request_def by code_simp
  ultimately have "shoot_step demo_sst {0, 1} s3 s4"
    using shoot_step.fence [of s3 1 ?t "?w\<lparr>fences := ?f\<rparr>" demo_sst "{0, 1}"] by (simp add: s3_def s4_def)
  then have r4: "?R s4" using shoot_reachable.step [OF r3] by blast
  have "sync_sub demo_sst 0 (sw s4) = ?w\<lparr>fences := ?f, tlb_sync_cnt := (\<lambda>_. 0)(0 := -1)\<rparr>"
    using demo_index(2) by (auto simp: s4_def sync_sub_def demo_tlb_def)
  then have "shoot_step demo_sst {0, 1} s4 s5"
    using shoot_step.ack [of s4 1 ?t 0 "[]" demo_sst "{0, 1}"] by (simp add: s4_def s5_def)
  then have r5: "?R s5" using shoot_reachable.step [OF r4] by blast
  have "shoot_step demo_sst {0, 1} s5 s6"
    using shoot_step.add [of s5 0 ?t "{}" "{1}" demo_sst "{0, 1}"]
    by (simp add: s5_def s6_def sync_add_def demo_tlb_def fun_upd_def cong: if_cong)
  then have r6: "?R s6" using shoot_reachable.step [OF r5] by blast
  have "shoot_step demo_sst {0, 1} s6 s7"
    using shoot_step.sent [of s6 0 ?t "{1}" demo_sst "{0, 1}"] by (simp add: s6_def s7_def)
  then have "?R s7" using shoot_reachable.step [OF r6] by blast
  then show ?thesis by (rule that) (simp_all add: s7_def demo_tlb_def)
qed


lemma demo_present_scratch: "\<forall>h \<in> {0, 1}. sbi_hartindex_to_scratch demo_sst h \<noteq> None"
  using demo_present by (auto simp: mswi_present_def)



end
