(* ===== verification/SbiTlbQueue.thy ===== *)
theory SbiTlbQueue
  imports SbiTlb
begin

text \<open>
  The queues of remote fence requests as the byte rings they are: a request is stored as the 40
  bytes of \<open>struct sbi_tlb_info\<close>, and the two ring operations of \<open>tlb_update\<close> implement the list
  operation \<open>tlb_fifo_put\<close> the other theories use.
\<close>

unbundle bit_operations_syntax

section \<open>Little-endian layout\<close>

definition word_bytes :: "nat \<Rightarrow> 'a::len word \<Rightarrow> bytes" where
  "word_bytes n w = map (\<lambda>i. ucast (drop_bit (8 * i) w)) [0..<n]"

fun bytes_word :: "bytes \<Rightarrow> 'a::len word" where
  "bytes_word [] = 0"
| "bytes_word (b # bs) = ucast b OR push_bit 8 (bytes_word bs)"

lemma word_bytes_length [simp]: "length (word_bytes n w) = n"
  by (simp add: word_bytes_def)

lemma word_bytes_Suc: "word_bytes (Suc n) w = ucast w # word_bytes n (drop_bit 8 w)"
proof -
  have "[0..<Suc n] = 0 # map Suc [0..<n]" by (simp add: upt_conv_Cons map_Suc_upt)
  then show ?thesis by (simp add: word_bytes_def drop_bit_drop_bit add.commute del: upt_Suc)
qed

lemma bytes_word_bytes: "bytes_word (word_bytes n w) = take_bit (8 * n) w"
proof (induction n arbitrary: w)
  case 0
  show ?case by (simp add: word_bytes_def)
next
  case (Suc n)
  show ?case
    unfolding word_bytes_Suc bytes_word.simps Suc
    by (rule bit_word_eqI) (auto simp: bit_simps)
qed

section \<open>Requests as bytes\<close>

definition tlb_encode :: "sbi_tlb_info \<Rightarrow> bytes" where
  "tlb_encode t =
     word_bytes 8 (tlb_start t) @ word_bytes 8 (tlb_size t) @ word_bytes 2 (tlb_asid t) @ word_bytes 2 (tlb_vmid t) @
     word_bytes 4 (word_of_int (tlb_type t) :: u32) @ word_bytes 8 (smask t ! 0) @ word_bytes 8 (smask t ! 1)"

definition tlb_decode :: "bytes \<Rightarrow> sbi_tlb_info" where
  "tlb_decode bs =
     \<lparr>tlb_start = bytes_word (take 8 bs), tlb_size = bytes_word (take 8 (drop 8 bs)),
      tlb_asid = bytes_word (take 2 (drop 16 bs)), tlb_vmid = bytes_word (take 2 (drop 18 bs)),
      tlb_type = sint (bytes_word (take 4 (drop 20 bs)) :: u32),
      smask = [bytes_word (take 8 (drop 24 bs)), bytes_word (take 8 (drop 32 bs))]\<rparr>"

definition SBI_TLB_INFO_SIZE :: u16 where "SBI_TLB_INFO_SIZE = 40"

lemma tlb_encode_length [simp]: "length (tlb_encode t) = 40"
  by (simp add: tlb_encode_def)

lemma sint_word_of_int_u32:
  assumes "0 \<le> i" "i < 7"
  shows "sint (word_of_int i :: u32) = i"
proof -
  have "i \<in> {0, 1, 2, 3, 4, 5, 6}" using assms by auto
  then show ?thesis by auto
qed

lemma tlb_decode_encode:
  assumes "tlb_ok t"
  shows "tlb_decode (tlb_encode t) = t"
proof -
  have m: "[smask t ! 0, smask t ! Suc 0] = smask t"
    using assms by (auto simp: tlb_ok_def wf_mask_def length_Suc_conv numeral_2_eq_2)
  have ty: "sint (word_of_int (tlb_type t) :: u32) = tlb_type t"
    using assms by (intro sint_word_of_int_u32) (auto simp: tlb_ok_def tlb_bounded_def SBI_TLB_TYPE_MAX_def)
  have full: "take_bit 64 w = w" for w :: u64 by (rule bit_word_eqI) (simp add: bit_simps)
  have full16: "take_bit 16 w = w" for w :: u16 by (rule bit_word_eqI) (simp add: bit_simps)
  have full32: "take_bit 32 w = w" for w :: u32 by (rule bit_word_eqI) (simp add: bit_simps)
  have w: "bytes_word (word_bytes 8 a) = a" "bytes_word (word_bytes 2 b) = b" "bytes_word (word_bytes 4 c) = c"
    for a :: u64 and b :: u16 and c :: u32
    by (simp_all add: bytes_word_bytes full full16 full32)
  show ?thesis
    unfolding tlb_decode_def tlb_encode_def by (simp add: w ty m)
qed

section \<open>The ring operations of a request\<close>

text \<open>\<open>tlb_update_cb\<close> gets pointers to two requests.\<close>

definition tlb_update_cb_bytes :: "bytes \<Rightarrow> bytes \<Rightarrow> int \<times> bytes" where
  "tlb_update_cb_bytes inp data =
     (if length data = 40 then apsnd tlb_encode (tlb_update_cb (tlb_decode inp) (tlb_decode data))
      else (SBI_FIFO_UNCHANGED, data))"

text \<open>The part of \<open>tlb_update\<close> that works on the queue of the target: the ring and whether there was room.\<close>

definition tlb_queue_put :: "bytes \<Rightarrow> sbi_fifo \<Rightarrow> (bool \<times> sbi_fifo) option" where
  "tlb_queue_put data f =
     Option.bind (sbi_fifo_inplace_update (Some f) (Some data) tlb_update_cb_bytes) (\<lambda>(ret, p).
       if ret = SBI_FIFO_UNCHANGED
       then Option.bind (sbi_fifo_enqueue p (Some data) False) (\<lambda>(rc, p).
              case p of None \<Rightarrow> None | Some f \<Rightarrow> Some (\<not> rc < 0, f))
       else case p of None \<Rightarrow> None | Some f \<Rightarrow> Some (True, f))"

lemma update_list_map:
  assumes "\<forall>e \<in> set q. fptr' (enc e) = apsnd enc (fptr e)"
  shows "update_list fptr' r (map enc q) = apsnd (map enc) (update_list fptr r q)"
  using assms by (induction q arbitrary: r) (auto simp: case_prod_beta apsnd_def map_prod_def)

lemma update_cb_bytes:
  assumes "tlb_ok t" "tlb_ok e"
  shows "tlb_update_cb_bytes (tlb_encode t) (tlb_encode e) = apsnd tlb_encode (tlb_update_cb t e)"
  using assms by (simp add: tlb_update_cb_bytes_def tlb_decode_encode)

text \<open>
  C25: the queue of a hart, a ring of 40-byte records, behaves as the list of its requests: the in-place merge and
  the enqueue of \<open>tlb_update\<close> compute \<open>tlb_fifo_put\<close>, report a full ring exactly when it does, and leave
  a full ring as it was.
\<close>

theorem tlb_queue_refines:
  assumes "fifo_wf f" "entry_size f = SBI_TLB_INFO_SIZE" "contents f = map tlb_encode q" "\<forall>e \<in> set q. tlb_ok e" "tlb_ok t"
  shows "\<exists>b f'. tlb_queue_put (tlb_encode t) f = Some (b, f') \<and> fifo_wf f' \<and>
    (case tlb_fifo_put (unat (num_entries f)) t q of
       None \<Rightarrow> \<not> b \<and> contents f' = contents f
     | Some q' \<Rightarrow> b \<and> contents f' = map tlb_encode q')"
proof -
  let ?u = "update_list (tlb_update_cb t) SBI_FIFO_UNCHANGED q"
  have cb: "length (snd (tlb_update_cb_bytes d e)) = length e" for d e
    by (simp add: tlb_update_cb_bytes_def apsnd_def map_prod_def case_prod_beta)
  have map: "update_list (tlb_update_cb_bytes (tlb_encode t)) SBI_FIFO_UNCHANGED (contents f) = apsnd (map tlb_encode) ?u"
    unfolding assms(3) by (rule update_list_map) (use assms(4,5) update_cb_bytes in blast)
  obtain f1 where f1: "sbi_fifo_inplace_update (Some f) (Some (tlb_encode t)) tlb_update_cb_bytes = Some (fst ?u, Some f1)"
      "fifo_wf f1" "contents f1 = map tlb_encode (snd ?u)" "num_entries f1 = num_entries f" "entry_size f1 = entry_size f"
    using inplace_update_list [OF assms(1), of tlb_update_cb_bytes "tlb_encode t"] cb unfolding map by auto
  show ?thesis
  proof (cases "fst ?u = SBI_FIFO_UNCHANGED")
    case False
    then show ?thesis using f1 by (auto simp: tlb_queue_put_def tlb_fifo_put_def case_prod_beta)
  next
    case True
    have "length (tlb_encode t) = unat (entry_size f1)" using assms(2) f1(5) by (simp add: SBI_TLB_INFO_SIZE_def)
    then obtain r f2 where f2: "sbi_fifo_enqueue (Some f1) (Some (tlb_encode t)) False = Some (r, Some f2)" "fifo_wf f2"
        "if length (contents f1) < unat (num_entries f1) then r = 0 \<and> contents f2 = contents f1 @ [tlb_encode t]
         else r = SBI_ENOSPC \<and> f2 = f1"
      using enqueue_list [OF f1(2), of "tlb_encode t" False] by auto
    have "update_list (tlb_update_cb t) SBI_FIFO_UNCHANGED q = (SBI_FIFO_UNCHANGED, snd ?u)" using True by (metis prod.collapse)
    then have "snd ?u = q" using update_list_merges [OF assms(4,5)] by fastforce
    then show ?thesis
      using f1 f2 True assms(3)
      by (auto simp: tlb_queue_put_def tlb_fifo_put_def case_prod_beta sbi_errors split: if_splits)
  qed
qed

theorem tlb_queue_refines_witness:
  "\<exists>b f'. tlb_queue_put (tlb_encode (vma_request 0x1000 0x1000 [1, 0]))
      \<lparr>queue = replicate 80 0, entry_size = 40, num_entries = 2, avail = 0, tail = 1\<rparr> = Some (b, f') \<and> b \<and>
    contents f' = [tlb_encode (vma_request 0x1000 0x1000 [1, 0])]"
proof -
  let ?f = "\<lparr>queue = replicate 80 0, entry_size = 40, num_entries = 2, avail = 0, tail = 1\<rparr>"
  let ?t = "vma_request 0x1000 0x1000 [1, 0]"
  have "tlb_ok ?t"
    by (simp add: vma_request_def tlb_ok_def tlb_bounded_def tlb_plain_def wf_mask_def is_sfence_def flush_all_def
        SBI_TLB_FLUSH_ALL_def tlb_types)
  moreover have "fifo_wf ?f" "entry_size ?f = SBI_TLB_INFO_SIZE" "contents ?f = map tlb_encode []"
    by (simp_all add: fifo_wf_def SBI_TLB_INFO_SIZE_def contents_def)
  moreover have "tlb_fifo_put (unat (num_entries ?f)) ?t [] = Some [?t]" by (simp add: tlb_fifo_put_def)
  ultimately show ?thesis using tlb_queue_refines [of ?f "[]" ?t] by (auto simp: SBI_TLB_INFO_SIZE_def)
qed

end
