(* ===== verification/SbiTrap.thy ===== *)
theory SbiTrap
  imports SbiDomain
begin

text \<open>
  Trap redirection (\<open>sbi_trap_redirect\<close> of \<open>lib/sbi/sbi_trap.c\<close>, for \<open>__riscv_xlen = 64\<close>): a trap the firmware
  does not handle itself is handed to the supervisor, or to the guest when the hypervisor delegated
  it, by writing the registers the hardware writes when it takes a trap to that mode.  The
  register frame and the supervisor registers are shared with the supervisor software events.
\<close>

unbundle bit_operations_syntax

section \<open>Registers\<close>

definition MSTATUS_SIE :: u64 where "MSTATUS_SIE = 0x2"
definition MSTATUS_SPIE :: u64 where "MSTATUS_SPIE = push_bit 5 1"
definition MSTATUS_SPP :: u64 where "MSTATUS_SPP = push_bit 8 1"
definition MSTATUS_MPP_SHIFT :: nat where "MSTATUS_MPP_SHIFT = 11"
definition MSTATUS_MPP :: u64 where "MSTATUS_MPP = push_bit MSTATUS_MPP_SHIFT 3"
definition MSTATUS_SPELP :: u64 where "MSTATUS_SPELP = 0x00800000"
definition MSTATUS_MPV :: u64 where "MSTATUS_MPV = 0x0000008000000000"
definition MSTATUS_MPELP :: u64 where "MSTATUS_MPELP = 0x0000020000000000"
definition HSTATUS_GVA :: u64 where "HSTATUS_GVA = 0x40"
definition HSTATUS_SPV :: u64 where "HSTATUS_SPV = 0x80"
definition HSTATUS_SPVP :: u64 where "HSTATUS_SPVP = 0x100"

text \<open>The members of the register frame that the code reads or writes; \<open>sstatus\<close> is a view of \<open>mstatus\<close>.\<close>

record sbi_trap_regs =
  a0 :: u64
  a1 :: u64
  a2 :: u64
  a3 :: u64
  a4 :: u64
  a5 :: u64
  a6 :: u64
  a7 :: u64
  mepc :: u64
  mstatus :: u64

record sbi_trap_info =
  trap_cause :: u64
  trap_tval :: u64
  trap_tval2 :: u64
  trap_tinst :: u64
  trap_gva :: u64

text \<open>The registers of the lower modes, and which extensions the hart has.\<close>

record lower_csrs =
  csr_stvec :: u64
  csr_sepc :: u64
  csr_scause :: u64
  csr_stval :: u64
  csr_hstatus :: u64
  csr_hedeleg :: u64
  csr_htval :: u64
  csr_htinst :: u64
  csr_vsstatus :: u64
  csr_vstvec :: u64
  csr_vsepc :: u64
  csr_vscause :: u64
  csr_vstval :: u64
  has_h :: bool
  has_zicfilp :: bool

definition sbi_regs_from_virt :: "sbi_trap_regs \<Rightarrow> bool" where
  "sbi_regs_from_virt regs \<longleftrightarrow> mstatus regs AND MSTATUS_MPV \<noteq> 0"

definition sbi_mstatus_prev_mode :: "u64 \<Rightarrow> u64" where
  "sbi_mstatus_prev_mode ms = drop_bit MSTATUS_MPP_SHIFT (ms AND MSTATUS_MPP)"

section \<open>Redirection\<close>

text \<open>
  \<open>x &= ~mask; x |= c ? mask : 0\<close>, the code's way to set a field to a truth value.
\<close>

definition put_bit :: "u64 \<Rightarrow> bool \<Rightarrow> u64 \<Rightarrow> u64" where
  "put_bit m c x = (x AND NOT m) OR (if c then m else 0)"

definition set_mpp_s :: "u64 \<Rightarrow> u64" where
  "set_mpp_s ms = (ms AND NOT MSTATUS_MPP) OR push_bit MSTATUS_MPP_SHIFT PRV_S"

definition redirect_next_virt :: "lower_csrs \<Rightarrow> sbi_trap_info \<Rightarrow> bool \<Rightarrow> bool" where
  "redirect_next_virt c trap prev_virt \<longleftrightarrow>
     has_h c \<and> prev_virt \<and> trap_cause trap < 64 \<and> csr_hedeleg c AND BIT (unat (trap_cause trap)) \<noteq> 0"

definition redirect_hypervisor :: "sbi_trap_info \<Rightarrow> u64 \<Rightarrow> bool \<Rightarrow> lower_csrs \<Rightarrow> lower_csrs" where
  "redirect_hypervisor trap prev_mode prev_virt c =
     (let h = csr_hstatus c;
          h = (if prev_virt then put_bit HSTATUS_SPVP (prev_mode = PRV_S) h else h);
          h = put_bit HSTATUS_SPV prev_virt h;
          h = put_bit HSTATUS_GVA (trap_gva trap \<noteq> 0) h
      in c\<lparr>csr_hstatus := h, csr_htval := trap_tval2 trap, csr_htinst := trap_tinst trap\<rparr>)"

definition redirect_vs ::
  "sbi_trap_info \<Rightarrow> u64 \<Rightarrow> bool \<Rightarrow> sbi_trap_regs \<times> lower_csrs \<Rightarrow> sbi_trap_regs \<times> lower_csrs" where
  "redirect_vs trap prev_mode elp s =
     (case s of (regs, c) \<Rightarrow>
        let c = c\<lparr>csr_vstval := trap_tval trap, csr_vsepc := mepc regs, csr_vscause := trap_cause trap\<rparr>;
            regs = regs\<lparr>mepc := csr_vstvec c, mstatus := set_mpp_s (mstatus regs)\<rparr>;
            v = csr_vsstatus c;
            v = (if elp then v OR MSTATUS_SPELP else v);
            v = put_bit MSTATUS_SPP (prev_mode = PRV_S) v;
            v = put_bit MSTATUS_SPIE (v AND MSTATUS_SIE \<noteq> 0) v;
            v = v AND NOT MSTATUS_SIE
        in (regs, c\<lparr>csr_vsstatus := v\<rparr>))"

definition redirect_s ::
  "sbi_trap_info \<Rightarrow> u64 \<Rightarrow> bool \<Rightarrow> sbi_trap_regs \<times> lower_csrs \<Rightarrow> sbi_trap_regs \<times> lower_csrs" where
  "redirect_s trap prev_mode elp s =
     (case s of (regs, c) \<Rightarrow>
        let c = c\<lparr>csr_stval := trap_tval trap, csr_sepc := mepc regs, csr_scause := trap_cause trap\<rparr>;
            m = set_mpp_s (mstatus regs);
            m = put_bit MSTATUS_SPP (prev_mode = PRV_S) m;
            m = put_bit MSTATUS_SPIE (m AND MSTATUS_SIE \<noteq> 0) m;
            m = m AND NOT MSTATUS_SIE;
            m = (if elp then m OR MSTATUS_SPELP else m)
        in (regs\<lparr>mepc := csr_stvec c, mstatus := m\<rparr>, c))"

definition sbi_trap_redirect ::
  "sbi_trap_info \<Rightarrow> sbi_trap_regs \<times> lower_csrs \<Rightarrow> int \<times> sbi_trap_regs \<times> lower_csrs" where
  "sbi_trap_redirect trap s =
     (case s of (regs, c) \<Rightarrow>
        let prev_virt = sbi_regs_from_virt regs; prev_mode = sbi_mstatus_prev_mode (mstatus regs) in
        if prev_mode \<noteq> PRV_S \<and> prev_mode \<noteq> PRV_U then (SBI_ENOTSUPP, regs, c)
        else
          let elp = (has_zicfilp c \<and> mstatus regs AND MSTATUS_MPELP \<noteq> 0);
              regs = (if has_zicfilp c then regs\<lparr>mstatus := mstatus regs AND NOT MSTATUS_MPELP\<rparr> else regs);
              next_virt = redirect_next_virt c trap prev_virt;
              regs = regs\<lparr>mstatus := put_bit MSTATUS_MPV next_virt (mstatus regs)\<rparr>;
              c = (if has_h c \<and> \<not> next_virt then redirect_hypervisor trap prev_mode prev_virt c else c)
          in (0, if next_virt then redirect_vs trap prev_mode elp (regs, c) else redirect_s trap prev_mode elp (regs, c)))"


section \<open>Fields\<close>

lemma and_single_bit:
  fixes w m :: "'a::len word"
  assumes "\<And>n. bit m n \<longleftrightarrow> n = k"
  shows "w AND m \<noteq> 0 \<longleftrightarrow> bit w k"
proof -
  have "w AND m = 0 \<longleftrightarrow> \<not> bit w k"
    using assms bit_imp_le_length [of w k] by (auto simp: bit_eq_iff [of "w AND m" 0] bit_and_iff)
  then show ?thesis by simp
qed

lemma bit_status_masks [simp]:
  "bit MSTATUS_SIE n \<longleftrightarrow> n = 1" "bit MSTATUS_SPIE n \<longleftrightarrow> n = 5" "bit MSTATUS_SPP n \<longleftrightarrow> n = 8"
  "bit MSTATUS_MPP n \<longleftrightarrow> n = 11 \<or> n = 12" "bit MSTATUS_SPELP n \<longleftrightarrow> n = 23" "bit MSTATUS_MPV n \<longleftrightarrow> n = 39"
  "bit MSTATUS_MPELP n \<longleftrightarrow> n = 41" "bit HSTATUS_GVA n \<longleftrightarrow> n = 6" "bit HSTATUS_SPV n \<longleftrightarrow> n = 7" "bit HSTATUS_SPVP n \<longleftrightarrow> n = 8"
proof -
  have p: "bit (push_bit k 1 :: u64) n \<longleftrightarrow> n = k" if "k < 64" for k using that by (auto simp: bit_simps)
  have "(0x2 :: u64) = push_bit 1 1" "(0x00800000 :: u64) = push_bit 23 1" "(0x0000008000000000 :: u64) = push_bit 39 1"
    "(0x0000020000000000 :: u64) = push_bit 41 1" "(0x40 :: u64) = push_bit 6 1" "(0x80 :: u64) = push_bit 7 1"
    "(0x100 :: u64) = push_bit 8 1" by (simp_all add: push_bit_eq_mult)
  then show "bit MSTATUS_SIE n \<longleftrightarrow> n = 1" "bit MSTATUS_SPELP n \<longleftrightarrow> n = 23" "bit MSTATUS_MPV n \<longleftrightarrow> n = 39"
    "bit MSTATUS_MPELP n \<longleftrightarrow> n = 41" "bit HSTATUS_GVA n \<longleftrightarrow> n = 6" "bit HSTATUS_SPV n \<longleftrightarrow> n = 7" "bit HSTATUS_SPVP n \<longleftrightarrow> n = 8"
    by (simp_all only: MSTATUS_SIE_def MSTATUS_SPELP_def MSTATUS_MPV_def MSTATUS_MPELP_def HSTATUS_GVA_def HSTATUS_SPV_def
        HSTATUS_SPVP_def p)
  show "bit MSTATUS_SPIE n \<longleftrightarrow> n = 5" "bit MSTATUS_SPP n \<longleftrightarrow> n = 8"
    by (simp_all only: MSTATUS_SPIE_def MSTATUS_SPP_def p)
  have three: "(3 :: u64) = push_bit 0 1 OR push_bit 1 1" by (simp add: push_bit_eq_mult)
  show "bit MSTATUS_MPP n \<longleftrightarrow> n = 11 \<or> n = 12"
    unfolding MSTATUS_MPP_def MSTATUS_MPP_SHIFT_def three push_bit_or push_bit_push_bit bit_or_iff
    by (simp add: p del: push_bit_of_1 One_nat_def)
qed

lemma status_tests [simp]:
  "w AND MSTATUS_SIE \<noteq> 0 \<longleftrightarrow> bit w 1" "w AND MSTATUS_SPIE \<noteq> 0 \<longleftrightarrow> bit w 5" "w AND MSTATUS_SPP \<noteq> 0 \<longleftrightarrow> bit w 8"
  "w AND MSTATUS_MPV \<noteq> 0 \<longleftrightarrow> bit w 39" "w AND MSTATUS_MPELP \<noteq> 0 \<longleftrightarrow> bit w 41"
  "w AND HSTATUS_SPV \<noteq> 0 \<longleftrightarrow> bit w 7" "w AND HSTATUS_SPVP \<noteq> 0 \<longleftrightarrow> bit w 8"
  by (rule and_single_bit; simp)+

lemma bit_put_bit: "bit (put_bit m c x) n \<longleftrightarrow> (if bit m n then c else bit x n)"
  by (auto simp: put_bit_def bit_simps dest: bit_imp_le_length)

lemma bit_set_mpp_s: "bit (set_mpp_s x) n \<longleftrightarrow> (if n = 11 then True else if n = 12 then False else bit x n)"
proof -
  have "bit (push_bit 11 1 :: u64) n \<longleftrightarrow> n = 11" by (auto simp only: bit_push_bit_iff bit_1_iff) auto
  then show ?thesis
    unfolding set_mpp_s_def PRV_S_def MSTATUS_MPP_SHIFT_def
    by (auto simp: bit_or_iff bit_and_iff bit_not_iff simp del: push_bit_of_1 dest: bit_imp_le_length)
qed

lemma prev_mode_bits: "bit (sbi_mstatus_prev_mode ms) n \<longleftrightarrow> n < 2 \<and> bit ms (11 + n)"
  by (auto simp: sbi_mstatus_prev_mode_def MSTATUS_MPP_SHIFT_def bit_simps less_2_cases_iff)

lemma prev_mode_cases:
  "sbi_mstatus_prev_mode ms = PRV_S \<longleftrightarrow> bit ms 11 \<and> \<not> bit ms 12"
  "sbi_mstatus_prev_mode ms = PRV_U \<longleftrightarrow> \<not> bit ms 11 \<and> \<not> bit ms 12"
proof -
  have S: "sbi_mstatus_prev_mode ms = PRV_S \<longleftrightarrow> (\<forall>n < 64. n < 2 \<and> bit ms (11 + n) \<longleftrightarrow> n = 0)"
    and U: "sbi_mstatus_prev_mode ms = PRV_U \<longleftrightarrow> (\<forall>n < 64. \<not> (n < 2 \<and> bit ms (11 + n)))"
    unfolding bit_eq_iff [of "sbi_mstatus_prev_mode ms"] prev_mode_bits PRV_S_def PRV_U_def
    by (auto simp: bit_1_iff)
  have two: "(0 :: nat) < 64" "(1 :: nat) < 64" "(0 :: nat) < 2" "(1 :: nat) < 2" by simp_all
  have "bit ms (11 + n) \<longleftrightarrow> (if n = 0 then bit ms 11 else bit ms 12)" if "n < 2" for n
    using that by (auto simp: less_2_cases_iff)
  then show "sbi_mstatus_prev_mode ms = PRV_S \<longleftrightarrow> bit ms 11 \<and> \<not> bit ms 12"
    "sbi_mstatus_prev_mode ms = PRV_U \<longleftrightarrow> \<not> bit ms 11 \<and> \<not> bit ms 12"
    unfolding S U using two by (metis zero_neq_one)+
qed

lemmas status_bits = bit_put_bit bit_set_mpp_s bit_simps


section \<open>Properties\<close>

text \<open>
  What the privileged architecture says a trap into a supervisor does to bit \<open>n\<close> of its status
  register: interrupts go off and their old enable moves to SPIE, SPP records the mode, and a
  pending landing pad expectation is kept in SPELP.
\<close>

definition trap_entry_bit :: "bool \<Rightarrow> bool \<Rightarrow> u64 \<Rightarrow> nat \<Rightarrow> bool" where
  "trap_entry_bit from_s elp old n \<longleftrightarrow>
     (if n = 1 then False else if n = 5 then bit old 1 else if n = 8 then from_s
      else if n = 23 then bit old 23 \<or> elp else bit old n)"

text \<open>What a trap into the hypervisor does to \<open>hstatus\<close>.\<close>

definition hstatus_entry_bit :: "bool \<Rightarrow> bool \<Rightarrow> bool \<Rightarrow> u64 \<Rightarrow> nat \<Rightarrow> bool" where
  "hstatus_entry_bit from_s from_v gva old n \<longleftrightarrow>
     (if n = 6 then gva else if n = 7 then from_v else if n = 8 \<and> from_v then from_s else bit old n)"

text \<open>The fields of \<open>mstatus\<close> that the return to the lower mode uses: MPP, MPV and MPELP.\<close>

definition return_fields :: "nat set" where
  "return_fields = {11, 12, 39, 41}"



definition demo_regs :: sbi_trap_regs where
  "demo_regs = \<lparr>a0 = 0, a1 = 0, a2 = 0, a3 = 0, a4 = 0, a5 = 0, a6 = 6, a7 = 7, mepc = 0x80200000, mstatus = 0x8000000802\<rparr>"

definition demo_csrs :: lower_csrs where
  "demo_csrs = \<lparr>csr_stvec = 0x1000, csr_sepc = 0, csr_scause = 0, csr_stval = 0, csr_hstatus = 0, csr_hedeleg = 0x2000,
     csr_htval = 0, csr_htinst = 0, csr_vsstatus = 2, csr_vstvec = 0x4000, csr_vsepc = 0, csr_vscause = 0, csr_vstval = 0,
     has_h = True, has_zicfilp = False\<rparr>"

definition demo_trap :: sbi_trap_info where
  "demo_trap = \<lparr>trap_cause = 13, trap_tval = 0x1234, trap_tval2 = 0, trap_tinst = 0, trap_gva = 0\<rparr>"


end
