(* ===== verification/SbiEcall.thy ===== *)
theory SbiEcall
  imports SbiTrap
begin

text \<open>
  Calls of the supervisor (\<open>lib/sbi/sbi_ecall.c\<close>, \<open>lib/sbi/sbi_ecall_base.c\<close>): extensions register ranges of extension ids with
  a handler, and a call is passed to the extension whose range holds the id in \<open>a7\<close>.  A handler works on the register frame
  and the state \<open>'w\<close> of the system.
\<close>

unbundle bit_operations_syntax

section \<open>Extensions\<close>

definition SBI_ECALL_VERSION_MAJOR :: u64 where "SBI_ECALL_VERSION_MAJOR = 2"
definition SBI_ECALL_VERSION_MINOR :: u64 where "SBI_ECALL_VERSION_MINOR = 0"
definition SBI_OPENSBI_IMPID :: u64 where "SBI_OPENSBI_IMPID = 1"
definition SBI_EXT_0_1_SET_TIMER :: u64 where "SBI_EXT_0_1_SET_TIMER = 0"
definition SBI_EXT_0_1_CONSOLE_GETCHAR :: u64 where "SBI_EXT_0_1_CONSOLE_GETCHAR = 2"
definition SBI_EXT_0_1_SHUTDOWN :: u64 where "SBI_EXT_0_1_SHUTDOWN = 8"
definition SBI_EXT_BASE :: u64 where "SBI_EXT_BASE = 0x10"
definition SBI_ERR_FAILED :: int where "SBI_ERR_FAILED = - 1"
definition SBI_LAST_ERR :: int where "SBI_LAST_ERR = SBI_EDENIED_LOCKED"

record sbi_ecall_return =
  skip_regs_update :: bool
  ret_value :: u64

text \<open>
  An extension.  A handler gets the extension id, the function id, the frame and the state, and gives the return code, what it stored in
  \<open>out\<close>, and the frame and state after it; \<open>None\<close> when it does not return.
\<close>

record 'w sbi_ecall_extension =
  extid_start :: u64
  extid_end :: u64
  experimental :: bool
  probe :: "(u64 \<Rightarrow> int \<times> u64) option"
  handle :: "(u64 \<Rightarrow> u64 \<Rightarrow> sbi_trap_regs \<times> 'w \<Rightarrow> (int \<times> sbi_ecall_return \<times> sbi_trap_regs \<times> 'w) option) option"

text \<open>The extensions by address, and the list of the registered ones.\<close>

record 'w ecall_globals =
  ecall_impid :: u64
  exts :: "u64 \<Rightarrow> 'w sbi_ecall_extension"
  ecall_exts_list :: "u64 list"

definition sbi_ecall_get_impid :: "'w ecall_globals \<Rightarrow> u64" where
  "sbi_ecall_get_impid g = ecall_impid g"

definition sbi_ecall_set_impid :: "u64 \<Rightarrow> 'w ecall_globals \<Rightarrow> 'w ecall_globals" where
  "sbi_ecall_set_impid impid g = g\<lparr>ecall_impid := impid\<rparr>"

definition in_ext :: "'w sbi_ecall_extension \<Rightarrow> u64 \<Rightarrow> bool" where
  "in_ext t extid \<longleftrightarrow> extid_start t \<le> extid \<and> extid \<le> extid_end t"

definition sbi_ecall_find_extension :: "'w ecall_globals \<Rightarrow> u64 \<Rightarrow> u64 option" where
  "sbi_ecall_find_extension g extid = find (\<lambda>t. in_ext (exts g t) extid) (ecall_exts_list g)"

text \<open>\<open>sbi_list_add_tail\<close> on the head of the list appends the extension.\<close>

definition sbi_ecall_register_extension :: "u64 option \<Rightarrow> 'w ecall_globals \<Rightarrow> int \<times> 'w ecall_globals" where
  "sbi_ecall_register_extension ext g =
     (case ext of
        None \<Rightarrow> (SBI_EINVAL, g)
      | Some p \<Rightarrow>
          let e = exts g p in
          if extid_end e < extid_start e \<or> (case handle e of None \<Rightarrow> True | Some _ \<Rightarrow> False) then (SBI_EINVAL, g)
          else if list_all (\<lambda>t. extid_end (exts g t) < extid_start e \<or> extid_end e < extid_start (exts g t)) (ecall_exts_list g)
          then (0, g\<lparr>ecall_exts_list := ecall_exts_list g @ [p]\<rparr>)
          else (SBI_EINVAL, g))"

definition sbi_ecall_unregister_extension :: "u64 option \<Rightarrow> 'w ecall_globals \<Rightarrow> 'w ecall_globals" where
  "sbi_ecall_unregister_extension ext g =
     (case ext of
        None \<Rightarrow> g
      | Some p \<Rightarrow> if p \<in> set (ecall_exts_list g) then g\<lparr>ecall_exts_list := remove1 p (ecall_exts_list g)\<rparr> else g)"

text \<open>\<open>callbacks\<close> are the \<open>register_extensions\<close> members of the table \<open>sbi_ecall_exts\<close> that the build generates.\<close>

primrec sbi_ecall_init ::
  "('w ecall_globals \<Rightarrow> int \<times> 'w ecall_globals) option list \<Rightarrow> 'w ecall_globals \<Rightarrow> int \<times> 'w ecall_globals" where
  "sbi_ecall_init [] g = (0, g)"
| "sbi_ecall_init (cb # callbacks) g =
     (case (case cb of None \<Rightarrow> (SBI_ENODEV, g) | Some f \<Rightarrow> f g) of (ret, g) \<Rightarrow>
        if ret \<noteq> 0 then (ret, g) else sbi_ecall_init callbacks g)"

section \<open>The call\<close>

definition ecall_invalid :: "u64 \<Rightarrow> int \<Rightarrow> bool" where
  "ecall_invalid extid ret \<longleftrightarrow> ret < SBI_LAST_ERR \<or> (extid \<noteq> SBI_EXT_0_1_CONSOLE_GETCHAR \<and> 0 < ret)"

definition ecall_return :: "u64 \<Rightarrow> int \<Rightarrow> bool \<Rightarrow> sbi_ecall_return \<Rightarrow> sbi_trap_regs \<Rightarrow> sbi_trap_regs" where
  "ecall_return extid ret is_0_1_spec out regs =
     (if skip_regs_update out then regs
      else
        let ret = (if ecall_invalid extid ret then SBI_ERR_FAILED else ret);
            regs = regs\<lparr>mepc := mepc regs + 4, a0 := word_of_int ret\<rparr>
        in if is_0_1_spec then regs else regs\<lparr>a1 := ret_value out\<rparr>)"

definition sbi_ecall_handler :: "'w ecall_globals \<Rightarrow> sbi_trap_regs \<times> 'w \<Rightarrow> (int \<times> sbi_trap_regs \<times> 'w) option" where
  "sbi_ecall_handler g s =
     (case s of (regs, w) \<Rightarrow>
        let extension_id = a7 regs; func_id = a6 regs; nothing = \<lparr>skip_regs_update = False, ret_value = 0\<rparr>;
            unknown = Some (0, ecall_return extension_id SBI_ENOTSUPP False nothing regs, w) in
        (case sbi_ecall_find_extension g extension_id of
          None \<Rightarrow> unknown
        | Some p \<Rightarrow>
            (case handle (exts g p) of
               None \<Rightarrow> unknown
             | Some h \<Rightarrow>
                 (case h extension_id func_id (regs, w) of
                    None \<Rightarrow> None
                  | Some (ret, out, regs, w) \<Rightarrow>
                      let is_0_1_spec = (SBI_EXT_0_1_SET_TIMER \<le> extension_id \<and> extension_id \<le> SBI_EXT_0_1_SHUTDOWN)
                      in Some (0, ecall_return extension_id ret is_0_1_spec out regs, w)))))"

section \<open>The base extension\<close>

definition sbi_ecall_base_probe :: "'w ecall_globals \<Rightarrow> u64 \<Rightarrow> int \<times> u64" where
  "sbi_ecall_base_probe g extid =
     (case sbi_ecall_find_extension g extid of
        None \<Rightarrow> (0, 0)
      | Some p \<Rightarrow> (case probe (exts g p) of Some f \<Rightarrow> f extid | None \<Rightarrow> (0, 1)))"

text \<open>The identification registers of the hart and the version of the firmware are parameters.\<close>

record hart_ids =
  csr_mvendorid :: u64
  csr_marchid :: u64
  csr_mimpid :: u64
  opensbi_version :: u64

definition sbi_ecall_base_handler ::
  "'w ecall_globals \<Rightarrow> hart_ids \<Rightarrow> u64 \<Rightarrow> u64 \<Rightarrow> sbi_trap_regs \<times> 'w \<Rightarrow> (int \<times> sbi_ecall_return \<times> sbi_trap_regs \<times> 'w) option" where
  "sbi_ecall_base_handler g ids extid funcid s =
     (case s of (regs, w) \<Rightarrow>
        let reply = (\<lambda>(ret, v). Some (ret, \<lparr>skip_regs_update = False, ret_value = v\<rparr>, regs, w)) in
        if funcid = 0 then reply (0, (push_bit 24 SBI_ECALL_VERSION_MAJOR AND push_bit 24 0x7f) OR SBI_ECALL_VERSION_MINOR)
        else if funcid = 1 then reply (0, sbi_ecall_get_impid g)
        else if funcid = 2 then reply (0, opensbi_version ids)
        else if funcid = 4 then reply (0, csr_mvendorid ids)
        else if funcid = 5 then reply (0, csr_marchid ids)
        else if funcid = 6 then reply (0, csr_mimpid ids)
        else if funcid = 3 then reply (sbi_ecall_base_probe g (a0 regs))
        else reply (SBI_ENOTSUPP, 0))"

section \<open>The registry\<close>

text \<open>The registries that calls of the two operations lead to, the extensions being as they are.\<close>

inductive ecall_reachable :: "(u64 \<Rightarrow> 'w sbi_ecall_extension) \<Rightarrow> 'w ecall_globals \<Rightarrow> bool" for es where
  start: "exts g = es \<Longrightarrow> ecall_exts_list g = [] \<Longrightarrow> ecall_reachable es g"
| register: "ecall_reachable es g \<Longrightarrow> sbi_ecall_register_extension ext g = (ret, g') \<Longrightarrow> ecall_reachable es g'"
| unregister: "ecall_reachable es g \<Longrightarrow> ecall_reachable es (sbi_ecall_unregister_extension ext g)"
| impid: "ecall_reachable es g \<Longrightarrow> ecall_reachable es (sbi_ecall_set_impid i g)"

definition registry_ok :: "'w ecall_globals \<Rightarrow> bool" where
  "registry_ok g \<longleftrightarrow>
     distinct (ecall_exts_list g) \<and> (\<forall>p \<in> set (ecall_exts_list g). extid_start (exts g p) \<le> extid_end (exts g p) \<and> handle (exts g p) \<noteq> None) \<and>
     (\<forall>p \<in> set (ecall_exts_list g). \<forall>q \<in> set (ecall_exts_list g). p \<noteq> q \<longrightarrow> (\<forall>i. \<not> (in_ext (exts g p) i \<and> in_ext (exts g q) i)))"

lemma apart_ranges: "extid_end t < extid_start e \<or> extid_end e < extid_start t \<Longrightarrow> in_ext t i \<Longrightarrow> \<not> in_ext e i"
  by (auto simp: in_ext_def)

lemma register_cases:
  assumes "sbi_ecall_register_extension ext g = (ret, g')"
  obtains (refused) "g' = g" "ret = SBI_EINVAL"
  | (added) p where "ext = Some p" "ret = 0" "extid_start (exts g p) \<le> extid_end (exts g p)" "handle (exts g p) \<noteq> None"
      "\<forall>t \<in> set (ecall_exts_list g). extid_end (exts g t) < extid_start (exts g p) \<or> extid_end (exts g p) < extid_start (exts g t)"
      "g' = g\<lparr>ecall_exts_list := ecall_exts_list g @ [p]\<rparr>"
proof (cases ext)
  case (Some p)
  define bad where "bad \<longleftrightarrow> extid_end (exts g p) < extid_start (exts g p) \<or> handle (exts g p) = None"
  define apart where "apart \<longleftrightarrow>
    list_all (\<lambda>t. extid_end (exts g t) < extid_start (exts g p) \<or> extid_end (exts g p) < extid_start (exts g t)) (ecall_exts_list g)"
  have "sbi_ecall_register_extension ext g =
      (if bad then (SBI_EINVAL, g) else if apart then (0, g\<lparr>ecall_exts_list := ecall_exts_list g @ [p]\<rparr>) else (SBI_EINVAL, g))"
    unfolding Some sbi_ecall_register_extension_def bad_def apart_def Let_def by (cases "handle (exts g p)") simp_all
  then consider "g' = g" "ret = SBI_EINVAL" | "\<not> bad" apart "ret = 0" "g' = g\<lparr>ecall_exts_list := ecall_exts_list g @ [p]\<rparr>"
    using assms by (cases bad; cases apart) simp_all
  then show ?thesis
  proof cases
    case 2
    then show ?thesis using added [OF Some] unfolding bad_def apart_def list_all_iff not_less de_Morgan_disj by blast
  qed (rule refused)
next
  case None
  then show ?thesis using assms refused by (simp add: sbi_ecall_register_extension_def)
qed

lemma register_ok:
  assumes "registry_ok g" "sbi_ecall_register_extension ext g = (ret, g')"
  shows "registry_ok g' \<and> exts g' = exts g"
  using assms(2)
proof (cases rule: register_cases)
  case (added p)
  have new: "\<not> (in_ext (exts g t) i \<and> in_ext (exts g p) i)" if "t \<in> set (ecall_exts_list g)" for t i using added(5) that apart_ranges by blast
  have "p \<notin> set (ecall_exts_list g)" using added(3,5) leD by blast
  then show ?thesis using assms(1) added(3,4) new unfolding registry_ok_def added(6) by (simp add: ball_Un) blast
qed (use assms(1) in simp)

lemma unregister_ok: "registry_ok g \<Longrightarrow> registry_ok (sbi_ecall_unregister_extension ext g)"
  using notin_set_remove1 by (fastforce simp: registry_ok_def sbi_ecall_unregister_extension_def split: option.splits)

lemma ecall_reachable_ok: "ecall_reachable es g \<Longrightarrow> registry_ok g \<and> exts g = es"
proof (induction rule: ecall_reachable.induct)
  case (start g)
  then show ?case by (simp add: registry_ok_def)
next
  case (register g ext ret g')
  then show ?case using register_ok [of g ext ret g'] by simp
next
  case (unregister g ext)
  then show ?case using unregister_ok [of g ext] by (simp add: sbi_ecall_unregister_extension_def split: option.split)
next
  case (impid g i)
  then show ?case unfolding registry_ok_def sbi_ecall_set_impid_def by auto
qed

lemma ecall_lookup:
  assumes "ecall_reachable es g" "p \<in> set (ecall_exts_list g)" "in_ext (es p) i"
  shows "sbi_ecall_find_extension g i = Some p"
proof (cases "sbi_ecall_find_extension g i")
  case None
  then show ?thesis using assms ecall_reachable_ok [OF assms(1)] by (auto simp: sbi_ecall_find_extension_def find_None_iff)
next
  case (Some q)
  have ok: "registry_ok g" "exts g = es" using ecall_reachable_ok [OF assms(1)] by simp_all
  then have "q \<in> set (ecall_exts_list g)" "in_ext (es q) i" using Some by (auto simp: sbi_ecall_find_extension_def find_Some_iff)
  then have "q = p" using assms(2,3) ok unfolding registry_ok_def by blast
  then show ?thesis using Some by simp
qed

text \<open>
  C16: however extensions are registered and unregistered, an extension id belongs to at most one registered extension, and a lookup finds
  it exactly when it is registered; registering an extension twice, or one that shares an id with another, is refused.
\<close>

theorem ecall_registry_invariant:
  assumes "ecall_reachable es g"
  shows "(sbi_ecall_find_extension g i = Some p \<longleftrightarrow> p \<in> set (ecall_exts_list g) \<and> in_ext (es p) i) \<and>
    (sbi_ecall_find_extension g i = None \<longleftrightarrow> (\<forall>q \<in> set (ecall_exts_list g). \<not> in_ext (es q) i)) \<and>
    (fst (sbi_ecall_register_extension (Some p) g) = 0 \<longleftrightarrow>
       extid_start (es p) \<le> extid_end (es p) \<and> handle (es p) \<noteq> None \<and> (\<forall>q \<in> set (ecall_exts_list g). \<forall>j. \<not> (in_ext (es p) j \<and> in_ext (es q) j)))"
proof -
  have ok: "registry_ok g" and es: "exts g = es" using ecall_reachable_ok [OF assms] by simp_all
  note find = ecall_lookup [OF assms]
  have overlap: "(extid_end (es q) < extid_start (es p) \<or> extid_end (es p) < extid_start (es q)) \<longleftrightarrow> (\<forall>j. \<not> (in_ext (es p) j \<and> in_ext (es q) j))"
    if "extid_start (es p) \<le> extid_end (es p)" "q \<in> set (ecall_exts_list g)" for q
  proof -
    have "extid_start (es q) \<le> extid_end (es q)" using ok es that(2) by (auto simp: registry_ok_def)
    then have "in_ext (es p) (max (extid_start (es p)) (extid_start (es q))) \<and> in_ext (es q) (max (extid_start (es p)) (extid_start (es q)))"
      if "\<not> extid_end (es q) < extid_start (es p)" "\<not> extid_end (es p) < extid_start (es q)"
      using that \<open>extid_start (es p) \<le> extid_end (es p)\<close> by (auto simp: in_ext_def max_def not_less)
    then show ?thesis using apart_ranges [of "es q" "es p"] by blast
  qed
  have reg: "fst (sbi_ecall_register_extension (Some p) g) = 0 \<longleftrightarrow> extid_start (es p) \<le> extid_end (es p) \<and> handle (es p) \<noteq> None \<and>
      (\<forall>q \<in> set (ecall_exts_list g). extid_end (es q) < extid_start (es p) \<or> extid_end (es p) < extid_start (es q))"
    using es by (auto simp: sbi_ecall_register_extension_def Let_def list_all_iff SBI_EINVAL_def not_less split: option.splits)
  have "sbi_ecall_find_extension g i = Some p \<longleftrightarrow> p \<in> set (ecall_exts_list g) \<and> in_ext (es p) i"
    using find es by (auto simp: sbi_ecall_find_extension_def find_Some_iff)
  moreover have "sbi_ecall_find_extension g i = None \<longleftrightarrow> (\<forall>q \<in> set (ecall_exts_list g). \<not> in_ext (es q) i)"
    using es by (auto simp: sbi_ecall_find_extension_def find_None_iff)
  ultimately show ?thesis using reg overlap by blast
qed


text \<open>Two extensions of one id each and one whose range holds both ids.\<close>

definition demo_exts :: "u64 \<Rightarrow> unit sbi_ecall_extension" where
  "demo_exts p = \<lparr>extid_start = (if p = 2 then 0x20 else 0x10), extid_end = (if p = 1 then 0x10 else 0x20), experimental = False, probe = None,
     handle = Some (\<lambda>extid funcid (regs, w). Some (if funcid = 0 then 0 else 7, \<lparr>skip_regs_update = False, ret_value = extid\<rparr>, regs, w))\<rparr>"

definition demo_registry :: "unit ecall_globals" where
  "demo_registry = snd (sbi_ecall_register_extension (Some 2) (snd (sbi_ecall_register_extension (Some 1)
     \<lparr>ecall_impid = SBI_OPENSBI_IMPID, exts = demo_exts, ecall_exts_list = []\<rparr>)))"

lemma demo_registry_reachable: "ecall_reachable demo_exts demo_registry"
  unfolding demo_registry_def by (intro ecall_reachable.register [OF _ prod.collapse [symmetric]] ecall_reachable.start) simp_all

lemma demo_registry_list: "ecall_exts_list demo_registry = [1, 2]"
  by code_simp

theorem ecall_registry_invariant_witness:
  "sbi_ecall_find_extension demo_registry 0x20 = Some 2 \<and> fst (sbi_ecall_register_extension (Some 3) demo_registry) \<noteq> 0"
proof -
  note i = ecall_registry_invariant [OF demo_registry_reachable]
  have "in_ext (demo_exts 3) 0x10" "in_ext (demo_exts 1) 0x10" "in_ext (demo_exts 2) 0x20" by code_simp+
  then show ?thesis using i [of "0x20" 2] i [of 0 3] demo_registry_list by auto
qed

section \<open>What a call returns\<close>

lemma handler_found:
  assumes "ecall_reachable es g" "p \<in> set (ecall_exts_list g)" "in_ext (es p) (a7 regs)"
  obtains h where "handle (es p) = Some h"
    "sbi_ecall_handler g (regs, w) =
       (case h (a7 regs) (a6 regs) (regs, w) of
          None \<Rightarrow> None
        | Some (ret, out, regs', w') \<Rightarrow> Some (0, ecall_return (a7 regs) ret (a7 regs \<le> SBI_EXT_0_1_SHUTDOWN) out regs', w'))"
proof -
  have "registry_ok g" "exts g = es" using ecall_reachable_ok [OF assms(1)] by simp_all
  moreover from this obtain h where h: "handle (es p) = Some h" using assms(2) unfolding registry_ok_def by blast
  moreover have "sbi_ecall_find_extension g (a7 regs) = Some p" using ecall_lookup [OF assms] .
  ultimately have "sbi_ecall_handler g (regs, w) =
       (case h (a7 regs) (a6 regs) (regs, w) of
          None \<Rightarrow> None
        | Some (ret, out, regs', w') \<Rightarrow> Some (0, ecall_return (a7 regs) ret (a7 regs \<le> SBI_EXT_0_1_SHUTDOWN) out regs', w'))"
    by (simp add: sbi_ecall_handler_def Let_def SBI_EXT_0_1_SET_TIMER_def split: option.split)
  then show thesis using that h by blast
qed

lemma sint_code:
  assumes "v \<in> {SBI_LAST_ERR..0}"
  shows "sint (word_of_int v :: u64) = v"
  using assms by (simp add: SBI_LAST_ERR_def SBI_EDENIED_LOCKED_def signed_of_int signed_take_bit_int_eq_self)

lemma return_code_range:
  assumes "extid \<noteq> SBI_EXT_0_1_CONSOLE_GETCHAR"
  shows "sint (word_of_int (if ecall_invalid extid ret then SBI_ERR_FAILED else ret) :: u64) \<in> {SBI_LAST_ERR..0}"
proof -
  let ?v = "if ecall_invalid extid ret then SBI_ERR_FAILED else ret"
  have v: "SBI_LAST_ERR \<le> ?v" "?v \<le> 0" using assms by (auto simp: ecall_invalid_def SBI_LAST_ERR_def SBI_ERR_FAILED_def SBI_EDENIED_LOCKED_def)
  then show ?thesis using sint_code [of ?v] by simp
qed

text \<open>
  C27: whatever the handlers of the extensions return, the supervisor gets a well-formed answer.  For every call that the dispatcher handles,
  the dispatcher itself returns 0, and unless the extension asked to keep the frame it left (\<open>skip_regs_update\<close>),
  the frame continues after the \<open>ecall\<close> instruction, \<open>a0\<close> holds 0 or one of the error codes of the interface (except for the legacy console input,
  which returns a character), \<open>a1\<close> the value for calls after version 0.1 of the interface, and every other register is as the handler left
  it.  A call with an id that no registered extension has changes nothing else and answers that it is not supported.
\<close>

theorem ecall_answer_typed:
  assumes "ecall_reachable es g" "sbi_ecall_handler g (regs, w) = Some (rc, regs', w')" "a7 regs \<noteq> SBI_EXT_0_1_CONSOLE_GETCHAR"
  shows "rc = 0 \<and>
    (if \<exists>p \<in> set (ecall_exts_list g). in_ext (es p) (a7 regs)
     then \<exists>p h ret out r. p \<in> set (ecall_exts_list g) \<and> in_ext (es p) (a7 regs) \<and> handle (es p) = Some h \<and>
       h (a7 regs) (a6 regs) (regs, w) = Some (ret, out, r, w') \<and>
       (if skip_regs_update out then regs' = r
        else sint (a0 regs') \<in> {SBI_LAST_ERR..0} \<and> (ret \<in> {SBI_LAST_ERR..0} \<longrightarrow> sint (a0 regs') = ret) \<and>
          a1 regs' = (if a7 regs \<le> SBI_EXT_0_1_SHUTDOWN then a1 r else ret_value out) \<and>
          regs' = r\<lparr>mepc := mepc r + 4, a0 := a0 regs', a1 := a1 regs'\<rparr>)
     else w' = w \<and> regs' = regs\<lparr>mepc := mepc regs + 4, a0 := word_of_int SBI_ENOTSUPP, a1 := 0\<rparr>)"
proof (cases "\<exists>p \<in> set (ecall_exts_list g). in_ext (es p) (a7 regs)")
  case True
  then obtain p where p: "p \<in> set (ecall_exts_list g)" "in_ext (es p) (a7 regs)" by blast
  obtain h where h: "handle (es p) = Some h" "sbi_ecall_handler g (regs, w) =
       (case h (a7 regs) (a6 regs) (regs, w) of
          None \<Rightarrow> None
        | Some (ret, out, regs', w') \<Rightarrow> Some (0, ecall_return (a7 regs) ret (a7 regs \<le> SBI_EXT_0_1_SHUTDOWN) out regs', w'))"
    using handler_found [OF assms(1) p] by blast
  then obtain ret out r where r: "h (a7 regs) (a6 regs) (regs, w) = Some (ret, out, r, w')" "rc = 0"
    "regs' = ecall_return (a7 regs) ret (a7 regs \<le> SBI_EXT_0_1_SHUTDOWN) out r"
    using assms(2) by (auto split: option.splits)
  let ?v = "if ecall_invalid (a7 regs) ret then SBI_ERR_FAILED else ret"
  have "regs' = r\<lparr>mepc := mepc r + 4, a0 := word_of_int ?v, a1 := if a7 regs \<le> SBI_EXT_0_1_SHUTDOWN then a1 r else ret_value out\<rparr>"
    if "\<not> skip_regs_update out" using that unfolding r(3) ecall_return_def Let_def by simp
  moreover have "sint (word_of_int ret :: u64) = ret" if "ret \<in> {SBI_LAST_ERR..0}" using sint_code [OF that] .
  moreover have "?v = ret" if "ret \<in> {SBI_LAST_ERR..0}" using that by (simp add: ecall_invalid_def)
  moreover have "regs' = r" if "skip_regs_update out" using that unfolding r(3) ecall_return_def by simp
  ultimately have "if skip_regs_update out then regs' = r
        else sint (a0 regs') \<in> {SBI_LAST_ERR..0} \<and> (ret \<in> {SBI_LAST_ERR..0} \<longrightarrow> sint (a0 regs') = ret) \<and>
          a1 regs' = (if a7 regs \<le> SBI_EXT_0_1_SHUTDOWN then a1 r else ret_value out) \<and>
          regs' = r\<lparr>mepc := mepc r + 4, a0 := a0 regs', a1 := a1 regs'\<rparr>"
    using return_code_range [OF assms(3), of ret] by (cases "skip_regs_update out") simp_all
  then show ?thesis unfolding if_P [OF True] using r(1,2) h(1) p by blast
next
  case False
  then have "sbi_ecall_find_extension g (a7 regs) = None"
    using ecall_reachable_ok [OF assms(1)] by (auto simp: sbi_ecall_find_extension_def find_None_iff)
  moreover have "\<not> ecall_invalid (a7 regs) SBI_ENOTSUPP"
    by (simp add: ecall_invalid_def SBI_LAST_ERR_def SBI_EDENIED_LOCKED_def SBI_ENOTSUPP_def)
  ultimately show ?thesis using assms(2) False by (auto simp: sbi_ecall_handler_def Let_def ecall_return_def)
qed

theorem ecall_answer_typed_witness:
  "\<exists>regs'. sbi_ecall_handler demo_registry (demo_regs\<lparr>a7 := 0x20, a6 := 1\<rparr>, ()) = Some (0, regs', ()) \<and> sint (a0 regs') = SBI_ERR_FAILED \<and> a1 regs' = 0x20 \<and>
     mepc regs' = 0x80200004 \<and> sint (a0 regs') \<in> {SBI_LAST_ERR..0}"
proof -
  let ?r = "demo_regs\<lparr>a7 := 0x20, a6 := 1\<rparr>"
  let ?s = "ecall_return 0x20 7 False \<lparr>skip_regs_update = False, ret_value = 0x20\<rparr> ?r"
  have "in_ext (demo_exts 2) 0x20" by code_simp
  then have i: "in_ext (demo_exts 2) (a7 ?r)" "2 \<in> set (ecall_exts_list demo_registry)" using demo_registry_list by simp_all
  have n: "\<not> a7 ?r \<le> SBI_EXT_0_1_SHUTDOWN" "a7 ?r \<noteq> SBI_EXT_0_1_CONSOLE_GETCHAR" by code_simp+
  have e: "sbi_ecall_handler demo_registry (?r, ()) = Some (0, ?s, ())"
    using handler_found [OF demo_registry_reachable i(2,1), of "()"] n by (auto simp: demo_exts_def)
  have a1: "a1 ?s = 0x20" "mepc ?s = 0x80200004" "sint (a0 ?s) = SBI_ERR_FAILED" by code_simp+
  have "sint (a0 ?s) \<in> {SBI_LAST_ERR..0}"
    using ecall_answer_typed [OF demo_registry_reachable e n(2)] i a1 by (auto simp: SBI_LAST_ERR_def SBI_ERR_FAILED_def SBI_EDENIED_LOCKED_def)
  then show ?thesis using e a1 by blast
qed

end
