(* ===== verification/SbiList.thy ===== *)
theory SbiList
  imports Prelude
begin

text \<open>
  The doubly linked lists of the library (\<open>include/sbi/sbi_list.h\<close>): a list is a ring of nodes through its
  head.  The store gives the two pointers of the node at every address; the
  operations are the assignments of the source in their order.  The interface \<open>list_store\<close> states what clients
  use of them in terms of the sequence a list holds.
\<close>

section \<open>Nodes and operations\<close>

definition SBI_LIST_POISON_PREV :: u64 where "SBI_LIST_POISON_PREV = 0xDEADBEEF"
definition SBI_LIST_POISON_NEXT :: u64 where "SBI_LIST_POISON_NEXT = 0xFADEBABE"

record sbi_dlist =
  dl_next :: "u64 \<Rightarrow> u64"
  dl_prev :: "u64 \<Rightarrow> u64"

definition put_next :: "u64 \<Rightarrow> u64 \<Rightarrow> sbi_dlist \<Rightarrow> sbi_dlist" where
  "put_next p v s = s\<lparr>dl_next := (dl_next s)(p := v)\<rparr>"

definition put_prev :: "u64 \<Rightarrow> u64 \<Rightarrow> sbi_dlist \<Rightarrow> sbi_dlist" where
  "put_prev p v s = s\<lparr>dl_prev := (dl_prev s)(p := v)\<rparr>"

definition SBI_INIT_LIST_HEAD :: "u64 \<Rightarrow> sbi_dlist \<Rightarrow> sbi_dlist" where
  "SBI_INIT_LIST_HEAD p s = put_prev p p (put_next p p s)"

definition sbi_list_add' :: "u64 \<Rightarrow> u64 \<Rightarrow> u64 \<Rightarrow> sbi_dlist \<Rightarrow> sbi_dlist" where
  "sbi_list_add' nw pr nx s =
     (let s = put_prev nw pr s; s = put_next nw nx s; s = put_next pr nw s in put_prev nx nw s)"

definition sbi_list_empty :: "sbi_dlist \<Rightarrow> u64 \<Rightarrow> bool" where
  "sbi_list_empty s head \<longleftrightarrow> dl_next s head = head"

definition sbi_list_add :: "u64 \<Rightarrow> u64 \<Rightarrow> sbi_dlist \<Rightarrow> sbi_dlist" where
  "sbi_list_add nw head s = sbi_list_add' nw head (dl_next s head) s"

definition sbi_list_add_tail :: "u64 \<Rightarrow> u64 \<Rightarrow> sbi_dlist \<Rightarrow> sbi_dlist" where
  "sbi_list_add_tail nw tnode s = sbi_list_add' nw (dl_prev s tnode) tnode s"

definition sbi_list_del' :: "u64 \<Rightarrow> u64 \<Rightarrow> sbi_dlist \<Rightarrow> sbi_dlist" where
  "sbi_list_del' pr nx s = (let s = put_next pr nx s in put_prev nx pr s)"

definition sbi_list_del :: "u64 \<Rightarrow> sbi_dlist \<Rightarrow> sbi_dlist" where
  "sbi_list_del e s =
     (let s = sbi_list_del' (dl_prev s e) (dl_next s e) s; s = put_next e SBI_LIST_POISON_NEXT s
      in put_prev e SBI_LIST_POISON_PREV s)"

definition sbi_list_del_init :: "u64 \<Rightarrow> sbi_dlist \<Rightarrow> sbi_dlist" where
  "sbi_list_del_init e s = SBI_INIT_LIST_HEAD e (sbi_list_del' (dl_prev s e) (dl_next s e) s)"

text \<open>
  The loop of \<open>sbi_list_for_each_entry\<close> that stops at the first node with \<open>P\<close>: the node the cursor is left at, the head when
  there is none; \<open>None\<close> when the loop does not end.
\<close>

partial_function (option) list_seek :: "(u64 \<Rightarrow> bool) \<Rightarrow> sbi_dlist \<Rightarrow> u64 \<Rightarrow> u64 \<Rightarrow> u64 option" where
  "list_seek P s pos head =
     (if pos = head then Some head else if P pos then Some pos else list_seek P s (dl_next s pos) head)"

text \<open>The whole loop, as the nodes it visits.\<close>

partial_function (option) list_walk :: "sbi_dlist \<Rightarrow> u64 \<Rightarrow> u64 \<Rightarrow> u64 list option" where
  "list_walk s pos head =
     (if pos = head then Some [] else Option.bind (list_walk s (dl_next s pos) head) (\<lambda>xs. Some (pos # xs)))"

definition sbi_list_seek :: "(u64 \<Rightarrow> bool) \<Rightarrow> sbi_dlist \<Rightarrow> u64 \<Rightarrow> u64 option" where
  "sbi_list_seek P s head = list_seek P s (dl_next s head) head"

definition sbi_list_for_each :: "sbi_dlist \<Rightarrow> u64 \<Rightarrow> u64 list option" where
  "sbi_list_for_each s head = list_walk s (dl_next s head) head"

section \<open>The interface\<close>

text \<open>The sequence after a node is put before the first element with \<open>P\<close>.\<close>

primrec insert_where :: "('a \<Rightarrow> bool) \<Rightarrow> 'a \<Rightarrow> 'a list \<Rightarrow> 'a list" where
  "insert_where P x [] = [x]"
| "insert_where P x (y # ys) = (if P y then x # y # ys else y # insert_where P x ys)"

lemma set_insert_where [simp]: "set (insert_where P x xs) = insert x (set xs)"
  by (induction xs) auto

lemma distinct_insert_where [simp]: "distinct (insert_where P x xs) \<longleftrightarrow> x \<notin> set xs \<and> distinct xs"
  by (induction xs) auto

lemma insert_where_map: "insert_where P (f x) (map f xs) = map f (insert_where (P \<circ> f) x xs)"
  by (induction xs) auto

lemma insert_where_cong: "(\<And>y. y \<in> set ys \<Longrightarrow> P y = Q y) \<Longrightarrow> insert_where P x ys = insert_where Q x ys"
  by (induction ys) auto

locale list_store =
  fixes rep :: "'s \<Rightarrow> 'p \<Rightarrow> 'p list \<Rightarrow> bool"
    and initl :: "'p \<Rightarrow> 's \<Rightarrow> 's" and seek :: "('p \<Rightarrow> bool) \<Rightarrow> 's \<Rightarrow> 'p \<Rightarrow> 'p option" and visit :: "'s \<Rightarrow> 'p \<Rightarrow> 'p list option"
    and add_before :: "'p \<Rightarrow> 'p \<Rightarrow> 's \<Rightarrow> 's" and del :: "'p \<Rightarrow> 's \<Rightarrow> 's"
  assumes rep_distinct: "rep s h xs \<Longrightarrow> distinct (h # xs)"
    and rep_unique: "rep s h xs \<Longrightarrow> rep s h ys \<Longrightarrow> xs = ys"
    and rep_init: "rep (initl h s) h []"
    and seek: "rep s h xs \<Longrightarrow> seek P s h = Some (case find P xs of None \<Rightarrow> h | Some x \<Rightarrow> x)"
    and visit: "rep s h xs \<Longrightarrow> visit s h = Some xs"
    and add_node: "rep s h (xs @ t # ys) \<Longrightarrow> n \<notin> insert h (set (xs @ t # ys)) \<Longrightarrow> rep (add_before n t s) h (xs @ n # t # ys)"
    and add_end: "rep s h xs \<Longrightarrow> n \<notin> insert h (set xs) \<Longrightarrow> rep (add_before n h s) h (xs @ [n])"
    and del_node: "rep s h (xs @ e # ys) \<Longrightarrow> rep (del e s) h (xs @ ys)"
    and frame_init: "rep s k ys \<Longrightarrow> h \<notin> insert k (set ys) \<Longrightarrow> rep (initl h s) k ys"
    and frame_add: "rep s h xs \<Longrightarrow> rep s k ys \<Longrightarrow> insert h (set xs) \<inter> insert k (set ys) = {} \<Longrightarrow>
      t \<in> insert h (set xs) \<Longrightarrow> n \<notin> insert k (set ys) \<Longrightarrow> rep (add_before n t s) k ys"
    and frame_del: "rep s h xs \<Longrightarrow> rep s k ys \<Longrightarrow> insert h (set xs) \<inter> insert k (set ys) = {} \<Longrightarrow>
      e \<in> set xs \<Longrightarrow> rep (del e s) k ys"
begin

text \<open>The ordered insertion of the clients: look for the first node that comes after the new one and put it before it.\<close>

definition insert_ordered :: "('p \<Rightarrow> bool) \<Rightarrow> 'p \<Rightarrow> 'p \<Rightarrow> 's \<Rightarrow> 's option" where
  "insert_ordered P n h s = map_option (\<lambda>t. add_before n t s) (seek P s h)"

lemma insert_where_split:
  "insert_where P n xs = (case find P xs of None \<Rightarrow> xs @ [n]
     | Some t \<Rightarrow> takeWhile (\<lambda>x. \<not> P x) xs @ n # dropWhile (\<lambda>x. \<not> P x) xs)"
  by (induction xs) (auto split: option.splits)

lemma find_dropWhile: "find P xs = Some t \<Longrightarrow> \<exists>ys. dropWhile (\<lambda>x. \<not> P x) xs = t # ys"
  by (induction xs) (auto split: if_splits)

lemma insert_ordered_rep:
  assumes "rep s h xs" "n \<notin> insert h (set xs)"
  shows "\<exists>s'. insert_ordered P n h s = Some s' \<and> rep s' h (insert_where P n xs)"
proof (cases "find P xs")
  case None
  then show ?thesis using seek [OF assms(1), of P] add_end [OF assms] by (simp add: insert_ordered_def insert_where_split)
next
  case (Some t)
  let ?a = "takeWhile (\<lambda>x. \<not> P x) xs" and ?b = "dropWhile (\<lambda>x. \<not> P x) xs"
  obtain ys where ys: "?b = t # ys" using find_dropWhile [OF Some] by blast
  then have xs: "xs = ?a @ t # ys" using takeWhile_dropWhile_id [of "\<lambda>x. \<not> P x" xs] by simp
  have "rep (add_before n t s) h (?a @ n # t # ys)"
    using add_node [of s h ?a t ys n] assms xs by simp
  then show ?thesis using seek [OF assms(1), of P] Some ys by (simp add: insert_ordered_def insert_where_split)
qed

lemma insert_ordered_frame:
  assumes "rep s h xs" "rep s k ys" "insert h (set xs) \<inter> insert k (set ys) = {}" "n \<notin> insert k (set ys)"
    and "insert_ordered P n h s = Some s'"
  shows "rep s' k ys"
proof -
  have "set_option (find P xs) \<subseteq> set xs" by (auto simp: find_Some_iff split: option.splits)
  then show ?thesis
    using assms(5) seek [OF assms(1), of P] frame_add [OF assms(1-3) _ assms(4)]
    by (auto simp: insert_ordered_def split: option.splits)
qed

lemma del_rep:
  assumes "rep s h xs" "e \<in> set xs"
  shows "rep (del e s) h (remove1 e xs)"
proof -
  obtain ys zs where xs: "xs = ys @ e # zs" "e \<notin> set ys" using assms(2) by (auto dest: split_list_first)
  then show ?thesis using del_node [of s h ys e zs] assms(1) by (simp add: remove1_append)
qed

end

section \<open>Rings\<close>

text \<open>\<open>dl_path s a xs b\<close>: the nodes \<open>xs\<close> lead from \<open>a\<close> to \<open>b\<close>, forwards and backwards.\<close>

fun dl_path :: "sbi_dlist \<Rightarrow> u64 \<Rightarrow> u64 list \<Rightarrow> u64 \<Rightarrow> bool" where
  "dl_path s a [] b \<longleftrightarrow> dl_next s a = b \<and> dl_prev s b = a"
| "dl_path s a (x # xs) b \<longleftrightarrow> dl_next s a = x \<and> dl_prev s x = a \<and> dl_path s x xs b"

definition dl_rep :: "sbi_dlist \<Rightarrow> u64 \<Rightarrow> u64 list \<Rightarrow> bool" where
  "dl_rep s h xs \<longleftrightarrow> distinct (h # xs) \<and> dl_path s h xs h"

lemma dl_path_append: "dl_path s a (xs @ x # ys) b \<longleftrightarrow> dl_path s a xs x \<and> dl_path s x ys b"
  by (induction xs arbitrary: a) auto

lemma dl_path_last: "dl_path s a xs b \<Longrightarrow> dl_prev s b = last (a # xs)"
  by (induction xs arbitrary: a) auto

lemma dl_path_cong:
  assumes "\<And>p. p \<in> insert a (set xs) \<Longrightarrow> dl_next s' p = dl_next s p" "\<And>p. p \<in> insert b (set xs) \<Longrightarrow> dl_prev s' p = dl_prev s p"
  shows "dl_path s' a xs b = dl_path s a xs b"
  using assms by (induction xs arbitrary: a) auto

lemmas dl_puts = put_next_def put_prev_def


lemma add_path:
  assumes "dl_path s a (xs @ ys) b" "distinct (a # xs @ ys)" "distinct (xs @ ys @ [b])" "n \<notin> insert a (insert b (set (xs @ ys)))"
  shows "dl_path (sbi_list_add' n (last (a # xs)) (hd (ys @ [b])) s) a (xs @ n # ys) b"
  using assms
proof (induction xs arbitrary: a)
  case Nil
  show ?case
  proof (cases ys)
    case Nil
    then show ?thesis using Nil.prems by (auto simp: sbi_list_add'_def dl_puts Let_def)
  next
    case (Cons y zs)
    have "dl_path (sbi_list_add' n a y s) y zs b = dl_path s y zs b"
      using Nil.prems Cons by (intro dl_path_cong) (auto simp: sbi_list_add'_def dl_puts Let_def)
    then show ?thesis using Nil.prems Cons by (auto simp: sbi_list_add'_def dl_puts Let_def)
  qed
next
  case (Cons x xs)
  let ?p = "last (x # xs)" and ?q = "hd (ys @ [b])"
  have "?p \<in> set (x # xs)" "?q \<in> set (ys @ [b])" by (rule last_in_set, simp, cases ys, simp_all)
  then have ne: "?p \<noteq> a" "?q \<noteq> x" using Cons.prems(2,3) by auto
  have "dl_path (sbi_list_add' n ?p ?q s) x (xs @ n # ys) b" using Cons by simp
  then show ?case using Cons.prems ne by (auto simp: sbi_list_add'_def dl_puts Let_def)
qed

lemma del_path:
  assumes "dl_path s a (xs @ e # ys) b" "distinct (a # xs @ e # ys)" "distinct (xs @ e # ys @ [b])"
  shows "dl_path (sbi_list_del' (last (a # xs)) (hd (ys @ [b])) s) a (xs @ ys) b"
  using assms
proof (induction xs arbitrary: a)
  case Nil
  show ?case
  proof (cases ys)
    case Nil
    then show ?thesis using Nil.prems by (auto simp: sbi_list_del'_def dl_puts Let_def)
  next
    case (Cons y zs)
    have "dl_path (sbi_list_del' a y s) y zs b = dl_path s y zs b"
      using Nil.prems Cons by (intro dl_path_cong) (auto simp: sbi_list_del'_def dl_puts Let_def)
    then show ?thesis using Nil.prems Cons by (auto simp: sbi_list_del'_def dl_puts Let_def)
  qed
next
  case (Cons x xs)
  let ?p = "last (x # xs)" and ?q = "hd (ys @ [b])"
  have "?p \<in> set (x # xs)" "?q \<in> set (ys @ [b])" by (rule last_in_set, simp, cases ys, simp_all)
  then have ne: "?p \<noteq> a" "?q \<noteq> x" using Cons.prems(2,3) by auto
  have "dl_path (sbi_list_del' ?p ?q s) x (xs @ ys) b" using Cons by simp
  then show ?case using Cons.prems ne by (auto simp: sbi_list_del'_def dl_puts Let_def)
qed

text \<open>The neighbours of the new node, and of the node that goes.\<close>

lemma ring_neighbours:
  assumes "dl_path s h (xs @ e # ys) h"
  shows "dl_prev s e = last (h # xs)" "dl_next s e = hd (ys @ [h])"
proof -
  have p: "dl_path s h xs e" "dl_path s e ys h" using assms by (simp_all add: dl_path_append)
  show "dl_prev s e = last (h # xs)" by (rule dl_path_last [OF p(1)])
  show "dl_next s e = hd (ys @ [h])" using p(2) by (cases ys) auto
qed

lemma rep_add_before:
  assumes "dl_rep s h (xs @ t # ys)" "n \<notin> insert h (set (xs @ t # ys))"
  shows "dl_rep (sbi_list_add_tail n t s) h (xs @ n # t # ys)"
  using assms add_path [of s h xs "t # ys" h n] ring_neighbours(1) [of s h xs t ys]
  by (auto simp: dl_rep_def sbi_list_add_tail_def)

lemma rep_add_end:
  assumes "dl_rep s h xs" "n \<notin> insert h (set xs)"
  shows "dl_rep (sbi_list_add_tail n h s) h (xs @ [n])"
  using assms add_path [of s h xs "[]" h n] dl_path_last [of s h xs h]
  by (auto simp: dl_rep_def sbi_list_add_tail_def)

lemma rep_del:
  assumes "dl_rep s h (xs @ e # ys)"
  shows "dl_rep (sbi_list_del e s) h (xs @ ys)"
proof -
  let ?t = "sbi_list_del' (last (h # xs)) (hd (ys @ [h])) s"
  have d: "distinct (h # xs @ e # ys)" and p: "dl_path s h (xs @ e # ys) h" using assms by (auto simp: dl_rep_def)
  have "dl_path ?t h (xs @ ys) h" by (rule del_path [OF p]) (use d in auto)
  moreover have "dl_path (sbi_list_del e s) h (xs @ ys) h = dl_path ?t h (xs @ ys) h"
    unfolding sbi_list_del_def ring_neighbours [OF p] Let_def
    by (rule dl_path_cong) (use d in \<open>auto simp: dl_puts\<close>)
  ultimately show ?thesis using d by (auto simp: dl_rep_def)
qed

lemma seek_path:
  assumes "dl_path s a xs h" "h \<notin> set xs"
  shows "list_seek P s (dl_next s a) h = Some (case find P xs of None \<Rightarrow> h | Some x \<Rightarrow> x)"
  using assms
proof (induction xs arbitrary: a)
  case Nil
  then show ?case by (subst list_seek.simps) simp
next
  case (Cons x xs)
  then show ?case by (subst list_seek.simps) auto
qed

lemma walk_path:
  assumes "dl_path s a xs h" "h \<notin> set xs"
  shows "list_walk s (dl_next s a) h = Some xs"
  using assms
proof (induction xs arbitrary: a)
  case Nil
  then show ?case by (subst list_walk.simps) simp
next
  case (Cons x xs)
  then show ?case by (subst list_walk.simps) auto
qed

lemma dl_path_frame:
  assumes "dl_path s k ys k" "P \<inter> insert k (set ys) = {}"
    and "\<And>p. p \<notin> P \<Longrightarrow> dl_next s' p = dl_next s p \<and> dl_prev s' p = dl_prev s p"
  shows "dl_path s' k ys k"
proof -
  have "dl_path s' k ys k = dl_path s k ys k" by (rule dl_path_cong) (use assms in blast)+
  then show ?thesis using assms(1) by simp
qed

lemma last_hd_mem: "last (h # xs) \<in> insert h (set xs)" "hd (ys @ [h]) \<in> insert h (set ys)"
  by (simp, cases ys, simp_all)

interpretation dl: list_store dl_rep SBI_INIT_LIST_HEAD sbi_list_seek sbi_list_for_each sbi_list_add_tail sbi_list_del
proof unfold_locales
  fix s :: sbi_dlist and h k n t e :: u64 and xs ys :: "u64 list" and P
  show "dl_rep s h xs \<Longrightarrow> distinct (h # xs)" by (simp add: dl_rep_def)
  show seek: "dl_rep s h xs \<Longrightarrow> sbi_list_seek P s h = Some (case find P xs of None \<Rightarrow> h | Some x \<Rightarrow> x)"
    unfolding sbi_list_seek_def by (rule seek_path) (auto simp: dl_rep_def)
  show walk: "dl_rep s h xs \<Longrightarrow> sbi_list_for_each s h = Some xs" for xs
    unfolding sbi_list_for_each_def by (rule walk_path) (auto simp: dl_rep_def)
  show "dl_rep s h xs \<Longrightarrow> dl_rep s h ys \<Longrightarrow> xs = ys" using walk [of xs] walk [of ys] by simp
  show "dl_rep (SBI_INIT_LIST_HEAD h s) h []" by (simp add: dl_rep_def SBI_INIT_LIST_HEAD_def dl_puts)
  show "dl_rep s h (xs @ t # ys) \<Longrightarrow> n \<notin> insert h (set (xs @ t # ys)) \<Longrightarrow> dl_rep (sbi_list_add_tail n t s) h (xs @ n # t # ys)"
    by (rule rep_add_before)
  show "dl_rep s h xs \<Longrightarrow> n \<notin> insert h (set xs) \<Longrightarrow> dl_rep (sbi_list_add_tail n h s) h (xs @ [n])"
    by (rule rep_add_end)
  show "dl_rep s h (xs @ e # ys) \<Longrightarrow> dl_rep (sbi_list_del e s) h (xs @ ys)" by (rule rep_del)
  show "dl_rep s k ys \<Longrightarrow> h \<notin> insert k (set ys) \<Longrightarrow> dl_rep (SBI_INIT_LIST_HEAD h s) k ys"
    using dl_path_frame [of s k ys "{h}" "SBI_INIT_LIST_HEAD h s"] by (simp add: dl_rep_def SBI_INIT_LIST_HEAD_def dl_puts)
  assume h: "dl_rep s h xs" and k: "dl_rep s k ys" and dis: "insert h (set xs) \<inter> insert k (set ys) = {}"
  show "dl_rep (sbi_list_add_tail n t s) k ys" if t: "t \<in> insert h (set xs)" and n: "n \<notin> insert k (set ys)"
  proof -
    have "dl_prev s t \<in> insert h (set xs)"
    proof (cases "t = h")
      case True
      then show ?thesis using h dl_path_last [of s h xs h] last_hd_mem(1) [of h xs] by (simp add: dl_rep_def)
    next
      case False
      then obtain us vs where "xs = us @ t # vs" using t by (auto dest: split_list)
      then show ?thesis using h ring_neighbours(1) [of s h us t vs] last_hd_mem(1) [of h us] by (auto simp: dl_rep_def)
    qed
    then have "{n, t, dl_prev s t} \<inter> insert k (set ys) = {}" using t n dis by blast
    from dl_path_frame [OF _ this, of s "sbi_list_add_tail n t s"] have "dl_path (sbi_list_add_tail n t s) k ys k"
      using k by (auto simp: dl_rep_def sbi_list_add_tail_def sbi_list_add'_def dl_puts Let_def)
    then show ?thesis using k by (simp add: dl_rep_def)
  qed
  show "dl_rep (sbi_list_del e s) k ys" if e: "e \<in> set xs"
  proof -
    obtain us vs where xs: "xs = us @ e # vs" using e by (auto dest: split_list)
    then have "dl_prev s e \<in> insert h (set xs)" "dl_next s e \<in> insert h (set xs)"
      using h ring_neighbours [of s h us e vs] last_hd_mem(1) [of h us] last_hd_mem(2) [of vs h] by (auto simp: dl_rep_def)
    then have "{e, dl_next s e, dl_prev s e} \<inter> insert k (set ys) = {}" using e dis by blast
    from dl_path_frame [OF _ this, of s "sbi_list_del e s"] have "dl_path (sbi_list_del e s) k ys k"
      using k by (auto simp: dl_rep_def sbi_list_del_def sbi_list_del'_def dl_puts Let_def)
    then show ?thesis using k by (simp add: dl_rep_def)
  qed
qed

end
