(* ===== verification/SbiSse.thy ===== *)
theory SbiSse
  imports SbiMswi SbiTrap SbiList
begin

text \<open>
  Supervisor software events (\<open>lib/sbi/sbi_sse.c\<close> and \<open>lib/sbi/sbi_ecall_sse.c\<close>): the supervisor registers a handler for an
  event and enables it; when the event is pending the firmware interrupts the supervisor like a
  non-maskable interrupt, by priority, and resumes it when the handler completes.
  Global events belong to one hart at a time and are shared; local events exist once per hart.
\<close>

unbundle bit_operations_syntax

section \<open>Constants\<close>

definition SBI_SSE_ATTR_STATUS :: u32 where "SBI_SSE_ATTR_STATUS = 0"
definition SBI_SSE_ATTR_PRIO :: u32 where "SBI_SSE_ATTR_PRIO = 1"
definition SBI_SSE_ATTR_CONFIG :: u32 where "SBI_SSE_ATTR_CONFIG = 2"
definition SBI_SSE_ATTR_PREFERRED_HART :: u32 where "SBI_SSE_ATTR_PREFERRED_HART = 3"
definition SBI_SSE_ATTR_INTERRUPTED_SEPC :: u32 where "SBI_SSE_ATTR_INTERRUPTED_SEPC = 6"
definition SBI_SSE_ATTR_INTERRUPTED_FLAGS :: u32 where "SBI_SSE_ATTR_INTERRUPTED_FLAGS = 7"
definition SBI_SSE_ATTR_INTERRUPTED_A6 :: u32 where "SBI_SSE_ATTR_INTERRUPTED_A6 = 8"
definition SBI_SSE_ATTR_INTERRUPTED_A7 :: u32 where "SBI_SSE_ATTR_INTERRUPTED_A7 = 9"
definition SBI_SSE_ATTR_MAX :: u64 where "SBI_SSE_ATTR_MAX = 10"

definition SBI_SSE_ATTR_STATUS_STATE_MASK :: u64 where "SBI_SSE_ATTR_STATUS_STATE_MASK = 3"
definition SBI_SSE_ATTR_STATUS_PENDING_OFFSET :: nat where "SBI_SSE_ATTR_STATUS_PENDING_OFFSET = 2"
definition SBI_SSE_ATTR_STATUS_INJECT_OFFSET :: nat where "SBI_SSE_ATTR_STATUS_INJECT_OFFSET = 3"
definition SBI_SSE_ATTR_CONFIG_ONESHOT :: u64 where "SBI_SSE_ATTR_CONFIG_ONESHOT = 1"

definition FLAGS_STATUS_SPP :: u64 where "FLAGS_STATUS_SPP = BIT 0"
definition FLAGS_STATUS_SPIE :: u64 where "FLAGS_STATUS_SPIE = BIT 1"
definition FLAGS_HSTATUS_SPV :: u64 where "FLAGS_HSTATUS_SPV = BIT 2"
definition FLAGS_HSTATUS_SPVP :: u64 where "FLAGS_HSTATUS_SPVP = BIT 3"

definition SBI_SSE_STATE_UNUSED :: u64 where "SBI_SSE_STATE_UNUSED = 0"
definition SBI_SSE_STATE_REGISTERED :: u64 where "SBI_SSE_STATE_REGISTERED = 1"
definition SBI_SSE_STATE_ENABLED :: u64 where "SBI_SSE_STATE_ENABLED = 2"
definition SBI_SSE_STATE_RUNNING :: u64 where "SBI_SSE_STATE_RUNNING = 3"

definition SBI_SSE_EVENT_LOCAL_RAS :: u32 where "SBI_SSE_EVENT_LOCAL_RAS = 0"
definition SBI_SSE_EVENT_LOCAL_DOUBLE_TRAP :: u32 where "SBI_SSE_EVENT_LOCAL_DOUBLE_TRAP = 1"
definition SBI_SSE_EVENT_GLOBAL_RAS :: u32 where "SBI_SSE_EVENT_GLOBAL_RAS = 0x8000"
definition SBI_SSE_EVENT_LOCAL_PMU :: u32 where "SBI_SSE_EVENT_LOCAL_PMU = 0x10000"
definition SBI_SSE_EVENT_LOCAL_SOFTWARE :: u32 where "SBI_SSE_EVENT_LOCAL_SOFTWARE = 0xffff0000"
definition SBI_SSE_EVENT_GLOBAL_SOFTWARE :: u32 where "SBI_SSE_EVENT_GLOBAL_SOFTWARE = 0xffff8000"
definition SBI_SSE_EVENT_GLOBAL_BIT :: u32 where "SBI_SSE_EVENT_GLOBAL_BIT = push_bit 15 1"

definition standard_events :: "u32 list" where
  "standard_events = [SBI_SSE_EVENT_LOCAL_RAS, SBI_SSE_EVENT_LOCAL_DOUBLE_TRAP, SBI_SSE_EVENT_GLOBAL_RAS, SBI_SSE_EVENT_LOCAL_PMU,
     SBI_SSE_EVENT_LOCAL_SOFTWARE, SBI_SSE_EVENT_GLOBAL_SOFTWARE]"

definition SBI_SUCCESS :: int where "SBI_SUCCESS = 0"

lemmas sse_states = SBI_SSE_STATE_UNUSED_def SBI_SSE_STATE_REGISTERED_def SBI_SSE_STATE_ENABLED_def SBI_SSE_STATE_RUNNING_def

lemmas sse_attr_ids = SBI_SSE_ATTR_STATUS_def SBI_SSE_ATTR_PRIO_def SBI_SSE_ATTR_CONFIG_def SBI_SSE_ATTR_PREFERRED_HART_def
  SBI_SSE_ATTR_INTERRUPTED_SEPC_def SBI_SSE_ATTR_INTERRUPTED_FLAGS_def SBI_SSE_ATTR_INTERRUPTED_A6_def
  SBI_SSE_ATTR_INTERRUPTED_A7_def SBI_SSE_ATTR_MAX_def

section \<open>Data\<close>

record sse_entry_state =
  en_pc :: u64
  en_arg :: u64

record sse_interrupted_state =
  i_sepc :: u64
  i_flags :: u64
  i_a6 :: u64
  i_a7 :: u64

record sbi_sse_event_attrs =
  at_status :: u64
  at_prio :: u64
  at_config :: u64
  at_hartid :: u64
  at_entry :: sse_entry_state
  at_interrupted :: sse_interrupted_state

text \<open>\<open>ev_info\<close> is the address of the event's \<open>sse_event_info\<close>.\<close>

record sbi_sse_event =
  attrs :: sbi_sse_event_attrs
  event_id :: u32
  hartindex :: nat
  ev_info :: nat

text \<open>
  The storage of an event: position \<open>i\<close> of the local events of a hart, or of the global events.  The node of the
  enabled list is a part of the event, so the list holds these references.
\<close>

datatype sse_ref = Local nat nat | Global nat

record sse_hart_state =
  enabled_event_list :: "sse_ref list"
  enabled_event_lock :: bool
  local_events :: "sbi_sse_event list"
  masked :: bool

record sse_global_event =
  ge_event :: sbi_sse_event
  ge_lock :: bool

text \<open>
  The callbacks of an event, run by a hart on the state \<open>'p\<close> of the component that added the event, which has no access to
  the data of this component.
\<close>

record 'p sbi_sse_cb_ops =
  set_hartid_cb :: "(nat \<Rightarrow> u32 \<Rightarrow> u64 \<Rightarrow> 'p \<Rightarrow> 'p) option"
  complete_cb :: "(nat \<Rightarrow> u32 \<Rightarrow> 'p \<Rightarrow> 'p) option"
  register_cb :: "(nat \<Rightarrow> u32 \<Rightarrow> 'p \<Rightarrow> 'p) option"
  unregister_cb :: "(nat \<Rightarrow> u32 \<Rightarrow> 'p \<Rightarrow> 'p) option"
  enable_cb :: "(nat \<Rightarrow> u32 \<Rightarrow> 'p \<Rightarrow> 'p) option"
  disable_cb :: "(nat \<Rightarrow> u32 \<Rightarrow> 'p \<Rightarrow> 'p) option"

record 'p sse_event_info =
  inf_event_id :: u32
  inf_cb_ops :: "'p sbi_sse_cb_ops option"

text \<open>The variables that only the cold boot and \<open>sbi_sse_add_event\<close> write; \<open>supported_events\<close> is the list of infos, by address.\<close>

record 'p sse_globals =
  sse_infos :: "nat \<Rightarrow> 'p sse_event_info"
  supported_events :: "nat list"
  sse_inject_fifo_off :: u64
  sse_inject_fifo_mem_off :: u64
  shs_ptr_off :: u64
  sse_ipi_inject_event :: u32

text \<open>
  The shared state: the hart states the scratch spaces point to, the global events, the queues of injected event ids
  with their capacities, the registers of the lower modes of each hart, the longs of the memory the supervisor passes
  attributes in, and the state of the callbacks.
\<close>

record 'p sse_system = mswi_system +
  shs_ptr :: "nat \<Rightarrow> sse_hart_state option"
  global_events :: "sse_global_event list"
  global_event_count :: nat
  local_event_count :: nat
  inject_fifo :: "nat \<Rightarrow> u32 list"
  inject_fifo_cap :: "nat \<Rightarrow> nat"
  lcsrs :: "nat \<Rightarrow> lower_csrs"
  smem :: "u64 \<Rightarrow> u64"
  cb_state :: 'p

section \<open>Events\<close>

definition EVENT_IS_GLOBAL :: "u32 \<Rightarrow> bool" where
  "EVENT_IS_GLOBAL eid \<longleftrightarrow> eid AND SBI_SSE_EVENT_GLOBAL_BIT \<noteq> 0"

definition sse_is_standard_event :: "u32 \<Rightarrow> bool" where
  "sse_is_standard_event eid \<longleftrightarrow> eid \<in> set standard_events"

definition sse_event_info_get :: "'p sse_globals \<Rightarrow> u32 \<Rightarrow> nat option" where
  "sse_event_info_get sg eid = find (\<lambda>p. inf_event_id (sse_infos sg p) = eid) (supported_events sg)"

definition sse_event_state :: "sbi_sse_event \<Rightarrow> u64" where
  "sse_event_state e = at_status (attrs e) AND SBI_SSE_ATTR_STATUS_STATE_MASK"

definition sse_event_pending :: "sbi_sse_event \<Rightarrow> bool" where
  "sse_event_pending e \<longleftrightarrow> at_status (attrs e) AND BIT SBI_SSE_ATTR_STATUS_PENDING_OFFSET \<noteq> 0"

definition sse_event_is_global :: "sbi_sse_event \<Rightarrow> bool" where
  "sse_event_is_global e \<longleftrightarrow> EVENT_IS_GLOBAL (event_id e)"

definition sse_event_is_local :: "sbi_sse_event \<Rightarrow> bool" where
  "sse_event_is_local e \<longleftrightarrow> \<not> sse_event_is_global e"

definition set_status :: "u64 \<Rightarrow> sbi_sse_event \<Rightarrow> sbi_sse_event" where
  "set_status st e = e\<lparr>attrs := (attrs e)\<lparr>at_status := st\<rparr>\<rparr>"

definition sse_event_set_state :: "u64 \<Rightarrow> sbi_sse_event \<Rightarrow> sbi_sse_event" where
  "sse_event_set_state new_state e =
     set_status ((at_status (attrs e) AND NOT SBI_SSE_ATTR_STATUS_STATE_MASK) OR new_state) e"

definition current_hartid :: "scratch_state \<Rightarrow> nat \<Rightarrow> u64" where
  "current_hartid sst me = ucast (sbi_hartindex_to_hartid sst me)"

text \<open>Access to the event at a reference.\<close>

definition ev_at :: "sse_ref \<Rightarrow> ('p, 'a) sse_system_scheme \<Rightarrow> sbi_sse_event" where
  "ev_at r w = (case r of Local h i \<Rightarrow> local_events (the (shs_ptr w h)) ! i | Global i \<Rightarrow> ge_event (global_events w ! i))"

definition on_shs :: "nat \<Rightarrow> (sse_hart_state \<Rightarrow> sse_hart_state) \<Rightarrow> ('p, 'a) sse_system_scheme \<Rightarrow> ('p, 'a) sse_system_scheme" where
  "on_shs h f w = w\<lparr>shs_ptr := (shs_ptr w)(h := map_option f (shs_ptr w h))\<rparr>"

definition on_ev :: "sse_ref \<Rightarrow> (sbi_sse_event \<Rightarrow> sbi_sse_event) \<Rightarrow> ('p, 'a) sse_system_scheme \<Rightarrow> ('p, 'a) sse_system_scheme" where
  "on_ev r f w =
     (case r of
        Local h i \<Rightarrow> on_shs h (\<lambda>s. s\<lparr>local_events := (local_events s)[i := f (local_events s ! i)]\<rparr>) w
      | Global i \<Rightarrow> w\<lparr>global_events := (global_events w)[i := (global_events w ! i)\<lparr>ge_event := f (ge_event (global_events w ! i))\<rparr>]\<rparr>)"

section \<open>Locks and lookup\<close>

text \<open>
  A handler runs alone in this model; a lock that is already taken is then held by the handler itself, which waits
  for it forever: \<open>None\<close>.  \<open>None\<close> also stands for the fault of following a null pointer.
\<close>

definition ge_spin_lock :: "nat \<Rightarrow> ('p, 'a) sse_system_scheme \<Rightarrow> ('p, 'a) sse_system_scheme option" where
  "ge_spin_lock i w =
     (if ge_lock (global_events w ! i) then None
      else Some (w\<lparr>global_events := (global_events w)[i := (global_events w ! i)\<lparr>ge_lock := True\<rparr>]\<rparr>))"

definition ge_spin_unlock :: "nat \<Rightarrow> ('p, 'a) sse_system_scheme \<Rightarrow> ('p, 'a) sse_system_scheme" where
  "ge_spin_unlock i w = w\<lparr>global_events := (global_events w)[i := (global_events w ! i)\<lparr>ge_lock := False\<rparr>]\<rparr>"

definition list_spin_lock :: "nat \<Rightarrow> ('p, 'a) sse_system_scheme \<Rightarrow> ('p, 'a) sse_system_scheme option" where
  "list_spin_lock h w =
     (case shs_ptr w h of
        None \<Rightarrow> None
      | Some s \<Rightarrow> if enabled_event_lock s then None else Some (on_shs h (\<lambda>s. s\<lparr>enabled_event_lock := True\<rparr>) w))"

definition list_spin_unlock :: "nat \<Rightarrow> ('p, 'a) sse_system_scheme \<Rightarrow> ('p, 'a) sse_system_scheme" where
  "list_spin_unlock h w = on_shs h (\<lambda>s. s\<lparr>enabled_event_lock := False\<rparr>) w"

definition sse_enabled_event_lock :: "sse_ref \<Rightarrow> ('p, 'a) sse_system_scheme \<Rightarrow> ('p, 'a) sse_system_scheme option" where
  "sse_enabled_event_lock r w = list_spin_lock (hartindex (ev_at r w)) w"

definition sse_enabled_event_unlock :: "sse_ref \<Rightarrow> ('p, 'a) sse_system_scheme \<Rightarrow> ('p, 'a) sse_system_scheme" where
  "sse_enabled_event_unlock r w = list_spin_unlock (hartindex (ev_at r w)) w"

text \<open>The event of an id, as the caller's hart sees it; a global event comes back locked.\<close>

definition sse_event_get ::
  "nat \<Rightarrow> u32 \<Rightarrow> ('p, 'a) sse_system_scheme \<Rightarrow> ((int + sse_ref) \<times> ('p, 'a) sse_system_scheme) option" where
  "sse_event_get me eid w =
     (let missing = Some (Inl (if sse_is_standard_event eid then SBI_ENOTSUPP else SBI_EINVAL), w) in
      if EVENT_IS_GLOBAL eid then
        (case find (\<lambda>i. event_id (ge_event (global_events w ! i)) = eid) [0..<global_event_count w] of
           Some i \<Rightarrow> map_option (\<lambda>w. (Inr (Global i), w)) (ge_spin_lock i w)
         | None \<Rightarrow> missing)
      else
        (case shs_ptr w me of
           None \<Rightarrow> None
         | Some shs \<Rightarrow>
             (case find (\<lambda>i. event_id (local_events shs ! i) = eid) [0..<local_event_count w] of
                Some i \<Rightarrow> Some (Inr (Local me i), w)
              | None \<Rightarrow> missing)))"

definition sse_event_put :: "sse_ref \<Rightarrow> ('p, 'a) sse_system_scheme \<Rightarrow> ('p, 'a) sse_system_scheme" where
  "sse_event_put r w =
     (if sse_event_is_local (ev_at r w) then w
      else case r of Local h i \<Rightarrow> w | Global i \<Rightarrow> ge_spin_unlock i w)"


section \<open>State changes\<close>

definition sse_event_invoke_cb ::
  "('p sbi_sse_cb_ops \<Rightarrow> (nat \<Rightarrow> u32 \<Rightarrow> 'p \<Rightarrow> 'p) option) \<Rightarrow> 'p sse_globals \<Rightarrow> nat \<Rightarrow> sse_ref \<Rightarrow>
   ('p, 'a) sse_system_scheme \<Rightarrow> ('p, 'a) sse_system_scheme" where
  "sse_event_invoke_cb cb sg me r w =
     (case inf_cb_ops (sse_infos sg (ev_info (ev_at r w))) of
        None \<Rightarrow> w
      | Some ops \<Rightarrow> (case cb ops of None \<Rightarrow> w | Some f \<Rightarrow> w\<lparr>cb_state := f me (event_id (ev_at r w)) (cb_state w)\<rparr>))"

definition sse_event_remove_from_list :: "sse_ref \<Rightarrow> ('p, 'a) sse_system_scheme \<Rightarrow> ('p, 'a) sse_system_scheme" where
  "sse_event_remove_from_list r w =
     w\<lparr>shs_ptr := (\<lambda>h. map_option (\<lambda>s. s\<lparr>enabled_event_list := remove1 r (enabled_event_list s)\<rparr>) (shs_ptr w h))\<rparr>"

text \<open>The order of the list: the comparison at which the insertion loop stops.\<close>

definition sse_before :: "sbi_sse_event \<Rightarrow> sbi_sse_event \<Rightarrow> bool" where
  "sse_before e tmp \<longleftrightarrow>
     at_prio (attrs e) < at_prio (attrs tmp) \<or>
     at_prio (attrs e) = at_prio (attrs tmp) \<and> event_id e < event_id tmp"

definition sse_event_add_to_list :: "sse_ref \<Rightarrow> ('p, 'a) sse_system_scheme \<Rightarrow> ('p, 'a) sse_system_scheme option" where
  "sse_event_add_to_list r w =
     (let e = ev_at r w in
      if shs_ptr w (hartindex e) = None then None
      else Some (on_shs (hartindex e)
        (\<lambda>s. s\<lparr>enabled_event_list := insert_where (\<lambda>t. sse_before e (ev_at t w)) r (enabled_event_list s)\<rparr>) w))"

definition sse_event_disable ::
  "'p sse_globals \<Rightarrow> nat \<Rightarrow> sse_ref \<Rightarrow> ('p, 'a) sse_system_scheme \<Rightarrow> int \<times> ('p, 'a) sse_system_scheme" where
  "sse_event_disable sg me r w =
     (if sse_event_state (ev_at r w) \<noteq> SBI_SSE_STATE_ENABLED then (SBI_EINVALID_STATE, w)
      else
        let w = sse_event_invoke_cb disable_cb sg me r w;
            w = sse_event_remove_from_list r w;
            w = on_ev r (sse_event_set_state SBI_SSE_STATE_REGISTERED) w
        in (SBI_OK, w))"

definition sse_event_set_hart_id_check ::
  "scratch_state \<Rightarrow> sbi_domain option \<Rightarrow> sbi_sse_event \<Rightarrow> u64 \<Rightarrow> ('p, 'a) sse_system_scheme \<Rightarrow> int" where
  "sse_event_set_hart_id_check sst dm e new_hartid w =
     (let hartid = ucast new_hartid :: u32 in
      if \<not> sse_event_is_global e then SBI_EBAD_RANGE
      else if \<not> sbi_domain_is_assigned_hart dm (sbi_hartid_to_hartindex sst hartid) then SBI_EINVAL
      else if sbi_hsm_hart_get_state sst (hsm_system.truncate w) dm hartid \<noteq> SBI_HSM_STATE_STARTED then SBI_EINVAL
      else SBI_OK)"

definition sse_event_set_attr_check ::
  "scratch_state \<Rightarrow> sbi_domain option \<Rightarrow> nat \<Rightarrow> sbi_sse_event \<Rightarrow> u32 \<Rightarrow> u64 \<Rightarrow> ('p, 'a) sse_system_scheme \<Rightarrow> int" where
  "sse_event_set_attr_check sst dm me e attr_id val w =
     (let running_check =
            (if sse_event_state e \<noteq> SBI_SSE_STATE_RUNNING then SBI_EINVALID_STATE
             else if current_hartid sst me \<noteq> at_hartid (attrs e) then SBI_EINVAL else SBI_OK) in
      if attr_id = SBI_SSE_ATTR_CONFIG then
        (if SBI_SSE_STATE_ENABLED \<le> sse_event_state e then SBI_EINVALID_STATE
         else if val AND NOT SBI_SSE_ATTR_CONFIG_ONESHOT \<noteq> 0 then SBI_EINVAL else SBI_OK)
      else if attr_id = SBI_SSE_ATTR_PRIO then
        (if SBI_SSE_STATE_ENABLED \<le> sse_event_state e then SBI_EINVALID_STATE
         else if val \<noteq> ucast (ucast val :: u32) then SBI_EINVAL else SBI_OK)
      else if attr_id = SBI_SSE_ATTR_PREFERRED_HART then
        (if SBI_SSE_STATE_ENABLED \<le> sse_event_state e then SBI_EINVALID_STATE
         else sse_event_set_hart_id_check sst dm e val w)
      else if attr_id = SBI_SSE_ATTR_INTERRUPTED_FLAGS then
        (if val AND NOT (FLAGS_STATUS_SPP OR FLAGS_STATUS_SPIE OR FLAGS_HSTATUS_SPV OR FLAGS_HSTATUS_SPVP) \<noteq> 0 then SBI_EINVAL
         else running_check)
      else if attr_id = SBI_SSE_ATTR_INTERRUPTED_SEPC \<or> attr_id = SBI_SSE_ATTR_INTERRUPTED_A6 \<or>
        attr_id = SBI_SSE_ATTR_INTERRUPTED_A7 then running_check
      else SBI_EBAD_RANGE)"

definition on_attrs :: "(sbi_sse_event_attrs \<Rightarrow> sbi_sse_event_attrs) \<Rightarrow> sbi_sse_event \<Rightarrow> sbi_sse_event" where
  "on_attrs f e = e\<lparr>attrs := f (attrs e)\<rparr>"

definition on_interrupted :: "(sse_interrupted_state \<Rightarrow> sse_interrupted_state) \<Rightarrow> sbi_sse_event \<Rightarrow> sbi_sse_event" where
  "on_interrupted f e = on_attrs (\<lambda>a. a\<lparr>at_interrupted := f (at_interrupted a)\<rparr>) e"

definition sse_event_set_attr ::
  "scratch_state \<Rightarrow> 'p sse_globals \<Rightarrow> nat \<Rightarrow> sse_ref \<Rightarrow> u32 \<Rightarrow> u64 \<Rightarrow> ('p, 'a) sse_system_scheme \<Rightarrow> ('p, 'a) sse_system_scheme" where
  "sse_event_set_attr sst sg me r attr_id val w =
     (if attr_id = SBI_SSE_ATTR_CONFIG then on_ev r (on_attrs (\<lambda>a. a\<lparr>at_config := val\<rparr>)) w
      else if attr_id = SBI_SSE_ATTR_PRIO then on_ev r (on_attrs (\<lambda>a. a\<lparr>at_prio := ucast (ucast val :: u32)\<rparr>)) w
      else if attr_id = SBI_SSE_ATTR_PREFERRED_HART then
        (let w = on_ev r (on_attrs (\<lambda>a. a\<lparr>at_hartid := val\<rparr>)) w;
             w = on_ev r (\<lambda>e. e\<lparr>hartindex := sbi_hartid_to_hartindex sst (ucast val)\<rparr>) w
         in sse_event_invoke_cb (\<lambda>ops. map_option (\<lambda>f me eid. f me eid val) (set_hartid_cb ops)) sg me r w)
      else if attr_id = SBI_SSE_ATTR_INTERRUPTED_SEPC then on_ev r (on_interrupted (\<lambda>i. i\<lparr>i_sepc := val\<rparr>)) w
      else if attr_id = SBI_SSE_ATTR_INTERRUPTED_FLAGS then on_ev r (on_interrupted (\<lambda>i. i\<lparr>i_flags := val\<rparr>)) w
      else if attr_id = SBI_SSE_ATTR_INTERRUPTED_A6 then on_ev r (on_interrupted (\<lambda>i. i\<lparr>i_a6 := val\<rparr>)) w
      else if attr_id = SBI_SSE_ATTR_INTERRUPTED_A7 then on_ev r (on_interrupted (\<lambda>i. i\<lparr>i_a7 := val\<rparr>)) w
      else w)"

definition sse_event_register ::
  "'p sse_globals \<Rightarrow> nat \<Rightarrow> sse_ref \<Rightarrow> u64 \<Rightarrow> u64 \<Rightarrow> ('p, 'a) sse_system_scheme \<Rightarrow> int \<times> ('p, 'a) sse_system_scheme" where
  "sse_event_register sg me r handler_entry_pc handler_entry_arg w =
     (if sse_event_state (ev_at r w) \<noteq> SBI_SSE_STATE_UNUSED then (SBI_EINVALID_STATE, w)
      else
        let w = on_ev r (on_attrs (\<lambda>a. a\<lparr>at_entry := \<lparr>en_pc = handler_entry_pc, en_arg = handler_entry_arg\<rparr>\<rparr>)) w;
            w = on_ev r (sse_event_set_state SBI_SSE_STATE_REGISTERED) w
        in (0, sse_event_invoke_cb register_cb sg me r w))"

definition sse_event_unregister ::
  "'p sse_globals \<Rightarrow> nat \<Rightarrow> sse_ref \<Rightarrow> ('p, 'a) sse_system_scheme \<Rightarrow> int \<times> ('p, 'a) sse_system_scheme" where
  "sse_event_unregister sg me r w =
     (if sse_event_state (ev_at r w) \<noteq> SBI_SSE_STATE_REGISTERED then (SBI_EINVALID_STATE, w)
      else
        let w = sse_event_invoke_cb unregister_cb sg me r w
        in (0, on_ev r (sse_event_set_state SBI_SSE_STATE_UNUSED) w))"

section \<open>Injection and resumption\<close>

definition sse_interrupted_flags :: "lower_csrs \<Rightarrow> u64 \<Rightarrow> u64" where
  "sse_interrupted_flags c ms =
     (let flags = 0;
          flags = (if ms AND MSTATUS_SPIE \<noteq> 0 then flags OR FLAGS_STATUS_SPIE else flags);
          flags = (if ms AND MSTATUS_SPP \<noteq> 0 then flags OR FLAGS_STATUS_SPP else flags)
      in if has_h c then
           let flags = (if csr_hstatus c AND HSTATUS_SPV \<noteq> 0 then flags OR FLAGS_HSTATUS_SPV else flags)
           in if csr_hstatus c AND HSTATUS_SPVP \<noteq> 0 then flags OR FLAGS_HSTATUS_SPVP else flags
         else flags)"

text \<open>
  The context switches, as functions of the event, the frame and the registers of the hart; \<open>hartid\<close> is that
  of the hart.
\<close>

definition sse_event_inject ::
  "u64 \<Rightarrow> sbi_sse_event \<times> sbi_trap_regs \<times> lower_csrs \<Rightarrow> sbi_sse_event \<times> sbi_trap_regs \<times> lower_csrs" where
  "sse_event_inject hartid s =
     (case s of (e, regs, c) \<Rightarrow>
        let e = sse_event_set_state SBI_SSE_STATE_RUNNING e;
            e = set_status (NOT (BIT SBI_SSE_ATTR_STATUS_PENDING_OFFSET)) e;
            e = on_interrupted (\<lambda>i. \<lparr>i_sepc = csr_sepc c, i_flags = sse_interrupted_flags c (mstatus regs),
                  i_a6 = a6 regs, i_a7 = a7 regs\<rparr>) e;
            m = mstatus regs AND NOT (MSTATUS_SPP OR MSTATUS_SPIE);
            m = (if m AND MSTATUS_MPP \<noteq> 0 then m OR MSTATUS_SPP else m);
            m = (if m AND MSTATUS_SIE \<noteq> 0 then m OR MSTATUS_SPIE else m);
            c = (if has_h c then
                   let h = csr_hstatus c;
                       h = (if m AND MSTATUS_MPV \<noteq> 0 then h OR HSTATUS_SPV else h);
                       h = h AND NOT HSTATUS_SPVP;
                       h = (if h AND HSTATUS_SPV \<noteq> 0 \<and> m AND MSTATUS_SPP \<noteq> 0 then h OR HSTATUS_SPVP else h)
                   in c\<lparr>csr_hstatus := h\<rparr>
                 else c);
            c = c\<lparr>csr_sepc := mepc regs\<rparr>;
            m = m AND NOT (MSTATUS_MPP OR MSTATUS_SIE);
            m = m OR push_bit MSTATUS_MPP_SHIFT PRV_S;
            m = m AND NOT MSTATUS_MPV
        in (e, regs\<lparr>a6 := hartid, a7 := en_arg (at_entry (attrs e)), mepc := en_pc (at_entry (attrs e)), mstatus := m\<rparr>, c))"

definition sse_event_resume :: "sse_interrupted_state \<Rightarrow> sbi_trap_regs \<times> lower_csrs \<Rightarrow> sbi_trap_regs \<times> lower_csrs" where
  "sse_event_resume i_ctx s =
     (case s of (regs, c) \<Rightarrow>
        let pc = csr_sepc c;
            m = mstatus regs AND NOT MSTATUS_MPP;
            m = (if m AND MSTATUS_SPP \<noteq> 0 then m OR push_bit MSTATUS_MPP_SHIFT PRV_S else m);
            m' = (if has_h c then put_bit MSTATUS_MPV (csr_hstatus c AND HSTATUS_SPV \<noteq> 0) m else m);
            c = (if has_h c then
                   let h = csr_hstatus c AND NOT (HSTATUS_SPV OR HSTATUS_SPVP);
                       h = (if i_flags i_ctx AND FLAGS_HSTATUS_SPV \<noteq> 0 then h OR HSTATUS_SPV else h);
                       h = (if i_flags i_ctx AND FLAGS_HSTATUS_SPVP \<noteq> 0 then h OR HSTATUS_SPVP else h)
                   in c\<lparr>csr_hstatus := h\<rparr>
                 else c);
            m = put_bit MSTATUS_SIE (m' AND MSTATUS_SPIE \<noteq> 0) m';
            m = put_bit MSTATUS_SPIE (i_flags i_ctx AND FLAGS_STATUS_SPIE \<noteq> 0) m;
            m = put_bit MSTATUS_SPP (i_flags i_ctx AND FLAGS_STATUS_SPP \<noteq> 0) m
        in (regs\<lparr>mepc := pc, mstatus := m, a7 := i_a7 i_ctx, a6 := i_a6 i_ctx\<rparr>, c\<lparr>csr_sepc := i_sepc i_ctx\<rparr>))"

definition sse_event_is_ready :: "u64 \<Rightarrow> sbi_sse_event \<Rightarrow> bool" where
  "sse_event_is_ready hartid e =
     (if \<not> sse_event_pending e \<or> sse_event_state e \<noteq> SBI_SSE_STATE_ENABLED \<or> at_hartid (attrs e) \<noteq> hartid then False else True)"

definition sse_event_check_inject ::
  "scratch_state \<Rightarrow> nat \<Rightarrow> sse_ref \<Rightarrow> sbi_trap_regs \<times> ('p, 'a) sse_system_scheme \<Rightarrow> bool \<times> sbi_trap_regs \<times> ('p, 'a) sse_system_scheme" where
  "sse_event_check_inject sst me r s =
     (case s of (regs, w) \<Rightarrow>
        if sse_event_state (ev_at r w) = SBI_SSE_STATE_RUNNING then (True, regs, w)
        else if sse_event_is_ready (current_hartid sst me) (ev_at r w) then
          (case sse_event_inject (current_hartid sst me) (ev_at r w, regs, lcsrs w me) of
             (e, regs, c) \<Rightarrow> (True, regs, on_ev r (\<lambda>_. e) (w\<lparr>lcsrs := (lcsrs w)(me := c)\<rparr>)))
        else (False, regs, w))"

fun process_loop ::
  "scratch_state \<Rightarrow> nat \<Rightarrow> sse_ref list \<Rightarrow> sbi_trap_regs \<times> ('p, 'a) sse_system_scheme \<Rightarrow> sbi_trap_regs \<times> ('p, 'a) sse_system_scheme" where
  "process_loop sst me [] s = s"
| "process_loop sst me (r # rs) s =
     (case sse_event_check_inject sst me r s of (ret, s) \<Rightarrow> if ret then s else process_loop sst me rs s)"

definition sbi_sse_process_pending_events ::
  "scratch_state \<Rightarrow> nat \<Rightarrow> sbi_trap_regs \<times> ('p, 'a) sse_system_scheme \<Rightarrow> (sbi_trap_regs \<times> ('p, 'a) sse_system_scheme) option" where
  "sbi_sse_process_pending_events sst me s =
     (case s of (regs, w) \<Rightarrow>
        (case shs_ptr w me of
           None \<Rightarrow> None
         | Some state \<Rightarrow>
             if masked state then Some (regs, w)
             else map_option (\<lambda>w. apsnd (list_spin_unlock me) (process_loop sst me (enabled_event_list state) (regs, w)))
                    (list_spin_lock me w)))"


section \<open>Pending events\<close>

definition sse_event_set_pending :: "sse_ref \<Rightarrow> ('p, 'a) sse_system_scheme \<Rightarrow> int \<times> ('p, 'a) sse_system_scheme" where
  "sse_event_set_pending r w =
     (let e = ev_at r w in
      if sse_event_state e \<noteq> SBI_SSE_STATE_RUNNING \<and> sse_event_state e \<noteq> SBI_SSE_STATE_ENABLED then (SBI_EINVALID_STATE, w)
      else (SBI_OK, on_ev r (\<lambda>e. set_status (at_status (attrs e) OR BIT SBI_SSE_ATTR_STATUS_PENDING_OFFSET) e) w))"

text \<open>The loop over the queue of injected events; each turn takes the oldest id.\<close>

fun inject_loop :: "nat \<Rightarrow> u32 list \<Rightarrow> ('p, 'a) sse_system_scheme \<Rightarrow> ('p, 'a) sse_system_scheme option" where
  "inject_loop me [] w = Some w"
| "inject_loop me (eid # q) w =
     (case sse_event_get me eid (w\<lparr>inject_fifo := (inject_fifo w)(me := q)\<rparr>) of
        None \<Rightarrow> None
      | Some (Inl rc, w) \<Rightarrow> inject_loop me q w
      | Some (Inr r, w) \<Rightarrow> inject_loop me q (sse_event_put r (snd (sse_event_set_pending r w))))"

definition sse_ipi_inject_process :: "nat \<Rightarrow> ('p, 'a) sse_system_scheme \<Rightarrow> bool \<times> ('p, 'a) sse_system_scheme" where
  "sse_ipi_inject_process me w =
     (case inject_loop me (inject_fifo w me) w of None \<Rightarrow> (False, w) | Some w \<Rightarrow> (True, w))"

definition sse_ipi_inject_ops :: "(('p, 'a) sse_system_scheme, 'd) sbi_ipi_event_ops" where
  "sse_ipi_inject_ops = \<lparr>op_update = None, op_sync = None, op_process = Some sse_ipi_inject_process\<rparr>"

text \<open>\<open>sbi_ipi_send_many\<close> for one hart, without data; \<open>None\<close> when it does not return.\<close>

definition send_one ::
  "(('p, 'a) sse_system_scheme, unit) ipi_globals \<Rightarrow> scratch_state \<Rightarrow> sbi_domain option \<Rightarrow> nat \<Rightarrow> u64 \<Rightarrow> u32 \<Rightarrow>
   ('p, 'a) sse_system_scheme \<Rightarrow> (int \<times> ('p, 'a) sse_system_scheme) option" where
  "send_one g sst dm me hartid event w =
     (case sbi_ipi_send_many g sst me dm 1 hartid event () w of Some (Some rc, w) \<Rightarrow> Some (rc, w) | _ \<Rightarrow> None)"

definition sse_ipi_inject_send ::
  "(('p, 'a) sse_system_scheme, unit) ipi_globals \<Rightarrow> 'p sse_globals \<Rightarrow> scratch_state \<Rightarrow> sbi_domain option \<Rightarrow> nat \<Rightarrow> u64 \<Rightarrow> u32 \<Rightarrow>
   ('p, 'a) sse_system_scheme \<Rightarrow> (int \<times> ('p, 'a) sse_system_scheme) option" where
  "sse_ipi_inject_send g sg sst dm me hartid eid w =
     (let remote = sbi_hartid_to_hartindex sst (ucast hartid) in
      if sbi_hartindex_to_scratch sst remote = None then Some (SBI_EINVAL, w)
      else if inject_fifo_cap w remote \<le> length (inject_fifo w remote) then Some (SBI_EFAIL, w)
      else
        let w = w\<lparr>inject_fifo := (inject_fifo w)(remote := inject_fifo w remote @ [eid])\<rparr>
        in map_option (apfst (\<lambda>ret. if ret \<noteq> 0 then SBI_EFAIL else SBI_OK))
             (send_one g sst dm me hartid (sse_ipi_inject_event sg) w))"

definition sse_inject_event ::
  "(('p, 'a) sse_system_scheme, unit) ipi_globals \<Rightarrow> 'p sse_globals \<Rightarrow> scratch_state \<Rightarrow> sbi_domain option \<Rightarrow> nat \<Rightarrow> u32 \<Rightarrow> u64 \<Rightarrow>
   ('p, 'a) sse_system_scheme \<Rightarrow> (int \<times> ('p, 'a) sse_system_scheme) option" where
  "sse_inject_event g sg sst dm me eid hartid w =
     Option.bind (sse_event_get me eid w) (\<lambda>(got, w). case got of
        Inl ret \<Rightarrow> Some (ret, w)
      | Inr r \<Rightarrow>
          let e = ev_at r w; hartid = (if sse_event_is_global e then at_hartid (attrs e) else hartid) in
          if hartid \<noteq> current_hartid sst me
          then sse_ipi_inject_send g sg sst dm me hartid eid (sse_event_put r w)
          else (case sse_event_set_pending r w of (ret, w) \<Rightarrow>
            let w = sse_event_put r w in if ret \<noteq> 0 then Some (ret, w) else Some (SBI_OK, w)))"

section \<open>Calls from the supervisor\<close>

definition sse_event_enable ::
  "(('p, 'a) sse_system_scheme, unit) ipi_globals \<Rightarrow> 'p sse_globals \<Rightarrow> scratch_state \<Rightarrow> sbi_domain option \<Rightarrow> nat \<Rightarrow> sse_ref \<Rightarrow>
   ('p, 'a) sse_system_scheme \<Rightarrow> (int \<times> ('p, 'a) sse_system_scheme) option" where
  "sse_event_enable g sg sst dm me r w =
     (if sse_event_state (ev_at r w) \<noteq> SBI_SSE_STATE_REGISTERED then Some (SBI_EINVALID_STATE, w)
      else
        Option.bind (sse_event_add_to_list r (on_ev r (sse_event_set_state SBI_SSE_STATE_ENABLED) w)) (\<lambda>w.
          let w = sse_event_invoke_cb enable_cb sg me r w; e = ev_at r w in
          if sse_event_is_global e \<and> sse_event_pending e
          then map_option (\<lambda>(_, w). (SBI_OK, w)) (send_one g sst dm me (at_hartid (attrs e)) (sse_ipi_inject_event sg) w)
          else Some (SBI_OK, w)))"

text \<open>The result has the frame and whether the caller must not write its result registers.\<close>

definition sse_event_complete ::
  "scratch_state \<Rightarrow> 'p sse_globals \<Rightarrow> nat \<Rightarrow> sse_ref \<Rightarrow> sbi_trap_regs \<times> ('p, 'a) sse_system_scheme \<Rightarrow>
   int \<times> bool \<times> sbi_trap_regs \<times> ('p, 'a) sse_system_scheme" where
  "sse_event_complete sst sg me r s =
     (case s of (regs, w) \<Rightarrow>
        if sse_event_state (ev_at r w) \<noteq> SBI_SSE_STATE_RUNNING then (SBI_EINVALID_STATE, False, regs, w)
        else if at_hartid (attrs (ev_at r w)) \<noteq> current_hartid sst me then (SBI_EINVAL, False, regs, w)
        else
          let w = on_ev r (sse_event_set_state SBI_SSE_STATE_ENABLED) w;
              w = (if at_config (attrs (ev_at r w)) AND SBI_SSE_ATTR_CONFIG_ONESHOT \<noteq> 0 then snd (sse_event_disable sg me r w) else w);
              w = sse_event_invoke_cb complete_cb sg me r w
          in case sse_event_resume (at_interrupted (attrs (ev_at r w))) (regs, lcsrs w me) of
               (regs, c) \<Rightarrow> (SBI_OK, True, regs, w\<lparr>lcsrs := (lcsrs w)(me := c)\<rparr>))"

definition sbi_sse_complete ::
  "scratch_state \<Rightarrow> 'p sse_globals \<Rightarrow> nat \<Rightarrow> sbi_trap_regs \<times> ('p, 'a) sse_system_scheme \<Rightarrow>
   (int \<times> bool \<times> sbi_trap_regs \<times> ('p, 'a) sse_system_scheme) option" where
  "sbi_sse_complete sst sg me s =
     (case s of (regs, w) \<Rightarrow>
        Option.bind (shs_ptr w me) (\<lambda>state.
        Option.bind (list_spin_lock me w) (\<lambda>w.
          Some (case find (\<lambda>r. sse_event_state (ev_at r w) = SBI_SSE_STATE_RUNNING) (enabled_event_list state) of
              None \<Rightarrow> (SBI_OK, False, regs, list_spin_unlock me w)
            | Some r \<Rightarrow>
                (case sse_event_complete sst sg me r (regs, w) of
                   (ret, skip, regs, w) \<Rightarrow> (ret, skip, regs, list_spin_unlock me w))))))"

definition sbi_sse_enable ::
  "(('p, 'a) sse_system_scheme, unit) ipi_globals \<Rightarrow> 'p sse_globals \<Rightarrow> scratch_state \<Rightarrow> sbi_domain option \<Rightarrow> nat \<Rightarrow> u32 \<Rightarrow>
   ('p, 'a) sse_system_scheme \<Rightarrow> (int \<times> ('p, 'a) sse_system_scheme) option" where
  "sbi_sse_enable g sg sst dm me eid w =
     Option.bind (sse_event_get me eid w) (\<lambda>(got, w). case got of
        Inl ret \<Rightarrow> Some (ret, w)
      | Inr r \<Rightarrow>
          Option.bind (sse_enabled_event_lock r w) (\<lambda>w.
          Option.bind (sse_event_enable g sg sst dm me r w) (\<lambda>(ret, w).
            Some (ret, sse_event_put r (sse_enabled_event_unlock r w)))))"

definition sbi_sse_disable ::
  "'p sse_globals \<Rightarrow> nat \<Rightarrow> u32 \<Rightarrow> ('p, 'a) sse_system_scheme \<Rightarrow> (int \<times> ('p, 'a) sse_system_scheme) option" where
  "sbi_sse_disable sg me eid w =
     Option.bind (sse_event_get me eid w) (\<lambda>(got, w). case got of
        Inl ret \<Rightarrow> Some (ret, w)
      | Inr r \<Rightarrow>
          Option.bind (sse_enabled_event_lock r w) (\<lambda>w.
            case sse_event_disable sg me r w of (ret, w) \<Rightarrow>
              Some (ret, sse_event_put r (sse_enabled_event_unlock r w))))"

definition sbi_sse_hart_mask :: "nat \<Rightarrow> ('p, 'a) sse_system_scheme \<Rightarrow> int \<times> ('p, 'a) sse_system_scheme" where
  "sbi_sse_hart_mask me w =
     (case shs_ptr w me of
        None \<Rightarrow> (SBI_EFAIL, w)
      | Some state \<Rightarrow>
          if masked state then (SBI_EALREADY_STOPPED, w) else (SBI_SUCCESS, on_shs me (\<lambda>s. s\<lparr>masked := True\<rparr>) w))"

definition sbi_sse_hart_unmask :: "nat \<Rightarrow> ('p, 'a) sse_system_scheme \<Rightarrow> int \<times> ('p, 'a) sse_system_scheme" where
  "sbi_sse_hart_unmask me w =
     (case shs_ptr w me of
        None \<Rightarrow> (SBI_EFAIL, w)
      | Some state \<Rightarrow>
          if \<not> masked state then (SBI_EALREADY_STARTED, w) else (SBI_SUCCESS, on_shs me (\<lambda>s. s\<lparr>masked := False\<rparr>) w))"

definition sbi_sse_inject_from_ecall ::
  "(('p, 'a) sse_system_scheme, unit) ipi_globals \<Rightarrow> 'p sse_globals \<Rightarrow> scratch_state \<Rightarrow> sbi_domain option \<Rightarrow> nat \<Rightarrow> u32 \<Rightarrow> u64 \<Rightarrow>
   ('p, 'a) sse_system_scheme \<Rightarrow> (int \<times> ('p, 'a) sse_system_scheme) option" where
  "sbi_sse_inject_from_ecall g sg sst dm me eid hartid w =
     (if \<not> sbi_domain_is_assigned_hart dm (sbi_hartid_to_hartindex sst (ucast hartid)) then Some (SBI_EINVAL, w)
      else sse_inject_event g sg sst dm me eid hartid w)"

definition sbi_sse_inject_event ::
  "(('p, 'a) sse_system_scheme, unit) ipi_globals \<Rightarrow> 'p sse_globals \<Rightarrow> scratch_state \<Rightarrow> sbi_domain option \<Rightarrow> nat \<Rightarrow> u32 \<Rightarrow>
   ('p, 'a) sse_system_scheme \<Rightarrow> (int \<times> ('p, 'a) sse_system_scheme) option" where
  "sbi_sse_inject_event g sg sst dm me eid w = sse_inject_event g sg sst dm me eid (current_hartid sst me) w"

text \<open>\<open>info\<close> is the address the allocator returned.\<close>

definition sbi_sse_add_event ::
  "nat option \<Rightarrow> u32 \<Rightarrow> 'p sbi_sse_cb_ops option \<Rightarrow> 'p sse_globals \<Rightarrow> int \<times> 'p sse_globals" where
  "sbi_sse_add_event info eid cb_ops sg =
     (if sse_event_info_get sg eid \<noteq> None then (SBI_EINVAL, sg)
      else if Option.bind cb_ops set_hartid_cb \<noteq> None \<and> \<not> EVENT_IS_GLOBAL eid then (SBI_EINVAL, sg)
      else case info of
        None \<Rightarrow> (SBI_ENOMEM, sg)
      | Some p \<Rightarrow>
          (SBI_OK, sg\<lparr>sse_infos := (sse_infos sg)(p := \<lparr>inf_event_id = eid, inf_cb_ops = cb_ops\<rparr>),
             supported_events := p # supported_events sg\<rparr>))"


section \<open>Attributes\<close>

text \<open>The check of the arguments; \<open>None\<close> when the range check of the domain runs out of \<open>fuel\<close>.\<close>

definition sbi_sse_attr_check ::
  "nat \<Rightarrow> sbi_domain option \<Rightarrow> u32 \<Rightarrow> u32 \<Rightarrow> u64 \<Rightarrow> u64 \<Rightarrow> u64 \<Rightarrow> int option" where
  "sbi_sse_attr_check fuel dm base_attr_id attr_count phys_lo phys_hi access =
     (let align = 8 :: u64; end_id = ucast base_attr_id + ucast (attr_count - 1) :: u64 in
      if attr_count = 0 then Some SBI_EINVAL
      else if SBI_SSE_ATTR_MAX \<le> end_id then Some SBI_EBAD_RANGE
      else if phys_lo AND (align - 1) \<noteq> 0 then Some SBI_EINVALID_ADDR
      else if phys_hi \<noteq> 0 then Some SBI_EINVALID_ADDR
      else map_option (\<lambda>ok. if \<not> ok then SBI_EINVALID_ADDR else SBI_OK)
             (sbi_domain_check_addr_range fuel dm phys_lo (8 * ucast attr_count) PRV_S access))"

text \<open>The attributes as the array of longs the structure is.\<close>

definition attr_longs :: "sbi_sse_event_attrs \<Rightarrow> u64 list" where
  "attr_longs a = [at_status a, at_prio a, at_config a, at_hartid a, en_pc (at_entry a), en_arg (at_entry a),
     i_sepc (at_interrupted a), i_flags (at_interrupted a), i_a6 (at_interrupted a), i_a7 (at_interrupted a)]"

definition copy_attrs :: "u64 \<Rightarrow> u64 list \<Rightarrow> nat \<Rightarrow> (u64 \<Rightarrow> u64) \<Rightarrow> u64 \<Rightarrow> u64" where
  "copy_attrs out inp long_count m = fold (\<lambda>i m. m(out + 8 * of_nat i := inp ! i)) [0..<long_count] m"

definition sbi_sse_read_attrs ::
  "nat \<Rightarrow> sbi_domain option \<Rightarrow> nat \<Rightarrow> u32 \<Rightarrow> u32 \<Rightarrow> u32 \<Rightarrow> u64 \<Rightarrow> u64 \<Rightarrow> ('p, 'a) sse_system_scheme \<Rightarrow>
   (int \<times> ('p, 'a) sse_system_scheme) option" where
  "sbi_sse_read_attrs fuel dm me eid base_attr_id attr_count output_phys_lo output_phys_hi w =
     Option.bind (sbi_sse_attr_check fuel dm base_attr_id attr_count output_phys_lo output_phys_hi SBI_DOMAIN_WRITE) (\<lambda>ret.
       if ret \<noteq> 0 then Some (ret, w)
       else Option.bind (sse_event_get me eid w) (\<lambda>(got, w). case got of
          Inl ret \<Rightarrow> Some (ret, w)
        | Inr r \<Rightarrow>
            let e_attrs = attr_longs (attrs (ev_at r w));
                w = w\<lparr>smem := copy_attrs output_phys_lo (drop (unat base_attr_id) e_attrs) (unat attr_count) (smem w)\<rparr>
            in Some (SBI_OK, sse_event_put r w)))"

text \<open>The two loops of \<open>sse_write_attrs\<close> over the ids and values that are left.\<close>

fun check_attrs ::
  "scratch_state \<Rightarrow> sbi_domain option \<Rightarrow> nat \<Rightarrow> sbi_sse_event \<Rightarrow> (u32 \<times> u64) list \<Rightarrow> ('p, 'a) sse_system_scheme \<Rightarrow> int" where
  "check_attrs sst dm me e [] w = 0"
| "check_attrs sst dm me e ((attr_id, val) # avs) w =
     (let ret = sse_event_set_attr_check sst dm me e attr_id val w in if ret \<noteq> 0 then ret else check_attrs sst dm me e avs w)"

fun set_attrs ::
  "scratch_state \<Rightarrow> 'p sse_globals \<Rightarrow> nat \<Rightarrow> sse_ref \<Rightarrow> (u32 \<times> u64) list \<Rightarrow> ('p, 'a) sse_system_scheme \<Rightarrow> ('p, 'a) sse_system_scheme" where
  "set_attrs sst sg me r [] w = w"
| "set_attrs sst sg me r ((attr_id, val) # avs) w = set_attrs sst sg me r avs (sse_event_set_attr sst sg me r attr_id val w)"

text \<open>The pairs of an attribute id and the long for it in memory.\<close>

definition attr_values :: "u32 \<Rightarrow> u32 \<Rightarrow> u64 \<Rightarrow> (u64 \<Rightarrow> u64) \<Rightarrow> (u32 \<times> u64) list" where
  "attr_values base_attr_id attr_count input_phys m =
     map (\<lambda>i. (base_attr_id + of_nat i, m (input_phys + 8 * of_nat i))) [0..<unat attr_count]"

definition sse_write_attrs ::
  "scratch_state \<Rightarrow> 'p sse_globals \<Rightarrow> sbi_domain option \<Rightarrow> nat \<Rightarrow> sse_ref \<Rightarrow> u32 \<Rightarrow> u32 \<Rightarrow> u64 \<Rightarrow> ('p, 'a) sse_system_scheme \<Rightarrow>
   int \<times> ('p, 'a) sse_system_scheme" where
  "sse_write_attrs sst sg dm me r base_attr_id attr_count input_phys w =
     (let avs = attr_values base_attr_id attr_count input_phys (smem w);
          ret = check_attrs sst dm me (ev_at r w) avs w
      in if ret \<noteq> 0 then (ret, w) else (ret, set_attrs sst sg me r avs w))"

definition sbi_sse_write_attrs ::
  "nat \<Rightarrow> scratch_state \<Rightarrow> 'p sse_globals \<Rightarrow> sbi_domain option \<Rightarrow> nat \<Rightarrow> u32 \<Rightarrow> u32 \<Rightarrow> u32 \<Rightarrow> u64 \<Rightarrow> u64 \<Rightarrow>
   ('p, 'a) sse_system_scheme \<Rightarrow> (int \<times> ('p, 'a) sse_system_scheme) option" where
  "sbi_sse_write_attrs fuel sst sg dm me eid base_attr_id attr_count input_phys_lo input_phys_hi w =
     Option.bind (sbi_sse_attr_check fuel dm base_attr_id attr_count input_phys_lo input_phys_hi SBI_DOMAIN_READ) (\<lambda>ret.
       if ret \<noteq> 0 then Some (ret, w)
       else Option.bind (sse_event_get me eid w) (\<lambda>(got, w). case got of
          Inl ret \<Rightarrow> Some (ret, w)
        | Inr r \<Rightarrow>
            (case sse_write_attrs sst sg dm me r base_attr_id attr_count input_phys_lo w of
               (ret, w) \<Rightarrow> Some (ret, sse_event_put r w))))"

definition sbi_sse_register ::
  "nat \<Rightarrow> 'p sse_globals \<Rightarrow> sbi_domain option \<Rightarrow> nat \<Rightarrow> u32 \<Rightarrow> u64 \<Rightarrow> u64 \<Rightarrow> ('p, 'a) sse_system_scheme \<Rightarrow>
   (int \<times> ('p, 'a) sse_system_scheme) option" where
  "sbi_sse_register fuel sg dm me eid handler_entry_pc handler_entry_arg w =
     (if handler_entry_pc AND 1 \<noteq> 0 then Some (SBI_EINVAL, w)
      else Option.bind (sbi_domain_check_addr_range fuel dm handler_entry_pc 8 PRV_S SBI_DOMAIN_EXECUTE) (\<lambda>ok.
        if \<not> ok then Some (SBI_EINVALID_ADDR, w)
        else Option.bind (sse_event_get me eid w) (\<lambda>(got, w). case got of
           Inl ret \<Rightarrow> Some (ret, w)
         | Inr r \<Rightarrow>
             (case sse_event_register sg me r handler_entry_pc handler_entry_arg w of
                (ret, w) \<Rightarrow> Some (ret, sse_event_put r w)))))"

definition sbi_sse_unregister ::
  "'p sse_globals \<Rightarrow> nat \<Rightarrow> u32 \<Rightarrow> ('p, 'a) sse_system_scheme \<Rightarrow> (int \<times> ('p, 'a) sse_system_scheme) option" where
  "sbi_sse_unregister sg me eid w =
     Option.bind (sse_event_get me eid w) (\<lambda>(got, w). case got of
        Inl ret \<Rightarrow> Some (ret, w)
      | Inr r \<Rightarrow> (case sse_event_unregister sg me r w of (ret, w) \<Rightarrow> Some (ret, sse_event_put r w)))"

section \<open>The call from the supervisor\<close>

text \<open>\<open>sbi_ecall_sse_handler\<close>: return code, whether the frame is final, frame and state.\<close>

definition sbi_ecall_sse_handler ::
  "nat \<Rightarrow> (('p, 'a) sse_system_scheme, unit) ipi_globals \<Rightarrow> 'p sse_globals \<Rightarrow> scratch_state \<Rightarrow> sbi_domain option \<Rightarrow> nat \<Rightarrow> u64 \<Rightarrow>
   sbi_trap_regs \<times> ('p, 'a) sse_system_scheme \<Rightarrow> (int \<times> bool \<times> sbi_trap_regs \<times> ('p, 'a) sse_system_scheme) option" where
  "sbi_ecall_sse_handler fuel g sg sst dm me funcid s =
     (case s of (regs, w) \<Rightarrow>
        let eid = ucast (a0 regs) :: u32; plain = map_option (\<lambda>(ret, w). (ret, False, regs, w)) in
        if funcid = 0 then plain (sbi_sse_read_attrs fuel dm me eid (ucast (a1 regs)) (ucast (a2 regs)) (a3 regs) (a4 regs) w)
        else if funcid = 1 then plain (sbi_sse_write_attrs fuel sst sg dm me eid (ucast (a1 regs)) (ucast (a2 regs)) (a3 regs) (a4 regs) w)
        else if funcid = 2 then plain (sbi_sse_register fuel sg dm me eid (a1 regs) (a2 regs) w)
        else if funcid = 3 then plain (sbi_sse_unregister sg me eid w)
        else if funcid = 4 then plain (sbi_sse_enable g sg sst dm me eid w)
        else if funcid = 5 then plain (sbi_sse_disable sg me eid w)
        else if funcid = 6 then sbi_sse_complete sst sg me (regs, w)
        else if funcid = 7 then plain (sbi_sse_inject_from_ecall g sg sst dm me eid (a1 regs) w)
        else if funcid = 9 then plain (Some (sbi_sse_hart_mask me w))
        else if funcid = 8 then plain (Some (sbi_sse_hart_unmask me w))
        else plain (Some (SBI_ENOTSUPP, w)))"

section \<open>Initialisation and exit\<close>

definition sse_event_init :: "scratch_state \<Rightarrow> 'p sse_globals \<Rightarrow> nat \<Rightarrow> nat \<Rightarrow> sbi_sse_event \<Rightarrow> sbi_sse_event" where
  "sse_event_init sst sg me p e =
     e\<lparr>event_id := inf_event_id (sse_infos sg p), ev_info := p, hartindex := me,
       attrs := (attrs e)\<lparr>at_hartid := current_hartid sst me,
         at_status := at_status (attrs e) OR BIT SBI_SSE_ATTR_STATUS_INJECT_OFFSET\<rparr>\<rparr>"

text \<open>Memory from \<open>sbi_zalloc\<close>.\<close>

definition zero_event :: sbi_sse_event where
  "zero_event = \<lparr>attrs = \<lparr>at_status = 0, at_prio = 0, at_config = 0, at_hartid = 0, at_entry = \<lparr>en_pc = 0, en_arg = 0\<rparr>,
     at_interrupted = \<lparr>i_sepc = 0, i_flags = 0, i_a6 = 0, i_a7 = 0\<rparr>\<rparr>, event_id = 0, hartindex = 0, ev_info = 0\<rparr>"

definition global_infos :: "'p sse_globals \<Rightarrow> nat list" where
  "global_infos sg = filter (\<lambda>p. EVENT_IS_GLOBAL (inf_event_id (sse_infos sg p))) (supported_events sg)"

definition local_infos :: "'p sse_globals \<Rightarrow> nat list" where
  "local_infos sg = filter (\<lambda>p. \<not> EVENT_IS_GLOBAL (inf_event_id (sse_infos sg p))) (supported_events sg)"

definition sse_event_count_init :: "'p sse_globals \<Rightarrow> ('p, 'a) sse_system_scheme \<Rightarrow> ('p, 'a) sse_system_scheme" where
  "sse_event_count_init sg w =
     w\<lparr>global_event_count := global_event_count w + length (global_infos sg),
       local_event_count := local_event_count w + length (local_infos sg)\<rparr>"

definition sse_global_init ::
  "scratch_state \<Rightarrow> 'p sse_globals \<Rightarrow> bool \<Rightarrow> nat \<Rightarrow> ('p, 'a) sse_system_scheme \<Rightarrow> int \<times> ('p, 'a) sse_system_scheme" where
  "sse_global_init sst sg alloc_ok me w =
     (if \<not> alloc_ok then (SBI_ENOMEM, w\<lparr>global_events := []\<rparr>)
      else (0, w\<lparr>global_events := map (\<lambda>p. \<lparr>ge_event = sse_event_init sst sg me p zero_event, ge_lock = False\<rparr>) (global_infos sg)\<rparr>))"

definition sse_local_init :: "scratch_state \<Rightarrow> 'p sse_globals \<Rightarrow> nat \<Rightarrow> sse_hart_state \<Rightarrow> sse_hart_state" where
  "sse_local_init sst sg me shs =
     shs\<lparr>enabled_event_list := [], enabled_event_lock := False,
       local_events := map (\<lambda>(p, e). sse_event_init sst sg me p e) (zip (local_infos sg) (local_events shs))\<rparr>"

text \<open>The cold boot part: events, offsets in the scratch space, and the inter-processor interrupt.\<close>

definition sse_init_cold ::
  "bool \<Rightarrow> nat \<Rightarrow> 'p sse_globals \<times> (('p, 'a) sse_system_scheme, 'd) ipi_globals \<times> scratch_state \<times> ('p, 'a) sse_system_scheme \<Rightarrow>
   int \<times> 'p sse_globals \<times> (('p, 'a) sse_system_scheme, 'd) ipi_globals \<times> scratch_state \<times> ('p, 'a) sse_system_scheme" where
  "sse_init_cold alloc_ok me s =
     (case s of (sg, g, sst, w) \<Rightarrow>
        let w = sse_event_count_init sg w in
        case sse_global_init sst sg alloc_ok me w of (ret, w) \<Rightarrow>
        if ret \<noteq> 0 then (ret, sg, g, sst, w)
        else case sbi_scratch_alloc_offset 8 sst of (o1, sst) \<Rightarrow>
        let sg = sg\<lparr>shs_ptr_off := o1\<rparr> in
        if o1 = 0 then (SBI_ENOMEM, sg, g, sst, w)
        else case sbi_scratch_alloc_offset 24 sst of (o2, sst) \<Rightarrow>
        let sg = sg\<lparr>sse_inject_fifo_off := o2\<rparr> in
        if o2 = 0 then (SBI_ENOMEM, sg, g, sbi_scratch_free_offset o1 sst, w)
        else case sbi_scratch_alloc_offset (of_nat (global_event_count w + local_event_count w) * 4) sst of (o3, sst) \<Rightarrow>
        let sg = sg\<lparr>sse_inject_fifo_mem_off := o3\<rparr> in
        if o3 = 0 then (SBI_ENOMEM, sg, g, sbi_scratch_free_offset o1 (sbi_scratch_free_offset o2 sst), w)
        else case sbi_ipi_event_create (Some sse_ipi_inject_ops) g of (ret, g) \<Rightarrow>
        if ret < 0 then (ret, sg, g, sbi_scratch_free_offset o1 sst, w)
        else (0, sg\<lparr>sse_ipi_inject_event := of_int ret\<rparr>, g, sst, w))"

definition sse_init_hart ::
  "scratch_state \<Rightarrow> 'p sse_globals \<Rightarrow> bool \<Rightarrow> nat \<Rightarrow> ('p, 'a) sse_system_scheme \<Rightarrow> int \<times> ('p, 'a) sse_system_scheme" where
  "sse_init_hart sst sg alloc_ok me w =
     (case (case shs_ptr w me of
              Some shs \<Rightarrow> Some shs
            | None \<Rightarrow> if \<not> alloc_ok then None
                else Some \<lparr>enabled_event_list = [], enabled_event_lock = False,
                  local_events = replicate (local_event_count w) zero_event, masked = True\<rparr>) of
        None \<Rightarrow> (SBI_ENOMEM, w)
      | Some shs \<Rightarrow>
          (0, w\<lparr>shs_ptr := (shs_ptr w)(me := Some (sse_local_init sst sg me shs)), inject_fifo := (inject_fifo w)(me := []),
             inject_fifo_cap := (inject_fifo_cap w)(me := unat (of_nat (global_event_count w + local_event_count w) :: u16))\<rparr>))"

definition sbi_sse_init ::
  "bool \<Rightarrow> bool \<Rightarrow> nat \<Rightarrow> bool \<Rightarrow> 'p sse_globals \<times> (('p, 'a) sse_system_scheme, 'd) ipi_globals \<times> scratch_state \<times> ('p, 'a) sse_system_scheme \<Rightarrow>
   int \<times> 'p sse_globals \<times> (('p, 'a) sse_system_scheme, 'd) ipi_globals \<times> scratch_state \<times> ('p, 'a) sse_system_scheme" where
  "sbi_sse_init galloc_ok alloc_ok me cold_boot s =
     (case (if cold_boot then sse_init_cold galloc_ok me s else (0, s)) of
        (ret, sg, g, sst, w) \<Rightarrow>
          if ret \<noteq> 0 then (ret, sg, g, sst, w)
          else case sse_init_hart sst sg alloc_ok me w of (ret, w) \<Rightarrow> (ret, sg, g, sst, w))"

fun sse_exit_loop :: "scratch_state \<Rightarrow> nat \<Rightarrow> u32 list \<Rightarrow> ('p, 'a) sse_system_scheme \<Rightarrow> ('p, 'a) sse_system_scheme option" where
  "sse_exit_loop sst me [] w = Some w"
| "sse_exit_loop sst me (eid # eids) w =
     Option.bind (sse_event_get me eid w) (\<lambda>(got, w). case got of
        Inl ret \<Rightarrow> sse_exit_loop sst me eids w
      | Inr r \<Rightarrow>
          let e = ev_at r w;
              w = (if at_hartid (attrs e) \<noteq> current_hartid sst me then w
                   else if SBI_SSE_STATE_REGISTERED < sse_event_state e then on_ev r (sse_event_set_state SBI_SSE_STATE_UNUSED) w
                   else w)
          in sse_exit_loop sst me eids (sse_event_put r w))"

definition sbi_sse_exit ::
  "scratch_state \<Rightarrow> 'p sse_globals \<Rightarrow> nat \<Rightarrow> ('p, 'a) sse_system_scheme \<Rightarrow> ('p, 'a) sse_system_scheme option" where
  "sbi_sse_exit sst sg me w =
     sse_exit_loop sst me (map (\<lambda>p. inf_event_id (sse_infos sg p)) (supported_events sg)) w"

end
