(* ===== verification/SbiSseSwitch.thy ===== *)
theory SbiSseSwitch
  imports SbiSse
begin

text \<open>
  The context switches of supervisor software events: what \<open>sse_event_inject\<close> saves and writes, what \<open>sse_event_resume\<close>
  restores, and that an event handler that keeps the registers it has to keep returns
  to the interrupted context.
\<close>

unbundle bit_operations_syntax

section \<open>Status words\<close>

lemma bit_state_mask: "bit SBI_SSE_ATTR_STATUS_STATE_MASK n \<longleftrightarrow> n < 2"
proof -
  have m: "SBI_SSE_ATTR_STATUS_STATE_MASK = Bit_Operations.mask 2"
    by (simp add: SBI_SSE_ATTR_STATUS_STATE_MASK_def mask_eq_exp_minus_1)
  show ?thesis unfolding m bit_mask_iff by auto
qed

lemma state_bits_small:
  assumes "new_state \<in> {SBI_SSE_STATE_UNUSED, SBI_SSE_STATE_REGISTERED, SBI_SSE_STATE_ENABLED, SBI_SSE_STATE_RUNNING}"
  shows "new_state AND SBI_SSE_ATTR_STATUS_STATE_MASK = new_state"
  using assms by (auto simp: sse_states SBI_SSE_ATTR_STATUS_STATE_MASK_def)

lemma set_status_status [simp]: "at_status (attrs (set_status st e)) = st"
  by (simp add: set_status_def)

lemma state_set_state [simp]:
  assumes "new_state \<in> {SBI_SSE_STATE_UNUSED, SBI_SSE_STATE_REGISTERED, SBI_SSE_STATE_ENABLED, SBI_SSE_STATE_RUNNING}"
  shows "sse_event_state (sse_event_set_state new_state e) = new_state"
proof -
  have "(x AND NOT SBI_SSE_ATTR_STATUS_STATE_MASK OR new_state) AND SBI_SSE_ATTR_STATUS_STATE_MASK =
      new_state AND SBI_SSE_ATTR_STATUS_STATE_MASK" for x
    by (rule bit_word_eqI) (auto simp: bit_simps)
  then show ?thesis
    using state_bits_small [OF assms] by (simp add: sse_event_state_def sse_event_set_state_def)
qed

lemma bit_BIT_small: "k < 64 \<Longrightarrow> bit (BIT k) n \<longleftrightarrow> n = k"
  by (auto simp: BIT_def bit_simps)

lemma pending_bit: "sse_event_pending e \<longleftrightarrow> bit (at_status (attrs e)) 2"
  unfolding sse_event_pending_def SBI_SSE_ATTR_STATUS_PENDING_OFFSET_def
  by (rule and_single_bit) (simp add: bit_BIT_small)

lemma pending_set_state [simp]:
  assumes "new_state \<in> {SBI_SSE_STATE_UNUSED, SBI_SSE_STATE_REGISTERED, SBI_SSE_STATE_ENABLED, SBI_SSE_STATE_RUNNING}"
  shows "sse_event_pending (sse_event_set_state new_state e) = sse_event_pending e"
proof -
  have "\<not> bit (new_state AND SBI_SSE_ATTR_STATUS_STATE_MASK) 2" by (simp add: bit_and_iff bit_state_mask)
  then have "\<not> bit new_state 2" by (simp add: state_bits_small [OF assms])
  then show ?thesis
    by (simp add: pending_bit sse_event_set_state_def bit_or_iff bit_and_iff bit_not_iff bit_state_mask)
qed

text \<open>The status after an injection: running, not pending, and every other bit set.\<close>

definition running_status :: u64 where
  "running_status = NOT (BIT SBI_SSE_ATTR_STATUS_PENDING_OFFSET)"

lemma running_status_state: "running_status AND SBI_SSE_ATTR_STATUS_STATE_MASK = SBI_SSE_STATE_RUNNING"
  by (simp add: running_status_def BIT_def SBI_SSE_ATTR_STATUS_PENDING_OFFSET_def SBI_SSE_ATTR_STATUS_STATE_MASK_def sse_states)

section \<open>Injection\<close>

lemma flag_tests [simp]:
  "w AND FLAGS_STATUS_SPP \<noteq> 0 \<longleftrightarrow> bit w 0" "w AND FLAGS_STATUS_SPIE \<noteq> 0 \<longleftrightarrow> bit w 1"
  "w AND FLAGS_HSTATUS_SPV \<noteq> 0 \<longleftrightarrow> bit w 2" "w AND FLAGS_HSTATUS_SPVP \<noteq> 0 \<longleftrightarrow> bit w 3"
  by (rule and_single_bit; simp add: FLAGS_STATUS_SPP_def FLAGS_STATUS_SPIE_def FLAGS_HSTATUS_SPV_def FLAGS_HSTATUS_SPVP_def bit_BIT_small)+

lemma bit_flags [simp]:
  "bit FLAGS_STATUS_SPP n \<longleftrightarrow> n = 0" "bit FLAGS_STATUS_SPIE n \<longleftrightarrow> n = 1"
  "bit FLAGS_HSTATUS_SPV n \<longleftrightarrow> n = 2" "bit FLAGS_HSTATUS_SPVP n \<longleftrightarrow> n = 3"
  by (simp_all add: FLAGS_STATUS_SPP_def FLAGS_STATUS_SPIE_def FLAGS_HSTATUS_SPV_def FLAGS_HSTATUS_SPVP_def bit_BIT_small)

lemma interrupted_flags_bits:
  "bit (sse_interrupted_flags c ms) n \<longleftrightarrow>
     n = 0 \<and> bit ms 8 \<or> n = 1 \<and> bit ms 5 \<or> has_h c \<and> (n = 2 \<and> bit (csr_hstatus c) 7 \<or> n = 3 \<and> bit (csr_hstatus c) 8)"
  by (auto simp: sse_interrupted_flags_def Let_def bit_or_iff)

lemma bit_prv_s: "bit (push_bit MSTATUS_MPP_SHIFT PRV_S :: u64) n \<longleftrightarrow> n = 11"
  by (auto simp only: MSTATUS_MPP_SHIFT_def PRV_S_def bit_push_bit_iff bit_1_iff) auto

lemma mpp_test: "w AND MSTATUS_MPP \<noteq> 0 \<longleftrightarrow> bit w 11 \<or> bit (w :: u64) 12"
proof
  show "w AND MSTATUS_MPP \<noteq> 0 \<Longrightarrow> bit w 11 \<or> bit w 12"
    by (rule ccontr, erule notE, rule bit_word_eqI) (auto simp: bit_and_iff)
  show "bit w 11 \<or> bit w 12 \<Longrightarrow> w AND MSTATUS_MPP \<noteq> 0"
    using bit_and_iff [of w MSTATUS_MPP 11] bit_and_iff [of w MSTATUS_MPP 12] by auto
qed

lemma bit_and_not: "bit (x AND NOT y) n \<longleftrightarrow> bit (x :: u64) n \<and> \<not> bit y n"
  using bit_imp_le_length [of x n] by (auto simp: bit_and_iff bit_not_iff)

lemma bit_if: "bit (if b then x else y) n \<longleftrightarrow> (if b then bit x n else bit y n)"
  by simp

lemmas word_bits = bit_or_iff bit_and_not bit_put_bit bit_prv_s bit_if

lemma inject_event:
  assumes "sse_event_inject hartid (e, r, c) = (e', r', c')"
  shows "e' = on_interrupted (\<lambda>i. \<lparr>i_sepc = csr_sepc c, i_flags = sse_interrupted_flags c (mstatus r), i_a6 = a6 r, i_a7 = a7 r\<rparr>)
    (set_status running_status e)"
  using assms by (auto simp: sse_event_inject_def Let_def running_status_def set_status_def sse_event_set_state_def)

lemma inject_regs:
  assumes "sse_event_inject hartid (e, r, c) = (e', r', c')"
  shows "r' = r\<lparr>a6 := hartid, a7 := en_arg (at_entry (attrs e)), mepc := en_pc (at_entry (attrs e)), mstatus := mstatus r'\<rparr>"
    and "c' = c\<lparr>csr_sepc := mepc r, csr_hstatus := csr_hstatus c'\<rparr>"
  using assms by (auto simp: sse_event_inject_def Let_def set_status_def sse_event_set_state_def on_interrupted_def on_attrs_def)

lemma inject_fields:
  assumes "sse_event_inject hartid (e, r, c) = (e', r', c')"
  shows "csr_sepc c' = mepc r" "has_h c' = has_h c" "mepc r' = en_pc (at_entry (attrs e))" "a7 r' = en_arg (at_entry (attrs e))"
  using arg_cong [OF inject_regs(2) [OF assms], of csr_sepc] arg_cong [OF inject_regs(2) [OF assms], of has_h]
    arg_cong [OF inject_regs(1) [OF assms], of mepc] arg_cong [OF inject_regs(1) [OF assms], of a7]
  by simp_all

lemma inject_mstatus:
  assumes "sse_event_inject hartid (e, r, c) = (e', r', c')"
  shows "bit (mstatus r') n \<longleftrightarrow>
    (if n = 1 \<or> n = 12 \<or> n = 39 then False else if n = 11 then True
     else if n = 5 then bit (mstatus r) 1 else if n = 8 then bit (mstatus r) 11 \<or> bit (mstatus r) 12 else bit (mstatus r) n)"
proof -
  define m where "m = mstatus r AND NOT (MSTATUS_SPP OR MSTATUS_SPIE)"
  have m: "bit m n \<longleftrightarrow> bit (mstatus r) n \<and> n \<noteq> 8 \<and> n \<noteq> 5" for n
    by (simp only: m_def bit_and_not bit_or_iff bit_status_masks) blast
  define k where "k = (if m AND MSTATUS_MPP \<noteq> 0 then m OR MSTATUS_SPP else m)"
  define l where "l = (if k AND MSTATUS_SIE \<noteq> 0 then k OR MSTATUS_SPIE else k)"
  have "mstatus r' = (l AND NOT (MSTATUS_MPP OR MSTATUS_SIE) OR push_bit MSTATUS_MPP_SHIFT PRV_S) AND NOT MSTATUS_MPV"
    using assms unfolding sse_event_inject_def Let_def prod.case m_def k_def l_def by auto
  moreover have "bit l n \<longleftrightarrow> (if n = 5 then bit (mstatus r) 1 else if n = 8 then bit (mstatus r) 11 \<or> bit (mstatus r) 12 else bit (mstatus r) n)" for n
    by (simp add: l_def k_def m word_bits mpp_test)
  moreover have "bit (l AND NOT (MSTATUS_MPP OR MSTATUS_SIE)) n \<longleftrightarrow> bit l n \<and> n \<noteq> 1 \<and> n \<noteq> 11 \<and> n \<noteq> 12" for n
    by (simp only: bit_and_not bit_or_iff bit_status_masks) blast
  ultimately show ?thesis by (simp add: word_bits del: bit.conj_disj_distribs bit.de_Morgan_disj)
qed

lemma inject_hstatus:
  assumes "sse_event_inject hartid (e, r, c) = (e', r', c')"
  shows "bit (csr_hstatus c') n \<longleftrightarrow>
    (if has_h c \<and> n = 7 then bit (csr_hstatus c) 7 \<or> bit (mstatus r) 39
     else if has_h c \<and> n = 8 then (bit (csr_hstatus c) 7 \<or> bit (mstatus r) 39) \<and> (bit (mstatus r) 11 \<or> bit (mstatus r) 12)
     else bit (csr_hstatus c) n)"
proof -
  define m where "m = mstatus r AND NOT (MSTATUS_SPP OR MSTATUS_SPIE)"
  have m: "bit m n \<longleftrightarrow> bit (mstatus r) n \<and> n \<noteq> 8 \<and> n \<noteq> 5" for n
    by (simp only: m_def bit_and_not bit_or_iff bit_status_masks) blast
  define k where "k = (if m AND MSTATUS_MPP \<noteq> 0 then m OR MSTATUS_SPP else m)"
  define l where "l = (if k AND MSTATUS_SIE \<noteq> 0 then k OR MSTATUS_SPIE else k)"
  define h where "h = (if l AND MSTATUS_MPV \<noteq> 0 then csr_hstatus c OR HSTATUS_SPV else csr_hstatus c)"
  define h' where "h' = h AND NOT HSTATUS_SPVP"
  have "csr_hstatus c' = (if has_h c then if h' AND HSTATUS_SPV \<noteq> 0 \<and> l AND MSTATUS_SPP \<noteq> 0 then h' OR HSTATUS_SPVP else h' else csr_hstatus c)"
    using arg_cong [OF assms, of "\<lambda>s. csr_hstatus (snd (snd s))"]
    unfolding sse_event_inject_def Let_def prod.case m_def k_def l_def h'_def h_def
    by (simp split del: if_split add: if_distrib [of csr_hstatus] cong: if_cong)
  moreover have "bit l n \<longleftrightarrow> (if n = 5 then bit (mstatus r) 1 else if n = 8 then bit (mstatus r) 11 \<or> bit (mstatus r) 12 else bit (mstatus r) n)" for n
    by (simp add: l_def k_def m word_bits mpp_test)
  ultimately show ?thesis by (simp add: h'_def h_def word_bits)
qed

section \<open>Resumption\<close>

lemma resume_regs:
  assumes "sse_event_resume i (r, c) = (r', c')"
  shows "r' = r\<lparr>mepc := csr_sepc c, a6 := i_a6 i, a7 := i_a7 i, mstatus := mstatus r'\<rparr>"
    and "c' = c\<lparr>csr_sepc := i_sepc i, csr_hstatus := csr_hstatus c'\<rparr>"
  using assms by (auto simp: sse_event_resume_def Let_def)

lemma resume_fields:
  assumes "sse_event_resume i (r, c) = (r', c')"
  shows "mepc r' = csr_sepc c" "a6 r' = i_a6 i" "a7 r' = i_a7 i"
  using arg_cong [OF resume_regs(1) [OF assms], of mepc] arg_cong [OF resume_regs(1) [OF assms], of a6]
    arg_cong [OF resume_regs(1) [OF assms], of a7]
  by simp_all

lemma resume_mstatus:
  assumes "sse_event_resume i (r, c) = (r', c')"
  shows "bit (mstatus r') n \<longleftrightarrow>
    (if n = 1 then bit (mstatus r) 5 else if n = 5 then bit (i_flags i) 1 else if n = 8 then bit (i_flags i) 0
     else if n = 11 then bit (mstatus r) 8 else if n = 12 then False
     else if n = 39 \<and> has_h c then bit (csr_hstatus c) 7 else bit (mstatus r) n)"
proof -
  define m where "m = mstatus r AND NOT MSTATUS_MPP"
  define k where "k = (if m AND MSTATUS_SPP \<noteq> 0 then m OR push_bit MSTATUS_MPP_SHIFT PRV_S else m)"
  define l where "l = (if has_h c then put_bit MSTATUS_MPV (csr_hstatus c AND HSTATUS_SPV \<noteq> 0) k else k)"
  have "mstatus r' = put_bit MSTATUS_SPP (i_flags i AND FLAGS_STATUS_SPP \<noteq> 0)
      (put_bit MSTATUS_SPIE (i_flags i AND FLAGS_STATUS_SPIE \<noteq> 0) (put_bit MSTATUS_SIE (l AND MSTATUS_SPIE \<noteq> 0) l))"
    using assms unfolding sse_event_resume_def Let_def prod.case m_def k_def l_def by auto
  then show ?thesis by (simp add: l_def k_def m_def word_bits)
qed

lemma resume_hstatus:
  assumes "sse_event_resume i (r, c) = (r', c')"
  shows "bit (csr_hstatus c') n \<longleftrightarrow>
    (if has_h c \<and> n = 7 then bit (i_flags i) 2 else if has_h c \<and> n = 8 then bit (i_flags i) 3 else bit (csr_hstatus c) n)"
proof -
  define h where "h = csr_hstatus c AND NOT (HSTATUS_SPV OR HSTATUS_SPVP)"
  have h: "bit h n \<longleftrightarrow> bit (csr_hstatus c) n \<and> n \<noteq> 7 \<and> n \<noteq> 8" for n
    by (simp only: h_def bit_and_not bit_or_iff bit_status_masks) blast
  define h' where "h' = (if i_flags i AND FLAGS_HSTATUS_SPV \<noteq> 0 then h OR HSTATUS_SPV else h)"
  have "csr_hstatus c' = (if has_h c then if i_flags i AND FLAGS_HSTATUS_SPVP \<noteq> 0 then h' OR HSTATUS_SPVP else h' else csr_hstatus c)"
    using assms unfolding sse_event_resume_def Let_def prod.case h'_def h_def by auto
  then show ?thesis by (simp add: h'_def h word_bits)
qed


section \<open>Properties\<close>

text \<open>
  What the handler of an event has to hand back when it completes: \<open>sepc\<close>, \<open>hstatus\<close> and the fields SPIE and SPP of the status
  it was entered with; everything else it may change.
\<close>

definition handler_keeps :: "sbi_trap_regs \<times> lower_csrs \<Rightarrow> sbi_trap_regs \<times> lower_csrs \<Rightarrow> bool" where
  "handler_keeps s t \<longleftrightarrow>
     csr_sepc (snd t) = csr_sepc (snd s) \<and> csr_hstatus (snd t) = csr_hstatus (snd s) \<and> has_h (snd t) = has_h (snd s) \<and>
     bit (mstatus (fst t)) 5 = bit (mstatus (fst s)) 5 \<and> bit (mstatus (fst t)) 8 = bit (mstatus (fst s)) 8 \<and>
     (\<not> has_h (snd s) \<longrightarrow> bit (mstatus (fst t)) 39 = bit (mstatus (fst s)) 39)"

text \<open>The fields of \<open>mstatus\<close> that are part of the interrupted context: SIE, SPIE, SPP, MPP and MPV.\<close>

definition context_fields :: "nat set" where
  "context_fields = {1, 5, 8, 11, 12, 39}"

text \<open>
  C22: injecting an event and completing it returns to the interrupted context.  For an interruption of S or U mode, if the handler
  keeps what it has to, then after the completion \<open>mepc\<close>, \<open>a6\<close>, \<open>a7\<close>, \<open>sepc\<close>, \<open>hstatus\<close> and the
  interrupt, privilege and virtualisation fields of \<open>mstatus\<close> are those at the interruption, and every other register and
  field is what the handler left.  The hypothesis on SPV excludes the one case in which this fails: the interrupted code is
  not a guest but had just been entered from one.
\<close>

theorem sse_inject_resume_roundtrip:
  assumes mode: "sbi_mstatus_prev_mode (mstatus r) \<in> {PRV_S, PRV_U}"
    and virt: "if has_h c then bit (csr_hstatus c) 7 \<longrightarrow> bit (mstatus r) 39 else \<not> bit (mstatus r) 39"
    and inject: "sse_event_inject hartid (e, r, c) = (e', r', c')"
    and handler: "handler_keeps (r', c') (rh, ch)"
    and resume: "sse_event_resume (at_interrupted (attrs e')) (rh, ch) = (r'', c'')"
  shows "r'' = rh\<lparr>mepc := mepc r, a6 := a6 r, a7 := a7 r, mstatus := mstatus r''\<rparr> \<and>
    (\<forall>n. bit (mstatus r'') n = bit (mstatus (if n \<in> context_fields then r else rh)) n) \<and>
    c'' = ch\<lparr>csr_sepc := csr_sepc c, csr_hstatus := csr_hstatus c\<rparr>"
proof -
  note i = inject_mstatus [OF inject] inject_hstatus [OF inject]
  have ctx: "at_interrupted (attrs e') = \<lparr>i_sepc = csr_sepc c, i_flags = sse_interrupted_flags c (mstatus r), i_a6 = a6 r, i_a7 = a7 r\<rparr>"
    by (simp add: inject_event [OF inject] on_interrupted_def on_attrs_def)
  note sepc = inject_fields(1,2) [OF inject]
  have m12: "\<not> bit (mstatus r) 12" using mode by (auto simp: prev_mode_cases)
  have k: "csr_sepc ch = mepc r" "csr_hstatus ch = csr_hstatus c'" "has_h ch = has_h c"
    "bit (mstatus rh) 5 = bit (mstatus r) 1" "bit (mstatus rh) 8 = bit (mstatus r) 11" "\<not> has_h c \<Longrightarrow> \<not> bit (mstatus rh) 39"
    using handler sepc m12 by (auto simp: handler_keeps_def i)
  have "bit (mstatus r'') n = bit (mstatus (if n \<in> context_fields then r else rh)) n" for n
    unfolding resume_mstatus [OF resume]
    using k virt m12 by (auto simp: context_fields_def ctx interrupted_flags_bits i)
  moreover have "csr_hstatus c'' = csr_hstatus c"
  proof (rule bit_word_eqI)
    fix n show "bit (csr_hstatus c'') n = bit (csr_hstatus c) n"
      unfolding resume_hstatus [OF resume] using k by (auto simp: ctx interrupted_flags_bits i)
  qed
  ultimately show ?thesis
    using resume_regs [OF resume] k(1) by (simp add: ctx)
qed

text \<open>
  When the event interrupts a hypervisor that was itself entered by a trap from its guest, so that SPV is set and MPV is not,
  the completion does not return to it: the program counter is the hypervisor's, and the frame has MPV set, so
  the hart continues at that address in the guest.  \<open>sse_event_inject\<close> sets SPV for an interrupted guest but does not clear it otherwise.
\<close>

lemma sse_resume_enters_guest:
  assumes "has_h c" "bit (csr_hstatus c) 7" "\<not> bit (mstatus r) 39"
    and inject: "sse_event_inject hartid (e, r, c) = (e', r', c')" and handler: "handler_keeps (r', c') (rh, ch)"
    and resume: "sse_event_resume (at_interrupted (attrs e')) (rh, ch) = (r'', c'')"
  shows "mepc r'' = mepc r \<and> sbi_regs_from_virt r'' \<and> \<not> sbi_regs_from_virt r"
proof -
  have k: "csr_sepc ch = mepc r" "csr_hstatus ch = csr_hstatus c'" "has_h ch"
    using handler assms(1) inject_fields(1,2) [OF inject] by (auto simp: handler_keeps_def)
  note resume_fields(1) [OF resume]
  moreover have "bit (mstatus r'') 39" using assms(1,2) k inject_hstatus [OF inject] by (simp add: resume_mstatus [OF resume])
  ultimately show ?thesis using k(1) assms(3) by (simp add: sbi_regs_from_virt_def)
qed

definition demo_event :: sbi_sse_event where
  "demo_event = zero_event\<lparr>attrs := (attrs zero_event)\<lparr>at_status := 0xe, at_entry := \<lparr>en_pc = 0x9000, en_arg = 5\<rparr>\<rparr>,
     event_id := SBI_SSE_EVENT_LOCAL_SOFTWARE\<rparr>"

lemma handler_keeps_refl: "handler_keeps s s"
  by (simp add: handler_keeps_def)

theorem sse_inject_resume_roundtrip_witness:
  "\<exists>e' r' c' r'' c''. sse_event_inject 0 (demo_event, demo_regs, demo_csrs) = (e', r', c') \<and> mepc r' = 0x9000 \<and> a7 r' = 5 \<and>
     sse_event_resume (at_interrupted (attrs e')) (r', c') = (r'', c'') \<and> mepc r'' = 0x80200000 \<and> a6 r'' = 6 \<and> a7 r'' = 7 \<and> bit (mstatus r'') 39"
proof -
  obtain e' r' c' where i: "sse_event_inject 0 (demo_event, demo_regs, demo_csrs) = (e', r', c')" by (metis prod_cases3)
  obtain r'' c'' where s: "sse_event_resume (at_interrupted (attrs e')) (r', c') = (r'', c'')" by fastforce
  have h: "has_h demo_csrs" "sbi_mstatus_prev_mode (mstatus demo_regs) \<in> {PRV_S, PRV_U}" "\<not> bit (csr_hstatus demo_csrs) 7"
    "bit (mstatus demo_regs) 39" by code_simp+
  note t = sse_inject_resume_roundtrip [OF h(2) _ i handler_keeps_refl s]
  have r'': "r'' = r'\<lparr>mepc := mepc demo_regs, a6 := a6 demo_regs, a7 := a7 demo_regs, mstatus := mstatus r''\<rparr>"
    and b: "bit (mstatus r'') 39 = bit (mstatus demo_regs) 39"
    using t h by (auto simp: context_fields_def)
  have "mepc r'' = mepc demo_regs" "a6 r'' = a6 demo_regs" "a7 r'' = a7 demo_regs"
    using arg_cong [OF r'', of mepc] arg_cong [OF r'', of a6] arg_cong [OF r'', of a7] by simp_all
  moreover note inject_fields(3,4) [OF i]
  ultimately show ?thesis using i s b h by (auto simp: demo_regs_def demo_event_def)
qed

end
