(* ===== verification/SbiSseInv.thy ===== *)
theory SbiSseInv
  imports SbiSseSwitch
begin

text \<open>
  The invariant of supervisor software events: the enabled list of a hart holds exactly the events of the hart that are
  enabled or running, in strict order of priority and event id, and the locks are free between
  two handlers.  It is stated over the events and lists alone, shown for each
  kind of change, and then for every handler.
\<close>

unbundle bit_operations_syntax

section \<open>Events and lists\<close>

text \<open>An event is on a list exactly when it is enabled or running.\<close>

definition on_list :: "sbi_sse_event \<Rightarrow> bool" where
  "on_list e \<longleftrightarrow> SBI_SSE_STATE_ENABLED \<le> sse_event_state e"

definition is_running :: "sbi_sse_event \<Rightarrow> bool" where
  "is_running e \<longleftrightarrow> sse_event_state e = SBI_SSE_STATE_RUNNING"

text \<open>
  The invariant for the events \<open>V\<close>, the initialised harts \<open>H\<close> with their ids \<open>hid\<close>, the contents \<open>ev\<close> of the
  events and the lists \<open>L\<close>.
\<close>

definition list_ok :: "sse_ref set \<Rightarrow> (sse_ref \<Rightarrow> sbi_sse_event) \<Rightarrow> nat \<Rightarrow> sse_ref list \<Rightarrow> bool" where
  "list_ok V ev h rs \<longleftrightarrow>
     set rs = {r \<in> V. hartindex (ev r) = h \<and> on_list (ev r)} \<and> distinct rs \<and>
     sorted_wrt (\<lambda>a b. sse_before (ev a) (ev b)) rs"

definition home_ok :: "(nat \<Rightarrow> u64) \<Rightarrow> sse_ref \<Rightarrow> sbi_sse_event \<Rightarrow> bool" where
  "home_ok hid r e \<longleftrightarrow>
     (case r of
        Local h i \<Rightarrow> hartindex e = h \<and> \<not> EVENT_IS_GLOBAL (event_id e) \<and> at_hartid (attrs e) = hid h
      | Global i \<Rightarrow> EVENT_IS_GLOBAL (event_id e))"

definition ids_ok :: "sse_ref set \<Rightarrow> (sse_ref \<Rightarrow> sbi_sse_event) \<Rightarrow> bool" where
  "ids_ok V ev \<longleftrightarrow>
     (\<forall>q \<in> V. \<forall>r \<in> V. q \<noteq> r \<longrightarrow> event_id (ev q) = event_id (ev r) \<longrightarrow> (\<exists>h i k j. q = Local h i \<and> r = Local k j \<and> h \<noteq> k))"

definition event_ok :: "(nat \<Rightarrow> u64) \<Rightarrow> nat set \<Rightarrow> sse_ref \<Rightarrow> sbi_sse_event \<Rightarrow> bool" where
  "event_ok hid H r e \<longleftrightarrow>
     hartindex e \<in> H \<and> home_ok hid r e \<and> (is_running e \<longrightarrow> at_hartid (attrs e) = hid (hartindex e))"

definition events_ok ::
  "(nat \<Rightarrow> u64) \<Rightarrow> sse_ref set \<Rightarrow> nat set \<Rightarrow> (sse_ref \<Rightarrow> sbi_sse_event) \<Rightarrow> (nat \<Rightarrow> sse_ref list) \<Rightarrow> bool" where
  "events_ok hid V H ev L \<longleftrightarrow>
     (\<forall>r \<in> V. event_ok hid H r (ev r)) \<and> ids_ok V ev \<and> (\<forall>h \<in> H. list_ok V ev h (L h))"

lemma sse_before_total:
  assumes "event_id d \<noteq> event_id e" "\<not> sse_before d e"
  shows "sse_before e d"
  using assms by (auto simp: sse_before_def not_less)

lemma sse_before_trans: "sse_before a b \<Longrightarrow> sse_before b c \<Longrightarrow> sse_before a c"
  by (auto simp: sse_before_def)

lemma sse_before_irrefl: "\<not> sse_before a a"
  by (simp add: sse_before_def)

text \<open>The insertion keeps the order.\<close>

lemma insert_where_sorted:
  assumes "sorted_wrt (\<lambda>a b. sse_before (ev a) (ev b)) rs" "\<And>q. q \<in> set rs \<Longrightarrow> event_id (ev q) \<noteq> event_id (ev r)"
  shows "sorted_wrt (\<lambda>a b. sse_before (ev a) (ev b)) (insert_where (\<lambda>t. sse_before (ev r) (ev t)) r rs)"
  using assms
proof (induction rs)
  case (Cons t rs)
  show ?case
  proof (cases "sse_before (ev r) (ev t)")
    case True
    then show ?thesis using Cons.prems(1) by (auto intro: sse_before_trans)
  next
    case False
    then have "sse_before (ev t) (ev r)" using Cons.prems(2) [of t] by (intro sse_before_total) auto
    then show ?thesis using Cons False by auto
  qed
qed simp

section \<open>Changes that keep the invariant\<close>

text \<open>A change of one event that its place on the list does not depend on.\<close>

definition same_place :: "sbi_sse_event \<Rightarrow> sbi_sse_event \<Rightarrow> bool" where
  "same_place d e \<longleftrightarrow>
     event_id d = event_id e \<and> hartindex d = hartindex e \<and> at_prio (attrs d) = at_prio (attrs e) \<and> on_list d = on_list e"

lemma sse_before_place: "same_place d e \<Longrightarrow> sse_before d x = sse_before e x" "same_place d e \<Longrightarrow> sse_before x d = sse_before x e"
  by (simp_all add: same_place_def sse_before_def)

lemma sorted_wrt_upd:
  assumes "same_place d (ev r)"
  shows "sorted_wrt (\<lambda>a b. sse_before ((ev(r := d)) a) ((ev(r := d)) b)) rs = sorted_wrt (\<lambda>a b. sse_before (ev a) (ev b)) rs"
proof -
  have "sse_before ((ev(r := d)) a) ((ev(r := d)) b) = sse_before (ev a) (ev b)" for a b
    using sse_before_place [OF assms] by simp
  then show ?thesis by simp
qed

lemma ids_ok_upd: "ids_ok V ev \<Longrightarrow> event_id d = event_id (ev r) \<Longrightarrow> ids_ok V (ev(r := d))"
  by (fastforce simp: ids_ok_def)

lemma events_ok_place:
  assumes "events_ok hid V H ev L" "same_place d (ev r)" "event_ok hid H r d"
  shows "events_ok hid V H (ev(r := d)) L"
proof -
  have "list_ok V (ev(r := d)) h rs = list_ok V ev h rs" for h rs
    using assms(2) unfolding list_ok_def sorted_wrt_upd [where ev = ev and r = r, OF assms(2)]
    by (auto simp: same_place_def split: if_splits)
  moreover have "ids_ok V (ev(r := d))" using assms(1,2) by (auto simp: events_ok_def same_place_def intro: ids_ok_upd)
  ultimately show ?thesis using assms(1,3) by (simp add: events_ok_def)
qed

text \<open>A change of an event that is on no list, before and after.\<close>

lemma events_ok_unlisted:
  assumes "events_ok hid V H ev L" "\<not> on_list (ev r)" "\<not> on_list d" "event_id d = event_id (ev r)" "event_ok hid H r d"
  shows "events_ok hid V H (ev(r := d)) L"
proof -
  have "list_ok V (ev(r := d)) h (L h)" if "h \<in> H" for h
  proof -
    have l: "list_ok V ev h (L h)" using assms(1) that by (simp add: events_ok_def)
    then have "r \<notin> set (L h)" using assms(2) by (auto simp: list_ok_def)
    then have "sorted_wrt (\<lambda>a b. sse_before ((ev(r := d)) a) ((ev(r := d)) b)) (L h)"
      using l by (auto simp: list_ok_def intro: sorted_wrt_mono_rel [rotated])
    then show ?thesis using l assms(2,3) by (auto simp: list_ok_def)
  qed
  moreover have "ids_ok V (ev(r := d))" using assms(1,4) by (auto simp: events_ok_def intro: ids_ok_upd)
  ultimately show ?thesis using assms(1,5) by (auto simp: events_ok_def)
qed

text \<open>Enabling an event puts it on the list of its hart, disabling takes it off.\<close>

lemma events_ok_enable:
  assumes "events_ok hid V H ev L" "r \<in> V" "\<not> on_list (ev r)" "on_list d"
    and d: "event_id d = event_id (ev r)" "hartindex d = hartindex (ev r)" "event_ok hid H r d"
  shows "events_ok hid V H (ev(r := d)) (L(hartindex d := insert_where (\<lambda>t. sse_before d ((ev(r := d)) t)) r (L (hartindex d))))"
proof -
  let ?ev = "ev(r := d)" and ?h = "hartindex d"
  let ?l = "insert_where (\<lambda>t. sse_before d (?ev t)) r (L ?h)"
  have H: "?h \<in> H" using d by (simp add: event_ok_def)
  have notin: "r \<notin> set (L h)" if "h \<in> H" for h using assms(1,3) that by (auto simp: events_ok_def list_ok_def)
  have ids: "event_id (?ev q) \<noteq> event_id (?ev r)" if "q \<in> set (L ?h)" for q
  proof -
    have q: "q \<in> V" "hartindex (ev q) = ?h" using that assms(1) H by (auto simp: events_ok_def list_ok_def)
    have "q \<noteq> r" using that notin [OF H] by auto
    moreover have "q = Local a i \<Longrightarrow> r = Local b j \<Longrightarrow> a = b" for a b i j
      using q assms(1,2) d by (auto simp: events_ok_def event_ok_def home_ok_def)
    moreover have "ids_ok V ev" using assms(1) by (simp add: events_ok_def)
    ultimately show ?thesis using assms(2) q(1) d(1) unfolding ids_ok_def by (metis fun_upd_apply)
  qed
  have srt: "sorted_wrt (\<lambda>a b. sse_before (?ev a) (?ev b)) (L h)" if "h \<in> H" for h
    using assms(1) that notin [OF that] by (auto simp: events_ok_def list_ok_def intro: sorted_wrt_mono_rel [rotated])
  have "list_ok V ?ev h ((L(?h := ?l)) h)" if "h \<in> H" for h
  proof (cases "h = ?h")
    case True
    have "sorted_wrt (\<lambda>a b. sse_before (?ev a) (?ev b)) ?l"
      using insert_where_sorted [OF srt [OF H], of r] ids by simp
    moreover have "set ?l = {q \<in> V. hartindex (?ev q) = ?h \<and> on_list (?ev q)}"
      using assms(1-4) H by (auto simp: events_ok_def list_ok_def)
    moreover have "distinct ?l" using notin [OF H] assms(1) H by (auto simp: events_ok_def list_ok_def)
    ultimately show ?thesis using True by (simp add: list_ok_def)
  next
    case False
    then show ?thesis using srt [OF that] assms(1,3) d(2) that by (auto simp: events_ok_def list_ok_def)
  qed
  moreover have "ids_ok V ?ev" using assms(1) d by (auto simp: events_ok_def intro: ids_ok_upd)
  ultimately show ?thesis using assms(1) d(3) by (auto simp: events_ok_def)
qed

lemma events_ok_disable:
  assumes "events_ok hid V H ev L" "\<not> on_list d" "event_id d = event_id (ev r)" "hartindex d = hartindex (ev r)" "event_ok hid H r d"
  shows "events_ok hid V H (ev(r := d)) (\<lambda>h. remove1 r (L h))"
proof -
  have "list_ok V (ev(r := d)) h (remove1 r (L h))" if "h \<in> H" for h
  proof -
    have l: "list_ok V ev h (L h)" using assms(1) that by (simp add: events_ok_def)
    then have s: "set (remove1 r (L h)) = set (L h) - {r}" by (simp add: list_ok_def)
    have "sorted_wrt (\<lambda>a b. sse_before (ev a) (ev b)) (remove1 r (L h))"
      using l by (auto simp: list_ok_def remove1_split sorted_wrt_append split: option.splits intro: sorted_wrt_filter)
        (simp add: distinct_remove1_removeAll removeAll_filter_not_eq sorted_wrt_filter)
    then have "sorted_wrt (\<lambda>a b. sse_before ((ev(r := d)) a) ((ev(r := d)) b)) (remove1 r (L h))"
      using s by (auto intro: sorted_wrt_mono_rel [rotated])
    then show ?thesis using l s assms(2) by (auto simp: list_ok_def)
  qed
  moreover have "ids_ok V (ev(r := d))" using assms(1,3) by (auto simp: events_ok_def intro: ids_ok_upd)
  ultimately show ?thesis using assms(1,5) by (auto simp: events_ok_def)
qed


section \<open>The state as events, lists and locks\<close>

record sse_view =
  vV :: "sse_ref set"
  vH :: "nat set"
  vev :: "sse_ref \<Rightarrow> sbi_sse_event"
  vL :: "nat \<Rightarrow> sse_ref list"
  vGL :: "nat set"
  vLL :: "nat set"
  vcounts :: bool
  vstarted :: bool

definition sse_view :: "scratch_state \<Rightarrow> ('p, 'a) sse_system_scheme \<Rightarrow> sse_view" where
  "sse_view sst w =
     \<lparr>vV = {Global i |i. i < length (global_events w)} \<union> {Local h i |h i s. shs_ptr w h = Some s \<and> i < length (local_events s)},
      vH = {h. shs_ptr w h \<noteq> None},
      vev = (\<lambda>r. ev_at r w),
      vL = (\<lambda>h. case shs_ptr w h of None \<Rightarrow> [] | Some s \<Rightarrow> enabled_event_list s),
      vGL = {i. i < length (global_events w) \<and> ge_lock (global_events w ! i)},
      vLL = {h. \<exists>s. shs_ptr w h = Some s \<and> enabled_event_lock s},
      vcounts = (global_event_count w = length (global_events w) \<and>
        (\<forall>h s. shs_ptr w h = Some s \<longrightarrow> length (local_events s) = local_event_count w)),
      vstarted = (\<forall>h. get_state' sst (hsm_system.truncate w) h = SBI_HSM_STATE_STARTED \<longrightarrow> shs_ptr w h \<noteq> None)\<rparr>"

lemma vev_at [simp]: "vev (sse_view sst w) r = ev_at r w"
  by (simp add: sse_view_def)

text \<open>Changes outside the data of the view.\<close>

lemma sse_view_other [simp]:
  "sse_view sst (w\<lparr>lcsrs := x1\<rparr>) = sse_view sst w" "sse_view sst (w\<lparr>smem := x2\<rparr>) = sse_view sst w"
  "sse_view sst (w\<lparr>inject_fifo := x3\<rparr>) = sse_view sst w" "sse_view sst (w\<lparr>cb_state := x4\<rparr>) = sse_view sst w"
  by (simp_all add: sse_view_def ev_at_def hsm_system.defs cong: sse_ref.case_cong)

lemma ev_at_other [simp]:
  "ev_at r (w\<lparr>lcsrs := x1\<rparr>) = ev_at r w" "ev_at r (w\<lparr>inject_fifo := x3\<rparr>) = ev_at r w" "ev_at r (w\<lparr>cb_state := x4\<rparr>) = ev_at r w"
  "ev_at r (w\<lparr>smem := x2\<rparr>) = ev_at r w"
  by (simp_all add: ev_at_def cong: sse_ref.case_cong)

lemma view_invoke_cb [simp]: "sse_view sst (sse_event_invoke_cb cb sg me r w) = sse_view sst w"
  by (simp add: sse_event_invoke_cb_def split: option.splits)

lemma ev_at_on_ev:
  assumes "r \<in> vV (sse_view sst w)"
  shows "ev_at q (on_ev r f w) = (if q = r then f (ev_at r w) else ev_at q w)"
  using assms
  by (cases r; cases q) (auto simp: sse_view_def ev_at_def on_ev_def on_shs_def nth_list_update)

lemma view_on_ev [simp]:
  assumes "r \<in> vV (sse_view sst w)"
  shows "sse_view sst (on_ev r f w) = (sse_view sst w)\<lparr>vev := (vev (sse_view sst w))(r := f (ev_at r w))\<rparr>"
proof (rule sse_view.equality)
  show "vev (sse_view sst (on_ev r f w)) = vev ((sse_view sst w)\<lparr>vev := (vev (sse_view sst w))(r := f (ev_at r w))\<rparr>)"
    using ev_at_on_ev [OF assms, of _ f] by (auto simp: fun_eq_iff)
qed (use assms in \<open>cases r; auto simp: sse_view_def on_ev_def on_shs_def nth_list_update hsm_system.defs split: option.splits if_splits\<close>)+

lemma view_on_shs:
  assumes "\<And>s. local_events (f s) = local_events s"
  shows "sse_view sst (on_shs h f w) =
    (sse_view sst w)\<lparr>vL := (\<lambda>k. case shs_ptr w k of None \<Rightarrow> [] | Some s \<Rightarrow> enabled_event_list (if k = h then f s else s)),
       vLL := {k. \<exists>s. shs_ptr w k = Some s \<and> enabled_event_lock (if k = h then f s else s)}\<rparr>"
proof -
  have e: "ev_at q (on_shs h f w) = ev_at q w" for q
    using assms by (cases q; cases "shs_ptr w h") (auto simp: ev_at_def on_shs_def)
  have len: "(\<exists>s. shs_ptr (on_shs h f w) k = Some s \<and> i < length (local_events s)) =
      (\<exists>s. shs_ptr w k = Some s \<and> i < length (local_events s))" for k i
    using assms by (cases "k = h") (auto simp: on_shs_def)
  have "{Local k i |k i s. shs_ptr (on_shs h f w) k = Some s \<and> i < length (local_events s)} =
      {Local k i |k i s. shs_ptr w k = Some s \<and> i < length (local_events s)}"
    using len by blast
  moreover have "{k. \<exists>s. shs_ptr (on_shs h f w) k = Some s \<and> enabled_event_lock s} =
      {k. \<exists>s. shs_ptr w k = Some s \<and> enabled_event_lock (if k = h then f s else s)}"
    by (auto simp: on_shs_def split: if_splits)
  moreover have "(\<lambda>k. case shs_ptr (on_shs h f w) k of None \<Rightarrow> [] | Some s \<Rightarrow> enabled_event_list s) =
      (\<lambda>k. case shs_ptr w k of None \<Rightarrow> [] | Some s \<Rightarrow> enabled_event_list (if k = h then f s else s))"
    by (auto simp: on_shs_def fun_eq_iff split: option.splits)
  moreover have "(\<forall>k s. shs_ptr (on_shs h f w) k = Some s \<longrightarrow> length (local_events s) = n) =
      (\<forall>k s. shs_ptr w k = Some s \<longrightarrow> length (local_events s) = n)" for n
    using assms by (auto simp: on_shs_def split: if_splits)
  moreover have "shs_ptr (on_shs h f w) k = None \<longleftrightarrow> shs_ptr w k = None" for k by (simp add: on_shs_def)
  moreover have "global_events (on_shs h f w) = global_events w" "global_event_count (on_shs h f w) = global_event_count w"
    "local_event_count (on_shs h f w) = local_event_count w" "hsm_system.truncate (on_shs h f w) = hsm_system.truncate w"
    by (simp_all add: on_shs_def hsm_system.defs)
  ultimately show ?thesis by (simp add: sse_view_def e)
qed


lemma view_ge_locks:
  assumes "i < length (global_events w)"
  shows "sse_view sst (w\<lparr>global_events := (global_events w)[i := (global_events w ! i)\<lparr>ge_lock := b\<rparr>]\<rparr>) =
    (sse_view sst w)\<lparr>vGL := if b then insert i (vGL (sse_view sst w)) else vGL (sse_view sst w) - {i}\<rparr>"
proof -
  let ?w = "w\<lparr>global_events := (global_events w)[i := (global_events w ! i)\<lparr>ge_lock := b\<rparr>]\<rparr>"
  have "ev_at q ?w = ev_at q w" for q
    using assms by (cases q) (auto simp: ev_at_def nth_list_update)
  moreover have "{j. j < length (global_events w) \<and> ge_lock (global_events ?w ! j)} =
      (if b then insert i (vGL (sse_view sst w)) else vGL (sse_view sst w) - {i})"
    using assms by (auto simp: sse_view_def nth_list_update)
  ultimately show ?thesis by (simp add: sse_view_def hsm_system.defs)
qed

lemma global_ref [simp]: "Global i \<in> vV (sse_view sst w) \<longleftrightarrow> i < length (global_events w)"
  by (simp add: sse_view_def)

lemma local_ref: "Local h i \<in> vV (sse_view sst w) \<longleftrightarrow> (\<exists>s. shs_ptr w h = Some s \<and> i < length (local_events s))"
  by (simp add: sse_view_def)

lemma hart_init [simp]: "h \<in> vH (sse_view sst w) \<longleftrightarrow> shs_ptr w h \<noteq> None"
  by (simp add: sse_view_def)

text \<open>The lock of a global event, and the effect of the lock operations.\<close>

definition gl :: "sse_ref \<Rightarrow> nat set" where
  "gl r = (case r of Global i \<Rightarrow> {i} | Local h i \<Rightarrow> {})"

lemma view_list_lock:
  assumes "shs_ptr w h \<noteq> None"
  shows "list_spin_lock h w = (if h \<in> vLL (sse_view sst w) then None else Some (on_shs h (\<lambda>s. s\<lparr>enabled_event_lock := True\<rparr>) w))"
    and "sse_view sst (on_shs h (\<lambda>s. s\<lparr>enabled_event_lock := True\<rparr>) w) = (sse_view sst w)\<lparr>vLL := insert h (vLL (sse_view sst w))\<rparr>"
    and "sse_view sst (list_spin_unlock h w) = (sse_view sst w)\<lparr>vLL := vLL (sse_view sst w) - {h}\<rparr>"
proof -
  obtain s where s: "shs_ptr w h = Some s" using assms by auto
  show "list_spin_lock h w = (if h \<in> vLL (sse_view sst w) then None else Some (on_shs h (\<lambda>s. s\<lparr>enabled_event_lock := True\<rparr>) w))"
    by (simp add: list_spin_lock_def s sse_view_def)
  have "{k. \<exists>s. shs_ptr w k = Some s \<and> enabled_event_lock (if k = h then s\<lparr>enabled_event_lock := b\<rparr> else s)} =
      (if b then insert h (vLL (sse_view sst w)) else vLL (sse_view sst w) - {h})" for b
    using s by (auto simp: sse_view_def split: if_splits)
  moreover have "(\<lambda>k. case shs_ptr w k of None \<Rightarrow> [] | Some s \<Rightarrow> enabled_event_list (if k = h then s\<lparr>enabled_event_lock := b\<rparr> else s)) =
      vL (sse_view sst w)" for b
    by (auto simp: sse_view_def fun_eq_iff split: option.splits)
  ultimately have "sse_view sst (on_shs h (\<lambda>s. s\<lparr>enabled_event_lock := b\<rparr>) w) =
      (sse_view sst w)\<lparr>vLL := if b then insert h (vLL (sse_view sst w)) else vLL (sse_view sst w) - {h}\<rparr>" for b
    by (subst view_on_shs) simp_all
  from this [of True] this [of False]
  show "sse_view sst (on_shs h (\<lambda>s. s\<lparr>enabled_event_lock := True\<rparr>) w) = (sse_view sst w)\<lparr>vLL := insert h (vLL (sse_view sst w))\<rparr>"
    "sse_view sst (list_spin_unlock h w) = (sse_view sst w)\<lparr>vLL := vLL (sse_view sst w) - {h}\<rparr>"
    by (simp_all add: list_spin_unlock_def)
qed

lemma view_remove [simp]:
  "sse_view sst (sse_event_remove_from_list r w) = (sse_view sst w)\<lparr>vL := \<lambda>h. remove1 r (vL (sse_view sst w) h)\<rparr>"
proof -
  let ?w = "sse_event_remove_from_list r w"
  have p: "shs_ptr ?w h = map_option (\<lambda>s. s\<lparr>enabled_event_list := remove1 r (enabled_event_list s)\<rparr>) (shs_ptr w h)" for h
    by (simp add: sse_event_remove_from_list_def)
  have e: "ev_at q ?w = ev_at q w" for q
  proof (cases q)
    case (Local h i)
    then show ?thesis by (cases "shs_ptr w h") (simp_all add: ev_at_def p)
  qed (simp add: ev_at_def sse_event_remove_from_list_def)
  have len: "(\<exists>s. shs_ptr ?w k = Some s \<and> i < length (local_events s)) = (\<exists>s. shs_ptr w k = Some s \<and> i < length (local_events s))" for k i
    by (auto simp: p)
  then have "{Local k i |k i s. shs_ptr ?w k = Some s \<and> i < length (local_events s)} =
      {Local k i |k i s. shs_ptr w k = Some s \<and> i < length (local_events s)}" by blast
  moreover have "{k. \<exists>s. shs_ptr ?w k = Some s \<and> enabled_event_lock s} = {k. \<exists>s. shs_ptr w k = Some s \<and> enabled_event_lock s}"
    by (auto simp: p)
  moreover have "(\<lambda>k. case shs_ptr ?w k of None \<Rightarrow> [] | Some s \<Rightarrow> enabled_event_list s) = (\<lambda>k. remove1 r (vL (sse_view sst w) k))"
    by (auto simp: p sse_view_def fun_eq_iff split: option.splits)
  moreover have "(\<forall>k s. shs_ptr ?w k = Some s \<longrightarrow> length (local_events s) = n) =
      (\<forall>k s. shs_ptr w k = Some s \<longrightarrow> length (local_events s) = n)" for n
    unfolding p map_option_eq_Some by (metis sse_hart_state.select_convs(3) sse_hart_state.surjective sse_hart_state.update_convs(1))
  moreover have "shs_ptr ?w k = None \<longleftrightarrow> shs_ptr w k = None" for k by (simp add: p)
  moreover have "global_events ?w = global_events w" "global_event_count ?w = global_event_count w"
    "local_event_count ?w = local_event_count w" "hsm_system.truncate ?w = hsm_system.truncate w"
    by (simp_all add: sse_event_remove_from_list_def hsm_system.defs)
  ultimately show ?thesis by (simp add: sse_view_def e)
qed

lemma view_add:
  assumes "shs_ptr w (hartindex (ev_at r w)) \<noteq> None"
  shows "\<exists>w'. sse_event_add_to_list r w = Some w' \<and>
    sse_view sst w' = (sse_view sst w)\<lparr>vL := (vL (sse_view sst w))(hartindex (ev_at r w) :=
      insert_where (\<lambda>t. sse_before (ev_at r w) (ev_at t w)) r (vL (sse_view sst w) (hartindex (ev_at r w))))\<rparr>"
proof -
  let ?h = "hartindex (ev_at r w)" and ?f = "\<lambda>s. s\<lparr>enabled_event_list := insert_where (\<lambda>t. sse_before (ev_at r w) (ev_at t w)) r (enabled_event_list s)\<rparr>"
  have "(\<lambda>k. case shs_ptr w k of None \<Rightarrow> [] | Some s \<Rightarrow> enabled_event_list (if k = ?h then ?f s else s)) =
      (vL (sse_view sst w))(?h := insert_where (\<lambda>t. sse_before (ev_at r w) (ev_at t w)) r (vL (sse_view sst w) ?h))"
    using assms by (auto simp: sse_view_def fun_eq_iff split: option.splits)
  moreover have "{k. \<exists>s. shs_ptr w k = Some s \<and> enabled_event_lock (if k = ?h then ?f s else s)} = vLL (sse_view sst w)"
    by (auto simp: sse_view_def split: if_splits)
  ultimately have "sse_view sst (on_shs ?h ?f w) = (sse_view sst w)\<lparr>vL := (vL (sse_view sst w))(?h :=
      insert_where (\<lambda>t. sse_before (ev_at r w) (ev_at t w)) r (vL (sse_view sst w) ?h))\<rparr>"
    by (subst view_on_shs) simp_all
  then show ?thesis using assms by (simp add: sse_event_add_to_list_def Let_def)
qed


section \<open>The invariant\<close>

definition core_ok :: "scratch_state \<Rightarrow> sse_view \<Rightarrow> bool" where
  "core_ok sst v \<longleftrightarrow> events_ok (current_hartid sst) (vV v) (vH v) (vev v) (vL v) \<and> vcounts v \<and> vstarted v"

definition sse_inv :: "scratch_state \<Rightarrow> ('p, 'a) sse_system_scheme \<Rightarrow> bool" where
  "sse_inv sst w \<longleftrightarrow> core_ok sst (sse_view sst w) \<and> vGL (sse_view sst w) = {} \<and> vLL (sse_view sst w) = {}"

text \<open>The running events of a hart, first the one of highest priority.\<close>

definition running :: "sse_view \<Rightarrow> nat \<Rightarrow> sse_ref list" where
  "running v h = filter (\<lambda>r. is_running (vev v r)) (vL v h)"

text \<open>
  A change of the data that keeps the invariant, the locks and the running events; a quiet one also leaves every event with its hart.
\<close>

definition kept :: "scratch_state \<Rightarrow> sse_view \<Rightarrow> sse_view \<Rightarrow> bool" where
  "kept sst v v' \<longleftrightarrow>
     core_ok sst v' \<and> vV v' = vV v \<and> vH v' = vH v \<and> vGL v' = vGL v \<and> vLL v' = vLL v \<and> running v' = running v"

definition quiet :: "scratch_state \<Rightarrow> sse_view \<Rightarrow> sse_view \<Rightarrow> bool" where
  "quiet sst v v' \<longleftrightarrow> kept sst v v' \<and> (\<forall>q. hartindex (vev v' q) = hartindex (vev v q))"

lemma quiet_refl: "core_ok sst v \<Longrightarrow> quiet sst v v"
  by (simp add: quiet_def kept_def)

lemma kept_refl: "core_ok sst v \<Longrightarrow> kept sst v v"
  by (simp add: kept_def)

lemma kept_trans: "kept sst u v \<Longrightarrow> kept sst v w \<Longrightarrow> kept sst u w"
  by (simp add: kept_def)

lemma quiet_trans: "quiet sst u v \<Longrightarrow> quiet sst v w \<Longrightarrow> quiet sst u w"
  by (auto simp: quiet_def intro: kept_trans)

lemma filter_insert_where: "\<not> P r \<Longrightarrow> filter P (insert_where Q r xs) = filter P xs"
  by (induction xs) auto

lemma filter_remove1: "\<not> P r \<Longrightarrow> filter P (remove1 r xs) = filter P xs"
  by (induction xs) auto

lemma running_upd:
  assumes "is_running d = is_running (vev v r)"
  shows "running (v\<lparr>vev := (vev v)(r := d)\<rparr>) h = running v h"
  using assms by (auto simp: running_def intro: filter_cong)

lemma state_listed: "on_list e \<longleftrightarrow> sse_event_state e = SBI_SSE_STATE_ENABLED \<or> is_running e"
proof -
  have "sse_event_state e \<le> 3"
    using word_and_le1 [of "at_status (attrs e)" 3]
    by (simp add: sse_event_state_def SBI_SSE_ATTR_STATUS_STATE_MASK_def)
  then have "unat (sse_event_state e) \<in> {unat (0 :: u64), unat (1 :: u64), unat (2 :: u64), unat (3 :: u64)}"
    by (auto simp: word_le_nat_alt)
  then have "sse_event_state e \<in> {0, 1, 2, 3}" by (auto simp only: insert_iff empty_iff word_unat_eq_iff)
  then show ?thesis by (auto simp: on_list_def is_running_def sse_states word_le_nat_alt)
qed

text \<open>Changes of the event at a valid reference.\<close>

lemma quiet_place:
  assumes "core_ok sst v" "same_place d (vev v r)" "event_ok (current_hartid sst) (vH v) r d" "is_running d = is_running (vev v r)"
  shows "quiet sst v (v\<lparr>vev := (vev v)(r := d)\<rparr>)"
  using assms events_ok_place [of "current_hartid sst" "vV v" "vH v" "vev v" "vL v" d r] running_upd [OF assms(4)]
  by (simp add: quiet_def kept_def core_ok_def fun_eq_iff same_place_def)

lemma kept_unlisted:
  assumes "core_ok sst v" "\<not> on_list (vev v r)" "\<not> on_list d" "event_id d = event_id (vev v r)"
    "event_ok (current_hartid sst) (vH v) r d"
  shows "kept sst v (v\<lparr>vev := (vev v)(r := d)\<rparr>)"
  using assms events_ok_unlisted [of "current_hartid sst" "vV v" "vH v" "vev v" "vL v" r d]
    running_upd [of d v r] by (auto simp: kept_def core_ok_def fun_eq_iff state_listed)

lemma quiet_enable:
  assumes "core_ok sst v" "r \<in> vV v" "\<not> on_list (vev v r)" "on_list d" "\<not> is_running d"
    "event_id d = event_id (vev v r)" "hartindex d = hartindex (vev v r)" "event_ok (current_hartid sst) (vH v) r d"
  shows "quiet sst v (v\<lparr>vev := (vev v)(r := d),
    vL := (vL v)(hartindex d := insert_where (\<lambda>t. sse_before d (((vev v)(r := d)) t)) r (vL v (hartindex d)))\<rparr>)"
proof -
  have "\<not> is_running (vev v r)" using assms(3) by (simp add: state_listed)
  then have "running (v\<lparr>vev := (vev v)(r := d),
    vL := (vL v)(hartindex d := insert_where (\<lambda>t. sse_before d (((vev v)(r := d)) t)) r (vL v (hartindex d)))\<rparr>) = running v"
    using assms(5) running_upd [of d v r] by (auto simp: running_def fun_eq_iff filter_insert_where)
  then show ?thesis
    using assms events_ok_enable [of "current_hartid sst" "vV v" "vH v" "vev v" "vL v" r d] by (simp add: quiet_def kept_def core_ok_def)
qed

lemma quiet_disable:
  assumes "core_ok sst v" "\<not> is_running (vev v r)" "\<not> on_list d" "event_id d = event_id (vev v r)" "hartindex d = hartindex (vev v r)"
    "event_ok (current_hartid sst) (vH v) r d"
  shows "quiet sst v (v\<lparr>vL := (\<lambda>h. remove1 r (vL v h)), vev := (vev v)(r := d)\<rparr>)"
proof -
  have "\<not> is_running d" using assms(3) by (simp add: state_listed)
  then have "running (v\<lparr>vL := (\<lambda>h. remove1 r (vL v h)), vev := (vev v)(r := d)\<rparr>) = running v"
    using assms(2) running_upd [of d v r] by (auto simp: running_def fun_eq_iff filter_remove1)
  then show ?thesis
    using assms events_ok_disable [of "current_hartid sst" "vV v" "vH v" "vev v" "vL v" d r] by (simp add: quiet_def kept_def core_ok_def)
qed


section \<open>Looking events up\<close>

text \<open>What a lookup on hart \<open>me\<close> gives when the locks are free.\<close>

definition got_ref :: "scratch_state \<Rightarrow> nat \<Rightarrow> u32 \<Rightarrow> ('p, 'a) sse_system_scheme \<Rightarrow> sse_ref \<Rightarrow> ('p, 'a) sse_system_scheme \<Rightarrow> bool" where
  "got_ref sst me eid w r w' \<longleftrightarrow>
     r \<in> vV (sse_view sst w) \<and> event_id (ev_at r w) = eid \<and> (case r of Local h i \<Rightarrow> h = me | Global i \<Rightarrow> True) \<and>
     gl r \<inter> vGL (sse_view sst w) = {} \<and> (\<forall>q. ev_at q w' = ev_at q w) \<and>
     sse_view sst w' = (sse_view sst w)\<lparr>vGL := vGL (sse_view sst w) \<union> gl r\<rparr> \<and> hsm_system.truncate w' = hsm_system.truncate w \<and>
     inject_fifo w' = inject_fifo w"

lemma find_upt_Some: "find P [0..<n] = Some i \<Longrightarrow> i < n \<and> P i"
  by (auto simp: find_Some_iff)

lemma sse_event_get_cases:
  assumes "sse_event_get me eid w = Some (got, w')" "vcounts (sse_view sst w)"
  shows "case got of Inl rc \<Rightarrow> w' = w \<and> rc \<in> {SBI_ENOTSUPP, SBI_EINVAL} | Inr r \<Rightarrow> got_ref sst me eid w r w'"
proof (cases "EVENT_IS_GLOBAL eid")
  case True
  show ?thesis
  proof (cases "find (\<lambda>i. event_id (ge_event (global_events w ! i)) = eid) [0..<global_event_count w]")
    case None
    then show ?thesis using assms(1) True by (auto simp: sse_event_get_def Let_def)
  next
    case (Some i)
    let ?w = "w\<lparr>global_events := (global_events w)[i := (global_events w ! i)\<lparr>ge_lock := True\<rparr>]\<rparr>"
    have i: "i < length (global_events w)" "event_id (ge_event (global_events w ! i)) = eid"
      using find_upt_Some [OF Some] assms(2) by (auto simp: sse_view_def)
    have w': "got = Inr (Global i)" "w' = ?w" "\<not> ge_lock (global_events w ! i)"
      using assms(1) True Some by (auto simp: sse_event_get_def Let_def ge_spin_lock_def split: if_splits)
    have "ev_at q ?w = ev_at q w" for q using i(1) by (cases q) (auto simp: ev_at_def nth_list_update)
    then show ?thesis
      using i w' view_ge_locks [OF i(1), of sst True] by (auto simp: got_ref_def gl_def ev_at_def sse_view_def hsm_system.defs)
  qed
next
  case False
  obtain s where s: "shs_ptr w me = Some s" using assms(1) False by (auto simp: sse_event_get_def Let_def split: option.splits)
  show ?thesis
  proof (cases "find (\<lambda>i. event_id (local_events s ! i) = eid) [0..<local_event_count w]")
    case None
    then show ?thesis using assms(1) False s by (auto simp: sse_event_get_def Let_def)
  next
    case (Some i)
    have i: "i < length (local_events s)" "event_id (local_events s ! i) = eid"
      using find_upt_Some [OF Some] assms(2) s by (auto simp: sse_view_def)
    then show ?thesis
      using assms(1) False s Some by (auto simp: sse_event_get_def Let_def got_ref_def gl_def local_ref ev_at_def)
  qed
qed

lemma sse_event_get_total:
  assumes "shs_ptr w me \<noteq> None" "\<And>i. i < global_event_count w \<Longrightarrow> event_id (ge_event (global_events w ! i)) = eid \<Longrightarrow> \<not> ge_lock (global_events w ! i)"
  shows "\<exists>got w'. sse_event_get me eid w = Some (got, w')"
  using assms find_upt_Some [of "\<lambda>i. event_id (ge_event (global_events w ! i)) = eid" "global_event_count w"]
  by (auto simp: sse_event_get_def Let_def ge_spin_lock_def split: option.splits)

lemma core_event: "core_ok sst (sse_view sst w) \<Longrightarrow> r \<in> vV (sse_view sst w) \<Longrightarrow> event_ok (current_hartid sst) (vH (sse_view sst w)) r (ev_at r w)"
  by (simp add: core_ok_def events_ok_def)

lemma view_put:
  assumes "r \<in> vV (sse_view sst w)" "home_ok hid r (ev_at r w)"
  shows "sse_view sst (sse_event_put r w) = (sse_view sst w)\<lparr>vGL := vGL (sse_view sst w) - gl r\<rparr>"
proof (cases r)
  case (Local h i)
  then show ?thesis using assms by (simp add: sse_event_put_def gl_def)
next
  case (Global i)
  then show ?thesis
    using assms view_ge_locks [of i w sst False]
    by (auto simp: sse_event_put_def sse_event_is_local_def sse_event_is_global_def home_ok_def gl_def ge_spin_unlock_def)
qed

text \<open>A handler that gets an event, changes it quietly and puts it back is quiet.\<close>

lemma core_locks [simp]: "core_ok sst (v\<lparr>vGL := a\<rparr>) = core_ok sst v" "core_ok sst (v\<lparr>vLL := b\<rparr>) = core_ok sst v"
  "running (v\<lparr>vGL := a\<rparr>) = running v" "running (v\<lparr>vLL := b\<rparr>) = running v"
  by (simp_all add: core_ok_def running_def fun_eq_iff)

lemma get_put_view:
  assumes got: "got_ref sst me eid w r w1" and q: "kept sst (sse_view sst w1) (sse_view sst w2)"
  shows "sse_view sst (sse_event_put r w2) = (sse_view sst w2)\<lparr>vGL := vGL (sse_view sst w)\<rparr>"
proof -
  have g: "r \<in> vV (sse_view sst w)" "gl r \<inter> vGL (sse_view sst w) = {}"
    "sse_view sst w1 = (sse_view sst w)\<lparr>vGL := vGL (sse_view sst w) \<union> gl r\<rparr>"
    using got by (auto simp: got_ref_def)
  have c: "core_ok sst (sse_view sst w2)" "r \<in> vV (sse_view sst w2)" using q g by (auto simp: kept_def)
  have "sse_view sst (sse_event_put r w2) = (sse_view sst w2)\<lparr>vGL := vGL (sse_view sst w2) - gl r\<rparr>"
    using core_event [OF c] c(2) by (intro view_put) (auto simp: event_ok_def)
  moreover have "vGL (sse_view sst w2) - gl r = vGL (sse_view sst w)" using q g by (auto simp: kept_def)
  ultimately show ?thesis by simp
qed

lemma get_put_kept:
  assumes "got_ref sst me eid w r w1" "kept sst (sse_view sst w1) (sse_view sst w2)"
  shows "kept sst (sse_view sst w) (sse_view sst (sse_event_put r w2))"
  unfolding get_put_view [OF assms] using assms by (auto simp: kept_def got_ref_def)

lemma get_put_quiet:
  assumes "got_ref sst me eid w r w1" "quiet sst (sse_view sst w1) (sse_view sst w2)"
  shows "quiet sst (sse_view sst w) (sse_view sst (sse_event_put r w2))"
proof -
  have k: "kept sst (sse_view sst w1) (sse_view sst w2)" using assms(2) by (simp add: quiet_def)
  have "vev (sse_view sst (sse_event_put r w2)) = vev (sse_view sst w2)" unfolding get_put_view [OF assms(1) k] by simp
  then show ?thesis
    using get_put_kept [OF assms(1) k] assms by (auto simp: quiet_def got_ref_def fun_eq_iff)
qed

end
