(* ===== verification/SbiSseSteps.thy ===== *)
theory SbiSseSteps
  imports SbiSseInv
begin

text \<open>
  Every handler of supervisor software events keeps the invariant; all but the injection at the end of a trap and the completion
  leave the running events of every hart as they are.
\<close>

unbundle bit_operations_syntax

section \<open>Single events\<close>

lemma set_state_fields [simp]:
  "event_id (sse_event_set_state st e) = event_id e" "hartindex (sse_event_set_state st e) = hartindex e"
  "at_prio (attrs (sse_event_set_state st e)) = at_prio (attrs e)" "at_hartid (attrs (sse_event_set_state st e)) = at_hartid (attrs e)"
  "ev_info (sse_event_set_state st e) = ev_info e" "at_config (attrs (sse_event_set_state st e)) = at_config (attrs e)"
  "at_interrupted (attrs (sse_event_set_state st e)) = at_interrupted (attrs e)"
  by (simp_all add: sse_event_set_state_def set_status_def)

lemma ev_at_cb [simp]: "ev_at q (sse_event_invoke_cb cb sg me r w) = ev_at q w"
  by (simp add: sse_event_invoke_cb_def split: option.splits)

lemma ev_at_remove [simp]: "ev_at q (sse_event_remove_from_list r w) = ev_at q w"
  using view_remove [of undefined r w] vev_at [of undefined "sse_event_remove_from_list r w" q] by simp

lemma event_ok_same:
  assumes "event_ok hid H r e" "event_id d = event_id e" "hartindex d = hartindex e" "at_hartid (attrs d) = at_hartid (attrs e)"
    "is_running d \<longrightarrow> is_running e"
  shows "event_ok hid H r d"
  using assms by (auto simp: event_ok_def home_ok_def split: sse_ref.splits)

lemma quiet_same:
  assumes "core_ok sst (sse_view sst w)" "r \<in> vV (sse_view sst w)"
    and "event_id (f (ev_at r w)) = event_id (ev_at r w)" "hartindex (f (ev_at r w)) = hartindex (ev_at r w)"
    "at_hartid (attrs (f (ev_at r w))) = at_hartid (attrs (ev_at r w))" "at_prio (attrs (f (ev_at r w))) = at_prio (attrs (ev_at r w))"
    "sse_event_state (f (ev_at r w)) = sse_event_state (ev_at r w)"
  shows "quiet sst (sse_view sst w) (sse_view sst (on_ev r f w))"
proof -
  have "event_ok (current_hartid sst) (vH (sse_view sst w)) r (f (ev_at r w))"
    using assms(3-7) by (intro event_ok_same [OF core_event [OF assms(1,2)]]) (simp_all add: is_running_def)
  then show ?thesis
    unfolding view_on_ev [OF assms(2)] using assms
    by (intro quiet_place) (simp_all add: same_place_def on_list_def is_running_def)
qed

text \<open>The four states.\<close>

lemma states_differ [simp]:
  "SBI_SSE_STATE_ENABLED \<noteq> SBI_SSE_STATE_RUNNING" "SBI_SSE_STATE_REGISTERED \<noteq> SBI_SSE_STATE_RUNNING" "SBI_SSE_STATE_UNUSED \<noteq> SBI_SSE_STATE_RUNNING"
  "SBI_SSE_STATE_REGISTERED \<noteq> SBI_SSE_STATE_ENABLED" "SBI_SSE_STATE_UNUSED \<noteq> SBI_SSE_STATE_ENABLED"
  "SBI_SSE_STATE_RUNNING \<noteq> SBI_SSE_STATE_ENABLED" "SBI_SSE_STATE_RUNNING \<noteq> SBI_SSE_STATE_REGISTERED"
  by (simp_all add: sse_states)

lemma pending_mask: "(x OR BIT 2) AND SBI_SSE_ATTR_STATUS_STATE_MASK = x AND SBI_SSE_ATTR_STATUS_STATE_MASK"
  by (rule bit_word_eqI) (auto simp: bit_and_iff bit_or_iff bit_BIT_small bit_state_mask)

lemma pending_quiet:
  assumes "core_ok sst (sse_view sst w)" "r \<in> vV (sse_view sst w)"
  shows "quiet sst (sse_view sst w) (sse_view sst (snd (sse_event_set_pending r w)))"
proof -
  have "quiet sst (sse_view sst w)
      (sse_view sst (on_ev r (\<lambda>e. set_status (at_status (attrs e) OR BIT SBI_SSE_ATTR_STATUS_PENDING_OFFSET) e) w))"
    using assms by (intro quiet_same) (simp_all add: set_status_def sse_event_state_def SBI_SSE_ATTR_STATUS_PENDING_OFFSET_def pending_mask)
  then show ?thesis using assms(1) by (simp add: sse_event_set_pending_def Let_def quiet_refl)
qed

lemma kept_unlisted_ev:
  assumes "core_ok sst (sse_view sst w)" "r \<in> vV (sse_view sst w)" "\<not> on_list (ev_at r w)" "\<not> on_list (f (ev_at r w))"
    "event_id (f (ev_at r w)) = event_id (ev_at r w)" "event_ok (current_hartid sst) (vH (sse_view sst w)) r (f (ev_at r w))"
  shows "kept sst (sse_view sst w) (sse_view sst (on_ev r f w))"
  unfolding view_on_ev [OF assms(2)] using assms by (intro kept_unlisted) simp_all

lemma register_kept:
  assumes "core_ok sst (sse_view sst w)" "r \<in> vV (sse_view sst w)"
  shows "kept sst (sse_view sst w) (sse_view sst (snd (sse_event_register sg me r pc arg w)))"
proof (cases "sse_event_state (ev_at r w) = SBI_SSE_STATE_UNUSED")
  case True
  let ?w = "on_ev r (on_attrs (\<lambda>a. a\<lparr>at_entry := \<lparr>en_pc = pc, en_arg = arg\<rparr>\<rparr>)) w"
  have 1: "kept sst (sse_view sst w) (sse_view sst ?w)"
    using assms by (intro quiet_same [unfolded quiet_def, THEN conjunct1]) (simp_all add: on_attrs_def sse_event_state_def)
  then have c: "core_ok sst (sse_view sst ?w)" "r \<in> vV (sse_view sst ?w)" using assms by (auto simp: kept_def)
  have s: "sse_event_state (ev_at r ?w) = SBI_SSE_STATE_UNUSED"
    using True ev_at_on_ev [OF assms(2)] by (simp add: on_attrs_def sse_event_state_def)
  have "kept sst (sse_view sst ?w) (sse_view sst (on_ev r (sse_event_set_state SBI_SSE_STATE_REGISTERED) ?w))"
    using c s by (intro kept_unlisted_ev event_ok_same [OF core_event [OF c]]) (simp_all add: state_listed is_running_def)
  then show ?thesis using True kept_trans [OF 1] by (simp add: sse_event_register_def Let_def)
qed (simp add: sse_event_register_def kept_refl assms)

lemma unregister_kept:
  assumes "core_ok sst (sse_view sst w)" "r \<in> vV (sse_view sst w)"
  shows "kept sst (sse_view sst w) (sse_view sst (snd (sse_event_unregister sg me r w)))"
proof (cases "sse_event_state (ev_at r w) = SBI_SSE_STATE_REGISTERED")
  case True
  let ?w = "sse_event_invoke_cb unregister_cb sg me r w"
  have "kept sst (sse_view sst ?w) (sse_view sst (on_ev r (sse_event_set_state SBI_SSE_STATE_UNUSED) ?w))"
    using assms True event_ok_same [OF core_event [OF assms], of "sse_event_set_state SBI_SSE_STATE_UNUSED (ev_at r w)"]
    by (intro kept_unlisted_ev) (simp_all add: state_listed is_running_def)
  then show ?thesis using True by (simp add: sse_event_unregister_def Let_def)
qed (simp add: sse_event_unregister_def kept_refl assms)

lemma disable_quiet:
  assumes "core_ok sst (sse_view sst w)" "r \<in> vV (sse_view sst w)"
  shows "quiet sst (sse_view sst w) (sse_view sst (snd (sse_event_disable sg me r w)))"
proof (cases "sse_event_state (ev_at r w) = SBI_SSE_STATE_ENABLED")
  case True
  let ?w = "sse_event_remove_from_list r (sse_event_invoke_cb disable_cb sg me r w)" and ?f = "sse_event_set_state SBI_SSE_STATE_REGISTERED"
  have "quiet sst (sse_view sst w) (sse_view sst (on_ev r ?f ?w))"
    using assms True core_event [OF assms] quiet_disable [of sst "sse_view sst w" r "?f (ev_at r w)"]
    by (subst view_on_ev) (simp_all add: event_ok_same state_listed is_running_def)
  then show ?thesis using True by (simp add: sse_event_disable_def Let_def)
qed (simp add: sse_event_disable_def quiet_refl assms)

section \<open>Inter-processor interrupts\<close>

lemma inject_loop_quiet:
  assumes "inject_loop me q w = Some w'" "core_ok sst (sse_view sst w)"
  shows "quiet sst (sse_view sst w) (sse_view sst w')"
  using assms
proof (induction me q w arbitrary: rule: inject_loop.induct)
  case (1 me w)
  then show ?case by (simp add: quiet_refl)
next
  case (2 me eid q w)
  let ?w = "w\<lparr>inject_fifo := (inject_fifo w)(me := q)\<rparr>"
  have c: "core_ok sst (sse_view sst ?w)" "vcounts (sse_view sst ?w)" using 2 by (simp_all add: core_ok_def)
  obtain got w1 where g: "sse_event_get me eid ?w = Some (got, w1)" using "2.prems"(1) by (auto split: option.splits)
  show ?case
  proof (cases got)
    case (Inl rc)
    then show ?thesis
      using "2.IH"(1) [OF g refl Inl] "2.prems" sse_event_get_cases [OF g c(2)] g Inl by auto
  next
    case (Inr r)
    let ?w2 = "snd (sse_event_set_pending r w1)"
    have gr: "got_ref sst me eid ?w r w1" using sse_event_get_cases [OF g c(2)] Inr by simp
    then have c1: "core_ok sst (sse_view sst w1)" "r \<in> vV (sse_view sst w1)" using c by (auto simp: got_ref_def)
    have q: "quiet sst (sse_view sst ?w) (sse_view sst (sse_event_put r ?w2))"
      by (rule get_put_quiet [OF gr pending_quiet [OF c1]])
    then have "quiet sst (sse_view sst (sse_event_put r ?w2)) (sse_view sst w')"
      using "2.IH"(2) [OF g refl Inr] "2.prems"(1) g Inr by (auto simp: quiet_def kept_def)
    then show ?thesis using quiet_trans [OF q] by simp
  qed
qed

lemma view_ipi [simp]: "sse_view sst (w\<lparr>ipi_type := x\<rparr>) = sse_view sst w" "sse_view sst (w\<lparr>mmio := y\<rparr>) = sse_view sst w"
  by (simp_all add: sse_view_def ev_at_def hsm_system.defs cong: sse_ref.case_cong)

lemma raw_send_view:
  assumes "ipi_dev g = Some (aclint_mswi tab)"
  shows "sse_view sst (snd (sbi_ipi_raw_send g h w)) = sse_view sst w" "fst (sbi_ipi_raw_send g h w) \<noteq> SBI_IPI_UPDATE_RETRY"
  using assms by (simp_all add: sbi_ipi_raw_send_def aclint_mswi_def mswi_ipi_send_def ipi_updates sbi_errors split: option.splits)

lemma send_quiet:
  assumes "ipi_dev g = Some (aclint_mswi tab)" "event_ops g event = Some sse_ipi_inject_ops" "core_ok sst (sse_view sst w)"
    and "sbi_ipi_send g tab me h event d w = (Some rc, w')"
  shows "quiet sst (sse_view sst w) (sse_view sst w') \<and> rc \<noteq> SBI_IPI_UPDATE_RETRY"
proof -
  have trig: "quiet sst (sse_view sst w) (sse_view sst (snd (ipi_trigger g h event w))) \<and> fst (ipi_trigger g h event w) \<noteq> SBI_IPI_UPDATE_RETRY"
    using raw_send_view [OF assms(1)] assms(3) by (simp add: ipi_trigger_def ipi_type_or_def ipi_updates quiet_refl)
  show ?thesis
  proof (cases "sbi_hartindex_to_scratch tab h = None \<or> h \<noteq> me")
    case True
    then show ?thesis
      using assms(2-4) trig
      by (auto simp: sbi_ipi_send_def sse_ipi_inject_ops_def ipi_updates sbi_errors quiet_refl apfst_def map_prod_def split: if_splits prod.splits)
  next
    case False
    then have "sse_ipi_inject_process me w = (True, w')" "rc = 0"
      using assms(2,4) by (auto simp: sbi_ipi_send_def sse_ipi_inject_ops_def split: prod.splits if_splits)
    then show ?thesis
      using inject_loop_quiet [of me "inject_fifo w me" w w' sst] assms(3)
      by (auto simp: sse_ipi_inject_process_def ipi_updates split: option.splits)
  qed
qed

lemma pass_quiet:
  assumes "ipi_dev g = Some (aclint_mswi tab)" "event_ops g event = Some sse_ipi_inject_ops"
    and "core_ok sst (sse_view sst w)"
  shows "case ipi_pass (\<lambda>i. sbi_ipi_send g tab me i event d) hs t False w of
      Pass_done t' retry w' \<Rightarrow> \<not> retry \<and> quiet sst (sse_view sst w) (sse_view sst w')
    | Pass_error rc w' \<Rightarrow> quiet sst (sse_view sst w) (sse_view sst w') | Pass_left w' \<Rightarrow> True"
  using assms(3)
proof (induction hs arbitrary: t w)
  case Nil
  then show ?case by (simp add: quiet_refl)
next
  case (Cons h hs)
  obtain rc w1 where s: "sbi_ipi_send g tab me h event d w = (rc, w1)" by (cases "sbi_ipi_send g tab me h event d w")
  show ?case
  proof (cases rc)
    case None
    then show ?thesis using s by simp
  next
    case (Some r)
    note q = send_quiet [OF assms(1,2) Cons.prems s [unfolded Some]]
    then have "core_ok sst (sse_view sst w1)" by (simp add: quiet_def kept_def)
    from Cons.IH [OF this, of "sbi_hartmask_clear_hartindex h t"] show ?thesis
      using q s Some by (auto split: pass.splits intro: quiet_trans)
  qed
qed

lemma send_one_quiet:
  assumes "ipi_dev g = Some (aclint_mswi tab)" "event_ops g event = Some sse_ipi_inject_ops" "core_ok sst (sse_view sst w)"
    and "send_one g tab dm me hartid event w = Some (rc, w')"
  shows "quiet sst (sse_view sst w) (sse_view sst w')"
proof -
  let ?t = "ipi_targets tab dm w 1 hartid"
  note p = pass_quiet [OF assms(1-3), of me "()" "sbi_hartmask_harts ?t" ?t]
  obtain x where x: "ipi_passes (\<lambda>i. sbi_ipi_send g tab me i event ()) ?t w = Some (Some x, w')"
    using assms(2,4)
    by (auto simp: send_one_def sbi_ipi_send_many_def sbi_ipi_sync_def sse_ipi_inject_ops_def split: option.splits bind_splits)
  show ?thesis using x p by (subst (asm) ipi_passes.simps) (auto split: pass.splits if_splits)
qed


section \<open>Handlers\<close>

text \<open>A firmware that has been set up: the device, and the callback of the inter-processor interrupt.\<close>

definition sse_ready :: "(('p, 'a) sse_system_scheme, unit) ipi_globals \<Rightarrow> 'p sse_globals \<Rightarrow> scratch_state \<Rightarrow> bool" where
  "sse_ready g sg sst \<longleftrightarrow>
     ipi_dev g = Some (aclint_mswi sst) \<and> event_ops g (sse_ipi_inject_event sg) = Some sse_ipi_inject_ops"

lemma add_enabled:
  assumes "core_ok sst (sse_view sst w)" "r \<in> vV (sse_view sst w)" "sse_event_state (ev_at r w) = SBI_SSE_STATE_REGISTERED"
  shows "\<exists>w1. sse_event_add_to_list r (on_ev r (sse_event_set_state SBI_SSE_STATE_ENABLED) w) = Some w1 \<and>
    quiet sst (sse_view sst w) (sse_view sst w1) \<and>
    (\<forall>q. ev_at q w1 = (if q = r then sse_event_set_state SBI_SSE_STATE_ENABLED (ev_at r w) else ev_at q w))"
proof -
  let ?d = "sse_event_set_state SBI_SSE_STATE_ENABLED (ev_at r w)"
  let ?w = "on_ev r (sse_event_set_state SBI_SSE_STATE_ENABLED) w"
  note v = view_on_ev [OF assms(2), of "sse_event_set_state SBI_SSE_STATE_ENABLED"]
  have e: "ev_at q ?w = (if q = r then ?d else ev_at q w)" for q by (rule ev_at_on_ev [OF assms(2)])
  have h: "hartindex (ev_at r w) \<in> vH (sse_view sst w)" using core_event [OF assms(1,2)] by (simp add: event_ok_def)
  then have "shs_ptr ?w (hartindex (ev_at r ?w)) \<noteq> None" using v hart_init [of _ sst ?w] by (simp add: e)
  from view_add [OF this, of sst] obtain w1 where w1: "sse_event_add_to_list r ?w = Some w1"
    "sse_view sst w1 = (sse_view sst ?w)\<lparr>vL := (vL (sse_view sst ?w))(hartindex (ev_at r ?w) :=
      insert_where (\<lambda>t. sse_before (ev_at r ?w) (ev_at t ?w)) r (vL (sse_view sst ?w) (hartindex (ev_at r ?w))))\<rparr>" by blast
  have "quiet sst (sse_view sst w) (sse_view sst w1)"
    using quiet_enable [of sst "sse_view sst w" r ?d] assms event_ok_same [OF core_event [OF assms(1,2)], of ?d]
    unfolding w1(2) v e by (simp add: state_listed is_running_def fun_upd_def if_distrib [of event_id] cong: if_cong)
  moreover have "ev_at q w1 = ev_at q ?w" for q using arg_cong [OF w1(2), of "\<lambda>v. vev v q"] by simp
  ultimately show ?thesis using w1(1) e by auto
qed

lemma event_enable_quiet:
  assumes "sse_ready g sg sst" "core_ok sst (sse_view sst w)" "r \<in> vV (sse_view sst w)"
    and "sse_event_enable g sg sst dm me r w = Some (rc, w')"
  shows "quiet sst (sse_view sst w) (sse_view sst w')"
proof (cases "sse_event_state (ev_at r w) = SBI_SSE_STATE_REGISTERED")
  case True
  obtain w1 where w1: "sse_event_add_to_list r (on_ev r (sse_event_set_state SBI_SSE_STATE_ENABLED) w) = Some w1"
    "quiet sst (sse_view sst w) (sse_view sst w1)" using add_enabled [OF assms(2,3) True] by blast
  then have q: "quiet sst (sse_view sst w) (sse_view sst (sse_event_invoke_cb enable_cb sg me r w1))" by simp
  moreover have "core_ok sst (sse_view sst w1)" using q by (simp add: quiet_def kept_def)
  ultimately show ?thesis
    using assms(1,4) True w1(1) send_one_quiet [of g sst "sse_ipi_inject_event sg" sst "sse_event_invoke_cb enable_cb sg me r w1" dm me]
    by (auto simp: sse_event_enable_def Let_def sse_ready_def split: if_splits intro: quiet_trans)
next
  case False
  then show ?thesis using assms(2,4) by (simp add: sse_event_enable_def quiet_refl)
qed

text \<open>A quiet change under the lock of the event's list.\<close>

lemma locked_kept:
  assumes "sse_enabled_event_lock r w1 = Some w2" "quiet sst (sse_view sst w2) (sse_view sst w3)"
  shows "kept sst (sse_view sst w1) (sse_view sst (sse_enabled_event_unlock r w3))"
proof -
  let ?h = "hartindex (ev_at r w1)"
  have s: "shs_ptr w1 ?h \<noteq> None" using assms(1) by (auto simp: sse_enabled_event_lock_def list_spin_lock_def split: option.splits)
  note l = view_list_lock [OF s, of sst]
  have w2: "?h \<notin> vLL (sse_view sst w1)" "sse_view sst w2 = (sse_view sst w1)\<lparr>vLL := insert ?h (vLL (sse_view sst w1))\<rparr>"
    using assms(1) l(1,2) by (auto simp: sse_enabled_event_lock_def split: if_splits)
  have h: "hartindex (ev_at r w3) = ?h"
    using assms(2) w2(2) vev_at [of sst w2 r] by (simp add: quiet_def)
  have "shs_ptr w3 ?h \<noteq> None" using s assms(2) w2(2) hart_init [of ?h sst] by (auto simp: quiet_def kept_def)
  from view_list_lock(3) [OF this, of sst] show "kept sst (sse_view sst w1) (sse_view sst (sse_enabled_event_unlock r w3))"
    using assms(2) w2 by (auto simp: sse_enabled_event_unlock_def h quiet_def kept_def)
qed

lemma lock_core:
  assumes "sse_enabled_event_lock r w1 = Some w2" "core_ok sst (sse_view sst w1)"
  shows "core_ok sst (sse_view sst w2)" "vV (sse_view sst w2) = vV (sse_view sst w1)"
proof -
  let ?h = "hartindex (ev_at r w1)"
  have s: "shs_ptr w1 ?h \<noteq> None" using assms(1) by (auto simp: sse_enabled_event_lock_def list_spin_lock_def split: option.splits)
  have "sse_view sst w2 = (sse_view sst w1)\<lparr>vLL := insert ?h (vLL (sse_view sst w1))\<rparr>"
    using assms(1) view_list_lock(1,2) [OF s, of sst] by (auto simp: sse_enabled_event_lock_def split: if_splits)
  then show "core_ok sst (sse_view sst w2)" "vV (sse_view sst w2) = vV (sse_view sst w1)" using assms(2) by simp_all
qed

text \<open>The common frame of the handlers: look the event up, work on it, put it back.\<close>

lemma with_event_kept:
  assumes "core_ok sst (sse_view sst w)" "sse_event_get me eid w = Some (got, w1)"
    and "\<And>r. got = Inr r \<Longrightarrow> got_ref sst me eid w r w1 \<Longrightarrow> core_ok sst (sse_view sst w1) \<Longrightarrow> r \<in> vV (sse_view sst w1) \<Longrightarrow>
      kept sst (sse_view sst w1) (sse_view sst (f r))"
  shows "kept sst (sse_view sst w) (sse_view sst (case got of Inl rc \<Rightarrow> w1 | Inr r \<Rightarrow> sse_event_put r (f r)))"
proof -
  have "vcounts (sse_view sst w)" using assms(1) by (simp add: core_ok_def)
  note g = sse_event_get_cases [OF assms(2) this]
  show ?thesis
  proof (cases got)
    case (Inl rc)
    then show ?thesis using g assms(1) by (simp add: kept_refl)
  next
    case (Inr r)
    then have gr: "got_ref sst me eid w r w1" using g by simp
    then have "core_ok sst (sse_view sst w1)" "r \<in> vV (sse_view sst w1)" using assms(1) by (auto simp: got_ref_def)
    then show ?thesis using Inr get_put_kept [OF gr assms(3) [OF Inr gr]] by simp
  qed
qed

lemma enable_kept:
  assumes "sse_ready g sg sst" "core_ok sst (sse_view sst w)" "sbi_sse_enable g sg sst dm me eid w = Some (rc, w')"
  shows "kept sst (sse_view sst w) (sse_view sst w')"
proof -
  obtain got w1 where g: "sse_event_get me eid w = Some (got, w1)"
    using assms(3) by (auto simp: sbi_sse_enable_def split: bind_splits)
  show ?thesis
  proof (cases got)
    case (Inl e)
    then show ?thesis using with_event_kept [OF assms(2) g, of "\<lambda>_. w1"] g assms(3) by (simp add: sbi_sse_enable_def)
  next
    case (Inr r)
    obtain w2 w3 where s: "sse_enabled_event_lock r w1 = Some w2" "sse_event_enable g sg sst dm me r w2 = Some (rc, w3)"
      "w' = sse_event_put r (sse_enabled_event_unlock r w3)"
      using assms(3) g Inr by (auto simp: sbi_sse_enable_def split: bind_splits)
    then show ?thesis
      using with_event_kept [OF assms(2) g, of "\<lambda>_. sse_enabled_event_unlock r w3"] Inr
        locked_kept [OF s(1) event_enable_quiet [OF assms(1) _ _ s(2)]] lock_core [OF s(1)] by simp
  qed
qed

lemma disable_kept:
  assumes "core_ok sst (sse_view sst w)" "sbi_sse_disable sg me eid w = Some (rc, w')"
  shows "kept sst (sse_view sst w) (sse_view sst w')"
proof -
  obtain got w1 where g: "sse_event_get me eid w = Some (got, w1)"
    using assms(2) by (auto simp: sbi_sse_disable_def split: bind_splits)
  show ?thesis
  proof (cases got)
    case (Inl e)
    then show ?thesis using with_event_kept [OF assms(1) g, of "\<lambda>_. w1"] g assms(2) by (simp add: sbi_sse_disable_def)
  next
    case (Inr r)
    obtain w2 where s: "sse_enabled_event_lock r w1 = Some w2"
      "w' = sse_event_put r (sse_enabled_event_unlock r (snd (sse_event_disable sg me r w2)))"
      using assms(2) g Inr by (auto simp: sbi_sse_disable_def split: bind_splits prod.splits)
    then show ?thesis
      using with_event_kept [OF assms(1) g, of "\<lambda>_. sse_enabled_event_unlock r (snd (sse_event_disable sg me r w2))"] Inr
        locked_kept [OF s(1) disable_quiet] lock_core [OF s(1)] by simp
  qed
qed


lemma register_handler_kept:
  assumes "core_ok sst (sse_view sst w)" "sbi_sse_register fuel sg dm me eid pc arg w = Some (rc, w')"
  shows "kept sst (sse_view sst w) (sse_view sst w')"
proof (cases "w' = w")
  case False
  obtain got w1 where g: "sse_event_get me eid w = Some (got, w1)"
    and w': "w' = (case got of Inl rc \<Rightarrow> w1 | Inr r \<Rightarrow> sse_event_put r (snd (sse_event_register sg me r pc arg w1)))"
    using assms(2) False by (auto simp: sbi_sse_register_def split: bind_splits if_splits sum.splits prod.splits)
  show ?thesis unfolding w' by (rule with_event_kept [OF assms(1) g]) (rule register_kept)
qed (simp add: kept_refl assms)

lemma unregister_handler_kept:
  assumes "core_ok sst (sse_view sst w)" "sbi_sse_unregister sg me eid w = Some (rc, w')"
  shows "kept sst (sse_view sst w) (sse_view sst w')"
proof -
  obtain got w1 where g: "sse_event_get me eid w = Some (got, w1)"
    and w': "w' = (case got of Inl rc \<Rightarrow> w1 | Inr r \<Rightarrow> sse_event_put r (snd (sse_event_unregister sg me r w1)))"
    using assms(2) by (auto simp: sbi_sse_unregister_def split: bind_splits sum.splits prod.splits)
  show ?thesis unfolding w' by (rule with_event_kept [OF assms(1) g]) (rule unregister_kept)
qed

lemma read_attrs_kept:
  assumes "core_ok sst (sse_view sst w)" "sbi_sse_read_attrs fuel dm me eid b n lo hi w = Some (rc, w')"
  shows "kept sst (sse_view sst w) (sse_view sst w')"
proof (cases "w' = w")
  case False
  let ?f = "\<lambda>w1 r. w1\<lparr>smem := copy_attrs lo (drop (unat b) (attr_longs (attrs (ev_at r w1)))) (unat n) (smem w1)\<rparr>"
  obtain got w1 where g: "sse_event_get me eid w = Some (got, w1)"
    and w': "w' = (case got of Inl rc \<Rightarrow> w1 | Inr r \<Rightarrow> sse_event_put r (?f w1 r))"
    using assms(2) False by (auto simp: sbi_sse_read_attrs_def Let_def split: bind_splits if_splits sum.splits prod.splits)
  show ?thesis unfolding w' by (rule with_event_kept [OF assms(1) g]) (simp add: kept_refl)
qed (simp add: kept_refl assms)

lemma mask_kept:
  assumes "core_ok sst (sse_view sst w)"
  shows "kept sst (sse_view sst w) (sse_view sst (snd (sbi_sse_hart_mask me w)))"
    and "kept sst (sse_view sst w) (sse_view sst (snd (sbi_sse_hart_unmask me w)))"
proof -
  have "sse_view sst (on_shs me (\<lambda>s. s\<lparr>masked := b\<rparr>) w) = sse_view sst w" for b
  proof -
    have "(\<lambda>k. case shs_ptr w k of None \<Rightarrow> [] | Some s \<Rightarrow> enabled_event_list (if k = me then s\<lparr>masked := b\<rparr> else s)) = vL (sse_view sst w)"
      by (auto simp: sse_view_def fun_eq_iff split: option.splits)
    moreover have "{k. \<exists>s. shs_ptr w k = Some s \<and> enabled_event_lock (if k = me then s\<lparr>masked := b\<rparr> else s)} = vLL (sse_view sst w)"
      by (auto simp: sse_view_def split: if_splits)
    ultimately show ?thesis by (subst view_on_shs) simp_all
  qed
  then show "kept sst (sse_view sst w) (sse_view sst (snd (sbi_sse_hart_mask me w)))"
    "kept sst (sse_view sst w) (sse_view sst (snd (sbi_sse_hart_unmask me w)))"
    using assms by (simp_all add: sbi_sse_hart_mask_def sbi_sse_hart_unmask_def kept_refl split: option.splits)
qed

text \<open>Writing attributes: the checks of the first loop are what the second needs.\<close>

definition attr_fits :: "scratch_state \<Rightarrow> sse_view \<Rightarrow> sbi_sse_event \<Rightarrow> u32 \<Rightarrow> u64 \<Rightarrow> bool" where
  "attr_fits sst v e attr_id val \<longleftrightarrow>
     (attr_id = SBI_SSE_ATTR_PRIO \<or> attr_id = SBI_SSE_ATTR_PREFERRED_HART \<longrightarrow> \<not> on_list e) \<and>
     (attr_id = SBI_SSE_ATTR_PREFERRED_HART \<longrightarrow>
        sse_event_is_global e \<and> sbi_hartid_to_hartindex sst (ucast val) \<in> vH v)"

lemma check_fits:
  assumes "sse_event_set_attr_check sst dm me e attr_id val w = 0" "vstarted (sse_view sst w)"
  shows "attr_fits sst (sse_view sst w) e attr_id val"
  using assms
  by (auto simp: attr_fits_def sse_event_set_attr_check_def sse_event_set_hart_id_check_def on_list_def sse_attr_ids sbi_errors Let_def
      sbi_hsm_hart_get_state_def sse_view_def hsm_states split: if_splits)

lemma set_attr_state:
  assumes "r \<in> vV (sse_view sst w)"
  shows "sse_event_state (ev_at r (sse_event_set_attr sst' sg me r attr_id val w)) = sse_event_state (ev_at r w) \<and>
    event_id (ev_at r (sse_event_set_attr sst' sg me r attr_id val w)) = event_id (ev_at r w)"
proof -
  let ?w = "on_ev r (on_attrs (\<lambda>a. a\<lparr>at_hartid := val\<rparr>)) w"
  have "r \<in> vV (sse_view sst ?w)" using view_on_ev [OF assms, of "on_attrs (\<lambda>a. a\<lparr>at_hartid := val\<rparr>)"] assms by simp
  note e = ev_at_on_ev [OF assms] ev_at_on_ev [OF this]
  show ?thesis
    by (simp add: sse_event_set_attr_def Let_def e on_attrs_def on_interrupted_def sse_event_state_def)
qed

lemma set_attr_kept:
  assumes "core_ok sst (sse_view sst w)" "r \<in> vV (sse_view sst w)" "attr_fits sst (sse_view sst w) (ev_at r w) attr_id val"
  shows "kept sst (sse_view sst w) (sse_view sst (sse_event_set_attr sst sg me r attr_id val w))"
proof -
  note ok = core_event [OF assms(1,2)]
  consider "attr_id = SBI_SSE_ATTR_PRIO" | "attr_id = SBI_SSE_ATTR_PREFERRED_HART"
    | "attr_id \<noteq> SBI_SSE_ATTR_PRIO" "attr_id \<noteq> SBI_SSE_ATTR_PREFERRED_HART" by blast
  then show ?thesis
  proof cases
    case 1
    let ?f = "on_attrs (\<lambda>a. a\<lparr>at_prio := ucast (ucast val :: u32)\<rparr>)"
    have "event_ok (current_hartid sst) (vH (sse_view sst w)) r (?f (ev_at r w))"
      by (rule event_ok_same [OF ok]) (simp_all add: on_attrs_def is_running_def sse_event_state_def)
    then have "kept sst (sse_view sst w) (sse_view sst (on_ev r ?f w))"
      using assms 1 by (intro kept_unlisted_ev) (simp_all add: attr_fits_def on_attrs_def on_list_def sse_event_state_def)
    then show ?thesis using 1 by (simp add: sse_event_set_attr_def sse_attr_ids)
  next
    case 2
    let ?f = "\<lambda>e. (on_attrs (\<lambda>a. a\<lparr>at_hartid := val\<rparr>) e)\<lparr>hartindex := sbi_hartid_to_hartindex sst (ucast val)\<rparr>"
    let ?w = "on_ev r (on_attrs (\<lambda>a. a\<lparr>at_hartid := val\<rparr>)) w"
    have f: "\<not> on_list (ev_at r w)" "sse_event_is_global (ev_at r w)" "sbi_hartid_to_hartindex sst (ucast val) \<in> vH (sse_view sst w)"
      using assms(3) 2 by (auto simp: attr_fits_def)
    have st: "sse_event_state (?f (ev_at r w)) = sse_event_state (ev_at r w)" by (simp add: on_attrs_def sse_event_state_def)
    have "event_ok (current_hartid sst) (vH (sse_view sst w)) r (?f (ev_at r w))"
      using ok f st by (auto simp: event_ok_def home_ok_def on_attrs_def sse_event_is_global_def on_list_def is_running_def sse_states split: sse_ref.splits)
    then have k: "kept sst (sse_view sst w) (sse_view sst (on_ev r ?f w))"
      using assms f st by (intro kept_unlisted_ev) (simp_all add: on_list_def on_attrs_def)
    have "r \<in> vV (sse_view sst ?w)" using view_on_ev [OF assms(2), of "on_attrs (\<lambda>a. a\<lparr>at_hartid := val\<rparr>)"] assms(2) by simp
    then have "sse_view sst (on_ev r (\<lambda>e. e\<lparr>hartindex := sbi_hartid_to_hartindex sst (ucast val)\<rparr>) ?w) = sse_view sst (on_ev r ?f w)"
      using assms(2) by (simp add: ev_at_on_ev)
    then show ?thesis using 2 k by (simp add: sse_event_set_attr_def sse_attr_ids Let_def)
  next
    case 3
    have q: "kept sst (sse_view sst w) (sse_view sst (on_ev r f w))"
      if "\<And>e. event_id (f e) = event_id e \<and> hartindex (f e) = hartindex e \<and> at_hartid (attrs (f e)) = at_hartid (attrs e) \<and>
        at_prio (attrs (f e)) = at_prio (attrs e) \<and> sse_event_state (f e) = sse_event_state e" for f
      using quiet_same [OF assms(1,2), of f] that by (simp add: quiet_def del: view_on_ev)
    show ?thesis
      using 3 assms(1) q
      by (simp add: sse_event_set_attr_def kept_refl on_attrs_def on_interrupted_def sse_event_state_def del: view_on_ev)
  qed
qed

lemma set_attrs_kept:
  assumes "core_ok sst (sse_view sst w)" "r \<in> vV (sse_view sst w)"
    and "\<And>a x. (a, x) \<in> set avs \<Longrightarrow> attr_fits sst (sse_view sst w) (ev_at r w) a x"
  shows "kept sst (sse_view sst w) (sse_view sst (set_attrs sst sg me r avs w))"
  using assms
proof (induction sst sg me r avs w rule: set_attrs.induct)
  case (2 sst sg me r a x avs w)
  let ?w = "sse_event_set_attr sst sg me r a x w"
  have k: "kept sst (sse_view sst w) (sse_view sst ?w)" using "2.prems" by (intro set_attr_kept) auto
  have fits: "attr_fits sst (sse_view sst ?w) (ev_at r ?w) = attr_fits sst (sse_view sst w) (ev_at r w)"
    using k set_attr_state [OF "2.prems"(2), of sst sg me a x]
    by (simp add: fun_eq_iff attr_fits_def kept_def on_list_def sse_event_is_global_def)
  have "kept sst (sse_view sst ?w) (sse_view sst (set_attrs sst sg me r avs ?w))"
    using k "2.prems" by (intro "2.IH") (auto simp: kept_def fits)
  then show ?case using kept_trans [OF k] by simp
qed (simp add: kept_refl)

lemma check_attrs_fits:
  assumes "check_attrs sst dm me e avs w = 0" "vstarted (sse_view sst w)" "(a, x) \<in> set avs"
  shows "attr_fits sst (sse_view sst w) e a x"
  using assms
proof (induction sst dm me e avs w rule: check_attrs.induct)
  case (2 sst dm me e b y avs w)
  then show ?case using check_fits [of sst dm me e b y w] by (auto simp: Let_def split: if_splits)
qed simp

lemma write_attrs_kept:
  assumes "core_ok sst (sse_view sst w)" "sbi_sse_write_attrs fuel sst sg dm me eid b n lo hi w = Some (rc, w')"
  shows "kept sst (sse_view sst w) (sse_view sst w')"
proof (cases "w' = w")
  case False
  let ?f = "\<lambda>w1 r. snd (sse_write_attrs sst sg dm me r b n lo w1)"
  obtain got w1 where g: "sse_event_get me eid w = Some (got, w1)"
    and w': "w' = (case got of Inl rc \<Rightarrow> w1 | Inr r \<Rightarrow> sse_event_put r (?f w1 r))"
    using assms(2) False by (auto simp: sbi_sse_write_attrs_def split: bind_splits if_splits sum.splits prod.splits)
  show ?thesis
    unfolding w'
  proof (rule with_event_kept [OF assms(1) g])
    fix r assume "core_ok sst (sse_view sst w1)" "r \<in> vV (sse_view sst w1)"
    then show "kept sst (sse_view sst w1) (sse_view sst (?f w1 r))"
      using check_attrs_fits [of sst dm me "ev_at r w1" "attr_values b n lo (smem w1)" w1]
      by (auto simp: sse_write_attrs_def Let_def kept_refl core_ok_def intro!: set_attrs_kept)
  qed
qed (simp add: kept_refl assms)


lemma inject_send_kept:
  assumes "sse_ready g sg sst" "core_ok sst (sse_view sst w)" "sse_ipi_inject_send g sg sst dm me hartid eid w = Some (rc, w')"
  shows "kept sst (sse_view sst w) (sse_view sst w')"
proof (cases "w' = w")
  case False
  then obtain q x where "send_one g sst dm me hartid (sse_ipi_inject_event sg) (w\<lparr>inject_fifo := q\<rparr>) = Some (x, w')"
    using assms(3) by (auto simp: sse_ipi_inject_send_def Let_def split: if_splits)
  then show ?thesis
    using send_one_quiet [of g sst "sse_ipi_inject_event sg" sst "w\<lparr>inject_fifo := q\<rparr>"] assms(1,2) by (simp add: sse_ready_def quiet_def)
qed (simp add: kept_refl assms)

lemma inject_event_kept:
  assumes "sse_ready g sg sst" "core_ok sst (sse_view sst w)" "sse_inject_event g sg sst dm me eid hartid w = Some (rc, w')"
  shows "kept sst (sse_view sst w) (sse_view sst w')"
proof -
  obtain got w1 where g: "sse_event_get me eid w = Some (got, w1)"
    using assms(3) by (auto simp: sse_inject_event_def split: bind_splits)
  show ?thesis
  proof (cases got)
    case (Inl e)
    then show ?thesis using with_event_kept [OF assms(2) g, of "\<lambda>_. w1"] g assms(3) by (simp add: sse_inject_event_def)
  next
    case (Inr r)
    have p: "kept sst (sse_view sst w) (sse_view sst (sse_event_put r w1))"
      using with_event_kept [OF assms(2) g, of "\<lambda>_. w1"] Inr by (simp add: kept_refl)
    have s: "kept sst (sse_view sst w) (sse_view sst (sse_event_put r (snd (sse_event_set_pending r w1))))"
      using with_event_kept [OF assms(2) g, of "\<lambda>r. snd (sse_event_set_pending r w1)"] Inr pending_quiet [of sst w1 r]
      by (simp add: quiet_def)
    let ?h = "if sse_event_is_global (ev_at r w1) then at_hartid (attrs (ev_at r w1)) else hartid"
    show ?thesis
    proof (cases "?h = current_hartid sst me")
      case True
      then have "w' = sse_event_put r (snd (sse_event_set_pending r w1))"
        using assms(3) g Inr by (auto simp: sse_inject_event_def Let_def split: prod.splits if_splits)
      then show ?thesis using s by simp
    next
      case False
      then have "sse_ipi_inject_send g sg sst dm me ?h eid (sse_event_put r w1) = Some (rc, w')"
        using assms(3) g Inr by (auto simp: sse_inject_event_def Let_def split: if_splits)
      moreover have "core_ok sst (sse_view sst (sse_event_put r w1))" using p by (simp add: kept_def)
      ultimately show ?thesis using kept_trans [OF p inject_send_kept [OF assms(1)]] by blast
    qed
  qed
qed

section \<open>Injection and completion\<close>

text \<open>The event the loop at the end of a trap stops at, and the state after its injection.\<close>

definition next_event :: "scratch_state \<Rightarrow> nat \<Rightarrow> ('p, 'a) sse_system_scheme \<Rightarrow> sse_ref list \<Rightarrow> sse_ref option" where
  "next_event sst me w rs = find (\<lambda>r. is_running (ev_at r w) \<or> sse_event_is_ready (current_hartid sst me) (ev_at r w)) rs"

definition injected ::
  "scratch_state \<Rightarrow> nat \<Rightarrow> sse_ref \<Rightarrow> sbi_trap_regs \<times> ('p, 'a) sse_system_scheme \<Rightarrow> sbi_trap_regs \<times> ('p, 'a) sse_system_scheme" where
  "injected sst me r s =
     (case sse_event_inject (current_hartid sst me) (ev_at r (snd s), fst s, lcsrs (snd s) me) of
        (e, regs, c) \<Rightarrow> (regs, on_ev r (\<lambda>_. e) ((snd s)\<lparr>lcsrs := (lcsrs (snd s))(me := c)\<rparr>)))"

lemma process_loop_next:
  "process_loop sst me rs (regs, w) =
     (case next_event sst me w rs of
        None \<Rightarrow> (regs, w)
      | Some r \<Rightarrow> if is_running (ev_at r w) then (regs, w) else injected sst me r (regs, w))"
  by (induction rs)
    (auto simp: next_event_def sse_event_check_inject_def injected_def is_running_def split: prod.splits)

lemma ready_state: "sse_event_is_ready hid e \<longleftrightarrow>
    sse_event_pending e \<and> sse_event_state e = SBI_SSE_STATE_ENABLED \<and> at_hartid (attrs e) = hid"
  by (auto simp: sse_event_is_ready_def)

lemma inject_event_fields:
  assumes "sse_event_inject hartid (e, r, c) = (e', r', c')"
  shows "event_id e' = event_id e" "hartindex e' = hartindex e" "at_prio (attrs e') = at_prio (attrs e)"
    "at_hartid (attrs e') = at_hartid (attrs e)" "is_running e'" "\<not> sse_event_pending e'"
  unfolding inject_event [OF assms] is_running_def pending_bit sse_event_state_def
  by (simp_all add: on_interrupted_def on_attrs_def set_status_def running_status_state)
    (simp add: running_status_def SBI_SSE_ATTR_STATUS_PENDING_OFFSET_def bit_not_iff bit_BIT_small)

text \<open>The view of the state with one more, or one less, running event.\<close>

lemma listed_hart:
  assumes "core_ok sst (sse_view sst w)" "r \<in> set (vL (sse_view sst w) h)"
  shows "r \<in> vV (sse_view sst w)" "hartindex (ev_at r w) = h" "on_list (ev_at r w)" "h \<in> vH (sse_view sst w)"
proof -
  have "h \<in> vH (sse_view sst w)" using assms(2) by (cases "shs_ptr w h") (simp_all add: sse_view_def)
  moreover from this have "list_ok (vV (sse_view sst w)) (vev (sse_view sst w)) h (vL (sse_view sst w) h)"
    using assms(1) by (simp add: core_ok_def events_ok_def)
  ultimately show "r \<in> vV (sse_view sst w)" "hartindex (ev_at r w) = h" "on_list (ev_at r w)" "h \<in> vH (sse_view sst w)"
    using assms(2) by (auto simp: list_ok_def)
qed

lemma filter_add_first:
  assumes "find (\<lambda>q. P q \<or> R q) rs = Some r" "\<not> P r" "distinct rs"
  shows "filter (\<lambda>q. q = r \<or> P q) rs = r # filter P rs"
  using assms
proof (induction rs)
  case (Cons q rs)
  show ?case
  proof (cases "q = r")
    case True
    then have "filter (\<lambda>x. x = r \<or> P x) rs = filter P rs" using Cons.prems(3) by (intro filter_cong) auto
    then show ?thesis using True Cons.prems(2) by simp
  next
    case False
    then show ?thesis using Cons by (auto split: if_splits)
  qed
qed simp

lemma inject_running:
  assumes inv: "core_ok sst (sse_view sst w)" and nxt: "next_event sst me w (vL (sse_view sst w) me) = Some r"
    and fresh: "\<not> is_running (ev_at r w)" and res: "injected sst me r (regs, w) = (regs', w')"
  shows "core_ok sst (sse_view sst w')" "vGL (sse_view sst w') = vGL (sse_view sst w)" "vLL (sse_view sst w') = vLL (sse_view sst w)"
    "vV (sse_view sst w') = vV (sse_view sst w)" "vH (sse_view sst w') = vH (sse_view sst w)"
    "running (sse_view sst w') = (running (sse_view sst w))(me := r # running (sse_view sst w) me)"
proof -
  let ?v = "sse_view sst w" and ?hid = "current_hartid sst me"
  have r: "r \<in> set (vL ?v me)" using nxt by (auto simp: next_event_def find_Some_iff)
  note l = listed_hart [OF inv r]
  have rdy: "sse_event_is_ready ?hid (ev_at r w)" using nxt fresh by (auto simp: next_event_def find_Some_iff)
  obtain e c where i: "sse_event_inject ?hid (ev_at r w, regs, lcsrs w me) = (e, regs', c)"
    and w': "w' = on_ev r (\<lambda>_. e) (w\<lparr>lcsrs := (lcsrs w)(me := c)\<rparr>)"
    using res by (auto simp: injected_def split: prod.splits)
  have v': "sse_view sst w' = ?v\<lparr>vev := (vev ?v)(r := e)\<rparr>"
    unfolding w' using l(1) by (subst view_on_ev) simp_all
  note f = inject_event_fields [OF i]
  have "same_place e (vev ?v r)" using f l(3) by (simp add: same_place_def state_listed)
  moreover have "event_ok (current_hartid sst) (vH ?v) r e"
    using core_event [OF inv l(1)] f rdy l(2) by (auto simp: event_ok_def home_ok_def ready_state split: sse_ref.splits)
  ultimately have "events_ok (current_hartid sst) (vV ?v) (vH ?v) ((vev ?v)(r := e)) (vL ?v)"
    using inv by (intro events_ok_place) (simp_all add: core_ok_def)
  then show "core_ok sst (sse_view sst w')" using inv by (simp add: core_ok_def v')
  show "vGL (sse_view sst w') = vGL ?v" "vLL (sse_view sst w') = vLL ?v" "vV (sse_view sst w') = vV ?v" "vH (sse_view sst w') = vH ?v"
    by (simp_all add: v')
  have d: "distinct (vL ?v me)" using inv l(4) by (simp add: core_ok_def events_ok_def list_ok_def)
  have ru: "is_running (((vev ?v)(r := e)) q) \<longleftrightarrow> q = r \<or> is_running (ev_at q w)" for q using f(5) by simp
  have "running (sse_view sst w') me = r # running ?v me"
    unfolding running_def v' using filter_add_first [OF nxt [unfolded next_event_def] fresh d] by (simp add: ru del: fun_upd_apply)
  moreover have "running (sse_view sst w') h = running ?v h" if "h \<noteq> me" for h
  proof -
    have "r \<notin> set (vL ?v h)" using listed_hart(2) [OF inv, of r h] l(2) that by auto
    then show ?thesis unfolding running_def v' by (intro filter_cong) auto
  qed
  ultimately show "running (sse_view sst w') = (running ?v)(me := r # running ?v me)" by auto
qed


lemma lcsrs_frame [simp]:
  "lcsrs (on_shs h f w) = lcsrs w" "lcsrs (on_ev r g w) = lcsrs w" "lcsrs (sse_event_remove_from_list r w) = lcsrs w"
  "lcsrs (sse_event_invoke_cb cb sg me r w) = lcsrs w"
  by (simp_all add: on_ev_def on_shs_def sse_event_remove_from_list_def sse_event_invoke_cb_def split: sse_ref.splits option.splits)

lemma filter_drop_first:
  assumes "find P rs = Some r" "distinct rs"
  shows "filter (\<lambda>q. q \<noteq> r \<and> P q) rs = tl (filter P rs)" "filter P rs \<noteq> []" "hd (filter P rs) = r"
proof -
  have "filter (\<lambda>q. q \<noteq> r \<and> P q) rs = tl (filter P rs) \<and> filter P rs \<noteq> [] \<and> hd (filter P rs) = r"
    using assms
  proof (induction rs)
    case (Cons q rs)
    show ?case
    proof (cases "P q")
      case True
      then have "filter (\<lambda>x. x \<noteq> r \<and> P x) rs = filter P rs" using Cons.prems by (intro filter_cong) auto
      then show ?thesis using True Cons.prems by simp
    next
      case False
      then show ?thesis using Cons by auto
    qed
  qed simp
  then show "filter (\<lambda>q. q \<noteq> r \<and> P q) rs = tl (filter P rs)" "filter P rs \<noteq> []" "hd (filter P rs) = r" by simp_all
qed

lemma complete_running:
  assumes inv: "core_ok sst (sse_view sst w)"
    and fst_run: "find (\<lambda>r. is_running (ev_at r w)) (vL (sse_view sst w) me) = Some r"
    and res: "sse_event_complete sst sg me r (regs, w) = (ret, skip, regs', w')"
  shows "ret = SBI_OK" "skip" "core_ok sst (sse_view sst w')" "vGL (sse_view sst w') = vGL (sse_view sst w)"
    "vLL (sse_view sst w') = vLL (sse_view sst w)" "vV (sse_view sst w') = vV (sse_view sst w)" "vH (sse_view sst w') = vH (sse_view sst w)"
    "running (sse_view sst w') = (running (sse_view sst w))(me := tl (running (sse_view sst w) me))"
    "sse_event_resume (at_interrupted (attrs (ev_at r w))) (regs, lcsrs w me) = (regs', lcsrs w' me)"
proof -
  let ?v = "sse_view sst w"
  have r: "r \<in> set (vL ?v me)" "is_running (ev_at r w)" using fst_run by (auto simp: find_Some_iff)
  note l = listed_hart [OF inv r(1)]
  have hid: "at_hartid (attrs (ev_at r w)) = current_hartid sst me"
    using core_event [OF inv l(1)] r(2) l(2) by (simp add: event_ok_def)
  let ?f = "sse_event_set_state SBI_SSE_STATE_ENABLED"
  define w1 where "w1 = on_ev r ?f w"
  define w2 where "w2 = (if at_config (attrs (ev_at r w1)) AND SBI_SSE_ATTR_CONFIG_ONESHOT \<noteq> 0 then snd (sse_event_disable sg me r w1) else w1)"
  define w3 where "w3 = sse_event_invoke_cb complete_cb sg me r w2"
  obtain c where c: "sse_event_resume (at_interrupted (attrs (ev_at r w3))) (regs, lcsrs w3 me) = (regs', c)"
    and w': "ret = SBI_OK" "skip" "w' = w3\<lparr>lcsrs := (lcsrs w3)(me := c)\<rparr>"
    using res r(2) hid unfolding sse_event_complete_def Let_def w1_def w2_def w3_def is_running_def by (auto split: prod.splits)
  have v1: "sse_view sst w1 = ?v\<lparr>vev := (vev ?v)(r := ?f (ev_at r w))\<rparr>" unfolding w1_def by (rule view_on_ev [OF l(1)])
  have "same_place (?f (ev_at r w)) (vev ?v r)" using l(3) by (simp add: same_place_def state_listed)
  moreover have "event_ok (current_hartid sst) (vH ?v) r (?f (ev_at r w))"
    by (rule event_ok_same [OF core_event [OF inv l(1)]]) (simp_all add: r(2))
  ultimately have "events_ok (current_hartid sst) (vV ?v) (vH ?v) ((vev ?v)(r := ?f (ev_at r w))) (vL ?v)"
    using inv by (intro events_ok_place) (simp_all add: core_ok_def)
  then have c1: "core_ok sst (sse_view sst w1)" using inv by (simp add: core_ok_def v1)
  have d: "distinct (vL ?v me)" using inv l(4) by (simp add: core_ok_def events_ok_def list_ok_def)
  have ru: "is_running (((vev ?v)(r := ?f (ev_at r w))) q) \<longleftrightarrow> q \<noteq> r \<and> is_running (ev_at q w)" for q by (simp add: is_running_def)
  have "running (sse_view sst w1) me = tl (running ?v me)"
    unfolding running_def v1 using filter_drop_first(1) [OF fst_run d] by (simp add: ru del: fun_upd_apply)
  moreover have "running (sse_view sst w1) h = running ?v h" if "h \<noteq> me" for h
  proof -
    have "r \<notin> set (vL ?v h)" using listed_hart(2) [OF inv, of r h] l(2) that by auto
    then show ?thesis unfolding running_def v1 by (intro filter_cong) auto
  qed
  ultimately have run1: "running (sse_view sst w1) = (running ?v)(me := tl (running ?v me))" by auto
  have q: "quiet sst (sse_view sst w1) (sse_view sst w2)"
    unfolding w2_def using disable_quiet [OF c1, of r sg me] c1 l(1) v1 by (simp add: quiet_refl)
  have "sse_view sst w' = sse_view sst w2" by (simp add: w'(3) w3_def)
  then show "core_ok sst (sse_view sst w')" "vGL (sse_view sst w') = vGL ?v" "vLL (sse_view sst w') = vLL ?v"
    "vV (sse_view sst w') = vV ?v" "vH (sse_view sst w') = vH ?v" "running (sse_view sst w') = (running ?v)(me := tl (running ?v me))"
    using q v1 run1 by (simp_all add: quiet_def kept_def)
  show "ret = SBI_OK" "skip" by (fact w')+
  have r1: "r \<in> vV (sse_view sst w1)" using v1 l(1) by simp
  have "at_interrupted (attrs (ev_at r w2)) = at_interrupted (attrs (ev_at r w1))"
  proof -
    let ?x = "sse_event_remove_from_list r (sse_event_invoke_cb disable_cb sg me r w1)"
    have "r \<in> vV (sse_view sst ?x)" using r1 by simp
    from ev_at_on_ev [OF this] show ?thesis by (simp add: w2_def sse_event_disable_def Let_def)
  qed
  moreover have "at_interrupted (attrs (ev_at r w1)) = at_interrupted (attrs (ev_at r w))"
    unfolding w1_def by (simp add: ev_at_on_ev [OF l(1)])
  moreover have "lcsrs w3 me = lcsrs w me" by (simp add: w3_def w2_def w1_def sse_event_disable_def Let_def)
  ultimately show "sse_event_resume (at_interrupted (attrs (ev_at r w))) (regs, lcsrs w me) = (regs', lcsrs w' me)"
    using c by (simp add: w'(3) w3_def)
qed

section \<open>The handlers on a hart with free locks\<close>

lemma view_list_me:
  assumes "shs_ptr w me = Some s"
  shows "vL (sse_view sst w) me = enabled_event_list s"
  using assms by (simp add: sse_view_def)

text \<open>The end of a trap: nothing, or the injection of the first event that is ready with no running event before it.\<close>

definition pushes :: "scratch_state \<Rightarrow> nat \<Rightarrow> sse_view \<Rightarrow> sse_view \<Rightarrow> sse_ref \<Rightarrow> bool" where
  "pushes sst me v v' r \<longleftrightarrow>
     core_ok sst v' \<and> vV v' = vV v \<and> vH v' = vH v \<and> vGL v' = vGL v \<and> vLL v' = vLL v \<and>
     running v' = (running v)(me := r # running v me)"

definition pops :: "scratch_state \<Rightarrow> nat \<Rightarrow> sse_view \<Rightarrow> sse_view \<Rightarrow> bool" where
  "pops sst me v v' \<longleftrightarrow>
     core_ok sst v' \<and> vV v' = vV v \<and> vH v' = vH v \<and> vGL v' = vGL v \<and> vLL v' = vLL v \<and>
     running v me \<noteq> [] \<and> running v' = (running v)(me := tl (running v me))"

lemma ev_at_lock [simp]: "ev_at q (on_shs h (\<lambda>s. s\<lparr>enabled_event_lock := b\<rparr>) w) = ev_at q w"
  by (cases q; cases "shs_ptr w h") (auto simp: ev_at_def on_shs_def)

lemma process_cases:
  assumes inv: "sse_inv sst w" and me: "shs_ptr w me = Some s"
  shows "\<exists>regs' w'. sbi_sse_process_pending_events sst me (regs, w) = Some (regs', w') \<and>
    (if masked s then regs' = regs \<and> w' = w
     else case next_event sst me w (enabled_event_list s) of
        None \<Rightarrow> regs' = regs \<and> sse_view sst w' = sse_view sst w
      | Some r \<Rightarrow> if is_running (ev_at r w) then regs' = regs \<and> sse_view sst w' = sse_view sst w
          else sse_event_is_ready (current_hartid sst me) (ev_at r w) \<and> pushes sst me (sse_view sst w) (sse_view sst w') r \<and>
            sse_event_inject (current_hartid sst me) (ev_at r w, regs, lcsrs w me) = (ev_at r w', regs', lcsrs w' me))"
proof (cases "masked s")
  case True
  then show ?thesis using me by (simp add: sbi_sse_process_pending_events_def)
next
  case False
  let ?w = "on_shs me (\<lambda>s. s\<lparr>enabled_event_lock := True\<rparr>) w"
  have s: "shs_ptr w me \<noteq> None" using me by simp
  note l = view_list_lock [OF s, of sst]
  have lock: "list_spin_lock me w = Some ?w" using l(1) inv by (simp add: sse_inv_def)
  have v: "sse_view sst ?w = (sse_view sst w)\<lparr>vLL := {me}\<rparr>" using l(2) inv by (simp add: sse_inv_def)
  have core: "core_ok sst (sse_view sst ?w)" using inv v by (simp add: sse_inv_def)
  have L: "vL (sse_view sst ?w) me = enabled_event_list s" using v view_list_me [OF me] by simp
  have nxt: "next_event sst me ?w = next_event sst me w" by (simp add: next_event_def fun_eq_iff)
  obtain regs1 w1 where p: "process_loop sst me (enabled_event_list s) (regs, ?w) = (regs1, w1)"
    by (cases "process_loop sst me (enabled_event_list s) (regs, ?w)")
  have res: "sbi_sse_process_pending_events sst me (regs, w) = Some (regs1, list_spin_unlock me w1)"
    using me False lock p by (simp add: sbi_sse_process_pending_events_def)
  have unlock: "sse_view sst (list_spin_unlock me x) = (sse_view sst x)\<lparr>vLL := {}\<rparr>" if "vH (sse_view sst x) = vH (sse_view sst w)" "vLL (sse_view sst x) = {me}" for x
  proof -
    have "shs_ptr x me \<noteq> None" using that(1) s hart_init [of me sst] by auto
    from view_list_lock(3) [OF this, of sst] show ?thesis using that(2) by simp
  qed
  have LL: "vLL (sse_view sst w) = {}" using inv by (simp add: sse_inv_def)
  have same: "sse_view sst (list_spin_unlock me ?w) = sse_view sst w"
    using unlock [of ?w] v LL by (simp del: core_locks)
  show ?thesis
  proof (cases "\<exists>r. next_event sst me w (enabled_event_list s) = Some r \<and> \<not> is_running (ev_at r w)")
    case True
    then obtain r where r: "next_event sst me w (enabled_event_list s) = Some r" "\<not> is_running (ev_at r w)" by blast
    have i: "injected sst me r (regs, ?w) = (regs1, w1)" using p r by (simp add: process_loop_next nxt)
    have n: "next_event sst me ?w (vL (sse_view sst ?w) me) = Some r" using r(1) nxt L by simp
    note q = inject_running [OF core n _ i]
    have rdy: "sse_event_is_ready (current_hartid sst me) (ev_at r w)" using r by (auto simp: next_event_def find_Some_iff)
    have "sse_view sst (list_spin_unlock me w1) = (sse_view sst w1)\<lparr>vLL := {}\<rparr>"
      using q r(2) v by (intro unlock) auto
    then have "pushes sst me (sse_view sst w) (sse_view sst (list_spin_unlock me w1)) r"
      using q r(2) v LL by (simp add: pushes_def)
    moreover have "sse_event_inject (current_hartid sst me) (ev_at r w, regs, lcsrs w me) = (ev_at r (list_spin_unlock me w1), regs1, lcsrs (list_spin_unlock me w1) me)"
    proof -
      have rv: "r \<in> vV (sse_view sst ?w)" using listed_hart(1) [OF core, of r me] n by (auto simp: next_event_def find_Some_iff)
      obtain e c where e: "sse_event_inject (current_hartid sst me) (ev_at r w, regs, lcsrs w me) = (e, regs1, c)"
        and w1: "w1 = on_ev r (\<lambda>_. e) (?w\<lparr>lcsrs := (lcsrs w)(me := c)\<rparr>)"
        using i by (auto simp: injected_def split: prod.splits)
      have "r \<in> vV (sse_view sst (?w\<lparr>lcsrs := (lcsrs w)(me := c)\<rparr>))" using rv by simp
      from ev_at_on_ev [OF this, of r "\<lambda>_. e"] have "ev_at r w1 = e" by (simp add: w1)
      moreover have "lcsrs w1 me = c" by (simp add: w1)
      ultimately show ?thesis using e by (simp add: list_spin_unlock_def)
    qed
    ultimately show ?thesis using res r rdy False by simp
  next
    case none: False
    then have "regs1 = regs" "w1 = ?w" using p by (auto simp: process_loop_next nxt split: option.splits)
    then show ?thesis using none res same False by (auto split: option.splits)
  qed
qed

end
