(* ===== verification/SbiSseSpec.thy ===== *)
theory SbiSseSpec
  imports SbiSseSteps
begin

text \<open>
  Supervisor software events as a transition system: harts boot, make calls, end traps and serve inter-processor interrupts in any order, one
  handler at a time.  Every reachable state satisfies the invariant, and the running events of each hart
  behave as a stack: the end of a trap pushes, the completion pops.
\<close>

unbundle bit_operations_syntax

section \<open>Completion and the other calls\<close>

lemma complete_cases:
  assumes inv: "sse_inv sst w" and me: "shs_ptr w me \<noteq> None"
  shows "\<exists>skip regs' w'. sbi_sse_complete sst sg me (regs, w) = Some (SBI_OK, skip, regs', w') \<and>
    (if running (sse_view sst w) me = [] then \<not> skip \<and> regs' = regs \<and> sse_view sst w' = sse_view sst w
     else skip \<and> pops sst me (sse_view sst w) (sse_view sst w') \<and>
       sse_event_resume (at_interrupted (attrs (ev_at (hd (running (sse_view sst w) me)) w))) (regs, lcsrs w me) = (regs', lcsrs w' me))"
proof -
  obtain s where s: "shs_ptr w me = Some s" using me by auto
  let ?w = "on_shs me (\<lambda>s. s\<lparr>enabled_event_lock := True\<rparr>) w"
  note l = view_list_lock [OF me, of sst]
  have lock: "list_spin_lock me w = Some ?w" using l(1) inv by (simp add: sse_inv_def)
  have v: "sse_view sst ?w = (sse_view sst w)\<lparr>vLL := {me}\<rparr>" and LL: "vLL (sse_view sst w) = {}"
    using l(2) inv by (simp_all add: sse_inv_def)
  have core: "core_ok sst (sse_view sst ?w)" using inv v by (simp add: sse_inv_def)
  have L: "vL (sse_view sst ?w) me = enabled_event_list s" using v view_list_me [OF s] by simp
  have unlock: "sse_view sst (list_spin_unlock me x) = (sse_view sst x)\<lparr>vLL := {}\<rparr>" if "vH (sse_view sst x) = vH (sse_view sst w)" "vLL (sse_view sst x) = {me}" for x
  proof -
    have "shs_ptr x me \<noteq> None" using that(1) me hart_init [of me sst] by auto
    from view_list_lock(3) [OF this, of sst] show ?thesis using that(2) by simp
  qed
  have run: "running (sse_view sst w) me = filter (\<lambda>r. is_running (ev_at r w)) (enabled_event_list s)"
    using view_list_me [OF s, of sst] by (simp add: running_def)
  show ?thesis
  proof (cases "find (\<lambda>r. is_running (ev_at r w)) (enabled_event_list s)")
    case None
    then have "running (sse_view sst w) me = []" by (simp add: run find_None_iff)
    moreover have "sse_view sst (list_spin_unlock me ?w) = sse_view sst w" using unlock [of ?w] v LL by (simp del: core_locks)
    ultimately show ?thesis
      using None s lock by (intro exI [of _ False]) (simp add: sbi_sse_complete_def is_running_def)
  next
    case (Some r)
    have f: "find (\<lambda>r. is_running (ev_at r ?w)) (vL (sse_view sst ?w) me) = Some r" using Some L by simp
    have "me \<in> vH (sse_view sst w)" using me by simp
    then have d: "distinct (enabled_event_list s)"
      using inv view_list_me [OF s, of sst] unfolding sse_inv_def core_ok_def events_ok_def list_ok_def by metis
    have hd: "running (sse_view sst w) me \<noteq> []" "hd (running (sse_view sst w) me) = r"
      using filter_drop_first(2,3) [OF Some d] by (simp_all add: run)
    obtain ret skip regs' w1 where c: "sse_event_complete sst sg me r (regs, ?w) = (ret, skip, regs', w1)" by (metis prod_cases4)
    note q = complete_running [OF core f c]
    have "sse_view sst (list_spin_unlock me w1) = (sse_view sst w1)\<lparr>vLL := {}\<rparr>" using q v by (intro unlock) simp_all
    then have "pops sst me (sse_view sst w) (sse_view sst (list_spin_unlock me w1))"
      using q v LL hd by (simp add: pops_def)
    moreover have "sbi_sse_complete sst sg me (regs, w) = Some (ret, skip, regs', list_spin_unlock me w1)"
      using Some s lock c by (simp add: sbi_sse_complete_def is_running_def)
    ultimately show ?thesis using q(1,2,9) hd by (intro exI [of _ True] exI [of _ regs'] exI [of _ "list_spin_unlock me w1"]) (simp add: list_spin_unlock_def)
  qed
qed

lemma ecall_cases:
  assumes ready: "sse_ready g sg sst" and inv: "sse_inv sst w" and me: "shs_ptr w me \<noteq> None"
    and call: "sbi_ecall_sse_handler fuel g sg sst dm me funcid (regs, w) = Some (ret, skip, regs', w')"
  shows "if funcid = 6 \<and> running (sse_view sst w) me \<noteq> [] then skip \<and> ret = SBI_OK \<and> pops sst me (sse_view sst w) (sse_view sst w')
    else \<not> skip \<and> regs' = regs \<and> kept sst (sse_view sst w) (sse_view sst w')"
proof (cases "funcid = 6")
  case True
  then have c: "sbi_sse_complete sst sg me (regs, w) = Some (ret, skip, regs', w')"
    using call by (simp add: sbi_ecall_sse_handler_def Let_def)
  show ?thesis
    using complete_cases [OF inv me, of sg regs] True c inv by (auto simp: sse_inv_def kept_refl)
next
  case False
  have core: "core_ok sst (sse_view sst w)" using inv by (simp add: sse_inv_def)
  have "\<not> skip \<and> regs' = regs" using call False
    by (auto simp: sbi_ecall_sse_handler_def Let_def split: if_splits prod.splits)
  moreover have "kept sst (sse_view sst w) (sse_view sst w')"
    using call False read_attrs_kept [OF core] write_attrs_kept [OF core] register_handler_kept [OF core] unregister_handler_kept [OF core]
      enable_kept [OF ready core] disable_kept [OF core] mask_kept [OF core, of me] inject_event_kept [OF ready core] kept_refl [OF core]
    by (auto simp: sbi_ecall_sse_handler_def Let_def sbi_sse_inject_from_ecall_def split: if_splits prod.splits)
  ultimately show ?thesis using False by simp
qed

section \<open>Steps\<close>

datatype sse_label = Ecall nat u64 | Trap_end nat | Serve_ipi nat | Firmware nat | Elsewhere

text \<open>
  The steps of the system: a call of the supervisor, the end of a trap, the callback of the inter-processor interrupt, an
  injection by the firmware (as for a double trap), and anything that happens outside this component: supervisor
  code, other components, devices.  \<open>dm\<close> gives the domain of each hart.
\<close>

inductive sse_step ::
  "(('p, 'a) sse_system_scheme, unit) ipi_globals \<Rightarrow> 'p sse_globals \<Rightarrow> scratch_state \<Rightarrow> (nat \<Rightarrow> sbi_domain option) \<Rightarrow> sse_label \<Rightarrow>
   ('p, 'a) sse_system_scheme \<Rightarrow> ('p, 'a) sse_system_scheme \<Rightarrow> bool" for g sg sst dm where
  ecall: "shs_ptr w me \<noteq> None \<Longrightarrow> sbi_ecall_sse_handler fuel g sg sst (dm me) me funcid (regs, w) = Some (ret, skip, regs', w') \<Longrightarrow>
    sse_step g sg sst dm (Ecall me funcid) w w'"
| trap_end: "shs_ptr w me \<noteq> None \<Longrightarrow> sbi_sse_process_pending_events sst me (regs, w) = Some (regs', w') \<Longrightarrow>
    sse_step g sg sst dm (Trap_end me) w w'"
| serve_ipi: "shs_ptr w me \<noteq> None \<Longrightarrow> sse_ipi_inject_process me w = (True, w') \<Longrightarrow> sse_step g sg sst dm (Serve_ipi me) w w'"
| firmware: "shs_ptr w me \<noteq> None \<Longrightarrow> sbi_sse_inject_event g sg sst (dm me) me eid w = Some (ret, w') \<Longrightarrow>
    sse_step g sg sst dm (Firmware me) w w'"
| elsewhere: "shs_ptr w' = shs_ptr w \<Longrightarrow> global_events w' = global_events w \<Longrightarrow> global_event_count w' = global_event_count w \<Longrightarrow>
    local_event_count w' = local_event_count w \<Longrightarrow>
    (\<And>h. get_state' sst (hsm_system.truncate w') h = SBI_HSM_STATE_STARTED \<Longrightarrow> shs_ptr w h \<noteq> None) \<Longrightarrow>
    sse_step g sg sst dm Elsewhere w w'"

text \<open>The abstract machine: a stack of running handlers per hart.  A handler starts on top of the others and is not running already; completion ends the one on top.\<close>

inductive stack_step :: "sse_label \<Rightarrow> (nat \<Rightarrow> sse_ref list) \<Rightarrow> (nat \<Rightarrow> sse_ref list) \<Rightarrow> bool" where
  push: "(\<forall>h. r \<notin> set (S h)) \<Longrightarrow> stack_step (Trap_end me) S (S(me := r # S me))"
| pop: "S me \<noteq> [] \<Longrightarrow> stack_step (Ecall me 6) S (S(me := tl (S me)))"
| stay: "(\<forall>me. lab = Ecall me 6 \<longrightarrow> S me = []) \<Longrightarrow> stack_step lab S S"

lemma kept_inv: "sse_inv sst w \<Longrightarrow> kept sst (sse_view sst w) (sse_view sst w') \<Longrightarrow> sse_inv sst w'"
  by (simp add: sse_inv_def kept_def)

lemma elsewhere_kept:
  assumes "sse_inv sst w" "shs_ptr w' = shs_ptr w" "global_events w' = global_events w" "global_event_count w' = global_event_count w"
    "local_event_count w' = local_event_count w"
    "\<And>h. get_state' sst (hsm_system.truncate w') h = SBI_HSM_STATE_STARTED \<Longrightarrow> shs_ptr w h \<noteq> None"
  shows "kept sst (sse_view sst w) (sse_view sst w')"
proof -
  have e: "ev_at r w' = ev_at r w" for r using assms(2,3) by (simp add: ev_at_def cong: sse_ref.case_cong)
  have "sse_view sst w' = (sse_view sst w)\<lparr>vstarted := True\<rparr>" using assms(2-6) by (simp add: sse_view_def e)
  moreover have "vstarted (sse_view sst w)" using assms(1) by (simp add: sse_inv_def core_ok_def)
  ultimately have "sse_view sst w' = sse_view sst w" by simp
  then show ?thesis using assms(1) by (simp add: sse_inv_def kept_refl)
qed

lemma running_in: "r \<in> set (running (sse_view sst w) h) \<longleftrightarrow> r \<in> set (vL (sse_view sst w) h) \<and> is_running (ev_at r w)"
  by (auto simp: running_def)

text \<open>Every step keeps the invariant and is a step of the stacks.\<close>

lemma step_simulates:
  assumes "sse_ready g sg sst" "sse_inv sst w" "sse_step g sg sst dm lab w w'"
  shows "sse_inv sst w' \<and> stack_step lab (running (sse_view sst w)) (running (sse_view sst w')) \<and>
    vV (sse_view sst w') = vV (sse_view sst w) \<and> vH (sse_view sst w') = vH (sse_view sst w)"
  using assms(3)
proof (cases rule: sse_step.cases)
  case (ecall me fuel funcid regs ret skip regs')
  note e = ecall_cases [OF assms(1,2) ecall(2,3)]
  show ?thesis
  proof (cases "funcid = 6 \<and> running (sse_view sst w) me \<noteq> []")
    case True
    then have p: "pops sst me (sse_view sst w) (sse_view sst w')" using e by simp
    then have "sse_inv sst w'" using assms(2) by (simp add: sse_inv_def pops_def)
    moreover have "stack_step (Ecall me 6) (running (sse_view sst w)) (running (sse_view sst w'))"
      using p stack_step.pop [of "running (sse_view sst w)" me] by (simp add: pops_def)
    ultimately show ?thesis using ecall(1) True p by (simp add: pops_def)
  next
    case False
    then have k: "kept sst (sse_view sst w) (sse_view sst w')" using e by simp
    then have "running (sse_view sst w') = running (sse_view sst w)" "vV (sse_view sst w') = vV (sse_view sst w)" "vH (sse_view sst w') = vH (sse_view sst w)"
      by (simp_all add: kept_def)
    then show ?thesis using kept_inv [OF assms(2) k] ecall(1) False by (auto intro: stack_step.stay)
  qed
next
  case (trap_end me regs regs')
  obtain s where s: "shs_ptr w me = Some s" using trap_end(2) by auto
  note p = process_cases [OF assms(2) s, of regs]
  have "sse_view sst w' = sse_view sst w \<or> (\<exists>r. \<not> is_running (ev_at r w) \<and> pushes sst me (sse_view sst w) (sse_view sst w') r)"
    using p trap_end(3) by (auto split: if_splits option.splits)
  then show ?thesis
    using assms(2) trap_end(1)
    by (auto simp: sse_inv_def pushes_def intro!: stack_step.push intro: stack_step.stay) (simp add: running_in)
next
  case (serve_ipi me)
  have core: "core_ok sst (sse_view sst w)" using assms(2) by (simp add: sse_inv_def)
  have "quiet sst (sse_view sst w) (sse_view sst w')"
    using serve_ipi(3) inject_loop_quiet [OF _ core] by (auto simp: sse_ipi_inject_process_def split: option.splits)
  then show ?thesis using kept_inv [OF assms(2)] serve_ipi(1) by (auto simp: quiet_def kept_def intro: stack_step.stay)
next
  case (firmware me eid ret)
  have core: "core_ok sst (sse_view sst w)" using assms(2) by (simp add: sse_inv_def)
  then have "kept sst (sse_view sst w) (sse_view sst w')"
    using firmware(3) inject_event_kept [OF assms(1) core] by (simp add: sbi_sse_inject_event_def)
  then show ?thesis using kept_inv [OF assms(2)] firmware(1) by (auto simp: kept_def intro: stack_step.stay)
next
  case elsewhere
  note k = elsewhere_kept [OF assms(2) elsewhere(2-6)]
  then show ?thesis using kept_inv [OF assms(2) k] elsewhere(1) by (auto simp: kept_def intro: stack_step.stay)
qed

end
