(* ===== verification/SbiSseBoot.thy ===== *)
theory SbiSseBoot
  imports SbiSseSpec
begin

text \<open>
  The initialisation of supervisor software events (\<open>sbi_sse_add_event\<close>, \<open>sbi_sse_init\<close>) establishes the invariant, for the hart that
  boots the system and for each hart that joins later.
\<close>

unbundle bit_operations_syntax

section \<open>The supported events\<close>

definition supported_ok :: "'p sse_globals \<Rightarrow> bool" where
  "supported_ok sg \<longleftrightarrow> distinct (map (\<lambda>p. inf_event_id (sse_infos sg p)) (supported_events sg))"

lemma add_event_supported:
  assumes "supported_ok sg" "sbi_sse_add_event info eid cb sg = (ret, sg')" "info \<notin> Some ` set (supported_events sg)"
  shows "supported_ok sg'"
proof (cases "ret = SBI_OK \<and> sg' \<noteq> sg")
  case True
  then obtain p where p: "info = Some p" "p \<notin> set (supported_events sg)" "sse_event_info_get sg eid = None"
    "sg' = sg\<lparr>sse_infos := (sse_infos sg)(p := \<lparr>inf_event_id = eid, inf_cb_ops = cb\<rparr>), supported_events := p # supported_events sg\<rparr>"
    using assms(2,3) by (auto simp: sbi_sse_add_event_def split: if_splits option.splits)
  have "map (\<lambda>q. inf_event_id (sse_infos sg' q)) (supported_events sg) = map (\<lambda>q. inf_event_id (sse_infos sg q)) (supported_events sg)"
    using p(2,4) by (auto intro: map_cong)
  moreover have "eid \<notin> (\<lambda>q. inf_event_id (sse_infos sg q)) ` set (supported_events sg)"
    using p(3) by (auto simp: sse_event_info_get_def find_None_iff)
  ultimately have "distinct (map (\<lambda>q. inf_event_id (sse_infos sg' q)) (supported_events sg))" "eid \<notin> (\<lambda>q. inf_event_id (sse_infos sg' q)) ` set (supported_events sg)"
    using assms(1) unfolding supported_ok_def by (metis, metis list.set_map)
  then have "distinct (eid # map (\<lambda>q. inf_event_id (sse_infos sg' q)) (supported_events sg))"
    by simp
  moreover have "inf_event_id (sse_infos sg' p) = eid" "supported_events sg' = p # supported_events sg" using p(4) by simp_all
  ultimately show ?thesis by (simp add: supported_ok_def)
next
  case False
  then show ?thesis using assms(1,2) by (auto simp: sbi_sse_add_event_def split: if_splits option.splits)
qed

lemma infos_distinct:
  assumes "supported_ok sg"
  shows "distinct (map (\<lambda>p. inf_event_id (sse_infos sg p)) (local_infos sg))" "distinct (map (\<lambda>p. inf_event_id (sse_infos sg p)) (global_infos sg))"
  using assms by (simp_all add: supported_ok_def local_infos_def global_infos_def distinct_map inj_on_def)

section \<open>A hart joins\<close>

lemma fresh_event:
  "event_id (sse_event_init sst sg me p zero_event) = inf_event_id (sse_infos sg p)"
  "hartindex (sse_event_init sst sg me p zero_event) = me" "\<not> on_list (sse_event_init sst sg me p zero_event)"
  "\<not> is_running (sse_event_init sst sg me p zero_event)"
  "at_hartid (attrs (sse_event_init sst sg me p zero_event)) = current_hartid sst me"
  by (simp_all add: sse_event_init_def zero_event_def on_list_def is_running_def sse_event_state_def sse_states
      SBI_SSE_ATTR_STATUS_STATE_MASK_def SBI_SSE_ATTR_STATUS_INJECT_OFFSET_def BIT_def)

text \<open>What the state before a hart joins has to satisfy.\<close>

definition joins :: "scratch_state \<Rightarrow> 'p sse_globals \<Rightarrow> nat \<Rightarrow> ('p, 'a) sse_system_scheme \<Rightarrow> bool" where
  "joins sst sg me w \<longleftrightarrow> (let v = sse_view sst w in
     me \<notin> vH v \<and> (\<forall>r \<in> vV v. event_ok (current_hartid sst) (insert me (vH v)) r (vev v r)) \<and> ids_ok (vV v) (vev v) \<and>
     (\<forall>h \<in> vH v. list_ok (vV v) (vev v) h (vL v h)) \<and> (\<forall>r \<in> vV v. hartindex (vev v r) = me \<longrightarrow> \<not> on_list (vev v r)) \<and>
     vcounts v \<and> vGL v = {} \<and> vLL v = {} \<and> local_event_count w = length (local_infos sg) \<and>
     (\<forall>h. get_state' sst (hsm_system.truncate w) h = SBI_HSM_STATE_STARTED \<longrightarrow> h \<in> insert me (vH v)))"

definition local_full :: "'p sse_globals \<Rightarrow> sse_view \<Rightarrow> bool" where
  "local_full sg v \<longleftrightarrow> vH v \<noteq> {} \<and> (\<forall>h \<in> vH v. {i. Local h i \<in> vV v} = {..<length (local_infos sg)})"

lemma join_view:
  assumes "sse_init_hart sst sg ok me w = (0, w')" "shs_ptr w me = None" "local_event_count w = length (local_infos sg)"
  defines "n \<equiv> length (local_infos sg)" and "fresh \<equiv> \<lambda>i. sse_event_init sst sg me (local_infos sg ! i) zero_event"
  shows "vV (sse_view sst w') = vV (sse_view sst w) \<union> Local me ` {..<n}" "vH (sse_view sst w') = insert me (vH (sse_view sst w))"
    "vL (sse_view sst w') = (vL (sse_view sst w))(me := [])" "vGL (sse_view sst w') = vGL (sse_view sst w)"
    "vLL (sse_view sst w') = vLL (sse_view sst w)" "vcounts (sse_view sst w) \<Longrightarrow> vcounts (sse_view sst w')"
    "\<And>i. i < n \<Longrightarrow> ev_at (Local me i) w' = fresh i" "\<And>r. r \<in> vV (sse_view sst w) \<Longrightarrow> ev_at r w' = ev_at r w"
    "hsm_system.truncate w' = hsm_system.truncate w" "local_event_count w' = local_event_count w"
proof -
  let ?shs = "\<lparr>enabled_event_list = [], enabled_event_lock = False, local_events = map (\<lambda>p. sse_event_init sst sg me p zero_event) (local_infos sg), masked = True\<rparr>"
  have "zip (local_infos sg) (replicate n zero_event) = map (\<lambda>p. (p, zero_event)) (local_infos sg)"
    by (simp add: n_def zip_replicate2)
  then have shs: "shs_ptr w' = (shs_ptr w)(me := Some ?shs)" and g: "global_events w' = global_events w" "global_event_count w' = global_event_count w"
    "local_event_count w' = local_event_count w" "hsm_system.truncate w' = hsm_system.truncate w"
    using assms(1-3) by (auto simp: sse_init_hart_def sse_local_init_def n_def comp_def hsm_system.defs SBI_ENOMEM_def split: if_splits)
  show "vV (sse_view sst w') = vV (sse_view sst w) \<union> Local me ` {..<n}"
  proof -
    have "(\<exists>s. shs_ptr w' h = Some s \<and> i < length (local_events s)) \<longleftrightarrow>
        (\<exists>s. shs_ptr w h = Some s \<and> i < length (local_events s)) \<or> h = me \<and> i < n" for h i
      using assms(2) by (cases "h = me") (auto simp: shs n_def)
    then show ?thesis unfolding sse_view_def g by (simp add: image_def) blast
  qed
  show "vH (sse_view sst w') = insert me (vH (sse_view sst w))" by (auto simp: sse_view_def shs)
  show "vL (sse_view sst w') = (vL (sse_view sst w))(me := [])" by (auto simp: sse_view_def shs)
  show "vGL (sse_view sst w') = vGL (sse_view sst w)" by (simp add: sse_view_def g)
  show "vLL (sse_view sst w') = vLL (sse_view sst w)" using assms(2) by (auto simp: sse_view_def shs)
  show "vcounts (sse_view sst w')" if "vcounts (sse_view sst w)" using that assms(3) by (simp add: sse_view_def shs g)
  show "ev_at (Local me i) w' = fresh i" if "i < n" for i using that by (simp add: ev_at_def shs n_def fresh_def)
  show "ev_at r w' = ev_at r w" if "r \<in> vV (sse_view sst w)" for r
    using that assms(2) by (cases r) (auto simp: sse_view_def ev_at_def shs g)
qed (use assms in \<open>auto simp: sse_init_hart_def hsm_system.defs SBI_ENOMEM_def split: if_splits option.splits\<close>)

lemma join_events:
  assumes V: "\<forall>r \<in> V. event_ok hid (insert me H) r (ev r)" "ids_ok V ev" "\<forall>h \<in> H. list_ok V ev h (L h)" "me \<notin> H"
    "\<forall>r \<in> V. hartindex (ev r) = me \<longrightarrow> \<not> on_list (ev r)"
    and same: "\<And>r. r \<in> V \<Longrightarrow> ev' r = ev r" and new: "\<And>i. i < n \<Longrightarrow> Local me i \<notin> V"
    and fresh: "\<And>i. i < n \<Longrightarrow> event_ok hid (insert me H) (Local me i) (ev' (Local me i)) \<and> \<not> on_list (ev' (Local me i))"
    and ids: "inj_on (\<lambda>i. event_id (ev' (Local me i))) {..<n}" and loc: "\<And>h i. Local h i \<in> V \<Longrightarrow> h \<noteq> me"
  shows "events_ok hid (V \<union> Local me ` {..<n}) (insert me H) ev' (L(me := []))"
proof -
  let ?V = "V \<union> Local me ` {..<n}"
  have ev: "event_ok hid (insert me H) r (ev' r)" if "r \<in> ?V" for r using that V(1) same fresh by auto
  have off: "\<not> on_list (ev' r)" if "r \<in> Local me ` {..<n}" for r using that fresh by auto
  have "list_ok ?V ev' h ((L(me := [])) h)" if "h \<in> insert me H" for h
  proof (cases "h = me")
    case True
    then show ?thesis using V(5) same off by (auto simp: list_ok_def)
  next
    case False
    then have l: "list_ok V ev h (L h)" using that V(3) by auto
    have s: "\<forall>r \<in> set (L h). ev' r = ev r" using l same by (auto simp: list_ok_def)
    then have "sorted_wrt (\<lambda>a b. sse_before (ev' a) (ev' b)) (L h)"
      using l by (auto simp: list_ok_def intro: sorted_wrt_mono_rel [rotated])
    moreover have "{r \<in> ?V. hartindex (ev' r) = h \<and> on_list (ev' r)} = {r \<in> V. hartindex (ev r) = h \<and> on_list (ev r)}"
      using same off by auto
    ultimately show ?thesis using l False by (simp add: list_ok_def)
  qed
  moreover have "ids_ok ?V ev'"
    unfolding ids_ok_def
  proof (intro ballI impI)
    fix q r assume qr: "q \<in> ?V" "r \<in> ?V" "q \<noteq> r" "event_id (ev' q) = event_id (ev' r)"
    have home: "home_ok hid q (ev' q)" "home_ok hid r (ev' r)" using ev qr by (auto simp: event_ok_def)
    consider "q \<in> V" "r \<in> V" | i j where "q = Local me i" "r = Local me j" "i < n" "j < n"
      | i where "q \<in> V" "r = Local me i" | i where "q = Local me i" "r \<in> V" using qr by auto
    then show "\<exists>h i k j. q = Local h i \<and> r = Local k j \<and> h \<noteq> k"
    proof cases
      case 1
      then show ?thesis using V(2) qr(3,4) same by (auto simp: ids_ok_def)
    next
      case 2
      then show ?thesis using ids qr(3,4) by (auto simp: inj_on_def)
    next
      case 3
      then show ?thesis using home qr(4) loc by (cases q) (auto simp: home_ok_def)
    next
      case 4
      then show ?thesis using home qr(4) loc by (cases r) (fastforce simp: home_ok_def)+
    qed
  qed
  ultimately show ?thesis using ev by (simp add: events_ok_def)
qed

lemma join_inv:
  assumes "joins sst sg me w" "supported_ok sg" "sse_init_hart sst sg ok me w = (0, w')"
    and full: "\<forall>h \<in> vH (sse_view sst w). {i. Local h i \<in> vV (sse_view sst w)} = {..<length (local_infos sg)}"
  shows "sse_inv sst w'" "local_full sg (sse_view sst w')"
proof -
  let ?v = "sse_view sst w" and ?n = "length (local_infos sg)"
  have none: "shs_ptr w me = None" and cnt: "local_event_count w = ?n" using assms(1) by (auto simp: joins_def sse_view_def Let_def)
  note j = join_view [OF assms(3) none cnt]
  have loc: "h \<noteq> me" if "Local h i \<in> vV ?v" for h i using that none by (auto simp: sse_view_def)
  have glob: "\<not> EVENT_IS_GLOBAL (inf_event_id (sse_infos sg (local_infos sg ! i)))" if "i < ?n" for i
    using nth_mem [OF that] by (simp add: local_infos_def)
  have "events_ok (current_hartid sst) (vV ?v \<union> Local me ` {..<?n}) (insert me (vH ?v)) (\<lambda>r. ev_at r w') ((vL ?v)(me := []))"
  proof (rule join_events [where ev = "vev ?v"])
    show "inj_on (\<lambda>i. event_id (ev_at (Local me i) w')) {..<?n}"
      using j(7) infos_distinct(1) [OF assms(2)] by (auto simp: inj_on_def fresh_event distinct_conv_nth)
  next
    fix i assume i: "i < ?n"
    then show "event_ok (current_hartid sst) (insert me (vH ?v)) (Local me i) (ev_at (Local me i) w') \<and> \<not> on_list (ev_at (Local me i) w')"
      using j(7) [OF i] glob [OF i] by (simp add: event_ok_def home_ok_def fresh_event)
  qed (use assms(1) j(8) loc in \<open>auto simp: joins_def Let_def\<close>)
  moreover have "vev (sse_view sst w') = (\<lambda>r. ev_at r w')" by (simp add: fun_eq_iff)
  moreover have "vstarted (sse_view sst w')" using assms(1) j(2,9) by (auto simp: joins_def Let_def sse_view_def)
  ultimately show "sse_inv sst w'"
    using j assms(1) by (simp add: sse_inv_def core_ok_def joins_def Let_def)
  show "local_full sg (sse_view sst w')"
    unfolding local_full_def j using full loc by auto
qed

section \<open>Cold boot\<close>

lemma alloc_hartid:
  "sbi_scratch_alloc_offset n st = (off, st') \<Longrightarrow> sbi_hartindex_to_hartid st' = sbi_hartindex_to_hartid st"
  by (auto simp: sbi_scratch_alloc_offset_def sbi_hartindex_to_hartid_def fun_eq_iff Let_def split: if_splits)

lemma event_create_loop_ops:
  "event_create_loop ops i m g = (ret, g') \<Longrightarrow> 0 \<le> ret \<Longrightarrow> i + m \<le> length (ipi_ops_array g) \<Longrightarrow>
     ret < int (i + m) \<and> ipi_ops_array g' ! nat ret = Some ops"
proof (induction m arbitrary: i)
  case 0
  then show ?case by (simp add: SBI_ENOSPC_def)
next
  case (Suc m)
  show ?case
  proof (cases "ipi_ops_array g ! i")
    case None
    then show ?thesis using Suc.prems by auto
  next
    case (Some x)
    then show ?thesis using Suc.prems Suc.IH [of "Suc i"] by simp
  qed
qed

lemma event_create_ops:
  assumes "sbi_ipi_event_create (Some ops) g = (ret, g')" "0 \<le> ret" "length (ipi_ops_array g) = 64"
  shows "event_ops g' (of_int ret) = Some ops"
proof -
  have l: "event_create_loop ops 0 64 g = (ret, g')"
    using assms(1,2) by (auto simp: sbi_ipi_event_create_def SBI_IPI_EVENT_MAX_def SBI_EINVAL_def split: option.splits)
  have b: "ret < 64" "ipi_ops_array g' ! nat ret = Some ops" using event_create_loop_ops [OF l assms(2)] assms(3) by simp_all
  have "unat (of_int ret :: u32) = nat ret" using assms(2) b(1) unfolding unat_eq_nat_uint by (simp add: unsigned_of_int take_bit_int_eq_self)
  then show ?thesis using assms(2) b by (simp add: event_ops_def SBI_IPI_EVENT_MAX_def word_le_nat_alt)
qed

text \<open>The state before the component starts, on the hart that boots the system.\<close>

definition sse_fresh :: "(('p, 'a) sse_system_scheme, 'd) ipi_globals \<Rightarrow> ('p, 'a) sse_system_scheme \<Rightarrow> bool" where
  "sse_fresh g w \<longleftrightarrow> shs_ptr w = (\<lambda>_. None) \<and> global_event_count w = 0 \<and> local_event_count w = 0 \<and> length (ipi_ops_array g) = 64"

lemma cold_boot:
  assumes "sse_init_cold ok me (sg0, g0, sst0, w0) = (0, sg, g, sst, w)" "sse_fresh g0 w0" "supported_ok sg0"
    "\<forall>h. get_state' sst (hsm_system.truncate w0) h = SBI_HSM_STATE_STARTED \<longrightarrow> h = me"
  shows "joins sst sg me w" "supported_ok sg" "vH (sse_view sst w) = {}" "event_ops g (sse_ipi_inject_event sg) = Some sse_ipi_inject_ops"
proof -
  define ge where "ge = map (\<lambda>p. \<lparr>ge_event = sse_event_init sst0 sg0 me p zero_event, ge_lock = False\<rparr>) (global_infos sg0)"
  define w1 where "w1 = (sse_event_count_init sg0 w0)\<lparr>global_events := ge\<rparr>"
  obtain o1 sst1 where o1: "sbi_scratch_alloc_offset 8 sst0 = (o1, sst1)" by fastforce
  obtain o2 sst2 where o2: "sbi_scratch_alloc_offset 24 sst1 = (o2, sst2)" by fastforce
  obtain o3 sst3 where o3: "sbi_scratch_alloc_offset (of_nat (global_event_count w1 + local_event_count w1) * 4) sst2 = (o3, sst3)" by fastforce
  obtain ret g1 where c: "sbi_ipi_event_create (Some sse_ipi_inject_ops) g0 = (ret, g1)" by fastforce
  have r: "\<not> ret < 0" "g = g1" "sst = sst3" "w = w1"
    "sg = sg0\<lparr>shs_ptr_off := o1, sse_inject_fifo_off := o2, sse_inject_fifo_mem_off := o3, sse_ipi_inject_event := of_int ret\<rparr>"
    using assms(1) o1 o2 o3 c
    by (auto simp: sse_init_cold_def Let_def sse_global_init_def SBI_ENOMEM_def ge_def [symmetric] w1_def [symmetric] split: if_splits)
  have hid: "current_hartid sst = current_hartid sst0"
    using alloc_hartid [OF o1] alloc_hartid [OF o2] alloc_hartid [OF o3] r(3) by (simp add: current_hartid_def fun_eq_iff)
  show "event_ops g (sse_ipi_inject_event sg) = Some sse_ipi_inject_ops"
    using event_create_ops [OF c] r assms(2) by (simp add: sse_fresh_def)
  show sup: "supported_ok sg" using assms(3) r(5) by (simp add: supported_ok_def)
  have shs: "shs_ptr w = (\<lambda>_. None)" and cnt: "global_event_count w = length ge" "local_event_count w = length (local_infos sg)"
    and gev: "global_events w = ge" and tr: "hsm_system.truncate w = hsm_system.truncate w0"
    using assms(2) r(4,5) by (simp_all add: w1_def sse_event_count_init_def sse_fresh_def ge_def local_infos_def hsm_system.defs)
  have V: "vV (sse_view sst w) = Global ` {..<length (global_infos sg0)}" by (auto simp: sse_view_def shs gev ge_def)
  show H: "vH (sse_view sst w) = {}" by (simp add: sse_view_def shs)
  have ev: "ev_at (Global i) w = sse_event_init sst0 sg0 me (global_infos sg0 ! i) zero_event" if "i < length (global_infos sg0)" for i
    using that by (simp add: ev_at_def gev ge_def)
  have glob: "EVENT_IS_GLOBAL (inf_event_id (sse_infos sg0 (global_infos sg0 ! i)))" if "i < length (global_infos sg0)" for i
    using nth_mem [OF that] by (simp add: global_infos_def)
  have "ids_ok (vV (sse_view sst w)) (vev (sse_view sst w))"
    using infos_distinct(2) [OF assms(3)] by (auto simp: ids_ok_def V ev fresh_event distinct_conv_nth)
  moreover have "\<forall>r \<in> vV (sse_view sst w). event_ok (current_hartid sst) {me} r (vev (sse_view sst w) r) \<and> \<not> on_list (vev (sse_view sst w) r)"
    using glob by (auto simp: V ev event_ok_def home_ok_def fresh_event)
  moreover have "vGL (sse_view sst w) = {}" by (auto simp: sse_view_def gev ge_def)
  moreover have "vLL (sse_view sst w) = {}" "vcounts (sse_view sst w)" by (simp_all add: sse_view_def shs cnt gev)
  ultimately show "joins sst sg me w" using H assms(4) cnt(2) tr by (simp add: joins_def Let_def)
qed

section \<open>Reachable states\<close>

inductive sse_reachable ::
  "(('p, 'a) sse_system_scheme, unit) ipi_globals \<Rightarrow> 'p sse_globals \<Rightarrow> scratch_state \<Rightarrow> (nat \<Rightarrow> sbi_domain option) \<Rightarrow>
   ('p, 'a) sse_system_scheme \<Rightarrow> bool" for g sg sst dm where
  cold: "sbi_sse_init galloc_ok alloc_ok me True (sg0, g0, sst0, w0) = (0, sg, g, sst, w) \<Longrightarrow> sse_fresh g0 w0 \<Longrightarrow> supported_ok sg0 \<Longrightarrow>
    (\<forall>h. get_state' sst (hsm_system.truncate w0) h = SBI_HSM_STATE_STARTED \<longrightarrow> h = me) \<Longrightarrow> ipi_dev g = Some (aclint_mswi sst) \<Longrightarrow>
    sse_reachable g sg sst dm w"
| warm: "sse_reachable g sg sst dm w \<Longrightarrow> shs_ptr w me = None \<Longrightarrow>
    sbi_sse_init galloc_ok alloc_ok me False (sg, g, sst, w) = (0, sg, g, sst, w') \<Longrightarrow> sse_reachable g sg sst dm w'"
| step: "sse_reachable g sg sst dm w \<Longrightarrow> sse_step g sg sst dm lab w w' \<Longrightarrow> sse_reachable g sg sst dm w'"

definition reach_ok :: "(('p, 'a) sse_system_scheme, unit) ipi_globals \<Rightarrow> 'p sse_globals \<Rightarrow> scratch_state \<Rightarrow> ('p, 'a) sse_system_scheme \<Rightarrow> bool" where
  "reach_ok g sg sst w \<longleftrightarrow> sse_ready g sg sst \<and> supported_ok sg \<and> sse_inv sst w \<and> local_full sg (sse_view sst w)"

lemma step_views:
  assumes "sse_ready g sg sst" "sse_inv sst w" "sse_step g sg sst dm lab w w'"
  shows "vV (sse_view sst w') = vV (sse_view sst w)" "vH (sse_view sst w') = vH (sse_view sst w)"
  using step_simulates [OF assms] by simp_all

lemma reachable_ok: "sse_reachable g sg sst dm w \<Longrightarrow> reach_ok g sg sst w"
proof (induction rule: sse_reachable.induct)
  case (cold galloc_ok alloc_ok me sg0 g0 sst0 w0 w)
  obtain w1 where w1: "sse_init_cold galloc_ok me (sg0, g0, sst0, w0) = (0, sg, g, sst, w1)" "sse_init_hart sst sg alloc_ok me w1 = (0, w)"
    using cold(1) by (auto simp: sbi_sse_init_def split: prod.splits if_splits)
  note c = cold_boot [OF w1(1) cold(2-4)]
  show ?case using join_inv [OF c(1,2) w1(2)] c cold(5) by (simp add: reach_ok_def sse_ready_def)
next
  case (warm w me galloc_ok alloc_ok w')
  have i: "sse_init_hart sst sg alloc_ok me w = (0, w')" using warm(3) by (auto simp: sbi_sse_init_def split: prod.splits)
  let ?v = "sse_view sst w"
  have inv: "sse_inv sst w" and full: "local_full sg ?v" and r: "sse_ready g sg sst" "supported_ok sg"
    using warm(4) by (simp_all add: reach_ok_def)
  have core: "\<forall>r \<in> vV ?v. event_ok (current_hartid sst) (vH ?v) r (vev ?v r)" "vcounts ?v" "vstarted ?v"
    using inv by (auto simp: sse_inv_def core_ok_def events_ok_def)
  have me: "me \<notin> vH ?v" using warm(2) by (simp add: sse_view_def)
  obtain h s where h: "shs_ptr w h = Some s" using full by (auto simp: local_full_def sse_view_def)
  then have "{i. Local h i \<in> vV ?v} = {..<local_event_count w}" using core(2) by (auto simp: sse_view_def)
  then have cnt: "local_event_count w = length (local_infos sg)" using full h by (auto simp: local_full_def sse_view_def)
  have "joins sst sg me w"
    using inv core me cnt
    by (auto simp: joins_def Let_def sse_inv_def core_ok_def events_ok_def event_ok_def) (auto simp: sse_view_def)
  from join_inv [OF this r(2) i] show ?case using full r by (simp add: reach_ok_def local_full_def)
next
  case (step w lab w')
  then show ?case
    using step_simulates [of g sg sst w dm lab w'] step_views [of g sg sst w dm lab w'] by (simp add: reach_ok_def local_full_def)
qed

end
