(* ===== verification/SbiSseDemo.thy ===== *)
theory SbiSseDemo
  imports SbiSseBoot
begin

text \<open>Runs of two harts with two local events and a global one, on which the properties of supervisor software events are applied.\<close>

unbundle bit_operations_syntax

declare ipi_passes.simps [code]

section \<open>The system\<close>

definition demo_sse_scratch :: "u64 \<Rightarrow> scratch_state" where
  "demo_sse_scratch off = \<lparr>last_hartindex_having_scratch = 1, hartindex_to_hartid_table = [0, 1],
     hartindex_to_scratch_table = [Some [], Some []], extra_offset = off\<rparr>"

definition demo_sse_globals :: "unit sse_globals" where
  "demo_sse_globals = snd (sbi_sse_add_event (Some 1) SBI_SSE_EVENT_GLOBAL_SOFTWARE None
     (snd (sbi_sse_add_event (Some 0) SBI_SSE_EVENT_LOCAL_SOFTWARE None
       (snd (sbi_sse_add_event (Some 2) SBI_SSE_EVENT_LOCAL_DOUBLE_TRAP None
         \<lparr>sse_infos = (\<lambda>_. \<lparr>inf_event_id = 0, inf_cb_ops = None\<rparr>), supported_events = [], sse_inject_fifo_off = 0,
           sse_inject_fifo_mem_off = 0, shs_ptr_off = 0, sse_ipi_inject_event = 0\<rparr>)))))"

type_synonym demo_system = "unit sse_system"

definition demo_sse_w0 :: demo_system where
  "demo_sse_w0 = \<lparr>harts = (\<lambda>h. demo_hart (if h = 0 then SBI_HSM_STATE_STARTED else SBI_HSM_STATE_STOPPED)), hsm_dev = None,
     ipi_type = (\<lambda>_. 0), mswi_ptr = (\<lambda>_. None), mmio = (\<lambda>_. 0), shs_ptr = (\<lambda>_. None), global_events = [], global_event_count = 0,
     local_event_count = 0, inject_fifo = (\<lambda>_. []), inject_fifo_cap = (\<lambda>_. 0), lcsrs = (\<lambda>_. demo_csrs), smem = (\<lambda>_. 0), cb_state = ()\<rparr>"

definition demo_sse_ipi0 :: "scratch_state \<Rightarrow> (demo_system, unit) ipi_globals" where
  "demo_sse_ipi0 sst = \<lparr>ipi_data_off = 120, ipi_dev = Some (aclint_mswi sst), ipi_ops_array = replicate 64 None, ipi_smode_event = 64,
     ipi_halt_event = 64\<rparr>"

definition demo_sse_boot where
  "demo_sse_boot sst = sbi_sse_init True True 0 True (demo_sse_globals, demo_sse_ipi0 sst, demo_sse_scratch 120, demo_sse_w0)"

definition demo_sse_sst :: scratch_state where
  "demo_sse_sst = fst (snd (snd (snd (demo_sse_boot (demo_sse_scratch 120)))))"

definition demo_dm :: "nat \<Rightarrow> sbi_domain option" where
  "demo_dm h = Some (demo_root\<lparr>assigned_harts := [3, 0]\<rparr>)"

definition demo_g :: "(demo_system, unit) ipi_globals" where "demo_g = fst (snd (snd (demo_sse_boot demo_sse_sst)))"
definition demo_sg :: "unit sse_globals" where "demo_sg = fst (snd (demo_sse_boot demo_sse_sst))"
definition demo_sse_w1 :: demo_system where "demo_sse_w1 = snd (snd (snd (snd (demo_sse_boot demo_sse_sst))))"

lemma create_dev: "sbi_ipi_event_create ops g = (ret, g') \<Longrightarrow> ipi_dev g' = ipi_dev g"
proof -
  have "event_create_loop x i m g = (ret, g') \<Longrightarrow> ipi_dev g' = ipi_dev g" for x i m
    by (induction m arbitrary: i) (auto split: option.splits)
  then show "sbi_ipi_event_create ops g = (ret, g') \<Longrightarrow> ipi_dev g' = ipi_dev g"
    by (auto simp: sbi_ipi_event_create_def split: option.splits if_splits)
qed

lemma init_dev: "sbi_sse_init a b me cold (sg, g, sst, w) = (ret, sg', g', sst', w') \<Longrightarrow> ipi_dev g' = ipi_dev g"
  by (auto simp: sbi_sse_init_def sse_init_cold_def Let_def dest: create_dev split: if_splits prod.splits)

lemma demo_boot: "sbi_sse_init True True 0 True (demo_sse_globals, demo_sse_ipi0 demo_sse_sst, demo_sse_scratch 120, demo_sse_w0) =
    (0, demo_sg, demo_g, demo_sse_sst, demo_sse_w1)"
proof -
  have "fst (demo_sse_boot demo_sse_sst) = 0" "fst (snd (snd (snd (demo_sse_boot demo_sse_sst)))) = demo_sse_sst" by code_simp+
  then show ?thesis unfolding demo_sse_boot_def demo_sg_def demo_g_def demo_sse_w1_def by (metis prod.collapse)
qed

lemma demo_reachable: "sse_reachable demo_g demo_sg demo_sse_sst dm demo_sse_w1"
proof (rule sse_reachable.cold [OF demo_boot])
  show "sse_fresh (demo_sse_ipi0 demo_sse_sst) demo_sse_w0" by (simp add: sse_fresh_def demo_sse_ipi0_def demo_sse_w0_def)
  show "supported_ok demo_sse_globals" by (simp add: supported_ok_def) code_simp
  show "\<forall>h. get_state' demo_sse_sst (hsm_system.truncate demo_sse_w0) h = SBI_HSM_STATE_STARTED \<longrightarrow> h = 0"
    by (auto simp: get_state'_def demo_sse_w0_def hsm_system.defs hsm_states SBI_EINVAL_def split: if_splits)
  show "ipi_dev demo_g = Some (aclint_mswi demo_sse_sst)" using init_dev [OF demo_boot] by (simp add: demo_sse_ipi0_def)
qed

section \<open>Runs\<close>

datatype demo_command = Call nat u64 u64 u64 | Return nat | Join nat

definition demo_exec :: "demo_command \<Rightarrow> demo_system \<Rightarrow> demo_system option" where
  "demo_exec c w =
     (case c of
        Call me fid x y \<Rightarrow>
          if shs_ptr w me = None then None
          else map_option (\<lambda>(ret, skip, regs, w). w)
            (sbi_ecall_sse_handler 9 demo_g demo_sg demo_sse_sst (demo_dm me) me fid (demo_regs\<lparr>a0 := x, a1 := y\<rparr>, w))
      | Return me \<Rightarrow>
          if shs_ptr w me = None then None else map_option snd (sbi_sse_process_pending_events demo_sse_sst me (demo_regs, w))
      | Join me \<Rightarrow> if shs_ptr w me = None then Some (snd (sse_init_hart demo_sse_sst demo_sg True me w)) else None)"

fun demo_run :: "demo_command list \<Rightarrow> demo_system \<Rightarrow> demo_system option" where
  "demo_run [] w = Some w"
| "demo_run (c # cs) w = Option.bind (demo_exec c w) (demo_run cs)"

lemma demo_exec_reachable:
  assumes "sse_reachable demo_g demo_sg demo_sse_sst demo_dm w" "demo_exec c w = Some w'"
  shows "sse_reachable demo_g demo_sg demo_sse_sst demo_dm w'"
proof (cases c)
  case (Call me fid x y)
  then obtain ret skip regs where "shs_ptr w me \<noteq> None"
    "sbi_ecall_sse_handler 9 demo_g demo_sg demo_sse_sst (demo_dm me) me fid (demo_regs\<lparr>a0 := x, a1 := y\<rparr>, w) = Some (ret, skip, regs, w')"
    using assms(2) by (auto simp: demo_exec_def split: if_splits)
  then show ?thesis by (rule sse_reachable.step [OF assms(1) sse_step.ecall])
next
  case (Return me)
  then obtain regs where "shs_ptr w me \<noteq> None" "sbi_sse_process_pending_events demo_sse_sst me (demo_regs, w) = Some (regs, w')"
    using assms(2) by (auto simp: demo_exec_def split: if_splits)
  then show ?thesis by (rule sse_reachable.step [OF assms(1) sse_step.trap_end])
next
  case (Join me)
  then have n: "shs_ptr w me = None" and i: "snd (sse_init_hart demo_sse_sst demo_sg True me w) = w'"
    using assms(2) by (simp_all add: demo_exec_def split: if_splits)
  then have "sse_init_hart demo_sse_sst demo_sg True me w = (0, w')" by (simp add: sse_init_hart_def)
  then have "sbi_sse_init True True me False (demo_sg, demo_g, demo_sse_sst, w) = (0, demo_sg, demo_g, demo_sse_sst, w')"
    by (simp add: sbi_sse_init_def)
  then show ?thesis by (rule sse_reachable.warm [OF assms(1) n])
qed

lemma demo_run_reachable:
  "sse_reachable demo_g demo_sg demo_sse_sst demo_dm w \<Longrightarrow> demo_run cs w = Some w' \<Longrightarrow> sse_reachable demo_g demo_sg demo_sse_sst demo_dm w'"
  by (induction cs arbitrary: w) (auto simp: bind_eq_Some_conv intro: demo_exec_reachable)

text \<open>Hart 0 unmasks events, registers a handler for the local event, enables and injects it.\<close>

definition demo_pending :: "demo_command list" where
  "demo_pending = [Call 0 8 0 0, Call 0 2 0xffff0000 0x90000000, Call 0 4 0xffff0000 0, Call 0 7 0xffff0000 0]"

text \<open>
  Hart 0 registers the global event, enables and injects it, and disables it while it is pending; then hart 1 joins and
  injects it, which leaves its id in the queue of hart 0.
\<close>

definition demo_race :: "demo_command list" where
  "demo_race = [Call 0 2 0xffff8000 0x90000000, Call 0 4 0xffff8000 0, Call 0 7 0xffff8000 0, Call 0 5 0xffff8000 0,
     Join 1, Call 1 7 0xffff8000 0]"

abbreviation after :: "demo_command list \<Rightarrow> demo_system" where
  "after cs \<equiv> the (demo_run cs demo_sse_w1)"

lemma after_reachable: "demo_run cs demo_sse_w1 \<noteq> None \<Longrightarrow> sse_reachable demo_g demo_sg demo_sse_sst demo_dm (after cs)"
  using demo_run_reachable [OF demo_reachable] by auto

end
