(* ===== verification/SbiSseProps.thy ===== *)
theory SbiSseProps
  imports SbiSseDemo
begin

text \<open>
  The properties of supervisor software events over every reachable state: the enabled lists, the stacks of
  running handlers, the choice by priority at the end of a trap, and a deadlock of the call that enables an event.
\<close>

unbundle bit_operations_syntax

section \<open>The enabled lists\<close>

definition valid_event :: "sse_ref \<Rightarrow> ('p, 'a) sse_system_scheme \<Rightarrow> bool" where
  "valid_event r w =
     (case r of
        Global i \<Rightarrow> i < length (global_events w)
      | Local h i \<Rightarrow> (case shs_ptr w h of None \<Rightarrow> False | Some s \<Rightarrow> i < length (local_events s)))"

lemma valid_view: "valid_event r w \<longleftrightarrow> r \<in> vV (sse_view sst w)"
  by (cases r) (auto simp: valid_event_def sse_view_def split: option.splits)

lemma reachable_list:
  assumes "sse_reachable g sg sst dm w" "shs_ptr w h = Some s"
  shows "distinct (enabled_event_list s)" "sorted_wrt (\<lambda>a b. sse_before (ev_at a w) (ev_at b w)) (enabled_event_list s)"
    "r \<in> set (enabled_event_list s) \<longleftrightarrow> valid_event r w \<and> hartindex (ev_at r w) = h \<and> on_list (ev_at r w)"
    "\<not> enabled_event_lock s"
proof -
  have inv: "sse_inv sst w" using reachable_ok [OF assms(1)] by (simp add: reach_ok_def)
  moreover have "h \<in> vH (sse_view sst w)" using assms(2) by (simp add: sse_view_def)
  ultimately have "list_ok (vV (sse_view sst w)) (vev (sse_view sst w)) h (enabled_event_list s)"
    using view_list_me [OF assms(2), of sst] unfolding sse_inv_def core_ok_def events_ok_def by metis
  then show "distinct (enabled_event_list s)" "sorted_wrt (\<lambda>a b. sse_before (ev_at a w) (ev_at b w)) (enabled_event_list s)"
    "r \<in> set (enabled_event_list s) \<longleftrightarrow> valid_event r w \<and> hartindex (ev_at r w) = h \<and> on_list (ev_at r w)"
    by (auto simp: list_ok_def valid_view [of r w sst])
  show "\<not> enabled_event_lock s" using inv assms(2) by (auto simp: sse_inv_def sse_view_def)
qed


lemma demo_pending_state:
  "case demo_run demo_pending demo_sse_w1 of None \<Rightarrow> False | Some w \<Rightarrow>
     (case shs_ptr w 0 of None \<Rightarrow> False | Some s \<Rightarrow> \<not> masked s \<and> enabled_event_list s = [Local 0 0]) \<and>
     (case ev_at (Local 0 0) w of e \<Rightarrow> sse_event_state e = SBI_SSE_STATE_ENABLED \<and> sse_event_is_ready 0 e \<and>
        en_pc (at_entry (attrs e)) = 0x90000000)"
  by code_simp

lemma demo_pending_facts:
  obtains s where "demo_run demo_pending demo_sse_w1 \<noteq> None" "shs_ptr (after demo_pending) 0 = Some s" "\<not> masked s" "enabled_event_list s = [Local 0 0]"
    "sse_event_state (ev_at (Local 0 0) (after demo_pending)) = SBI_SSE_STATE_ENABLED" "sse_event_is_ready 0 (ev_at (Local 0 0) (after demo_pending))"
    "en_pc (at_entry (attrs (ev_at (Local 0 0) (after demo_pending)))) = 0x90000000"
  using demo_pending_state by (auto split: option.splits)


section \<open>The stacks of running handlers\<close>

definition running_events :: "('p, 'a) sse_system_scheme \<Rightarrow> nat \<Rightarrow> sse_ref list" where
  "running_events w h =
     (case shs_ptr w h of
        None \<Rightarrow> []
      | Some s \<Rightarrow> filter (\<lambda>r. sse_event_state (ev_at r w) = SBI_SSE_STATE_RUNNING) (enabled_event_list s))"

lemma running_events_view: "running_events w = running (sse_view sst w)"
  by (auto simp: running_events_def running_def fun_eq_iff sse_view_def is_running_def split: option.splits)



section \<open>The choice at the end of a trap\<close>

text \<open>The events that compete for hart \<open>me\<close>, and the one that is before all others.\<close>

definition competing :: "scratch_state \<Rightarrow> nat \<Rightarrow> ('p, 'a) sse_system_scheme \<Rightarrow> sse_ref \<Rightarrow> bool" where
  "competing sst me w r \<longleftrightarrow> valid_event r w \<and> hartindex (ev_at r w) = me \<and>
     (sse_event_state (ev_at r w) = SBI_SSE_STATE_RUNNING \<or> sse_event_is_ready (current_hartid sst me) (ev_at r w))"

definition first_event :: "scratch_state \<Rightarrow> nat \<Rightarrow> ('p, 'a) sse_system_scheme \<Rightarrow> sse_ref \<Rightarrow> bool" where
  "first_event sst me w r \<longleftrightarrow> competing sst me w r \<and>
     (\<forall>q. competing sst me w q \<longrightarrow> q = r \<or> sse_before (ev_at r w) (ev_at q w))"

lemma find_sorted:
  assumes "sorted_wrt R xs"
  shows "find P xs = Some r \<Longrightarrow> r \<in> set xs \<and> P r \<and> (\<forall>q \<in> set xs. P q \<longrightarrow> q = r \<or> R r q)"
  using assms by (induction xs) (auto split: if_splits)

lemma next_event_first:
  assumes "sse_reachable g sg sst dm w" "shs_ptr w me = Some s"
  shows "next_event sst me w (enabled_event_list s) = Some r \<longleftrightarrow> first_event sst me w r"
    "next_event sst me w (enabled_event_list s) = None \<longleftrightarrow> (\<nexists>r. competing sst me w r)"
proof -
  note l = reachable_list [OF assms]
  have c: "competing sst me w q \<longleftrightarrow> q \<in> set (enabled_event_list s) \<and> (is_running (ev_at q w) \<or> sse_event_is_ready (current_hartid sst me) (ev_at q w))" for q
    using l(3) [of q] by (auto simp: competing_def state_listed ready_state is_running_def)
  then show none: "next_event sst me w (enabled_event_list s) = None \<longleftrightarrow> (\<nexists>r. competing sst me w r)"
    by (auto simp: next_event_def find_None_iff)
  have fst: "next_event sst me w (enabled_event_list s) = Some q \<Longrightarrow> first_event sst me w q" for q
    using find_sorted [OF l(2)] by (auto simp: next_event_def first_event_def c)
  moreover have "next_event sst me w (enabled_event_list s) = Some r" if r: "first_event sst me w r"
  proof -
    obtain q where q: "next_event sst me w (enabled_event_list s) = Some q" using r none by (auto simp: first_event_def)
    have "q = r" using fst [OF q] r sse_before_trans [of "ev_at r w" "ev_at q w" "ev_at r w"] sse_before_irrefl by (auto simp: first_event_def)
    then show ?thesis using q by simp
  qed
  ultimately show "next_event sst me w (enabled_event_list s) = Some r \<longleftrightarrow> first_event sst me w r" by blast
qed

text \<open>An event that is first and not running yet is injected when the hart has not masked events.\<close>

lemma first_event_runs:
  assumes "sse_reachable g sg sst dm w" "shs_ptr w me = Some s" "\<not> masked s" "first_event sst me w r"
    "sse_event_state (ev_at r w) \<noteq> SBI_SSE_STATE_RUNNING"
  obtains regs' w' where "sbi_sse_process_pending_events sst me (regs, w) = Some (regs', w')"
    "sse_event_inject (current_hartid sst me) (ev_at r w, regs, lcsrs w me) = (ev_at r w', regs', lcsrs w' me)"
    "running_events w' = (running_events w)(me := r # running_events w me)"
proof -
  have inv: "sse_inv sst w" using reachable_ok [OF assms(1)] by (simp add: reach_ok_def)
  obtain regs' w' where p: "sbi_sse_process_pending_events sst me (regs, w) = Some (regs', w')"
    "if masked s then regs' = regs \<and> w' = w
     else case next_event sst me w (enabled_event_list s) of
        None \<Rightarrow> regs' = regs \<and> sse_view sst w' = sse_view sst w
      | Some r \<Rightarrow> if is_running (ev_at r w) then regs' = regs \<and> sse_view sst w' = sse_view sst w
          else sse_event_is_ready (current_hartid sst me) (ev_at r w) \<and> pushes sst me (sse_view sst w) (sse_view sst w') r \<and>
            sse_event_inject (current_hartid sst me) (ev_at r w, regs, lcsrs w me) = (ev_at r w', regs', lcsrs w' me)"
    using process_cases [OF inv assms(2), of regs] by blast
  then have "pushes sst me (sse_view sst w) (sse_view sst w') r"
    "sse_event_inject (current_hartid sst me) (ev_at r w, regs, lcsrs w me) = (ev_at r w', regs', lcsrs w' me)"
    using assms(3-5) next_event_first(1) [OF assms(1,2), of r] by (simp_all add: is_running_def)
  then show thesis using p(1) that by (simp add: running_events_view [of _ sst] pushes_def)
qed



section \<open>A deadlock\<close>

lemma locked_get:
  assumes "core_ok sst (sse_view sst w)" "i \<in> vGL (sse_view sst w)" "event_id (ev_at (Global i) w) = eid"
  shows "sse_event_get me eid w = None"
proof -
  let ?P = "\<lambda>j. event_id (ge_event (global_events w ! j)) = eid"
  have v: "i < length (global_events w)" "ge_lock (global_events w ! i)" using assms(2) by (auto simp: sse_view_def)
  have V: "j < length (global_events w) \<Longrightarrow> Global j \<in> vV (sse_view sst w)" for j by (simp add: sse_view_def)
  have glob: "EVENT_IS_GLOBAL eid" using core_event [OF assms(1) V [OF v(1)]] assms(3) by (simp add: event_ok_def home_ok_def)
  have cnt: "global_event_count w = length (global_events w)" using assms(1) by (auto simp: core_ok_def sse_view_def)
  have "find ?P [0..<global_event_count w] = Some i"
  proof (cases "find ?P [0..<global_event_count w]")
    case None
    then show ?thesis using v(1) cnt assms(3) by (auto simp: find_None_iff ev_at_def)
  next
    case (Some j)
    then have j: "j < length (global_events w)" "?P j" using find_upt_Some [OF Some] cnt by auto
    have "ids_ok (vV (sse_view sst w)) (vev (sse_view sst w))" using assms(1) by (simp add: core_ok_def events_ok_def)
    then have "j = i" using V [OF j(1)] V [OF v(1)] j(2) assms(3) by (fastforce simp: ids_ok_def ev_at_def)
    then show ?thesis using Some by simp
  qed
  then show ?thesis using glob v(2) by (simp add: sse_event_get_def Let_def ge_spin_lock_def)
qed

lemma pending_id:
  assumes "r \<in> vV (sse_view sst w)"
  shows "event_id (ev_at q (snd (sse_event_set_pending r w))) = event_id (ev_at q w)"
  using ev_at_on_ev [OF assms] by (simp add: sse_event_set_pending_def Let_def set_status_def)

text \<open>Serving the queue of injected events while holding the lock of one of them does not return.\<close>

lemma inject_loop_locked:
  assumes "core_ok sst (sse_view sst w)" "i \<in> vGL (sse_view sst w)" "event_id (ev_at (Global i) w) = eid" "eid \<in> set q"
  shows "inject_loop me q w = None"
  using assms
proof (induction me q w rule: inject_loop.induct)
  case (2 me x q w)
  let ?w = "w\<lparr>inject_fifo := (inject_fifo w)(me := q)\<rparr>"
  have c: "core_ok sst (sse_view sst ?w)" "vcounts (sse_view sst ?w)" "i \<in> vGL (sse_view sst ?w)" "event_id (ev_at (Global i) ?w) = eid"
    using "2.prems" by (simp_all add: core_ok_def)
  show ?case
  proof (cases "sse_event_get me x ?w")
    case None
    then show ?thesis by simp
  next
    case (Some p)
    obtain got w1 where g: "sse_event_get me x ?w = Some (got, w1)" using Some by (cases p) simp
    have x: "x \<noteq> eid" using locked_get [OF c(1,3,4)] g by auto
    show ?thesis
    proof (cases got)
      case (Inl rc)
      then show ?thesis
        using "2.IH"(1) [OF g refl Inl] "2.prems" sse_event_get_cases [OF g c(2)] g x c by auto
    next
      case (Inr r)
      let ?w2 = "snd (sse_event_set_pending r w1)"
      have gr: "got_ref sst me x ?w r w1" using sse_event_get_cases [OF g c(2)] Inr by simp
      then have c1: "core_ok sst (sse_view sst w1)" "r \<in> vV (sse_view sst w1)" using c by (auto simp: got_ref_def)
      have k: "kept sst (sse_view sst w1) (sse_view sst ?w2)" using pending_quiet [OF c1] by (simp add: quiet_def)
      note v = get_put_view [OF gr k]
      have "ev_at (Global i) (sse_event_put r ?w2) = ev_at (Global i) ?w2"
        using arg_cong [OF v, of "\<lambda>v. vev v (Global i)"] by simp
      then have "event_id (ev_at (Global i) (sse_event_put r ?w2)) = eid"
        using pending_id [OF c1(2)] gr c(4) by (simp add: got_ref_def)
      moreover have "core_ok sst (sse_view sst (sse_event_put r ?w2))" "i \<in> vGL (sse_view sst (sse_event_put r ?w2))"
        using get_put_kept [OF gr k] c(3) by (auto simp: kept_def)
      ultimately show ?thesis using "2.IH"(2) [OF g refl Inr] "2.prems"(4) x g Inr by simp
    qed
  qed
qed simp

lemma fifo_frame [simp]:
  "inject_fifo (on_shs h f w) = inject_fifo w" "inject_fifo (on_ev r k w) = inject_fifo w"
  "inject_fifo (sse_event_invoke_cb cb sg me r w) = inject_fifo w" "sse_event_add_to_list r w = Some w' \<Longrightarrow> inject_fifo w' = inject_fifo w"
  by (auto simp: on_shs_def on_ev_def sse_event_invoke_cb_def sse_event_add_to_list_def Let_def split: sse_ref.splits option.splits if_splits)

lemma hsm_frame [simp]:
  "hsm_system.truncate (on_shs h f w) = hsm_system.truncate w" "hsm_system.truncate (on_ev r k w) = hsm_system.truncate w"
  "hsm_system.truncate (sse_event_invoke_cb cb sg me r w) = hsm_system.truncate w"
  "sse_event_add_to_list r w = Some w' \<Longrightarrow> hsm_system.truncate w' = hsm_system.truncate w"
  by (auto simp: on_shs_def on_ev_def sse_event_invoke_cb_def sse_event_add_to_list_def Let_def hsm_system.defs
      split: sse_ref.splits option.splits if_splits)

text \<open>An interrupt of the hart itself is served at once, and does not return when serving the queue does not.\<close>

lemma send_self_stuck:
  assumes "event_ops g event = Some sse_ipi_inject_ops" "sbi_hartindex_to_scratch sst me \<noteq> None"
    "sbi_hartmask_harts (ipi_targets sst dm w 1 hartid) = [me]" "inject_loop me (inject_fifo w me) w = None"
  shows "send_one g sst dm me hartid event w = None"
proof -
  have "ipi_passes (\<lambda>i. sbi_ipi_send g sst me i event ()) (ipi_targets sst dm w 1 hartid) w = Some (None, w)"
    using assms by (subst ipi_passes.simps) (auto simp: sbi_ipi_send_def sse_ipi_inject_ops_def sse_ipi_inject_process_def)
  then show ?thesis by (simp add: send_one_def sbi_ipi_send_many_def)
qed

lemma event_enable_stuck:
  assumes "sse_ready g sg sst" "core_ok sst (sse_view sst w)" "i \<in> vGL (sse_view sst w)" "ev_at (Global i) w = e"
    "sse_event_state e = SBI_SSE_STATE_REGISTERED" "sse_event_pending e" "event_id e \<in> set (inject_fifo w me)"
    "sbi_hartindex_to_scratch sst me \<noteq> None" "sbi_hartmask_harts (ipi_targets sst dm w 1 (at_hartid (attrs e))) = [me]"
  shows "sse_event_enable g sg sst dm me (Global i) w = None"
proof -
  let ?r = "Global i"
  have V: "?r \<in> vV (sse_view sst w)" using assms(3) by (simp add: sse_view_def)
  have glob: "EVENT_IS_GLOBAL (event_id e)" using core_event [OF assms(2) V] assms(4) by (simp add: event_ok_def home_ok_def)
  obtain w1 where w1: "sse_event_add_to_list ?r (on_ev ?r (sse_event_set_state SBI_SSE_STATE_ENABLED) w) = Some w1"
    "quiet sst (sse_view sst w) (sse_view sst w1)" "ev_at ?r w1 = sse_event_set_state SBI_SSE_STATE_ENABLED e"
    using add_enabled [OF assms(2) V] assms(4,5) by auto
  let ?w2 = "sse_event_invoke_cb enable_cb sg me ?r w1"
  have e2: "event_id (ev_at ?r ?w2) = event_id e" "at_hartid (attrs (ev_at ?r ?w2)) = at_hartid (attrs e)" "sse_event_pending (ev_at ?r ?w2)"
    using w1(3) assms(6) by simp_all
  have "inject_loop me (inject_fifo ?w2 me) ?w2 = None"
    using w1(1,2) e2(1) assms(3,7) by (intro inject_loop_locked [of sst _ i "event_id e"]) (auto simp: quiet_def kept_def)
  moreover have "ipi_targets sst dm ?w2 1 (at_hartid (attrs e)) = ipi_targets sst dm w 1 (at_hartid (attrs e))"
    using w1(1) by (simp add: ipi_targets_def)
  ultimately have "send_one g sst dm me (at_hartid (attrs e)) (sse_ipi_inject_event sg) ?w2 = None"
    using assms(1,8,9) by (intro send_self_stuck) (simp_all add: sse_ready_def)
  then show ?thesis
    using assms(4,5) w1(1) e2 glob by (simp add: sse_event_enable_def Let_def sse_event_is_global_def)
qed

text \<open>
  \<open>sbi_sse_enable\<close> can deadlock on the lock it holds.  If a registered global event of the calling hart is still pending and the
  queue of events injected into the hart holds its id, the call does not return: it sends the hart an interrupt
  to look at the pending event, which the hart serves at once, emptying the queue, for which it takes the lock of the event again.
\<close>

lemma sse_enable_deadlock:
  assumes "sse_reachable g sg sst dm w" "shs_ptr w me \<noteq> None" "i < length (global_events w)" "ge_event (global_events w ! i) = e"
    "sse_event_state e = SBI_SSE_STATE_REGISTERED" "sse_event_pending e" "at_hartid (attrs e) = current_hartid sst me"
    "event_id e \<in> set (inject_fifo w me)"
    and own: "sbi_hartindex_to_scratch sst me \<noteq> None" "sbi_hartmask_harts (ipi_targets sst (dm me) w 1 (current_hartid sst me)) = [me]"
  shows "sbi_sse_enable g sg sst (dm me) me (event_id e) w = None"
proof -
  have inv: "sse_inv sst w" and ready: "sse_ready g sg sst" using reachable_ok [OF assms(1)] by (simp_all add: reach_ok_def)
  have core: "core_ok sst (sse_view sst w)" "vcounts (sse_view sst w)" using inv by (simp_all add: sse_inv_def core_ok_def)
  let ?r = "Global i"
  have e: "ev_at ?r w = e" "?r \<in> vV (sse_view sst w)" using assms(3,4) by (simp_all add: ev_at_def sse_view_def)
  have glob: "EVENT_IS_GLOBAL (event_id e)" using core_event [OF core(1) e(2)] e(1) by (simp add: event_ok_def home_ok_def)
  show ?thesis
  proof (cases "sse_event_get me (event_id e) w")
    case None
    then show ?thesis by (simp add: sbi_sse_enable_def)
  next
    case (Some p)
    obtain got w1 where g: "sse_event_get me (event_id e) w = Some (got, w1)" using Some by (cases p) simp
    obtain j where "got = Inr (Global j)"
      using g glob core(2) assms(3,4) by (auto simp: sse_event_get_def Let_def find_None_iff sse_view_def split: option.splits)
    moreover have "j = i"
      using calculation sse_event_get_cases [OF g core(2)] core(1) e by (fastforce simp: got_ref_def core_ok_def events_ok_def ids_ok_def)
    ultimately have gr: "got_ref sst me (event_id e) w ?r w1" and got: "got = Inr ?r" using sse_event_get_cases [OF g core(2)] by simp_all
    have "sse_event_enable g sg sst (dm me) me ?r w2 = None" if l: "sse_enabled_event_lock ?r w1 = Some w2" for w2
    proof -
      have w2: "w2 = on_shs (hartindex e) (\<lambda>s. s\<lparr>enabled_event_lock := True\<rparr>) w1" "vGL (sse_view sst w2) = vGL (sse_view sst w1)"
        using l gr e(1) by (auto simp: sse_enabled_event_lock_def list_spin_lock_def got_ref_def sse_view_def on_shs_def split: option.splits if_splits)
      have "core_ok sst (sse_view sst w2)" using lock_core(1) [OF l, of sst] gr core(1) by (simp add: got_ref_def)
      moreover have "ipi_targets sst (dm me) w2 1 (at_hartid (attrs e)) = ipi_targets sst (dm me) w 1 (at_hartid (attrs e))"
        using w2(1) gr by (simp add: ipi_targets_def got_ref_def)
      ultimately show ?thesis
        using event_enable_stuck [OF ready, of w2 i e me "dm me"] assms w2 gr e(1) by (auto simp: got_ref_def gl_def)
    qed
    then show ?thesis using g got by (cases "sse_enabled_event_lock ?r w1") (auto simp: sbi_sse_enable_def)
  qed
qed

lemma demo_race_state:
  "case demo_run demo_race demo_sse_w1 of None \<Rightarrow> False | Some w \<Rightarrow>
     (case ge_event (global_events w ! 0) of e \<Rightarrow>
       \<not> Option.is_none (shs_ptr w 0) \<and> 0 < length (global_events w) \<and> sse_event_state e = SBI_SSE_STATE_REGISTERED \<and>
       sse_event_pending e \<and> at_hartid (attrs e) = 0 \<and> event_id e \<in> set (inject_fifo w 0) \<and>
       event_id e = SBI_SSE_EVENT_GLOBAL_SOFTWARE \<and> sbi_hartmask_harts (ipi_targets demo_sse_sst (demo_dm 0) w 1 0) = [0])"
  by code_simp

end
