(* ===== verification/SbiTrapHandler.thy ===== *)
theory SbiTrapHandler
  imports SbiEcall SbiSseProps
begin

text \<open>
  The trap handler (\<open>sbi_trap_handler\<close> of \<open>lib/sbi/sbi_trap.c\<close>) with double traps (\<open>lib/sbi/sbi_double_trap.c\<close>) and the extensions for
  supervisor software events and inter-processor interrupts (\<open>lib/sbi/sbi_ecall_sse.c\<close>, \<open>lib/sbi/sbi_ecall_ipi.c\<close>): calls of the supervisor go
  through the dispatcher, and every return to a lower mode passes the injection of events.  The components that the handler
  calls and that have no model here are parameters.
\<close>

unbundle bit_operations_syntax

section \<open>Extensions\<close>

definition SBI_EXT_IPI :: u64 where "SBI_EXT_IPI = 0x735049"
definition SBI_EXT_SSE :: u64 where "SBI_EXT_SSE = 0x535345"
definition SBI_EXT_IPI_SEND_IPI :: u64 where "SBI_EXT_IPI_SEND_IPI = 0"

text \<open>Each extension is registered by its address.\<close>

definition ecall_base :: "'w ecall_globals \<Rightarrow> hart_ids \<Rightarrow> 'w sbi_ecall_extension" where
  "ecall_base eg ids = \<lparr>extid_start = SBI_EXT_BASE, extid_end = SBI_EXT_BASE, experimental = False, probe = None,
     handle = Some (sbi_ecall_base_handler eg ids)\<rparr>"

definition sbi_ecall_base_register_extensions :: "u64 \<Rightarrow> 'w ecall_globals \<Rightarrow> int \<times> 'w ecall_globals" where
  "sbi_ecall_base_register_extensions ecall_base_addr eg = sbi_ecall_register_extension (Some ecall_base_addr) eg"

text \<open>The SSE handler in the form of the dispatcher; a call that does not return has no result.\<close>

definition ecall_sse ::
  "nat \<Rightarrow> (('p, 'a) sse_system_scheme, unit) ipi_globals \<Rightarrow> 'p sse_globals \<Rightarrow> scratch_state \<Rightarrow> sbi_domain option \<Rightarrow> nat \<Rightarrow>
   ('p, 'a) sse_system_scheme sbi_ecall_extension" where
  "ecall_sse fuel g sg sst dm me = \<lparr>extid_start = SBI_EXT_SSE, extid_end = SBI_EXT_SSE, experimental = True, probe = None,
     handle = Some (\<lambda>extid funcid s.
       map_option (\<lambda>(ret, skip, regs, w). (ret, \<lparr>skip_regs_update = skip, ret_value = 0\<rparr>, regs, w))
         (sbi_ecall_sse_handler fuel g sg sst dm me funcid s))\<rparr>"

definition sbi_ecall_sse_register_extensions :: "u64 \<Rightarrow> 'w ecall_globals \<Rightarrow> int \<times> 'w ecall_globals" where
  "sbi_ecall_sse_register_extensions ecall_sse_addr eg = sbi_ecall_register_extension (Some ecall_sse_addr) eg"

definition sbi_ecall_ipi_handler ::
  "(('p, 'a) sse_system_scheme, unit) ipi_globals \<Rightarrow> scratch_state \<Rightarrow> sbi_domain option \<Rightarrow> nat \<Rightarrow> u64 \<Rightarrow> u64 \<Rightarrow>
   sbi_trap_regs \<times> ('p, 'a) sse_system_scheme \<Rightarrow> (int \<times> sbi_ecall_return \<times> sbi_trap_regs \<times> ('p, 'a) sse_system_scheme) option" where
  "sbi_ecall_ipi_handler g sst dm me extid funcid s =
     (case s of (regs, w) \<Rightarrow>
        let reply = (\<lambda>ret w. Some (ret, \<lparr>skip_regs_update = False, ret_value = 0\<rparr>, regs, w)) in
        if funcid = SBI_EXT_IPI_SEND_IPI
        then (case sbi_ipi_send_smode g sst me dm (a0 regs) (a1 regs) () w of Some (Some ret, w) \<Rightarrow> reply ret w | _ \<Rightarrow> None)
        else reply SBI_ENOTSUPP w)"

definition ecall_ipi ::
  "(('p, 'a) sse_system_scheme, unit) ipi_globals \<Rightarrow> scratch_state \<Rightarrow> sbi_domain option \<Rightarrow> nat \<Rightarrow>
   ('p, 'a) sse_system_scheme sbi_ecall_extension" where
  "ecall_ipi g sst dm me = \<lparr>extid_start = SBI_EXT_IPI, extid_end = SBI_EXT_IPI, experimental = False, probe = None,
     handle = Some (sbi_ecall_ipi_handler g sst dm me)\<rparr>"

definition sbi_ecall_ipi_register_extensions :: "u64 \<Rightarrow> 'w ecall_globals \<Rightarrow> int \<times> 'w ecall_globals" where
  "sbi_ecall_ipi_register_extensions ecall_ipi_addr eg = sbi_ecall_register_extension (Some ecall_ipi_addr) eg"

section \<open>Double traps\<close>

text \<open>\<open>SBI_ERR_INVALID_PARAM\<close> is \<open>-3\<close>.  \<open>None\<close> when the injection does not return.\<close>

definition SBI_ERR_INVALID_PARAM :: int where "SBI_ERR_INVALID_PARAM = - 3"

definition sbi_double_trap_handler ::
  "(('p, 'a) sse_system_scheme, unit) ipi_globals \<Rightarrow> 'p sse_globals \<Rightarrow> scratch_state \<Rightarrow> sbi_domain option \<Rightarrow> nat \<Rightarrow> sbi_trap_info \<Rightarrow>
   sbi_trap_regs \<times> ('p, 'a) sse_system_scheme \<Rightarrow> (int \<times> sbi_trap_regs \<times> ('p, 'a) sse_system_scheme) option" where
  "sbi_double_trap_handler g sg sst dm me trap s =
     (case s of (regs, w) \<Rightarrow>
        let prev_virt = sbi_regs_from_virt regs in
        if sbi_mstatus_prev_mode (mstatus regs) \<noteq> PRV_S then Some (SBI_ERR_INVALID_PARAM, regs, w)
        else if prev_virt then
          (case sbi_trap_redirect trap (regs, lcsrs w me) of (rc, regs, c) \<Rightarrow> Some (rc, regs, w\<lparr>lcsrs := (lcsrs w)(me := c)\<rparr>))
        else map_option (\<lambda>(rc, w). (rc, regs, w)) (sbi_sse_inject_event g sg sst dm me SBI_SSE_EVENT_LOCAL_DOUBLE_TRAP w))"

definition sbi_double_trap_init :: "bool \<Rightarrow> nat option \<Rightarrow> 'p sse_globals \<Rightarrow> 'p sse_globals" where
  "sbi_double_trap_init has_ssdbltrp info sg =
     (if has_ssdbltrp then snd (sbi_sse_add_event info SBI_SSE_EVENT_LOCAL_DOUBLE_TRAP None sg) else sg)"

section \<open>The handler\<close>

definition MCAUSE_IRQ_MASK :: u64 where "MCAUSE_IRQ_MASK = push_bit 63 1"
definition IRQ_M_SOFT :: u64 where "IRQ_M_SOFT = 3"
definition IRQ_M_TIMER :: u64 where "IRQ_M_TIMER = 7"
definition IRQ_M_EXT :: u64 where "IRQ_M_EXT = 11"
definition TOPI_IID_SHIFT :: nat where "TOPI_IID_SHIFT = 16"
definition CAUSE_ILLEGAL_INSTRUCTION :: u64 where "CAUSE_ILLEGAL_INSTRUCTION = 0x2"
definition CAUSE_MISALIGNED_LOAD :: u64 where "CAUSE_MISALIGNED_LOAD = 0x4"
definition CAUSE_LOAD_ACCESS :: u64 where "CAUSE_LOAD_ACCESS = 0x5"
definition CAUSE_MISALIGNED_STORE :: u64 where "CAUSE_MISALIGNED_STORE = 0x6"
definition CAUSE_STORE_ACCESS :: u64 where "CAUSE_STORE_ACCESS = 0x7"
definition CAUSE_SUPERVISOR_ECALL :: u64 where "CAUSE_SUPERVISOR_ECALL = 0x9"
definition CAUSE_MACHINE_ECALL :: u64 where "CAUSE_MACHINE_ECALL = 0xb"
definition CAUSE_DOUBLE_TRAP :: u64 where "CAUSE_DOUBLE_TRAP = 0x10"

text \<open>
  What the handler calls of other components: the emulation of instructions and accesses, the timer, the external interrupts and
  the performance counters; \<open>csr_mtopi\<close> reads the interrupt with the highest priority of a hart.
\<close>

record 'w trap_calls =
  sbi_illegal_insn_handler :: "sbi_trap_info \<Rightarrow> sbi_trap_regs \<times> 'w \<Rightarrow> (int \<times> sbi_trap_regs \<times> 'w) option"
  sbi_misaligned_load_handler :: "sbi_trap_info \<Rightarrow> sbi_trap_regs \<times> 'w \<Rightarrow> (int \<times> sbi_trap_regs \<times> 'w) option"
  sbi_misaligned_store_handler :: "sbi_trap_info \<Rightarrow> sbi_trap_regs \<times> 'w \<Rightarrow> (int \<times> sbi_trap_regs \<times> 'w) option"
  sbi_load_access_handler :: "sbi_trap_info \<Rightarrow> sbi_trap_regs \<times> 'w \<Rightarrow> (int \<times> sbi_trap_regs \<times> 'w) option"
  sbi_store_access_handler :: "sbi_trap_info \<Rightarrow> sbi_trap_regs \<times> 'w \<Rightarrow> (int \<times> sbi_trap_regs \<times> 'w) option"
  sbi_timer_process :: "'w \<Rightarrow> 'w"
  sbi_irqchip_process :: "'w \<Rightarrow> int \<times> 'w"
  sbi_pmu_irq_bit :: u64
  sbi_pmu_ovf_irq :: "'w \<Rightarrow> 'w"
  fw_misaligned_load :: "'w \<Rightarrow> 'w"
  fw_misaligned_store :: "'w \<Rightarrow> 'w"
  fw_access_load :: "'w \<Rightarrow> 'w"
  fw_access_store :: "'w \<Rightarrow> 'w"
  csr_mtopi :: "'w \<Rightarrow> u64"

text \<open>One interrupt: \<open>None\<close> when a callback of an inter-processor interrupt does not return.\<close>

definition sbi_trap_nonaia_irq ::
  "'a ipi_system_scheme trap_calls \<Rightarrow> ('a ipi_system_scheme, 'd) ipi_globals \<Rightarrow> nat \<Rightarrow> u64 \<Rightarrow> 'a ipi_system_scheme \<Rightarrow>
   (int \<times> 'a ipi_system_scheme) option" where
  "sbi_trap_nonaia_irq calls g me irq w =
     (if irq = IRQ_M_TIMER then Some (0, sbi_timer_process calls w)
      else if irq = IRQ_M_SOFT then (case sbi_ipi_process g me w of (ok, w) \<Rightarrow> if ok then Some (0, w) else None)
      else if irq = IRQ_M_EXT then Some (sbi_irqchip_process calls w)
      else if irq = sbi_pmu_irq_bit calls then Some (0, sbi_pmu_ovf_irq calls w)
      else Some (SBI_ENOENT, w))"

text \<open>With the advanced interrupt architecture the interrupts are served until none is left; \<open>None\<close> when that never happens.\<close>

partial_function (option) sbi_trap_aia_irq ::
  "'a ipi_system_scheme trap_calls \<Rightarrow> ('a ipi_system_scheme, 'd) ipi_globals \<Rightarrow> nat \<Rightarrow> 'a ipi_system_scheme \<Rightarrow>
   (int \<times> 'a ipi_system_scheme) option" where
  "sbi_trap_aia_irq calls g me w =
     (let mtopi = csr_mtopi calls w in
      if mtopi = 0 then Some (0, w)
      else
        let mtopi = drop_bit TOPI_IID_SHIFT mtopi in
        if mtopi = IRQ_M_TIMER then sbi_trap_aia_irq calls g me (sbi_timer_process calls w)
        else if mtopi = IRQ_M_SOFT then (case sbi_ipi_process g me w of (ok, w) \<Rightarrow> if ok then sbi_trap_aia_irq calls g me w else None)
        else if mtopi = IRQ_M_EXT then
          (case sbi_irqchip_process calls w of (rc, w) \<Rightarrow> if rc \<noteq> 0 then Some (rc, w) else sbi_trap_aia_irq calls g me w)
        else if mtopi = sbi_pmu_irq_bit calls then sbi_trap_aia_irq calls g me (sbi_pmu_ovf_irq calls w)
        else Some (SBI_ENOENT, w))"

text \<open>What a hart passes to the handler: its index, domain, and whether it has the advanced interrupt architecture.\<close>

definition trap_dispatch ::
  "('p, 'a) sse_system_scheme trap_calls \<Rightarrow> ('p, 'a) sse_system_scheme ecall_globals \<Rightarrow> (('p, 'a) sse_system_scheme, unit) ipi_globals \<Rightarrow> 'p sse_globals \<Rightarrow>
   scratch_state \<Rightarrow> sbi_domain option \<Rightarrow> nat \<Rightarrow> bool \<Rightarrow> sbi_trap_info \<Rightarrow> sbi_trap_regs \<times> ('p, 'a) sse_system_scheme \<Rightarrow>
   (int \<times> sbi_trap_regs \<times> ('p, 'a) sse_system_scheme) option" where
  "trap_dispatch calls eg g sg sst dm me smaia trap s =
     (case s of (regs, w) \<Rightarrow>
        let mcause = trap_cause trap in
        if mcause AND MCAUSE_IRQ_MASK \<noteq> 0
        then map_option (\<lambda>(rc, w). (rc, regs, w))
          (if smaia then sbi_trap_aia_irq calls g me w else sbi_trap_nonaia_irq calls g me (mcause AND NOT MCAUSE_IRQ_MASK) w)
        else if mcause = CAUSE_ILLEGAL_INSTRUCTION then sbi_illegal_insn_handler calls trap (regs, w)
        else if mcause = CAUSE_MISALIGNED_LOAD then sbi_misaligned_load_handler calls trap (regs, fw_misaligned_load calls w)
        else if mcause = CAUSE_MISALIGNED_STORE then sbi_misaligned_store_handler calls trap (regs, fw_misaligned_store calls w)
        else if mcause = CAUSE_SUPERVISOR_ECALL \<or> mcause = CAUSE_MACHINE_ECALL then sbi_ecall_handler eg (regs, w)
        else if mcause = CAUSE_LOAD_ACCESS then sbi_load_access_handler calls trap (regs, fw_access_load calls w)
        else if mcause = CAUSE_STORE_ACCESS then sbi_store_access_handler calls trap (regs, fw_access_store calls w)
        else if mcause = CAUSE_DOUBLE_TRAP then sbi_double_trap_handler g sg sst dm me trap (regs, w)
        else (case sbi_trap_redirect trap (regs, lcsrs w me) of (rc, regs, c) \<Rightarrow> Some (rc, regs, w\<lparr>lcsrs := (lcsrs w)(me := c)\<rparr>)))"

text \<open>
  The handler; \<open>ctx\<close> is the trap context the scratch space of the hart points to, which the handler replaces by its own, the one at \<open>tcntx\<close>, and
  restores.  A handler that fails makes the hart print the registers and hang: \<open>None\<close>.
\<close>

definition sbi_trap_handler ::
  "('p, 'a) sse_system_scheme trap_calls \<Rightarrow> ('p, 'a) sse_system_scheme ecall_globals \<Rightarrow> (('p, 'a) sse_system_scheme, unit) ipi_globals \<Rightarrow> 'p sse_globals \<Rightarrow>
   scratch_state \<Rightarrow> sbi_domain option \<Rightarrow> nat \<Rightarrow> bool \<Rightarrow> u64 \<Rightarrow> sbi_trap_info \<Rightarrow> u64 \<times> sbi_trap_regs \<times> ('p, 'a) sse_system_scheme \<Rightarrow>
   (u64 \<times> sbi_trap_regs \<times> ('p, 'a) sse_system_scheme) option" where
  "sbi_trap_handler calls eg g sg sst dm me smaia tcntx trap s =
     (case s of (ctx, regs, w) \<Rightarrow>
        let prev_context = ctx; ctx = tcntx in
        (case trap_dispatch calls eg g sg sst dm me smaia trap (regs, w) of
           None \<Rightarrow> None
         | Some (rc, regs, w) \<Rightarrow>
             if rc \<noteq> 0 then None
             else if sbi_mstatus_prev_mode (mstatus regs) \<noteq> PRV_M
             then map_option (\<lambda>(regs, w). (prev_context, regs, w)) (sbi_sse_process_pending_events sst me (regs, w))
             else Some (prev_context, regs, w)))"


section \<open>Completion through the dispatcher\<close>

lemma sse_extid: "in_ext (ecall_sse fuel g sg sst dm me) i \<longleftrightarrow> i = SBI_EXT_SSE"
  by (auto simp: in_ext_def ecall_sse_def)


section \<open>Delivery of double traps\<close>

text \<open>Injecting a local event that is enabled or running sets its pending bit and nothing else.\<close>

definition set_pending :: "sbi_sse_event \<Rightarrow> sbi_sse_event" where
  "set_pending e = set_status (at_status (attrs e) OR BIT SBI_SSE_ATTR_STATUS_PENDING_OFFSET) e"

lemma set_pending_fields [simp]:
  "event_id (set_pending e) = event_id e" "hartindex (set_pending e) = hartindex e" "at_prio (attrs (set_pending e)) = at_prio (attrs e)"
  "at_hartid (attrs (set_pending e)) = at_hartid (attrs e)" "at_entry (attrs (set_pending e)) = at_entry (attrs e)"
  "sse_event_state (set_pending e) = sse_event_state e" "sse_event_pending (set_pending e)"
  by (simp_all add: set_pending_def set_status_def sse_event_state_def pending_bit SBI_SSE_ATTR_STATUS_PENDING_OFFSET_def pending_mask bit_or_iff bit_BIT_small)

lemma inject_local:
  assumes "sse_reachable g sg sst dm w" "shs_ptr w me = Some s" "valid_event (Local me i) w" "event_id (ev_at (Local me i) w) = eid"
  shows "sbi_sse_inject_event g sg sst d me eid w =
    (if sse_event_state (ev_at (Local me i) w) \<in> {SBI_SSE_STATE_ENABLED, SBI_SSE_STATE_RUNNING}
     then Some (SBI_OK, on_ev (Local me i) set_pending w) else Some (SBI_EINVALID_STATE, w))"
proof -
  let ?P = "\<lambda>j. event_id (local_events s ! j) = eid"
  have core: "core_ok sst (sse_view sst w)" using reachable_ok [OF assms(1)] by (simp add: reach_ok_def sse_inv_def)
  have V: "Local me j \<in> vV (sse_view sst w) \<longleftrightarrow> j < length (local_events s)" for j using assms(2) by (simp add: local_ref)
  have i: "i < length (local_events s)" "?P i" using assms(2-4) by (simp_all add: valid_event_def ev_at_def)
  have local: "\<not> EVENT_IS_GLOBAL eid" using core_event [OF core, of "Local me i"] V i(1) assms(4) by (simp add: event_ok_def home_ok_def)
  have n: "local_event_count w = length (local_events s)" using core assms(2) by (auto simp: core_ok_def sse_view_def)
  have "find ?P [0..<local_event_count w] = Some i"
  proof (cases "find ?P [0..<local_event_count w]")
    case None
    then show ?thesis using i n by (auto simp: find_None_iff)
  next
    case (Some j)
    then have j: "j < length (local_events s)" "?P j" using find_upt_Some [OF Some] n by simp_all
    have "ids_ok (vV (sse_view sst w)) (vev (sse_view sst w))" using core by (simp add: core_ok_def events_ok_def)
    moreover have "Local me j \<in> vV (sse_view sst w)" "Local me i \<in> vV (sse_view sst w)" using V i(1) j(1) by simp_all
    moreover have "event_id (vev (sse_view sst w) (Local me j)) = event_id (vev (sse_view sst w) (Local me i))"
      using i(2) j(2) assms(2) by (simp add: ev_at_def)
    ultimately have "j = i" unfolding ids_ok_def by (metis sse_ref.inject(1))
    then show ?thesis using Some by simp
  qed
  then have "sse_event_get me eid w = Some (Inr (Local me i), w)" using local assms(2) by (simp add: sse_event_get_def)
  then show ?thesis
    using local assms(4) V i(1)
    by (auto simp: sbi_sse_inject_event_def sse_inject_event_def Let_def sse_event_is_global_def sse_event_set_pending_def sse_event_put_def
        sse_event_is_local_def ev_at_on_ev set_pending_def [abs_def] set_status_def SBI_OK_def SBI_EINVALID_STATE_def)
qed



section \<open>Runs\<close>

text \<open>An idle machine around the supervisor software events, and the registry with their extension.\<close>

definition demo_calls :: "demo_system trap_calls" where
  "demo_calls = \<lparr>sbi_illegal_insn_handler = (\<lambda>_ _. None), sbi_misaligned_load_handler = (\<lambda>_ _. None), sbi_misaligned_store_handler = (\<lambda>_ _. None),
     sbi_load_access_handler = (\<lambda>_ _. None), sbi_store_access_handler = (\<lambda>_ _. None), sbi_timer_process = (\<lambda>w. w), sbi_irqchip_process = (\<lambda>w. (0, w)),
     sbi_pmu_irq_bit = 13, sbi_pmu_ovf_irq = (\<lambda>w. w), fw_misaligned_load = (\<lambda>w. w), fw_misaligned_store = (\<lambda>w. w), fw_access_load = (\<lambda>w. w),
     fw_access_store = (\<lambda>w. w), csr_mtopi = (\<lambda>_. 0)\<rparr>"

definition demo_sse_exts :: "u64 \<Rightarrow> demo_system sbi_ecall_extension" where
  "demo_sse_exts p = ecall_sse 9 demo_g demo_sg demo_sse_sst (demo_dm 0) 0"

definition demo_sse_registry :: "demo_system ecall_globals" where
  "demo_sse_registry = snd (sbi_ecall_register_extension (Some 1) \<lparr>ecall_impid = SBI_OPENSBI_IMPID, exts = demo_sse_exts, ecall_exts_list = []\<rparr>)"

lemma demo_sse_registry_ok: "ecall_reachable demo_sse_exts demo_sse_registry" "1 \<in> set (ecall_exts_list demo_sse_registry)"
proof -
  show "ecall_reachable demo_sse_exts demo_sse_registry"
    unfolding demo_sse_registry_def by (intro ecall_reachable.register [OF _ prod.collapse [symmetric]] ecall_reachable.start) simp_all
  show "1 \<in> set (ecall_exts_list demo_sse_registry)"
    by (simp add: demo_sse_registry_def sbi_ecall_register_extension_def demo_sse_exts_def ecall_sse_def)
qed

lemma demo_running_state:
  "case demo_run (demo_pending @ [Return 0]) demo_sse_w1 of None \<Rightarrow> False | Some w \<Rightarrow>
     \<not> Option.is_none (shs_ptr w 0) \<and> running_events w 0 = [Local 0 0] \<and> csr_sepc (lcsrs w 0) = 0x80200000"
  by code_simp


text \<open>Hart 0 unmasks events, registers a handler for double traps and enables it.\<close>

definition demo_double :: "demo_command list" where
  "demo_double = [Call 0 8 0 0, Call 0 2 1 0x90000000, Call 0 4 1 0]"

lemma demo_double_state:
  "case demo_run demo_double demo_sse_w1 of None \<Rightarrow> False | Some w \<Rightarrow>
     (case shs_ptr w 0 of None \<Rightarrow> False | Some s \<Rightarrow> \<not> masked s \<and> enabled_event_list s = [Local 0 1]) \<and> valid_event (Local 0 1) w \<and>
     (case ev_at (Local 0 1) w of e \<Rightarrow> event_id e = SBI_SSE_EVENT_LOCAL_DOUBLE_TRAP \<and> sse_event_state e = SBI_SSE_STATE_ENABLED \<and>
        en_pc (at_entry (attrs e)) = 0x90000000)"
  by code_simp


end
