(* ===== verification/SbiTimer.thy ===== *)
theory SbiTimer
  imports SbiTrapHandler
begin

text \<open>
  The timer (\<open>lib/sbi/sbi_timer.c\<close>) with its extension (\<open>lib/sbi/sbi_ecall_time.c\<close>), for 64-bit harts.  Reading the time is an action on the state, since
  time passes between two readings; the timer hardware is the device that the platform registers.
\<close>

unbundle bit_operations_syntax

section \<open>Data\<close>

definition MIP_MTIP :: u64 where "MIP_MTIP = 0x80"
definition SBI_EXT_TIME :: u64 where "SBI_EXT_TIME = 0x54494D45"
definition SBI_EXT_TIME_SET_TIMER :: u64 where "SBI_EXT_TIME_SET_TIMER = 0"

record 'w sbi_timer_device =
  timer_freq :: u64
  timer_value :: "('w \<Rightarrow> u64 \<times> 'w) option"
  timer_event_start :: "(nat \<Rightarrow> u64 \<Rightarrow> 'w \<Rightarrow> 'w) option"
  timer_event_stop :: "(nat \<Rightarrow> 'w \<Rightarrow> 'w) option"
  warm_init :: "(nat \<Rightarrow> 'w \<Rightarrow> int \<times> 'w) option"

record 'w timer_globals =
  time_delta_off :: u64
  get_time_val :: "('w \<Rightarrow> u64 \<times> 'w) option"
  timer_dev :: "'w sbi_timer_device option"

text \<open>The shared state with the word \<open>time_delta\<close> in the scratch space of each hart and its register \<open>stimecmp\<close>.\<close>

record 'p timer_system = "'p sse_system" +
  time_delta :: "nat \<Rightarrow> u64"
  csr_stimecmp :: "nat \<Rightarrow> u64"

type_synonym ('p, 'a) timed = "('p, 'a) timer_system_scheme"

section \<open>Reading the time\<close>

definition sbi_timer_get_device :: "'w timer_globals \<Rightarrow> 'w sbi_timer_device option" where
  "sbi_timer_get_device tg = timer_dev tg"

definition sbi_timer_value :: "'w timer_globals \<Rightarrow> 'w \<Rightarrow> u64 \<times> 'w" where
  "sbi_timer_value tg w = (case get_time_val tg of Some f \<Rightarrow> f w | None \<Rightarrow> (0, w))"

definition sbi_timer_virt_value :: "('p, 'a) timed timer_globals \<Rightarrow> nat \<Rightarrow> ('p, 'a) timed \<Rightarrow> u64 \<times> ('p, 'a) timed" where
  "sbi_timer_virt_value tg me w = (case sbi_timer_value tg w of (t, w) \<Rightarrow> (t + time_delta w me, w))"

definition sbi_timer_get_delta :: "nat \<Rightarrow> ('p, 'a) timed \<Rightarrow> u64" where
  "sbi_timer_get_delta me w = time_delta w me"

definition sbi_timer_set_delta :: "nat \<Rightarrow> u64 \<Rightarrow> ('p, 'a) timed \<Rightarrow> ('p, 'a) timed" where
  "sbi_timer_set_delta me delta w = w\<lparr>time_delta := (time_delta w)(me := delta)\<rparr>"

section \<open>Waiting\<close>

text \<open>The busy loops; \<open>None\<close> when they do not end.\<close>

partial_function (option) delay_wait :: "('w \<Rightarrow> u64 \<times> 'w) \<Rightarrow> ('w \<Rightarrow> 'w) \<Rightarrow> u64 \<Rightarrow> u64 \<Rightarrow> 'w \<Rightarrow> 'w option" where
  "delay_wait get_time delay_fn start_val delta w =
     (case get_time w of (t, w) \<Rightarrow> if t - start_val < delta then delay_wait get_time delay_fn start_val delta (delay_fn w) else Some w)"

text \<open>\<open>unit_freq\<close> is not 0: the callers pass 1000 and 1000000.  The default delay function does nothing.\<close>

definition sbi_timer_delay_loop :: "'w timer_globals \<Rightarrow> u64 \<Rightarrow> u64 \<Rightarrow> ('w \<Rightarrow> 'w) option \<Rightarrow> 'w \<Rightarrow> 'w option" where
  "sbi_timer_delay_loop tg units unit_freq delay_fn w =
     (case (timer_dev tg, get_time_val tg) of
        (Some dev, Some get_time) \<Rightarrow>
          (case get_time w of (start_val, w) \<Rightarrow>
             let delta = timer_freq dev * units; delta = delta div unit_freq;
                 delay_fn = (case delay_fn of None \<Rightarrow> (\<lambda>w. w) | Some f \<Rightarrow> f)
             in delay_wait get_time delay_fn start_val delta w)
      | _ \<Rightarrow> Some w)"

definition sbi_timer_mdelay :: "'w timer_globals \<Rightarrow> u64 \<Rightarrow> 'w \<Rightarrow> 'w option" where
  "sbi_timer_mdelay tg msecs w = sbi_timer_delay_loop tg msecs 1000 None w"

definition sbi_timer_udelay :: "'w timer_globals \<Rightarrow> u64 \<Rightarrow> 'w \<Rightarrow> 'w option" where
  "sbi_timer_udelay tg usecs w = sbi_timer_delay_loop tg usecs 1000000 None w"

partial_function (option) wait_loop :: "('w \<Rightarrow> u64 \<times> 'w) \<Rightarrow> ('w \<Rightarrow> bool \<times> 'w) \<Rightarrow> u64 \<Rightarrow> u64 \<Rightarrow> 'w \<Rightarrow> (bool \<times> 'w) option" where
  "wait_loop value predicate start_time ticks w =
     (case predicate w of (p, w) \<Rightarrow>
        if p then Some (True, w)
        else (case value w of (t, w) \<Rightarrow> if ticks \<le> t - start_time then Some (False, w) else wait_loop value predicate start_time ticks w))"

text \<open>Without a device the code follows a null pointer: \<open>None\<close>.\<close>

definition sbi_timer_waitms_until :: "'w timer_globals \<Rightarrow> ('w \<Rightarrow> bool \<times> 'w) \<Rightarrow> u64 \<Rightarrow> 'w \<Rightarrow> (bool \<times> 'w) option" where
  "sbi_timer_waitms_until tg predicate timeout_ms w =
     (case sbi_timer_value tg w of (start_time, w) \<Rightarrow>
        (case sbi_timer_get_device tg of
           None \<Rightarrow> None
         | Some dev \<Rightarrow>
             let ticks = (timer_freq dev div 1000) * timeout_ms
             in wait_loop (sbi_timer_value tg) predicate start_time ticks w))"

section \<open>Events\<close>

text \<open>\<open>fw_set_timer\<close> counts the call; \<open>has_sstc\<close> says that the hart has the extension Sstc.\<close>

definition sbi_timer_event_start ::
  "(('p, 'a) timed \<Rightarrow> ('p, 'a) timed) \<Rightarrow> ('p, 'a) timed timer_globals \<Rightarrow> bool \<Rightarrow> nat \<Rightarrow> u64 \<Rightarrow> ('p, 'a) timed \<Rightarrow> ('p, 'a) timed" where
  "sbi_timer_event_start fw_set_timer tg has_sstc me next_ev w =
     (let w = fw_set_timer w;
          w = (if has_sstc then w\<lparr>csr_stimecmp := (csr_stimecmp w)(me := next_ev)\<rparr>
               else case Option.bind (timer_dev tg) timer_event_start of
                 Some start \<Rightarrow> on_hart me (\<lambda>h. h\<lparr>csr_mip := csr_mip h AND NOT MIP_STIP\<rparr>) (start me next_ev w)
               | None \<Rightarrow> w)
      in on_hart me (\<lambda>h. h\<lparr>csr_mie := csr_mie h OR MIP_MTIP\<rparr>) w)"

definition timer_process :: "bool \<Rightarrow> nat \<Rightarrow> ('p, 'a) timed \<Rightarrow> ('p, 'a) timed" where
  "timer_process has_sstc me w =
     (let w = on_hart me (\<lambda>h. h\<lparr>csr_mie := csr_mie h AND NOT MIP_MTIP\<rparr>) w
      in if \<not> has_sstc then on_hart me (\<lambda>h. h\<lparr>csr_mip := csr_mip h OR MIP_STIP\<rparr>) w else w)"

definition sbi_timer_set_device :: "'w sbi_timer_device option \<Rightarrow> 'w timer_globals \<Rightarrow> 'w timer_globals" where
  "sbi_timer_set_device dev tg =
     (case dev of
        None \<Rightarrow> tg
      | Some d \<Rightarrow>
          (case timer_dev tg of
             Some _ \<Rightarrow> tg
           | None \<Rightarrow>
               let tg = tg\<lparr>timer_dev := Some d\<rparr>
               in case (get_time_val tg, timer_value d) of (None, Some f) \<Rightarrow> tg\<lparr>get_time_val := Some f\<rparr> | _ \<Rightarrow> tg))"

text \<open>\<open>get_ticks\<close> reads the register \<open>time\<close>, which the harts with Zicntr have; \<open>platform_init\<close> is the hook of the platform, which may register a device.\<close>

definition timer_init_hart :: "('p, 'a) timed timer_globals \<Rightarrow> nat \<Rightarrow> ('p, 'a) timed \<Rightarrow> int \<times> ('p, 'a) timed" where
  "timer_init_hart tg me w =
     (let w = w\<lparr>time_delta := (time_delta w)(me := 0)\<rparr>
      in case Option.bind (timer_dev tg) warm_init of Some f \<Rightarrow> f me w | None \<Rightarrow> (0, w))"

definition sbi_timer_init ::
  "(('p, 'a) timed \<Rightarrow> u64 \<times> ('p, 'a) timed) \<Rightarrow> (('p, 'a) timed timer_globals \<Rightarrow> int \<times> ('p, 'a) timed timer_globals) \<Rightarrow> bool \<Rightarrow> nat \<Rightarrow> bool \<Rightarrow>
   ('p, 'a) timed timer_globals \<times> scratch_state \<times> ('p, 'a) timed \<Rightarrow> int \<times> ('p, 'a) timed timer_globals \<times> scratch_state \<times> ('p, 'a) timed" where
  "sbi_timer_init get_ticks platform_init has_zicntr me cold_boot s =
     (case s of (tg, sst, w) \<Rightarrow>
        if cold_boot then
          (case sbi_scratch_alloc_offset 8 sst of (off, sst) \<Rightarrow>
             let tg = tg\<lparr>time_delta_off := off\<rparr> in
             if off = 0 then (SBI_ENOMEM, tg, sst, w)
             else
               let tg = (if has_zicntr then tg\<lparr>get_time_val := Some get_ticks\<rparr> else tg)
               in (case platform_init tg of (ret, tg) \<Rightarrow>
                 if ret \<noteq> 0 then (ret, tg, sst, w)
                 else (case timer_init_hart tg me w of (ret, w) \<Rightarrow> (ret, tg, sst, w))))
        else if time_delta_off tg = 0 then (SBI_ENOMEM, tg, sst, w)
        else (case timer_init_hart tg me w of (ret, w) \<Rightarrow> (ret, tg, sst, w)))"

definition sbi_timer_exit :: "('p, 'a) timed timer_globals \<Rightarrow> nat \<Rightarrow> ('p, 'a) timed \<Rightarrow> ('p, 'a) timed" where
  "sbi_timer_exit tg me w =
     (let w = (case Option.bind (timer_dev tg) timer_event_stop of Some stop \<Rightarrow> stop me w | None \<Rightarrow> w)
      in on_hart me (\<lambda>h. h\<lparr>csr_mip := csr_mip h AND NOT MIP_STIP, csr_mie := csr_mie h AND NOT MIP_MTIP\<rparr>) w)"

section \<open>The extension\<close>

definition sbi_ecall_time_handler ::
  "(('p, 'a) timed \<Rightarrow> ('p, 'a) timed) \<Rightarrow> ('p, 'a) timed timer_globals \<Rightarrow> bool \<Rightarrow> nat \<Rightarrow> u64 \<Rightarrow> u64 \<Rightarrow> sbi_trap_regs \<times> ('p, 'a) timed \<Rightarrow>
   (int \<times> sbi_ecall_return \<times> sbi_trap_regs \<times> ('p, 'a) timed) option" where
  "sbi_ecall_time_handler fw_set_timer tg has_sstc me extid funcid s =
     (case s of (regs, w) \<Rightarrow>
        let out = \<lparr>skip_regs_update = False, ret_value = 0\<rparr> in
        if funcid = SBI_EXT_TIME_SET_TIMER then Some (0, out, regs, sbi_timer_event_start fw_set_timer tg has_sstc me (a0 regs) w)
        else Some (SBI_ENOTSUPP, out, regs, w))"

definition ecall_time ::
  "(('p, 'a) timed \<Rightarrow> ('p, 'a) timed) \<Rightarrow> ('p, 'a) timed timer_globals \<Rightarrow> bool \<Rightarrow> nat \<Rightarrow> ('p, 'a) timed sbi_ecall_extension" where
  "ecall_time fw_set_timer tg has_sstc me = \<lparr>extid_start = SBI_EXT_TIME, extid_end = SBI_EXT_TIME, experimental = False, probe = None,
     handle = Some (sbi_ecall_time_handler fw_set_timer tg has_sstc me)\<rparr>"

definition sbi_ecall_time_register_extensions :: "u64 \<Rightarrow> 'w ecall_globals \<Rightarrow> int \<times> 'w ecall_globals" where
  "sbi_ecall_time_register_extensions ecall_time_addr eg = sbi_ecall_register_extension (Some ecall_time_addr) eg"

section \<open>Delays\<close>

text \<open>
  A clock: \<open>now\<close> is the time that has really passed, which the hardware counter shows modulo \<open>2\<^sup>6\<^sup>4\<close>; a reading takes time, the delay function does
  not turn it back, and one turn of the loop takes less than \<open>gap\<close> ticks.
\<close>

definition clock_ok :: "('w \<Rightarrow> nat) \<Rightarrow> ('w \<Rightarrow> u64 \<times> 'w) \<Rightarrow> ('w \<Rightarrow> 'w) \<Rightarrow> nat \<Rightarrow> bool" where
  "clock_ok now get_time delay_fn gap \<longleftrightarrow>
     (\<forall>w t w'. get_time w = (t, w') \<longrightarrow> t = of_nat (now w') \<and> now w < now w') \<and>
     (\<forall>w. now w \<le> now (delay_fn w)) \<and>
     (\<forall>w t w'. get_time (delay_fn w) = (t, w') \<longrightarrow> now w' < now w + gap) \<and> (\<forall>w t w'. get_time w = (t, w') \<longrightarrow> now w' < now w + gap)"

lemma elapsed: "s \<le> n \<Longrightarrow> n - s < 2 ^ 64 \<Longrightarrow> unat (of_nat n - of_nat s :: u64) = n - s"
  using of_nat_diff [of s n, where 'a = "64 word"] unat_of_nat_u64 [of "n - s"] by simp

lemma delay_wait_ends:
  assumes "clock_ok now get_time delay_fn gap" "unat delta + gap \<le> 2 ^ 64" "s \<le> now w" "now w < s + unat delta + gap"
    "\<And>t w'. get_time w = (t, w') \<Longrightarrow> now w' < s + unat delta + gap"
  shows "\<exists>w'. delay_wait get_time delay_fn (of_nat s) delta w = Some w' \<and> s + unat delta \<le> now w' \<and> now w' < s + unat delta + gap"
  using assms(3-)
proof (induction "s + unat delta + gap - now w" arbitrary: w rule: less_induct)
  case less
  obtain t w1 where g: "get_time w = (t, w1)" by (cases "get_time w")
  have t: "t = of_nat (now w1)" "now w < now w1" "now w1 < s + unat delta + gap"
    using assms(1) g less.prems(3) [OF g] unfolding clock_ok_def by blast+
  have e: "unat (t - of_nat s) = now w1 - s" unfolding t(1) using t less.prems(1) assms(2) by (intro elapsed) simp_all
  show ?case
  proof (cases "t - of_nat s < delta")
    case True
    then have early: "now w1 < s + unat delta" using e t less.prems(1) by (simp add: word_less_nat_alt)
    have n: "now w1 \<le> now (delay_fn w1)" using assms(1) by (simp add: clock_ok_def)
    have nxt: "now w' < s + unat delta + gap" if "get_time (delay_fn w1) = (u, w')" for u w'
      using assms(1) that early by (fastforce simp: clock_ok_def)
    obtain u w2 where u: "get_time (delay_fn w1) = (u, w2)" by (cases "get_time (delay_fn w1)")
    have "now (delay_fn w1) < s + unat delta + gap" using nxt [OF u] assms(1) u by (force simp: clock_ok_def)
    then have "\<exists>w'. delay_wait get_time delay_fn (of_nat s) delta (delay_fn w1) = Some w' \<and> s + unat delta \<le> now w' \<and> now w' < s + unat delta + gap"
      using less.hyps [of "delay_fn w1"] nxt n t less.prems by auto
    then show ?thesis using g True by (simp add: delay_wait.simps [of get_time delay_fn _ _ w])
  next
    case False
    then have "s + unat delta \<le> now w1" using e t less.prems(1) by (simp add: word_less_nat_alt not_less)
    then show ?thesis using g t False by (simp add: delay_wait.simps [of get_time delay_fn _ _ w])
  qed
qed



text \<open>A counter that is close to its end and advances by 5 with every reading.\<close>

definition demo_timer :: "nat timer_globals" where
  "demo_timer = \<lparr>time_delta_off = 8, get_time_val = Some (\<lambda>n. (of_nat (n + 5), n + 5)),
     timer_dev = Some \<lparr>timer_freq = 10000000, timer_value = None, timer_event_start = None, timer_event_stop = None, warm_init = None\<rparr>\<rparr>"


section \<open>Timer traps\<close>

text \<open>
  On a hart without Sstc, the call that sets the timer hands the deadline to the device, takes back a timer interrupt that is pending for the supervisor and enables the
  interrupt of the device; that interrupt, through the trap handler, becomes a timer interrupt of the supervisor and is disabled until the next call.
\<close>

lemma timer_traps:
  assumes "ecall_reachable es eg" "p \<in> set (ecall_exts_list eg)" "es p = ecall_time fw tg False me"
    "Option.bind (timer_dev tg) timer_event_start = Some start" "a7 regs = SBI_EXT_TIME" "a6 regs = SBI_EXT_TIME_SET_TIMER"
    "trap_cause call = CAUSE_SUPERVISOR_ECALL" "trap_cause irq = MCAUSE_IRQ_MASK OR IRQ_M_TIMER" "sbi_timer_process calls = timer_process False me"
  shows "trap_dispatch calls eg g sg sst dm me smaia call (regs, w) = Some (0, regs\<lparr>mepc := mepc regs + 4, a0 := 0, a1 := 0\<rparr>,
      on_hart me (\<lambda>h. h\<lparr>csr_mip := csr_mip h AND NOT MIP_STIP, csr_mie := csr_mie h OR MIP_MTIP\<rparr>) (start me (a0 regs) (fw w)))"
    "trap_dispatch calls eg g sg sst dm me False irq (r, v) = Some (0, r,
      on_hart me (\<lambda>h. h\<lparr>csr_mie := csr_mie h AND NOT MIP_MTIP, csr_mip := csr_mip h OR MIP_STIP\<rparr>) v)"
proof -
  have "in_ext (es p) (a7 regs)" by (simp add: assms(3,5) in_ext_def ecall_time_def)
  from handler_found [OF assms(1,2) this, of w]
  have "sbi_ecall_handler eg (regs, w) = Some (0, ecall_return SBI_EXT_TIME 0 False \<lparr>skip_regs_update = False, ret_value = 0\<rparr> regs,
      sbi_timer_event_start fw tg False me (a0 regs) w)"
    using assms(3,5,6) by (auto simp: ecall_time_def sbi_ecall_time_handler_def SBI_EXT_TIME_def SBI_EXT_0_1_SHUTDOWN_def)
  then show "trap_dispatch calls eg g sg sst dm me smaia call (regs, w) = Some (0, regs\<lparr>mepc := mepc regs + 4, a0 := 0, a1 := 0\<rparr>,
      on_hart me (\<lambda>h. h\<lparr>csr_mip := csr_mip h AND NOT MIP_STIP, csr_mie := csr_mie h OR MIP_MTIP\<rparr>) (start me (a0 regs) (fw w)))"
    using assms(4,7)
    by (simp add: trap_dispatch_def Let_def CAUSE_SUPERVISOR_ECALL_def MCAUSE_IRQ_MASK_def CAUSE_ILLEGAL_INSTRUCTION_def CAUSE_MISALIGNED_LOAD_def
        CAUSE_MISALIGNED_STORE_def ecall_return_def ecall_invalid_def SBI_LAST_ERR_def SBI_EDENIED_LOCKED_def sbi_timer_event_start_def on_hart_def)
  have "MCAUSE_IRQ_MASK OR IRQ_M_TIMER = (0x8000000000000007 :: u64)" "(0x8000000000000007 :: u64) AND MCAUSE_IRQ_MASK \<noteq> 0"
    "(0x8000000000000007 :: u64) AND NOT MCAUSE_IRQ_MASK = IRQ_M_TIMER" by code_simp+
  then show "trap_dispatch calls eg g sg sst dm me False irq (r, v) = Some (0, r,
      on_hart me (\<lambda>h. h\<lparr>csr_mie := csr_mie h AND NOT MIP_MTIP, csr_mip := csr_mip h OR MIP_STIP\<rparr>) v)"
    using assms(8,9) by (simp add: trap_dispatch_def Let_def sbi_trap_nonaia_irq_def timer_process_def on_hart_def)
qed

end
