(* ===== verification/SbiFwft.thy ===== *)
theory SbiFwft
  imports SbiEcall SbiHsm
begin

text \<open>
  Firmware features (\<open>lib/sbi/sbi_fwft.c\<close>, \<open>lib/sbi/sbi_ecall_fwft.c\<close>), for 64-bit harts: the supervisor reads and writes bits of \<open>medeleg\<close> and
  \<open>menvcfg\<close> through a table of features, and may lock a feature.  What the module promises of the table is an interface: the
  features do not interfere, and a write that fails changes nothing.
\<close>

unbundle bit_operations_syntax

section \<open>Data\<close>

definition SBI_FWFT_MISALIGNED_EXC_DELEG :: u32 where "SBI_FWFT_MISALIGNED_EXC_DELEG = 0x0"
definition SBI_FWFT_LANDING_PAD :: u32 where "SBI_FWFT_LANDING_PAD = 0x1"
definition SBI_FWFT_SHADOW_STACK :: u32 where "SBI_FWFT_SHADOW_STACK = 0x2"
definition SBI_FWFT_DOUBLE_TRAP :: u32 where "SBI_FWFT_DOUBLE_TRAP = 0x3"
definition SBI_FWFT_PTE_AD_HW_UPDATING :: u32 where "SBI_FWFT_PTE_AD_HW_UPDATING = 0x4"
definition SBI_FWFT_POINTER_MASKING_PMLEN :: u32 where "SBI_FWFT_POINTER_MASKING_PMLEN = 0x5"
definition SBI_FWFT_GLOBAL_FEATURE_BIT :: u32 where "SBI_FWFT_GLOBAL_FEATURE_BIT = push_bit 31 1"
definition SBI_FWFT_SET_FLAG_LOCK :: u64 where "SBI_FWFT_SET_FLAG_LOCK = 1"
definition SBI_EXT_FWFT :: u64 where "SBI_EXT_FWFT = 0x46574654"
definition SBI_EXT_FWFT_SET :: u64 where "SBI_EXT_FWFT_SET = 0"
definition SBI_EXT_FWFT_GET :: u64 where "SBI_EXT_FWFT_GET = 1"
definition ENVCFG_LPE_SHIFT :: nat where "ENVCFG_LPE_SHIFT = 2"
definition ENVCFG_SSE_SHIFT :: nat where "ENVCFG_SSE_SHIFT = 3"
definition ENVCFG_DTE_SHIFT :: nat where "ENVCFG_DTE_SHIFT = 59"
definition ENVCFG_ADUE_SHIFT :: nat where "ENVCFG_ADUE_SHIFT = 61"
definition ENVCFG_PMM :: u64 where "ENVCFG_PMM = push_bit 32 3"
definition ENVCFG_PMM_PMLEN_0 :: u64 where "ENVCFG_PMM_PMLEN_0 = 0"
definition ENVCFG_PMM_PMLEN_7 :: u64 where "ENVCFG_PMM_PMLEN_7 = push_bit 32 2"
definition ENVCFG_PMM_PMLEN_16 :: u64 where "ENVCFG_PMM_PMLEN_16 = push_bit 32 3"
definition MIS_DELEG :: u64 where "MIS_DELEG = push_bit 4 1 OR push_bit 6 1"

lemmas fwft_ids [code_consts] = SBI_FWFT_MISALIGNED_EXC_DELEG_def SBI_FWFT_LANDING_PAD_def SBI_FWFT_SHADOW_STACK_def SBI_FWFT_DOUBLE_TRAP_def
  SBI_FWFT_PTE_AD_HW_UPDATING_def SBI_FWFT_POINTER_MASKING_PMLEN_def

definition fwft_defined_features :: "u32 list" where
  "fwft_defined_features = [SBI_FWFT_MISALIGNED_EXC_DELEG, SBI_FWFT_LANDING_PAD, SBI_FWFT_SHADOW_STACK, SBI_FWFT_DOUBLE_TRAP,
     SBI_FWFT_PTE_AD_HW_UPDATING, SBI_FWFT_POINTER_MASKING_PMLEN]"

definition fwft_is_defined_feature :: "u32 \<Rightarrow> bool" where
  "fwft_is_defined_feature feature \<longleftrightarrow> feature \<in> set fwft_defined_features"

text \<open>A configuration refers to its feature by its place in the table of features.\<close>

record fwft_config =
  cfg_feature :: nat
  cfg_flags :: u64

text \<open>A hart with its feature state, which is allocated once, and the extensions it has.\<close>

record fwft_hart = hart +
  fhs_configs :: "fwft_config list option"
  misa_s :: bool
  ext_ssdbltrp :: bool
  ext_svadu :: bool
  ext_zicfilp :: bool
  ext_zicfiss :: bool
  ext_smnpm :: bool

record fwft_feature =
  feat_id :: u32
  supported :: "fwft_hart \<Rightarrow> int"
  feat_set :: "u64 \<Rightarrow> fwft_hart \<Rightarrow> int \<times> fwft_hart"
  feat_get :: "fwft_hart \<Rightarrow> int \<times> u64"

text \<open>
  The registers of the hardware: the bits that can be written, and which value the field PMM takes when one is
  written (it takes only values the hardware has).
\<close>

record csr_hw =
  impl_medeleg :: u64
  impl_menvcfg :: u64
  pmm_of :: "u64 \<Rightarrow> u64"

definition menvcfg_legal :: "csr_hw \<Rightarrow> u64 \<Rightarrow> u64" where
  "menvcfg_legal hw x = (x AND impl_menvcfg hw AND NOT ENVCFG_PMM) OR pmm_of hw (x AND ENVCFG_PMM)"

definition write_menvcfg :: "csr_hw \<Rightarrow> u64 \<Rightarrow> fwft_hart \<Rightarrow> fwft_hart" where
  "write_menvcfg hw x h = h\<lparr>csr_menvcfg := menvcfg_legal hw x\<rparr>"

definition write_medeleg :: "csr_hw \<Rightarrow> u64 \<Rightarrow> fwft_hart \<Rightarrow> fwft_hart" where
  "write_medeleg hw x h = h\<lparr>csr_medeleg := x AND impl_medeleg hw\<rparr>"

section \<open>The features\<close>

definition fwft_menvcfg_set_bit :: "csr_hw \<Rightarrow> u64 \<Rightarrow> nat \<Rightarrow> fwft_hart \<Rightarrow> int \<times> fwft_hart" where
  "fwft_menvcfg_set_bit hw value b h =
     (if value = 1 then (SBI_OK, write_menvcfg hw (csr_menvcfg h OR push_bit b 1) h)
      else if value = 0 then (SBI_OK, write_menvcfg hw (csr_menvcfg h AND NOT (push_bit b 1)) h)
      else (SBI_EINVAL, h))"

definition fwft_menvcfg_read_bit :: "nat \<Rightarrow> fwft_hart \<Rightarrow> int \<times> u64" where
  "fwft_menvcfg_read_bit b h = (SBI_OK, if csr_menvcfg h AND push_bit b 1 \<noteq> 0 then 1 else 0)"

definition fwft_misaligned_delegation_supported :: "fwft_hart \<Rightarrow> int" where
  "fwft_misaligned_delegation_supported h = (if \<not> misa_s h then SBI_ENOTSUPP else SBI_OK)"

definition fwft_set_misaligned_delegation :: "csr_hw \<Rightarrow> u64 \<Rightarrow> fwft_hart \<Rightarrow> int \<times> fwft_hart" where
  "fwft_set_misaligned_delegation hw value h =
     (if value = 1 then (SBI_OK, write_medeleg hw (csr_medeleg h OR MIS_DELEG) h)
      else if value = 0 then (SBI_OK, write_medeleg hw (csr_medeleg h AND NOT MIS_DELEG) h)
      else (SBI_EINVAL, h))"

definition fwft_get_misaligned_delegation :: "fwft_hart \<Rightarrow> int \<times> u64" where
  "fwft_get_misaligned_delegation h = (SBI_OK, if csr_medeleg h AND MIS_DELEG \<noteq> 0 then 1 else 0)"

definition fwft_double_trap_supported :: "fwft_hart \<Rightarrow> int" where
  "fwft_double_trap_supported h = (if \<not> ext_ssdbltrp h then SBI_ENOTSUPP else SBI_OK)"

definition fwft_set_double_trap :: "csr_hw \<Rightarrow> u64 \<Rightarrow> fwft_hart \<Rightarrow> int \<times> fwft_hart" where
  "fwft_set_double_trap hw value h = fwft_menvcfg_set_bit hw value ENVCFG_DTE_SHIFT h"

definition fwft_get_double_trap :: "fwft_hart \<Rightarrow> int \<times> u64" where
  "fwft_get_double_trap h = fwft_menvcfg_read_bit ENVCFG_DTE_SHIFT h"

definition fwft_adue_supported :: "fwft_hart \<Rightarrow> int" where
  "fwft_adue_supported h = (if \<not> ext_svadu h then SBI_ENOTSUPP else SBI_OK)"

definition fwft_set_adue :: "csr_hw \<Rightarrow> u64 \<Rightarrow> fwft_hart \<Rightarrow> int \<times> fwft_hart" where
  "fwft_set_adue hw value h = fwft_menvcfg_set_bit hw value ENVCFG_ADUE_SHIFT h"

definition fwft_get_adue :: "fwft_hart \<Rightarrow> int \<times> u64" where
  "fwft_get_adue h = fwft_menvcfg_read_bit ENVCFG_ADUE_SHIFT h"

definition fwft_lpad_supported :: "fwft_hart \<Rightarrow> int" where
  "fwft_lpad_supported h = (if \<not> ext_zicfilp h then SBI_ENOTSUPP else SBI_OK)"

definition fwft_enable_lpad :: "csr_hw \<Rightarrow> u64 \<Rightarrow> fwft_hart \<Rightarrow> int \<times> fwft_hart" where
  "fwft_enable_lpad hw value h = fwft_menvcfg_set_bit hw value ENVCFG_LPE_SHIFT h"

definition fwft_get_lpad :: "fwft_hart \<Rightarrow> int \<times> u64" where
  "fwft_get_lpad h = fwft_menvcfg_read_bit ENVCFG_LPE_SHIFT h"

definition fwft_sstack_supported :: "fwft_hart \<Rightarrow> int" where
  "fwft_sstack_supported h = (if \<not> ext_zicfiss h then SBI_ENOTSUPP else SBI_OK)"

definition fwft_enable_sstack :: "csr_hw \<Rightarrow> u64 \<Rightarrow> fwft_hart \<Rightarrow> int \<times> fwft_hart" where
  "fwft_enable_sstack hw value h = fwft_menvcfg_set_bit hw value ENVCFG_SSE_SHIFT h"

definition fwft_get_sstack :: "fwft_hart \<Rightarrow> int \<times> u64" where
  "fwft_get_sstack h = fwft_menvcfg_read_bit ENVCFG_SSE_SHIFT h"

definition fwft_pmlen_supported :: "fwft_hart \<Rightarrow> int" where
  "fwft_pmlen_supported h = (if \<not> ext_smnpm h then SBI_ENOTSUPP else SBI_OK)"

definition fwft_try_to_set_pmm :: "csr_hw \<Rightarrow> u64 \<Rightarrow> fwft_hart \<Rightarrow> bool \<times> fwft_hart" where
  "fwft_try_to_set_pmm hw pmm h =
     (let h = write_menvcfg hw (csr_menvcfg h OR pmm) h in (csr_menvcfg h AND ENVCFG_PMM = pmm, h))"

definition fwft_set_pmlen :: "csr_hw \<Rightarrow> u64 \<Rightarrow> fwft_hart \<Rightarrow> int \<times> fwft_hart" where
  "fwft_set_pmlen hw value h =
     (if 16 < value then (SBI_EINVAL, h)
      else
        let prev = csr_menvcfg h; h = write_menvcfg hw (csr_menvcfg h AND NOT ENVCFG_PMM) h in
        if value = 0 then (SBI_OK, h)
        else
          let (done7, h) =
            (if value \<le> 7 then
               (case fwft_try_to_set_pmm hw ENVCFG_PMM_PMLEN_7 h of (ok, h) \<Rightarrow>
                  if ok then (True, h) else (False, write_menvcfg hw (csr_menvcfg h AND NOT ENVCFG_PMM) h))
             else (False, h)) in
          if done7 then (SBI_OK, h)
          else (case fwft_try_to_set_pmm hw ENVCFG_PMM_PMLEN_16 h of (ok, h) \<Rightarrow>
            if ok then (SBI_OK, h) else (SBI_EINVAL, write_menvcfg hw prev h)))"

definition fwft_get_pmlen :: "fwft_hart \<Rightarrow> int \<times> u64" where
  "fwft_get_pmlen h =
     (let pmm = csr_menvcfg h AND ENVCFG_PMM in
      if pmm = ENVCFG_PMM_PMLEN_0 then (SBI_OK, 0)
      else if pmm = ENVCFG_PMM_PMLEN_7 then (SBI_OK, 7)
      else if pmm = ENVCFG_PMM_PMLEN_16 then (SBI_OK, 16)
      else (SBI_EFAIL, 0))"

definition features :: "csr_hw \<Rightarrow> fwft_feature list" where
  "features hw =
     [\<lparr>feat_id = SBI_FWFT_MISALIGNED_EXC_DELEG, supported = fwft_misaligned_delegation_supported,
        feat_set = fwft_set_misaligned_delegation hw, feat_get = fwft_get_misaligned_delegation\<rparr>,
      \<lparr>feat_id = SBI_FWFT_LANDING_PAD, supported = fwft_lpad_supported, feat_set = fwft_enable_lpad hw, feat_get = fwft_get_lpad\<rparr>,
      \<lparr>feat_id = SBI_FWFT_SHADOW_STACK, supported = fwft_sstack_supported, feat_set = fwft_enable_sstack hw, feat_get = fwft_get_sstack\<rparr>,
      \<lparr>feat_id = SBI_FWFT_DOUBLE_TRAP, supported = fwft_double_trap_supported, feat_set = fwft_set_double_trap hw, feat_get = fwft_get_double_trap\<rparr>,
      \<lparr>feat_id = SBI_FWFT_PTE_AD_HW_UPDATING, supported = fwft_adue_supported, feat_set = fwft_set_adue hw, feat_get = fwft_get_adue\<rparr>,
      \<lparr>feat_id = SBI_FWFT_POINTER_MASKING_PMLEN, supported = fwft_pmlen_supported, feat_set = fwft_set_pmlen hw, feat_get = fwft_get_pmlen\<rparr>]"

section \<open>Operations\<close>

text \<open>
  \<open>fs\<close> is the table of features.  A configuration is found by its place; a null pointer to the state of the hart is
  \<open>None\<close> of the outer option.
\<close>

definition get_feature_config :: "fwft_feature list \<Rightarrow> u32 \<Rightarrow> fwft_hart \<Rightarrow> nat option option" where
  "get_feature_config fs feature h =
     (if feature AND SBI_FWFT_GLOBAL_FEATURE_BIT \<noteq> 0 then Some None
      else map_option (\<lambda>cs. find (\<lambda>i. feature = feat_id (fs ! cfg_feature (cs ! i))) [0..<length cs]) (fhs_configs h))"

definition fwft_get_feature :: "fwft_feature list \<Rightarrow> u32 \<Rightarrow> fwft_hart \<Rightarrow> (int + nat) option" where
  "fwft_get_feature fs feature h =
     (case get_feature_config fs feature h of
        None \<Rightarrow> None
      | Some None \<Rightarrow> Some (Inl (if fwft_is_defined_feature feature then SBI_ENOTSUPP else SBI_EDENIED))
      | Some (Some i) \<Rightarrow>
          (let ret = supported (fs ! cfg_feature (the (fhs_configs h) ! i)) h in
           if ret \<noteq> 0 then Some (Inl ret) else Some (Inr i)))"

definition set_flags :: "nat \<Rightarrow> u64 \<Rightarrow> fwft_hart \<Rightarrow> fwft_hart" where
  "set_flags i fl h = h\<lparr>fhs_configs := map_option (\<lambda>cs. cs[i := (cs ! i)\<lparr>cfg_flags := fl\<rparr>]) (fhs_configs h)\<rparr>"

definition fwft_clear_config_lock :: "fwft_feature list \<Rightarrow> u32 \<Rightarrow> fwft_hart \<Rightarrow> fwft_hart option" where
  "fwft_clear_config_lock fs feature h =
     (case fwft_get_feature fs feature h of
        None \<Rightarrow> None
      | Some (Inl ret) \<Rightarrow> Some h
      | Some (Inr i) \<Rightarrow> Some (set_flags i (cfg_flags (the (fhs_configs h) ! i) AND NOT SBI_FWFT_SET_FLAG_LOCK) h))"

definition sbi_fwft_set :: "fwft_feature list \<Rightarrow> u32 \<Rightarrow> u64 \<Rightarrow> u64 \<Rightarrow> fwft_hart \<Rightarrow> (int \<times> fwft_hart) option" where
  "sbi_fwft_set fs feature value flags h =
     (case fwft_get_feature fs feature h of
        None \<Rightarrow> None
      | Some (Inl ret) \<Rightarrow> Some (ret, h)
      | Some (Inr i) \<Rightarrow>
          let conf = the (fhs_configs h) ! i in
          if flags AND NOT SBI_FWFT_SET_FLAG_LOCK \<noteq> 0 then Some (SBI_EINVAL, h)
          else if cfg_flags conf AND SBI_FWFT_SET_FLAG_LOCK \<noteq> 0 then Some (SBI_EDENIED_LOCKED, h)
          else (case feat_set (fs ! cfg_feature conf) value h of (ret, h) \<Rightarrow>
            if ret \<noteq> 0 then Some (ret, h) else Some (SBI_OK, set_flags i flags h)))"

definition sbi_fwft_get :: "fwft_feature list \<Rightarrow> u32 \<Rightarrow> fwft_hart \<Rightarrow> (int \<times> u64) option" where
  "sbi_fwft_get fs feature h =
     (case fwft_get_feature fs feature h of
        None \<Rightarrow> None
      | Some (Inl ret) \<Rightarrow> Some (ret, 0)
      | Some (Inr i) \<Rightarrow> Some (feat_get (fs ! cfg_feature (the (fhs_configs h) ! i)) h))"

text \<open>\<open>off\<close> is what the scratch allocator returns on the cold boot, \<open>alloc_ok\<close> whether the heap has memory for the state.\<close>

definition sbi_fwft_init :: "fwft_feature list \<Rightarrow> bool \<Rightarrow> bool \<Rightarrow> u64 \<times> scratch_state \<times> fwft_hart \<Rightarrow> (int \<times> u64 \<times> scratch_state \<times> fwft_hart) option" where
  "sbi_fwft_init fs alloc_ok cold_boot s =
     (case s of (fwft_ptr_offset, sst, h) \<Rightarrow>
        let (fwft_ptr_offset, sst) = (if cold_boot then sbi_scratch_alloc_offset 8 sst else (fwft_ptr_offset, sst)) in
        if cold_boot \<and> fwft_ptr_offset = 0 then Some (SBI_ENOMEM, fwft_ptr_offset, sst, h)
        else if fhs_configs h = None \<and> \<not> alloc_ok then Some (SBI_ENOMEM, fwft_ptr_offset, sst, h)
        else
          let h = (if fhs_configs h = None
                   then h\<lparr>fhs_configs := Some (map (\<lambda>i. \<lparr>cfg_feature = i, cfg_flags = 0\<rparr>) [0..<length fs])\<rparr> else h)
          in map_option (\<lambda>h. (0, fwft_ptr_offset, sst, h))
               (fold (\<lambda>f acc. Option.bind acc (fwft_clear_config_lock fs (feat_id f))) fs (Some h)))"


section \<open>The extension\<close>

definition sbi_ecall_fwft_handler ::
  "fwft_feature list \<Rightarrow> u64 \<Rightarrow> u64 \<Rightarrow> sbi_trap_regs \<times> fwft_hart \<Rightarrow> (int \<times> sbi_ecall_return \<times> sbi_trap_regs \<times> fwft_hart) option" where
  "sbi_ecall_fwft_handler fs extid funcid s =
     (case s of (regs, h) \<Rightarrow>
        if funcid = SBI_EXT_FWFT_SET then
          map_option (\<lambda>(ret, h). (ret, \<lparr>skip_regs_update = False, ret_value = 0\<rparr>, regs, h)) (sbi_fwft_set fs (ucast (a0 regs)) (a1 regs) (a2 regs) h)
        else if funcid = SBI_EXT_FWFT_GET then
          map_option (\<lambda>(ret, v). (ret, \<lparr>skip_regs_update = False, ret_value = v\<rparr>, regs, h)) (sbi_fwft_get fs (ucast (a0 regs)) h)
        else Some (SBI_ENOTSUPP, \<lparr>skip_regs_update = False, ret_value = 0\<rparr>, regs, h))"

definition ecall_fwft :: "fwft_feature list \<Rightarrow> fwft_hart sbi_ecall_extension" where
  "ecall_fwft fs = \<lparr>extid_start = SBI_EXT_FWFT, extid_end = SBI_EXT_FWFT, experimental = True, probe = None,
     handle = Some (sbi_ecall_fwft_handler fs)\<rparr>"

definition sbi_ecall_fwft_register_extensions :: "u64 \<Rightarrow> 'w ecall_globals \<Rightarrow> int \<times> 'w ecall_globals" where
  "sbi_ecall_fwft_register_extensions ecall_fwft_addr eg = sbi_ecall_register_extension (Some ecall_fwft_addr) eg"

section \<open>The interface of a table of features\<close>

text \<open>The place of a feature in the table, its lock, and the states in which every feature has its configuration.\<close>

definition is_locked :: "nat \<Rightarrow> fwft_hart \<Rightarrow> bool" where
  "is_locked i h \<longleftrightarrow> (case fhs_configs h of None \<Rightarrow> False | Some cs \<Rightarrow> cfg_flags (cs ! i) AND SBI_FWFT_SET_FLAG_LOCK \<noteq> 0)"

definition configured :: "fwft_feature list \<Rightarrow> fwft_hart \<Rightarrow> bool" where
  "configured fs h \<longleftrightarrow> (case fhs_configs h of None \<Rightarrow> False | Some cs \<Rightarrow> map cfg_feature cs = [0..<length fs])"

lemma set_flags_configured [simp]:
  assumes "configured fs h"
  shows "configured fs (set_flags i fl h)"
  using assms by (auto simp: configured_def set_flags_def map_update split: option.splits)
    (metis list_update_id map_update)

lemma set_flags_locked:
  assumes "configured fs h" "i < length fs" "j < length fs"
  shows "is_locked j (set_flags i fl h) = (if j = i then fl AND SBI_FWFT_SET_FLAG_LOCK \<noteq> 0 else is_locked j h)"
proof -
  obtain cs where cs: "fhs_configs h = Some cs" "map cfg_feature cs = [0..<length fs]" using assms(1) by (auto simp: configured_def split: option.splits)
  then have "length cs = length fs" by (metis length_map length_upt minus_nat.diff_0)
  then show ?thesis using cs assms(2,3) by (auto simp: is_locked_def set_flags_def nth_list_update)
qed

text \<open>A sequence of calls, each with feature, value and flags.\<close>

fun fwft_calls :: "fwft_feature list \<Rightarrow> (u32 \<times> u64 \<times> u64) list \<Rightarrow> fwft_hart \<Rightarrow> fwft_hart option" where
  "fwft_calls fs [] h = Some h"
| "fwft_calls fs ((f, v, fl) # cs) h = Option.bind (sbi_fwft_set fs f v fl h) (\<lambda>(ret, h). fwft_calls fs cs h)"

text \<open>
  A table of local features: different ids; a feature that is supported can be set and read back, and the value read is one that was asked for
  (\<open>granted\<close>); a failed write leaves the hart as it is; a write does not change what the other features read or support; and none looks at
  the configurations.
\<close>

locale fwft_table =
  fixes fs :: "fwft_feature list" and ok :: "fwft_hart \<Rightarrow> bool" and granted :: "u32 \<Rightarrow> u64 \<Rightarrow> u64 \<Rightarrow> bool"
  assumes ids: "distinct (map feat_id fs)" "a \<in> set fs \<Longrightarrow> feat_id a AND SBI_FWFT_GLOBAL_FEATURE_BIT = 0"
    and set_ok: "a \<in> set fs \<Longrightarrow> ok h \<Longrightarrow> supported a h = 0 \<Longrightarrow> feat_set a v h = (0, h') \<Longrightarrow> ok h' \<and> (\<exists>x. feat_get a h' = (0, x) \<and> granted (feat_id a) v x)"
    and set_fails: "a \<in> set fs \<Longrightarrow> ok h \<Longrightarrow> supported a h = 0 \<Longrightarrow> feat_set a v h = (r, h') \<Longrightarrow> r \<noteq> 0 \<Longrightarrow> h' = h"
    and others: "a \<in> set fs \<Longrightarrow> b \<in> set fs \<Longrightarrow> a \<noteq> b \<Longrightarrow> ok h \<Longrightarrow> supported a h = 0 \<Longrightarrow> feat_set a v h = (0, h') \<Longrightarrow> feat_get b h' = feat_get b h"
    and frame: "a \<in> set fs \<Longrightarrow> feat_set a v h = (r, h') \<Longrightarrow> fhs_configs h' = fhs_configs h \<and> (b \<in> set fs \<longrightarrow> supported b h' = supported b h)"
    and configs: "a \<in> set fs \<Longrightarrow> feat_get a (h\<lparr>fhs_configs := c\<rparr>) = feat_get a h" "a \<in> set fs \<Longrightarrow> supported a (h\<lparr>fhs_configs := c\<rparr>) = supported a h"
      "ok (h\<lparr>fhs_configs := c\<rparr>) = ok h"
begin

lemma get_feature:
  assumes "configured fs h" "i < length fs"
  shows "fwft_get_feature fs (feat_id (fs ! i)) h = Some (if supported (fs ! i) h \<noteq> 0 then Inl (supported (fs ! i) h) else Inr i)"
    "cfg_feature (the (fhs_configs h) ! i) = i"
proof -
  obtain cs where cs: "fhs_configs h = Some cs" "map cfg_feature cs = [0..<length fs]" using assms(1) by (auto simp: configured_def split: option.splits)
  then have len: "length cs = length fs" by (metis length_map length_upt minus_nat.diff_0)
  have c: "cfg_feature (cs ! j) = j" if "j < length fs" for j using arg_cong [OF cs(2), of "\<lambda>xs. xs ! j"] that len by simp
  then show feat: "cfg_feature (the (fhs_configs h) ! i) = i" using cs(1) assms(2) by simp
  have "find (\<lambda>j. feat_id (fs ! i) = feat_id (fs ! cfg_feature (cs ! j))) [0..<length cs] = Some i"
  proof (cases "find (\<lambda>j. feat_id (fs ! i) = feat_id (fs ! cfg_feature (cs ! j))) [0..<length cs]")
    case None
    then show ?thesis using assms(2) len c by (auto simp: find_None_iff)
  next
    case (Some j)
    then have "j < length fs" "feat_id (fs ! i) = feat_id (fs ! j)" using len c by (auto simp: find_Some_iff)
    then have "i = j" using ids(1) assms(2) by (simp add: distinct_conv_nth) metis
    then show ?thesis using Some by simp
  qed
  then show "fwft_get_feature fs (feat_id (fs ! i)) h = Some (if supported (fs ! i) h \<noteq> 0 then Inl (supported (fs ! i) h) else Inr i)"
    using cs(1) ids(2) [of "fs ! i"] assms(2) feat by (simp add: fwft_get_feature_def get_feature_config_def Let_def)
qed

lemma get_unknown:
  assumes "configured fs h" "f \<notin> feat_id ` set fs"
  shows "fwft_get_feature fs f h = Some (Inl (if fwft_is_defined_feature f then SBI_ENOTSUPP else SBI_EDENIED))"
proof -
  obtain cs where cs: "fhs_configs h = Some cs" "map cfg_feature cs = [0..<length fs]" using assms(1) by (auto simp: configured_def split: option.splits)
  then have len: "length cs = length fs" by (metis length_map length_upt minus_nat.diff_0)
  have "cfg_feature (cs ! j) = j" if "j < length fs" for j using arg_cong [OF cs(2), of "\<lambda>xs. xs ! j"] that len by simp
  then have "find (\<lambda>j. f = feat_id (fs ! cfg_feature (cs ! j))) [0..<length cs] = None" using assms(2) len by (auto simp: find_None_iff)
  then show ?thesis using cs(1) by (simp add: fwft_get_feature_def get_feature_config_def)
qed

lemma get_value:
  assumes "configured fs h" "i < length fs"
  shows "sbi_fwft_get fs (feat_id (fs ! i)) h = Some (if supported (fs ! i) h \<noteq> 0 then (supported (fs ! i) h, 0) else feat_get (fs ! i) h)"
  using get_feature [OF assms] by (simp add: sbi_fwft_get_def)

lemma known: "f \<in> feat_id ` set fs \<Longrightarrow> \<exists>i < length fs. f = feat_id (fs ! i)"
  by (auto simp: in_set_conv_nth)

lemma same_id: "i < length fs \<Longrightarrow> j < length fs \<Longrightarrow> feat_id (fs ! i) = feat_id (fs ! j) \<Longrightarrow> i = j"
  using ids(1) nth_eq_iff_index_eq [of "map feat_id fs" i j] by simp

text \<open>What a call does to a feature that is there.\<close>

lemma set_known:
  assumes "configured fs h" "ok h" "i < length fs"
  obtains ret where "sbi_fwft_set fs (feat_id (fs ! i)) v flags h = Some (ret, h)" "ret \<noteq> 0"
  | h' where "sbi_fwft_set fs (feat_id (fs ! i)) v flags h = Some (0, set_flags i flags h')" "feat_set (fs ! i) v h = (0, h')" "supported (fs ! i) h = 0"
      "\<not> is_locked i h" "flags AND NOT SBI_FWFT_SET_FLAG_LOCK = 0"
proof -
  note g = get_feature [OF assms(1,3)]
  have lock: "is_locked i h \<longleftrightarrow> cfg_flags (the (fhs_configs h) ! i) AND SBI_FWFT_SET_FLAG_LOCK \<noteq> 0"
    using assms(1) by (auto simp: is_locked_def configured_def split: option.splits)
  obtain r h1 where s: "feat_set (fs ! i) v h = (r, h1)" by (cases "feat_set (fs ! i) v h")
  have m: "fs ! i \<in> set fs" using assms(3) by simp
  consider "supported (fs ! i) h \<noteq> 0" | "supported (fs ! i) h = 0" "flags AND NOT SBI_FWFT_SET_FLAG_LOCK \<noteq> 0"
    | "supported (fs ! i) h = 0" "flags AND NOT SBI_FWFT_SET_FLAG_LOCK = 0" "is_locked i h"
    | "supported (fs ! i) h = 0" "flags AND NOT SBI_FWFT_SET_FLAG_LOCK = 0" "\<not> is_locked i h" "r \<noteq> 0"
    | "supported (fs ! i) h = 0" "flags AND NOT SBI_FWFT_SET_FLAG_LOCK = 0" "\<not> is_locked i h" "r = 0" by blast
  then show thesis
  proof cases
    case 1
    then show ?thesis using g by (intro that(1)) (simp_all add: sbi_fwft_set_def)
  next
    case 2
    then show ?thesis using g by (intro that(1) [of SBI_EINVAL]) (simp_all add: sbi_fwft_set_def SBI_EINVAL_def)
  next
    case 3
    then show ?thesis using g lock by (intro that(1) [of SBI_EDENIED_LOCKED]) (simp_all add: sbi_fwft_set_def SBI_EDENIED_LOCKED_def)
  next
    case 4
    then have "h1 = h" using set_fails [OF m assms(2) _ s] by simp
    then show ?thesis using 4 g s lock by (intro that(1) [of r]) (simp_all add: sbi_fwft_set_def Let_def)
  next
    case 5
    then show ?thesis using g s lock by (intro that(2) [of h1]) (simp_all add: sbi_fwft_set_def Let_def SBI_OK_def)
  qed
qed

lemma set_unknown:
  assumes "configured fs h" "f \<notin> feat_id ` set fs"
  obtains ret where "sbi_fwft_set fs f v flags h = Some (ret, h)" "ret \<noteq> 0"
  using get_unknown [OF assms] that by (auto simp: sbi_fwft_set_def code_consts split: if_splits)

lemma configured_same: "fhs_configs h' = fhs_configs h \<Longrightarrow> configured fs h' = configured fs h"
  by (simp add: configured_def)

lemma get_set_flags [simp]:
  "a \<in> set fs \<Longrightarrow> feat_get a (set_flags i fl h) = feat_get a h" "a \<in> set fs \<Longrightarrow> supported a (set_flags i fl h) = supported a h" "ok (set_flags i fl h) = ok h"
  by (simp_all add: set_flags_def configs)

text \<open>A successful call.\<close>

lemma set_effect:
  fixes flags :: u64
  assumes "configured fs h" "ok h" "i < length fs" "feat_set (fs ! i) v h = (0, h1)" "supported (fs ! i) h = 0"
  defines "h' \<equiv> set_flags i flags h1"
  shows "configured fs h'" "ok h'" "\<exists>x. sbi_fwft_get fs (feat_id (fs ! i)) h' = Some (0, x) \<and> granted (feat_id (fs ! i)) v x"
    "j < length fs \<Longrightarrow> is_locked j h' = (if j = i then flags AND SBI_FWFT_SET_FLAG_LOCK \<noteq> 0 else is_locked j h)"
    "g \<noteq> feat_id (fs ! i) \<Longrightarrow> sbi_fwft_get fs g h' = sbi_fwft_get fs g h"
proof -
  have m: "fs ! i \<in> set fs" using assms(3) by simp
  have f: "fhs_configs h1 = fhs_configs h" using frame [OF m assms(4)] by simp
  have sup: "supported b h1 = supported b h" if "b \<in> set fs" for b using frame [OF m assms(4), of b] that by simp
  note h1 = f sup
  have c1: "configured fs h1" using configured_same [OF f] assms(1) by simp
  then show c: "configured fs h'" by (simp add: h'_def)
  show "ok h'" using set_ok [OF m assms(2,5,4)] by (simp add: h'_def)
  show "\<exists>x. sbi_fwft_get fs (feat_id (fs ! i)) h' = Some (0, x) \<and> granted (feat_id (fs ! i)) v x"
    using set_ok [OF m assms(2,5,4)] get_value [OF c assms(3)] h1(2) [OF m] assms(5) m by (auto simp: h'_def)
  show "is_locked j h' = (if j = i then flags AND SBI_FWFT_SET_FLAG_LOCK \<noteq> 0 else is_locked j h)" if "j < length fs"
    using set_flags_locked [OF c1 assms(3) that] h1(1) by (simp add: h'_def is_locked_def)
  show "sbi_fwft_get fs g h' = sbi_fwft_get fs g h" if g: "g \<noteq> feat_id (fs ! i)"
  proof (cases "g \<in> feat_id ` set fs")
    case True
    then obtain j where j: "j < length fs" "g = feat_id (fs ! j)" using known by blast
    then have "fs ! j \<noteq> fs ! i" "fs ! j \<in> set fs" using g by auto
    then have "feat_get (fs ! j) h1 = feat_get (fs ! j) h" using others [OF m _ _ assms(2,5,4)] by metis
    then show ?thesis using get_value [OF c j(1)] get_value [OF assms(1) j(1)] h1(2) j \<open>fs ! j \<in> set fs\<close> by (simp add: h'_def)
  next
    case False
    then show ?thesis using get_unknown [OF assms(1) False] get_unknown [OF c False] by (simp add: sbi_fwft_get_def)
  qed
qed

lemma set_get:
  assumes "configured fs h" "ok h"
  shows "\<exists>ret h'. sbi_fwft_set fs f v flags h = Some (ret, h') \<and> configured fs h' \<and> ok h' \<and>
    (if ret = 0 then (\<exists>x. sbi_fwft_get fs f h' = Some (0, x) \<and> granted f v x) \<and> (\<forall>g. g \<noteq> f \<longrightarrow> sbi_fwft_get fs g h' = sbi_fwft_get fs g h) else h' = h)"
proof (cases "f \<in> feat_id ` set fs")
  case True
  then obtain i where i: "i < length fs" "f = feat_id (fs ! i)" using known by blast
  show ?thesis
  proof (cases rule: set_known [OF assms i(1), of v flags])
    case (1 ret)
    then show ?thesis using i assms by auto
  next
    case (2 h')
    note e = set_effect [where flags = flags, OF assms i(1) 2(2,3)]
    show ?thesis using 2(1) e(1,2,3,5) i(2) by (intro exI [of _ 0] exI [of _ "set_flags i flags h'"]) auto
  qed
next
  case False
  then obtain ret where "sbi_fwft_set fs f v flags h = Some (ret, h)" "ret \<noteq> 0" using set_unknown [OF assms(1) False, of v flags] by blast
  then show ?thesis using assms by (intro exI [of _ ret] exI [of _ h]) simp
qed

lemma call_keeps_locked:
  assumes "configured fs h" "ok h" "sbi_fwft_set fs f v flags h = Some (ret, h')" "i < length fs" "is_locked i h"
  shows "configured fs h' \<and> ok h' \<and> is_locked i h' \<and> sbi_fwft_get fs (feat_id (fs ! i)) h' = sbi_fwft_get fs (feat_id (fs ! i)) h"
proof (cases "f \<in> feat_id ` set fs")
  case True
  then obtain j where j: "j < length fs" "f = feat_id (fs ! j)" using known by blast
  show ?thesis
  proof (cases rule: set_known [OF assms(1,2) j(1), of v flags])
    case (1 ret)
    then show ?thesis using j assms by auto
  next
    case (2 h1)
    note e = set_effect [where flags = flags, OF assms(1,2) j(1) 2(2,3)]
    have "i \<noteq> j" using 2(4) assms(5) by auto
    then have "feat_id (fs ! i) \<noteq> feat_id (fs ! j)" using same_id assms(4) j(1) by blast
    then show ?thesis using e(1,2,5) e(4) [OF assms(4)] \<open>i \<noteq> j\<close> assms(3,5) 2(1) j(2) by auto
  qed
next
  case False
  then show ?thesis using set_unknown [OF assms(1) False, of v flags] assms by auto
qed

lemma calls_keep_locked:
  assumes "configured fs h" "ok h" "i < length fs" "is_locked i h"
  shows "\<exists>h'. fwft_calls fs cs h = Some h' \<and> configured fs h' \<and> ok h' \<and> is_locked i h' \<and> sbi_fwft_get fs (feat_id (fs ! i)) h' = sbi_fwft_get fs (feat_id (fs ! i)) h"
  using assms(1,2,4)
proof (induction cs arbitrary: h)
  case (Cons c cs)
  obtain f v fl where c: "c = (f, v, fl)" by (cases c)
  obtain ret h1 where h1: "sbi_fwft_set fs f v fl h = Some (ret, h1)" using set_get [OF Cons.prems(1,2), of f v fl] by blast
  note k = call_keeps_locked [OF Cons.prems(1,2) h1 assms(3) Cons.prems(3)]
  then show ?case using Cons.IH [of h1] h1 c by auto
qed simp

lemma calls_keep:
  assumes "configured fs h" "ok h" "fwft_calls fs cs h = Some h'"
  shows "configured fs h' \<and> ok h'"
  using assms
proof (induction cs arbitrary: h)
  case (Cons c cs)
  obtain f v fl where c: "c = (f, v, fl)" by (cases c)
  obtain ret h1 where "sbi_fwft_set fs f v fl h = Some (ret, h1)" "configured fs h1" "ok h1" using set_get [OF Cons.prems(1,2), of f v fl] by blast
  then show ?case using Cons.IH [of h1] Cons.prems(3) c by simp
qed simp

lemma locked_stays:
  assumes "configured fs h" "ok h" "sbi_fwft_set fs f v SBI_FWFT_SET_FLAG_LOCK h = Some (0, h1)"
  shows "\<exists>h2. fwft_calls fs cs h1 = Some h2 \<and> sbi_fwft_get fs f h2 = sbi_fwft_get fs f h1 \<and>
    (\<exists>ret. sbi_fwft_set fs f v' fl h2 = Some (ret, h2) \<and> ret \<noteq> 0)"
proof -
  have "f \<in> feat_id ` set fs" using set_unknown [OF assms(1), of f v SBI_FWFT_SET_FLAG_LOCK] assms(3) by auto
  then obtain i where i: "i < length fs" "f = feat_id (fs ! i)" using known by blast
  obtain hh where h: "sbi_fwft_set fs f v SBI_FWFT_SET_FLAG_LOCK h = Some (0, set_flags i SBI_FWFT_SET_FLAG_LOCK hh)" "feat_set (fs ! i) v h = (0, hh)" "supported (fs ! i) h = 0"
    using set_known [OF assms(1,2) i(1), of v SBI_FWFT_SET_FLAG_LOCK] assms(3) i(2) by (metis option.inject prod.inject)
  note e = set_effect [where flags = SBI_FWFT_SET_FLAG_LOCK, OF assms(1,2) i(1) h(2,3)]
  have h1: "h1 = set_flags i SBI_FWFT_SET_FLAG_LOCK hh" using h(1) assms(3) by simp
  have l: "is_locked i h1" using e(4) [OF i(1)] unfolding h1 by (simp add: SBI_FWFT_SET_FLAG_LOCK_def)
  obtain h2 where h2: "fwft_calls fs cs h1 = Some h2" "configured fs h2" "ok h2" "is_locked i h2" "sbi_fwft_get fs f h2 = sbi_fwft_get fs f h1"
    using calls_keep_locked [of h1 i cs] e(1,2) i l h1 by auto
  have "\<exists>ret. sbi_fwft_set fs f v' fl h2 = Some (ret, h2) \<and> ret \<noteq> 0"
    using set_known [OF h2(2,3) i(1), of v' fl] h2(4) i(2) by metis
  then show ?thesis using h2 by blast
qed

text \<open>Initialising the module gives every feature its configuration and opens the locks of the supported ones.\<close>

lemma clear_lock:
  assumes "configured fs h" "ok h" "a \<in> set fs"
  shows "\<exists>h'. fwft_clear_config_lock fs (feat_id a) h = Some h' \<and> configured fs h' \<and> ok h' \<and> (\<forall>b \<in> set fs. supported b h' = supported b h) \<and>
    (\<forall>j < length fs. is_locked j h' \<longrightarrow> is_locked j h \<and> (fs ! j = a \<longrightarrow> supported a h \<noteq> 0))"
proof -
  obtain i where i: "i < length fs" "a = fs ! i" using assms(3) by (auto simp: in_set_conv_nth)
  note g = get_feature [OF assms(1) i(1)]
  have off: "(x AND NOT SBI_FWFT_SET_FLAG_LOCK) AND SBI_FWFT_SET_FLAG_LOCK = 0" for x by (rule bit_word_eqI) (auto simp: bit_and_iff bit_not_iff)
  have same: "j < length fs \<Longrightarrow> fs ! j = fs ! i \<Longrightarrow> j = i" for j using same_id [OF i(1), of j] by simp
  show ?thesis
    using g i(2) assms(1,2) set_flags_locked [OF assms(1) i(1)] same off by (auto simp: fwft_clear_config_lock_def)
qed

lemma clear_locks:
  assumes "configured fs h" "ok h" "set as \<subseteq> set fs"
  shows "\<exists>h'. fold (\<lambda>f acc. Option.bind acc (fwft_clear_config_lock fs (feat_id f))) as (Some h) = Some h' \<and> configured fs h' \<and> ok h' \<and>
    (\<forall>b \<in> set fs. supported b h' = supported b h) \<and> (\<forall>j < length fs. is_locked j h' \<longrightarrow> is_locked j h \<and> (fs ! j \<in> set as \<longrightarrow> supported (fs ! j) h \<noteq> 0))"
  using assms
proof (induction as arbitrary: h)
  case (Cons a as)
  then have "a \<in> set fs" by simp
  from clear_lock [OF Cons.prems(1,2) this] obtain h1 where h1: "fwft_clear_config_lock fs (feat_id a) h = Some h1" "configured fs h1" "ok h1"
    "\<forall>b \<in> set fs. supported b h1 = supported b h" "\<forall>j < length fs. is_locked j h1 \<longrightarrow> is_locked j h \<and> (fs ! j = a \<longrightarrow> supported a h \<noteq> 0)" by blast
  from Cons.IH [OF h1(2,3)] Cons.prems(3) obtain h2 where
    "fold (\<lambda>f acc. Option.bind acc (fwft_clear_config_lock fs (feat_id f))) as (Some h1) = Some h2" "configured fs h2" "ok h2"
    "\<forall>b \<in> set fs. supported b h2 = supported b h1" "\<forall>j < length fs. is_locked j h2 \<longrightarrow> is_locked j h1 \<and> (fs ! j \<in> set as \<longrightarrow> supported (fs ! j) h1 \<noteq> 0)" by auto
  then show ?case using h1 by (intro exI [of _ h2]) auto
qed simp

lemma clear_all:
  assumes "configured fs h" "ok h"
  obtains h' where "fold (\<lambda>f acc. Option.bind acc (fwft_clear_config_lock fs (feat_id f))) fs (Some h) = Some h'" "configured fs h'" "ok h'"
    "\<forall>i < length fs. supported (fs ! i) h' = 0 \<longrightarrow> \<not> is_locked i h'"
  using clear_locks [OF assms order_refl] that by fastforce

lemma init_configured:
  assumes "fhs_configs h = None \<or> configured fs h" "ok h"
  obtains off' sst' ret h' where "sbi_fwft_init fs alloc_ok cold_boot (off, sst, h) = Some (ret, off', sst', h')"
    "ret = 0 \<Longrightarrow> configured fs h' \<and> ok h' \<and> (\<forall>i < length fs. supported (fs ! i) h' = 0 \<longrightarrow> \<not> is_locked i h')" "ret \<noteq> 0 \<Longrightarrow> h' = h"
proof -
  let ?h = "if fhs_configs h = None then h\<lparr>fhs_configs := Some (map (\<lambda>i. \<lparr>cfg_feature = i, cfg_flags = 0\<rparr>) [0..<length fs])\<rparr> else h"
  obtain off' sst' where o: "(if cold_boot then sbi_scratch_alloc_offset 8 sst else (off, sst)) = (off', sst')" by fastforce
  have "configured fs ?h" "ok ?h" using assms by (auto simp: configured_def configs comp_def map_idI)
  from clear_all [OF this] obtain h' where
    h': "fold (\<lambda>f acc. Option.bind acc (fwft_clear_config_lock fs (feat_id f))) fs (Some ?h) = Some h'" "configured fs h'" "ok h'"
      "\<forall>i < length fs. supported (fs ! i) h' = 0 \<longrightarrow> \<not> is_locked i h'" .
  consider "(cold_boot \<and> off' = 0) \<or> (fhs_configs h = None \<and> \<not> alloc_ok)" | "\<not> (cold_boot \<and> off' = 0)" "\<not> (fhs_configs h = None \<and> \<not> alloc_ok)" by blast
  then show thesis
  proof cases
    case 1
    then show ?thesis using o by (intro that [of SBI_ENOMEM off' sst' h]) (auto simp: sbi_fwft_init_def SBI_ENOMEM_def split: prod.splits)
  next
    case 2
    have "sbi_fwft_init fs alloc_ok cold_boot (off, sst, h) = Some (0, off', sst', h')"
      unfolding sbi_fwft_init_def prod.case o Let_def h'(1) using 2 by auto
    then show ?thesis using h'(2-4) by (intro that [of 0 off' sst' h']) auto
  qed
qed

lemma init_again:
  assumes "configured fs h" "ok h"
  shows "\<exists>off' sst' h'. sbi_fwft_init fs alloc_ok False (off, sst, h) = Some (0, off', sst', h') \<and> (\<forall>i < length fs. supported (fs ! i) h' = 0 \<longrightarrow> \<not> is_locked i h')"
proof -
  obtain cs where cs: "fhs_configs h = Some cs" using assms(1) by (auto simp: configured_def split: option.splits)
  from clear_all [OF assms] obtain h' where
    "fold (\<lambda>f acc. Option.bind acc (fwft_clear_config_lock fs (feat_id f))) fs (Some h) = Some h'"
      "\<forall>i < length fs. supported (fs ! i) h' = 0 \<longrightarrow> \<not> is_locked i h'" .
  then show ?thesis by (simp add: sbi_fwft_init_def cs)
qed

end


section \<open>The table of the firmware\<close>

text \<open>
  Hardware that implements the bits of the extensions it has; PMM takes only values of its own, among them 0, and keeps a
  value it has taken.
\<close>

definition pmm_ok :: "(u64 \<Rightarrow> u64) \<Rightarrow> bool" where
  "pmm_ok p \<longleftrightarrow> p 0 = 0 \<and> (\<forall>x. p x AND ENVCFG_PMM = p x) \<and> (\<forall>x. p (p x) = p x)"

definition hw_ok :: "csr_hw \<Rightarrow> fwft_hart \<Rightarrow> bool" where
  "hw_ok hw h \<longleftrightarrow> pmm_ok (pmm_of hw) \<and> (misa_s h \<longrightarrow> MIS_DELEG AND impl_medeleg hw = MIS_DELEG) \<and>
     (ext_zicfilp h \<longrightarrow> bit (impl_menvcfg hw) 2) \<and> (ext_zicfiss h \<longrightarrow> bit (impl_menvcfg hw) 3) \<and>
     (ext_ssdbltrp h \<longrightarrow> bit (impl_menvcfg hw) 59) \<and> (ext_svadu h \<longrightarrow> bit (impl_menvcfg hw) 61)"

definition legal :: "csr_hw \<Rightarrow> fwft_hart \<Rightarrow> bool" where
  "legal hw h \<longleftrightarrow> hw_ok hw h \<and> csr_menvcfg h = menvcfg_legal hw (csr_menvcfg h) \<and> csr_medeleg h = csr_medeleg h AND impl_medeleg hw"

definition granted :: "u32 \<Rightarrow> u64 \<Rightarrow> u64 \<Rightarrow> bool" where
  "granted f v x \<longleftrightarrow> (if f = SBI_FWFT_POINTER_MASKING_PMLEN then x \<in> {0, 7, 16} \<and> v \<le> x \<and> (v = 0 \<longrightarrow> x = 0) else x = v)"

lemma bit_PMM: "bit ENVCFG_PMM n \<longleftrightarrow> n = 32 \<or> n = 33"
proof -
  have three: "(3 :: u64) = push_bit 0 1 OR push_bit 1 1" by (simp add: push_bit_eq_mult)
  have p: "bit (push_bit k 1 :: u64) n \<longleftrightarrow> n = k" if "k < 64" for k using that by (auto simp: bit_simps)
  show ?thesis unfolding ENVCFG_PMM_def three push_bit_or push_bit_push_bit bit_or_iff by (simp add: p del: push_bit_of_1 One_nat_def)
qed

lemma bit_one: "k < 64 \<Longrightarrow> bit (push_bit k 1 :: u64) n \<longleftrightarrow> n = k" "k < 64 \<Longrightarrow> bit (2 ^ k :: u64) n \<longleftrightarrow> n = k"
  by (auto simp: bit_simps)

lemma legal_parts:
  assumes "legal hw h"
  shows "pmm_of hw (csr_menvcfg h AND ENVCFG_PMM) = csr_menvcfg h AND ENVCFG_PMM"
    "bit (csr_menvcfg h) n \<Longrightarrow> n \<noteq> 32 \<Longrightarrow> n \<noteq> 33 \<Longrightarrow> bit (impl_menvcfg hw) n"
proof -
  let ?m = "csr_menvcfg h" and ?p = "pmm_of hw (csr_menvcfg h AND ENVCFG_PMM)"
  have m: "?m = menvcfg_legal hw ?m" and p: "?p AND ENVCFG_PMM = ?p" using assms by (auto simp: legal_def hw_ok_def pmm_ok_def)
  have pb: "bit ?p n \<Longrightarrow> n = 32 \<or> n = 33" for n using arg_cong [OF p, of "\<lambda>w. bit w n"] by (auto simp: bit_and_iff bit_PMM)
  have mb: "bit ?m n \<longleftrightarrow> (if n = 32 \<or> n = 33 then bit ?p n else bit ?m n \<and> bit (impl_menvcfg hw) n)" for n
    using arg_cong [OF m, of "\<lambda>w. bit w n"] pb [of n]
    by (auto simp: menvcfg_legal_def bit_or_iff bit_and_iff bit_not_iff bit_PMM dest: bit_imp_le_length)
  show "?p = ?m AND ENVCFG_PMM"
  proof (rule bit_word_eqI)
    show "bit ?p n = bit (?m AND ENVCFG_PMM) n" for n using mb [of n] pb [of n] by (auto simp: bit_and_iff bit_PMM)
  qed
  show "bit ?m n \<Longrightarrow> n \<noteq> 32 \<Longrightarrow> n \<noteq> 33 \<Longrightarrow> bit (impl_menvcfg hw) n" using mb [of n] by simp
qed

text \<open>Writes that keep the field PMM, and writes to it.\<close>

lemma write_other:
  assumes "legal hw h" "x AND ENVCFG_PMM = csr_menvcfg h AND ENVCFG_PMM" "\<And>n. bit x n \<Longrightarrow> n \<noteq> 32 \<Longrightarrow> n \<noteq> 33 \<Longrightarrow> bit (impl_menvcfg hw) n"
  shows "menvcfg_legal hw x = x"
proof (rule bit_word_eqI)
  fix n
  have "pmm_of hw (x AND ENVCFG_PMM) = x AND ENVCFG_PMM" using legal_parts(1) [OF assms(1)] assms(2) by simp
  then show "bit (menvcfg_legal hw x) n = bit x n"
    using assms(3) [of n] by (auto simp: menvcfg_legal_def bit_or_iff bit_and_iff bit_not_iff bit_PMM dest: bit_imp_le_length)
qed

lemma write_pmm:
  assumes "legal hw h" "p AND ENVCFG_PMM = p"
  shows "menvcfg_legal hw ((csr_menvcfg h AND NOT ENVCFG_PMM) OR p) = (csr_menvcfg h AND NOT ENVCFG_PMM) OR pmm_of hw p"
proof -
  let ?x = "(csr_menvcfg h AND NOT ENVCFG_PMM) OR p"
  have pb: "bit p n \<Longrightarrow> n = 32 \<or> n = 33" for n using arg_cong [OF assms(2), of "\<lambda>w. bit w n"] by (auto simp: bit_and_iff bit_PMM)
  have "?x AND ENVCFG_PMM = p"
    by (rule bit_word_eqI) (use pb in \<open>auto simp: bit_or_iff bit_and_iff bit_not_iff bit_PMM\<close>)
  moreover have "?x AND impl_menvcfg hw AND NOT ENVCFG_PMM = csr_menvcfg h AND NOT ENVCFG_PMM"
    by (rule bit_word_eqI) (use pb legal_parts(2) [OF assms(1)] in \<open>auto simp: bit_or_iff bit_and_iff bit_not_iff bit_PMM\<close>)
  ultimately show ?thesis by (simp add: menvcfg_legal_def)
qed


text \<open>The bits of \<open>menvcfg\<close> a feature lives in.\<close>

definition footprint :: "u32 \<Rightarrow> nat set" where
  "footprint f = (if f = SBI_FWFT_LANDING_PAD then {2} else if f = SBI_FWFT_SHADOW_STACK then {3} else if f = SBI_FWFT_DOUBLE_TRAP then {59}
     else if f = SBI_FWFT_PTE_AD_HW_UPDATING then {61} else if f = SBI_FWFT_POINTER_MASKING_PMLEN then {32, 33} else {})"

text \<open>A change that leaves the hart legal, and everything but \<open>menvcfg\<close> in the footprint as it is.\<close>

definition touches :: "nat set \<Rightarrow> fwft_hart \<Rightarrow> fwft_hart \<Rightarrow> bool" where
  "touches F h h' \<longleftrightarrow> h' = h\<lparr>csr_menvcfg := csr_menvcfg h'\<rparr> \<and> (\<forall>n. n \<notin> F \<longrightarrow> bit (csr_menvcfg h') n = bit (csr_menvcfg h) n)"

lemma legal_menvcfg:
  assumes "legal hw h" "menvcfg_legal hw x = x"
  shows "legal hw (h\<lparr>csr_menvcfg := x\<rparr>)"
  using assms by (simp add: legal_def hw_ok_def)

lemma set_bit_effect:
  assumes "legal hw h" "bit (impl_menvcfg hw) b" "b \<noteq> 32" "b \<noteq> 33" "fwft_menvcfg_set_bit hw v b h = (r, h')"
  shows "if r = 0 then legal hw h' \<and> touches {b} h h' \<and> fwft_menvcfg_read_bit b h' = (0, v) else h' = h"
proof -
  have b: "b < 64" using assms(2) bit_imp_le_length by fastforce
  let ?m = "csr_menvcfg h"
  have set: "menvcfg_legal hw (?m OR push_bit b 1) = ?m OR push_bit b 1"
  proof (rule write_other [OF assms(1)])
    show "(?m OR push_bit b 1) AND ENVCFG_PMM = ?m AND ENVCFG_PMM"
      by (rule bit_word_eqI) (use assms(3,4) b in \<open>auto simp: bit_or_iff bit_and_iff bit_PMM bit_one\<close>)
    show "bit (impl_menvcfg hw) n" if "bit (?m OR push_bit b 1) n" "n \<noteq> 32" "n \<noteq> 33" for n
      using that legal_parts(2) [OF assms(1)] assms(2) b by (auto simp: bit_or_iff bit_one)
  qed
  have clear: "menvcfg_legal hw (?m AND NOT (push_bit b 1)) = ?m AND NOT (push_bit b 1)"
  proof (rule write_other [OF assms(1)])
    show "(?m AND NOT (push_bit b 1)) AND ENVCFG_PMM = ?m AND ENVCFG_PMM"
      by (rule bit_word_eqI) (use assms(3,4) b in \<open>auto simp: bit_not_iff bit_and_iff bit_PMM bit_one\<close>)
    show "bit (impl_menvcfg hw) n" if "bit (?m AND NOT (push_bit b 1)) n" "n \<noteq> 32" "n \<noteq> 33" for n
      using that legal_parts(2) [OF assms(1)] by (auto simp: bit_and_iff)
  qed
  have test: "x AND push_bit b 1 \<noteq> 0 \<longleftrightarrow> bit x b" for x :: u64 by (rule and_single_bit) (simp add: bit_one b)
  consider "v = 1" | "v = 0" | "v \<noteq> 1" "v \<noteq> 0" by blast
  then show ?thesis
  proof cases
    case 1
    then have h': "r = 0" "h' = h\<lparr>csr_menvcfg := ?m OR push_bit b 1\<rparr>"
      using assms(5) set by (simp_all add: fwft_menvcfg_set_bit_def write_menvcfg_def SBI_OK_def)
    then show ?thesis
      using legal_menvcfg [OF assms(1) set] 1 b test by (auto simp: touches_def fwft_menvcfg_read_bit_def SBI_OK_def bit_or_iff bit_one)
  next
    case 2
    then have h': "r = 0" "h' = h\<lparr>csr_menvcfg := ?m AND NOT (push_bit b 1)\<rparr>"
      using assms(5) clear by (simp_all add: fwft_menvcfg_set_bit_def write_menvcfg_def SBI_OK_def)
    have "\<not> bit (?m AND NOT (push_bit b 1)) b" "n \<noteq> b \<Longrightarrow> bit (?m AND NOT (push_bit b 1)) n = bit ?m n" for n
      using b by (auto simp: bit_and_iff bit_not_iff bit_one dest: bit_imp_le_length)
    then show ?thesis
      using legal_menvcfg [OF assms(1) clear] 2 test h' by (auto simp: touches_def fwft_menvcfg_read_bit_def SBI_OK_def)
  next
    case 3
    then show ?thesis using assms(5) by (auto simp: fwft_menvcfg_set_bit_def SBI_EINVAL_def)
  qed
qed

lemma read_bit_same: "b < 64 \<Longrightarrow> bit (csr_menvcfg h') b = bit (csr_menvcfg h) b \<Longrightarrow> fwft_menvcfg_read_bit b h' = fwft_menvcfg_read_bit b h"
proof -
  assume b: "b < 64" "bit (csr_menvcfg h') b = bit (csr_menvcfg h) b"
  have "x AND push_bit b 1 \<noteq> 0 \<longleftrightarrow> bit x b" for x :: u64 by (rule and_single_bit) (simp add: bit_one b)
  then show ?thesis using b(2) by (simp add: fwft_menvcfg_read_bit_def)
qed

lemma read_pmlen_same:
  assumes "bit (csr_menvcfg h') 32 = bit (csr_menvcfg h) 32" "bit (csr_menvcfg h') 33 = bit (csr_menvcfg h) 33"
  shows "fwft_get_pmlen h' = fwft_get_pmlen h"
proof -
  have "csr_menvcfg h' AND ENVCFG_PMM = csr_menvcfg h AND ENVCFG_PMM"
    by (rule bit_word_eqI) (use assms in \<open>auto simp: bit_and_iff bit_PMM\<close>)
  then show ?thesis by (simp add: fwft_get_pmlen_def)
qed


lemma set_pmlen_effect:
  assumes "legal hw h" "fwft_set_pmlen hw v h = (r, h')"
  shows "if r = 0 then legal hw h' \<and> touches {32, 33} h h' \<and> (\<exists>x. fwft_get_pmlen h' = (0, x) \<and> granted SBI_FWFT_POINTER_MASKING_PMLEN v x) else h' = h"
proof -
  let ?m = "csr_menvcfg h" and ?clr = "csr_menvcfg h AND NOT ENVCFG_PMM"
  have pmm: "pmm_of hw 0 = 0" "\<And>x. pmm_of hw x AND ENVCFG_PMM = pmm_of hw x" "\<And>x. pmm_of hw (pmm_of hw x) = pmm_of hw x"
    using assms(1) by (auto simp: legal_def hw_ok_def pmm_ok_def)
  have P: "ENVCFG_PMM_PMLEN_7 AND ENVCFG_PMM = ENVCFG_PMM_PMLEN_7" "ENVCFG_PMM_PMLEN_16 AND ENVCFG_PMM = ENVCFG_PMM_PMLEN_16"
    "ENVCFG_PMM_PMLEN_7 \<noteq> 0" "ENVCFG_PMM_PMLEN_16 \<noteq> 0" "ENVCFG_PMM_PMLEN_7 \<noteq> ENVCFG_PMM_PMLEN_16" by code_simp+
  have clear: "menvcfg_legal hw ?clr = ?clr" using write_pmm [OF assms(1), of 0] pmm(1) by simp
  have old: "menvcfg_legal hw ?m = ?m" using assms(1) unfolding legal_def by metis
  have field: "(?clr OR pmm_of hw p) AND ENVCFG_PMM = pmm_of hw p" "(?clr OR pmm_of hw p) AND NOT ENVCFG_PMM = ?clr" for p
  proof -
    have pb: "bit (pmm_of hw p) n \<Longrightarrow> n = 32 \<or> n = 33" for n using arg_cong [OF pmm(2) [of p], of "\<lambda>w. bit w n"] by (auto simp: bit_and_iff bit_PMM)
    show "(?clr OR pmm_of hw p) AND ENVCFG_PMM = pmm_of hw p"
      by (rule bit_word_eqI) (use pb in \<open>auto simp: bit_or_iff bit_and_iff bit_not_iff bit_PMM\<close>)
    show "(?clr OR pmm_of hw p) AND NOT ENVCFG_PMM = ?clr"
      by (rule bit_word_eqI) (use pb in \<open>auto simp: bit_or_iff bit_and_iff bit_not_iff bit_PMM\<close>)
  qed
  have put: "legal hw (h\<lparr>csr_menvcfg := ?clr OR pmm_of hw p\<rparr>)" for p
    using write_pmm [OF assms(1) pmm(2)] pmm(3) by (intro legal_menvcfg [OF assms(1)]) simp
  have same: "bit (?clr OR pmm_of hw p) n = bit ?m n" if "n \<notin> {32, 33}" for n p
    using that arg_cong [OF field(2) [of p], of "\<lambda>w. bit w n"] by (auto simp: bit_and_iff bit_not_iff bit_PMM dest: bit_imp_le_length)
  have try7: "fwft_try_to_set_pmm hw p (h\<lparr>csr_menvcfg := ?clr\<rparr>) = (pmm_of hw p = p, h\<lparr>csr_menvcfg := ?clr OR pmm_of hw p\<rparr>)" if "p AND ENVCFG_PMM = p" for p
    using write_pmm [OF assms(1) that] field(1) [of p] by (auto simp: fwft_try_to_set_pmm_def write_menvcfg_def Let_def)
  have good: "legal hw h1 \<and> touches {32, 33} h h1 \<and> fwft_get_pmlen h1 = (0, x)"
    if "h1 = h\<lparr>csr_menvcfg := ?clr OR pmm_of hw p\<rparr>" "pmm_of hw p = p" "(p, x) \<in> {(0, 0), (ENVCFG_PMM_PMLEN_7, 7), (ENVCFG_PMM_PMLEN_16, 16)}" for h1 p x
    using that put [of p] same [of _ p] field(1) [of p] P(3-5) by (auto simp: touches_def fwft_get_pmlen_def Let_def ENVCFG_PMM_PMLEN_0_def SBI_OK_def)
  have h0: "h\<lparr>csr_menvcfg := ?clr\<rparr> = h\<lparr>csr_menvcfg := ?clr OR pmm_of hw 0\<rparr>" using pmm(1) by simp
  consider "16 < v" | "v = 0" | "v \<noteq> 0" "v \<le> 7" "pmm_of hw ENVCFG_PMM_PMLEN_7 = ENVCFG_PMM_PMLEN_7"
    | "v \<noteq> 0" "v \<le> 16" "v \<le> 7 \<longrightarrow> pmm_of hw ENVCFG_PMM_PMLEN_7 \<noteq> ENVCFG_PMM_PMLEN_7" by (meson linorder_not_le)
  then show ?thesis
  proof cases
    case 1
    then show ?thesis using assms(2) by (auto simp: fwft_set_pmlen_def SBI_EINVAL_def)
  next
    case 2
    then have "r = 0" "h' = h\<lparr>csr_menvcfg := ?clr OR pmm_of hw 0\<rparr>"
      using assms(2) clear h0 by (simp_all add: fwft_set_pmlen_def Let_def write_menvcfg_def SBI_OK_def)
    then show ?thesis using good [of h' 0 0] pmm(1) 2 by (auto simp: granted_def)
  next
    case 3
    then have "\<not> 16 < v" by (auto simp: word_le_nat_alt word_less_nat_alt)
    then have "r = 0" "h' = h\<lparr>csr_menvcfg := ?clr OR pmm_of hw ENVCFG_PMM_PMLEN_7\<rparr>"
      using 3 assms(2) clear try7 [OF P(1)] by (simp_all add: fwft_set_pmlen_def Let_def write_menvcfg_def SBI_OK_def)
    then show ?thesis using good [of h' ENVCFG_PMM_PMLEN_7 7] 3 by (auto simp: granted_def)
  next
    case 4
    then have n: "\<not> 16 < v" by simp
    have "fwft_set_pmlen hw v h = (if pmm_of hw ENVCFG_PMM_PMLEN_16 = ENVCFG_PMM_PMLEN_16
        then (0, h\<lparr>csr_menvcfg := ?clr OR pmm_of hw ENVCFG_PMM_PMLEN_16\<rparr>) else (SBI_EINVAL, h))"
      using 4 n clear try7 [OF P(1)] try7 [OF P(2)] old field(2) by (auto simp: fwft_set_pmlen_def Let_def write_menvcfg_def SBI_OK_def)
    then show ?thesis using good [of h' ENVCFG_PMM_PMLEN_16 16] assms(2) 4 by (auto simp: granted_def SBI_EINVAL_def split: if_splits)
  qed
qed


lemma set_deleg_effect:
  assumes "legal hw h" "misa_s h" "fwft_set_misaligned_delegation hw v h = (r, h')"
  shows "if r = 0 then legal hw h' \<and> h' = h\<lparr>csr_medeleg := csr_medeleg h'\<rparr> \<and> fwft_get_misaligned_delegation h' = (0, v) else h' = h"
proof -
  have D: "MIS_DELEG AND impl_medeleg hw = MIS_DELEG" "csr_medeleg h = csr_medeleg h AND impl_medeleg hw"
    using assms(1,2) unfolding legal_def hw_ok_def by blast+
  have nz: "MIS_DELEG \<noteq> 0" by code_simp
  have db: "bit MIS_DELEG n \<Longrightarrow> bit (impl_medeleg hw) n" "bit (csr_medeleg h) n \<Longrightarrow> bit (impl_medeleg hw) n" for n
    using arg_cong [OF D(1), of "\<lambda>w. bit w n"] arg_cong [OF D(2), of "\<lambda>w. bit w n"] unfolding bit_and_iff by blast+
  have on: "(csr_medeleg h OR MIS_DELEG) AND impl_medeleg hw = csr_medeleg h OR MIS_DELEG"
    by (rule bit_word_eqI) (use db in \<open>auto simp: bit_or_iff bit_and_iff\<close>)
  have off: "(csr_medeleg h AND NOT MIS_DELEG) AND impl_medeleg hw = csr_medeleg h AND NOT MIS_DELEG"
    by (rule bit_word_eqI) (use db in \<open>auto simp: bit_or_iff bit_and_iff\<close>)
  have on_get: "(csr_medeleg h OR MIS_DELEG) AND MIS_DELEG = MIS_DELEG" by (rule bit_word_eqI) (auto simp: bit_or_iff bit_and_iff)
  have off_get: "(csr_medeleg h AND NOT MIS_DELEG) AND MIS_DELEG = 0" by (rule bit_word_eqI) (auto simp: bit_and_iff bit_not_iff)
  have put: "legal hw (h\<lparr>csr_medeleg := x\<rparr>)" if "x AND impl_medeleg hw = x" for x
    using assms(1) that unfolding legal_def hw_ok_def by simp
  consider "v = 1" | "v = 0" | "v \<noteq> 1" "v \<noteq> 0" by blast
  then show ?thesis
  proof cases
    case 1
    then have "r = 0" "h' = h\<lparr>csr_medeleg := csr_medeleg h OR MIS_DELEG\<rparr>"
      using assms(3) on by (simp_all add: fwft_set_misaligned_delegation_def write_medeleg_def SBI_OK_def)
    then show ?thesis using put [OF on] on_get nz 1 by (simp add: fwft_get_misaligned_delegation_def SBI_OK_def)
  next
    case 2
    then have "r = 0" "h' = h\<lparr>csr_medeleg := csr_medeleg h AND NOT MIS_DELEG\<rparr>"
      using assms(3) off by (simp_all add: fwft_set_misaligned_delegation_def write_medeleg_def SBI_OK_def)
    then show ?thesis using put [OF off] off_get 2 by (simp add: fwft_get_misaligned_delegation_def SBI_OK_def)
  next
    case 3
    then show ?thesis using assms(3) by (auto simp: fwft_set_misaligned_delegation_def SBI_EINVAL_def)
  qed
qed

text \<open>What each feature of the table writes and reads.\<close>

lemmas feature_ops = fwft_set_double_trap_def fwft_get_double_trap_def fwft_set_adue_def fwft_get_adue_def fwft_enable_lpad_def fwft_get_lpad_def
  fwft_enable_sstack_def fwft_get_sstack_def ENVCFG_DTE_SHIFT_def ENVCFG_ADUE_SHIFT_def ENVCFG_LPE_SHIFT_def ENVCFG_SSE_SHIFT_def

lemmas feature_tests = fwft_misaligned_delegation_supported_def fwft_double_trap_supported_def fwft_adue_supported_def fwft_lpad_supported_def
  fwft_sstack_supported_def fwft_pmlen_supported_def

lemma feature_cases:
  assumes "a \<in> set (features hw)"
  obtains (deleg) "feat_id a = SBI_FWFT_MISALIGNED_EXC_DELEG" "feat_set a = fwft_set_misaligned_delegation hw" "feat_get a = fwft_get_misaligned_delegation"
      "supported a = fwft_misaligned_delegation_supported"
  | (single) b where "footprint (feat_id a) = {b}" "b < 64" "b \<noteq> 32" "b \<noteq> 33" "feat_set a = (\<lambda>v. fwft_menvcfg_set_bit hw v b)"
      "feat_get a = fwft_menvcfg_read_bit b" "\<And>h. legal hw h \<Longrightarrow> supported a h = 0 \<Longrightarrow> bit (impl_menvcfg hw) b"
      "feat_id a \<noteq> SBI_FWFT_POINTER_MASKING_PMLEN" "feat_id a \<noteq> SBI_FWFT_MISALIGNED_EXC_DELEG"
  | (pmlen) "feat_id a = SBI_FWFT_POINTER_MASKING_PMLEN" "feat_set a = fwft_set_pmlen hw" "feat_get a = fwft_get_pmlen" "supported a = fwft_pmlen_supported"
proof -
  have impl: "ext_zicfilp h \<Longrightarrow> bit (impl_menvcfg hw) 2" "ext_zicfiss h \<Longrightarrow> bit (impl_menvcfg hw) 3" "ext_ssdbltrp h \<Longrightarrow> bit (impl_menvcfg hw) 59"
    "ext_svadu h \<Longrightarrow> bit (impl_menvcfg hw) 61" if "legal hw h" for h using that by (auto simp: legal_def hw_ok_def)
  have "a = features hw ! 0 \<or> a = features hw ! 1 \<or> a = features hw ! 2 \<or> a = features hw ! 3 \<or> a = features hw ! 4 \<or> a = features hw ! 5"
    using assms by (auto simp: features_def)
  then show thesis
  proof (elim disjE)
    assume "a = features hw ! 0"
    then show thesis by (intro deleg) (simp_all add: features_def)
  next
    assume "a = features hw ! 1"
    then show thesis using impl
      by (intro single [of 2]) (auto simp: features_def footprint_def feature_ops feature_tests fun_eq_iff code_consts split: if_splits)
  next
    assume "a = features hw ! 2"
    then show thesis using impl
      by (intro single [of 3]) (auto simp: features_def footprint_def feature_ops feature_tests fun_eq_iff code_consts split: if_splits)
  next
    assume "a = features hw ! 3"
    then show thesis using impl
      by (intro single [of 59]) (auto simp: features_def footprint_def feature_ops feature_tests fun_eq_iff code_consts split: if_splits)
  next
    assume "a = features hw ! 4"
    then show thesis using impl
      by (intro single [of 61]) (auto simp: features_def footprint_def feature_ops feature_tests fun_eq_iff code_consts split: if_splits)
  next
    assume "a = features hw ! 5"
    then show thesis by (intro pmlen) (simp_all add: features_def)
  qed
qed


lemma touches_frame:
  assumes "touches F h h'"
  shows "fhs_configs h' = fhs_configs h" "csr_medeleg h' = csr_medeleg h" "misa_s h' = misa_s h" "ext_ssdbltrp h' = ext_ssdbltrp h"
    "ext_svadu h' = ext_svadu h" "ext_zicfilp h' = ext_zicfilp h" "ext_zicfiss h' = ext_zicfiss h" "ext_smnpm h' = ext_smnpm h"
proof -
  have h': "h' = h\<lparr>csr_menvcfg := csr_menvcfg h'\<rparr>" using assms by (simp add: touches_def)
  show "fhs_configs h' = fhs_configs h" "csr_medeleg h' = csr_medeleg h" "misa_s h' = misa_s h" "ext_ssdbltrp h' = ext_ssdbltrp h"
    "ext_svadu h' = ext_svadu h" "ext_zicfilp h' = ext_zicfilp h" "ext_zicfiss h' = ext_zicfiss h" "ext_smnpm h' = ext_smnpm h"
    by (subst h', simp)+
qed

lemma feature_set:
  assumes "a \<in> set (features hw)" "legal hw h" "supported a h = 0" "feat_set a v h = (r, h')"
  shows "if r = 0 then legal hw h' \<and> (\<exists>x. feat_get a h' = (0, x) \<and> granted (feat_id a) v x) \<and>
      (if feat_id a = SBI_FWFT_MISALIGNED_EXC_DELEG then h' = h\<lparr>csr_medeleg := csr_medeleg h'\<rparr> else touches (footprint (feat_id a)) h h')
    else h' = h"
  using assms(1)
proof (cases rule: feature_cases)
  case deleg
  then have "misa_s h" using assms(3) by (simp add: fwft_misaligned_delegation_supported_def SBI_ENOTSUPP_def split: if_splits)
  then show ?thesis using set_deleg_effect [OF assms(2), of v r h'] assms(4) deleg by (auto simp: granted_def code_consts)
next
  case (single b)
  then show ?thesis using set_bit_effect [OF assms(2) single(7) [OF assms(2,3)] single(3,4), of v r h'] assms(4) by (auto simp: granted_def)
next
  case pmlen
  then have "footprint (feat_id a) = {32, 33}" by (simp add: footprint_def code_consts)
  then show ?thesis using set_pmlen_effect [OF assms(2), of v r h'] assms(4) pmlen by (auto simp: code_consts)
qed

lemma feature_get_same:
  assumes "b \<in> set (features hw)" "feat_id b = SBI_FWFT_MISALIGNED_EXC_DELEG \<Longrightarrow> csr_medeleg h' = csr_medeleg h"
    "\<And>n. n \<in> footprint (feat_id b) \<Longrightarrow> bit (csr_menvcfg h') n = bit (csr_menvcfg h) n"
  shows "feat_get b h' = feat_get b h"
  using assms(1)
proof (cases rule: feature_cases)
  case deleg
  then show ?thesis using assms(2) by (simp add: fwft_get_misaligned_delegation_def)
next
  case (single k)
  then show ?thesis using read_bit_same [of k h' h] assms(3) by simp
next
  case pmlen
  then show ?thesis using read_pmlen_same [of h' h] assms(3) [of 32] assms(3) [of 33] by (simp add: footprint_def code_consts)
qed

lemma features_distinct: "distinct (map feat_id (features hw))"
  by (simp add: features_def code_consts)

lemma features_apart:
  assumes "a \<in> set (features hw)" "b \<in> set (features hw)" "a \<noteq> b"
  shows "feat_id a \<noteq> feat_id b" "footprint (feat_id a) \<inter> footprint (feat_id b) = {}"
proof -
  show n: "feat_id a \<noteq> feat_id b" using features_distinct [of hw] assms by (auto simp: distinct_map inj_on_def)
  show "footprint (feat_id a) \<inter> footprint (feat_id b) = {}" using n by (auto simp: footprint_def code_consts split: if_splits)
qed

lemma pmm_only:
  "fwft_try_to_set_pmm hw p h = (ok, h') \<Longrightarrow> \<exists>m. h' = h\<lparr>csr_menvcfg := m\<rparr>"
  by (auto simp: fwft_try_to_set_pmm_def write_menvcfg_def Let_def)

lemma pmlen_only:
  assumes "fwft_set_pmlen hw v h = (r, h')"
  shows "\<exists>m. h' = h\<lparr>csr_menvcfg := m\<rparr>"
proof -
  have same: "\<exists>m. h = h\<lparr>csr_menvcfg := m\<rparr>" for h :: fwft_hart by (rule exI [of _ "csr_menvcfg h"]) simp
  show ?thesis
    using assms same by (auto simp: fwft_set_pmlen_def fwft_try_to_set_pmm_def write_menvcfg_def Let_def split: if_splits)
qed

lemma feature_only:
  assumes "a \<in> set (features hw)" "feat_set a v h = (r, h')"
  shows "\<exists>d m. h' = h\<lparr>csr_medeleg := d, csr_menvcfg := m\<rparr>"
proof -
  have same: "h' = h \<Longrightarrow> \<exists>d m. h' = h\<lparr>csr_medeleg := d, csr_menvcfg := m\<rparr>" by (rule exI [of _ "csr_medeleg h"], rule exI [of _ "csr_menvcfg h"]) simp
  have menv: "\<exists>d m. h' = h\<lparr>csr_medeleg := d, csr_menvcfg := m\<rparr>" if "h' = h\<lparr>csr_menvcfg := m\<rparr>" for m
    by (rule exI [of _ "csr_medeleg h"], rule exI [of _ m]) (simp add: that)
  have med: "\<exists>d m. h' = h\<lparr>csr_medeleg := d, csr_menvcfg := m\<rparr>" if "h' = h\<lparr>csr_medeleg := d\<rparr>" for d
    by (rule exI [of _ d], rule exI [of _ "csr_menvcfg h"]) (simp add: that)
  show ?thesis
    using assms(1)
  proof (cases rule: feature_cases)
    case deleg
    then show ?thesis using assms(2) med same by (auto simp: fwft_set_misaligned_delegation_def write_medeleg_def split: if_splits)
  next
    case (single b)
    then show ?thesis using assms(2) menv same by (auto simp: fwft_menvcfg_set_bit_def write_menvcfg_def split: if_splits)
  next
    case pmlen
    then show ?thesis using pmlen_only assms(2) menv by metis
  qed
qed

interpretation fw: fwft_table "features hw" "legal hw" granted for hw
proof
  show "distinct (map feat_id (features hw))" by (rule features_distinct)
  show "feat_id a AND SBI_FWFT_GLOBAL_FEATURE_BIT = 0" if "a \<in> set (features hw)" for a
    using that by (auto simp: features_def code_consts SBI_FWFT_GLOBAL_FEATURE_BIT_def)
next
  fix a h v h'
  assume a: "a \<in> set (features hw)" "legal hw h" "supported a h = 0" "feat_set a v h = (0, h')"
  then show "legal hw h' \<and> (\<exists>x. feat_get a h' = (0, x) \<and> granted (feat_id a) v x)" using feature_set by fastforce
  show "feat_get b h' = feat_get b h" if b: "b \<in> set (features hw)" "a \<noteq> b" for b
  proof -
    note n = features_apart [OF a(1) b(1,2)]
    show ?thesis
    proof (cases "feat_id a = SBI_FWFT_MISALIGNED_EXC_DELEG")
      case True
      then have h': "h' = h\<lparr>csr_medeleg := csr_medeleg h'\<rparr>" using feature_set [OF a] by simp
      have "csr_menvcfg h' = csr_menvcfg h" by (subst h') simp
      then show ?thesis using True n by (intro feature_get_same [OF b(1)]) auto
    next
      case False
      then have t: "touches (footprint (feat_id a)) h h'" using feature_set [OF a] by simp
      then show ?thesis using n touches_frame(2) [OF t] by (intro feature_get_same [OF b(1)]) (auto simp: touches_def)
    qed
  qed
next
  fix a h v r h'
  assume "a \<in> set (features hw)" "legal hw h" "supported a h = 0" "feat_set a v h = (r, h')" "r \<noteq> 0"
  then show "h' = h" using feature_set by fastforce
next
  fix a v h r h' b
  assume "a \<in> set (features hw)" "feat_set a v h = (r, h')"
  then obtain d m where "h' = h\<lparr>csr_medeleg := d, csr_menvcfg := m\<rparr>" using feature_only by blast
  then show "fhs_configs h' = fhs_configs h \<and> (b \<in> set (features hw) \<longrightarrow> supported b h' = supported b h)"
    by (auto simp: features_def feature_tests)
next
  fix a h c
  assume "a \<in> set (features hw)"
  then show "feat_get a (h\<lparr>fhs_configs := c\<rparr>) = feat_get a h" "supported a (h\<lparr>fhs_configs := c\<rparr>) = supported a h"
    by (auto simp: features_def feature_ops feature_tests fwft_get_misaligned_delegation_def fwft_menvcfg_read_bit_def fwft_get_pmlen_def)
next
  show "legal hw (h\<lparr>fhs_configs := c\<rparr>) = legal hw h" for h c by (simp add: legal_def hw_ok_def)
qed


section \<open>An example\<close>

text \<open>A hart with every extension, whose pointer masking has the lengths 0 and 16 only.\<close>

definition demo_hw :: csr_hw where
  "demo_hw = \<lparr>impl_medeleg = 0xFFFF, impl_menvcfg = NOT 0, pmm_of = (\<lambda>x. if x = ENVCFG_PMM_PMLEN_16 then x else 0)\<rparr>"

definition demo_fwft :: fwft_hart where
  "demo_fwft = \<lparr>hdata = hdata (demo_hart 0), sc_next_arg1 = 0, sc_next_addr = 0, sc_next_mode = 0, sc_warmboot_addr = 0, csr_mie = 0, csr_mip = 0,
     csr_medeleg = 0, csr_menvcfg = 0, priv_1_12 = True, init_count = 0, entry_count = 0, fhs_configs = None, misa_s = True, ext_ssdbltrp = True,
     ext_svadu = True, ext_zicfilp = True, ext_zicfiss = True, ext_smnpm = True\<rparr>"

definition demo_fwft_on :: fwft_hart where
  "demo_fwft_on = demo_fwft\<lparr>fhs_configs := Some (map (\<lambda>i. \<lparr>cfg_feature = i, cfg_flags = 0\<rparr>) [0..<6])\<rparr>"

lemma demo_legal: "legal demo_hw demo_fwft" "legal demo_hw demo_fwft_on"
proof -
  have p: "pmm_ok (pmm_of demo_hw)"
  proof -
    have "ENVCFG_PMM_PMLEN_16 AND ENVCFG_PMM = ENVCFG_PMM_PMLEN_16" by code_simp
    then show ?thesis by (auto simp: pmm_ok_def demo_hw_def)
  qed
  have "hw_ok demo_hw demo_fwft"
    using p by (simp add: hw_ok_def demo_fwft_def) (simp add: demo_hw_def MIS_DELEG_def bit_not_iff)
  then show l: "legal demo_hw demo_fwft" by (simp add: legal_def demo_fwft_def menvcfg_legal_def) (simp add: demo_hw_def)
  then show "legal demo_hw demo_fwft_on" by (simp add: demo_fwft_on_def fw.configs)
qed

lemma demo_configured: "configured (features demo_hw) demo_fwft_on"
  by code_simp

lemma demo_init: "sbi_fwft_init (features demo_hw) True False (8, demo_sst, demo_fwft) = Some (0, 8, demo_sst, demo_fwft_on)"
proof -
  have n: "fhs_configs demo_fwft = None" "length (features demo_hw) = 6" by (simp_all add: demo_fwft_def features_def)
  have "fold (\<lambda>f acc. Option.bind acc (fwft_clear_config_lock (features demo_hw) (feat_id f))) (features demo_hw) (Some demo_fwft_on) = Some demo_fwft_on"
    by code_simp
  then show ?thesis unfolding sbi_fwft_init_def prod.case by (simp add: n demo_fwft_on_def)
qed

section \<open>Properties\<close>



text \<open>
  C29: a lock holds until the hart is initialised again.  Once a call with the flag LOCK succeeded, whatever calls follow (to any feature, with any value and
  any flags) return, the feature reads the value it was locked with, and no call to it succeeds or changes anything; initialising the module opens the lock
  again, so that every supported feature can be set to a value it accepts.
\<close>

theorem fwft_locked:
  assumes "legal hw h" "configured (features hw) h" "sbi_fwft_set (features hw) f v SBI_FWFT_SET_FLAG_LOCK h = Some (0, h1)"
  shows "\<exists>h2. fwft_calls (features hw) calls h1 = Some h2 \<and> sbi_fwft_get (features hw) f h2 = sbi_fwft_get (features hw) f h1 \<and>
    (\<exists>ret. sbi_fwft_set (features hw) f v' flags h2 = Some (ret, h2) \<and> ret \<noteq> 0) \<and>
    (\<forall>off sst alloc_ok. \<exists>off' sst' h3. sbi_fwft_init (features hw) alloc_ok False (off, sst, h2) = Some (0, off', sst', h3) \<and>
       (\<forall>i < length (features hw). supported (features hw ! i) h3 = 0 \<longrightarrow> \<not> is_locked i h3))"
proof -
  obtain h2 where h2: "fwft_calls (features hw) calls h1 = Some h2" "sbi_fwft_get (features hw) f h2 = sbi_fwft_get (features hw) f h1"
    "\<exists>ret. sbi_fwft_set (features hw) f v' flags h2 = Some (ret, h2) \<and> ret \<noteq> 0"
    using fw.locked_stays [OF assms(2,1,3), of calls v' flags] by blast
  have "configured (features hw) h1 \<and> legal hw h1" using fw.set_get [OF assms(2,1), of f v SBI_FWFT_SET_FLAG_LOCK] assms(3) by auto
  then have c: "configured (features hw) h2" "legal hw h2" using fw.calls_keep h2(1) by blast+
  have "\<exists>off' sst' h3. sbi_fwft_init (features hw) alloc_ok False (off, sst, h2) = Some (0, off', sst', h3) \<and>
       (\<forall>i < length (features hw). supported (features hw ! i) h3 = 0 \<longrightarrow> \<not> is_locked i h3)" for off sst alloc_ok
    using fw.init_again [OF c] .
  then show ?thesis using h2 by blast
qed

theorem fwft_locked_witness:
  "\<exists>h1 h2. sbi_fwft_set (features demo_hw) SBI_FWFT_DOUBLE_TRAP 1 SBI_FWFT_SET_FLAG_LOCK demo_fwft_on = Some (0, h1) \<and>
     fwft_calls (features demo_hw) [(SBI_FWFT_DOUBLE_TRAP, 0, 0), (SBI_FWFT_LANDING_PAD, 1, 0)] h1 = Some h2 \<and>
     sbi_fwft_get (features demo_hw) SBI_FWFT_DOUBLE_TRAP h2 = sbi_fwft_get (features demo_hw) SBI_FWFT_DOUBLE_TRAP h1"
proof -
  have "map_option fst (sbi_fwft_set (features demo_hw) SBI_FWFT_DOUBLE_TRAP 1 SBI_FWFT_SET_FLAG_LOCK demo_fwft_on) = Some 0" by code_simp
  then obtain h1 where h1: "sbi_fwft_set (features demo_hw) SBI_FWFT_DOUBLE_TRAP 1 SBI_FWFT_SET_FLAG_LOCK demo_fwft_on = Some (0, h1)" by auto
  show ?thesis
    using fwft_locked [OF demo_legal(2) demo_configured h1, of "[(SBI_FWFT_DOUBLE_TRAP, 0, 0), (SBI_FWFT_LANDING_PAD, 1, 0)]"] h1 by blast
qed

end
