(* ===== verification/SbiSseList.thy ===== *)
theory SbiSseList
  imports SbiSseDemo
begin

text \<open>
  The enabled lists of supervisor software events as the code keeps them: rings of \<open>sbi_dlist\<close> nodes inside the events, with a head in the
  state of each hart.  The pointer operations implement the operations on sequences that the rest of the model uses.
\<close>

unbundle bit_operations_syntax

section \<open>The pointer operations\<close>

text \<open>
  \<open>nd\<close> gives the address of the node inside an event, \<open>head\<close> that of the list head of a hart; \<open>container_of\<close> is the inverse of \<open>nd\<close>.
\<close>

definition addresses :: "(sse_ref \<Rightarrow> u64) \<Rightarrow> (u64 \<Rightarrow> sse_ref) \<Rightarrow> (nat \<Rightarrow> u64) \<Rightarrow> sse_ref set \<Rightarrow> nat set \<Rightarrow> bool" where
  "addresses nd container_of head V H \<longleftrightarrow>
     (\<forall>r \<in> V. container_of (nd r) = r) \<and> inj_on head H \<and> (\<forall>r \<in> V. \<forall>h \<in> H. nd r \<noteq> head h)"

definition sse_add_node ::
  "(sse_ref \<Rightarrow> u64) \<Rightarrow> (u64 \<Rightarrow> sse_ref) \<Rightarrow> (nat \<Rightarrow> u64) \<Rightarrow> sse_ref \<Rightarrow> ('p, 'a) sse_system_scheme \<Rightarrow> sbi_dlist \<Rightarrow> sbi_dlist option" where
  "sse_add_node nd container_of head r w s =
     map_option (\<lambda>tmp. sbi_list_add_tail (nd r) tmp s)
       (sbi_list_seek (\<lambda>tmp. sse_before (ev_at r w) (ev_at (container_of tmp) w)) s (head (hartindex (ev_at r w))))"

definition sse_remove_node :: "(sse_ref \<Rightarrow> u64) \<Rightarrow> sse_ref \<Rightarrow> sbi_dlist \<Rightarrow> sbi_dlist" where
  "sse_remove_node nd r s = sbi_list_del (nd r) s"

text \<open>The lists of the harts that are set up, and that the store represents them.\<close>

definition sse_list :: "('p, 'a) sse_system_scheme \<Rightarrow> nat \<Rightarrow> sse_ref list" where
  "sse_list w h = (case shs_ptr w h of None \<Rightarrow> [] | Some s \<Rightarrow> enabled_event_list s)"

definition sse_harts :: "('p, 'a) sse_system_scheme \<Rightarrow> nat set" where
  "sse_harts w = {h. shs_ptr w h \<noteq> None}"

definition sse_rep :: "(sse_ref \<Rightarrow> u64) \<Rightarrow> (nat \<Rightarrow> u64) \<Rightarrow> ('p, 'a) sse_system_scheme \<Rightarrow> sbi_dlist \<Rightarrow> bool" where
  "sse_rep nd head w s \<longleftrightarrow> (\<forall>h \<in> sse_harts w. dl_rep s (head h) (map nd (sse_list w h)))"

definition lists_apart :: "sse_ref set \<Rightarrow> ('p, 'a) sse_system_scheme \<Rightarrow> bool" where
  "lists_apart V w \<longleftrightarrow>
     (\<forall>h. set (sse_list w h) \<subseteq> V) \<and> (\<forall>h k. h \<noteq> k \<longrightarrow> set (sse_list w h) \<inter> set (sse_list w k) = {})"

lemma reachable_apart:
  assumes "sse_reachable g sg sst dm w"
  shows "lists_apart (vV (sse_view sst w)) w"
proof -
  have inv: "core_ok sst (sse_view sst w)" using reachable_ok [OF assms] by (simp add: reach_ok_def sse_inv_def)
  have "sse_list w = vL (sse_view sst w)" by (simp add: fun_eq_iff sse_list_def sse_view_def)
  then have m: "r \<in> set (sse_list w h) \<Longrightarrow> r \<in> vV (sse_view sst w) \<and> hartindex (ev_at r w) = h" for r h
    using listed_hart(1,2) [OF inv] by simp
  show ?thesis unfolding lists_apart_def
  proof (intro conjI allI impI)
    show "set (sse_list w h) \<subseteq> vV (sse_view sst w)" for h using m by blast
    show "set (sse_list w h) \<inter> set (sse_list w k) = {}" if "h \<noteq> k" for h k using m [of _ h] m [of _ k] that by blast
  qed
qed

lemma rings_apart:
  assumes "addresses nd container_of head V H" "lists_apart V w" "sse_harts w \<subseteq> H" "h \<in> sse_harts w" "k \<in> sse_harts w" "h \<noteq> k"
  shows "insert (head h) (set (map nd (sse_list w h))) \<inter> insert (head k) (set (map nd (sse_list w k))) = {}"
proof -
  have V: "set (sse_list w h) \<subseteq> V" "set (sse_list w k) \<subseteq> V" "set (sse_list w h) \<inter> set (sse_list w k) = {}"
    using assms(2,6) by (auto simp: lists_apart_def)
  have H: "h \<in> H" "k \<in> H" using assms(3-5) by auto
  have "inj_on nd V" using assms(1) by (auto simp: addresses_def intro: inj_on_inverseI)
  then have "nd ` set (sse_list w h) \<inter> nd ` set (sse_list w k) = {}"
    using V inj_on_image_Int [of nd V "set (sse_list w h)" "set (sse_list w k)"] by simp
  moreover have "head h \<noteq> head k" using assms(1,6) H by (auto simp: addresses_def inj_on_def)
  moreover have "head h \<notin> nd ` set (sse_list w k)" "head k \<notin> nd ` set (sse_list w h)"
    using assms(1) H V(1,2) unfolding addresses_def by (metis imageE subsetD)+
  ultimately show ?thesis by auto
qed

lemma add_to_list_lists:
  assumes "sse_event_add_to_list r w = Some w'"
  shows "sse_harts w' = sse_harts w" "hartindex (ev_at r w) \<in> sse_harts w"
    "sse_list w' h = (if h = hartindex (ev_at r w) then insert_where (\<lambda>t. sse_before (ev_at r w) (ev_at t w)) r (sse_list w h) else sse_list w h)"
  using assms by (auto simp: sse_event_add_to_list_def Let_def sse_harts_def sse_list_def on_shs_def split: if_splits option.splits)

lemma remove_lists: "sse_harts (sse_event_remove_from_list r w) = sse_harts w" "sse_list (sse_event_remove_from_list r w) h = remove1 r (sse_list w h)"
  by (auto simp: sse_event_remove_from_list_def sse_harts_def sse_list_def split: option.splits)

lemma add_node_rep:
  assumes addr: "addresses nd container_of head V H" and apart: "lists_apart V w" "sse_harts w \<subseteq> H" and rep: "sse_rep nd head w s"
    and r: "r \<in> V" "\<forall>h. r \<notin> set (sse_list w h)" and add: "sse_event_add_to_list r w = Some w'"
  shows "\<exists>s'. sse_add_node nd container_of head r w s = Some s' \<and> sse_rep nd head w' s'"
proof -
  let ?h = "hartindex (ev_at r w)" and ?P = "\<lambda>tmp. sse_before (ev_at r w) (ev_at (container_of tmp) w)"
  note l = add_to_list_lists [OF add]
  have ch: "h \<in> sse_harts w \<Longrightarrow> dl_rep s (head h) (map nd (sse_list w h))" for h using rep by (simp add: sse_rep_def)
  have V: "set (sse_list w h) \<subseteq> V" for h using apart(1) by (simp add: lists_apart_def)
  have new: "nd r \<notin> insert (head h) (set (map nd (sse_list w h)))" if "h \<in> sse_harts w" for h
  proof -
    have "nd r \<noteq> head h" using addr r(1) that apart(2) by (auto simp: addresses_def)
    moreover have "nd r \<noteq> nd q" if "q \<in> set (sse_list w h)" for q
      using addr r V that unfolding addresses_def by (metis subsetD)
    ultimately show ?thesis by auto
  qed
  obtain s' where s': "dl.insert_ordered ?P (nd r) (head ?h) s = Some s'" "dl_rep s' (head ?h) (insert_where ?P (nd r) (map nd (sse_list w ?h)))"
    using dl.insert_ordered_rep [OF ch [OF l(2)] new [OF l(2)], of ?P] by blast
  have "insert_where ?P (nd r) (map nd (sse_list w ?h)) = map nd (insert_where (\<lambda>t. sse_before (ev_at r w) (ev_at t w)) r (sse_list w ?h))"
  proof -
    have "insert_where (?P \<circ> nd) r (sse_list w ?h) = insert_where (\<lambda>t. sse_before (ev_at r w) (ev_at t w)) r (sse_list w ?h)"
    proof (rule insert_where_cong)
      fix y assume "y \<in> set (sse_list w ?h)"
      then have "container_of (nd y) = y" using addr V [of ?h] by (auto simp: addresses_def)
      then show "(?P \<circ> nd) y = sse_before (ev_at r w) (ev_at y w)" by simp
    qed
    then show ?thesis by (simp add: insert_where_map)
  qed
  then have "dl_rep s' (head h) (map nd (sse_list w' h))" if "h \<in> sse_harts w" for h
    using s' that l(3) ch new dl.insert_ordered_frame [OF ch [OF l(2)] ch [OF that] rings_apart [OF addr apart l(2) that] new [OF that] s'(1)]
    by (cases "h = ?h") auto
  moreover have "sse_add_node nd container_of head r w s = Some s'"
    using s'(1) by (simp add: sse_add_node_def dl.insert_ordered_def)
  ultimately show ?thesis using l(1) by (auto simp: sse_rep_def)
qed

lemma remove_node_rep:
  assumes addr: "addresses nd container_of head V H" and apart: "lists_apart V w" "sse_harts w \<subseteq> H" and rep: "sse_rep nd head w s"
    and r: "r \<in> set (sse_list w k)"
  shows "sse_rep nd head (sse_event_remove_from_list r w) (sse_remove_node nd r s)"
proof -
  have k: "k \<in> sse_harts w" using r by (cases "shs_ptr w k") (auto simp: sse_list_def sse_harts_def)
  have ch: "h \<in> sse_harts w \<Longrightarrow> dl_rep s (head h) (map nd (sse_list w h))" for h using rep by (simp add: sse_rep_def)
  have inj: "inj_on nd V" using addr by (auto simp: addresses_def intro: inj_on_inverseI)
  have rm: "remove1 (nd r) (map nd xs) = map nd (remove1 r xs)" if "set xs \<subseteq> V" for xs
    using that inj apart(1) r by (induction xs) (auto simp: lists_apart_def inj_on_def)
  have "dl_rep (sbi_list_del (nd r) s) (head h) (map nd (remove1 r (sse_list w h)))" if h: "h \<in> sse_harts w" for h
  proof (cases "h = k")
    case True
    then show ?thesis using dl.del_rep [OF ch [OF h], of "nd r"] r rm [of "sse_list w h"] apart(1) by (auto simp: lists_apart_def)
  next
    case False
    then have "r \<notin> set (sse_list w h)" using r apart(1) unfolding lists_apart_def by blast
    moreover have "dl_rep (sbi_list_del (nd r) s) (head h) (map nd (sse_list w h))"
      using dl.frame_del [OF ch [OF k] ch [OF h] rings_apart [OF addr apart k h], of "nd r"] r False by auto
    ultimately show ?thesis by (simp add: remove1_idem)
  qed
  then show ?thesis by (simp add: sse_rep_def remove_lists sse_remove_node_def)
qed

text \<open>
  C26: the rings of pointers implement the lists of events.  With nodes and heads at different addresses and the list of each hart held by
  its ring, adding an event that is on no list and removing an event that is on one
  give rings that hold the new lists of all harts, the list the event belongs to changed in the place the order asks for and
  all others untouched; and a traversal visits the events of the list in order and ends.
\<close>

theorem sse_rings_refine_lists:
  assumes "addresses nd container_of head V H" "lists_apart V w" "sse_harts w \<subseteq> H" "sse_rep nd head w s"
  shows "(\<forall>r w'. r \<in> V \<and> (\<forall>h. r \<notin> set (sse_list w h)) \<and> sse_event_add_to_list r w = Some w' \<longrightarrow>
      (\<exists>s'. sse_add_node nd container_of head r w s = Some s' \<and> sse_rep nd head w' s')) \<and>
    (\<forall>r k. r \<in> set (sse_list w k) \<longrightarrow> sse_rep nd head (sse_event_remove_from_list r w) (sse_remove_node nd r s)) \<and>
    (\<forall>h \<in> sse_harts w. sbi_list_for_each s (head h) = Some (map nd (sse_list w h)))"
  using add_node_rep [OF assms] remove_node_rep [OF assms] dl.visit assms(4) by (auto simp: sse_rep_def)

definition demo_nd :: "sse_ref \<Rightarrow> u64" where
  "demo_nd r = (case r of Local h i \<Rightarrow> 0x1000 | Global i \<Rightarrow> 0x2000)"

definition demo_container :: "u64 \<Rightarrow> sse_ref" where
  "demo_container p = (if p = 0x1000 then Local 0 0 else Global 0)"

lemma init_cold_shs: "sse_init_cold ok me (sg, g, sst, w) = (ret, sg', g', sst', w') \<Longrightarrow> shs_ptr w' = shs_ptr w"
  by (auto simp: sse_init_cold_def Let_def sse_global_init_def sse_event_count_init_def split: prod.splits if_splits)

lemma init_hart_shs: "sse_init_hart sst sg ok me w = (ret, w') \<Longrightarrow> h \<noteq> me \<Longrightarrow> shs_ptr w' h = shs_ptr w h"
  by (auto simp: sse_init_hart_def split: if_splits option.splits)

theorem sse_rings_refine_lists_witness:
  "\<exists>s'. sse_add_node demo_nd demo_container (\<lambda>_. 0x3000) (Local 0 0) demo_sse_w1
      (SBI_INIT_LIST_HEAD 0x3000 \<lparr>dl_next = (\<lambda>_. 0), dl_prev = (\<lambda>_. 0)\<rparr>) = Some s' \<and>
     sse_rep demo_nd (\<lambda>_. 0x3000) (the (sse_event_add_to_list (Local 0 0) demo_sse_w1)) s'"
proof -
  let ?s = "SBI_INIT_LIST_HEAD 0x3000 \<lparr>dl_next = (\<lambda>_. 0), dl_prev = (\<lambda>_. 0)\<rparr>" and ?V = "{Local 0 0, Global 0}"
  obtain w1 where w1: "sse_init_cold True 0 (demo_sse_globals, demo_sse_ipi0 demo_sse_sst, demo_sse_scratch 120, demo_sse_w0) =
      (0, demo_sg, demo_g, demo_sse_sst, w1)" "sse_init_hart demo_sse_sst demo_sg True 0 w1 = (0, demo_sse_w1)"
    using demo_boot by (auto simp: sbi_sse_init_def split: prod.splits if_splits)
  have shs: "shs_ptr demo_sse_w1 h = None" if "h \<noteq> 0" for h
    using init_cold_shs [OF w1(1)] init_hart_shs [OF w1(2) that] by (simp add: demo_sse_w0_def)
  have "\<not> Option.is_none (sse_event_add_to_list (Local 0 0) demo_sse_w1)" by code_simp
  then have add: "sse_event_add_to_list (Local 0 0) demo_sse_w1 = Some (the (sse_event_add_to_list (Local 0 0) demo_sse_w1))"
    by (auto simp: Option.is_none_def)
  have "sse_list demo_sse_w1 0 = []" by code_simp
  then have "h \<noteq> 0 \<Longrightarrow> sse_list demo_sse_w1 h = [] \<and> h \<notin> sse_harts demo_sse_w1" "sse_list demo_sse_w1 0 = []" for h
    using shs [of h] by (simp_all add: sse_list_def sse_harts_def)
  then have l: "sse_list demo_sse_w1 h = []" "h \<in> sse_harts demo_sse_w1 \<Longrightarrow> h = 0" for h by metis+
  have a: "addresses demo_nd demo_container (\<lambda>_. 0x3000) ?V {0}" by (auto simp: addresses_def demo_nd_def demo_container_def)
  have rep: "sse_rep demo_nd (\<lambda>_. 0x3000) demo_sse_w1 ?s" using l(1) dl.rep_init by (simp add: sse_rep_def)
  have "lists_apart ?V demo_sse_w1" "sse_harts demo_sse_w1 \<subseteq> {0}" using l by (auto simp: lists_apart_def)
  from sse_rings_refine_lists [OF a this rep] show ?thesis using add l(1) by auto
qed

section \<open>An event that is added twice\<close>

text \<open>
  \<open>sbi_sse_exit\<close> marks the enabled events of a hart that stops as unused and leaves them on the list of the hart.  Another hart can then
  register and enable such an event again, which puts its node on the list a second time, here on a list that holds nothing else:
  the node becomes its own successor and a traversal does not end.
\<close>

lemma add_twice_loops:
  assumes "dl_rep s h [n]"
  shows "sbi_list_for_each (sbi_list_add_tail n h s) h = None"
proof -
  let ?s = "sbi_list_add_tail n h s"
  have s: "n \<noteq> h" "dl_next s h = n" "dl_prev s h = n" using assms by (auto simp: dl_rep_def)
  then have n: "dl_next ?s h = n" "dl_next ?s n = n" by (simp_all add: sbi_list_add_tail_def sbi_list_add'_def dl_puts Let_def)
  have "\<not> (t = ?s \<and> pos = n \<and> head = h)" if w: "list_walk t pos head = Some xs" for t pos head xs
    by (rule list_walk.raw_induct [where P = "\<lambda>t pos head xs. \<not> (t = ?s \<and> pos = n \<and> head = h)", OF _ w])
      (use s(1) n(2) in \<open>auto simp: bind_eq_Some_conv split: if_splits\<close>)
  then show ?thesis using n(1) by (cases "list_walk ?s n h") (auto simp: sbi_list_for_each_def)
qed

lemma exit_leaves_event_listed:
  "case demo_run [Call 0 2 0xffff8000 0x90000000, Call 0 4 0xffff8000 0, Join 1] demo_sse_w1 of None \<Rightarrow> False | Some w \<Rightarrow>
     (case sbi_sse_exit demo_sse_sst demo_sg 0 w of None \<Rightarrow> False | Some w \<Rightarrow>
        sse_event_state (ev_at (Global 0) w) = SBI_SSE_STATE_UNUSED \<and> sse_list w 0 = [Global 0] \<and>
        (case demo_run [Call 1 2 0xffff8000 0x90000000, Call 1 4 0xffff8000 0] w of None \<Rightarrow> False | Some w \<Rightarrow>
          sse_list w 0 = [Global 0, Global 0]))"
  by code_simp

end
