(* ===== verification/SbiString.thy ===== *)
theory SbiString
  imports Prelude
begin

text \<open>
  The memory and string functions of the firmware (\<open>lib/sbi/sbi_string.c\<close>), on a memory of bytes with 64-bit addresses.  \<open>char\<close> is unsigned, as on
  RISC-V.  A loop that counts down runs as often as the count; a loop that looks for the end of a string does not end (\<open>None\<close>) in a memory
  without one.
\<close>

type_synonym memory = "u64 \<Rightarrow> u8"

section \<open>Strings\<close>

partial_function (option) strcmp_loop :: "memory \<Rightarrow> u64 \<Rightarrow> u64 \<Rightarrow> int option" where
  "strcmp_loop m a b = (if m a = m b \<and> m a \<noteq> 0 then strcmp_loop m (a + 1) (b + 1) else Some (uint (m a) - uint (m b)))"

definition sbi_strcmp :: "memory \<Rightarrow> u64 \<Rightarrow> u64 \<Rightarrow> int option" where
  "sbi_strcmp m a b = strcmp_loop m a b"

primrec strncmp_loop :: "nat \<Rightarrow> memory \<Rightarrow> u64 \<Rightarrow> u64 \<Rightarrow> int" where
  "strncmp_loop 0 m a b = 0"
| "strncmp_loop (Suc count) m a b =
     (if m a = m b \<and> m a \<noteq> 0 then strncmp_loop count m (a + 1) (b + 1) else uint (m a) - uint (m b))"

definition sbi_strncmp :: "memory \<Rightarrow> u64 \<Rightarrow> u64 \<Rightarrow> u64 \<Rightarrow> int" where
  "sbi_strncmp m a b count = strncmp_loop (unat count) m a b"

partial_function (option) strlen_loop :: "memory \<Rightarrow> u64 \<Rightarrow> u64 \<Rightarrow> u64 option" where
  "strlen_loop m str ret = (if m str \<noteq> 0 then strlen_loop m (str + 1) (ret + 1) else Some ret)"

definition sbi_strlen :: "memory \<Rightarrow> u64 \<Rightarrow> u64 option" where
  "sbi_strlen m str = strlen_loop m str 0"

text \<open>The first argument is \<open>count - ret\<close>.\<close>

primrec strnlen_loop :: "nat \<Rightarrow> memory \<Rightarrow> u64 \<Rightarrow> u64 \<Rightarrow> u64" where
  "strnlen_loop 0 m str ret = ret"
| "strnlen_loop (Suc n) m str ret = (if m str \<noteq> 0 then strnlen_loop n m (str + 1) (ret + 1) else ret)"

definition sbi_strnlen :: "memory \<Rightarrow> u64 \<Rightarrow> u64 \<Rightarrow> u64" where
  "sbi_strnlen m str count = strnlen_loop (unat count) m str 0"

partial_function (option) strcpy_loop :: "u64 \<Rightarrow> u64 \<Rightarrow> memory \<Rightarrow> memory option" where
  "strcpy_loop dest src m = (if m src \<noteq> 0 then strcpy_loop (dest + 1) (src + 1) (m(dest := m src)) else Some m)"

definition sbi_strcpy :: "u64 \<Rightarrow> u64 \<Rightarrow> memory \<Rightarrow> (u64 \<times> memory) option" where
  "sbi_strcpy dest src m = map_option (Pair dest) (strcpy_loop dest src m)"

primrec strncpy_loop :: "nat \<Rightarrow> u64 \<Rightarrow> u64 \<Rightarrow> memory \<Rightarrow> memory" where
  "strncpy_loop 0 dest src m = m"
| "strncpy_loop (Suc count) dest src m = (if m src \<noteq> 0 then strncpy_loop count (dest + 1) (src + 1) (m(dest := m src)) else m)"

definition sbi_strncpy :: "u64 \<Rightarrow> u64 \<Rightarrow> u64 \<Rightarrow> memory \<Rightarrow> u64 \<times> memory" where
  "sbi_strncpy dest src count m = (dest, strncpy_loop (unat count) dest src m)"

text \<open>The result of a search is \<open>None\<close> for a null pointer; the outer option is for a search that does not end.\<close>

partial_function (option) strchr_loop :: "memory \<Rightarrow> u64 \<Rightarrow> u8 \<Rightarrow> u64 option" where
  "strchr_loop m s c = (if m s \<noteq> 0 \<and> m s \<noteq> c then strchr_loop m (s + 1) c else Some s)"

definition sbi_strchr :: "memory \<Rightarrow> u64 \<Rightarrow> u32 \<Rightarrow> u64 option option" where
  "sbi_strchr m s c = map_option (\<lambda>s. if m s = 0 then None else Some s) (strchr_loop m s (ucast c))"

function strrchr_loop :: "memory \<Rightarrow> u64 \<Rightarrow> u64 \<Rightarrow> u8 \<Rightarrow> u64" where
  "strrchr_loop m s lst c = (if s < lst \<and> m lst \<noteq> c then strrchr_loop m s (lst - 1) c else lst)"
  by pat_completeness auto
termination
proof (relation "measure (\<lambda>(m, s, lst, c). unat lst)", goal_cases)
  case (2 m s lst c)
  then have "lst \<noteq> 0" by auto
  then show ?case by (simp add: unat_minus_one unat_gt_0)
qed simp

declare strrchr_loop.simps [simp del]

definition sbi_strrchr :: "memory \<Rightarrow> u64 \<Rightarrow> u32 \<Rightarrow> u64 option option" where
  "sbi_strrchr m s c =
     map_option (\<lambda>len. let lst = strrchr_loop m s (s + len) (ucast c) in if m lst \<noteq> ucast c then None else Some lst) (sbi_strlen m s)"

section \<open>Memory\<close>

primrec memset_loop :: "nat \<Rightarrow> u64 \<Rightarrow> u8 \<Rightarrow> memory \<Rightarrow> memory" where
  "memset_loop 0 temp c m = m"
| "memset_loop (Suc count) temp c m = memset_loop count (temp + 1) c (m(temp := c))"

definition sbi_memset :: "u64 \<Rightarrow> u32 \<Rightarrow> u64 \<Rightarrow> memory \<Rightarrow> u64 \<times> memory" where
  "sbi_memset s c count m = (s, memset_loop (unat count) s (ucast c) m)"

primrec copy_up :: "nat \<Rightarrow> u64 \<Rightarrow> u64 \<Rightarrow> memory \<Rightarrow> memory" where
  "copy_up 0 temp1 temp2 m = m"
| "copy_up (Suc count) temp1 temp2 m = copy_up count (temp1 + 1) (temp2 + 1) (m(temp1 := m temp2))"

definition sbi_memcpy :: "u64 \<Rightarrow> u64 \<Rightarrow> u64 \<Rightarrow> memory \<Rightarrow> u64 \<times> memory" where
  "sbi_memcpy dest src count m = (dest, copy_up (unat count) dest src m)"

primrec copy_down :: "nat \<Rightarrow> u64 \<Rightarrow> u64 \<Rightarrow> memory \<Rightarrow> memory" where
  "copy_down 0 temp1 temp2 m = m"
| "copy_down (Suc count) temp1 temp2 m = copy_down count (temp1 - 1) (temp2 - 1) (m(temp1 := m temp2))"

definition sbi_memmove :: "u64 \<Rightarrow> u64 \<Rightarrow> u64 \<Rightarrow> memory \<Rightarrow> u64 \<times> memory" where
  "sbi_memmove dest src count m =
     (if src = dest then (dest, m)
      else if dest < src then (dest, copy_up (unat count) dest src m)
      else (dest, copy_down (unat count) (dest + count - 1) (src + count - 1) m))"

primrec memcmp_loop :: "nat \<Rightarrow> memory \<Rightarrow> u64 \<Rightarrow> u64 \<Rightarrow> int" where
  "memcmp_loop 0 m temp1 temp2 = 0"
| "memcmp_loop (Suc count) m temp1 temp2 =
     (if m temp1 = m temp2 then memcmp_loop count m (temp1 + 1) (temp2 + 1) else uint (m temp1) - uint (m temp2))"

definition sbi_memcmp :: "memory \<Rightarrow> u64 \<Rightarrow> u64 \<Rightarrow> u64 \<Rightarrow> int" where
  "sbi_memcmp m s1 s2 count = memcmp_loop (unat count) m s1 s2"

primrec memchr_loop :: "nat \<Rightarrow> memory \<Rightarrow> u64 \<Rightarrow> u8 \<Rightarrow> u64 option" where
  "memchr_loop 0 m temp c = None"
| "memchr_loop (Suc count) m temp c = (if c = m temp then Some temp else memchr_loop count m (temp + 1) c)"

definition sbi_memchr :: "memory \<Rightarrow> u64 \<Rightarrow> u32 \<Rightarrow> u64 \<Rightarrow> u64 option" where
  "sbi_memchr m s c count = memchr_loop (unat count) m s (ucast c)"

section \<open>Blocks\<close>

text \<open>The bytes of a block, and the memory after a block was written.\<close>

definition block :: "memory \<Rightarrow> u64 \<Rightarrow> nat \<Rightarrow> bytes" where
  "block m p n = map (\<lambda>i. m (p + of_nat i)) [0..<n]"

definition in_block :: "u64 \<Rightarrow> nat \<Rightarrow> u64 \<Rightarrow> bool" where
  "in_block p n a \<longleftrightarrow> unat p \<le> unat a \<and> unat a < unat p + n"

definition put_block :: "u64 \<Rightarrow> bytes \<Rightarrow> memory \<Rightarrow> memory" where
  "put_block p bs m a = (if in_block p (length bs) a then bs ! (unat a - unat p) else m a)"

lemma block_length [simp]: "length (block m p n) = n"
  by (simp add: block_def)

lemma block_Suc: "block m p (Suc n) = m p # block m (p + 1) n"
proof -
  have "[0..<Suc n] = 0 # map Suc [0..<n]" by (simp add: map_Suc_upt upt_conv_Cons)
  then show ?thesis unfolding block_def by (simp add: comp_def algebra_simps del: upt_Suc)
qed

lemma block_snoc: "block m p (Suc n) = block m p n @ [m (p + of_nat n)]"
  by (simp add: block_def)

lemma block_cong: "(\<And>i. i < n \<Longrightarrow> m' (p + of_nat i) = m (p + of_nat i)) \<Longrightarrow> block m' p n = block m p n"
  by (simp add: block_def)

lemma put_block_Nil [simp]: "put_block p [] m = m"
  by (rule ext) (auto simp: put_block_def in_block_def)

lemma unat_step: "unat p + n \<le> 2 ^ 64 \<Longrightarrow> i < n \<Longrightarrow> unat (p + of_nat i :: u64) = unat p + i"
  by (simp add: unat_word_ariths unat_of_nat take_bit_nat_eq_self)

lemma unat_next: "unat p + Suc n \<le> 2 ^ 64 \<Longrightarrow> 0 < n \<Longrightarrow> unat (p + 1 :: u64) = Suc (unat p)"
  using unat_step [of p "Suc n" 1] by simp

lemma in_block_0 [simp]: "\<not> in_block p 0 a"
  by (simp add: in_block_def)

lemma in_block_Suc:
  assumes "unat p + Suc n \<le> 2 ^ 64"
  shows "in_block p (Suc n) a \<longleftrightarrow> a = p \<or> in_block (p + 1) n a"
proof (cases "n = 0")
  case False
  then have "unat (p + 1) = Suc (unat p)" using unat_next [OF assms] by simp
  then show ?thesis by (auto simp: in_block_def word_unat_eq_iff)
qed (auto simp: in_block_def word_unat_eq_iff)

lemma not_in_next: "unat p + Suc n \<le> 2 ^ 64 \<Longrightarrow> \<not> in_block (p + 1) n p"
  using unat_next [of p n] by (cases "n = 0") (auto simp: in_block_def)

lemma put_block_Cons:
  assumes "unat p + Suc (length bs) \<le> 2 ^ 64"
  shows "put_block p (b # bs) m = put_block (p + 1) bs (m(p := b))"
proof
  fix a
  show "put_block p (b # bs) m a = put_block (p + 1) bs (m(p := b)) a"
  proof (cases "in_block (p + 1) (length bs) a")
    case True
    then have "bs \<noteq> []" by auto
    then have "unat (p + 1) = Suc (unat p)" using unat_next [OF assms] by simp
    then have "unat a - unat p = Suc (unat a - unat (p + 1))" using True unfolding in_block_def by linarith
    then show ?thesis using True in_block_Suc [OF assms, of a] by (simp add: put_block_def)
  next
    case False
    then show ?thesis using in_block_Suc [OF assms, of a] by (auto simp: put_block_def)
  qed
qed

text \<open>The order in which a copy may go: no byte is read after it was overwritten.\<close>

definition up_ok :: "u64 \<Rightarrow> u64 \<Rightarrow> nat \<Rightarrow> bool" where
  "up_ok d s n \<longleftrightarrow> unat d \<le> unat s \<or> unat s + n \<le> unat d"

lemma copy_up_block:
  assumes "unat d + n \<le> 2 ^ 64" "unat s + n \<le> 2 ^ 64" "up_ok d s n"
  shows "copy_up n d s m = put_block d (block m s n) m"
  using assms
proof (induction n arbitrary: d s m)
  case (Suc n)
  show ?case
  proof (cases "n = 0")
    case False
    have d: "unat (d + 1) = Suc (unat d)" "unat (s + 1) = Suc (unat s)" using unat_next Suc.prems False by auto
    have "copy_up n (d + 1) (s + 1) (m(d := m s)) = put_block (d + 1) (block (m(d := m s)) (s + 1) n) (m(d := m s))"
      using Suc.prems d by (intro Suc.IH) (auto simp: up_ok_def)
    moreover have "block (m(d := m s)) (s + 1) n = block m (s + 1) n"
    proof (rule block_cong)
      fix i assume "i < n"
      then have "unat (s + 1 + of_nat i) = unat (s + 1) + i" using Suc.prems d by (intro unat_step [of _ n]) simp_all
      then show "(m(d := m s)) (s + 1 + of_nat i) = m (s + 1 + of_nat i)"
        using Suc.prems(3) d \<open>i < n\<close> by (auto simp: up_ok_def)
    qed
    ultimately show ?thesis using put_block_Cons [of d "block m (s + 1) n"] Suc.prems(1) by (simp add: block_Suc)
  qed (use Suc.prems put_block_Cons [of d "[]"] in \<open>simp add: block_Suc block_def\<close>)
qed (simp add: block_def)

lemma put_block_snoc:
  assumes "unat p + Suc (length bs) \<le> 2 ^ 64"
  shows "put_block p (bs @ [b]) m = put_block p bs (m(p + of_nat (length bs) := b))"
proof
  fix a
  have u: "unat (p + of_nat (length bs)) = unat p + length bs" using unat_step [OF assms] by simp
  then show "put_block p (bs @ [b]) m a = put_block p bs (m(p + of_nat (length bs) := b)) a"
    by (auto simp: put_block_def in_block_def nth_append word_unat_eq_iff)
qed

lemma copy_down_block:
  assumes "unat d + n \<le> 2 ^ 64" "unat s + n \<le> 2 ^ 64" "unat s \<le> unat d"
  shows "copy_down n (d + of_nat n - 1) (s + of_nat n - 1) m = put_block d (block m s n) m"
  using assms
proof (induction n arbitrary: m)
  case (Suc n)
  have d: "unat (d + of_nat n) = unat d + n" using unat_step [OF Suc.prems(1)] by simp
  let ?m = "m(d + of_nat n := m (s + of_nat n))"
  have "copy_down n (d + of_nat n - 1) (s + of_nat n - 1) ?m = put_block d (block ?m s n) ?m"
    using Suc.prems by (intro Suc.IH) simp_all
  moreover have "block ?m s n = block m s n"
  proof (rule block_cong)
    fix i assume "i < n"
    then have "unat (s + of_nat i) = unat s + i" using Suc.prems by (intro unat_step [of _ n]) simp_all
    then show "?m (s + of_nat i) = m (s + of_nat i)" using Suc.prems(3) d \<open>i < n\<close> by auto
  qed
  ultimately show ?case
    using put_block_snoc [of d "block m s n"] Suc.prems(1) by (simp add: block_snoc algebra_simps)
qed (simp add: block_def)

lemma memset_block:
  assumes "unat p + n \<le> 2 ^ 64"
  shows "memset_loop n p c m = put_block p (replicate n c) m"
  using assms
proof (induction n arbitrary: p m)
  case (Suc n)
  have "memset_loop n (p + 1) c (m(p := c)) = put_block (p + 1) (replicate n c) (m(p := c))"
  proof (cases "n = 0")
    case False
    then show ?thesis using Suc.prems unat_next [OF Suc.prems] by (intro Suc.IH) simp
  qed simp
  then show ?case using put_block_Cons [of p "replicate n c"] Suc.prems by simp
qed simp

lemma block_self: "unat p + n \<le> 2 ^ 64 \<Longrightarrow> put_block p (block m p n) m = m"
proof
  fix a assume "unat p + n \<le> 2 ^ 64"
  have "p + of_nat (unat a - unat p) = a" if "unat p \<le> unat a"
    using that by (simp add: of_nat_diff)
  then show "put_block p (block m p n) m a = m a" by (auto simp: put_block_def in_block_def block_def)
qed

text \<open>
  C23: the memory functions write exactly the bytes they are asked to write.  For blocks that do not wrap around the address space,
  \<open>sbi_memmove\<close> puts the bytes the source block had before the call into the destination block, however the two overlap, and
  changes nothing else; \<open>sbi_memcpy\<close> does the same when the destination does not start inside the source, and \<open>sbi_memset\<close> fills the block.  All
  return the destination.
\<close>

theorem sbi_memory_writes:
  assumes "unat dest + unat count \<le> 2 ^ 64" "unat src + unat count \<le> 2 ^ 64"
  shows "sbi_memmove dest src count m = (dest, put_block dest (block m src (unat count)) m) \<and>
    (\<not> (src < dest \<and> in_block src (unat count) dest) \<longrightarrow> sbi_memcpy dest src count m = sbi_memmove dest src count m) \<and>
    sbi_memset dest c count m = (dest, put_block dest (replicate (unat count) (ucast c)) m)"
proof -
  have move: "sbi_memmove dest src count m = (dest, put_block dest (block m src (unat count)) m)"
  proof -
    consider "src = dest" | "dest < src" | "src < dest" by (meson linorder_neqE)
    then show ?thesis
    proof cases
      case 2
      then have "src \<noteq> dest" "up_ok dest src (unat count)" by (auto simp: up_ok_def word_less_nat_alt)
      then show ?thesis using copy_up_block [OF assms] 2 by (simp add: sbi_memmove_def)
    next
      case 3
      then have "src \<noteq> dest" "\<not> dest < src" "unat src \<le> unat dest" by (auto simp: word_less_nat_alt)
      then show ?thesis using copy_down_block [OF assms] by (simp add: sbi_memmove_def)
    qed (use assms in \<open>simp add: sbi_memmove_def block_self\<close>)
  qed
  have "sbi_memcpy dest src count m = (dest, put_block dest (block m src (unat count)) m)" if "\<not> (src < dest \<and> in_block src (unat count) dest)"
    using that copy_up_block [OF assms] by (auto simp: sbi_memcpy_def up_ok_def word_less_nat_alt in_block_def)
  then show ?thesis using move memset_block [OF assms(1)] by (auto simp: sbi_memset_def)
qed

theorem sbi_memory_writes_witness:
  "snd (sbi_memmove 0x1002 0x1000 4 (\<lambda>a. ucast a)) 0x1004 = 2 \<and> snd (sbi_memset 0x1002 7 4 (\<lambda>_. 0)) 0x1003 = 7 \<and>
   put_block 0x1002 (block (\<lambda>a. ucast a) 0x1000 4) (\<lambda>a. ucast a) 0x1004 = 2"
proof -
  have "unat (0x1002 :: u64) + unat (4 :: u64) \<le> 2 ^ 64" "unat (0x1000 :: u64) + unat (4 :: u64) \<le> 2 ^ 64" by simp_all
  note w = sbi_memory_writes [OF this, of "\<lambda>a. ucast a" 7] sbi_memory_writes [OF this, of "\<lambda>_. 0" 7]
  have "put_block 0x1002 (block (\<lambda>a. ucast a) 0x1000 4) (\<lambda>a. ucast a) 0x1004 = 2" "put_block 0x1002 (replicate 4 (ucast (7 :: u32))) (\<lambda>_. 0) 0x1003 = 7"
    by code_simp+
  then show ?thesis using w by simp
qed


section \<open>Strings in memory\<close>

text \<open>The string at an address.\<close>

fun str_at :: "memory \<Rightarrow> u64 \<Rightarrow> bytes \<Rightarrow> bool" where
  "str_at m p [] \<longleftrightarrow> m p = 0"
| "str_at m p (x # xs) \<longleftrightarrow> m p = x \<and> x \<noteq> 0 \<and> str_at m (p + 1) xs"

lemma str_at_nth: "str_at m p xs \<Longrightarrow> i < length xs \<Longrightarrow> m (p + of_nat i) = xs ! i \<and> xs ! i \<noteq> 0"
proof (induction xs arbitrary: p i)
  case (Cons x xs)
  then show ?case using Cons.IH [of "p + 1" "i - 1"] by (cases i) (auto simp: algebra_simps)
qed simp

lemma str_at_end: "str_at m p xs \<Longrightarrow> m (p + of_nat (length xs)) = 0"
proof (induction xs arbitrary: p)
  case (Cons x xs)
  then show ?case using Cons.IH [of "p + 1"] by (simp add: algebra_simps)
qed simp

lemma strlen_str: "str_at m p xs \<Longrightarrow> strlen_loop m p n = Some (n + of_nat (length xs))"
proof (induction xs arbitrary: p n)
  case Nil
  then show ?case by (simp add: strlen_loop.simps [of m p n])
next
  case (Cons x xs)
  then show ?case by (simp add: strlen_loop.simps [of m p n] algebra_simps)
qed

lemma strnlen_str: "str_at m p xs \<Longrightarrow> strnlen_loop k m p n = n + of_nat (min (length xs) k)"
proof (induction k arbitrary: p n xs)
  case (Suc k)
  then show ?case by (cases xs) (auto simp: algebra_simps)
qed simp

text \<open>The order of strings as lists of bytes, and what a comparison has to return.\<close>

definition compares :: "int \<Rightarrow> bytes \<Rightarrow> bytes \<Rightarrow> bool" where
  "compares v xs ys \<longleftrightarrow> (v = 0 \<longleftrightarrow> xs = ys) \<and> (v < 0 \<longleftrightarrow> ord_class.lexordp xs ys)"

lemma compares_same [simp]: "compares 0 xs xs"
  by (simp add: compares_def lexordp_irreflexive')

lemma compares_Cons [simp]: "compares v (x # xs) (x # ys) = compares v xs ys"
  by (simp add: compares_def)

lemma compares_differ: "x \<noteq> y \<Longrightarrow> compares (uint (x :: u8) - uint y) (x # xs) (y # ys)"
  by (auto simp: compares_def word_less_def word_uint_eq_iff)

lemma compares_Nil: "x \<noteq> 0 \<Longrightarrow> compares (uint (x :: u8)) (x # xs) []" "x \<noteq> 0 \<Longrightarrow> compares (- uint (x :: u8)) [] (x # xs)"
proof -
  have "0 < uint x" if "x \<noteq> 0" using that uint_ge_0 [of x] uint_0_iff [of x] by linarith
  then show "x \<noteq> 0 \<Longrightarrow> compares (uint x) (x # xs) []" "x \<noteq> 0 \<Longrightarrow> compares (- uint x) [] (x # xs)" by (auto simp: compares_def)
qed

lemma strcmp_str: "str_at m a xs \<Longrightarrow> str_at m b ys \<Longrightarrow> \<exists>v. strcmp_loop m a b = Some v \<and> compares v xs ys"
proof (induction xs arbitrary: a b ys)
  case Nil
  then show ?case using compares_Nil(2) by (cases ys) (auto simp: strcmp_loop.simps [of m a b])
next
  case (Cons x xs)
  show ?case
  proof (cases ys)
    case Nil
    then show ?thesis using Cons.prems compares_Nil(1) by (auto simp: strcmp_loop.simps [of m a b])
  next
    case (Cons y zs)
    then show ?thesis
      using Cons.IH [of "a + 1" "b + 1" zs] Cons.prems compares_differ by (cases "x = y") (auto simp: strcmp_loop.simps [of m a b])
  qed
qed

lemma strncmp_str: "str_at m a xs \<Longrightarrow> str_at m b ys \<Longrightarrow> compares (strncmp_loop k m a b) (take k xs) (take k ys)"
proof (induction k arbitrary: a b xs ys)
  case (Suc k)
  show ?case
  proof (cases xs)
    case Nil
    then show ?thesis using Suc.prems compares_Nil(2) by (cases ys) auto
  next
    case x: (Cons x xs')
    show ?thesis
    proof (cases ys)
      case Nil
      then show ?thesis using Suc.prems x compares_Nil(1) by auto
    next
      case (Cons y ys')
      then show ?thesis using Suc.prems x Suc.IH [of "a + 1" xs' "b + 1" ys'] compares_differ by (cases "x = y") auto
    qed
  qed
qed simp

lemma first_index:
  assumes "c \<in> set xs"
  shows "length (takeWhile (\<lambda>x. x \<noteq> c) xs) < length xs" "xs ! length (takeWhile (\<lambda>x. x \<noteq> c) xs) = c"
  using assms by (induction xs) auto

lemma last_index:
  assumes "zs \<noteq> []"
  shows "zs ! (length zs - 1 - length (takeWhile (\<lambda>x. x \<noteq> c) (rev zs))) = c \<longleftrightarrow> c \<in> set zs"
proof (cases "c \<in> set zs")
  case True
  then have "length (takeWhile (\<lambda>x. x \<noteq> c) (rev zs)) < length zs" "rev zs ! length (takeWhile (\<lambda>x. x \<noteq> c) (rev zs)) = c"
    using first_index [of c "rev zs"] by simp_all
  then show ?thesis using True by (simp add: rev_nth)
next
  case False
  have "length zs - 1 - k < length zs" for k using assms by (cases zs) auto
  then show ?thesis using False nth_mem by metis
qed

lemma strchr_str:
  "str_at m p xs \<Longrightarrow> strchr_loop m p c = Some (p + of_nat (length (takeWhile (\<lambda>x. x \<noteq> c) xs)))"
proof (induction xs arbitrary: p)
  case Nil
  then show ?case by (simp add: strchr_loop.simps [of m p c])
next
  case (Cons x xs)
  then show ?case by (auto simp: strchr_loop.simps [of m p c] algebra_simps)
qed

lemma strrchr_str:
  assumes "unat s + n < 2 ^ 64" "\<And>i. i \<le> n \<Longrightarrow> m (s + of_nat i) = zs ! i" "length zs = Suc n" "k \<le> n"
  shows "strrchr_loop m s (s + of_nat k) c = s + of_nat (k - length (takeWhile (\<lambda>x. x \<noteq> c) (rev (take (Suc k) zs))))"
  using assms(4)
proof (induction k)
  case 0
  then show ?case by (simp add: strrchr_loop.simps [of m s s c])
next
  case (Suc k)
  have "unat (s + of_nat (Suc k)) = unat s + Suc k" using unat_step [of s "Suc n" "Suc k"] assms(1) Suc.prems by simp
  then have up: "s < s + of_nat (Suc k)" by (simp add: word_less_nat_alt)
  have z: "rev (take (Suc (Suc k)) zs) = zs ! Suc k # rev (take (Suc k) zs)" using assms(3) Suc.prems by (simp add: take_Suc_conv_app_nth)
  have mz: "m (s + of_nat (Suc k)) = zs ! Suc k" using assms(2) [OF Suc.prems] .
  have p1: "s + of_nat (Suc k) - 1 = s + of_nat k" by simp
  have "strrchr_loop m s (s + of_nat (Suc k)) c = (if zs ! Suc k \<noteq> c then strrchr_loop m s (s + of_nat k) c else s + of_nat (Suc k))"
    unfolding strrchr_loop.simps [of m s "s + of_nat (Suc k)" c] mz p1 using up by (simp del: of_nat_Suc)
  then show ?case using Suc unfolding z by (simp del: of_nat_Suc)
qed

lemma memcmp_block: "compares (memcmp_loop n m a b) (block m a n) (block m b n)"
proof (induction n arbitrary: a b)
  case (Suc n)
  then show ?case using compares_differ by (cases "m a = m b") (simp_all add: block_Suc)
qed (simp add: block_def)

lemma memchr_block:
  "memchr_loop n m p c =
     (if c \<in> set (block m p n) then Some (p + of_nat (length (takeWhile (\<lambda>x. x \<noteq> c) (block m p n)))) else None)"
proof (induction n arbitrary: p)
  case (Suc n)
  then show ?case by (auto simp: block_Suc algebra_simps)
qed (simp add: block_def)

text \<open>
  C38: on strings that end, the string functions end and compute what the C library promises: the length (up to a
  bound), the order of two strings as sequences of unsigned bytes (up to a bound), and the first and last position of a character.  The functions on blocks
  compare and search exactly the given number of bytes.
\<close>

theorem sbi_string_correct:
  assumes "str_at m a xs" "str_at m b ys" "unat a + length xs < 2 ^ 64"
  shows "sbi_strlen m a = Some (of_nat (length xs)) \<and> sbi_strnlen m a n = of_nat (min (length xs) (unat n)) \<and>
    (\<exists>v. sbi_strcmp m a b = Some v \<and> compares v xs ys) \<and> compares (sbi_strncmp m a b n) (take (unat n) xs) (take (unat n) ys) \<and>
    sbi_strchr m a c = Some (if ucast c \<in> set xs then Some (a + of_nat (length (takeWhile (\<lambda>x. x \<noteq> ucast c) xs))) else None) \<and>
    sbi_strrchr m a c = Some (if ucast c \<in> set (xs @ [0])
      then Some (a + of_nat (length xs - length (takeWhile (\<lambda>x. x \<noteq> ucast c) (rev (xs @ [0]))))) else None) \<and>
    compares (sbi_memcmp m a b n) (block m a (unat n)) (block m b (unat n)) \<and>
    sbi_memchr m a c n = (if ucast c \<in> set (block m a (unat n))
      then Some (a + of_nat (length (takeWhile (\<lambda>x. x \<noteq> ucast c) (block m a (unat n))))) else None)"
proof -
  let ?zs = "xs @ [0]" and ?c = "ucast c :: u8"
  let ?k = "length (takeWhile (\<lambda>x. x \<noteq> ?c) xs)" and ?r = "length xs - length (takeWhile (\<lambda>x. x \<noteq> ?c) (rev ?zs))"
  have z: "m (a + of_nat i) = ?zs ! i" if "i \<le> length xs" for i
    using that str_at_nth [OF assms(1)] str_at_end [OF assms(1)] by (cases "i < length xs") (auto simp: nth_append)
  have len: "sbi_strlen m a = Some (of_nat (length xs))" using strlen_str [OF assms(1), of 0] by (simp add: sbi_strlen_def)
  have "m (a + of_nat ?k) = 0 \<longleftrightarrow> ?c \<notin> set xs"
  proof (cases "?c \<in> set xs")
    case True
    then show ?thesis using str_at_nth [OF assms(1) first_index(1) [OF True]] by simp
  next
    case False
    then have all: "takeWhile (\<lambda>x. x \<noteq> ?c) xs = xs" by (auto simp: takeWhile_eq_all_conv)
    show ?thesis unfolding all using False str_at_end [OF assms(1)] by simp
  qed
  then have chr: "sbi_strchr m a c = Some (if ?c \<in> set xs then Some (a + of_nat ?k) else None)"
    using strchr_str [OF assms(1), of ?c] by (simp add: sbi_strchr_def)
  have last: "strrchr_loop m a (a + of_nat (length xs)) ?c = a + of_nat ?r"
    using strrchr_str [of a "length xs" m ?zs "length xs" ?c] assms(3) z by simp
  have r: "?zs ! ?r = ?c \<longleftrightarrow> ?c \<in> set ?zs" using last_index [of ?zs ?c] by simp
  have mr: "m (a + of_nat ?r) = ?zs ! ?r" by (rule z) simp
  have "sbi_strrchr m a c = Some (if m (a + of_nat ?r) \<noteq> ?c then None else Some (a + of_nat ?r))"
    by (simp only: sbi_strrchr_def len option.map last Let_def)
  then have rchr: "sbi_strrchr m a c = Some (if ?c \<in> set ?zs then Some (a + of_nat ?r) else None)" by (simp only: mr r if_not_P split: if_split) blast
  have nlen: "sbi_strnlen m a n = of_nat (min (length xs) (unat n))"
    using strnlen_str [OF assms(1), of "unat n" 0] by (simp add: sbi_strnlen_def)
  have cmp: "\<exists>v. sbi_strcmp m a b = Some v \<and> compares v xs ys" "compares (sbi_strncmp m a b n) (take (unat n) xs) (take (unat n) ys)"
    "compares (sbi_memcmp m a b n) (block m a (unat n)) (block m b (unat n))"
    unfolding sbi_strcmp_def sbi_strncmp_def sbi_memcmp_def using strcmp_str strncmp_str assms(1,2) memcmp_block by blast+
  note mchr = memchr_block [of "unat n" m a ?c, folded sbi_memchr_def]
  show ?thesis by (intro conjI len nlen cmp chr rchr mchr)
qed


definition demo_memory :: memory where
  "demo_memory a = (if 0x100 \<le> a \<and> a < 0x105 then [97, 98, 97, 99, 0] ! unat (a - 0x100) else if 0x200 \<le> a \<and> a < 0x203 then [97, 98, 0] ! unat (a - 0x200) else 1)"

theorem sbi_string_correct_witness:
  "sbi_strlen demo_memory 0x100 = Some 4 \<and> (\<exists>v. sbi_strcmp demo_memory 0x100 0x200 = Some v \<and> 0 < v) \<and>
   sbi_strchr demo_memory 0x100 97 = Some (Some 0x100) \<and> sbi_strrchr demo_memory 0x100 97 = Some (Some 0x102)"
proof -
  have str: "str_at demo_memory 0x100 [97, 98, 97, 99]" "str_at demo_memory 0x200 [97, 98]" by code_simp+
  have "unat (0x100 :: u64) + length [97, 98, 97, 99 :: u8] < 2 ^ 64" by simp
  from sbi_string_correct [OF str this, of 0 97] show ?thesis by (auto simp: compares_def)
qed

section \<open>Copies of strings\<close>

lemma str_at_upd:
  assumes "unat p + Suc (length xs) \<le> 2 ^ 64" "\<not> in_block p (Suc (length xs)) d"
  shows "str_at (m(d := v)) p xs = str_at m p xs"
  using assms
proof (induction xs arbitrary: p)
  case Nil
  then show ?case by (auto simp: in_block_def)
next
  case (Cons x xs)
  have "unat (p + 1) = Suc (unat p)" using unat_next [of p "Suc (length xs)"] Cons.prems(1) by simp
  moreover have "d \<noteq> p" "\<not> in_block (p + 1) (Suc (length xs)) d" using in_block_Suc Cons.prems by auto
  ultimately show ?case using Cons.IH [of "p + 1"] Cons.prems(1) by auto
qed

text \<open>\<open>sbi_strcpy\<close> copies the bytes of a string but not the zero that ends it: the byte behind the copy stays what it was.\<close>

lemma strcpy_unterminated:
  assumes "str_at m s xs" "unat s + Suc (length xs) \<le> 2 ^ 64" "unat d + length xs \<le> 2 ^ 64"
    "unat s + Suc (length xs) \<le> unat d \<or> unat d + length xs \<le> unat s"
  shows "sbi_strcpy d s m = Some (d, put_block d xs m)"
proof -
  have "strcpy_loop d s m = Some (put_block d xs m)"
    using assms
  proof (induction xs arbitrary: d s m)
    case Nil
    then show ?case by (simp add: strcpy_loop.simps [of d s m])
  next
    case (Cons x xs)
    let ?m = "m(d := x)"
    have s: "unat (s + 1) = Suc (unat s)" using unat_next [of s "Suc (length xs)"] Cons.prems(2) by simp
    have "\<not> in_block (s + 1) (Suc (length xs)) d" using Cons.prems(4) s by (auto simp: in_block_def)
    then have str: "str_at ?m (s + 1) xs" using str_at_upd [of "s + 1" xs d m x] Cons.prems(1,2) s by simp
    have "strcpy_loop (d + 1) (s + 1) ?m = Some (put_block (d + 1) xs ?m)"
    proof (cases xs)
      case Nil
      then show ?thesis using str by (simp add: strcpy_loop.simps [of "d + 1"])
    next
      case (Cons y ys)
      then have "unat (d + 1) = Suc (unat d)" using unat_next [of d "length xs"] Cons.prems(3) by simp
      then show ?thesis using Cons.prems s by (intro Cons.IH [OF str]) auto
    qed
    then show ?case using Cons.prems put_block_Cons [of d xs x m] by (simp add: strcpy_loop.simps [of d s m])
  qed
  then show ?thesis by (simp add: sbi_strcpy_def)
qed

end
