(* ===== verification/Pstree.thy ===== *)
theory Pstree
  imports Prelude "HOL-Library.Multiset"
begin

text \<open>
  The process tree printer (\<open>minilab/pstree/pstree.c\<close>).  The directory \<open>/proc\<close> is the list of names \<open>readdir\<close> gives and
  a function from paths to file contents; a process that is gone has no file.  Calls of \<open>malloc\<close> for the strings
  succeed, as the program assumes.  The text a run prints to its standard output is part of its result.
\<close>

section \<open>Data\<close>

record ProcessNode =
  pid :: string
  ppid :: string

text \<open>\<open>count\<close> is the length of the list.\<close>

record ProcessTree =
  processes :: "ProcessNode list"

abbreviation NL :: char where "NL \<equiv> CHR 0x0A"
abbreviation TAB :: char where "TAB \<equiv> CHR 0x09"
abbreviation NUL :: char where "NUL \<equiv> CHR 0x00"

text \<open>
  Ways a run can go wrong: a write behind the array \<open>children\<close>, a value \<open>int\<close> cannot hold in the comparison, and a recursion that
  does not end (the model stops it after a number of nested calls).
\<close>

datatype pstree_error = Children_overflow | Int_overflow | No_return

section \<open>C library\<close>

definition isdigit :: "char \<Rightarrow> bool" where
  "isdigit c \<longleftrightarrow> (48 :: nat) \<le> of_char c \<and> of_char c \<le> (57 :: nat)"

text \<open>The string a character array holds.\<close>

definition cstr :: "string \<Rightarrow> string" where
  "cstr s = takeWhile (\<lambda>c. c \<noteq> NUL) s"

fun take_line :: "nat \<Rightarrow> string \<Rightarrow> string \<times> string" where
  "take_line 0 s = ([], s)"
| "take_line (Suc n) [] = ([], [])"
| "take_line (Suc n) (c # s) =
     (if c = NL then ([c], s) else case take_line n s of (l, r) \<Rightarrow> (c # l, r))"

definition fgets :: "nat \<Rightarrow> string \<Rightarrow> (string \<times> string) option" where
  "fgets n s = (if s = [] then None else Some (take_line (n - 1) s))"

definition strncmp_eq :: "string \<Rightarrow> string \<Rightarrow> nat \<Rightarrow> bool" where
  "strncmp_eq a b n \<longleftrightarrow> take n (cstr a) = take n (cstr b)"

definition snprintf_s :: "nat \<Rightarrow> string \<Rightarrow> string" where
  "snprintf_s n s = take (n - 1) s"

definition cut_newline :: "string \<Rightarrow> string" where
  "cut_newline s = takeWhile (\<lambda>c. c \<noteq> NL) s"

text \<open>\<open>atoi\<close>; \<open>None\<close> when the value is not an \<open>int\<close>.\<close>

fun digits :: "nat \<Rightarrow> string \<Rightarrow> nat" where
  "digits v [] = v"
| "digits v (c # s) = (if isdigit c then digits (10 * v + (of_char c - 48)) s else v)"

definition isspace :: "char \<Rightarrow> bool" where
  "isspace c \<longleftrightarrow> c = CHR '' '' \<or> ((9 :: nat) \<le> of_char c \<and> of_char c \<le> (13 :: nat))"

definition atoi :: "string \<Rightarrow> int option" where
  "atoi s =
     (case dropWhile isspace s of
        [] \<Rightarrow> Some 0
      | c # r \<Rightarrow>
          let v = (if c = CHR ''-'' then - int (digits 0 r) else if c = CHR ''+'' then int (digits 0 r) else int (digits 0 (c # r))) in
          if - 2147483648 \<le> v \<and> v \<le> 2147483647 then Some v else None)"

section \<open>Reading the processes\<close>

definition field_value :: "nat \<Rightarrow> string \<Rightarrow> string" where
  "field_value n line = cut_newline (snprintf_s 32 (dropWhile (\<lambda>c. c = CHR '' '' \<or> c = TAB) (drop n (cstr line))))"

definition status_line :: "string \<Rightarrow> string \<times> string \<Rightarrow> string \<times> string" where
  "status_line line s =
     (case s of (pid_str, ppid_str) \<Rightarrow>
        if strncmp_eq line ''Pid:'' 4 then (field_value 4 line, ppid_str)
        else if strncmp_eq line ''PPid:'' 5 then (pid_str, field_value 5 line)
        else (pid_str, ppid_str))"

lemma take_line_append: "take_line n s = (l, r) \<Longrightarrow> s = l @ r"
  by (induction n s arbitrary: l r rule: take_line.induct) (auto split: if_splits prod.splits)

lemma take_line_shorter: "take_line (Suc n) s = (l, r) \<Longrightarrow> s \<noteq> [] \<Longrightarrow> length r < length s"
  using take_line_append [of "Suc n" s l r] by (cases s) (auto split: if_splits prod.splits)

function read_status :: "string \<Rightarrow> string \<times> string \<Rightarrow> string \<times> string" where
  "read_status s ps =
     (case fgets 256 s of
        None \<Rightarrow> ps
      | Some (line, rest) \<Rightarrow>
          let ps = status_line line ps in
          if fst ps \<noteq> [] \<and> snd ps \<noteq> [] then ps else read_status rest ps)"
  by pat_completeness auto
termination
proof (relation "measure (\<lambda>(s, ps). length s)", goal_cases)
  case (2 s ps p line rest ps')
  then have "take_line (Suc 254) s = (line, rest)" "s \<noteq> []" by (auto simp: fgets_def split: if_splits)
  then show ?case using take_line_shorter [of 254 s line rest] by simp
qed simp

declare read_status.simps [simp del]

fun scan_proc :: "(string \<Rightarrow> string option) \<Rightarrow> string list \<Rightarrow> ProcessTree \<Rightarrow> ProcessTree" where
  "scan_proc fs [] tree = tree"
| "scan_proc fs (name # names) tree =
     (if \<not> list_all isdigit name \<or> 240 < length name then scan_proc fs names tree
      else case fs (''/proc/'' @ name @ ''/status'') of
        None \<Rightarrow> scan_proc fs names tree
      | Some text \<Rightarrow>
          (case read_status text ([], []) of (pid_str, ppid_str) \<Rightarrow>
             if pid_str \<noteq> [] \<and> ppid_str \<noteq> [] then
               let tree = tree\<lparr>processes := processes tree @ [\<lparr>pid = pid_str, ppid = ppid_str\<rparr>]\<rparr> in
               if 10000 \<le> length (processes tree) then tree else scan_proc fs names tree
             else scan_proc fs names tree))"

definition GetProcessids :: "string list option \<Rightarrow> (string \<Rightarrow> string option) \<Rightarrow> ProcessTree \<Rightarrow> bool \<times> ProcessTree" where
  "GetProcessids dir fs tree = (case dir of None \<Rightarrow> (False, tree) | Some names \<Rightarrow> (True, scan_proc fs names tree))"

section \<open>Printing\<close>

definition FindProcessByPid :: "ProcessTree \<Rightarrow> string \<Rightarrow> ProcessNode option" where
  "FindProcessByPid tree x = find (\<lambda>p. pid p = x) (processes tree)"

definition GetChildren :: "ProcessTree \<Rightarrow> string \<Rightarrow> ProcessNode list" where
  "GetChildren tree parent_pid = filter (\<lambda>p. ppid p = parent_pid) (processes tree)"

text \<open>\<open>compare_pids\<close>; \<open>None\<close> when a value or the difference is not an \<open>int\<close>.\<close>

definition compare_pids :: "ProcessNode \<Rightarrow> ProcessNode \<Rightarrow> int option" where
  "compare_pids a b =
     (case (atoi (pid a), atoi (pid b)) of
        (Some x, Some y) \<Rightarrow> if - 2147483648 \<le> x - y \<and> x - y \<le> 2147483647 then Some (x - y) else None
      | _ \<Rightarrow> None)"

text \<open>\<open>qsort\<close> with this comparison; nothing is compared when there is at most one element, and equal elements keep their order, as with the merge sort of the C library.\<close>

definition sort_children :: "ProcessNode list \<Rightarrow> ProcessNode list option" where
  "sort_children cs =
     (if length cs \<le> 1 then Some cs
      else if list_all (\<lambda>a. list_all (\<lambda>b. compare_pids a b \<noteq> None) cs) cs then Some (sort_key (\<lambda>p. the (atoi (pid p))) cs)
      else None)"

definition process_name :: "(string \<Rightarrow> string option) \<Rightarrow> string \<Rightarrow> string" where
  "process_name fs x =
     (let name = (case fs (''/proc/'' @ x @ ''/comm'') of
                    None \<Rightarrow> []
                  | Some text \<Rightarrow> (case fgets 256 text of None \<Rightarrow> [] | Some (line, _) \<Rightarrow> cut_newline (cstr line)))
      in if name = [] then ''unknown'' else name)"

definition show_process :: "(string \<Rightarrow> string option) \<Rightarrow> bool \<Rightarrow> nat \<Rightarrow> ProcessNode \<Rightarrow> string" where
  "show_process fs show_pids depth p =
     concat (replicate depth ''  '') @ process_name fs (pid p) @ (if show_pids then ''('' @ pid p @ '')'' else []) @ [NL]"

primrec collect :: "(pstree_error + string) list \<Rightarrow> pstree_error + string" where
  "collect [] = Inr []"
| "collect (x # xs) = (case x of Inl e \<Rightarrow> Inl e | Inr text \<Rightarrow> (case collect xs of Inl e \<Rightarrow> Inl e | Inr rest \<Rightarrow> Inr (text @ rest)))"

text \<open>At most \<open>calls\<close> calls are nested.\<close>

primrec PrintProcessTree :: "nat \<Rightarrow> (string \<Rightarrow> string option) \<Rightarrow> ProcessTree \<Rightarrow> string \<Rightarrow> nat \<Rightarrow> bool \<Rightarrow> pstree_error + string" where
  "PrintProcessTree 0 fs tree root_pid depth show_pids = Inl No_return"
| "PrintProcessTree (Suc calls) fs tree root_pid depth show_pids =
     (case FindProcessByPid tree root_pid of
        None \<Rightarrow> Inr []
      | Some root \<Rightarrow>
          let children = GetChildren tree root_pid in
          if 1000 < length children then Inl Children_overflow
          else (case sort_children children of
            None \<Rightarrow> Inl Int_overflow
          | Some children \<Rightarrow>
              collect (Inr (show_process fs show_pids depth root) #
                map (\<lambda>c. PrintProcessTree calls fs tree (pid c) (Suc depth) show_pids) children)))"

definition FindRootProcess :: "ProcessTree \<Rightarrow> string option" where
  "FindRootProcess tree =
     (case FindProcessByPid tree ''1'' of
        Some p \<Rightarrow> Some (pid p)
      | None \<Rightarrow> map_option pid (find (\<lambda>p. ppid p = ''0'') (processes tree)))"

definition FreeProcessTree :: "ProcessTree \<Rightarrow> ProcessTree" where
  "FreeProcessTree tree = tree\<lparr>processes := []\<rparr>"

section \<open>The program\<close>

definition print_help :: "string \<Rightarrow> string" where
  "print_help program_name =
     ''Usage: '' @ program_name @ '' [OPTION]...'' @ [NL] @
     ''Display a tree of processes.'' @ [NL, NL] @
     ''Options:'' @ [NL] @
     ''  -p, --show-pids        show PIDs; implies -c'' @ [NL] @
     ''  -n, --numeric-sort     sort output by PID'' @ [NL] @
     ''  -V, --version          output version information and exit'' @ [NL] @
     ''  -h, --help             display this help and exit'' @ [NL] @
     [NL] @ ''Report bugs to the maintainer.'' @ [NL]"

definition print_version :: string where
  "print_version =
     ''pstree (PSmisc) JYYOS'' @ [NL] @
     ''Copyright (C) 2025 JYYOS Project'' @ [NL] @
     ''This is free software; see the source for copying conditions.'' @ [NL] @
     ''There is NO warranty; not even for MERCHANTABILITY or FITNESS FOR A'' @ [NL] @
     ''PARTICULAR PURPOSE.'' @ [NL]"

record pstree_options =
  opt_pids :: bool
  opt_sort :: bool
  opt_version :: bool
  opt_help :: bool

text \<open>The loop over what \<open>getopt_long\<close> returns, up to its \<open>-1\<close>; \<open>None\<close> when the program exits with a usage message.\<close>

fun parse_options :: "string \<Rightarrow> pstree_options \<Rightarrow> pstree_options option" where
  "parse_options [] os = Some os"
| "parse_options (opt # opts) os =
     (if opt = CHR ''p'' then parse_options opts (os\<lparr>opt_pids := True\<rparr>)
      else if opt = CHR ''n'' then parse_options opts (os\<lparr>opt_sort := True\<rparr>)
      else if opt = CHR ''V'' then parse_options opts (os\<lparr>opt_version := True\<rparr>)
      else if opt = CHR ''h'' then parse_options opts (os\<lparr>opt_help := True\<rparr>)
      else None)"

text \<open>
  The exit status and the output.  \<open>opts\<close> is what \<open>getopt_long\<close> returns for the arguments, \<open>extra\<close> whether operands are left,
  \<open>table\<close> whether the array for the processes can be allocated; \<open>fs\<close> and \<open>fs'\<close> are the files while the processes are read
  and while they are printed.
\<close>

definition pstree_main ::
  "nat \<Rightarrow> string \<Rightarrow> string \<Rightarrow> bool \<Rightarrow> bool \<Rightarrow> string list option \<Rightarrow> (string \<Rightarrow> string option) \<Rightarrow> (string \<Rightarrow> string option) \<Rightarrow>
   pstree_error + (int \<times> string)" where
  "pstree_main calls argv0 opts extra table dir fs fs' =
     (case parse_options opts \<lparr>opt_pids = False, opt_sort = False, opt_version = False, opt_help = False\<rparr> of
        None \<Rightarrow> Inr (1, [])
      | Some os \<Rightarrow>
          if opt_help os then Inr (0, print_help argv0)
          else if opt_version os then Inr (0, print_version)
          else if extra then Inr (1, [])
          else if \<not> table then Inr (1, [])
          else (case GetProcessids dir fs \<lparr>processes = []\<rparr> of (ok, tree) \<Rightarrow>
            if \<not> ok then Inr (1, [])
            else (case FindRootProcess tree of
              None \<Rightarrow> Inr (1, [])
            | Some root_pid \<Rightarrow>
                (case PrintProcessTree calls fs' tree root_pid 0 (opt_pids os) of
                   Inl e \<Rightarrow> Inl e
                 | Inr out \<Rightarrow> Inr (0, out)))))"

section \<open>Reading back a status file\<close>

text \<open>A status file as a list of fields.\<close>

definition field_line :: "string \<times> string \<Rightarrow> string" where
  "field_line kv = fst kv @ '':'' @ [TAB] @ snd kv @ [NL]"

definition field_ok :: "string \<times> string \<Rightarrow> bool" where
  "field_ok kv \<longleftrightarrow> set (fst kv) \<inter> {NUL, NL, CHR '':''} = {} \<and> set (snd kv) \<inter> {NUL, NL} = {} \<and> length (field_line kv) \<le> 255"

definition number_ok :: "string \<Rightarrow> bool" where
  "number_ok v \<longleftrightarrow> v \<noteq> [] \<and> length v \<le> 31 \<and> hd v \<noteq> CHR '' '' \<and> hd v \<noteq> TAB"

lemma take_whole_line: "NL \<notin> set xs \<Longrightarrow> length xs < n \<Longrightarrow> take_line n (xs @ NL # rest) = (xs @ [NL], rest)"
proof (induction xs arbitrary: n)
  case Nil
  then show ?case by (cases n) auto
next
  case (Cons x xs)
  then show ?case by (cases n) auto
qed

lemma key_match:
  "CHR '':'' \<notin> set k \<Longrightarrow> CHR '':'' \<notin> set key \<Longrightarrow> take (Suc (length key)) (k @ CHR '':'' # rest) = key @ '':'' \<longleftrightarrow> k = key"
proof (induction key arbitrary: k)
  case Nil
  then show ?case by (cases k) auto
next
  case (Cons c key)
  then show ?case by (cases k) auto
qed

lemma field_line_cstr: "field_ok kv \<Longrightarrow> cstr (field_line kv) = field_line kv"
  unfolding cstr_def takeWhile_eq_all_conv by (auto simp: field_line_def field_ok_def)

lemma field_match:
  assumes "field_ok kv" "key \<in> {''Pid'', ''PPid''}"
  shows "strncmp_eq (field_line kv) (key @ '':'') (Suc (length key)) \<longleftrightarrow> fst kv = key"
proof -
  have "cstr (key @ '':'') = key @ '':''" "CHR '':'' \<notin> set key" "CHR '':'' \<notin> set (fst kv)" using assms by (auto simp: cstr_def field_ok_def)
  then show ?thesis
    using key_match [of "fst kv" key "TAB # snd kv @ [NL]"] field_line_cstr [OF assms(1)] by (simp add: strncmp_eq_def) (simp add: field_line_def)
qed

lemma field_line_value:
  assumes "field_ok (key, v)" "number_ok v"
  shows "field_value (Suc (length key)) (field_line (key, v)) = v"
proof -
  have "dropWhile (\<lambda>c. c = CHR '' '' \<or> c = TAB) (TAB # v @ [NL]) = v @ [NL]" using assms(2) by (cases v) (auto simp: number_ok_def)
  moreover have "takeWhile (\<lambda>c. c \<noteq> NL) (take 31 (v @ [NL])) = v"
  proof -
    have "\<And>c. c \<in> set v \<Longrightarrow> c \<noteq> NL" "length v \<le> 31" using assms by (auto simp: number_ok_def field_ok_def)
    then show ?thesis by (cases "31 - length v") (simp_all add: takeWhile_append2)
  qed
  ultimately show ?thesis
    using field_line_cstr [OF assms(1)] by (simp add: field_value_def cut_newline_def snprintf_s_def) (simp add: field_line_def)
qed

text \<open>One step of the loop, on the line of a field.\<close>

lemma status_field:
  assumes "field_ok kv" "fst kv \<in> {''Pid'', ''PPid''} \<Longrightarrow> number_ok (snd kv)"
  shows "status_line (field_line kv) (p, q) = (if fst kv = ''Pid'' then snd kv else p, if fst kv = ''PPid'' then snd kv else q)"
  using field_match [OF assms(1), of "''Pid''"] field_match [OF assms(1), of "''PPid''"] assms
    field_line_value [of "''Pid''" "snd kv"] field_line_value [of "''PPid''" "snd kv"]
  by (cases kv) (auto simp: status_line_def numeral_eq_Suc)

lemma fgets_field: "field_ok kv \<Longrightarrow> fgets 256 (field_line kv @ rest) = Some (field_line kv, rest)"
  using take_whole_line [of "fst kv @ '':'' @ [TAB] @ snd kv" 255 rest] by (auto simp: fgets_def field_line_def field_ok_def)

lemma read_fields:
  assumes "\<forall>kv \<in> set fls. field_ok kv \<and> (fst kv \<in> {''Pid'', ''PPid''} \<longrightarrow> number_ok (snd kv))" "distinct (map fst fls)"
    "p \<noteq> [] \<Longrightarrow> ''Pid'' \<notin> fst ` set fls" "q \<noteq> [] \<Longrightarrow> ''PPid'' \<notin> fst ` set fls"
  shows "read_status (concat (map field_line fls)) (p, q) =
    (case map_of fls ''Pid'' of None \<Rightarrow> p | Some v \<Rightarrow> v, case map_of fls ''PPid'' of None \<Rightarrow> q | Some v \<Rightarrow> v)"
  using assms
proof (induction fls arbitrary: p q)
  case Nil
  show ?case by (subst read_status.simps) (simp add: fgets_def)
next
  case (Cons kv fls)
  obtain k v where kv: "kv = (k, v)" by (cases kv)
  let ?p = "if k = ''Pid'' then v else p" and ?q = "if k = ''PPid'' then v else q"
  have ok: "field_ok kv" "k \<in> {''Pid'', ''PPid''} \<Longrightarrow> number_ok v" using Cons.prems(1) kv by auto
  have st: "read_status (concat (map field_line (kv # fls))) (p, q) =
      (if ?p \<noteq> [] \<and> ?q \<noteq> [] then (?p, ?q) else read_status (concat (map field_line fls)) (?p, ?q))"
    using fgets_field [OF ok(1)] status_field [OF ok(1), of p q] ok(2) kv by (subst read_status.simps) simp
  have new: "k \<notin> fst ` set fls" using Cons.prems(2) kv by simp
  have "read_status (concat (map field_line fls)) (?p, ?q) =
      (case map_of fls ''Pid'' of None \<Rightarrow> ?p | Some v \<Rightarrow> v, case map_of fls ''PPid'' of None \<Rightarrow> ?q | Some v \<Rightarrow> v)"
    using Cons.prems new kv by (intro Cons.IH) (auto split: if_splits)
  moreover have "?p \<noteq> [] \<Longrightarrow> map_of fls ''Pid'' = None" "?q \<noteq> [] \<Longrightarrow> map_of fls ''PPid'' = None"
    using Cons.prems(3,4) new kv by (auto simp: map_of_eq_None_iff split: if_splits)
  ultimately show ?case
    using st new kv map_of_eq_None_iff [of fls k] by (auto split: option.splits)
qed

lemma read_fields_both:
  assumes "\<forall>kv \<in> set fls. field_ok kv" "distinct (map fst fls)"
    and "map_of fls ''Pid'' = Some p" "number_ok p" "map_of fls ''PPid'' = Some q" "number_ok q"
  shows "read_status (concat (map field_line fls)) ([], []) = (p, q)"
proof -
  have "number_ok v" if "(k, v) \<in> set fls" "k \<in> {''Pid'', ''PPid''}" for k v
    using map_of_is_SomeI [OF assms(2) that(1)] that(2) assms(3-6) by auto
  then have "\<forall>kv \<in> set fls. field_ok kv \<and> (fst kv \<in> {''Pid'', ''PPid''} \<longrightarrow> number_ok (snd kv))" using assms(1) by auto
  from read_fields [OF this assms(2), of "[]" "[]"] show ?thesis using assms(3,5) by simp
qed

text \<open>
  Reading a status file gives back the numbers it was written with: for every file of fields with different names, on lines of
  at most 255 characters, the scan returns the values of the fields \<open>Pid\<close> and \<open>PPid\<close>, wherever they stand.
\<close>

lemma read_status_roundtrip:
  assumes "\<forall>kv \<in> set fls. field_ok kv" "distinct (map fst fls)"
    and "map_of fls ''Pid'' = Some p" "number_ok p" "map_of fls ''PPid'' = Some q" "number_ok q"
  shows "read_status (concat (map field_line fls)) ([], []) = (p, q)"
  by (rule read_fields_both [OF assms])

section \<open>The tree below a process\<close>

text \<open>\<open>at_depth ps r d p\<close>: process \<open>p\<close> of the table is \<open>d\<close> generations below \<open>r\<close>.\<close>

inductive at_depth :: "ProcessNode list \<Rightarrow> ProcessNode \<Rightarrow> nat \<Rightarrow> ProcessNode \<Rightarrow> bool" for ps r where
  top: "at_depth ps r 0 r"
| child: "at_depth ps r d p \<Longrightarrow> q \<in> set ps \<Longrightarrow> ppid q = pid p \<Longrightarrow> at_depth ps r (Suc d) q"

inductive_simps at_depth_0 [simp]: "at_depth ps r 0 p"
inductive_cases at_depth_SucE: "at_depth ps r (Suc d) q"

datatype ptree = PNode (ptop: ProcessNode) (subtrees: "ptree list")

fun tree_rows :: "nat \<Rightarrow> ptree \<Rightarrow> (nat \<times> ProcessNode) list" where
  "tree_rows d (PNode p ts) = (d, p) # concat (map (tree_rows (Suc d)) ts)"

text \<open>The tree of a table: below each process all its children, in the order of their numbers.\<close>

inductive proc_tree :: "ProcessNode list \<Rightarrow> ptree \<Rightarrow> bool" for ps where
  node: "map ptop ts = sort_key (\<lambda>q. the (atoi (pid q))) (filter (\<lambda>q. ppid q = pid p) ps) \<Longrightarrow> (\<forall>t \<in> set ts. proc_tree ps t) \<Longrightarrow>
    proc_tree ps (PNode p ts)"

text \<open>A table in which every process has its own number, and the parent of \<open>r\<close> is not listed.\<close>

definition rooted :: "ProcessNode list \<Rightarrow> ProcessNode \<Rightarrow> bool" where
  "rooted ps r \<longleftrightarrow> distinct (map pid ps) \<and> r \<in> set ps \<and> ppid r \<notin> pid ` set ps"

definition printable :: "ProcessNode list \<Rightarrow> bool" where
  "printable ps \<longleftrightarrow> (\<forall>p \<in> set ps. length (filter (\<lambda>q. ppid q = pid p) ps) \<le> 1000) \<and>
     (\<forall>p \<in> set ps. \<exists>n. atoi (pid p) = Some n \<and> 0 \<le> n)"

lemma pid_inj: "distinct (map pid ps) \<Longrightarrow> p \<in> set ps \<Longrightarrow> q \<in> set ps \<Longrightarrow> pid p = pid q \<Longrightarrow> p = q"
  by (auto simp: distinct_map inj_on_def)

lemma at_depth_in: "at_depth ps r d p \<Longrightarrow> r \<in> set ps \<Longrightarrow> p \<in> set ps"
  by (erule at_depth.cases) auto

lemma at_depth_front:
  "at_depth ps p (Suc k) q \<longleftrightarrow> (\<exists>c \<in> set ps. ppid c = pid p \<and> at_depth ps c k q)"
proof (induction k arbitrary: q)
  case 0
  show ?case by (auto elim: at_depth_SucE intro: at_depth.intros)
next
  case (Suc k)
  show ?case using Suc by (auto elim!: at_depth_SucE intro: at_depth.child) (meson at_depth.child)+
qed

lemma at_depth_trans: "at_depth ps r d p \<Longrightarrow> at_depth ps p k q \<Longrightarrow> at_depth ps r (d + k) q"
  by (induction k arbitrary: q) (auto elim!: at_depth_SucE intro: at_depth.child)

lemma depth_unique:
  assumes "rooted ps r" "at_depth ps r d p" "at_depth ps r e p"
  shows "d = e"
  using assms(2,3)
proof (induction d arbitrary: p e)
  case 0
  show ?case
  proof (cases e)
    case (Suc k)
    then obtain q where "at_depth ps r k q" "ppid r = pid q" using 0 by (auto elim: at_depth_SucE)
    then show ?thesis using assms(1) at_depth_in [of ps r k q] by (auto simp: rooted_def)
  qed simp
next
  case (Suc d)
  obtain q where q: "at_depth ps r d q" "ppid p = pid q" using Suc.prems(1) by (auto elim: at_depth_SucE)
  have in_ps: "at_depth ps r k x \<Longrightarrow> x \<in> set ps" for k x using assms(1) at_depth_in by (auto simp: rooted_def)
  show ?case
  proof (cases e)
    case 0
    then show ?thesis using Suc.prems(2) q assms(1) in_ps [of d q] by (auto simp: rooted_def)
  next
    case (Suc k)
    then obtain q' where q': "at_depth ps r k q'" "ppid p = pid q'" using Suc.prems(2) by (auto elim: at_depth_SucE)
    then have "q' = q" using q in_ps assms(1) pid_inj [of ps q q'] by (auto simp: rooted_def)
    then show ?thesis using Suc.IH [OF q(1)] q'(1) Suc by simp
  qed
qed

lemma same_ancestor:
  assumes "distinct (map pid ps)" "c \<in> set ps" "c' \<in> set ps" "at_depth ps c k q" "at_depth ps c' k q"
  shows "c = c'"
  using assms(4,5)
proof (induction k arbitrary: q)
  case (Suc k)
  obtain p p' where p: "at_depth ps c k p" "at_depth ps c' k p'" "ppid q = pid p" "ppid q = pid p'"
    using Suc.prems by (auto elim!: at_depth_SucE)
  then have "p = p'" using at_depth_in assms(2,3) by (intro pid_inj [OF assms(1)]) auto
  then show ?case using Suc.IH p by simp
qed simp

text \<open>No process is deeper than the table is long.\<close>

lemma depth_bound:
  assumes "rooted ps r" "at_depth ps r d p"
  shows "d < length ps"
proof -
  have "\<exists>q. at_depth ps r i q" if "i \<le> d" for i
    using assms(2) that
  proof (induction d arbitrary: p)
    case (Suc d)
    then show ?case by (cases "i = Suc d") (auto elim: at_depth_SucE)
  qed auto
  then obtain f where f: "\<And>i. i \<le> d \<Longrightarrow> at_depth ps r i (f i)" by metis
  have "inj_on f {..d}" using f depth_unique [OF assms(1)] by (metis atMost_iff inj_onI)
  moreover have "f ` {..d} \<subseteq> set ps" using f at_depth_in assms(1) unfolding rooted_def by blast
  ultimately have "card {..d} \<le> card (set ps)" by (metis List.finite_set card_inj_on_le)
  then show ?thesis using card_length [of ps] by simp
qed

lemma tree_rows_set: "proc_tree ps t \<Longrightarrow> set (tree_rows d t) = {(d + k, q) |k q. at_depth ps (ptop t) k q}"
proof (induction arbitrary: d rule: proc_tree.induct)
  case (node ts p)
  have tops: "ptop ` set ts = {c \<in> set ps. ppid c = pid p}" using arg_cong [OF node(1), of set] by auto
  have "(\<Union>t \<in> set ts. set (tree_rows (Suc d) t)) = {(Suc d + k, q) |k q. \<exists>c \<in> ptop ` set ts. at_depth ps c k q}"
    using node(2) by auto
  also have "\<dots> = {(d + Suc k, q) |k q. at_depth ps p (Suc k) q}" unfolding tops at_depth_front by auto
  finally have sub: "(\<Union>t \<in> set ts. set (tree_rows (Suc d) t)) = {(d + Suc k, q) |k q. at_depth ps p (Suc k) q}" .
  have "{(d + k, q) |k q. at_depth ps p k q} = insert (d, p) {(d + Suc k, q) |k q. at_depth ps p (Suc k) q}"
  proof (intro set_eqI iffI)
    fix x assume "x \<in> {(d + k, q) |k q. at_depth ps p k q}"
    then obtain k q where "x = (d + k, q)" "at_depth ps p k q" by blast
    then show "x \<in> insert (d, p) {(d + Suc k, q) |k q. at_depth ps p (Suc k) q}" by (cases k) auto
  qed force
  then show ?case using sub by simp
qed

lemma distinct_concat_map_iff:
  "distinct ts \<Longrightarrow> (\<And>t. t \<in> set ts \<Longrightarrow> distinct (f t)) \<Longrightarrow>
    (\<And>t t'. t \<in> set ts \<Longrightarrow> t' \<in> set ts \<Longrightarrow> t \<noteq> t' \<Longrightarrow> set (f t) \<inter> set (f t') = {}) \<Longrightarrow> distinct (concat (map f ts))"
  by (induction ts) auto

lemma tree_rows_distinct:
  assumes "rooted ps r" "proc_tree ps t" "at_depth ps r e (ptop t)"
  shows "distinct (map snd (tree_rows d t))"
  using assms(2,3)
proof (induction arbitrary: d e rule: proc_tree.induct)
  case (node ts p)
  have d: "distinct (map pid ps)" using assms(1) by (simp add: rooted_def)
  have "distinct (map ptop ts)" using node(1) d by (simp add: distinct_map)
  then have ts: "distinct ts" "inj_on ptop (set ts)" by (simp_all add: distinct_map)
  have tops: "ptop t \<in> set ps" "ppid (ptop t) = pid p" if "t \<in> set ts" for t using arg_cong [OF node(1), of set] that by auto
  have dep: "at_depth ps r (Suc e) (ptop t)" if "t \<in> set ts" for t using node(3) tops [OF that] at_depth.child by auto
  have sub: "snd ` set (tree_rows n t) = {q. \<exists>k. at_depth ps (ptop t) k q}" if "t \<in> set ts" for t n
    using tree_rows_set [of ps t n] node(2) that by (force simp: image_iff)
  have "p \<notin> snd ` set (tree_rows (Suc d) t)" if t: "t \<in> set ts" for t
  proof
    assume "p \<in> snd ` set (tree_rows (Suc d) t)"
    then obtain k where "at_depth ps (ptop t) k p" unfolding sub [OF t] by blast
    then show False using depth_unique [OF assms(1) _ at_depth_trans [OF dep [OF t]], of e p k] node(3) by simp
  qed
  moreover have "snd ` set (tree_rows (Suc d) t) \<inter> snd ` set (tree_rows (Suc d) t') = {}" if t: "t \<in> set ts" "t' \<in> set ts" "t \<noteq> t'" for t t'
  proof (rule ccontr)
    assume "\<not> ?thesis"
    then obtain q k k' where q: "at_depth ps (ptop t) k q" "at_depth ps (ptop t') k' q" unfolding sub [OF t(1)] sub [OF t(2)] by auto
    have "k = k'" using depth_unique [OF assms(1) at_depth_trans [OF dep [OF t(1)] q(1)] at_depth_trans [OF dep [OF t(2)] q(2)]] by simp
    then show False using same_ancestor [OF d tops(1) [OF t(1)] tops(1) [OF t(2)] q(1)] q(2) ts(2) t by (auto simp: inj_on_def)
  qed
  moreover have "distinct (map snd (tree_rows (Suc d) t))" if "t \<in> set ts" for t using node(2) dep that by auto
  ultimately show ?case using ts(1) by (simp add: map_concat comp_def distinct_concat_map_iff)
qed

section \<open>What is printed\<close>

definition show_rows :: "(string \<Rightarrow> string option) \<Rightarrow> bool \<Rightarrow> (nat \<times> ProcessNode) list \<Rightarrow> string" where
  "show_rows fs sp rs = concat (map (\<lambda>(d, p). show_process fs sp d p) rs)"

lemma show_rows_simps [simp]:
  "show_rows fs sp [] = []" "show_rows fs sp ((d, p) # rs) = show_process fs sp d p @ show_rows fs sp rs"
  "show_rows fs sp (xs @ ys) = show_rows fs sp xs @ show_rows fs sp ys"
  by (simp_all add: show_rows_def)

lemma collect_rows:
  "(\<And>c. c \<in> set cs \<Longrightarrow> f c = Inr (show_rows fs sp (g c))) \<Longrightarrow> collect (map f cs) = Inr (show_rows fs sp (concat (map g cs)))"
  by (induction cs) auto

lemma find_pid: "distinct (map pid ps) \<Longrightarrow> p \<in> set ps \<Longrightarrow> FindProcessByPid \<lparr>processes = ps\<rparr> (pid p) = Some p"
  by (induction ps) (auto simp: FindProcessByPid_def)

lemma sort_children_ok:
  assumes "printable ps"
  shows "sort_children (filter P ps) = Some (sort_key (\<lambda>p. the (atoi (pid p))) (filter P ps))"
proof -
  have n: "\<exists>n. atoi (pid p) = Some n \<and> 0 \<le> n \<and> n \<le> 2147483647" if p: "p \<in> set ps" for p
  proof -
    obtain n where "atoi (pid p) = Some n" "0 \<le> n" using assms p unfolding printable_def by blast
    then show ?thesis by (auto simp: atoi_def Let_def split: list.splits if_splits)
  qed
  have "compare_pids a b \<noteq> None" if ab: "a \<in> set ps" "b \<in> set ps" for a b
    using n [OF ab(1)] n [OF ab(2)] by (auto simp: compare_pids_def)
  moreover have "length xs \<le> 1 \<Longrightarrow> sort_key f xs = xs" for xs :: "ProcessNode list" and f :: "ProcessNode \<Rightarrow> int"
    by (cases xs) auto
  ultimately show ?thesis by (auto simp: sort_children_def list_all_iff)
qed

lemma print_tree:
  assumes r: "rooted ps r" and ok: "printable ps" and p: "at_depth ps r e p" and calls: "length ps \<le> e + calls"
  shows "\<exists>t. PrintProcessTree calls fs \<lparr>processes = ps\<rparr> (pid p) d sp = Inr (show_rows fs sp (tree_rows d t)) \<and> proc_tree ps t \<and> ptop t = p"
  using p calls
proof (induction calls arbitrary: e p d)
  case 0
  then show ?case using depth_bound [OF r 0(1)] by simp
next
  case (Suc calls)
  let ?cs = "sort_key (\<lambda>q. the (atoi (pid q))) (filter (\<lambda>q. ppid q = pid p) ps)"
  have in_ps: "p \<in> set ps" "distinct (map pid ps)" using Suc.prems(1) at_depth_in r by (auto simp: rooted_def)
  have "\<exists>t. PrintProcessTree calls fs \<lparr>processes = ps\<rparr> (pid c) (Suc d) sp = Inr (show_rows fs sp (tree_rows (Suc d) t)) \<and> proc_tree ps t \<and> ptop t = c"
    if "c \<in> set ?cs" for c
    using Suc.IH [of "Suc e" c "Suc d"] that Suc.prems at_depth.child [OF Suc.prems(1), of c] by simp
  then obtain f where f: "\<And>c. c \<in> set ?cs \<Longrightarrow> PrintProcessTree calls fs \<lparr>processes = ps\<rparr> (pid c) (Suc d) sp = Inr (show_rows fs sp (tree_rows (Suc d) (f c)))"
    "\<And>c. c \<in> set ?cs \<Longrightarrow> proc_tree ps (f c) \<and> ptop (f c) = c" by metis
  have "map ptop (map f ?cs) = ?cs" unfolding map_map by (rule map_idI) (use f(2) in auto)
  then have "proc_tree ps (PNode p (map f ?cs))" using f(2) by (intro proc_tree.node) auto
  moreover have "collect (map (\<lambda>c. PrintProcessTree calls fs \<lparr>processes = ps\<rparr> (pid c) (Suc d) sp) ?cs) =
      Inr (show_rows fs sp (concat (map (tree_rows (Suc d)) (map f ?cs))))"
    using collect_rows [of ?cs, OF f(1)] by (simp add: comp_def)
  moreover have "length (filter (\<lambda>q. ppid q = pid p) ps) \<le> 1000" using ok in_ps(1) by (simp add: printable_def)
  ultimately show ?case
    using find_pid [OF in_ps(2,1)] sort_children_ok [OF ok]
    by (intro exI [of _ "PNode p (map f ?cs)"]) (simp add: GetChildren_def Let_def)
qed

text \<open>The printer ends and prints the tree of the root.\<close>

lemma PrintProcessTree_correct:
  assumes "rooted ps r" "printable ps" "length ps \<le> calls"
  shows "\<exists>t. PrintProcessTree calls fs \<lparr>processes = ps\<rparr> (pid r) 0 sp = Inr (show_rows fs sp (tree_rows 0 t)) \<and>
    proc_tree ps t \<and> ptop t = r \<and> distinct (map snd (tree_rows 0 t)) \<and> set (tree_rows 0 t) = {(d, p). at_depth ps r d p}"
proof -
  have top: "at_depth ps r 0 r" by simp
  obtain t where t: "PrintProcessTree calls fs \<lparr>processes = ps\<rparr> (pid r) 0 sp = Inr (show_rows fs sp (tree_rows 0 t))" "proc_tree ps t" "ptop t = r"
    using print_tree [OF assms(1,2) top, of calls fs 0 sp] assms(3) by auto
  then show ?thesis using tree_rows_distinct [OF assms(1) t(2), of 0] tree_rows_set [OF t(2), of 0] by auto
qed

section \<open>The whole program\<close>

text \<open>\<open>/proc\<close> lists the processes \<open>ps\<close> among other names, each with a status file that can be read.\<close>

definition proc_lists :: "string list \<Rightarrow> (string \<Rightarrow> string option) \<Rightarrow> ProcessNode list \<Rightarrow> bool" where
  "proc_lists names fs ps \<longleftrightarrow>
     filter (list_all isdigit) names = map pid ps \<and>
     (\<forall>p \<in> set ps. number_ok (pid p) \<and> number_ok (ppid p) \<and>
        (\<exists>fls. fs (''/proc/'' @ pid p @ ''/status'') = Some (concat (map field_line fls)) \<and> (\<forall>kv \<in> set fls. field_ok kv) \<and>
           distinct (map fst fls) \<and> map_of fls ''Pid'' = Some (pid p) \<and> map_of fls ''PPid'' = Some (ppid p)))"

lemma scan_proc_lists:
  assumes "proc_lists names fs ps" "length acc + length ps \<le> 10000"
  shows "scan_proc fs names \<lparr>processes = acc\<rparr> = \<lparr>processes = acc @ ps\<rparr>"
  using assms
proof (induction names arbitrary: acc ps)
  case (Cons name names)
  show ?case
  proof (cases "list_all isdigit name")
    case False
    then show ?thesis using Cons by (simp add: proc_lists_def)
  next
    case True
    then obtain p qs where ps: "ps = p # qs" "name = pid p" using Cons.prems(1) by (cases ps) (auto simp: proc_lists_def)
    have rest: "proc_lists names fs qs" using Cons.prems(1) ps True by (simp add: proc_lists_def)
    have p: "number_ok (pid p)" "number_ok (ppid p)" using Cons.prems(1) ps by (auto simp: proc_lists_def)
    obtain body where body: "fs (''/proc/'' @ name @ ''/status'') = Some body" "read_status body ([], []) = (pid p, ppid p)"
      using Cons.prems(1) ps read_fields_both [OF _ _ _ p(1) _ p(2)] by (fastforce simp: proc_lists_def)
    have "length name \<le> 240" using p(1) ps(2) by (simp add: number_ok_def)
    moreover have "pid p \<noteq> []" "ppid p \<noteq> []" using p by (simp_all add: number_ok_def)
    moreover have "qs = []" if "10000 \<le> Suc (length acc)" using that Cons.prems(2) ps(1) by (cases qs) simp_all
    moreover have "scan_proc fs names \<lparr>processes = acc @ [p]\<rparr> = \<lparr>processes = (acc @ [p]) @ qs\<rparr>" using Cons.prems(2) ps(1) by (intro Cons.IH [OF rest]) simp
    ultimately show ?thesis using True body ps(1) by (cases p) (auto simp: Let_def)
  qed
qed (simp add: proc_lists_def)

lemma parse_shown: "set opts \<subseteq> {CHR ''p'', CHR ''n''} \<Longrightarrow>
    parse_options opts os = Some (os\<lparr>opt_pids := opt_pids os \<or> CHR ''p'' \<in> set opts, opt_sort := opt_sort os \<or> CHR ''n'' \<in> set opts\<rparr>)"
  by (induction opts arbitrary: os) auto

text \<open>
  C19: the program prints the process tree.  When \<open>/proc\<close> lists processes with readable status files, at most 10000, each with its own
  number and none with more than 1000 children, and process 1 is there with a parent that is not, a run with the options \<open>-p\<close> and \<open>-n\<close> or
  none ends with status 0.  The output is the tree below process 1 in preorder: each descendant is printed exactly
  once, indented by its generation, siblings by increasing number, each below its parent, whatever happens to the processes
  while they are printed.
\<close>

theorem pstree_main_correct:
  assumes proc: "proc_lists names fs ps" "length ps \<le> 10000" and r: "rooted ps r" "pid r = ''1''" "printable ps"
    and opts: "set opts \<subseteq> {CHR ''p'', CHR ''n''}" and calls: "length ps \<le> calls"
  shows "\<exists>t. pstree_main calls argv0 opts False True (Some names) fs fs' = Inr (0, show_rows fs' (CHR ''p'' \<in> set opts) (tree_rows 0 t)) \<and>
    proc_tree ps t \<and> ptop t = r \<and> distinct (map snd (tree_rows 0 t)) \<and> set (tree_rows 0 t) = {(d, p). at_depth ps r d p}"
proof -
  have scan: "scan_proc fs names \<lparr>processes = []\<rparr> = \<lparr>processes = ps\<rparr>" using scan_proc_lists [OF proc(1), of "[]"] proc(2) by simp
  have "FindProcessByPid \<lparr>processes = ps\<rparr> (pid r) = Some r" using find_pid r(1) by (simp add: rooted_def)
  then have "FindRootProcess \<lparr>processes = ps\<rparr> = Some (pid r)" using r(2) by (simp add: FindRootProcess_def)
  moreover obtain t where t: "PrintProcessTree calls fs' \<lparr>processes = ps\<rparr> (pid r) 0 (CHR ''p'' \<in> set opts) =
      Inr (show_rows fs' (CHR ''p'' \<in> set opts) (tree_rows 0 t))" "proc_tree ps t" "ptop t = r" "distinct (map snd (tree_rows 0 t))"
      "set (tree_rows 0 t) = {(d, p). at_depth ps r d p}"
    using PrintProcessTree_correct [OF r(1,3) calls] by blast
  ultimately have "pstree_main calls argv0 opts False True (Some names) fs fs' = Inr (0, show_rows fs' (CHR ''p'' \<in> set opts) (tree_rows 0 t))"
    using scan parse_shown [OF opts] by (simp add: pstree_main_def GetProcessids_def)
  then show ?thesis using t by blast
qed

definition demo_table :: "ProcessNode list" where
  "demo_table = [\<lparr>pid = ''1'', ppid = ''0''\<rparr>, \<lparr>pid = ''30'', ppid = ''1''\<rparr>, \<lparr>pid = ''7'', ppid = ''1''\<rparr>, \<lparr>pid = ''2'', ppid = ''0''\<rparr>]"

definition demo_files :: "string \<Rightarrow> string option" where
  "demo_files path = map_option (\<lambda>p. concat (map field_line [(''Name'', ''x''), (''Pid'', pid p), (''PPid'', ppid p)]))
     (find (\<lambda>p. path = ''/proc/'' @ pid p @ ''/status'') demo_table)"

theorem pstree_main_correct_witness:
  "\<exists>t. pstree_main 4 ''pstree'' ''p'' False True (Some [''self'', ''1'', ''30'', ''7'', ''bus'', ''2'']) demo_files (\<lambda>_. None) =
      Inr (0, show_rows (\<lambda>_. None) True (tree_rows 0 t)) \<and>
     proc_tree demo_table t \<and> (1, \<lparr>pid = ''7'', ppid = ''1''\<rparr>) \<in> set (tree_rows 0 t)"
proof -
  let ?r = "\<lparr>pid = ''1'', ppid = ''0''\<rparr>" and ?names = "[''self'', ''1'', ''30'', ''7'', ''bus'', ''2'']"
  have r: "rooted demo_table ?r" by (simp add: rooted_def demo_table_def)
  have "list_all (\<lambda>p. length (filter (\<lambda>q. ppid q = pid p) demo_table) \<le> 1000 \<and> (case atoi (pid p) of None \<Rightarrow> False | Some n \<Rightarrow> 0 \<le> n)) demo_table"
    by code_simp
  then have p: "printable demo_table" by (auto simp: printable_def list_all_iff split: option.splits)
  have f: "demo_files (''/proc/'' @ pid q @ ''/status'') = Some (concat (map field_line [(''Name'', ''x''), (''Pid'', pid q), (''PPid'', ppid q)]))"
    if "q \<in> set demo_table" for q
    using that by (auto simp: demo_files_def demo_table_def)
  have "filter (list_all isdigit) ?names = map pid demo_table" by code_simp
  moreover have "number_ok (pid q) \<and> number_ok (ppid q) \<and> (\<forall>kv \<in> set [(''Name'', ''x''), (''Pid'', pid q), (''PPid'', ppid q)]. field_ok kv)"
    if "q \<in> set demo_table" for q using that by (auto simp: demo_table_def number_ok_def field_ok_def field_line_def)
  ultimately have l: "proc_lists ?names demo_files demo_table"
    unfolding proc_lists_def using f by fastforce
  have "at_depth demo_table ?r 1 \<lparr>pid = ''7'', ppid = ''1''\<rparr>"
    using at_depth.child [OF at_depth.top, of "\<lparr>pid = ''7'', ppid = ''1''\<rparr>" demo_table ?r] by (simp add: demo_table_def)
  moreover have "length demo_table \<le> 10000" "length demo_table \<le> 4" by (simp_all add: demo_table_def)
  ultimately show ?thesis
    using pstree_main_correct [OF l _ r _ p, of "''p''" 4 "''pstree''" "\<lambda>_. None"] by fastforce
qed

end
