(* ===== verification/Spec2Isabelle.thy ===== *)
theory Spec2Isabelle
  imports Hanoi Rv32ima ShellParse ShellRun Labyrinth SbiFifo SbiHeap SbiHsmStart SbiLocks SbiShootdown SbiTlbQueue SbiTimer SbiFwft SbiSseList SbiString Pstree
begin

text \<open>
  Verification library for the C programs of the \<open>jyyos2025\<close> repository.

  \<^bold>\<open>The programs.\<close>  The repository (paths are relative to \<open>src/\<close>) holds the material of an operating systems course.  Modelled are

  \<^item> three user programs: the labyrinth game (\<open>minilab/labyrinth\<close>), \<open>pstree\<close> (\<open>minilab/pstree\<close>) and the xv6 shell ported to Linux
    (\<open>course_code/lecture_8/sh\<close>);
  \<^item> two programs of the first lectures: the towers of Hanoi as recursion and as an explicit-stack loop (\<open>course_code/lecture_2\<close>) and the instruction set
    simulator mini-rv32ima (\<open>course_code/lecture_1\<close>);
  \<^item> the core of OpenSBI (\<open>course_code/lecture_3/opensbi\<close>, below \<open>lib/sbi\<close> and \<open>include/sbi\<close>), the machine mode firmware: its data structures,
    memory management and protection, locks, interprocessor interrupts, remote fences, hart state management, timer, firmware features, the
    supervisor call dispatcher, the trap handler, and supervisor software events.

  \<^bold>\<open>How the firmware is put together.\<close>  A trap enters \<open>sbi_trap_handler\<close> (SbiTrapHandler), which serves interrupts, emulates accesses, redirects
  what belongs to the supervisor (SbiTrap), or gives an ecall to the dispatcher (SbiEcall).  The dispatcher finds the registered extension and writes
  its results into the frame.  The extensions modelled call the components: interprocessor interrupts (SbiIpi on the device of SbiMswi), remote fences
  (SbiTlb, SbiTlbQueue, SbiShootdown), hart states (SbiHsm, SbiHsmStart), the timer (SbiTimer), features (SbiFwft) and software events (SbiSse and its
  companions).  Those rest on the ring buffer (SbiFifo), bit sets of harts (SbiBits), doubly linked lists (SbiList), scratch memory and the hart tables
  (SbiScratch), the heap (SbiHeap), protection domains (SbiDomain), ticket locks (SbiLocks) and the string functions (SbiString).  At the end of a trap
  the pending software events are injected, so the trap handler depends on SbiSse too.

  \<^bold>\<open>Theories and what they show.\<close>

  \<^item> Prelude: types of the machine, generic lemmas on lists, options and words, and \<open>run\<close>, a loop that may not end, with its rule for measures.
  \<^item> Hanoi (\<open>hanoi-r.c\<close>, \<open>hanoi-nr.c\<close>, \<open>hanoi-o3mini.c\<close>, \<open>hanoi-main.c\<close>): the moves solve the puzzle; the explicit stack version equals the
    recursion; the stack of 64 frames is enough for every disk count that ends at all.
  \<^item> Rv32ima (\<open>mini-rv32ima.h\<close>, \<open>main.c\<close>): every instruction and the trap logic as one step; memory safety and a well-formedness invariant of the step,
    timer interrupt and return, total correctness of the main loop, which executes at most 9999 instructions as \<open>main.c\<close> does.
  \<^item> Shell, ShellParse, ShellRun (\<open>sh.c\<close>, \<open>lib.h\<close>): tokens, recursive descent parser and the in-place termination of strings; the parser always ends
    (fuel of four calls per character and four more is enough), and reads back every printed command tree; the forked processes of a command as a program of system
    calls, run on an abstract kernel with descriptor tables, implement the wiring of pipes and redirections.
  \<^item> Labyrinth (\<open>labyrinth.c\<close>, \<open>labyrinth.h\<close>): moves, connectivity by depth first search (fuel is the number of cells), saving and loading, the contract of \<open>main\<close>.
  \<^item> Pstree (\<open>pstree.c\<close>, \<open>pstree.h\<close>): reading \<open>/proc\<close>, the table of processes and the printed tree; recursion ends because the number of nested calls is
    bounded by the number of processes.
  \<^item> SbiBase, SbiBits, SbiFifo, SbiList, SbiString: error codes; bit operations, bitmaps and hart masks with their searches; the ring buffer as a bounded queue;
    rings of pointers as lists; the memory and string functions on bytes.
  \<^item> SbiScratch, SbiHeap, SbiDomain: the per-hart scratch allocator and hart tables; the heap with its free, used and spare node lists (safety of allocation and
    a tiling invariant); domains with regions, address checks, sanitation and registration.
  \<^item> SbiLocks: ticket locks as a step relation of any number of harts (mutual exclusion, first come first served); wrap-around of the tickets is kept at 16 bits.
  \<^item> SbiHsm, SbiHsmStart: hart state changes, suspend and resume; the start protocol as a step relation of requesters and the target.
  \<^item> SbiIpi, SbiMswi, SbiTlb, SbiTlbQueue, SbiShootdown: events between harts are not lost; a remote fence returns only when every named hart has
    executed it, and always returns; the byte ring of a hart refines a list of requests.
  \<^item> SbiTimer, SbiFwft: the delay loops and the timer event; firmware features as a table of values with locks.
  \<^item> SbiTrap, SbiEcall, SbiTrapHandler: redirection of traps to S, HS and VS mode; the registry and the dispatcher; the trap handler with both
    interrupt loops, double traps and the completion of events.
  \<^item> SbiSse (operations), SbiSseSwitch (registers saved and restored by an event), SbiSseInv and SbiSseSteps (invariant and the effect of each operation), SbiSseSpec
    (the abstract machine), SbiSseBoot (the state after boot), SbiSseDemo (an example), SbiSseProps (the properties), SbiSseList (the pointer lists
    of the code implement the lists of the model).

  \<^bold>\<open>Interfaces.\<close>  Where one component relies on another the laws are a locale, interpreted on the model of the provider: \<open>bounded_queue\<close> (ring buffer), \<open>index_set\<close>
  (hart masks), \<open>allocator\<close> (heap), \<open>ipi_controller\<close> (interrupt device of SbiIpi, provided by the ACLINT device in SbiMswi), \<open>list_store\<close> (linked lists, used by SbiSseList),
  \<open>fwft_table\<close> (table of features).

  \<^bold>\<open>Conventions.\<close>  Unsigned C integers are words of their width (\<open>u8\<close>, \<open>u16\<close>, \<open>u32\<close>, \<open>u64\<close>, with wrap-around); the firmware is modelled for 64-bit
  harts.  A C struct is a record; a pointer into a table is its index or its address.  Errors are the codes of the source.  \<open>None\<close> as the result of an operation means
  that it does not return: a loop that never ends, a hart that hangs, or an access the C language does not define; a theorem that says an operation returns proves
  \<open>Some\<close>.  Interleavings of harts are step relations with one step per atomic access.  Code that is not in the modelled files (devices, platform hooks, the
  kernel, hardware registers, reading of the time) is an argument of the definitions that use it; what is assumed of it stands in the
  theorem, and the witness of the theorem instantiates it.

  \<^bold>\<open>Not modelled.\<close>  Console output and the boot banner (text only); the boot sequence \<open>sbi_init.c\<close> and the probing of extensions and protection registers in \<open>sbi_hart.c\<close> (inline
  assembly that catches its own traps); performance counters, debug triggers, message proxy, processor performance controls and system reset, whose logic is in
  drivers and hardware; the emulation of misaligned accesses and illegal instructions, which are arguments of the trap handler; the remaining drivers and
  platforms; libfdt, toybox and kconfig, which are vendored; the test harness, the tests and the short demonstrations of system calls; the Python material.
\<close>

end
